(* ===== verification/Rust_Prelude.thy ===== *)
theory Rust_Prelude
  imports Main "HOL-Library.Word"
begin

text \<open>
  What every component of the development shares: the error type of
  \<^verbatim>\<open>crates/oxcdf-hdf5/src/error.rs\<close>, the outcome of a Rust computation, the checked and
  saturating arithmetic of \<open>u64\<close> and \<open>usize\<close>, little- and big-endian integers, slices, and the
  lossy UTF-8 decoding of the standard library.

  Conventions.  A byte is \<open>8 word\<close>.  An unsigned field of the file or a \<open>usize\<close> is a \<open>nat\<close>; where
  Rust would overflow, the operation is written with its check (\<open>usize\<close> has 64 bits).  Plain
  \<open>+\<close>, \<open>-\<close>, \<open>*\<close> that overflow panic, as in a build with overflow checks; \<open>saturating_add\<close>,
  \<open>checked_mul\<close> and the like follow the standard library.  An out-of-range index or slice panics.
  A Rust \<open>String\<close> is the list of its UTF-8 bytes.  The text of an error message is reduced to its
  constant part; the interpolated numbers are not kept.
\<close>

section \<open>Outcomes\<close>

type_synonym byte = "8 word"
type_synonym bytes = "byte list"
type_synonym rstring = "byte list"

datatype error =
    Io string
  | Malformed string
  | OutOfBounds string nat nat nat
  | Unsupported string
  | ChecksumMismatch string "32 word" "32 word"
  | NotFound string
  | TypeMismatch string string rstring
  | BadRequest string
  | Incomplete

text \<open>
  A call returns a value, returns an error, or panics.  A panic is kept apart from the errors,
  because the repository promises that a damaged file yields an error and never a panic.
\<close>

datatype failure = Err error | Panic

type_synonym 'a result = "failure + 'a"

abbreviation Ok :: "'a \<Rightarrow> 'a result" where
  "Ok x \<equiv> Inr x"

abbreviation Error :: "error \<Rightarrow> 'a result" where
  "Error e \<equiv> Inl (Err e)"

abbreviation panic :: "'a result" where
  "panic \<equiv> Inl Panic"

definition is_fallback_worthy :: "error \<Rightarrow> bool" where
  "is_fallback_worthy e = (case e of Unsupported _ \<Rightarrow> True | _ \<Rightarrow> False)"

fun and_then :: "'a result \<Rightarrow> ('a \<Rightarrow> 'b result) \<Rightarrow> 'b result" where
  "and_then (Inl e) f = Inl e"
| "and_then (Inr x) f = f x"

named_theorems result_simps \<open>equations and inversions of results\<close>
named_theorems safe_intros \<open>rules that a computation does not panic\<close>

lemma and_then_Ok [result_simps]: "and_then r f = Inr y \<longleftrightarrow> (\<exists>x. r = Inr x \<and> f x = Inr y)"
  by (cases r) auto

lemma and_then_Panic [result_simps]:
  "and_then r f = Inl Panic \<longleftrightarrow> r = Inl Panic \<or> (\<exists>x. r = Inr x \<and> f x = Inl Panic)"
  by (cases r) auto

lemma and_then_assoc: "and_then (and_then r f) g = and_then r (\<lambda>x. and_then (f x) g)"
  by (cases r) auto

lemma and_then_Ok_right [simp]: "and_then r Inr = r"
  by (cases r) auto

lemma and_then_cong [fundef_cong]:
  "r = r' \<Longrightarrow> (\<And>x. r' = Inr x \<Longrightarrow> f x = f' x) \<Longrightarrow> and_then r f = and_then r' f'"
  by (cases r') auto

definition ensure :: "bool \<Rightarrow> error \<Rightarrow> unit result" where
  "ensure b e = (if b then Ok () else Error e)"

lemma ensure_Ok [result_simps]: "ensure b e = Inr u \<longleftrightarrow> b"
  by (simp add: ensure_def)

lemma ensure_no_panic [simp]: "ensure b e \<noteq> Inl Panic"
  by (simp add: ensure_def)

fun map_result :: "('a \<Rightarrow> 'b result) \<Rightarrow> 'a list \<Rightarrow> 'b list result" where
  "map_result f [] = Ok []"
| "map_result f (x # xs) =
     and_then (f x) (\<lambda>y. and_then (map_result f xs) (\<lambda>ys. Ok (y # ys)))"

lemma map_result_Ok: "(\<And>x. x \<in> set xs \<Longrightarrow> f x = Ok (g x)) \<Longrightarrow> map_result f xs = Ok (map g xs)"
  by (induction xs) auto

lemma map_result_length: "map_result f xs = Inr ys \<Longrightarrow> length ys = length xs"
  by (induction xs arbitrary: ys) (auto simp: result_simps)

lemma map_result_no_panic:
  "(\<And>x. x \<in> set xs \<Longrightarrow> f x \<noteq> Inl Panic) \<Longrightarrow> map_result f xs \<noteq> Inl Panic"
  by (induction xs) (auto simp: result_simps)

lemma map_result_nth:
  "map_result f xs = Inr ys \<Longrightarrow> i < length xs \<Longrightarrow> f (xs ! i) = Inr (ys ! i)"
  by (induction xs arbitrary: ys i) (auto simp: result_simps nth_Cons split: nat.splits)

section \<open>Arithmetic of u64 and usize\<close>

definition u64_max :: nat where
  "u64_max = 2 ^ 64 - 1"

definition isize_max :: nat where
  "isize_max = 2 ^ 63 - 1"

definition checked_add :: "nat \<Rightarrow> nat \<Rightarrow> nat option" where
  "checked_add a b = (if a + b \<le> u64_max then Some (a + b) else None)"

definition checked_sub :: "nat \<Rightarrow> nat \<Rightarrow> nat option" where
  "checked_sub a b = (if b \<le> a then Some (a - b) else None)"

definition checked_mul :: "nat \<Rightarrow> nat \<Rightarrow> nat option" where
  "checked_mul a b = (if a * b \<le> u64_max then Some (a * b) else None)"

definition saturating_add :: "nat \<Rightarrow> nat \<Rightarrow> nat" where
  "saturating_add a b = min (a + b) u64_max"

definition saturating_mul :: "nat \<Rightarrow> nat \<Rightarrow> nat" where
  "saturating_mul a b = min (a * b) u64_max"

text \<open>\<open>u64::saturating_sub\<close> is subtraction on \<open>nat\<close>.\<close>

definition wrapping_add :: "nat \<Rightarrow> nat \<Rightarrow> nat" where
  "wrapping_add a b = (a + b) mod 2 ^ 64"

text \<open>The plain operators, which panic on overflow.\<close>

definition add64 :: "nat \<Rightarrow> nat \<Rightarrow> nat result" where
  "add64 a b = (if a + b \<le> u64_max then Ok (a + b) else panic)"

definition sub64 :: "nat \<Rightarrow> nat \<Rightarrow> nat result" where
  "sub64 a b = (if b \<le> a then Ok (a - b) else panic)"

definition mul64 :: "nat \<Rightarrow> nat \<Rightarrow> nat result" where
  "mul64 a b = (if a * b \<le> u64_max then Ok (a * b) else panic)"

definition div_ceil :: "nat \<Rightarrow> nat \<Rightarrow> nat" where
  "div_ceil a b = a div b + (if a mod b = 0 then 0 else 1)"

definition is_power_of_two :: "nat \<Rightarrow> bool" where
  "is_power_of_two v \<longleftrightarrow> v \<in> set (map (\<lambda>k. 2 ^ k) [0..<64])"

lemma add64_Ok [result_simps]: "add64 a b = Inr c \<longleftrightarrow> a + b \<le> u64_max \<and> c = a + b"
  by (auto simp: add64_def)

lemma sub64_Ok [result_simps]: "sub64 a b = Inr c \<longleftrightarrow> b \<le> a \<and> c = a - b"
  by (auto simp: sub64_def)

lemma mul64_Ok [result_simps]: "mul64 a b = Inr c \<longleftrightarrow> a * b \<le> u64_max \<and> c = a * b"
  by (auto simp: mul64_def)

lemma add64_panic [result_simps]: "add64 a b = Inl Panic \<longleftrightarrow> u64_max < a + b"
  by (auto simp: add64_def)

lemma sub64_panic [result_simps]: "sub64 a b = Inl Panic \<longleftrightarrow> a < b"
  by (auto simp: sub64_def)

lemma mul64_panic [result_simps]: "mul64 a b = Inl Panic \<longleftrightarrow> u64_max < a * b"
  by (auto simp: mul64_def)

lemma div_ceil_le_iff:
  assumes "0 < b"
  shows "div_ceil a b \<le> k \<longleftrightarrow> a \<le> k * b"
proof -
  have split: "a = a div b * b + a mod b" by simp
  have "a mod b < b" using assms by simp
  show ?thesis
  proof (cases "a mod b = 0")
    case True
    then have "a = a div b * b" using split by simp
    then show ?thesis using assms True
      by (metis add.right_neutral div_ceil_def mult_le_cancel2)
  next
    case False
    have "a div b + 1 \<le> k \<longleftrightarrow> a < k * b"
      using assms by (metis Suc_eq_plus1 Suc_le_eq less_mult_imp_div_less div_less_iff_less_mult)
    moreover have "a \<noteq> k * b" using False by auto
    ultimately show ?thesis using False by (auto simp: div_ceil_def)
  qed
qed

lemma div_ceil_mult_ge: "0 < b \<Longrightarrow> a \<le> div_ceil a b * b"
  using div_ceil_le_iff [of b a "div_ceil a b"] by simp

section \<open>Slices\<close>

text \<open>\<open>&xs[a..b]\<close> panics unless \<open>a \<le> b \<le> len\<close>; \<open>xs[i]\<close> panics unless \<open>i < len\<close>.\<close>

definition slice :: "nat \<Rightarrow> nat \<Rightarrow> 'a list \<Rightarrow> 'a list" where
  "slice a n xs = take n (drop a xs)"

definition slice_range :: "'a list \<Rightarrow> nat \<Rightarrow> nat \<Rightarrow> 'a list result" where
  "slice_range xs a b = (if a \<le> b \<and> b \<le> length xs then Ok (slice a (b - a) xs) else panic)"

definition index_at :: "'a list \<Rightarrow> nat \<Rightarrow> 'a result" where
  "index_at xs i = (if i < length xs then Ok (xs ! i) else panic)"

lemma slice_range_Ok [result_simps]:
  "slice_range xs a b = Inr ys \<longleftrightarrow> a \<le> b \<and> b \<le> length xs \<and> ys = slice a (b - a) xs"
  by (auto simp: slice_range_def)

lemma slice_range_panic [result_simps]:
  "slice_range xs a b = Inl Panic \<longleftrightarrow> \<not> (a \<le> b \<and> b \<le> length xs)"
  by (auto simp: slice_range_def)

lemma index_at_Ok [result_simps]: "index_at xs i = Inr x \<longleftrightarrow> i < length xs \<and> x = xs ! i"
  by (auto simp: index_at_def)

lemma index_at_panic [result_simps]: "index_at xs i = Inl Panic \<longleftrightarrow> length xs \<le> i"
  by (auto simp: index_at_def)

lemma length_slice [simp]: "length (slice a n xs) = min n (length xs - a)"
  by (simp add: slice_def)

lemma nth_slice [simp]: "i < n \<Longrightarrow> a + i < length xs \<Longrightarrow> slice a n xs ! i = xs ! (a + i)"
  by (simp add: slice_def)

lemma slice_0 [simp]: "slice 0 n xs = take n xs"
  by (simp add: slice_def)

lemma slice_zero_len [simp]: "slice a 0 xs = []"
  by (simp add: slice_def)

lemma slice_slice: "i + m \<le> n \<Longrightarrow> slice i m (slice a n xs) = slice (a + i) m xs"
  by (simp add: slice_def drop_take add.commute min_absorb1)

lemma slice_min: "slice a (min n (length xs - a)) xs = slice a n xs"
  by (simp add: slice_def min_def)

lemma slice_append_adjacent: "slice a n xs @ slice (a + n) m xs = slice a (n + m) xs"
  by (simp add: slice_def take_add drop_drop add.commute [of n a])

section \<open>Row-major tables\<close>

definition rows :: "nat \<Rightarrow> nat \<Rightarrow> (nat \<Rightarrow> nat \<Rightarrow> 'a) \<Rightarrow> 'a list" where
  "rows m n g = concat (map (\<lambda>i. map (g i) [0..<n]) [0..<m])"

lemma length_rows [simp]: "length (rows m n g) = m * n"
  by (induction m) (auto simp: rows_def)

lemma rows_Suc: "rows (Suc m) n g = rows m n g @ map (g m) [0..<n]"
  by (simp add: rows_def)

lemma rows_index: "i < m \<Longrightarrow> j < n \<Longrightarrow> i * n + j < m * (n :: nat)"
proof -
  assume "i < m" "j < n"
  then have "i * n + j < Suc i * n" by simp
  also have "\<dots> \<le> m * n" using \<open>i < m\<close> by (intro mult_le_mono1) simp
  finally show ?thesis .
qed

lemma rows_nth: "i < m \<Longrightarrow> j < n \<Longrightarrow> rows m n g ! (i * n + j) = g i j"
proof (induction m)
  case (Suc m)
  show ?case
  proof (cases "i < m")
    case True
    then show ?thesis using Suc rows_index [OF True Suc.prems(2)] by (simp add: rows_Suc nth_append)
  next
    case False
    then show ?thesis using Suc.prems by (simp add: rows_Suc nth_append less_Suc_eq)
  qed
qed simp

lemma rows_cong: "(\<And>i j. i < m \<Longrightarrow> j < n \<Longrightarrow> g i j = h i j) \<Longrightarrow> rows m n g = rows m n h"
  unfolding rows_def by (intro arg_cong [where f = concat] map_cong) auto

lemma concat_rows:
  "(\<And>k. k < m \<Longrightarrow> length (f k) = n) \<Longrightarrow> concat (map f [0..<m]) = rows m n (\<lambda>k j. f k ! j)"
  unfolding rows_def
  by (intro arg_cong [where f = concat] map_cong refl) (auto intro!: nth_equalityI)

lemma rows_take: "m * n \<le> length xs \<Longrightarrow> rows m n (\<lambda>i j. xs ! (i * n + j)) = take (m * n) xs"
proof (induction m)
  case (Suc m)
  have "map (\<lambda>j. xs ! (m * n + j)) [0..<n] = take n (drop (m * n) xs)"
    using Suc.prems by (intro nth_equalityI) auto
  then show ?case using Suc by (simp add: rows_Suc take_add add.commute [of n])
qed (simp add: rows_def)

section \<open>Integers in bytes\<close>

fun le_nat :: "bytes \<Rightarrow> nat" where
  "le_nat [] = 0"
| "le_nat (b # bs) = unat b + 256 * le_nat bs"

definition be_nat :: "bytes \<Rightarrow> nat" where
  "be_nat bs = le_nat (rev bs)"

fun to_le :: "nat \<Rightarrow> nat \<Rightarrow> bytes" where
  "to_le 0 n = []"
| "to_le (Suc w) n = of_nat (n mod 256) # to_le w (n div 256)"

lemma to_le_numeral:
  "to_le (numeral k) n = of_nat (n mod 256) # to_le (pred_numeral k) (n div 256)"
  unfolding numeral_eq_Suc [of k] to_le.simps ..

lemma length_to_le [simp]: "length (to_le w n) = w"
  by (induction w n rule: to_le.induct) auto

lemma unat_byte_less: "unat (b :: byte) < 256"
  using unsigned_less [of b] by simp

lemma le_nat_bound: "le_nat bs < 256 ^ length bs"
proof (induction bs)
  case (Cons b bs)
  have "unat b < 256" by (rule unat_byte_less)
  moreover have "le_nat bs + 1 \<le> 256 ^ length bs" using Cons by simp
  ultimately have "unat b + 256 * le_nat bs < 256 * 256 ^ length bs" by linarith
  then show ?case by simp
qed simp

lemma le_nat_append: "le_nat (xs @ ys) = le_nat xs + 256 ^ length xs * le_nat ys"
  by (induction xs) (auto simp: algebra_simps)

lemma unat_of_nat_byte: "n < 256 \<Longrightarrow> unat (of_nat n :: byte) = n"
  by (simp add: unat_of_nat take_bit_nat_eq_self)

lemma le_nat_to_le [simp]: "le_nat (to_le w n) = n mod 256 ^ w"
proof (induction w n rule: to_le.induct)
  case (2 w n)
  have "n mod (256 * 256 ^ w) = n mod 256 + 256 * (n div 256 mod 256 ^ w)"
    by (simp add: mod_mult2_eq)
  then show ?case using 2 by (simp add: unat_of_nat_byte)
qed simp

lemma to_le_le_nat [simp]: "to_le (length bs) (le_nat bs) = bs"
proof (induction bs)
  case (Cons b bs)
  have "unat b < 256" by (rule unat_byte_less)
  then have "(unat b + 256 * le_nat bs) mod 256 = unat b"
    and "(unat b + 256 * le_nat bs) div 256 = le_nat bs" by simp_all
  then show ?case using Cons by simp
qed simp

lemma pow256_u64: "w \<le> 8 \<Longrightarrow> (256 :: nat) ^ w - 1 \<le> u64_max"
proof -
  assume "w \<le> 8"
  then have "(256 :: nat) ^ w \<le> 256 ^ 8" by (intro power_increasing) auto
  then show ?thesis by (simp add: u64_max_def)
qed

lemma le_nat_u64: "length bs \<le> 8 \<Longrightarrow> le_nat bs \<le> u64_max"
  using le_nat_bound [of bs] pow256_u64 [of "length bs"] by linarith

lemma le_nat_eq_iff: "length xs = length ys \<Longrightarrow> le_nat xs = le_nat ys \<longleftrightarrow> xs = ys"
  using to_le_le_nat by metis

definition ascii :: "string \<Rightarrow> bytes" where
  "ascii s = map (\<lambda>c. of_nat (of_char c)) s"

section \<open>Position of a byte\<close>

fun position :: "('a \<Rightarrow> bool) \<Rightarrow> 'a list \<Rightarrow> nat option" where
  "position P [] = None"
| "position P (x # xs) = (if P x then Some 0 else map_option Suc (position P xs))"

lemma position_Some:
  "position P xs = Some i \<Longrightarrow> i < length xs \<and> P (xs ! i) \<and> (\<forall>j < i. \<not> P (xs ! j))"
proof (induction xs arbitrary: i)
  case (Cons x xs)
  then show ?case by (cases i) (auto split: if_splits simp: nth_Cons split: nat.splits)
qed simp

lemma position_None: "position P xs = None \<longleftrightarrow> (\<forall>x \<in> set xs. \<not> P x)"
  by (induction xs) auto

definition position_or :: "('a \<Rightarrow> bool) \<Rightarrow> 'a list \<Rightarrow> nat \<Rightarrow> nat" where
  "position_or P xs d = (case position P xs of Some i \<Rightarrow> i | None \<Rightarrow> d)"

lemma position_or_le: "position_or P xs (length xs) \<le> length xs"
  using position_Some [of P xs] by (auto simp: position_or_def less_imp_le split: option.splits)

lemma take_position_or: "take (position_or P xs (length xs)) xs = takeWhile (\<lambda>x. \<not> P x) xs"
proof (induction xs)
  case (Cons x xs)
  then show ?case
    by (auto simp: position_or_def split: option.splits)
qed (simp add: position_or_def)

end
