(* ===== verification/Utf8.thy ===== *)
theory Utf8
  imports Rust_Prelude
begin

text \<open>
  \<^verbatim>\<open>String::from_utf8_lossy\<close> and \<^verbatim>\<open>std::str::from_utf8\<close>, which every name and text value of a file
  goes through (\<^verbatim>\<open>decode_utf8\<close> of \<^verbatim>\<open>cursor.rs\<close>, \<^verbatim>\<open>LocalHeap::name_at\<close>, \<^verbatim>\<open>read_name\<close> of \<^verbatim>\<open>classic.rs\<close>).
  One step of the standard library's decoder looks at the head of the input and reports whether
  it is a character and how many bytes it consumed; a maximal ill-formed prefix becomes the
  replacement character U+FFFD.
\<close>

definition safe_get :: "bytes \<Rightarrow> nat \<Rightarrow> nat" where
  "safe_get bs i = (if i < length bs then unat (bs ! i) else 0)"

definition is_cont :: "nat \<Rightarrow> bool" where
  "is_cont n \<longleftrightarrow> 128 \<le> n \<and> n \<le> 191"

definition second_of_three :: "nat \<Rightarrow> nat \<Rightarrow> bool" where
  "second_of_three b c \<longleftrightarrow>
     (b = 224 \<and> 160 \<le> c \<and> c \<le> 191) \<or> (225 \<le> b \<and> b \<le> 236 \<and> is_cont c)
     \<or> (b = 237 \<and> 128 \<le> c \<and> c \<le> 159) \<or> (238 \<le> b \<and> b \<le> 239 \<and> is_cont c)"

definition second_of_four :: "nat \<Rightarrow> nat \<Rightarrow> bool" where
  "second_of_four b c \<longleftrightarrow>
     (b = 240 \<and> 144 \<le> c \<and> c \<le> 191) \<or> (241 \<le> b \<and> b \<le> 243 \<and> is_cont c)
     \<or> (b = 244 \<and> 128 \<le> c \<and> c \<le> 143)"

definition utf8_step :: "bytes \<Rightarrow> bool \<times> nat" where
  "utf8_step bs =
     (let b = safe_get bs 0 in
      if b < 128 then (True, 1)
      else if 194 \<le> b \<and> b \<le> 223 then
        (if is_cont (safe_get bs 1) then (True, 2) else (False, 1))
      else if 224 \<le> b \<and> b \<le> 239 then
        (if \<not> second_of_three b (safe_get bs 1) then (False, 1)
         else if \<not> is_cont (safe_get bs 2) then (False, 2) else (True, 3))
      else if 240 \<le> b \<and> b \<le> 244 then
        (if \<not> second_of_four b (safe_get bs 1) then (False, 1)
         else if \<not> is_cont (safe_get bs 2) then (False, 2)
         else if \<not> is_cont (safe_get bs 3) then (False, 3) else (True, 4))
      else (False, 1))"

definition replacement :: bytes where
  "replacement = [239, 191, 189]"

lemma utf8_step_pos: "0 < snd (utf8_step bs)"
  by (simp add: utf8_step_def Let_def)

function from_utf8_lossy :: "bytes \<Rightarrow> rstring" where
  "from_utf8_lossy bs =
     (if bs = [] then []
      else (let (ok, n) = utf8_step bs in
            (if ok then take n bs else replacement) @ from_utf8_lossy (drop n bs)))"
  by pat_completeness auto
termination
proof (relation "measure length")
  fix bs :: bytes and p ok n
  assume ne: "bs \<noteq> []" and p: "p = utf8_step bs" and q: "(ok, n) = p"
  have "0 < n" using utf8_step_pos [of bs] p q by (metis snd_conv)
  then show "(drop n bs, bs) \<in> measure length" using ne by simp
qed simp

declare from_utf8_lossy.simps [simp del]

function valid_utf8 :: "bytes \<Rightarrow> bool" where
  "valid_utf8 bs =
     (if bs = [] then True
      else (let (ok, n) = utf8_step bs in ok \<and> valid_utf8 (drop n bs)))"
  by pat_completeness auto
termination
proof (relation "measure length")
  fix bs :: bytes and p ok n
  assume ne: "bs \<noteq> []" and p: "p = utf8_step bs" and q: "(ok, n) = p"
  have "0 < n" using utf8_step_pos [of bs] p q by (metis snd_conv)
  then show "(drop n bs, bs) \<in> measure length" using ne by simp
qed simp

declare valid_utf8.simps [simp del]

lemma safe_get_append: "i < length xs \<Longrightarrow> safe_get (xs @ ys) i = safe_get xs i"
  by (simp add: safe_get_def nth_append)

lemma safe_get_nonzero: "0 < safe_get bs i \<Longrightarrow> i < length bs"
  by (simp add: safe_get_def split: if_splits)

lemma safe_get_take: "i < n \<Longrightarrow> safe_get (take n bs) i = safe_get bs i"
  by (simp add: safe_get_def)

lemmas step_defs = utf8_step_def Let_def is_cont_def second_of_three_def second_of_four_def

text \<open>A character that was accepted lies wholly in the input, and is accepted again on its own.\<close>

lemma utf8_step_length:
  assumes "bs \<noteq> []" and "utf8_step bs = (True, n)"
  shows "n \<le> length bs"
proof -
  have "i < n \<Longrightarrow> i = 0 \<or> 0 < safe_get bs i" for i
    using assms(2)
    by (cases "i = 1"; cases "i = 2"; cases "i = 3") (auto simp: step_defs split: if_splits)
  then have "i < n \<Longrightarrow> i < length bs" for i
    using assms(1) safe_get_nonzero [of bs i] by (metis length_greater_0_conv)
  then show ?thesis using not_le by blast
qed

lemma utf8_step_cong:
  assumes st: "utf8_step bs = (True, n)" and eq: "\<forall>i < n. safe_get cs i = safe_get bs i"
  shows "utf8_step cs = (True, n)"
proof -
  have "0 < n" using utf8_step_pos [of bs] st by simp
  then have "safe_get cs 0 = safe_get bs 0" using eq by blast
  moreover have "1 < n \<longrightarrow> safe_get cs 1 = safe_get bs 1" and "2 < n \<longrightarrow> safe_get cs 2 = safe_get bs 2"
    and "3 < n \<longrightarrow> safe_get cs 3 = safe_get bs 3" using eq by blast+
  ultimately show ?thesis using st by (simp add: utf8_step_def Let_def split: if_splits)
qed

lemma utf8_step_prefix:
  assumes "bs \<noteq> []" and "utf8_step bs = (True, n)"
  shows "utf8_step (take n bs @ ys) = (True, n)"
proof (rule utf8_step_cong [OF assms(2)], intro allI impI)
  fix i
  assume "i < n"
  then show "safe_get (take n bs @ ys) i = safe_get bs i"
    using utf8_step_length [OF assms] by (simp add: safe_get_append safe_get_take)
qed

lemma utf8_step_replacement: "utf8_step (replacement @ ys) = (True, 3)"
  by (simp add: replacement_def safe_get_def step_defs)

lemma valid_utf8_step:
  assumes "xs \<noteq> []" and "utf8_step xs = (True, length xs)" and "valid_utf8 ys"
    and "\<And>zs. utf8_step (xs @ zs) = (True, length xs)"
  shows "valid_utf8 (xs @ ys)"
  using assms by (subst valid_utf8.simps) simp

lemma valid_from_utf8_lossy: "valid_utf8 (from_utf8_lossy bs)"
proof (induction bs rule: from_utf8_lossy.induct)
  case (1 bs)
  show ?case
  proof (cases "bs = []")
    case False
    obtain ok n where st: "utf8_step bs = (ok, n)" by fastforce
    have IH: "valid_utf8 (from_utf8_lossy (drop n bs))" using 1 False st by simp
    show ?thesis
    proof (cases ok)
      case True
      have st': "utf8_step bs = (True, n)" using st True by simp
      have pre: "utf8_step (take n bs @ zs) = (True, n)" for zs
        using False st' by (rule utf8_step_prefix)
      have len: "length (take n bs) = n" using utf8_step_length [OF False st'] by simp
      have ne: "take n bs \<noteq> []" using False utf8_step_pos [of bs] st by simp
      have "valid_utf8 (take n bs @ from_utf8_lossy (drop n bs))"
        using valid_utf8_step [OF ne _ IH] pre len pre [of "[]"] by simp
      then show ?thesis using False st True by (subst from_utf8_lossy.simps) simp
    next
      case no: False
      have "valid_utf8 (replacement @ from_utf8_lossy (drop n bs))"
        using valid_utf8_step [of replacement, OF _ _ IH] utf8_step_replacement
          utf8_step_replacement [of "[]"] by (simp add: replacement_def)
      then show ?thesis using False st no by (subst from_utf8_lossy.simps) simp
    qed
  qed (simp add: from_utf8_lossy.simps valid_utf8.simps)
qed

lemma from_utf8_lossy_id: "valid_utf8 bs \<Longrightarrow> from_utf8_lossy bs = bs"
proof (induction bs rule: from_utf8_lossy.induct)
  case (1 bs)
  show ?case
  proof (cases "bs = []")
    case False
    obtain ok n where st: "utf8_step bs = (ok, n)" by fastforce
    then have ok: "ok" and rest: "valid_utf8 (drop n bs)"
      using "1.prems" False by (auto simp: valid_utf8.simps [of bs])
    then have "from_utf8_lossy (drop n bs) = drop n bs" using 1 False st by simp
    then show ?thesis using False st ok by (subst from_utf8_lossy.simps) simp
  qed (simp add: from_utf8_lossy.simps)
qed

text \<open>ASCII text, which names in real files are, decodes to itself.\<close>

lemma valid_utf8_ascii: "(\<And>b. b \<in> set bs \<Longrightarrow> unat b < 128) \<Longrightarrow> valid_utf8 bs"
proof (induction bs)
  case (Cons b bs)
  then show ?case by (subst valid_utf8.simps) (simp add: utf8_step_def safe_get_def)
qed (simp add: valid_utf8.simps)

end
