(* ===== verification/Byte_Cursor.thy ===== *)
theory Byte_Cursor
  imports Rust_Prelude Utf8
begin

text \<open>
  The little-endian cursor of \<^verbatim>\<open>crates/oxcdf-hdf5/src/cursor.rs\<close>.  A \<open>&mut self\<close> method is a
  function from a cursor to a result with the value and the moved cursor; \<open>bind_p\<close> is the
  sequencing that Rust writes with \<open>?\<close>.  The predicate \<open>safe_parser\<close> says that a method neither
  panics nor leaves its buffer, and composes along \<open>bind_p\<close>.
\<close>

unbundle bit_operations_syntax

section \<open>Widths and the cursor\<close>

record sizes =
  offset_size :: nat
  length_size :: nat

definition EIGHT :: sizes where
  "EIGHT = \<lparr>offset_size = 8, length_size = 8\<rparr>"

definition undefined_for_width :: "nat \<Rightarrow> nat" where
  "undefined_for_width width = (if width \<ge> 8 then u64_max else 2 ^ (width * 8) - 1)"

definition is_undefined_address :: "sizes \<Rightarrow> nat \<Rightarrow> bool" where
  "is_undefined_address s v \<longleftrightarrow> undefined_for_width (offset_size s) = v"

record cursor =
  buf :: bytes
  pos :: nat

type_synonym 'a parser = "cursor \<Rightarrow> ('a \<times> cursor) result"

definition new_cursor :: "bytes \<Rightarrow> cursor" where
  "new_cursor b = \<lparr>buf = b, pos = 0\<rparr>"

definition cursor_at :: "bytes \<Rightarrow> nat \<Rightarrow> cursor" where
  "cursor_at b p = \<lparr>buf = b, pos = p\<rparr>"

definition ret_p :: "'a \<Rightarrow> 'a parser" where
  "ret_p x = (\<lambda>c. Ok (x, c))"

definition fail_p :: "error \<Rightarrow> 'a parser" where
  "fail_p e = (\<lambda>c. Error e)"

definition lift_p :: "'a result \<Rightarrow> 'a parser" where
  "lift_p r = (\<lambda>c. and_then r (\<lambda>x. Ok (x, c)))"

definition bind_p :: "'a parser \<Rightarrow> ('a \<Rightarrow> 'b parser) \<Rightarrow> 'b parser" where
  "bind_p p f = (\<lambda>c. and_then (p c) (\<lambda>(x, c'). f x c'))"

definition run_p :: "'a parser \<Rightarrow> bytes \<Rightarrow> 'a result" where
  "run_p p b = and_then (p (new_cursor b)) (\<lambda>(x, c). Ok x)"

fun repeat_p :: "nat \<Rightarrow> 'a parser \<Rightarrow> 'a list parser" where
  "repeat_p 0 p = ret_p []"
| "repeat_p (Suc n) p = bind_p p (\<lambda>x. bind_p (repeat_p n p) (\<lambda>xs. ret_p (x # xs)))"

section \<open>The methods\<close>

definition oob :: "cursor \<Rightarrow> nat \<Rightarrow> nat \<Rightarrow> error" where
  "oob c off len = OutOfBounds ''metadata'' off len (length (buf c))"

definition seek :: "nat \<Rightarrow> unit parser" where
  "seek p c = (if p > length (buf c) then Error (oob c p 0) else Ok ((), c\<lparr>pos := p\<rparr>))"

definition remaining :: "cursor \<Rightarrow> nat" where
  "remaining c = length (buf c) - pos c"

definition get_pos :: "nat parser" where
  "get_pos c = Ok (pos c, c)"

definition get_remaining :: "nat parser" where
  "get_remaining c = Ok (remaining c, c)"

definition is_empty :: "cursor \<Rightarrow> bool" where
  "is_empty c \<longleftrightarrow> remaining c = 0"

definition take_bytes :: "nat \<Rightarrow> bytes parser" where
  "take_bytes n c =
     (case checked_add (pos c) n of
        None \<Rightarrow> Error (oob c (pos c) n)
      | Some e \<Rightarrow>
          if e > length (buf c) then Error (oob c (pos c) n)
          else and_then (slice_range (buf c) (pos c) e) (\<lambda>out. Ok (out, c\<lparr>pos := e\<rparr>)))"

definition peek :: "nat \<Rightarrow> cursor \<Rightarrow> bytes result" where
  "peek n c =
     (case checked_add (pos c) n of
        None \<Rightarrow> Error (oob c (pos c) n)
      | Some e \<Rightarrow>
          if e > length (buf c) then Error (oob c (pos c) n) else slice_range (buf c) (pos c) e)"

definition skip :: "nat \<Rightarrow> unit parser" where
  "skip n = bind_p (take_bytes n) (\<lambda>_. ret_p ())"

definition align_to :: "nat \<Rightarrow> unit parser" where
  "align_to a = bind_p get_pos (\<lambda>p. if p mod a \<noteq> 0 then skip (a - p mod a) else ret_p ())"

definition u8 :: "nat parser" where
  "u8 = bind_p (take_bytes 1) (\<lambda>b. ret_p (le_nat b))"

definition u16 :: "nat parser" where
  "u16 = bind_p (take_bytes 2) (\<lambda>b. ret_p (le_nat b))"

definition u32 :: "nat parser" where
  "u32 = bind_p (take_bytes 4) (\<lambda>b. ret_p (le_nat b))"

definition u64 :: "nat parser" where
  "u64 = bind_p (take_bytes 8) (\<lambda>b. ret_p (le_nat b))"

text \<open>A cursor over the next \<open>n\<close> bytes alone: \<open>Cursor::new(cur.take(n)?)\<close>.\<close>

definition sub_p :: "nat \<Rightarrow> 'a parser \<Rightarrow> 'a parser" where
  "sub_p n p = bind_p (take_bytes n) (\<lambda>bs. lift_p (run_p p bs))"

text \<open>The loop of \<open>uint\<close>: byte \<open>i\<close> is shifted left by \<open>8 * i\<close> bits and or-ed in.\<close>

fun uint_loop :: "nat \<Rightarrow> bytes \<Rightarrow> 64 word \<Rightarrow> 64 word" where
  "uint_loop i [] value = value"
| "uint_loop i (b # bs) value = uint_loop (Suc i) bs (value OR push_bit (8 * i) (ucast b))"

definition read_uint :: "nat \<Rightarrow> nat parser" where
  "read_uint width =
     (if width = 0 then ret_p 0
      else if width > 8 then fail_p (Unsupported ''integer width exceeds 8'')
      else bind_p (take_bytes width) (\<lambda>bs. ret_p (unat (uint_loop 0 bs 0))))"

definition read_address :: "sizes \<Rightarrow> nat option parser" where
  "read_address s =
     bind_p (read_uint (offset_size s)) (\<lambda>raw.
       ret_p (if is_undefined_address s raw then None else Some raw))"

definition address_required :: "sizes \<Rightarrow> string \<Rightarrow> nat parser" where
  "address_required s what =
     bind_p (read_address s) (\<lambda>a.
       case a of None \<Rightarrow> fail_p (Malformed (what @ '' has an undefined address''))
               | Some v \<Rightarrow> ret_p v)"

definition read_length :: "sizes \<Rightarrow> nat parser" where
  "read_length s = read_uint (length_size s)"

definition decode_utf8 :: "bytes \<Rightarrow> rstring result" where
  "decode_utf8 bs = (if valid_utf8 bs then Ok bs else Ok (from_utf8_lossy bs))"

definition cstring :: "rstring parser" where
  "cstring c =
     and_then (slice_range (buf c) (pos c) (length (buf c))) (\<lambda>rest.
       case position (\<lambda>b. b = 0) rest of
         None \<Rightarrow> Error (Malformed ''unterminated string in metadata'')
       | Some p \<Rightarrow>
           and_then (slice_range (buf c) (pos c) (pos c + p)) (\<lambda>raw.
             and_then (decode_utf8 raw) (\<lambda>s. Ok (s, c\<lparr>pos := pos c + p + 1\<rparr>))))"

definition cstring_padded :: "nat \<Rightarrow> rstring parser" where
  "cstring_padded a =
     bind_p get_pos (\<lambda>start. bind_p cstring (\<lambda>s. bind_p get_pos (\<lambda>fin.
       bind_p (if (fin - start) mod a \<noteq> 0 then skip (a - (fin - start) mod a) else ret_p ())
         (\<lambda>_. ret_p s))))"

definition fixed_string :: "nat \<Rightarrow> rstring parser" where
  "fixed_string n =
     bind_p (take_bytes n) (\<lambda>raw.
       lift_p (decode_utf8 (take (position_or (\<lambda>b. b = 0) raw (length raw)) raw)))"

section \<open>Parsers stay inside their buffer\<close>

definition wf_cursor :: "cursor \<Rightarrow> bool" where
  "wf_cursor c \<longleftrightarrow> pos c \<le> length (buf c) \<and> length (buf c) \<le> isize_max"

definition moves :: "cursor \<Rightarrow> cursor \<Rightarrow> bool" where
  "moves c c' \<longleftrightarrow> buf c' = buf c \<and> pos c \<le> pos c' \<and> pos c' \<le> length (buf c)"

definition safe_parser :: "'a parser \<Rightarrow> bool" where
  "safe_parser p \<longleftrightarrow>
     (\<forall>c. wf_cursor c \<longrightarrow> p c \<noteq> Inl Panic \<and> (\<forall>x c'. p c = Inr (x, c') \<longrightarrow> moves c c'))"

lemma moves_refl: "wf_cursor c \<Longrightarrow> moves c c"
  by (simp add: moves_def wf_cursor_def)

lemma moves_trans: "moves a b \<Longrightarrow> moves b c \<Longrightarrow> moves a c"
  by (auto simp: moves_def)

lemma moves_wf: "moves c c' \<Longrightarrow> wf_cursor c \<Longrightarrow> wf_cursor c'"
  by (simp add: moves_def wf_cursor_def)

lemma wf_new_cursor [simp]: "wf_cursor (new_cursor b) \<longleftrightarrow> length b \<le> isize_max"
  by (simp add: wf_cursor_def new_cursor_def)

lemma safe_parserI:
  assumes "\<And>c. wf_cursor c \<Longrightarrow> p c \<noteq> Inl Panic"
    and "\<And>c x c'. wf_cursor c \<Longrightarrow> p c = Inr (x, c') \<Longrightarrow> moves c c'"
  shows "safe_parser p"
  using assms by (auto simp: safe_parser_def)

lemma safe_parser_no_panic: "safe_parser p \<Longrightarrow> wf_cursor c \<Longrightarrow> p c \<noteq> Inl Panic"
  by (simp add: safe_parser_def)

lemma safe_parser_moves: "safe_parser p \<Longrightarrow> wf_cursor c \<Longrightarrow> p c = Inr (x, c') \<Longrightarrow> moves c c'"
  by (simp add: safe_parser_def)

lemma bind_p_Ok [result_simps]:
  "bind_p p f c = Inr r \<longleftrightarrow> (\<exists>x c'. p c = Inr (x, c') \<and> f x c' = Inr r)"
  by (auto simp: bind_p_def and_then_Ok)

lemma bind_p_panic [result_simps]:
  "bind_p p f c = Inl Panic \<longleftrightarrow>
     p c = Inl Panic \<or> (\<exists>x c'. p c = Inr (x, c') \<and> f x c' = Inl Panic)"
  by (auto simp: bind_p_def and_then_Panic)

lemma ret_p_Ok [result_simps]: "ret_p x c = Inr (y, c') \<longleftrightarrow> y = x \<and> c' = c"
  by (auto simp: ret_p_def)

lemma bind_ret_p [simp]: "bind_p (ret_p x) f = f x"
  by (simp add: bind_p_def ret_p_def)

lemma bind_fail_p [simp]: "bind_p (fail_p e) f = fail_p e"
  by (auto simp: bind_p_def fail_p_def)

lemma safe_ret [safe_intros]: "safe_parser (ret_p x)"
  by (auto simp: safe_parser_def ret_p_def moves_refl)

lemma safe_fail [safe_intros]: "safe_parser (fail_p e)"
  by (auto simp: safe_parser_def fail_p_def)

lemma safe_lift [safe_intros]: "r \<noteq> Inl Panic \<Longrightarrow> safe_parser (lift_p r)"
  by (auto simp: safe_parser_def lift_p_def and_then_Ok and_then_Panic moves_refl)

lemma safe_bind_moves:
  assumes p: "safe_parser p"
    and f: "\<And>x c. wf_cursor c \<Longrightarrow> (\<exists>c0. p c0 = Inr (x, c)) \<Longrightarrow>
      f x c \<noteq> Inl Panic \<and> (\<forall>y c'. f x c = Inr (y, c') \<longrightarrow> moves c c')"
  shows "safe_parser (bind_p p f)"
proof (rule safe_parserI)
  fix c :: cursor
  assume wf: "wf_cursor c"
  have step: "moves c c' \<and> wf_cursor c'" if "p c = Inr (x, c')" for x c'
    using safe_parser_moves [OF p wf that] moves_wf [OF _ wf] by blast
  show "bind_p p f c \<noteq> Inl Panic"
    using safe_parser_no_panic [OF p wf] step f by (fastforce simp: bind_p_panic)
  show "moves c c'" if "bind_p p f c = Inr (y, c')" for y c'
    using that step f moves_trans by (fastforce simp: bind_p_Ok)
qed

lemma safe_bind [safe_intros]:
  "safe_parser p \<Longrightarrow> (\<And>x. safe_parser (f x)) \<Longrightarrow> safe_parser (bind_p p f)"
  by (rule safe_bind_moves) (auto simp: safe_parser_def)

lemma safe_if [safe_intros]:
  "(b \<Longrightarrow> safe_parser p) \<Longrightarrow> (\<not> b \<Longrightarrow> safe_parser q) \<Longrightarrow> safe_parser (if b then p else q)"
  by simp

lemma safe_option [safe_intros]:
  "safe_parser p \<Longrightarrow> (\<And>x. safe_parser (f x)) \<Longrightarrow>
   safe_parser (case z of None \<Rightarrow> p | Some x \<Rightarrow> f x)"
  by (cases z) auto

lemma safe_repeat [safe_intros]: "safe_parser p \<Longrightarrow> safe_parser (repeat_p n p)"
  by (induction n) (auto intro!: safe_intros)

lemma take_bytes_Ok [result_simps]:
  "take_bytes n c = Inr (bs, c') \<longleftrightarrow>
     pos c + n \<le> u64_max \<and> pos c + n \<le> length (buf c)
     \<and> bs = slice (pos c) n (buf c) \<and> c' = c\<lparr>pos := pos c + n\<rparr>"
  by (auto simp: take_bytes_def checked_add_def slice_range_def)

lemma safe_take_bytes [safe_intros]: "safe_parser (take_bytes n)"
proof (rule safe_parserI)
  fix c :: cursor
  assume "wf_cursor c"
  show "take_bytes n c \<noteq> Inl Panic"
    by (auto simp: take_bytes_def checked_add_def slice_range_def)
  show "moves c c'" if "take_bytes n c = Inr (x, c')" for x c'
    using that by (auto simp: take_bytes_Ok moves_def)
qed

lemma safe_get_pos [safe_intros]: "safe_parser get_pos"
  by (auto simp: safe_parser_def get_pos_def moves_refl)

lemma safe_get_remaining [safe_intros]: "safe_parser get_remaining"
  by (auto simp: safe_parser_def get_remaining_def moves_refl)

lemma safe_skip [safe_intros]: "safe_parser (skip n)"
  by (simp add: skip_def safe_intros)

lemma safe_u8 [safe_intros]: "safe_parser u8"
  by (simp add: u8_def safe_intros)

lemma safe_u16 [safe_intros]: "safe_parser u16"
  by (simp add: u16_def safe_intros)

lemma safe_u32 [safe_intros]: "safe_parser u32"
  by (simp add: u32_def safe_intros)

lemma safe_u64 [safe_intros]: "safe_parser u64"
  by (simp add: u64_def safe_intros)

lemma safe_read_uint [safe_intros]: "safe_parser (read_uint w)"
  by (simp add: read_uint_def safe_intros)

lemma safe_read_address [safe_intros]: "safe_parser (read_address s)"
  by (simp add: read_address_def safe_intros)

lemma safe_address_required [safe_intros]: "safe_parser (address_required s what)"
  unfolding address_required_def by (intro safe_intros)

lemma safe_read_length [safe_intros]: "safe_parser (read_length s)"
  by (simp add: read_length_def safe_intros)

lemma safe_align_to [safe_intros]: "safe_parser (align_to a)"
  unfolding align_to_def by (intro safe_intros)

lemma decode_utf8_eq: "decode_utf8 bs = Ok (from_utf8_lossy bs)"
  by (simp add: decode_utf8_def from_utf8_lossy_id)

lemma safe_cstring [safe_intros]: "safe_parser cstring"
proof (rule safe_parserI)
  fix c :: cursor
  assume wf: "wf_cursor c"
  have rest: "slice_range (buf c) (pos c) (length (buf c)) = Ok (drop (pos c) (buf c))"
    using wf by (simp add: slice_range_def slice_def wf_cursor_def)
  have inside: "pos c + i < length (buf c)" if "position (\<lambda>b. b = 0) (drop (pos c) (buf c)) = Some i" for i
    using position_Some [OF that] by auto
  show "cstring c \<noteq> Inl Panic"
    unfolding cstring_def rest and_then.simps
    by (auto simp: decode_utf8_eq slice_range_def split: option.splits dest!: inside)
  show "moves c c'" if "cstring c = Inr (x, c')" for x c'
    using that inside
    by (fastforce simp: cstring_def rest decode_utf8_eq moves_def result_simps split: option.splits)
qed

lemma safe_cstring_padded [safe_intros]: "safe_parser (cstring_padded a)"
  unfolding cstring_padded_def by (intro safe_intros)

lemma safe_fixed_string [safe_intros]: "safe_parser (fixed_string n)"
  unfolding fixed_string_def by (intro safe_intros) (simp add: decode_utf8_eq)

lemma run_p_no_panic:
  "safe_parser p \<Longrightarrow> length b \<le> isize_max \<Longrightarrow> run_p p b \<noteq> Inl Panic"
  using safe_parser_no_panic [of p "new_cursor b"] by (auto simp: run_p_def and_then_Panic)

lemma safe_sub [safe_intros]:
  assumes "safe_parser p"
  shows "safe_parser (sub_p n p)"
  unfolding sub_p_def
proof (rule safe_bind_moves [OF safe_take_bytes])
  fix bs and c :: cursor
  assume wf: "wf_cursor c" and "\<exists>c0. take_bytes n c0 = Inr (bs, c)"
  then have "length bs \<le> isize_max" by (auto simp: take_bytes_Ok wf_cursor_def)
  then have "safe_parser (lift_p (run_p p bs))" by (intro safe_lift run_p_no_panic [OF assms])
  then show "lift_p (run_p p bs) c \<noteq> Inl Panic \<and>
      (\<forall>y c'. lift_p (run_p p bs) c = Inr (y, c') \<longrightarrow> moves c c')"
    using wf by (auto simp: safe_parser_def)
qed

text \<open>
  Some parsers also slice the buffer they run on, up to a position the cursor reported.  They are
  safe on that buffer.
\<close>

definition safe_on :: "bytes \<Rightarrow> 'a parser \<Rightarrow> bool" where
  "safe_on b p \<longleftrightarrow>
     (\<forall>c. wf_cursor c \<and> buf c = b \<longrightarrow> p c \<noteq> Inl Panic \<and> (\<forall>x c'. p c = Inr (x, c') \<longrightarrow> moves c c'))"

lemma safe_onI: "safe_parser p \<Longrightarrow> safe_on b p"
  by (simp add: safe_on_def safe_parser_def)

lemma safe_on_bind:
  assumes p: "safe_on b p" and f: "\<And>x. safe_on b (f x)"
  shows "safe_on b (bind_p p f)"
  unfolding safe_on_def
proof (intro allI impI)
  fix c :: cursor
  assume c: "wf_cursor c \<and> buf c = b"
  have step: "moves c c' \<and> wf_cursor c' \<and> buf c' = b" if "p c = Inr (x, c')" for x c'
  proof -
    have m: "moves c c'" using p c that unfolding safe_on_def by blast
    then show ?thesis using c moves_wf [OF m] by (simp add: moves_def)
  qed
  show "bind_p p f c \<noteq> Inl Panic \<and> (\<forall>x c'. bind_p p f c = Inr (x, c') \<longrightarrow> moves c c')"
  proof (intro conjI allI impI)
    have "f x c' \<noteq> Inl Panic" if "p c = Inr (x, c')" for x c'
      using f step [OF that] unfolding safe_on_def by blast
    moreover have "p c \<noteq> Inl Panic" using p c unfolding safe_on_def by blast
    ultimately show "bind_p p f c \<noteq> Inl Panic" unfolding bind_p_panic by blast
    fix y c''
    assume "bind_p p f c = Inr (y, c'')"
    then obtain x c' where "p c = Inr (x, c')" "f x c' = Inr (y, c'')" by (auto simp: bind_p_Ok)
    moreover from this have "moves c c'" "moves c' c''" using step f unfolding safe_on_def by blast+
    ultimately show "moves c c''" by (blast intro: moves_trans)
  qed
qed

lemma safe_on_bind_safe: "safe_parser p \<Longrightarrow> (\<And>x. safe_on b (f x)) \<Longrightarrow> safe_on b (bind_p p f)"
  by (rule safe_on_bind [OF safe_onI])

lemma safe_on_pos:
  assumes "\<And>n. n \<le> length b \<Longrightarrow> safe_on b (f n)"
  shows "safe_on b (bind_p get_pos f)"
  using assms by (auto simp: safe_on_def bind_p_def get_pos_def wf_cursor_def)

lemma safe_on_if: "(P \<Longrightarrow> safe_on b p) \<Longrightarrow> (\<not> P \<Longrightarrow> safe_on b q) \<Longrightarrow> safe_on b (if P then p else q)"
  by simp

lemma safe_on_slice:
  "n \<le> length b \<Longrightarrow> (\<And>x. safe_on b (f x)) \<Longrightarrow> safe_on b (bind_p (lift_p (slice_range b 0 n)) f)"
  by (rule safe_on_bind_safe [OF safe_lift]) (simp_all add: slice_range_def)

lemma run_p_no_panic_on:
  "safe_on b p \<Longrightarrow> length b \<le> isize_max \<Longrightarrow> run_p p b \<noteq> Inl Panic"
  unfolding safe_on_def run_p_def and_then_Panic
  using wf_new_cursor [of b] by (auto simp: new_cursor_def)

section \<open>Values of the fixed-width fields\<close>

lemma or_shifted_byte:
  assumes i: "i < 8" and v: "unat v < 2 ^ (8 * i)"
  shows "unat ((v :: 64 word) OR push_bit (8 * i) (ucast (b :: 8 word))) = unat v + 2 ^ (8 * i) * unat b"
proof -
  have b: "unat b < 2 ^ 8" using unsigned_less [of b] by simp
  have le: "8 * i + 8 \<le> 64" using i by simp
  have "2 ^ (8 * i) * unat b < 2 ^ (8 * i) * 2 ^ 8" using b by simp
  also have "\<dots> = 2 ^ (8 * i + 8)" by (simp add: power_add)
  also have "\<dots> \<le> (2 :: nat) ^ 64" using le by (intro power_increasing) auto
  finally have lt: "2 ^ (8 * i) * unat b < (2 :: nat) ^ 64" .
  have u: "unat (ucast b :: 64 word) = unat b"
    using b by (simp add: unsigned_ucast_eq take_bit_nat_eq_self)
  have p: "unat (push_bit (8 * i) (ucast b) :: 64 word) = push_bit (8 * i) (unat b)"
    using lt unfolding unsigned_push_bit_eq u
    by (simp add: take_bit_nat_eq_self push_bit_eq_mult mult.commute)
  have "unat v AND push_bit (8 * i) (unat b) = 0"
  proof -
    have v': "take_bit (8 * i) (unat v) = unat v" using v by (simp add: take_bit_nat_eq_self)
    have "take_bit (8 * i) (unat v) AND push_bit (8 * i) (unat b) = 0"
      by (simp add: bit_eq_iff bit_simps)
    then show ?thesis unfolding v' .
  qed
  then have "unat v OR push_bit (8 * i) (unat b) = unat v + push_bit (8 * i) (unat b)"
    by (simp add: disjunctive_add_eq_or)
  then show ?thesis unfolding unsigned_or_eq p by (simp add: push_bit_eq_mult mult.commute)
qed

lemma uint_loop_nat:
  "length bs + i \<le> 8 \<Longrightarrow> unat v < 2 ^ (8 * i) \<Longrightarrow>
   unat (uint_loop i bs v) = unat v + 2 ^ (8 * i) * le_nat bs"
proof (induction i bs v rule: uint_loop.induct)
  case (2 i b bs v)
  let ?v = "v OR push_bit (8 * i) (ucast b)"
  have v: "unat ?v = unat v + 2 ^ (8 * i) * unat b" using 2 by (intro or_shifted_byte) auto
  have "unat b < 256" using unsigned_less [of b, where 'a = nat] by simp
  then have "unat b \<le> 255" by simp
  then have "2 ^ (8 * i) * unat b \<le> 2 ^ (8 * i) * (255 :: nat)" by (rule mult_le_mono2)
  then have "unat ?v < 2 ^ (8 * i) * 256" unfolding v using "2.prems"(2) by linarith
  then have lt: "unat ?v < 2 ^ (8 * Suc i)" by (simp add: power_add mult.commute)
  then have "unat (uint_loop (Suc i) bs ?v) = unat ?v + 2 ^ (8 * Suc i) * le_nat bs"
    using "2.IH" [OF _ lt] "2.prems"(1) by simp
  then show ?case using v by (simp add: power_add algebra_simps)
qed simp
lemma uint_loop_le_nat: "length bs \<le> 8 \<Longrightarrow> unat (uint_loop 0 bs 0) = le_nat bs"
  using uint_loop_nat [of bs 0 0] by simp

lemma read_uint_eq:
  "read_uint w = (if w \<le> 8 then bind_p (take_bytes w) (\<lambda>bs. ret_p (le_nat bs))
                  else fail_p (Unsupported ''integer width exceeds 8''))"
  if "0 < w"
proof -
  have "bind_p (take_bytes w) (\<lambda>bs. ret_p (unat (uint_loop 0 bs 0))) c =
        bind_p (take_bytes w) (\<lambda>bs. ret_p (le_nat bs)) c" if "w \<le> 8" for c
  proof (cases "take_bytes w c")
    case (Inr r)
    then obtain bs c' where r: "r = (bs, c')" by (cases r) auto
    then have "length bs \<le> 8" using Inr that by (auto simp: take_bytes_Ok)
    then show ?thesis using Inr r by (simp add: bind_p_def uint_loop_le_nat)
  qed (simp add: bind_p_def)
  then show ?thesis using \<open>0 < w\<close> by (auto simp: read_uint_def fun_eq_iff)
qed

lemma read_uint_bound: "read_uint w c = Inr (v, c') \<Longrightarrow> v \<le> u64_max"
proof (cases "w = 0")
  case False
  assume "read_uint w c = Inr (v, c')"
  then show ?thesis
    using False by (auto simp: read_uint_eq result_simps fail_p_def split: if_splits intro!: le_nat_u64)
qed (simp add: read_uint_def ret_p_def)

lemma le_nat_lt_pow: "length bs = w \<Longrightarrow> le_nat bs < 256 ^ w"
  using le_nat_bound [of bs] by simp

lemma u8_bound: "u8 c = Inr (v, c') \<Longrightarrow> v < 256"
  using le_nat_lt_pow [of _ 1] by (auto simp: u8_def result_simps)

lemma u16_bound: "u16 c = Inr (v, c') \<Longrightarrow> v < 65536"
  using le_nat_lt_pow [of _ 2] by (auto simp: u16_def result_simps)

lemma u32_bound: "u32 c = Inr (v, c') \<Longrightarrow> v < 4294967296"
  using le_nat_lt_pow [of _ 4] by (auto simp: u32_def result_simps)

text \<open>How far a successful read moves.\<close>

lemma u8_Ok: "u8 c = Inr (v, c') \<Longrightarrow>
    v = unat (buf c ! pos c) \<and> pos c < length (buf c) \<and> buf c' = buf c \<and> pos c' = pos c + 1"
  by (auto simp: u8_def result_simps slice_def take_Suc_conv_app_nth hd_drop_conv_nth)

lemma skip_moves: "skip n c = Inr (u, c') \<Longrightarrow> buf c' = buf c \<and> pos c' = pos c + n"
  by (auto simp: skip_def result_simps)

lemma u16_moves: "u16 c = Inr (v, c') \<Longrightarrow> buf c' = buf c \<and> pos c' = pos c + 2"
  by (auto simp: u16_def result_simps)

lemma u32_moves: "u32 c = Inr (v, c') \<Longrightarrow> buf c' = buf c \<and> pos c' = pos c + 4"
  by (auto simp: u32_def result_simps)

lemma read_uint_moves: "read_uint w c = Inr (v, c') \<Longrightarrow> buf c' = buf c \<and> pos c' = pos c + w"
  by (auto simp: read_uint_def result_simps fail_p_def split: if_splits)

lemma read_address_moves:
  "read_address s c = Inr (v, c') \<Longrightarrow> buf c' = buf c \<and> pos c' = pos c + offset_size s"
  by (auto simp: read_address_def result_simps dest!: read_uint_moves)

lemmas read_moves = skip_moves u16_moves u32_moves read_uint_moves read_address_moves

section \<open>Round trips: reading what was written\<close>

text \<open>
  \<open>reads p xs v\<close>: wherever the bytes \<open>xs\<close> stand in a buffer, \<open>p\<close> started at them returns \<open>v\<close> and
  stops right behind them.  The rules compose along \<open>bind_p\<close>, so the parser of a structure is
  shown to read its encoding field by field.
\<close>

definition reads :: "'a parser \<Rightarrow> bytes \<Rightarrow> 'a \<Rightarrow> bool" where
  "reads p xs v \<longleftrightarrow>
     (\<forall>pre post. length pre + length xs + length post \<le> isize_max \<longrightarrow>
        p \<lparr>buf = pre @ xs @ post, pos = length pre\<rparr> =
        Ok (v, \<lparr>buf = pre @ xs @ post, pos = length pre + length xs\<rparr>))"

named_theorems reads_intros \<open>rules that a parser reads an encoding\<close>

lemma reads_ret: "reads (ret_p v) [] v"
  by (simp add: reads_def ret_p_def)

lemma reads_bind [reads_intros]:
  assumes p: "reads p xs v" and f: "reads (f v) ys w"
  shows "reads (bind_p p f) (xs @ ys) w"
  unfolding reads_def
proof (intro allI impI)
  fix pre post :: bytes
  assume len: "length pre + length (xs @ ys) + length post \<le> isize_max"
  have 1: "p \<lparr>buf = pre @ xs @ ys @ post, pos = length pre\<rparr> =
      Ok (v, \<lparr>buf = pre @ xs @ ys @ post, pos = length pre + length xs\<rparr>)"
    using p [unfolded reads_def, rule_format, of pre "ys @ post"] len by simp
  have 2: "f v \<lparr>buf = (pre @ xs) @ ys @ post, pos = length (pre @ xs)\<rparr> =
      Ok (w, \<lparr>buf = (pre @ xs) @ ys @ post, pos = length (pre @ xs) + length ys\<rparr>)"
    using f [unfolded reads_def, rule_format, of "pre @ xs" post] len by simp
  show "bind_p p f \<lparr>buf = pre @ (xs @ ys) @ post, pos = length pre\<rparr> =
      Ok (w, \<lparr>buf = pre @ (xs @ ys) @ post, pos = length pre + length (xs @ ys)\<rparr>)"
    using 1 2 by (simp add: bind_p_def add.assoc)
qed

lemma reads_bind_last:
  "reads p xs v \<Longrightarrow> reads (f v) [] w \<Longrightarrow> reads (bind_p p f) xs w"
  using reads_bind [of p xs v f "[]" w] by simp

lemma reads_take [reads_intros]: "length xs = n \<Longrightarrow> reads (take_bytes n) xs xs"
  by (auto simp: reads_def take_bytes_def checked_add_def slice_range_def slice_def
      u64_max_def isize_max_def)

lemma reads_skip [reads_intros]: "length xs = n \<Longrightarrow> reads (skip n) xs ()"
  unfolding skip_def by (rule reads_bind_last [OF reads_take]) (auto intro: reads_ret)

lemma reads_repeat [reads_intros]:
  "(\<And>x. x \<in> set xs \<Longrightarrow> reads p (enc x) x) \<Longrightarrow>
   reads (repeat_p (length xs) p) (concat (map enc xs)) xs"
proof (induction xs)
  case (Cons x xs)
  then show ?case
    by (simp, intro reads_bind) (auto intro!: reads_bind_last reads_ret)
qed (simp add: reads_ret)

lemma reads_u8 [reads_intros]: "n < 256 \<Longrightarrow> reads u8 (to_le 1 n) n"
  unfolding u8_def by (rule reads_bind_last [OF reads_take]) (use reads_ret [of n] in \<open>auto simp: unat_of_nat_byte\<close>)

lemma reads_u16 [reads_intros]: "n < 65536 \<Longrightarrow> reads u16 (to_le 2 n) n"
  unfolding u16_def
  by (rule reads_bind_last [OF reads_take]) (use reads_ret [of n] in \<open>auto simp del: to_le.simps\<close>)

lemma reads_u32 [reads_intros]: "n < 4294967296 \<Longrightarrow> reads u32 (to_le 4 n) n"
  unfolding u32_def
  by (rule reads_bind_last [OF reads_take]) (use reads_ret [of n] in \<open>auto simp del: to_le.simps\<close>)

lemma reads_u64 [reads_intros]: "n < 18446744073709551616 \<Longrightarrow> reads u64 (to_le 8 n) n"
  unfolding u64_def
  by (rule reads_bind_last [OF reads_take]) (use reads_ret [of n] in \<open>auto simp del: to_le.simps\<close>)

lemma reads_uint [reads_intros]:
  assumes "0 < w" and "w \<le> 8" and "n < 256 ^ w"
  shows "reads (read_uint w) (to_le w n) n"
proof -
  have "reads (bind_p (take_bytes w) (\<lambda>bs. ret_p (le_nat bs))) (to_le w n) n"
    by (rule reads_bind_last [OF reads_take])
      (use assms reads_ret [of n] in \<open>auto simp del: to_le.simps\<close>)
  then show ?thesis using assms by (simp add: read_uint_eq)
qed

text \<open>An address field: \<open>None\<close> is written as the all-ones sentinel of the width.\<close>

definition encode_address :: "sizes \<Rightarrow> nat option \<Rightarrow> bytes" where
  "encode_address s a =
     to_le (offset_size s) (case a of None \<Rightarrow> undefined_for_width (offset_size s) | Some v \<Rightarrow> v)"

definition fits_address :: "sizes \<Rightarrow> nat option \<Rightarrow> bool" where
  "fits_address s a \<longleftrightarrow>
     (case a of None \<Rightarrow> True | Some v \<Rightarrow> v < undefined_for_width (offset_size s))"

lemma undefined_for_width_bound: "0 < w \<Longrightarrow> w \<le> 8 \<Longrightarrow> undefined_for_width w = 256 ^ w - 1"
  by (cases "w = 8") (auto simp: undefined_for_width_def u64_max_def power_mult mult.commute [of w 8])

lemma pow256_pos: "(0 :: nat) < 256 ^ w"
  by simp

lemma reads_address [reads_intros]:
  assumes w: "0 < offset_size s" "offset_size s \<le> 8" and fits: "fits_address s a"
  shows "reads (read_address s) (encode_address s a) a"
proof -
  define n where
    "n = (case a of None \<Rightarrow> undefined_for_width (offset_size s) | Some v \<Rightarrow> v)"
  have "n < 256 ^ offset_size s"
    using fits w undefined_for_width_bound [of "offset_size s"] pow256_pos [of "offset_size s"]
    by (auto simp: n_def fits_address_def split: option.splits)
  then have r: "reads (read_uint (offset_size s)) (to_le (offset_size s) n) n"
    using w by (intro reads_uint)
  have "(if is_undefined_address s n then None else Some n) = a"
    using fits by (auto simp: n_def is_undefined_address_def fits_address_def split: option.splits)
  then show ?thesis
    unfolding read_address_def encode_address_def n_def [symmetric]
    by (intro reads_bind_last [OF r]) (use reads_ret [of a] in simp)
qed

lemma reads_address_required [reads_intros]:
  assumes "0 < offset_size s" "offset_size s \<le> 8" and "fits_address s (Some v)"
  shows "reads (address_required s what) (encode_address s (Some v)) v"
  unfolding address_required_def
  by (rule reads_bind_last [OF reads_address [OF assms]]) (simp add: reads_ret)

text \<open>
  The same at a fixed place, \<open>pre\<close> before and \<open>post\<close> behind: for parsers that look at their
  position or at the buffer before it.
\<close>

definition reads_at :: "bytes \<Rightarrow> bytes \<Rightarrow> 'a parser \<Rightarrow> bytes \<Rightarrow> 'a \<Rightarrow> bool" where
  "reads_at pre post p xs v \<longleftrightarrow>
     (length (pre @ xs @ post) \<le> isize_max \<longrightarrow>
        p \<lparr>buf = pre @ xs @ post, pos = length pre\<rparr> =
        Ok (v, \<lparr>buf = pre @ xs @ post, pos = length (pre @ xs)\<rparr>))"

lemma reads_at_of_reads: "reads p xs v \<Longrightarrow> reads_at pre post p xs v"
  by (simp add: reads_def reads_at_def)

lemma reads_at_step:
  assumes "reads p xs v" and "reads_at (pre @ xs) post (f v) ys w"
  shows "reads_at pre post (bind_p p f) (xs @ ys) w"
  using assms(1) [unfolded reads_def, rule_format, of pre "ys @ post"] assms(2)
  by (simp add: reads_at_def bind_p_def)

lemma reads_at_step_last:
  "reads p xs v \<Longrightarrow> reads_at (pre @ xs) post (f v) [] w \<Longrightarrow> reads_at pre post (bind_p p f) xs w"
  using reads_at_step [of p xs v pre post f "[]" w] by simp

lemma reads_at_lift:
  "r = Ok v \<Longrightarrow> reads_at pre post (f v) xs w \<Longrightarrow> reads_at pre post (bind_p (lift_p r) f) xs w"
  by (simp add: reads_at_def bind_p_def lift_p_def)

lemma reads_at_pos:
  "reads_at pre post (f (length pre)) xs w \<Longrightarrow> reads_at pre post (bind_p get_pos f) xs w"
  by (simp add: reads_at_def bind_p_def get_pos_def)

lemma reads_at_ret: "reads_at pre post (ret_p v) [] v"
  by (simp add: reads_at_def ret_p_def)

lemma run_p_reads_at:
  "reads_at [] post p xs v \<Longrightarrow> length (xs @ post) \<le> isize_max \<Longrightarrow> run_p p (xs @ post) = Ok v"
  by (simp add: reads_at_def run_p_def new_cursor_def)

lemma run_p_reads:
  assumes "reads p xs v" and "length xs + length ys \<le> isize_max"
  shows "run_p p (xs @ ys) = Ok v"
  using assms(1) [unfolded reads_def, rule_format, of "[]" ys] assms(2)
  by (simp add: run_p_def new_cursor_def)

section \<open>Parsers that consume\<close>

text \<open>
  \<open>advances n p\<close>: when \<open>p\<close> succeeds it has moved at least \<open>n\<close> bytes inside the same buffer.  The
  loops that run while bytes remain end because one round advances.
\<close>

definition advances :: "nat \<Rightarrow> 'a parser \<Rightarrow> bool" where
  "advances n p \<longleftrightarrow> (\<forall>c x c'. p c = Inr (x, c') \<longrightarrow> buf c' = buf c \<and> pos c + n \<le> pos c')"

named_theorems advances_intros \<open>how far parsers move\<close>

lemma advancesD: "advances n p \<Longrightarrow> p c = Inr (x, c') \<Longrightarrow> buf c' = buf c \<and> pos c + n \<le> pos c'"
  by (auto simp: advances_def)

lemma advances_weaken: "advances n p \<Longrightarrow> m \<le> n \<Longrightarrow> advances m p"
  by (fastforce simp: advances_def)

lemma advances_bind:
  assumes p: "advances m p" and f: "\<And>x. advances n (f x)"
  shows "advances (m + n) (bind_p p f)"
  unfolding advances_def
proof (intro allI impI)
  fix c x c'
  assume "bind_p p f c = Inr (x, c')"
  then obtain y c1 where "p c = Inr (y, c1)" "f y c1 = Inr (x, c')" by (auto simp: bind_p_Ok)
  then show "buf c' = buf c \<and> pos c + (m + n) \<le> pos c'" using advancesD [OF p] advancesD [OF f] by fastforce
qed

lemma advances_bind_left: "advances m p \<Longrightarrow> (\<And>x. advances 0 (f x)) \<Longrightarrow> advances m (bind_p p f)"
  using advances_bind [of m p 0 f] by simp

lemma advances_bind_zero [advances_intros]:
  "advances 0 p \<Longrightarrow> (\<And>x. advances 0 (f x)) \<Longrightarrow> advances 0 (bind_p p f)"
  by (rule advances_bind_left)

lemma advances_ret [advances_intros]: "advances 0 (ret_p x)"
  by (simp add: advances_def ret_p_def)

lemma advances_fail: "advances n (fail_p e)"
  by (simp add: advances_def fail_p_def)

lemma advances_fail_zero [advances_intros]: "advances 0 (fail_p e)"
  by (rule advances_fail)

lemma advances_lift [advances_intros]: "advances 0 (lift_p r)"
  by (cases r) (auto simp: advances_def lift_p_def)

lemma advances_if: "(P \<Longrightarrow> advances n p) \<Longrightarrow> (\<not> P \<Longrightarrow> advances n q) \<Longrightarrow> advances n (if P then p else q)"
  by simp

lemma advances_if_zero [advances_intros]:
  "(P \<Longrightarrow> advances 0 p) \<Longrightarrow> (\<not> P \<Longrightarrow> advances 0 q) \<Longrightarrow> advances 0 (if P then p else q)"
  by simp

lemma advances_option_zero [advances_intros]:
  "advances 0 p \<Longrightarrow> (\<And>x. advances 0 (q x)) \<Longrightarrow> advances 0 (case a of None \<Rightarrow> p | Some x \<Rightarrow> q x)"
  by (cases a) auto

lemma advances_take: "advances n (take_bytes n)"
  by (auto simp: advances_def take_bytes_Ok)

lemma advances_skip: "advances n (skip n)"
  unfolding skip_def by (rule advances_bind_left [OF advances_take]) (rule advances_ret)

lemma advances_u8: "advances 1 u8"
  unfolding u8_def by (rule advances_bind_left [OF advances_take]) (rule advances_ret)

lemma advances_u16: "advances 2 u16"
  unfolding u16_def by (rule advances_bind_left [OF advances_take]) (rule advances_ret)

lemma advances_u32: "advances 4 u32"
  unfolding u32_def by (rule advances_bind_left [OF advances_take]) (rule advances_ret)

lemma advances_u64: "advances 8 u64"
  unfolding u64_def by (rule advances_bind_left [OF advances_take]) (rule advances_ret)

lemma advances_uint: "advances w (read_uint w)"
  by (auto simp: advances_def dest: read_uint_moves)

lemma advances_pos [advances_intros]: "advances 0 get_pos"
  by (simp add: advances_def get_pos_def)

lemma advances_remaining [advances_intros]: "advances 0 get_remaining"
  by (simp add: advances_def get_remaining_def)

lemmas advances_weak [advances_intros] =
  advances_weaken [OF advances_take le0] advances_weaken [OF advances_skip le0]
  advances_weaken [OF advances_u8 le0] advances_weaken [OF advances_u16 le0]
  advances_weaken [OF advances_u32 le0] advances_weaken [OF advances_u64 le0]
  advances_weaken [OF advances_uint le0]

lemma advances_address [advances_intros]: "advances 0 (read_address s)"
  unfolding read_address_def by (intro advances_intros)

lemma advances_address_required [advances_intros]: "advances 0 (address_required s what)"
  unfolding address_required_def by (intro advances_intros)

lemma advances_length [advances_intros]: "advances 0 (read_length s)"
  unfolding read_length_def by (intro advances_intros)

lemma advances_repeat [advances_intros]: "advances 0 p \<Longrightarrow> advances 0 (repeat_p n p)"
  by (induction n) (auto intro!: advances_intros)

section \<open>Properties\<close>

text \<open>
  An address written in the file's width is read back, at any place of a buffer; the all-ones
  sentinel of the width, and only it, is read as no address.
\<close>

theorem address_round_trip:
  assumes "0 < offset_size s" and "offset_size s \<le> 8" and "fits_address s a"
    and "length pre + offset_size s + length post \<le> isize_max"
  shows "read_address s (cursor_at (pre @ encode_address s a @ post) (length pre)) =
     Ok (a, cursor_at (pre @ encode_address s a @ post) (length pre + offset_size s))"
  using reads_address [OF assms(1-3), unfolded reads_def, rule_format, of pre post] assms(4)
  by (simp add: cursor_at_def encode_address_def)

theorem address_round_trip_witness:
  "read_address \<lparr>offset_size = 4, length_size = 4\<rparr> (cursor_at ([7] @ [0x10, 0x20, 0, 0] @ [9]) 1) =
     Ok (Some 0x2010, cursor_at ([7] @ [0x10, 0x20, 0, 0] @ [9]) 5)"
proof -
  have "encode_address \<lparr>offset_size = 4, length_size = 4\<rparr> (Some 0x2010) = [0x10, 0x20, 0, 0]"
    by (simp add: encode_address_def to_le_numeral)
  then show ?thesis
    using address_round_trip [of "\<lparr>offset_size = 4, length_size = 4\<rparr>" "Some 0x2010" "[7]" "[9]"]
    by (simp add: fits_address_def undefined_for_width_def isize_max_def)
qed

text \<open>
  The shift-and-or loop of \<open>uint\<close> on a 64-bit accumulator yields the little-endian value of
  the bytes for every width from 1 to 8, and a wider field is refused.
\<close>

theorem uint_is_little_endian:
  assumes "0 < width" and "pos c + width \<le> length (buf c)" and "length (buf c) \<le> isize_max"
  shows "read_uint width c =
     (if width \<le> 8 then Ok (le_nat (slice (pos c) width (buf c)), c\<lparr>pos := pos c + width\<rparr>)
      else Error (Unsupported ''integer width exceeds 8''))"
proof -
  have "take_bytes width c = Ok (slice (pos c) width (buf c), c\<lparr>pos := pos c + width\<rparr>)"
    using assms by (simp add: take_bytes_Ok isize_max_def u64_max_def)
  then show ?thesis using assms(1) by (simp add: read_uint_eq bind_p_def ret_p_def fail_p_def)
qed

theorem uint_is_little_endian_witness:
  "read_uint 3 (cursor_at [1, 2, 3, 4] 1) = Ok (2 + 256 * 3 + 65536 * 4, cursor_at [1, 2, 3, 4] 4)"
  using uint_is_little_endian [of 3 "cursor_at [1, 2, 3, 4] 1"]
  by (simp add: cursor_at_def isize_max_def slice_def)

text \<open>
  A NUL-terminated string never panics, whatever the bytes: it is the lossy decoding of the
  bytes before the first NUL, always valid UTF-8, or the error for a missing terminator.
\<close>

theorem cstring_total:
  assumes "pos c \<le> length (buf c)"
  shows "cstring c =
     (if 0 \<in> set (drop (pos c) (buf c))
      then Ok (from_utf8_lossy (takeWhile (\<lambda>b. b \<noteq> 0) (drop (pos c) (buf c))),
               c\<lparr>pos := pos c + length (takeWhile (\<lambda>b. b \<noteq> 0) (drop (pos c) (buf c))) + 1\<rparr>)
      else Error (Malformed ''unterminated string in metadata''))
    \<and> (\<forall>s c'. cstring c = Inr (s, c') \<longrightarrow> valid_utf8 s)"
proof -
  let ?rest = "drop (pos c) (buf c)"
  have rest: "slice_range (buf c) (pos c) (length (buf c)) = Ok ?rest"
    using assms by (simp add: slice_range_def slice_def)
  show ?thesis
  proof (cases "position (\<lambda>b. b = 0) ?rest")
    case None
    then have "0 \<notin> set ?rest" by (auto simp: position_None)
    then show ?thesis by (simp add: cstring_def rest None)
  next
    case (Some i)
    have i: "i < length ?rest" "?rest ! i = 0" using position_Some [OF Some] by auto
    have t: "takeWhile (\<lambda>b. b \<noteq> 0) ?rest = take i ?rest"
      using take_position_or [of "\<lambda>b. b = 0" ?rest] Some by (simp add: position_or_def)
    have "0 \<in> set ?rest" using i by (metis nth_mem)
    moreover have "slice_range (buf c) (pos c) (pos c + i) = Ok (take i ?rest)"
      using i by (simp add: slice_range_def slice_def)
    ultimately show ?thesis
      using i by (auto simp: cstring_def rest Some t decode_utf8_eq valid_from_utf8_lossy)
  qed
qed

theorem cstring_total_witness:
  "cstring (cursor_at [104, 105, 0, 7] 0) = Ok (from_utf8_lossy [104, 105], cursor_at [104, 105, 0, 7] 3)"
  using cstring_total [of "cursor_at [104, 105, 0, 7] 0"] by (simp add: cursor_at_def)

end
