(* ===== verification/Checksum.thy ===== *)
theory Checksum
  imports Rust_Prelude
begin

text \<open>
  \<^verbatim>\<open>crates/oxcdf-hdf5/src/checksum.rs\<close>: Jenkins' lookup3, which closes every checksummed metadata
  block, and the Fletcher-32 of the chunk filter.  Both run on 32-bit words; the wrapping
  operations of the source are the operations of \<open>32 word\<close>.
\<close>

unbundle bit_operations_syntax

section \<open>lookup3\<close>

definition rot :: "32 word \<Rightarrow> nat \<Rightarrow> 32 word" where
  "rot x k = word_rotl k x"

definition mix :: "32 word \<times> 32 word \<times> 32 word \<Rightarrow> 32 word \<times> 32 word \<times> 32 word" where
  "mix = (\<lambda>(a, b, c).
     let a = a - c; a = a XOR rot c 4; c = c + b;
         b = b - a; b = b XOR rot a 6; a = a + c;
         c = c - b; c = c XOR rot b 8; b = b + a;
         a = a - c; a = a XOR rot c 16; c = c + b;
         b = b - a; b = b XOR rot a 19; a = a + c;
         c = c - b; c = c XOR rot b 4; b = b + a
     in (a, b, c))"

definition final_mix :: "32 word \<times> 32 word \<times> 32 word \<Rightarrow> 32 word \<times> 32 word \<times> 32 word" where
  "final_mix = (\<lambda>(a, b, c).
     let c = c XOR b; c = c - rot b 14;
         a = a XOR c; a = a - rot c 11;
         b = b XOR a; b = b - rot a 25;
         c = c XOR b; c = c - rot b 16;
         a = a XOR c; a = a - rot c 4;
         b = b XOR a; b = b - rot a 14;
         c = c XOR b; c = c - rot b 24
     in (a, b, c))"

definition le_word :: "bytes \<Rightarrow> 32 word" where
  "le_word bs = word_of_nat (le_nat bs)"

function lookup3_blocks ::
  "bytes \<Rightarrow> 32 word \<times> 32 word \<times> 32 word \<Rightarrow> bytes \<times> 32 word \<times> 32 word \<times> 32 word" where
  "lookup3_blocks k st =
     (if length k > 12 then
        (case st of (a, b, c) \<Rightarrow>
           lookup3_blocks (drop 12 k)
             (mix (a + le_word (slice 0 4 k), b + le_word (slice 4 4 k), c + le_word (slice 8 4 k))))
      else (k, st))"
  by pat_completeness auto
termination
  by (relation "measure (length \<circ> fst)") auto

declare lookup3_blocks.simps [simp del]

text \<open>The tail adds the bytes from the highest down, each guarded by the length.\<close>

definition tail_byte :: "bytes \<Rightarrow> nat \<Rightarrow> nat \<Rightarrow> 32 word \<Rightarrow> 32 word" where
  "tail_byte k i sh x = (if length k \<ge> i + 1 then x + push_bit sh (ucast (k ! i)) else x)"

definition lookup3_tail :: "bytes \<Rightarrow> 32 word \<times> 32 word \<times> 32 word \<Rightarrow> 32 word" where
  "lookup3_tail k = (\<lambda>(a, b, c).
     if length k = 0 then c
     else
       let c = tail_byte k 11 24 c; c = tail_byte k 10 16 c; c = tail_byte k 9 8 c;
           c = tail_byte k 8 0 c;
           b = tail_byte k 7 24 b; b = tail_byte k 6 16 b; b = tail_byte k 5 8 b;
           b = tail_byte k 4 0 b;
           a = tail_byte k 3 24 a; a = tail_byte k 2 16 a; a = tail_byte k 1 8 a;
           a = a + ucast (k ! 0)
       in snd (snd (final_mix (a, b, c))))"

definition lookup3 :: "bytes \<Rightarrow> 32 word \<Rightarrow> 32 word" where
  "lookup3 data initval =
     (let seed = 0xdeadbeef + word_of_nat (length data) + initval;
          (k, st) = lookup3_blocks data (seed, seed, seed)
      in lookup3_tail k st)"

definition metadata :: "bytes \<Rightarrow> 32 word" where
  "metadata data = lookup3 data 0"

section \<open>Fletcher-32\<close>

definition fold16 :: "32 word \<Rightarrow> 32 word" where
  "fold16 s = (s AND 0xffff) + drop_bit 16 s"

fun fletcher_block ::
  "bytes \<Rightarrow> nat \<Rightarrow> 32 word \<times> 32 word \<times> nat \<Rightarrow> 32 word \<times> 32 word \<times> nat" where
  "fletcher_block data 0 st = st"
| "fletcher_block data (Suc n) (sum1, sum2, p) =
     (let w = push_bit 8 (ucast (data ! p)) OR ucast (data ! (p + 1));
          sum1 = sum1 + w; sum2 = sum2 + sum1
      in fletcher_block data n (sum1, sum2, p + 2))"

function fletcher_loop ::
  "bytes \<Rightarrow> nat \<Rightarrow> 32 word \<times> 32 word \<times> nat \<Rightarrow> 32 word \<times> 32 word \<times> nat" where
  "fletcher_loop data remaining st =
     (if remaining > 0 then
        (let block = min remaining 360;
             (sum1, sum2, p) = fletcher_block data block st
         in fletcher_loop data (remaining - block) (fold16 sum1, fold16 sum2, p))
      else st)"
  by pat_completeness auto
termination
  by (relation "measure (\<lambda>(data, remaining, st). remaining)") auto

declare fletcher_loop.simps [simp del]

definition fletcher32 :: "bytes \<Rightarrow> 32 word" where
  "fletcher32 data =
     (let (sum1, sum2, p) = fletcher_loop data (length data div 2) (0, 0, 0);
          (sum1, sum2) =
            (if length data mod 2 = 1 then
               (let sum1 = sum1 + push_bit 8 (ucast (data ! p)); sum2 = sum2 + sum1
                in (fold16 sum1, fold16 sum2))
             else (sum1, sum2));
          sum1 = fold16 sum1; sum2 = fold16 sum2
      in push_bit 16 sum2 OR sum1)"

section \<open>Fletcher-32 computes Fletcher sums modulo 65535\<close>

text \<open>The specification: exact sums of the big-endian 16-bit words, an odd byte padded low.\<close>

fun be_words :: "bytes \<Rightarrow> nat list" where
  "be_words (a # b # rest) = (256 * unat a + unat b) # be_words rest"
| "be_words [a] = [256 * unat a]"
| "be_words [] = []"

fun fletcher_sums :: "nat list \<Rightarrow> nat \<times> nat \<Rightarrow> nat \<times> nat" where
  "fletcher_sums [] s = s"
| "fletcher_sums (w # ws) (s1, s2) = fletcher_sums ws (s1 + w, s2 + (s1 + w))"

lemma fletcher_sums_append: "fletcher_sums (xs @ ys) s = fletcher_sums ys (fletcher_sums xs s)"
  by (induction xs s rule: fletcher_sums.induct) auto

definition cong16 :: "nat \<times> nat \<Rightarrow> nat \<times> nat \<Rightarrow> bool" where
  "cong16 s t \<longleftrightarrow> fst s mod 65535 = fst t mod 65535 \<and> snd s mod 65535 = snd t mod 65535"

lemma cong16_trans: "cong16 a b \<Longrightarrow> cong16 b c \<Longrightarrow> cong16 a c"
  by (simp add: cong16_def)

lemma fletcher_sums_cong: "cong16 s t \<Longrightarrow> cong16 (fletcher_sums ws s) (fletcher_sums ws t)"
proof (induction ws arbitrary: s t)
  case (Cons w ws)
  obtain a b a' b' where st: "s = (a, b)" "t = (a', b')" by fastforce
  have ab: "a mod 65535 = a' mod 65535" "b mod 65535 = b' mod 65535"
    using Cons.prems st by (simp_all add: cong16_def)
  have 1: "(a + w) mod 65535 = (a' + w) mod 65535" by (rule mod_add_cong [OF ab(1) refl])
  have "(b + (a + w)) mod 65535 = (b' + (a' + w)) mod 65535" by (rule mod_add_cong [OF ab(2) 1])
  with 1 have "cong16 (a + w, b + (a + w)) (a' + w, b' + (a' + w))" by (simp add: cong16_def)
  then show ?case using Cons.IH st by simp
qed simp

lemma unat_fold16: "unat (fold16 s) = unat s mod 65536 + unat s div 65536"
proof -
  have a: "unat (s AND 0xffff) = unat s mod 65536"
  proof -
    have "unat s AND 65535 = take_bit 16 (unat s)"
      by (simp add: take_bit_eq_mask mask_eq_exp_minus_1)
    then show ?thesis by (simp add: unsigned_and_eq take_bit_eq_mod)
  qed
  have lt: "unat s < 2 ^ 32" using unsigned_less [of s] by simp
  have d: "unat (drop_bit 16 s) = unat s div 65536"
    using lt unfolding unsigned_drop_bit_eq by (simp add: drop_bit_eq_div take_bit_nat_eq_self)
  have "unat s div 65536 < 65536" using lt by simp
  then have "unat (s AND 0xffff) + unat (drop_bit 16 s) < 2 ^ 32"
    unfolding a d using mod_less_divisor [of 65536 "unat s"] by simp
  then show ?thesis unfolding fold16_def by (simp add: unat_word_ariths a d)
qed


lemma fold16_le: "unat s \<le> n \<Longrightarrow> unat (fold16 s) \<le> 65535 + n div 65536"
proof -
  assume "unat s \<le> n"
  then have "unat s div 65536 \<le> n div 65536" by (rule div_le_mono)
  moreover have "unat s mod 65536 \<le> 65535" using mod_less_divisor [of 65536 "unat s"] by simp
  ultimately show ?thesis unfolding unat_fold16 by linarith
qed

lemma fold16_le_any: "unat (fold16 s) \<le> 131070"
proof -
  have "unat s < 2 ^ 32" using unsigned_less [of s] by simp
  then show ?thesis using fold16_le [of s "2 ^ 32 - 1"] by simp
qed

lemma fold16_twice_le: "unat s \<le> 131070 \<Longrightarrow> unat (fold16 s) \<le> 65535"
proof -
  assume le: "unat s \<le> 131070"
  have eq: "unat s = 65536 * (unat s div 65536) + unat s mod 65536" by simp
  have "unat s div 65536 = 0 \<or> unat s div 65536 = 1" using le by linarith
  then show ?thesis
  proof
    assume "unat s div 65536 = 0"
    then show ?thesis using mod_less_divisor [of 65536 "unat s"] unfolding unat_fold16 by linarith
  next
    assume "unat s div 65536 = 1"
    then show ?thesis using eq le unfolding unat_fold16 by linarith
  qed
qed

lemma fold16_cong: "unat (fold16 s) mod 65535 = unat s mod 65535"
proof -
  let ?q = "unat s div 65536" and ?r = "unat s mod 65536"
  have "unat s = ?r + ?q + 65535 * ?q" using div_mult_mod_eq [of "unat s" 65536] by linarith
  then show ?thesis unfolding unat_fold16 by (metis mod_mult_self2)
qed

definition word_at :: "bytes \<Rightarrow> nat \<Rightarrow> nat" where
  "word_at data p = 256 * unat (data ! p) + unat (data ! (p + 1))"

definition words_from :: "bytes \<Rightarrow> nat \<Rightarrow> nat \<Rightarrow> nat list" where
  "words_from data p n = map (\<lambda>i. word_at data (p + 2 * i)) [0..<n]"

lemma words_from_Suc: "words_from data p (Suc n) = word_at data p # words_from data (p + 2) n"
proof -
  have "[0..<Suc n] = 0 # map Suc [0..<n]" by (rule upt_rec [THEN trans]) (simp add: map_Suc_upt)
  then show ?thesis by (simp add: words_from_def)
qed

lemma words_from_add: "words_from data p (m + n) = words_from data p m @ words_from data (p + 2 * m) n"
  by (induction m arbitrary: p) (simp_all add: words_from_Suc words_from_def [of _ _ 0] algebra_simps)

lemma word_at_le: "word_at data p \<le> 65535"
  using unat_byte_less [of "data ! p"] unat_byte_less [of "data ! (p + 1)"] by (simp add: word_at_def)

lemma unat_pair: "unat (push_bit 8 (ucast a) OR ucast b :: 32 word) = 256 * unat (a :: byte) + unat (b :: byte)"
proof -
  have a: "unat a < 2 ^ 8" and b: "unat b < 2 ^ 8"
    using unsigned_less [of a, where 'a = nat] unsigned_less [of b, where 'a = nat] by simp_all
  have ua: "unat (ucast a :: 32 word) = unat a" and ub: "unat (ucast b :: 32 word) = unat b"
    using a b by (simp_all add: unsigned_ucast_eq take_bit_nat_eq_self)
  have p: "unat (push_bit 8 (ucast a) :: 32 word) = push_bit 8 (unat a)"
    using a unfolding unsigned_push_bit_eq ua
    by (simp add: take_bit_nat_eq_self push_bit_eq_mult)
  have b': "take_bit 8 (unat b) = unat b" using b by (simp add: take_bit_nat_eq_self)
  have "push_bit 8 (unat a) AND take_bit 8 (unat b) = 0" by (simp add: bit_eq_iff bit_simps)
  then have "push_bit 8 (unat a) OR unat b = push_bit 8 (unat a) + unat b"
    unfolding b' by (simp add: disjunctive_add_eq_or)
  then show ?thesis unfolding unsigned_or_eq p ub by (simp add: push_bit_eq_mult)
qed

text \<open>
  A block of \<open>n\<close> words is summed exactly when the accumulators leave enough head room; the
  bound is what the 360-word reduction of the source guarantees.
\<close>

definition room :: "nat \<Rightarrow> nat \<Rightarrow> nat \<Rightarrow> bool" where
  "room n s1 s2 \<longleftrightarrow> 2 * s2 + 2 * n * s1 + 65535 * (n * (n + 1)) < 2 * 2 ^ 32 \<and> s1 + 65535 * n < 2 ^ 32"

lemma room_step:
  assumes "room (Suc n) s1 s2" and "w \<le> 65535"
  shows "room n (s1 + w) (s2 + (s1 + w))"
proof -
  have le: "Suc n * w \<le> Suc n * 65535" using assms(2) by (rule mult_le_mono2)
  have "2 * (s2 + (s1 + w)) + 2 * n * (s1 + w) = 2 * s2 + 2 * Suc n * s1 + 2 * (Suc n * w)"
    by (simp add: algebra_simps)
  also have "\<dots> \<le> 2 * s2 + 2 * Suc n * s1 + 2 * (Suc n * 65535)" using le by simp
  finally have "2 * (s2 + (s1 + w)) + 2 * n * (s1 + w) + 65535 * (n * (n + 1))
      \<le> 2 * s2 + 2 * Suc n * s1 + 65535 * (Suc n * (Suc n + 1))"
    by (simp add: algebra_simps)
  moreover have "s1 + w + 65535 * n \<le> s1 + 65535 * Suc n" using assms(2) by simp
  ultimately show ?thesis using assms(1) unfolding room_def by linarith
qed

lemma room_now:
  assumes "room (Suc n) s1 s2" and "w \<le> 65535"
  shows "s1 + w < 2 ^ 32 \<and> s2 + (s1 + w) < 2 ^ 32"
  using room_step [OF assms] by (simp add: room_def)

lemma fletcher_block_exact:
  "room n (unat s1) (unat s2) \<Longrightarrow> fletcher_block data n (s1, s2, p) = (t1, t2, q) \<Longrightarrow>
   (unat t1, unat t2) = fletcher_sums (words_from data p n) (unat s1, unat s2) \<and> q = p + 2 * n"
proof (induction n arbitrary: s1 s2 p)
  case (Suc n)
  define w where "w = (push_bit 8 (ucast (data ! p)) OR ucast (data ! (p + 1)) :: 32 word)"
  have w: "unat w = word_at data p" unfolding w_def word_at_def by (rule unat_pair)
  have now: "unat s1 + unat w < 2 ^ 32 \<and> unat s2 + (unat s1 + unat w) < 2 ^ 32"
    using room_now [OF Suc.prems(1)] word_at_le w by metis
  have u1: "unat (s1 + w) = unat s1 + unat w" using now by (simp add: unat_word_ariths)
  have u2: "unat (s2 + (s1 + w)) = unat s2 + (unat s1 + unat w)"
    using now u1 by (simp add: unat_word_ariths(1) [of s2])
  have "room n (unat (s1 + w)) (unat (s2 + (s1 + w)))"
    unfolding u1 u2 using room_step [OF Suc.prems(1)] word_at_le w by metis
  moreover have "fletcher_block data n (s1 + w, s2 + (s1 + w), p + 2) = (t1, t2, q)"
    using Suc.prems(2) by (simp add: Let_def w_def)
  ultimately have "(unat t1, unat t2) =
      fletcher_sums (words_from data (p + 2) n) (unat (s1 + w), unat (s2 + (s1 + w))) \<and> q = p + 2 + 2 * n"
    by (rule Suc.IH)
  then show ?case unfolding u1 u2 by (simp add: words_from_Suc w)
qed (simp add: words_from_def)

text \<open>Between blocks both accumulators are small, so the next 360 words fit.\<close>

definition small :: "32 word \<Rightarrow> 32 word \<Rightarrow> bool" where
  "small s1 s2 \<longleftrightarrow> unat s1 \<le> 65896 \<and> unat s2 \<le> 131070"

lemma small_room: "small s1 s2 \<Longrightarrow> n \<le> 360 \<Longrightarrow> room n (unat s1) (unat s2)"
proof -
  assume s: "small s1 s2" and n: "n \<le> 360"
  have "n * unat s1 \<le> 360 * 65896" using s n unfolding small_def by (intro mult_le_mono) auto
  moreover have "n * (n + 1) \<le> 360 * 361" using n by (intro mult_le_mono) auto
  ultimately show ?thesis using s n unfolding room_def small_def by simp
qed

lemma fletcher_sums_fst: "fst (fletcher_sums ws (s1, s2)) = s1 + sum_list ws"
  by (induction ws arbitrary: s1 s2) auto

lemma words_from_sum: "sum_list (words_from data p n) \<le> 65535 * n"
proof (induction n arbitrary: p)
  case (Suc n)
  then show ?case using add_mono [OF word_at_le [of data p] Suc.IH [of "p + 2"]] by (simp add: words_from_Suc)
qed (simp add: words_from_def)

lemma fletcher_block_fold:
  assumes s: "small s1 s2" and n: "n \<le> 360"
    and eq: "fletcher_block data n (s1, s2, p) = (t1, t2, q)"
  shows "small (fold16 t1) (fold16 t2) \<and> q = p + 2 * n \<and>
    cong16 (unat (fold16 t1), unat (fold16 t2))
      (fletcher_sums (words_from data p n) (unat s1, unat s2))"
proof -
  have ex: "(unat t1, unat t2) = fletcher_sums (words_from data p n) (unat s1, unat s2)" and q: "q = p + 2 * n"
    using fletcher_block_exact [OF small_room [OF s n] eq] by blast+
  have "unat t1 = unat s1 + sum_list (words_from data p n)"
    using fletcher_sums_fst [of "words_from data p n" "unat s1" "unat s2"] ex by (metis fst_conv)
  then have "unat t1 \<le> 65896 + 65535 * 360"
    using words_from_sum [of data p n] n s unfolding small_def by linarith
  then have "unat (fold16 t1) \<le> 65896" using fold16_le [of t1 "65896 + 65535 * 360"] by simp
  then have "small (fold16 t1) (fold16 t2)" using fold16_le_any unfolding small_def by blast
  then show ?thesis using q ex [symmetric] by (simp add: cong16_def fold16_cong)
qed

lemma fletcher_loop_correct:
  "small s1 s2 \<Longrightarrow> fletcher_loop data n (s1, s2, p) = (t1, t2, q) \<Longrightarrow>
   small t1 t2 \<and> q = p + 2 * n \<and>
   cong16 (unat t1, unat t2) (fletcher_sums (words_from data p n) (unat s1, unat s2))"
proof (induction n arbitrary: s1 s2 p rule: less_induct)
  case (less n)
  show ?case
  proof (cases "n > 0")
    case True
    let ?b = "min n 360"
    obtain u1 u2 r where blk: "fletcher_block data ?b (s1, s2, p) = (u1, u2, r)"
      by (metis prod_cases3)
    have fold: "small (fold16 u1) (fold16 u2)" "r = p + 2 * ?b"
      "cong16 (unat (fold16 u1), unat (fold16 u2))
         (fletcher_sums (words_from data p ?b) (unat s1, unat s2))"
      using fletcher_block_fold [OF less.prems(1) _ blk] by auto
    have "fletcher_loop data (n - ?b) (fold16 u1, fold16 u2, r) = (t1, t2, q)"
      using less.prems(2) True blk by (simp add: fletcher_loop.simps [of data n])
    then have IH: "small t1 t2" "q = r + 2 * (n - ?b)"
      "cong16 (unat t1, unat t2) (fletcher_sums (words_from data r (n - ?b)) (unat (fold16 u1), unat (fold16 u2)))"
      using less.IH [of "n - ?b", OF _ fold(1)] True by auto
    have "words_from data p n = words_from data p ?b @ words_from data r (n - ?b)"
      using words_from_add [of data p ?b "n - ?b"] fold(2) by simp
    then have "cong16 (unat t1, unat t2) (fletcher_sums (words_from data p n) (unat s1, unat s2))"
      using cong16_trans [OF IH(3) fletcher_sums_cong [OF fold(3)]] by (simp add: fletcher_sums_append)
    then show ?thesis using IH fold(2) by simp
  next
    case False
    then show ?thesis using less.prems
      by (auto simp: fletcher_loop.simps [of data 0] words_from_def cong16_def)
  qed
qed

lemma be_words_split:
  "be_words data = words_from data 0 (length data div 2) @
     (if length data mod 2 = 1 then [256 * unat (data ! (length data - 1))] else [])"
proof (induction data rule: be_words.induct)
  case (1 a b rest)
  have "words_from (a # b # rest) (Suc (Suc 0)) n = words_from rest 0 n" for n
    by (simp add: words_from_def word_at_def)
  moreover have "word_at (a # b # rest) 0 = 256 * unat a + unat b" by (simp add: word_at_def)
  moreover have "(a # b # rest) ! (length (a # b # rest) - 1) = rest ! (length rest - 1)"
    if "length rest mod 2 = 1" using that by (cases rest) auto
  ultimately show ?case using 1 by (simp add: words_from_Suc)
qed (simp_all add: words_from_def)


lemma unat_high_byte: "unat (push_bit 8 (ucast b) :: 32 word) = 256 * unat (b :: byte)"
  using unat_pair [of b 0] by simp

lemma unat_halves:
  assumes "unat (hi :: 32 word) \<le> 65535" and "unat lo \<le> 65535"
  shows "unat (push_bit 16 hi OR lo) = 65536 * unat hi + unat lo"
proof -
  have p: "unat (push_bit 16 hi) = push_bit 16 (unat hi)"
    using assms(1) unfolding unsigned_push_bit_eq by (simp add: take_bit_nat_eq_self push_bit_eq_mult)
  have l: "take_bit 16 (unat lo) = unat lo" using assms(2) by (simp add: take_bit_nat_eq_self)
  have "push_bit 16 (unat hi) AND take_bit 16 (unat lo) = 0" by (simp add: bit_eq_iff bit_simps)
  then have "push_bit 16 (unat hi) OR unat lo = push_bit 16 (unat hi) + unat lo"
    unfolding l by (simp add: disjunctive_add_eq_or)
  then show ?thesis unfolding unsigned_or_eq p by (simp add: push_bit_eq_mult)
qed

text \<open>The last odd byte, then the closing reductions.\<close>

lemma odd_step:
  fixes s1 s2 :: "32 word" and b :: byte
  assumes "small s1 s2"
  defines "t1 \<equiv> s1 + push_bit 8 (ucast b)"
  defines "t2 \<equiv> s2 + t1"
  shows "(unat t1, unat t2) = fletcher_sums [256 * unat b] (unat s1, unat s2)"
    and "unat t1 \<le> 131200"
proof -
  have b: "unat b < 256" by (rule unat_byte_less)
  have "unat t1 = unat s1 + 256 * unat b"
    using assms(1) b unfolding t1_def small_def by (simp add: unat_word_ariths unat_high_byte)
  moreover have "unat t2 = unat s2 + unat t1"
    using assms(1) b calculation unfolding t2_def small_def by (simp add: unat_word_ariths(1) [of s2])
  ultimately show "(unat t1, unat t2) = fletcher_sums [256 * unat b] (unat s1, unat s2)"
    and "unat t1 \<le> 131200" using assms(1) b by (auto simp: small_def)
qed

lemma fletcher32_parts:
  obtains s1 s2 where "unat s1 \<le> 131070" "unat s2 \<le> 131070"
    "cong16 (unat s1, unat s2) (fletcher_sums (be_words data) (0, 0))"
    "fletcher32 data = push_bit 16 (fold16 s2) OR fold16 s1"
proof -
  obtain s1 s2 q where loop: "fletcher_loop data (length data div 2) (0, 0, 0) = (s1, s2, q)"
    by (metis prod_cases3)
  have L: "small s1 s2" "q = 2 * (length data div 2)"
    "cong16 (unat s1, unat s2) (fletcher_sums (words_from data 0 (length data div 2)) (0, 0))"
    using fletcher_loop_correct [OF _ loop] by (simp_all add: small_def)
  show ?thesis
  proof (cases "length data mod 2 = 1")
    case True
    then have q: "q = length data - 1" using L(2) by presburger
    define t1 where "t1 = s1 + push_bit 8 (ucast (data ! q))"
    define t2 where "t2 = s2 + t1"
    have o: "(unat t1, unat t2) = fletcher_sums [256 * unat (data ! q)] (unat s1, unat s2)"
      using odd_step(1) [OF L(1)] by (simp add: t1_def t2_def)
    have "cong16 (unat t1, unat t2) (fletcher_sums (be_words data) (0, 0))"
      using fletcher_sums_cong [OF L(3), of "[256 * unat (data ! q)]"] True q
      unfolding o be_words_split by (simp add: fletcher_sums_append)
    then have "cong16 (unat (fold16 t1), unat (fold16 t2)) (fletcher_sums (be_words data) (0, 0))"
      by (simp add: cong16_def fold16_cong)
    moreover have "fletcher32 data = push_bit 16 (fold16 (fold16 t2)) OR fold16 (fold16 t1)"
      using True by (simp add: fletcher32_def loop Let_def t1_def t2_def)
    ultimately show ?thesis using that fold16_le_any by blast
  next
    case False
    then have "cong16 (unat s1, unat s2) (fletcher_sums (be_words data) (0, 0))"
      using L(3) by (simp add: be_words_split)
    moreover have "fletcher32 data = push_bit 16 (fold16 s2) OR fold16 s1"
      using False by (simp add: fletcher32_def loop Let_def)
    moreover have "unat s1 \<le> 131070" "unat s2 \<le> 131070" using L(1) by (auto simp: small_def)
    ultimately show ?thesis using that by blast
  qed
qed

lemma fletcher32_halves:
  "unat (fletcher32 data) mod 65536 mod 65535 = fst (fletcher_sums (be_words data) (0, 0)) mod 65535
   \<and> unat (fletcher32 data) div 65536 mod 65535 = snd (fletcher_sums (be_words data) (0, 0)) mod 65535"
proof -
  obtain s1 s2 where s: "unat s1 \<le> 131070" "unat s2 \<le> 131070"
    "cong16 (unat s1, unat s2) (fletcher_sums (be_words data) (0, 0))"
    "fletcher32 data = push_bit 16 (fold16 s2) OR fold16 s1"
    by (rule fletcher32_parts)
  have lo: "unat (fold16 s1) \<le> 65535" and hi: "unat (fold16 s2) \<le> 65535"
    using s fold16_twice_le by blast+
  have "unat (fletcher32 data) = 65536 * unat (fold16 s2) + unat (fold16 s1)"
    unfolding s(4) using hi lo by (rule unat_halves)
  then have "unat (fletcher32 data) mod 65536 = unat (fold16 s1)"
    and "unat (fletcher32 data) div 65536 = unat (fold16 s2)" using lo by simp_all
  then show ?thesis using s(3) by (simp add: cong16_def fold16_cong)
qed


section \<open>lookup3 equals its block form over a zero-padded tail\<close>

text \<open>
  The reference form of hashlittle: cut the input into 12-byte blocks, the last one filled up
  with zero bytes, add its three little-endian words and finish.  The source instead adds the
  tail bytes one by one.
\<close>

definition pad12 :: "bytes \<Rightarrow> bytes" where
  "pad12 k = k @ replicate (12 - length k) 0"

definition lookup3_ref_tail :: "bytes \<Rightarrow> 32 word \<times> 32 word \<times> 32 word \<Rightarrow> 32 word" where
  "lookup3_ref_tail k = (\<lambda>(a, b, c).
     if k = [] then c
     else snd (snd (final_mix
       (a + le_word (slice 0 4 (pad12 k)), b + le_word (slice 4 4 (pad12 k)),
        c + le_word (slice 8 4 (pad12 k))))))"

lemma le_word_4:
  "le_word [w, x, y, z] =
     ucast w + push_bit 8 (ucast x) + push_bit 16 (ucast y) + push_bit 24 (ucast z)"
proof -
  have u: "word_of_nat (unat b) = (ucast b :: 32 word)" for b :: byte
    by (simp add: unsigned_ucast_eq flip: ucast_id)
  show ?thesis
    by (simp add: le_word_def push_bit_eq_mult algebra_simps u)
qed

lemma slice4: "i + 4 \<le> length k \<Longrightarrow> slice i 4 k = [k ! i, k ! (i + 1), k ! (i + 2), k ! (i + 3)]"
  by (rule nth_equalityI) (auto simp: less_Suc_eq numeral_eq_Suc)

lemma tail_byte_pad:
  assumes "length k \<le> 12" and "i < 12"
  shows "tail_byte k i sh x = x + push_bit sh (ucast (pad12 k ! i))"
  using assms by (auto simp: tail_byte_def pad12_def nth_append)

lemma lookup3_tail_eq:
  assumes "length k \<le> 12"
  shows "lookup3_tail k st = lookup3_ref_tail k st"
proof (cases "k = []")
  case False
  have len: "length (pad12 k) = 12" using assms by (simp add: pad12_def)
  have k0: "k ! 0 = pad12 k ! 0" using False by (simp add: pad12_def nth_append)
  show ?thesis
    using False assms len
    by (cases st)
      (simp add: lookup3_tail_def lookup3_ref_tail_def tail_byte_pad slice4 le_word_4 k0 Let_def
        add.commute add.left_commute numeral_2_eq_2 del: slice_0)
qed (cases st; simp add: lookup3_tail_def lookup3_ref_tail_def)

lemma lookup3_blocks_tail_length: "length (fst (lookup3_blocks k st)) \<le> 12"
proof (induction k st rule: lookup3_blocks.induct)
  case (1 k st)
  then show ?case by (cases st) (auto simp: lookup3_blocks.simps [of k])
qed

lemma lookup3_ref:
  "lookup3 data initval =
     (let seed = 0xdeadbeef + word_of_nat (length data) + initval;
          (k, st) = lookup3_blocks data (seed, seed, seed)
      in lookup3_ref_tail k st)"
  using lookup3_blocks_tail_length
  by (auto simp: lookup3_def Let_def lookup3_tail_eq split: prod.splits intro!: lookup3_tail_eq)
    (metis fst_conv lookup3_tail_eq)

section \<open>Properties\<close>

text \<open>
  The optimised Fletcher-32, with its deferred folding every 360 words, computes Fletcher's
  sums: each half of the result is congruent modulo 65535 to the plain sum, and the sum of sums,
  of the big-endian 16-bit words; hence the 32-bit accumulators never wrap.
\<close>

theorem fletcher32_is_fletcher:
  "unat (fletcher32 data) mod 65536 mod 65535 = fst (fletcher_sums (be_words data) (0, 0)) mod 65535
   \<and> unat (fletcher32 data) div 65536 mod 65535 = snd (fletcher_sums (be_words data) (0, 0)) mod 65535"
  by (rule fletcher32_halves)

text \<open>
  The tail handling of \<open>lookup3\<close>, twelve fall-through cases by the number of bytes left, is
  the hash of the tail padded with zeroes to a whole block.
\<close>

theorem lookup3_is_padded_reference:
  "lookup3 data initval =
     (let seed = 0xdeadbeef + word_of_nat (length data) + initval;
          (k, st) = lookup3_blocks data (seed, seed, seed)
      in lookup3_ref_tail k st)"
  by (rule lookup3_ref)

end
