(* ===== verification/Byte_Source.thy ===== *)
theory Byte_Source
  imports Rust_Prelude
begin

text \<open>
  Byte sources (\<^verbatim>\<open>crates/oxcdf-hdf5/src/source.rs\<close>).  The trait is a record of its two required
  operations; \<open>read_vec\<close> and \<open>read_ranges\<close> are its provided methods.  Reads take no position and
  change no state, so a source is a value.  The locale \<open>byte_source\<close> states the contract that every
  component above relies on: a read inside the contents returns exactly those bytes, a read past
  the end is an \<open>OutOfBounds\<close> error, never a short answer.
\<close>

record source =
  src_size :: nat
  read_exact_at :: "nat \<Rightarrow> nat \<Rightarrow> bytes result"

text \<open>\<open>vec![0u8; len]\<close> panics with a capacity overflow beyond \<open>isize::MAX\<close> bytes.\<close>

definition read_vec :: "source \<Rightarrow> nat \<Rightarrow> nat \<Rightarrow> bytes result" where
  "read_vec src offset len =
     (if len > isize_max then panic else read_exact_at src offset len)"

definition read_ranges :: "source \<Rightarrow> (nat \<times> nat) list \<Rightarrow> bytes list result" where
  "read_ranges src ranges = map_result (\<lambda>(offset, len). read_vec src offset len) ranges"

definition memory_read :: "bytes \<Rightarrow> nat \<Rightarrow> nat \<Rightarrow> bytes result" where
  "memory_read data offset len =
     (let fin = saturating_add offset len in
      if fin > length data
      then Error (OutOfBounds ''buffer'' offset len (length data - offset))
      else slice_range data offset fin)"

definition memory_source :: "bytes \<Rightarrow> source" where
  "memory_source data = \<lparr>src_size = length data, read_exact_at = memory_read data\<rparr>"

text \<open>
  A file handle: \<open>pread\<close> stands for the operating system's positional read, which is not part of
  the repository.
\<close>

definition file_read :: "(nat \<Rightarrow> nat \<Rightarrow> bytes result) \<Rightarrow> nat \<Rightarrow> nat \<Rightarrow> nat \<Rightarrow> bytes result" where
  "file_read pread sz offset want =
     (if saturating_add offset want > sz
      then Error (OutOfBounds ''file'' offset want (sz - offset))
      else pread offset want)"

definition file_source :: "(nat \<Rightarrow> nat \<Rightarrow> bytes result) \<Rightarrow> nat \<Rightarrow> source" where
  "file_source pread sz = \<lparr>src_size = sz, read_exact_at = file_read pread sz\<rparr>"

section \<open>The contract of a source\<close>

locale byte_source =
  fixes src :: source and contents :: bytes
  assumes size_contents: "src_size src = length contents"
    and contents_small: "length contents \<le> isize_max"
    and read_inside:
      "offset + len \<le> length contents \<Longrightarrow> read_exact_at src offset len = Ok (slice offset len contents)"
    and read_outside:
      "0 < len \<Longrightarrow> length contents < offset + len \<Longrightarrow>
       \<exists>what. read_exact_at src offset len =
         Error (OutOfBounds what offset len (length contents - offset))"
    and read_empty: "read_exact_at src offset 0 \<noteq> Inl Panic
       \<and> (\<forall>bs. read_exact_at src offset 0 = Inr bs \<longrightarrow> bs = [])"
begin

lemma read_vec_length: "read_vec src offset len = Inr bs \<Longrightarrow> length bs = len"
  using read_inside [of offset len] read_outside [of len offset] read_empty [of offset]
  by (cases "len = 0"; cases "offset + len \<le> length contents") (auto simp: read_vec_def split: if_splits)

lemma read_vec_no_panic: "len \<le> isize_max \<Longrightarrow> read_vec src offset len \<noteq> Inl Panic"
  using read_inside [of offset len] read_outside [of len offset] read_empty [of offset]
  by (cases "len = 0"; cases "offset + len \<le> length contents") (auto simp: read_vec_def)

lemma read_vec_inside:
  "offset + len \<le> length contents \<Longrightarrow> read_vec src offset len = Ok (slice offset len contents)"
  using contents_small read_inside by (simp add: read_vec_def)

lemma read_vec_Ok:
  assumes "0 < len" and "read_vec src offset len = Inr bs"
  shows "offset + len \<le> length contents \<and> bs = slice offset len contents"
proof -
  have "read_exact_at src offset len = Inr bs" using assms(2) by (simp add: read_vec_def split: if_splits)
  then show ?thesis
    using read_outside [OF assms(1), of offset] read_inside [of offset len] by (metis Inl_Inr_False Inr_inject not_le)
qed

lemma read_vec_panic: "0 < len \<Longrightarrow> read_vec src offset len = Inl Panic \<Longrightarrow> isize_max < len"
  using read_outside [of len offset] read_inside [of offset len]
  by (cases "offset + len \<le> length contents") (auto simp: read_vec_def split: if_splits)

lemma read_ranges_inside:
  assumes "\<And>offset len. (offset, len) \<in> set ranges \<Longrightarrow> offset + len \<le> length contents"
  shows "read_ranges src ranges = Ok (map (\<lambda>(offset, len). slice offset len contents) ranges)"
  unfolding read_ranges_def by (rule map_result_Ok) (use assms read_vec_inside in auto)

end

lemma saturating_add_le: "n \<le> isize_max \<Longrightarrow> saturating_add a b > n \<longleftrightarrow> a + b > n"
  by (auto simp: saturating_add_def u64_max_def isize_max_def min_def)

lemma saturating_add_id: "n \<le> isize_max \<Longrightarrow> a + b \<le> n \<Longrightarrow> saturating_add a b = a + b"
  by (auto simp: saturating_add_def u64_max_def isize_max_def min_def)

lemma memory_read_eq:
  "length data \<le> isize_max \<Longrightarrow> memory_read data offset len =
     (if offset + len \<le> length data then Ok (slice offset len data)
      else Error (OutOfBounds ''buffer'' offset len (length data - offset)))"
  by (auto simp: memory_read_def Let_def saturating_add_le saturating_add_id slice_range_def)

lemma byte_source_memory: "length data \<le> isize_max \<Longrightarrow> byte_source (memory_source data) data"
  by unfold_locales (auto simp: memory_source_def memory_read_eq)

lemma byte_source_file:
  assumes "length data \<le> isize_max"
    and "\<And>offset len. offset + len \<le> length data \<Longrightarrow> pread offset len = Ok (slice offset len data)"
  shows "byte_source (file_source pread (length data)) data"
  using assms(1) assms(2) [of _ 0]
  by unfold_locales (auto simp: file_source_def file_read_def saturating_add_le not_less assms(2))

text \<open>
  Every list of bytes that fits in memory gives a source; \<open>small_contents\<close> clips the list so that
  the contract holds for each argument.
\<close>

definition small_contents :: "bytes \<Rightarrow> bytes" where
  "small_contents data = take isize_max data"

interpretation mem: byte_source "memory_source (small_contents data)" "small_contents data" for data
  by (rule byte_source_memory) (simp add: small_contents_def)

end
