(* ===== verification/Io_Plan.thy ===== *)
theory Io_Plan
  imports Byte_Source
begin

text \<open>
  Merging of byte-range requests (\<^verbatim>\<open>crates/oxcdf-hdf5/src/io.rs\<close>): \<open>plan\<close> turns ranges into requests,
  \<open>scatter\<close> cuts the fetched buffers back into one buffer for each range.
\<close>

record io_config =
  max_gap :: nat
  max_request_size :: nat

definition REMOTE :: io_config where
  "REMOTE = \<lparr>max_gap = 2 ^ 20, max_request_size = 2 ^ 23\<rparr>"

definition LOCAL :: io_config where
  "LOCAL = \<lparr>max_gap = 2 ^ 14, max_request_size = 2 ^ 22\<rparr>"

definition NONE :: io_config where
  "NONE = \<lparr>max_gap = 0, max_request_size = u64_max\<rparr>"

record request =
  req_offset :: nat
  req_len :: nat
  req_parts :: "(nat \<times> nat \<times> nat) list"

type_synonym ranges = "(nat \<times> nat) list"

text \<open>\<open>out.last_mut()\<close>: change the last element.\<close>

definition map_last :: "('a \<Rightarrow> 'a) \<Rightarrow> 'a list \<Rightarrow> 'a list" where
  "map_last f xs = (if xs = [] then [] else butlast xs @ [f (last xs)])"

definition plan_step :: "ranges \<Rightarrow> io_config \<Rightarrow> request list \<Rightarrow> nat \<Rightarrow> request list result" where
  "plan_step ranges config out i =
     and_then (index_at ranges i) (\<lambda>(offset, len).
       if len = 0 then
         (if out = [] then Ok [\<lparr>req_offset = offset, req_len = 0, req_parts = [(i, 0, 0)]\<rparr>]
          else Ok (map_last (\<lambda>req. req\<lparr>req_parts := req_parts req @ [(i, 0, 0)]\<rparr>) out))
       else
         and_then (add64 offset len) (\<lambda>fin.
           if out = [] then Ok [\<lparr>req_offset = offset, req_len = len, req_parts = [(i, 0, len)]\<rparr>]
           else
             let prev = last out in
             and_then (add64 (req_offset prev) (req_len prev)) (\<lambda>last_end.
             and_then (sub64 (max fin last_end) (req_offset prev)) (\<lambda>merged_len.
               if offset \<ge> req_offset prev \<and> offset - last_end \<le> max_gap config
                  \<and> merged_len \<le> max_request_size config
               then Ok (map_last (\<lambda>req. req\<lparr>req_len := merged_len,
                      req_parts := req_parts req @ [(i, offset - req_offset req, len)]\<rparr>) out)
               else Ok (out @ [\<lparr>req_offset = offset, req_len = len, req_parts = [(i, 0, len)]\<rparr>])))))"

fun plan_loop :: "ranges \<Rightarrow> io_config \<Rightarrow> nat list \<Rightarrow> request list \<Rightarrow> request list result" where
  "plan_loop ranges config [] out = Ok out"
| "plan_loop ranges config (i # order) out =
     and_then (plan_step ranges config out i) (plan_loop ranges config order)"

definition plan :: "ranges \<Rightarrow> io_config \<Rightarrow> request list result" where
  "plan ranges config =
     (if ranges = [] then Ok []
      else plan_loop ranges config (sort_key (\<lambda>i. fst (ranges ! i)) [0..<length ranges]) [])"

fun scatter_parts ::
  "nat \<Rightarrow> bytes \<Rightarrow> (nat \<times> nat \<times> nat) list \<Rightarrow> bytes list \<Rightarrow> bytes list result" where
  "scatter_parts count buffer [] out = Ok out"
| "scatter_parts count buffer ((index, at, len) # parts) out =
     (if index \<ge> count
      then Error (Malformed ''coalesced plan names a range that was not requested'')
      else and_then (add64 at len) (\<lambda>fin.
        if fin > length buffer
        then Error (Malformed ''coalesced request returned too few bytes for a part'')
        else and_then (slice_range buffer at fin) (\<lambda>b.
          scatter_parts count buffer parts (out[index := b]))))"

fun scatter_loop :: "nat \<Rightarrow> (request \<times> bytes) list \<Rightarrow> bytes list \<Rightarrow> bytes list result" where
  "scatter_loop count [] out = Ok out"
| "scatter_loop count ((req, buffer) # rest) out =
     and_then (scatter_parts count buffer (req_parts req) out) (scatter_loop count rest)"

definition scatter :: "request list \<Rightarrow> bytes list \<Rightarrow> nat \<Rightarrow> bytes list result" where
  "scatter requests fetched count =
     (if length requests \<noteq> length fetched
      then Error (Malformed ''fetched buffers for requests'')
      else scatter_loop count (zip requests fetched) (replicate count []))"

section \<open>The plan is sound\<close>

text \<open>
  A part names a range by its index and says where its bytes lie inside the request.  A part of a
  zero-length range needs no bytes and is recorded at offset 0.
\<close>

definition part_ok :: "ranges \<Rightarrow> request \<Rightarrow> nat \<times> nat \<times> nat \<Rightarrow> bool" where
  "part_ok ranges req = (\<lambda>(i, at, len).
     i < length ranges \<and> len = snd (ranges ! i) \<and> at + len \<le> req_len req
     \<and> (0 < len \<longrightarrow> req_offset req + at = fst (ranges ! i)))"

definition request_ok :: "ranges \<Rightarrow> io_config \<Rightarrow> request \<Rightarrow> bool" where
  "request_ok ranges config req \<longleftrightarrow>
     (\<forall>p \<in> set (req_parts req). part_ok ranges req p)
     \<and> (\<exists>(off, len) \<in> set ranges. req_offset req + req_len req \<le> off + len)
     \<and> (req_len req \<le> max_request_size config \<or> req_len req \<in> snd ` set ranges)"

definition parts_of :: "request list \<Rightarrow> nat list" where
  "parts_of out = concat (map (\<lambda>req. map fst (req_parts req)) out)"

definition ends_fit :: "ranges \<Rightarrow> bool" where
  "ends_fit ranges \<longleftrightarrow> (\<forall>(off, len) \<in> set ranges. off + len \<le> u64_max)"

definition plan_inv :: "ranges \<Rightarrow> io_config \<Rightarrow> nat list \<Rightarrow> request list \<Rightarrow> bool" where
  "plan_inv ranges config handled out \<longleftrightarrow>
     parts_of out = handled \<and> (\<forall>req \<in> set out. request_ok ranges config req)
     \<and> sorted (map req_offset out)
     \<and> (\<forall>req \<in> set out. \<exists>i \<in> set handled. req_offset req = fst (ranges ! i))"

lemma plan_inv_append:
  assumes "plan_inv ranges config handled out"
    and "request_ok ranges config req" and "map fst (req_parts req) = [i]"
    and "req_offset req = fst (ranges ! i)"
    and "\<And>j. j \<in> set handled \<Longrightarrow> fst (ranges ! j) \<le> fst (ranges ! i)"
  shows "plan_inv ranges config (handled @ [i]) (out @ [req])"
  using assms by (fastforce simp: plan_inv_def parts_of_def sorted_append)

lemma plan_inv_last:
  assumes inv: "plan_inv ranges config handled out" and ne: "out \<noteq> []"
    and f: "req_parts (f (last out)) = req_parts (last out) @ [(i, at, len)]"
      "req_offset (f (last out)) = req_offset (last out)"
    and ok: "request_ok ranges config (f (last out))"
  shows "plan_inv ranges config (handled @ [i]) (map_last f out)"
proof -
  obtain xs x where out: "out = xs @ [x]" using ne by (cases out rule: rev_cases) auto
  then show ?thesis
    using inv f ok by (fastforce simp: plan_inv_def parts_of_def map_last_def sorted_append)
qed

lemma request_ok_grow:
  assumes ok: "request_ok ranges config req" and i: "i < length ranges"
    and r: "ranges ! i = (off, len)" and pos: "0 < len" and le: "req_offset req \<le> off"
    and m: "m = max (off + len) (req_offset req + req_len req) - req_offset req"
    and size: "m \<le> max_request_size config"
  shows "request_ok ranges config
    (req\<lparr>req_len := m, req_parts := req_parts req @ [(i, off - req_offset req, len)]\<rparr>)"
proof -
  have "(off, len) \<in> set ranges" using i r nth_mem by fastforce
  moreover obtain o' l' where "(o', l') \<in> set ranges" "req_offset req + req_len req \<le> o' + l'"
    using ok by (auto simp: request_ok_def)
  ultimately have "\<exists>(o', l') \<in> set ranges. req_offset req + m \<le> o' + l'"
    unfolding m using le by (cases "off + len \<le> req_offset req + req_len req") (auto simp: max_def)
  moreover have "req_len req \<le> m" unfolding m by auto
  moreover have "off - req_offset req + len \<le> m" unfolding m using le by auto
  ultimately show ?thesis
    using ok i r pos le size by (fastforce simp: request_ok_def part_ok_def)
qed

lemma plan_step_inv:
  assumes inv: "plan_inv ranges config handled out" and fit: "ends_fit ranges"
    and i: "i < length ranges"
    and le: "\<And>j. j \<in> set handled \<Longrightarrow> fst (ranges ! j) \<le> fst (ranges ! i)"
  shows "\<exists>out'. plan_step ranges config out i = Ok out'
    \<and> plan_inv ranges config (handled @ [i]) out'"
proof -
  obtain off len where r: "ranges ! i = (off, len)" by fastforce
  have mem: "(off, len) \<in> set ranges" using i r nth_mem by fastforce
  have fin: "off + len \<le> u64_max" using fit mem by (auto simp: ends_fit_def)
  define new where "new = \<lparr>req_offset = off, req_len = len, req_parts = [(i, 0, len)]\<rparr>"
  have new: "request_ok ranges config new"
    using mem i r by (force simp: new_def request_ok_def part_ok_def)
  have app: "plan_inv ranges config (handled @ [i]) (out @ [new])"
    by (rule plan_inv_append [OF inv new]) (use le r in \<open>auto simp: new_def\<close>)
  show ?thesis
  proof (cases "out = []")
    case True
    then show ?thesis using app i r fin
      by (auto simp: plan_step_def index_at_def new_def add64_def)
  next
    case False
    define prev where "prev = last out"
    have "prev \<in> set out" using False by (simp add: prev_def)
    then obtain j where prev1: "request_ok ranges config prev"
      and "j \<in> set handled" "req_offset prev = fst (ranges ! j)"
      using inv unfolding plan_inv_def by blast
    then have prev: "request_ok ranges config prev" "req_offset prev \<le> off" using le [of j] r by auto
    then have pend: "req_offset prev + req_len prev \<le> u64_max"
      using fit by (fastforce simp: request_ok_def ends_fit_def)
    define m where "m = max (off + len) (req_offset prev + req_len prev) - req_offset prev"
    show ?thesis
    proof (cases "len = 0")
      case True
      have "request_ok ranges config (prev\<lparr>req_parts := req_parts prev @ [(i, 0, 0)]\<rparr>)"
        using prev(1) i r True by (fastforce simp: request_ok_def part_ok_def)
      then have "plan_inv ranges config (handled @ [i])
          (map_last (\<lambda>req. req\<lparr>req_parts := req_parts req @ [(i, 0, 0)]\<rparr>) out)"
        by (intro plan_inv_last [OF inv False]) (auto simp: prev_def)
      then show ?thesis using True False i r by (auto simp: plan_step_def index_at_def)
    next
      case pos: False
      define f :: "request \<Rightarrow> request" where "f = (\<lambda>req. req\<lparr>req_len := m,
        req_parts := req_parts req @ [(i, off - req_offset req, len)]\<rparr>)"
      have merged: "plan_inv ranges config (handled @ [i]) (map_last f out)"
        if "m \<le> max_request_size config"
      proof (rule plan_inv_last [OF inv False])
        have "request_ok ranges config (f prev)" unfolding f_def
          by (rule request_ok_grow [OF prev(1) i r _ prev(2) m_def that]) (use pos in simp)
        then show "request_ok ranges config (f (last out))" by (simp add: prev_def)
      qed (auto simp: f_def)
      have "plan_step ranges config out i =
          (if off - (req_offset prev + req_len prev) \<le> max_gap config \<and> m \<le> max_request_size config
           then Ok (map_last f out) else Ok (out @ [new]))"
        using pos False i r fin pend prev(2)
        by (auto simp: plan_step_def index_at_def Let_def add64_def sub64_def prev_def [symmetric]
            m_def f_def new_def)
      then show ?thesis using merged app by auto
    qed
  qed
qed

lemma plan_loop_inv:
  "plan_inv ranges config handled out \<Longrightarrow> ends_fit ranges \<Longrightarrow> set order \<subseteq> {..<length ranges} \<Longrightarrow>
   sorted (map (\<lambda>i. fst (ranges ! i)) (handled @ order)) \<Longrightarrow>
   \<exists>out'. plan_loop ranges config order out = Ok out' \<and> plan_inv ranges config (handled @ order) out'"
proof (induction order arbitrary: handled out)
  case (Cons i order)
  have "fst (ranges ! j) \<le> fst (ranges ! i)" if "j \<in> set handled" for j
    using Cons.prems(4) that by (auto simp: sorted_append)
  then obtain out' where step: "plan_step ranges config out i = Ok out'"
    and inv: "plan_inv ranges config (handled @ [i]) out'"
    using plan_step_inv [OF Cons.prems(1,2)] Cons.prems(3) by fastforce
  then show ?case using Cons.IH [OF inv Cons.prems(2)] Cons.prems(3,4) by simp
qed simp

lemma plan_correct:
  assumes "ends_fit ranges"
  obtains reqs where "plan ranges config = Ok reqs"
    and "\<And>req. req \<in> set reqs \<Longrightarrow> request_ok ranges config req"
    and "sorted (map req_offset reqs)" and "distinct (parts_of reqs)" and "set (parts_of reqs) = {..<length ranges}"
proof -
  let ?order = "sort_key (\<lambda>i. fst (ranges ! i)) [0..<length ranges]"
  have "plan_inv ranges config [] []" by (simp add: plan_inv_def parts_of_def)
  then obtain reqs where "plan_loop ranges config ?order [] = Ok reqs"
    and inv: "plan_inv ranges config ([] @ ?order) reqs"
    using plan_loop_inv [of ranges config "[]" "[]" ?order] assms by (auto simp: atLeast0LessThan)
  moreover have "ranges = [] \<Longrightarrow> reqs = []" using calculation by simp
  ultimately have "plan ranges config = Ok reqs" by (auto simp: plan_def)
  then show ?thesis using that inv by (auto simp: plan_inv_def atLeast0LessThan)
qed

section \<open>Scattering the fetched buffers gives back every range\<close>

definition updates :: "bytes \<Rightarrow> (nat \<times> nat \<times> nat) list \<Rightarrow> (nat \<times> bytes) list" where
  "updates buffer parts = map (\<lambda>(i, at, len). (i, slice at len buffer)) parts"

definition apply_updates :: "(nat \<times> 'a) list \<Rightarrow> 'a list \<Rightarrow> 'a list" where
  "apply_updates us out = fold (\<lambda>(i, v) out. out[i := v]) us out"

lemma apply_updates_simps [simp]:
  "apply_updates [] out = out"
  "apply_updates ((i, v) # us) out = apply_updates us (out[i := v])"
  "apply_updates (us @ vs) out = apply_updates vs (apply_updates us out)"
  by (simp_all add: apply_updates_def)

lemma scatter_parts_Ok:
  "\<forall>(i, at, len) \<in> set parts. i < count \<and> at + len \<le> length buffer \<Longrightarrow> length buffer \<le> u64_max \<Longrightarrow>
   scatter_parts count buffer parts out = Ok (apply_updates (updates buffer parts) out)"
  by (induction count buffer parts out rule: scatter_parts.induct)
    (auto simp: updates_def add64_def slice_range_def)

lemma scatter_loop_Ok:
  "\<forall>(req, buffer) \<in> set zs. length buffer \<le> u64_max \<and>
     (\<forall>(i, at, len) \<in> set (req_parts req). i < count \<and> at + len \<le> length buffer) \<Longrightarrow>
   scatter_loop count zs out =
     Ok (apply_updates (concat (map (\<lambda>(req, buffer). updates buffer (req_parts req)) zs)) out)"
proof (induction zs arbitrary: out)
  case (Cons z zs)
  obtain req buffer where z: "z = (req, buffer)" by (cases z)
  then have "scatter_parts count buffer (req_parts req) out =
      Ok (apply_updates (updates buffer (req_parts req)) out)"
    using Cons.prems by (intro scatter_parts_Ok) auto
  then show ?case using Cons z by simp
qed simp

lemma apply_updates_length [simp]: "length (apply_updates us out) = length out"
  by (induction us arbitrary: out) (auto simp: apply_updates_def)

lemma apply_updates_nth:
  "distinct (map fst us) \<Longrightarrow> (k, v) \<in> set us \<Longrightarrow> k < length out \<Longrightarrow> apply_updates us out ! k = v"
proof (induction us arbitrary: out rule: rev_induct)
  case (snoc u us)
  obtain i x where u: "u = (i, x)" by (cases u)
  then have "(k, v) \<in> set us \<Longrightarrow> i \<noteq> k" using snoc.prems(1) by (auto simp: image_iff)
  then show ?case using snoc u by auto
qed simp

text \<open>
  Merging is invisible to the caller: planning the ranges, fetching the merged requests from a
  source and scattering the buffers yields exactly the bytes of every range.
\<close>

definition read_merged :: "source \<Rightarrow> io_config \<Rightarrow> ranges \<Rightarrow> bytes list result" where
  "read_merged src config ranges =
     and_then (plan ranges config) (\<lambda>reqs.
     and_then (read_ranges src (map (\<lambda>r. (req_offset r, req_len r)) reqs)) (\<lambda>fetched.
       scatter reqs fetched (length ranges)))"

lemma planned_parts:
  assumes small: "length contents \<le> isize_max" and inside: "\<forall>(off, len) \<in> set ranges. off + len \<le> length contents"
  shows "\<exists>reqs. plan ranges config = Ok reqs
    \<and> (\<forall>req \<in> set reqs. req_offset req + req_len req \<le> length contents)
    \<and> scatter reqs (map (\<lambda>r. slice (req_offset r) (req_len r) contents) reqs) (length ranges) =
        Ok (map (\<lambda>(off, len). slice off len contents) ranges)"
proof -
  have "ends_fit ranges" using inside small by (fastforce simp: ends_fit_def isize_max_def u64_max_def)
  then obtain reqs where plan: "plan ranges config = Ok reqs"
    and ok: "\<And>req. req \<in> set reqs \<Longrightarrow> request_ok ranges config req"
    and dist: "distinct (parts_of reqs)" and all: "set (parts_of reqs) = {..<length ranges}"
    by (rule plan_correct) blast
  have bound: "req_offset req + req_len req \<le> length contents" if "req \<in> set reqs" for req
    using ok [OF that] inside by (fastforce simp: request_ok_def)
  define fetched where "fetched = map (\<lambda>r. slice (req_offset r) (req_len r) contents) reqs"
  define us where
    "us = concat (map (\<lambda>req. updates (slice (req_offset req) (req_len req) contents) (req_parts req)) reqs)"
  have us_keys: "map fst us = parts_of reqs"
    unfolding us_def parts_of_def updates_def map_concat by (auto intro!: arg_cong [of _ _ concat])
  have "scatter_loop (length ranges) (zip reqs fetched) (replicate (length ranges) []) =
      Ok (apply_updates us (replicate (length ranges) []))"
  proof -
    have z: "zip reqs fetched = map (\<lambda>r. (r, slice (req_offset r) (req_len r) contents)) reqs"
      unfolding fetched_def by (induction reqs) auto
    have "i < length ranges \<and> at + len \<le> length (slice (req_offset req) (req_len req) contents)"
      if "req \<in> set reqs" "(i, at, len) \<in> set (req_parts req)" for req i at len
      using ok [OF that(1)] that(2) bound [OF that(1)] by (fastforce simp: request_ok_def part_ok_def)
    moreover have "length (slice a n contents) \<le> u64_max" for a n
      using small by (simp add: isize_max_def u64_max_def)
    ultimately show ?thesis unfolding z
      by (subst scatter_loop_Ok) (auto simp: us_def comp_def)
  qed
  moreover have "apply_updates us (replicate (length ranges) []) =
      map (\<lambda>(off, len). slice off len contents) ranges"
  proof (rule nth_equalityI)
    fix k
    assume "k < length (apply_updates us (replicate (length ranges) []))"
    then have k: "k < length ranges" by simp
    then have "k \<in> fst ` set us" using all us_keys by (metis lessThan_iff set_map)
    then obtain v where kv: "(k, v) \<in> set us" by force
    then obtain req at len where req: "req \<in> set reqs" and part: "(k, at, len) \<in> set (req_parts req)"
      and v: "v = slice at len (slice (req_offset req) (req_len req) contents)"
      by (auto simp: us_def updates_def)
    obtain off l where r: "ranges ! k = (off, l)" by fastforce
    have p: "part_ok ranges req (k, at, len)" using ok [OF req] part by (auto simp: request_ok_def)
    then have "v = slice off l contents"
      using v r by (cases "len = 0") (auto simp: part_ok_def slice_slice)
    then show "apply_updates us (replicate (length ranges) []) ! k =
        map (\<lambda>(off, len). slice off len contents) ranges ! k"
      using apply_updates_nth [of us k v] dist us_keys kv k r by simp
  qed simp
  ultimately have "scatter reqs fetched (length ranges) = Ok (map (\<lambda>(off, len). slice off len contents) ranges)"
    by (simp add: scatter_def fetched_def)
  then show ?thesis using plan bound unfolding fetched_def by blast
qed

lemma plan_positive:
  assumes "plan ranges config = Ok reqs" and "\<forall>(off, len) \<in> set ranges. 0 < len" and "req \<in> set reqs"
  shows "0 < req_len req"
proof -
  have step: "\<forall>r \<in> set out'. 0 < req_len r" if "plan_step ranges config out i = Ok out'" "\<forall>r \<in> set out. 0 < req_len r" for out out' i
  proof -
    have i: "i < length ranges" using that(1) by (auto simp: plan_step_def index_at_def split: if_splits)
    obtain off len where at: "ranges ! i = (off, len)" by (cases "ranges ! i")
    have e: "index_at ranges i = Ok (off, len)" "(off, len) \<in> set ranges" using i at nth_mem [OF i] by (simp_all add: index_at_def)
    then have "0 < len" using assms(2) by auto
    then show ?thesis using that e(1) last_in_set [of out]
      by (fastforce simp: plan_step_def Let_def map_last_def add64_def sub64_def result_simps split: if_splits dest: in_set_butlastD)
  qed
  have "\<forall>r \<in> set out'. 0 < req_len r" if "plan_loop ranges config order out = Ok out'" "\<forall>r \<in> set out. 0 < req_len r" for order out out'
    using that by (induction order arbitrary: out) (auto simp: result_simps dest: step)
  then show ?thesis using assms(1,3) by (fastforce simp: plan_def split: if_splits)
qed

context byte_source
begin

lemma read_merged_correct:
  assumes inside: "\<forall>(off, len) \<in> set ranges. off + len \<le> length contents"
  shows "read_merged src config ranges = Ok (map (\<lambda>(off, len). slice off len contents) ranges)"
proof -
  obtain reqs where p: "plan ranges config = Ok reqs" "\<forall>req \<in> set reqs. req_offset req + req_len req \<le> length contents"
    "scatter reqs (map (\<lambda>r. slice (req_offset r) (req_len r) contents) reqs) (length ranges) =
        Ok (map (\<lambda>(off, len). slice off len contents) ranges)"
    using planned_parts [OF contents_small inside, of config] by blast
  have "read_ranges src (map (\<lambda>r. (req_offset r, req_len r)) reqs) = Ok (map (\<lambda>r. slice (req_offset r) (req_len r) contents) reqs)"
    by (subst read_ranges_inside) (use p(2) in auto)
  then show ?thesis using p(1,3) by (simp add: read_merged_def)
qed

end

section \<open>Properties\<close>

text \<open>
  When no range ends beyond the address space, the plan succeeds; its requests are in file
  order; each wanted range is a part of exactly one request and lies in it at the recorded
  position; and no merged request is larger than \<open>max_request_size\<close>.
\<close>

theorem plan_sound_and_complete:
  assumes "ends_fit ranges"
  shows "\<exists>reqs. plan ranges config = Ok reqs \<and> sorted (map req_offset reqs)
    \<and> distinct (parts_of reqs) \<and> set (parts_of reqs) = {..<length ranges}
    \<and> (\<forall>req \<in> set reqs. request_ok ranges config req)"
  by (rule plan_correct [OF assms, of config]) blast

theorem plan_sound_and_complete_witness:
  "\<exists>reqs. plan [(30, 5), (0, 10), (12, 4)] REMOTE = Ok reqs \<and> set (parts_of reqs) = {0, 1, 2}"
proof -
  have "ends_fit [(30, 5), (0, 10), (12, 4)]" by (simp add: ends_fit_def u64_max_def)
  moreover have "{..<3} = {0, 1, 2 :: nat}" by auto
  ultimately show ?thesis
    using plan_sound_and_complete [of "[(30, 5), (0, 10), (12, 4)]" REMOTE] by auto
qed

text \<open>
  Merging is invisible: reading the planned requests and scattering them into the wanted
  ranges gives, for each range in the order asked, the file's bytes of that range.
\<close>

theorem read_merged_exact:
  assumes "byte_source src contents" and "\<forall>(off, len) \<in> set ranges. off + len \<le> length contents"
  shows "read_merged src config ranges = Ok (map (\<lambda>(off, len). slice off len contents) ranges)"
  using byte_source.read_merged_correct [OF assms] .

theorem read_merged_exact_witness:
  "read_merged (memory_source [1, 2, 3, 4, 5, 6]) LOCAL [(4, 2), (0, 1), (1, 2)] = Ok [[5, 6], [1], [2, 3]]"
proof -
  have "byte_source (memory_source [1, 2, 3, 4, 5, 6]) [1, 2, 3, 4, 5, 6]"
    by (rule byte_source_memory) (simp add: isize_max_def)
  from read_merged_exact [OF this, of "[(4, 2), (0, 1), (1, 2)]" LOCAL]
  show ?thesis by (simp add: slice_def)
qed

end
