(* ===== verification/Page_Cache.thy ===== *)
theory Page_Cache
  imports Byte_Source
begin

text \<open>
  The raw byte cache of \<^verbatim>\<open>crates/oxcdf-hdf5/src/cache.rs\<close> (\<open>IoCache\<close>) and the decoded-chunk cache
  (\<open>ChunkCache\<close>).  The concurrent map of the \<^verbatim>\<open>moka\<close> crate is a partial map; what the crate may do on
  its own, drop any entry at any time, is the step \<open>evict\<close> of the state machine below.
\<close>

record io_cache =
  pages :: "nat \<rightharpoonup> bytes"
  page_size :: nat

definition new_io_cache :: "nat \<Rightarrow> io_cache result" where
  "new_io_cache ps = (if ps > 0 then Ok \<lparr>pages = Map.empty, page_size = ps\<rparr> else panic)"

definition put_page :: "nat \<Rightarrow> bytes \<Rightarrow> io_cache \<Rightarrow> io_cache" where
  "put_page index bs cache = cache\<lparr>pages := (pages cache)(index \<mapsto> bs)\<rparr>"

definition clear_pages :: "io_cache \<Rightarrow> io_cache" where
  "clear_pages cache = cache\<lparr>pages := Map.empty\<rparr>"

definition bounds :: "io_cache \<Rightarrow> nat \<Rightarrow> nat \<Rightarrow> nat \<Rightarrow> (nat \<times> nat) option result" where
  "bounds cache sz offset len =
     (if len = 0 then Ok None
      else if saturating_add offset len > sz
      then Error (OutOfBounds ''cached read'' offset len (sz - offset))
      else and_then (add64 offset len) (\<lambda>fin.
             Ok (Some (offset div page_size cache, (fin - 1) div page_size cache))))"

definition cached :: "io_cache \<Rightarrow> nat \<Rightarrow> nat \<Rightarrow> bytes option list" where
  "cached cache first final = map (pages cache) [first..<Suc final]"

text \<open>The loop of \<open>missing_runs\<close>: \<open>start\<close> is the open run, \<open>index\<close> the page of the next slot.\<close>

fun missing_loop :: "nat \<Rightarrow> nat option \<Rightarrow> bytes option list \<Rightarrow> (nat \<times> nat) list" where
  "missing_loop index start [] = (case start of None \<Rightarrow> [] | Some s \<Rightarrow> [(s, index - 1)])"
| "missing_loop index start (p # ps) =
     (case (p, start) of
        (None, None) \<Rightarrow> missing_loop (index + 1) (Some index) ps
      | (Some _, Some s) \<Rightarrow> (s, index - 1) # missing_loop (index + 1) None ps
      | _ \<Rightarrow> missing_loop (index + 1) start ps)"

definition missing_runs :: "bytes option list \<Rightarrow> nat \<Rightarrow> (nat \<times> nat) list" where
  "missing_runs ps first = missing_loop first None ps"

definition run_extent :: "io_cache \<Rightarrow> nat \<Rightarrow> nat \<Rightarrow> nat \<Rightarrow> (nat \<times> nat) result" where
  "run_extent cache start final sz =
     and_then (mul64 start (page_size cache)) (\<lambda>begin.
     and_then (add64 final 1) (\<lambda>n.
     and_then (mul64 n (page_size cache)) (\<lambda>fin. Ok (begin, min fin sz - begin))))"

text \<open>
  The loop of \<open>store_run\<close> over \<open>index in start..=end\<close>, counted by the pages left; it stores each
  page in the cache and in the slots of the read.
\<close>

fun store_loop ::
  "nat \<Rightarrow> nat \<Rightarrow> nat \<Rightarrow> nat \<Rightarrow> bytes \<Rightarrow> bytes option list \<times> io_cache
   \<Rightarrow> (bytes option list \<times> io_cache) result" where
  "store_loop 0 index start first bs st = Ok st"
| "store_loop (Suc n) index start first bs (slots, cache) =
     and_then (mul64 (index - start) (page_size cache)) (\<lambda>at.
       if at \<ge> length bs then Ok (slots, cache)
       else
         let got = min (page_size cache) (length bs - at); page = slice at got bs in
         if index - first < length slots
         then store_loop n (index + 1) start first bs
                (slots[index - first := Some page], put_page index page cache)
         else panic)"

definition store_run ::
  "nat \<Rightarrow> nat \<Rightarrow> nat \<Rightarrow> bytes \<Rightarrow> bytes option list \<times> io_cache
   \<Rightarrow> (bytes option list \<times> io_cache) result" where
  "store_run start final first bs st = store_loop (final + 1 - start) start start first bs st"

fun fetch_runs ::
  "source \<Rightarrow> nat \<Rightarrow> (nat \<times> nat) list \<Rightarrow> bytes option list \<times> io_cache
   \<Rightarrow> (bytes option list \<times> io_cache) result" where
  "fetch_runs src first [] st = Ok st"
| "fetch_runs src first ((start, final) # runs) (slots, cache) =
     and_then (run_extent cache start final (src_size src)) (\<lambda>(begin, want).
     and_then (read_vec src begin want) (\<lambda>bs.
     and_then (store_run start final first bs (slots, cache)) (fetch_runs src first runs)))"

fun assemble_loop ::
  "nat \<Rightarrow> nat \<Rightarrow> nat \<Rightarrow> nat \<Rightarrow> bytes option list \<Rightarrow> bytes \<Rightarrow> bytes result" where
  "assemble_loop ps offset len index [] out = Ok out"
| "assemble_loop ps offset len index (None # rest) out =
     Error (Malformed ''page cache lost a page it had just fetched'')"
| "assemble_loop ps offset len index (Some page # rest) out =
     and_then (mul64 index ps) (\<lambda>page_start.
     and_then (add64 offset len) (\<lambda>fin.
     and_then (add64 page_start (length page)) (\<lambda>page_end.
       let from = max offset page_start; upto = min fin page_end in
       if from < upto
       then and_then (slice_range page (from - page_start) (upto - page_start)) (\<lambda>part.
              assemble_loop ps offset len (index + 1) rest (out @ part))
       else assemble_loop ps offset len (index + 1) rest out)))"

definition assemble :: "io_cache \<Rightarrow> nat \<Rightarrow> nat \<Rightarrow> nat \<Rightarrow> bytes option list \<Rightarrow> bytes result" where
  "assemble cache offset len first slots =
     (case slots of
        [slot] \<Rightarrow>
          (case slot of
             None \<Rightarrow> Error (Malformed ''page cache lost a page it had just fetched'')
           | Some page \<Rightarrow>
               and_then (mul64 first (page_size cache)) (\<lambda>base.
               and_then (sub64 offset base) (\<lambda>at.
               and_then (add64 at len) (\<lambda>fin.
                 if fin > length page
                 then Error (OutOfBounds ''cached read'' offset len (length page - at))
                 else slice_range page at fin))))
      | _ \<Rightarrow>
          and_then (assemble_loop (page_size cache) offset len first slots []) (\<lambda>out.
            if length out \<noteq> len
            then Error (OutOfBounds ''cached read'' offset len (length out))
            else Ok out))"

definition io_read :: "io_cache \<Rightarrow> source \<Rightarrow> nat \<Rightarrow> nat \<Rightarrow> (bytes \<times> io_cache) result" where
  "io_read cache src offset len =
     and_then (bounds cache (src_size src) offset len) (\<lambda>b.
       case b of
         None \<Rightarrow> Ok ([], cache)
       | Some (first, final) \<Rightarrow>
           let slots = cached cache first final in
           and_then (fetch_runs src first (missing_runs slots first) (slots, cache))
             (\<lambda>(slots, cache'). and_then (assemble cache' offset len first slots) (\<lambda>out.
                Ok (out, cache'))))"

section \<open>Pages of the file\<close>

definition page_of :: "nat \<Rightarrow> bytes \<Rightarrow> nat \<Rightarrow> bytes" where
  "page_of ps contents index = slice (index * ps) ps contents"

definition pages_valid :: "io_cache \<Rightarrow> bytes \<Rightarrow> bool" where
  "pages_valid cache contents \<longleftrightarrow>
     0 < page_size cache \<and>
     (\<forall>index page. pages cache index = Some page \<longrightarrow> page = page_of (page_size cache) contents index)"

lemma pages_valid_put:
  "pages_valid cache contents \<Longrightarrow>
   pages_valid (put_page i (page_of (page_size cache) contents i) cache) contents"
  by (auto simp: pages_valid_def put_page_def)

lemma page_size_put [simp]: "page_size (put_page i b cache) = page_size cache"
  by (simp add: put_page_def)

text \<open>The runs cover exactly the missing slots.\<close>

lemma missing_loop_runs:
  "(s, e) \<in> set (missing_loop index start ps) \<Longrightarrow>
   (case start of None \<Rightarrow> True | Some s0 \<Rightarrow> s0 < index) \<Longrightarrow>
   (case start of None \<Rightarrow> index | Some s0 \<Rightarrow> s0) \<le> s \<and> s \<le> e \<and> e < index + length ps"
proof (induction index start ps rule: missing_loop.induct)
  case (1 index start)
  then show ?case by (auto split: option.splits)
next
  case (2 index start p ps)
  then show ?case by (cases p; cases start) (auto, fastforce+)
qed

lemma missing_loop_open:
  "s0 < index \<Longrightarrow> \<exists>e. (s0, e) \<in> set (missing_loop index (Some s0) ps) \<and> index - 1 \<le> e"
proof (induction ps arbitrary: index)
  case (Cons p ps)
  show ?case
  proof (cases p)
    case None
    then show ?thesis using Cons.IH [of "index + 1"] Cons.prems by fastforce
  qed auto
qed simp

lemma missing_loop_covers:
  "k < length ps \<Longrightarrow> ps ! k = None \<Longrightarrow> (\<And>s0. start = Some s0 \<Longrightarrow> s0 < index) \<Longrightarrow>
   \<exists>(s, e) \<in> set (missing_loop index start ps). s \<le> index + k \<and> index + k \<le> e"
proof (induction ps arbitrary: index start k)
  case (Cons p ps)
  define start' where "start' = (case p of None \<Rightarrow> Some (case start of None \<Rightarrow> index | Some s0 \<Rightarrow> s0) | Some _ \<Rightarrow> None)"
  have sub: "set (missing_loop (index + 1) start' ps) \<subseteq> set (missing_loop index start (p # ps))"
    by (cases p; cases start) (auto simp: start'_def)
  show ?case
  proof (cases k)
    case 0
    define s0 where "s0 = (case start of None \<Rightarrow> index | Some s0 \<Rightarrow> s0)"
    have "s0 \<le> index" using Cons.prems(3) by (auto simp: s0_def less_imp_le split: option.splits)
    then obtain e where "(s0, e) \<in> set (missing_loop (index + 1) (Some s0) ps)" "index \<le> e"
      using missing_loop_open [of s0 "index + 1" ps] by auto
    moreover have "start' = Some s0" using 0 Cons.prems(2) by (simp add: start'_def s0_def)
    ultimately show ?thesis using sub 0 \<open>s0 \<le> index\<close> by fastforce
  next
    case (Suc k')
    have "\<exists>(s, e) \<in> set (missing_loop (index + 1) start' ps). s \<le> index + 1 + k' \<and> index + 1 + k' \<le> e"
      using Cons.IH [of k' start' "index + 1"] Cons.prems Suc
      by (fastforce simp: start'_def less_imp_le split: option.splits)
    then show ?thesis using sub Suc by fastforce
  qed
qed simp

section \<open>Fetching fills the missing slots with the file's pages\<close>

definition slots_ok :: "nat \<Rightarrow> bytes \<Rightarrow> nat \<Rightarrow> bytes option list \<Rightarrow> bool" where
  "slots_ok ps contents first slots \<longleftrightarrow>
     (\<forall>k < length slots. slots ! k = None \<or> slots ! k = Some (page_of ps contents (first + k)))"

lemma min_run: "a < s \<Longrightarrow> a + ps \<le> f \<Longrightarrow> min ps (min f s - a) = min ps (s - a)" for a s ps f :: nat
  by auto

lemma clip_le: "a < s \<Longrightarrow> a + (min f s - a) \<le> s" for a s f :: nat
  by auto

text \<open>The part of a page that a read wants, followed by what the read wants of the later pages.\<close>

lemma slice_pages:
  fixes offset fin a ps f :: nat
  assumes "offset \<le> fin" "fin \<le> length xs" "0 < ps" "a + ps \<le> f" and p: "p = min ps (length xs - a)"
  shows "slice (max offset a) (min fin (a + p) - max offset a) xs
    @ slice (max offset (a + ps)) (min fin f - max offset (a + ps)) xs
    = slice (max offset a) (min fin f - max offset a) xs"
proof -
  consider "fin \<le> a + p" | "a + p < fin" "offset \<le> a + ps" | "a + p < fin" "a + ps < offset" by linarith
  then show ?thesis
  proof cases
    case 1
    have "fin \<le> a + ps" using 1 p by simp
    then have "min fin f - max offset (a + ps) = 0" and "fin \<le> f" using assms(4) by simp_all
    moreover have "min fin (a + p) = min fin f" using 1 calculation(2) by simp
    ultimately show ?thesis by simp
  next
    case 2
    have "p = ps" using 2 assms(2) p by (auto simp: min_def split: if_splits)
    then have "max offset a + (min fin (a + p) - max offset a) = a + ps" "max offset (a + ps) = a + ps"
      "min fin (a + p) - max offset a + (min fin f - (a + ps)) = min fin f - max offset a"
      using 2 assms by (auto simp: min_def max_def)
    then show ?thesis
      using slice_append_adjacent [of "max offset a" "min fin (a + p) - max offset a" xs "min fin f - (a + ps)"]
      by simp
  next
    case 3
    then have "min fin (a + p) - max offset a = 0" "max offset (a + ps) = max offset a"
      using p by (auto simp: min_def max_def)
    then show ?thesis by simp
  qed
qed

lemma page_of_run:
  assumes "start \<le> index" "index \<le> final" and "0 < ps"
    and bs: "bs = slice (start * ps) (min ((final + 1) * ps) (length contents) - start * ps) contents"
    and at: "at = (index - start) * ps" and inside: "final * ps < length contents"
  shows "at < length bs" and "slice at (min ps (length bs - at)) bs = page_of ps contents index"
proof -
  have at': "start * ps + at = index * ps"
    using assms(1) by (simp add: at diff_mult_distrib mult_le_mono1)
  have "index * ps \<le> final * ps" using assms(2) by (rule mult_le_mono1)
  then have idx: "index * ps < length contents" "index * ps + ps \<le> (final + 1) * ps"
    using inside by (linarith, simp add: distrib_right)
  have len: "length bs = min ((final + 1) * ps) (length contents) - start * ps"
    unfolding bs by auto
  then have rest: "length bs - at = min ((final + 1) * ps) (length contents) - index * ps"
    using at' by simp
  moreover have "index * ps < min ((final + 1) * ps) (length contents)"
    unfolding min_less_iff_conj using idx \<open>0 < ps\<close> by linarith
  ultimately show "at < length bs" by linarith
  have got: "min ps (length bs - at) = min ps (length contents - index * ps)"
    unfolding rest using idx by (rule min_run)
  have "slice at (min ps (length bs - at)) bs = slice (index * ps) (min ps (length bs - at)) contents"
    using \<open>at < length bs\<close> len at' by (subst bs, subst slice_slice) auto
  then show "slice at (min ps (length bs - at)) bs = page_of ps contents index"
    unfolding got page_of_def by (auto simp: slice_def min_def)
qed

lemma store_loop_correct:
  assumes valid: "pages_valid cache contents" and inside: "final * page_size cache < length contents"
    and small: "(final + 1) * page_size cache \<le> u64_max"
    and bs: "bs = slice (start * page_size cache)
      (min ((final + 1) * page_size cache) (length contents) - start * page_size cache) contents"
    and n: "index + n = final + 1" "start \<le> index" "first \<le> start" "final - first < length slots"
  shows "\<exists>slots' cache'. store_loop n index start first bs (slots, cache) = Ok (slots', cache')
    \<and> pages_valid cache' contents \<and> page_size cache' = page_size cache \<and> length slots' = length slots
    \<and> (\<forall>k < length slots. slots' ! k =
        (if index \<le> first + k \<and> first + k \<le> final then Some (page_of (page_size cache) contents (first + k))
         else slots ! k))"
  using assms
proof (induction n arbitrary: index slots cache)
  case (Suc n)
  let ?ps = "page_size cache"
  have ps: "0 < ?ps" using Suc.prems(1) by (simp add: pages_valid_def)
  have le: "index \<le> final" using Suc.prems(5) by simp
  let ?at = "(index - start) * ?ps" and ?page = "page_of ?ps contents index"
  have "?at \<le> (final + 1) * ?ps" using le by (intro mult_le_mono1) simp
  then have mul: "mul64 (index - start) ?ps = Ok ?at" using Suc.prems(3) by (simp add: mul64_def)
  note run = page_of_run [OF Suc.prems(6) le ps Suc.prems(4) refl Suc.prems(2)]
  let ?slots = "slots[index - first := Some ?page]" and ?cache = "put_page index ?page cache"
  have slot: "index - first < length slots" using le Suc.prems(8) by simp
  have step: "store_loop (Suc n) index start first bs (slots, cache) =
      store_loop n (index + 1) start first bs (?slots, ?cache)"
    using run slot by (simp add: mul Let_def)
  obtain slots' cache' where IH: "store_loop n (index + 1) start first bs (?slots, ?cache) = Ok (slots', cache')"
    "pages_valid cache' contents" "page_size cache' = ?ps" "length slots' = length slots"
    "\<And>k. k < length slots \<Longrightarrow> slots' ! k = (if index + 1 \<le> first + k \<and> first + k \<le> final
       then Some (page_of ?ps contents (first + k)) else ?slots ! k)"
    using Suc.IH [of ?cache "index + 1" ?slots] Suc.prems pages_valid_put [OF Suc.prems(1)] by auto
  have "slots' ! k = (if index \<le> first + k \<and> first + k \<le> final
       then Some (page_of ?ps contents (first + k)) else slots ! k)" if "k < length slots" for k
    using IH(5) [OF that] that le Suc.prems(6,7) by (auto simp: nth_list_update)
  then show ?case using step IH by auto
qed auto

lemma fetch_runs_correct:
  assumes src: "byte_source src contents"
  shows "pages_valid cache contents \<Longrightarrow> slots_ok (page_size cache) contents first slots \<Longrightarrow>
    \<forall>(s, e) \<in> set runs. first \<le> s \<and> s \<le> e \<and> e < first + length slots
      \<and> e * page_size cache < length contents \<and> (e + 1) * page_size cache \<le> u64_max \<Longrightarrow>
    \<exists>slots' cache'. fetch_runs src first runs (slots, cache) = Ok (slots', cache')
      \<and> pages_valid cache' contents \<and> page_size cache' = page_size cache
      \<and> length slots' = length slots \<and> slots_ok (page_size cache) contents first slots'
      \<and> (\<forall>k < length slots. slots ! k \<noteq> None \<or> (\<exists>(s, e) \<in> set runs. s \<le> first + k \<and> first + k \<le> e)
            \<longrightarrow> slots' ! k \<noteq> None)"
proof (induction runs arbitrary: slots cache)
  case (Cons run runs)
  obtain s e where run: "run = (s, e)" by (cases run)
  let ?ps = "page_size cache"
  have b: "first \<le> s" "s \<le> e" "e < first + length slots" "e * ?ps < length contents" "(e + 1) * ?ps \<le> u64_max"
    using Cons.prems(3) run by auto
  define want where "want = min ((e + 1) * ?ps) (length contents) - s * ?ps"
  have se: "s * ?ps \<le> e * ?ps" using b(2) by (rule mult_le_mono1)
  have e1: "e + 1 \<le> u64_max"
    using le_trans [OF mult_le_mono2 [of 1 ?ps "e + 1"] b(5)] Cons.prems(1)
    by (simp add: pages_valid_def)
  have ext: "run_extent cache s e (src_size src) = Ok (s * ?ps, want)"
    using le_trans [OF mult_le_mono1 [of s "e + 1" ?ps] b(5)] b(2,5) e1 byte_source.size_contents [OF src]
    by (simp add: run_extent_def mul64_def add64_def want_def)
  have fetch: "read_vec src (s * ?ps) want = Ok (slice (s * ?ps) want contents)"
    unfolding want_def
    by (rule byte_source.read_vec_inside [OF src], rule clip_le) (use se b(4) in linarith)
  have "\<exists>slots1 cache1. store_run s e first (slice (s * ?ps) want contents) (slots, cache) = Ok (slots1, cache1)
    \<and> pages_valid cache1 contents \<and> page_size cache1 = ?ps \<and> length slots1 = length slots
    \<and> (\<forall>k < length slots. slots1 ! k =
        (if s \<le> first + k \<and> first + k \<le> e then Some (page_of ?ps contents (first + k)) else slots ! k))"
    unfolding store_run_def want_def
    by (rule store_loop_correct [OF Cons.prems(1) b(4,5) refl]) (use b in auto)
  then obtain slots1 cache1 where
    st: "store_run s e first (slice (s * ?ps) want contents) (slots, cache) = Ok (slots1, cache1)"
    "pages_valid cache1 contents" "page_size cache1 = ?ps" "length slots1 = length slots"
    "\<forall>k < length slots. slots1 ! k =
        (if s \<le> first + k \<and> first + k \<le> e then Some (page_of ?ps contents (first + k)) else slots ! k)"
    by blast
  have ok1: "slots_ok (page_size cache1) contents first slots1"
    using Cons.prems(2) st(3-5) by (auto simp: slots_ok_def)
  obtain slots2 cache2 where IH: "fetch_runs src first runs (slots1, cache1) = Ok (slots2, cache2)"
    "pages_valid cache2 contents" "page_size cache2 = ?ps" "length slots2 = length slots"
    "slots_ok ?ps contents first slots2"
    "\<forall>k < length slots. slots1 ! k \<noteq> None \<or> (\<exists>(s, e) \<in> set runs. s \<le> first + k \<and> first + k \<le> e)
       \<longrightarrow> slots2 ! k \<noteq> None"
    using Cons.IH [OF st(2) ok1] Cons.prems(3) st(3,4) by auto
  have "fetch_runs src first (run # runs) (slots, cache) = Ok (slots2, cache2)"
    using run ext fetch st(1) IH(1) by simp
  moreover have "slots2 ! k \<noteq> None"
    if "k < length slots" "slots ! k \<noteq> None \<or> (\<exists>(s, e) \<in> set (run # runs). s \<le> first + k \<and> first + k \<le> e)" for k
    using IH(6) st(5) that run by fastforce
  ultimately show ?case using IH by blast
qed (auto simp: slots_ok_def)


section \<open>Assembling\<close>

lemma assemble_loop_correct:
  assumes "0 < ps" and fin: "offset + len \<le> length contents" and small: "length contents \<le> isize_max"
  shows "(\<And>k. k < length slots \<Longrightarrow> slots ! k = Some (page_of ps contents (index + k))) \<Longrightarrow>
    (\<And>k. k < length slots \<Longrightarrow> (index + k) * ps \<le> length contents) \<Longrightarrow>
    assemble_loop ps offset len index slots out =
      Ok (out @ slice (max offset (index * ps))
            (min (offset + len) ((index + length slots) * ps) - max offset (index * ps)) contents)"
proof (induction slots arbitrary: index out)
  case Nil
  then show ?case by (simp add: max_def min_def)
next
  case (Cons slot slots)
  let ?page = "page_of ps contents index" and ?a = "index * ps"
  let ?from = "max offset ?a" and ?upto = "min (offset + len) (?a + length ?page)"
  let ?next = "max offset ((index + 1) * ps)"
  have slot: "slot = Some ?page" using Cons.prems(1) [of 0] by simp
  have a: "?a \<le> length contents" using Cons.prems(2) [of 0] by simp
  have len_page: "length ?page = min ps (length contents - ?a)" by (simp add: page_of_def)
  have pend: "?a + length ?page \<le> length contents" using a len_page by simp
  have checks: "mul64 index ps = Ok ?a" "add64 offset len = Ok (offset + len)"
    "add64 ?a (length ?page) = Ok (?a + length ?page)"
    using a fin pend small by (simp_all add: mul64_def add64_def isize_max_def u64_max_def)
  define piece where "piece = slice ?from (?upto - ?from) contents"
  have part: "slice_range ?page (?from - ?a) (?upto - ?a) = Ok piece" if lt: "?from < ?upto"
  proof -
    have "slice (?from - ?a) (?upto - ?a - (?from - ?a)) ?page = piece"
      unfolding page_of_def piece_def using lt len_page by (subst slice_slice) (auto simp: max_def min_def)
    moreover have "?from - ?a \<le> ?upto - ?a" using lt by (intro diff_le_mono) simp
    moreover have "?upto - ?a \<le> length ?page" by simp
    ultimately show ?thesis unfolding slice_range_def by simp
  qed
  have tail: "assemble_loop ps offset len (index + 1) slots o' =
      Ok (o' @ slice ?next (min (offset + len) ((index + 1 + length slots) * ps) - ?next) contents)" for o'
    using Cons.prems(1) [of "Suc _"] Cons.prems(2) [of "Suc _"] by (intro Cons.IH) auto
  let ?last = "(index + 1 + length slots) * ps"
  have "assemble_loop ps offset len index (slot # slots) out =
      Ok (out @ piece @ slice ?next (min (offset + len) ?last - ?next) contents)"
  proof (cases "?from < ?upto")
    case True
    then show ?thesis unfolding slot assemble_loop.simps checks and_then.simps Let_def part [OF True] tail by simp
  next
    case False
    then have "?upto - ?from = 0" by linarith
    then have "piece = []" by (simp only: piece_def slice_zero_len)
    then show ?thesis
      unfolding slot assemble_loop.simps checks and_then.simps Let_def if_not_P [OF False] tail by simp
  qed
  moreover have "piece @ slice ?next (min (offset + len) ?last - ?next) contents =
      slice ?from (min (offset + len) ?last - ?from) contents"
  proof -
    have nxt: "(index + 1) * ps = ?a + ps" by (simp add: distrib_right)
    have "?a + ps \<le> ?last" by (simp add: algebra_simps)
    then show ?thesis
      unfolding piece_def nxt by (intro slice_pages [OF _ fin \<open>0 < ps\<close> _ len_page]) simp_all
  qed
  ultimately show ?case by (simp add: add.commute add.left_commute)
qed


lemma assemble_correct:
  assumes valid: "pages_valid cache contents" and fin: "offset + len \<le> length contents" and pos: "0 < len"
    and small: "length contents \<le> isize_max"
    and first: "first = offset div page_size cache"
    and n: "length slots = (offset + len - 1) div page_size cache + 1 - first"
    and slots: "\<And>k. k < length slots \<Longrightarrow> slots ! k = Some (page_of (page_size cache) contents (first + k))"
  shows "assemble cache offset len first slots = Ok (slice offset len contents)"
proof -
  let ?ps = "page_size cache" and ?final = "(offset + len - 1) div page_size cache"
  have ps: "0 < ?ps" using valid by (simp add: pages_valid_def)
  have base: "first * ?ps \<le> offset" unfolding first by simp
  have "?final * ?ps \<le> offset + len - 1" by simp
  have le: "first \<le> ?final" unfolding first using pos by (intro div_le_mono) simp
  have cover: "offset + len \<le> (?final + 1) * ?ps"
    using div_mult_mod_eq [of "offset + len - 1" ?ps] mod_less_divisor [OF ps, of "offset + len - 1"] pos
    unfolding distrib_right mult_1 by linarith
  have last: "first + length slots = ?final + 1" using n le by simp
  have inside: "(first + k) * ?ps \<le> length contents" if "k < length slots" for k
  proof -
    have "(first + k) * ?ps \<le> ?final * ?ps" using that last by (intro mult_le_mono1) simp
    then show ?thesis using \<open>?final * ?ps \<le> offset + len - 1\<close> fin by linarith
  qed
  have loop: "assemble_loop ?ps offset len first slots [] = Ok (slice offset len contents)"
    by (subst assemble_loop_correct [OF ps fin small slots inside])
      (use base cover last in \<open>simp_all add: max_absorb1 min_absorb1\<close>)
  show ?thesis
  proof (cases "length slots = 1")
    case True
    then obtain slot where s: "slots = [slot]" by (cases slots) auto
    then have slot: "slot = Some (page_of ?ps contents first)" using slots [of 0] by simp
    have page: "length (page_of ?ps contents first) = min ?ps (length contents - first * ?ps)"
      by (simp add: page_of_def)
    have at: "offset - first * ?ps + len \<le> length (page_of ?ps contents first)"
    proof -
      have "(?final + 1) * ?ps = first * ?ps + ?ps" using last True by (simp add: distrib_right)
      then show ?thesis unfolding page min.bounded_iff using cover fin base by linarith
    qed
    have "slice_range (page_of ?ps contents first) (offset - first * ?ps) (offset - first * ?ps + len) =
        Ok (slice offset len contents)"
      using at base page by (simp add: slice_range_def page_of_def slice_slice)
    moreover have "first * ?ps \<le> u64_max" "offset - first * ?ps + len \<le> u64_max"
      using base fin small by (auto simp: isize_max_def u64_max_def)
    ultimately show ?thesis using s slot at base
      by (simp add: assemble_def mul64_def sub64_def add64_def)
  next
    case False
    then have "assemble cache offset len first slots =
        and_then (assemble_loop ?ps offset len first slots []) (\<lambda>out.
          if length out \<noteq> len then Error (OutOfBounds ''cached read'' offset len (length out)) else Ok out)"
      by (auto simp: assemble_def split: list.splits)
    then show ?thesis using loop fin by simp
  qed
qed

section \<open>A cached read returns the file's bytes\<close>

lemma io_read_inside:
  assumes src: "byte_source src contents" and valid: "pages_valid cache contents"
    and fin: "offset + len \<le> length contents"
    and ps: "page_size cache \<le> u64_max"
  shows "\<exists>cache'. io_read cache src offset len = Ok (slice offset len contents, cache')
    \<and> pages_valid cache' contents \<and> page_size cache' = page_size cache"
proof (cases "len = 0")
  case True
  then show ?thesis using valid by (simp add: io_read_def bounds_def)
next
  case pos: False
  let ?ps = "page_size cache" and ?first = "offset div page_size cache"
    and ?final = "(offset + len - 1) div page_size cache"
  have small: "length contents \<le> isize_max" and size: "src_size src = length contents"
    using byte_source.contents_small [OF src] byte_source.size_contents [OF src] .
  have ps0: "0 < ?ps" using valid by (simp add: pages_valid_def)
  have final: "?final * ?ps < length contents"
    using div_times_less_eq_dividend [of "offset + len - 1" ?ps] fin pos by linarith
  have final1: "(?final + 1) * ?ps \<le> u64_max"
  proof (cases "?final = 0")
    case False
    then have "?ps \<le> ?final * ?ps" using ps0 by simp
    then have "(?final + 1) * ?ps \<le> 2 * length contents"
      using final unfolding distrib_right mult_1 by linarith
    then show ?thesis using small by (simp add: isize_max_def u64_max_def)
  qed (use ps in simp)
  define slots where "slots = cached cache ?first ?final"
  have len: "length slots = ?final + 1 - ?first" unfolding slots_def cached_def by (simp del: upt_Suc)
  have le: "?first \<le> ?final" using pos by (intro div_le_mono) simp
  have nth: "slots ! k = pages cache (?first + k)" if "k < length slots" for k
    using that by (simp add: slots_def cached_def del: upt_Suc)
  have ok: "slots_ok ?ps contents ?first slots"
    using valid nth by (auto simp: slots_ok_def pages_valid_def) (metis not_None_eq)
  have runs: "\<forall>(s, e) \<in> set (missing_runs slots ?first). ?first \<le> s \<and> s \<le> e \<and> e < ?first + length slots
      \<and> e * ?ps < length contents \<and> (e + 1) * ?ps \<le> u64_max"
  proof (clarify)
    fix s e
    assume "(s, e) \<in> set (missing_runs slots ?first)"
    then have b: "?first \<le> s \<and> s \<le> e \<and> e < ?first + length slots"
      using missing_loop_runs [of s e ?first None slots] by (simp add: missing_runs_def)
    then have "e \<le> ?final" using len le by simp
    then have "e * ?ps \<le> ?final * ?ps" "(e + 1) * ?ps \<le> (?final + 1) * ?ps" by (auto intro!: mult_le_mono1)
    then show "?first \<le> s \<and> s \<le> e \<and> e < ?first + length slots \<and> e * ?ps < length contents \<and> (e + 1) * ?ps \<le> u64_max"
      using b final final1 by linarith
  qed
  obtain slots' cache' where f: "fetch_runs src ?first (missing_runs slots ?first) (slots, cache) = Ok (slots', cache')"
    "pages_valid cache' contents" "page_size cache' = ?ps" "length slots' = length slots"
    "slots_ok ?ps contents ?first slots'"
    "\<forall>k < length slots. slots ! k \<noteq> None \<or>
       (\<exists>(s, e) \<in> set (missing_runs slots ?first). s \<le> ?first + k \<and> ?first + k \<le> e) \<longrightarrow> slots' ! k \<noteq> None"
    using fetch_runs_correct [OF src valid ok runs] by blast
  have full: "slots' ! k = Some (page_of ?ps contents (?first + k))" if "k < length slots'" for k
  proof -
    have "slots' ! k \<noteq> None"
      using f(6) missing_loop_covers [of k slots None ?first] that f(4) by (auto simp: missing_runs_def)
    then show ?thesis using f(5) that by (auto simp: slots_ok_def)
  qed
  have "assemble cache' offset len ?first slots' = Ok (slice offset len contents)"
    by (rule assemble_correct [OF f(2) fin _ small]) (use pos f full len in auto)
  moreover have "bounds cache (length contents) offset len = Ok (Some (?first, ?final))"
    using pos fin small by (simp add: bounds_def saturating_add_le add64_def isize_max_def u64_max_def not_less)
  ultimately have "io_read cache src offset len = Ok (slice offset len contents, cache')"
    using f(1) unfolding io_read_def size slots_def Let_def by simp
  then show ?thesis using f(2,3) by blast
qed

lemma io_read_outside:
  assumes src: "byte_source src contents" and "0 < len" and "length contents < offset + len"
  shows "io_read cache src offset len =
    Error (OutOfBounds ''cached read'' offset len (length contents - offset))"
  using assms byte_source.size_contents [OF src] byte_source.contents_small [OF src]
  by (simp add: io_read_def bounds_def saturating_add_le)


text \<open>A cache in front of a source is again a source with the same contents.\<close>

definition cached_source :: "io_cache \<Rightarrow> source \<Rightarrow> source" where
  "cached_source cache src =
     \<lparr>src_size = src_size src,
      read_exact_at = (\<lambda>offset len. and_then (io_read cache src offset len) (\<lambda>(bs, _). Ok bs))\<rparr>"

lemma byte_source_cached:
  assumes src: "byte_source src contents" and valid: "pages_valid cache contents"
    and ps: "page_size cache \<le> u64_max"
  shows "byte_source (cached_source cache src) contents"
proof unfold_locales
  show "src_size (cached_source cache src) = length contents"
    using byte_source.size_contents [OF src] by (simp add: cached_source_def)
  show "length contents \<le> isize_max" by (rule byte_source.contents_small [OF src])
  show "read_exact_at (cached_source cache src) offset len = Ok (slice offset len contents)"
    if "offset + len \<le> length contents" for offset len
    using io_read_inside [OF src valid that ps] by (auto simp: cached_source_def)
  show "\<exists>what. read_exact_at (cached_source cache src) offset len =
      Error (OutOfBounds what offset len (length contents - offset))"
    if "0 < len" "length contents < offset + len" for offset len
    using io_read_outside [OF src that] by (simp add: cached_source_def)
  show "read_exact_at (cached_source cache src) offset 0 \<noteq> Inl Panic
      \<and> (\<forall>bs. read_exact_at (cached_source cache src) offset 0 = Inr bs \<longrightarrow> bs = [])" for offset
    by (simp add: cached_source_def io_read_def bounds_def)
qed

section \<open>The cache over time\<close>

text \<open>
  What happens to one cache during the life of a file: reads, an entry dropped by the eviction
  policy, a page stored by the asynchronous engine (\<open>put_page\<close>, whose documentation requires the
  file's bytes), and \<open>clear\<close>.
\<close>

inductive cache_step :: "source \<Rightarrow> bytes \<Rightarrow> io_cache \<Rightarrow> io_cache \<Rightarrow> bool" for src contents where
  step_read: "io_read cache src offset len = Ok (bs, cache') \<Longrightarrow> cache_step src contents cache cache'"
| step_evict: "pages cache' \<subseteq>\<^sub>m pages cache \<Longrightarrow> page_size cache' = page_size cache \<Longrightarrow>
    cache_step src contents cache cache'"
| step_put: "bs = page_of (page_size cache) contents index \<Longrightarrow>
    cache_step src contents cache (put_page index bs cache)"
| step_clear: "cache_step src contents cache (clear_pages cache)"

inductive cache_reachable :: "source \<Rightarrow> bytes \<Rightarrow> nat \<Rightarrow> io_cache \<Rightarrow> bool" for src contents ps where
  reach_new: "new_io_cache ps = Ok cache \<Longrightarrow> cache_reachable src contents ps cache"
| reach_step: "cache_reachable src contents ps cache \<Longrightarrow> cache_step src contents cache cache' \<Longrightarrow>
    cache_reachable src contents ps cache'"

lemma io_read_Ok_valid:
  assumes src: "byte_source src contents" and valid: "pages_valid cache contents"
    and ps: "page_size cache \<le> u64_max" and eq: "io_read cache src offset len = Ok (bs, cache')"
  shows "pages_valid cache' contents \<and> page_size cache' = page_size cache"
proof (cases "0 < len \<and> length contents < offset + len")
  case True
  then show ?thesis using io_read_outside [OF src] eq by auto
next
  case False
  then consider "len = 0" | "offset + len \<le> length contents" by linarith
  then show ?thesis
  proof cases
    case 1
    then show ?thesis using eq valid by (simp add: io_read_def bounds_def)
  next
    case 2
    then show ?thesis using io_read_inside [OF src valid 2 ps] eq by auto
  qed
qed

lemma cache_step_valid:
  assumes src: "byte_source src contents" and step: "cache_step src contents cache cache'"
    and valid: "pages_valid cache contents" and ps: "page_size cache \<le> u64_max"
  shows "pages_valid cache' contents \<and> page_size cache' = page_size cache"
  using step
proof (cases rule: cache_step.cases)
  case step_read
  then show ?thesis using io_read_Ok_valid [OF src valid ps] by blast
next
  case step_evict
  then show ?thesis using valid by (auto simp: pages_valid_def map_le_def dom_def)
next
  case step_put
  then show ?thesis using pages_valid_put valid by simp
next
  case step_clear
  then show ?thesis using valid by (simp add: pages_valid_def clear_pages_def)
qed

lemma cache_reachable_valid:
  assumes src: "byte_source src contents" and ps: "ps \<le> u64_max"
  shows "cache_reachable src contents ps cache \<Longrightarrow> pages_valid cache contents \<and> page_size cache = ps"
proof (induction rule: cache_reachable.induct)
  case (reach_new cache)
  then show ?case by (auto simp: new_io_cache_def pages_valid_def split: if_splits)
next
  case (reach_step cache cache')
  then show ?case using cache_step_valid [OF src reach_step.hyps(2)] ps by simp
qed

section \<open>Decoded chunks\<close>

text \<open>
  \<open>ChunkCache::get_or_decode\<close>: a hit returns the held buffer, a miss decodes and stores.  The
  invariant is that every entry is what decoding that address yields.
\<close>

definition get_or_decode ::
  "(nat \<rightharpoonup> bytes) \<Rightarrow> nat \<Rightarrow> bytes result \<Rightarrow> bytes result \<times> (nat \<rightharpoonup> bytes)" where
  "get_or_decode cache address decode =
     (case cache address of
        Some hit \<Rightarrow> (Ok hit, cache)
      | None \<Rightarrow>
          (case decode of
             Inl e \<Rightarrow> (Inl e, cache)
           | Inr decoded \<Rightarrow> (Ok decoded, cache(address \<mapsto> decoded))))"

definition chunks_valid :: "(nat \<rightharpoonup> bytes) \<Rightarrow> (nat \<Rightarrow> bytes result) \<Rightarrow> bool" where
  "chunks_valid cache decode \<longleftrightarrow> (\<forall>a b. cache a = Some b \<longrightarrow> decode a = Ok b)"

lemma get_or_decode_correct:
  assumes "chunks_valid cache decode" and "get_or_decode cache a (decode a) = (r, cache')"
  shows "r = decode a \<and> chunks_valid cache' decode"
  using assms by (auto simp: get_or_decode_def chunks_valid_def split: option.splits sum.splits if_splits)

section \<open>Properties\<close>

text \<open>
  C22.  Whatever reads, evictions, page stores and clears a page cache went through, a read of a
  range inside the file returns exactly the file's bytes of that range, a read that passes the end
  is the error \<open>OutOfBounds\<close>, neither panics, and the cache that results is again reachable.
\<close>

theorem cached_read_transparent:
  assumes "byte_source src contents" and "ps \<le> u64_max"
    and "cache_reachable src contents ps cache"
  shows "(offset + len \<le> length contents \<longrightarrow>
      (\<exists>cache'. io_read cache src offset len = Ok (slice offset len contents, cache')
        \<and> cache_reachable src contents ps cache'))
    \<and> (0 < len \<and> length contents < offset + len \<longrightarrow>
      io_read cache src offset len = Error (OutOfBounds ''cached read'' offset len (length contents - offset)))"
proof (intro conjI impI)
  have valid: "pages_valid cache contents" "page_size cache \<le> u64_max"
    using cache_reachable_valid [OF assms] assms(2) by auto
  show "\<exists>cache'. io_read cache src offset len = Ok (slice offset len contents, cache')
        \<and> cache_reachable src contents ps cache'" if "offset + len \<le> length contents"
    using io_read_inside [OF assms(1) valid(1) that valid(2)] assms(3) step_read reach_step by metis
  show "io_read cache src offset len = Error (OutOfBounds ''cached read'' offset len (length contents - offset))"
    if "0 < len \<and> length contents < offset + len"
    using io_read_outside [OF assms(1)] that by blast
qed

theorem cached_read_transparent_witness:
  "\<exists>cache'. io_read \<lparr>pages = [1 \<mapsto> [30, 40]], page_size = 2\<rparr> (memory_source [10, 20, 30, 40, 50]) 1 4 =
     Ok ([20, 30, 40, 50], cache')"
proof -
  let ?data = "[10, 20, 30, 40, 50] :: bytes"
  have src: "byte_source (memory_source ?data) ?data"
    by (rule byte_source_memory) (simp add: isize_max_def)
  have "cache_reachable (memory_source ?data) ?data 2 \<lparr>pages = Map.empty, page_size = 2\<rparr>"
    by (rule reach_new) (simp add: new_io_cache_def)
  then have reach: "cache_reachable (memory_source ?data) ?data 2 \<lparr>pages = [1 \<mapsto> [30, 40]], page_size = 2\<rparr>"
    by (rule reach_step)
      (use step_put [of "[30, 40]" "\<lparr>pages = Map.empty, page_size = 2\<rparr>" ?data 1 "memory_source ?data"]
        in \<open>simp add: page_of_def slice_def put_page_def\<close>)
  show ?thesis
    using cached_read_transparent [OF src _ reach, of 1 4] by (simp add: u64_max_def slice_def) blast
qed

text \<open>
  The decoded-chunk cache is transparent: as long as every entry holds what decoding its
  address yields, a lookup returns exactly what decoding would, hit or miss, error included, and
  the entries keep that property.
\<close>

theorem get_or_decode_transparent:
  assumes "chunks_valid cache decode"
  shows "fst (get_or_decode cache a (decode a)) = decode a
    \<and> chunks_valid (snd (get_or_decode cache a (decode a))) decode
    \<and> (\<forall>e. decode a = Inl e \<longrightarrow> snd (get_or_decode cache a (decode a)) = cache)"
  using assms by (auto simp: get_or_decode_def chunks_valid_def split: option.splits sum.splits if_splits)

theorem get_or_decode_transparent_witness:
  "fst (get_or_decode [7 \<mapsto> [1]] 9 (Ok [2])) = Ok [2 :: byte]"
proof -
  have "chunks_valid [7 \<mapsto> [1]] (\<lambda>a. if a = 7 then Ok [1] else Ok [2])"
    by (simp add: chunks_valid_def)
  from get_or_decode_transparent [OF this, of 9] show ?thesis by simp
qed

end
