(* ===== verification/Superblock.thy ===== *)
theory Superblock
  imports Byte_Cursor Byte_Source Checksum
begin

text \<open>
  The superblock (\<^verbatim>\<open>superblock.rs\<close>) and the symbol table entries and nodes of old-style groups
  (\<^verbatim>\<open>symbol_table.rs\<close>): the search over user-block offsets, the two layouts, their validation.
\<close>

section \<open>Symbol table entries and nodes\<close>

datatype cached_info =
    CacheNone
  | CacheGroup (btree_address: nat) (heap_address: nat)
  | CacheSymbolicLink (link_value_offset: nat)

record symbol_table_entry =
  link_name_offset :: nat
  object_header_address :: "nat option"
  entry_cached :: cached_info

definition entry_encoded_len :: "sizes \<Rightarrow> nat" where
  "entry_encoded_len s = offset_size s * 2 + 4 + 4 + 16"

definition parse_cached :: "sizes \<Rightarrow> nat \<Rightarrow> cached_info parser" where
  "parse_cached s cache_type =
     (if cache_type = 0 then ret_p CacheNone
      else if cache_type = 1 then
        bind_p (address_required s ''cached group B-tree'') (\<lambda>b.
        bind_p (address_required s ''cached group local heap'') (\<lambda>h. ret_p (CacheGroup b h)))
      else if cache_type = 2 then bind_p u32 (\<lambda>v. ret_p (CacheSymbolicLink v))
      else ret_p CacheNone)"

definition parse_entry :: "sizes \<Rightarrow> symbol_table_entry parser" where
  "parse_entry s =
     bind_p (read_uint (offset_size s)) (\<lambda>name.
     bind_p (read_address s) (\<lambda>header.
     bind_p u32 (\<lambda>cache_type.
     bind_p (skip 4) (\<lambda>_.
     bind_p (sub_p 16 (parse_cached s cache_type)) (\<lambda>cached.
       ret_p \<lparr>link_name_offset = name, object_header_address = header, entry_cached = cached\<rparr>)))))"

definition SNOD_SIGNATURE :: bytes where
  "SNOD_SIGNATURE = [0x53, 0x4E, 0x4F, 0x44]"

definition parse_symbol_node_p :: "sizes \<Rightarrow> symbol_table_entry list parser" where
  "parse_symbol_node_p s =
     bind_p (take_bytes 4) (\<lambda>sig.
       if sig \<noteq> SNOD_SIGNATURE then fail_p (Malformed ''expected SNOD signature'')
       else bind_p u8 (\<lambda>version.
         if version \<noteq> 1 then fail_p (Unsupported ''symbol table node version'')
         else bind_p (skip 1) (\<lambda>_. bind_p u16 (\<lambda>n. repeat_p n (parse_entry s)))))"

definition parse_symbol_node :: "sizes \<Rightarrow> bytes \<Rightarrow> symbol_table_entry list result" where
  "parse_symbol_node s b = run_p (parse_symbol_node_p s) b"

definition symbol_node_encoded_len :: "nat \<Rightarrow> sizes \<Rightarrow> nat" where
  "symbol_node_encoded_len capacity s = 8 + capacity * entry_encoded_len s"

section \<open>The superblock\<close>

datatype root_group = SymbolTable symbol_table_entry | ObjectHeader nat

record superblock =
  version :: nat
  sb_sizes :: sizes
  superblock_offset :: nat
  base_address :: nat
  end_of_file_address :: nat
  extension_address :: "nat option"
  root :: root_group
  group_internal_node_k :: nat
  group_leaf_node_k :: nat
  indexed_storage_internal_node_k :: nat

definition HDF5_SIGNATURE :: bytes where
  "HDF5_SIGNATURE = [0x89, 0x48, 0x44, 0x46, 0x0D, 0x0A, 0x1A, 0x0A]"

definition DEFAULT_ISTORE_K :: nat where
  "DEFAULT_ISTORE_K = 32"

definition width_ok :: "nat \<Rightarrow> bool" where
  "width_ok v \<longleftrightarrow> \<not> (v = 0 \<or> v > 8 \<or> \<not> is_power_of_two v)"

definition validate_sizes :: "nat \<Rightarrow> nat \<Rightarrow> sizes result" where
  "validate_sizes off len =
     (if \<not> width_ok off then Error (Unsupported ''size of offsets; only 1, 2, 4 and 8 are supported'')
      else if \<not> width_ok len then Error (Unsupported ''size of lengths; only 1, 2, 4 and 8 are supported'')
      else Ok \<lparr>offset_size = off, length_size = len\<rparr>)"

definition parse_v0_v1 :: "nat \<Rightarrow> nat \<Rightarrow> superblock parser" where
  "parse_v0_v1 ver off =
     bind_p u8 (\<lambda>_. bind_p u8 (\<lambda>_. bind_p (skip 1) (\<lambda>_. bind_p u8 (\<lambda>_.
     bind_p u8 (\<lambda>os. bind_p u8 (\<lambda>ls. bind_p (skip 1) (\<lambda>_.
     bind_p (lift_p (validate_sizes os ls)) (\<lambda>s.
     bind_p u16 (\<lambda>leaf_k. bind_p u16 (\<lambda>internal_k. bind_p u32 (\<lambda>_.
     bind_p (if ver = 1 then bind_p u16 (\<lambda>k. bind_p (skip 2) (\<lambda>_. ret_p k))
             else ret_p DEFAULT_ISTORE_K) (\<lambda>istore_k.
     bind_p (read_uint (offset_size s)) (\<lambda>base. bind_p (read_address s) (\<lambda>_.
     bind_p (read_uint (offset_size s)) (\<lambda>eof. bind_p (read_address s) (\<lambda>_.
     bind_p get_remaining (\<lambda>rem.
       if rem < entry_encoded_len s
       then fail_p (Malformed ''superblock is truncated before the root group symbol table entry'')
       else bind_p (parse_entry s) (\<lambda>entry.
         ret_p \<lparr>version = ver, sb_sizes = s, superblock_offset = off, base_address = base,
                end_of_file_address = eof, extension_address = None, root = SymbolTable entry,
                group_internal_node_k = internal_k, group_leaf_node_k = leaf_k,
                indexed_storage_internal_node_k = istore_k\<rparr>))))))))))))))))))"

definition parse_v2_v3 :: "bytes \<Rightarrow> nat \<Rightarrow> nat \<Rightarrow> superblock parser" where
  "parse_v2_v3 b ver off =
     bind_p u8 (\<lambda>os. bind_p u8 (\<lambda>ls.
     bind_p (lift_p (validate_sizes os ls)) (\<lambda>s. bind_p u8 (\<lambda>_.
     bind_p (read_uint (offset_size s)) (\<lambda>base. bind_p (read_address s) (\<lambda>ext.
     bind_p (read_uint (offset_size s)) (\<lambda>eof.
     bind_p (address_required s ''root group object header'') (\<lambda>header.
     bind_p get_pos (\<lambda>checksum_pos. bind_p u32 (\<lambda>stored.
     bind_p (lift_p (slice_range b 0 checksum_pos)) (\<lambda>covered.
       if word_of_nat stored \<noteq> metadata covered
       then fail_p (ChecksumMismatch ''superblock'' (word_of_nat stored) (metadata covered))
       else ret_p \<lparr>version = ver, sb_sizes = s, superblock_offset = off, base_address = base,
                end_of_file_address = eof, extension_address = ext, root = ObjectHeader header,
                group_internal_node_k = 0, group_leaf_node_k = 0,
                indexed_storage_internal_node_k = DEFAULT_ISTORE_K\<rparr>)))))))))))"

definition parse_superblock_p :: "bytes \<Rightarrow> nat \<Rightarrow> superblock parser" where
  "parse_superblock_p b off =
     bind_p (skip 8) (\<lambda>_. bind_p u8 (\<lambda>ver.
       if ver = 0 \<or> ver = 1 then parse_v0_v1 ver off
       else if ver = 2 \<or> ver = 3 then parse_v2_v3 b ver off
       else fail_p (Unsupported ''superblock version'')))"

definition parse_superblock_at :: "source \<Rightarrow> nat \<Rightarrow> superblock result" where
  "parse_superblock_at src off =
     and_then (sub64 (src_size src) off) (\<lambda>rest.
     and_then (read_vec src off (min rest 96)) (\<lambda>b. run_p (parse_superblock_p b off) b))"

text \<open>The probing loop of \<open>Superblock::read\<close>; the offset grows until it passes the end.\<close>

function read_superblock_from :: "source \<Rightarrow> nat \<Rightarrow> superblock result" where
  "read_superblock_from src off =
     (if u64_max < off + 8 then panic
      else if src_size src < off + 8
      then Error (Malformed ''no HDF5 superblock signature found at any user-block offset'')
      else and_then (read_exact_at src off 8) (\<lambda>magic.
        if magic = HDF5_SIGNATURE then parse_superblock_at src off
        else if off = 0 then read_superblock_from src 512
        else if u64_max < off * 2 then panic
        else read_superblock_from src (off * 2)))"
  by auto
termination by (relation "measure (\<lambda>(src, off). Suc (src_size src) - off)") auto

declare read_superblock_from.simps [simp del]

definition read_superblock :: "source \<Rightarrow> superblock result" where
  "read_superblock src = read_superblock_from src 0"

definition root_object_header_address :: "superblock \<Rightarrow> nat result" where
  "root_object_header_address sb =
     (case root sb of
        ObjectHeader a \<Rightarrow> Ok a
      | SymbolTable e \<Rightarrow>
          (case object_header_address e of
             Some a \<Rightarrow> Ok a
           | None \<Rightarrow> Error (Malformed ''root group has no object header address'')))"

definition resolve :: "superblock \<Rightarrow> nat \<Rightarrow> nat" where
  "resolve sb address = wrapping_add (base_address sb) address"

section \<open>Which container a file uses\<close>

datatype container = Hdf5 | Cdf1 | Cdf2 | Cdf5

definition CDF_SIGNATURES :: "bytes list" where
  "CDF_SIGNATURES = [[0x43, 0x44, 0x46, 1], [0x43, 0x44, 0x46, 2], [0x43, 0x44, 0x46, 5]]"

function probe_container :: "source \<Rightarrow> nat \<Rightarrow> container result" where
  "probe_container src probe =
     (if u64_max < probe + 8 then panic
      else if probe = 0 \<or> src_size src < probe + 8
      then Error (Malformed ''file is neither HDF5 (netCDF-4) nor a netCDF classic container'')
      else and_then (read_exact_at src probe 8) (\<lambda>magic.
        if magic = HDF5_SIGNATURE then Ok Hdf5
        else if u64_max < probe * 2 then panic
        else probe_container src (probe * 2)))"
  by auto
termination by (relation "measure (\<lambda>(src, probe). Suc (src_size src) - probe)") auto

declare probe_container.simps [simp del]

definition detect_container :: "source \<Rightarrow> container result" where
  "detect_container src =
     (if src_size src \<ge> 8 then
        and_then (read_exact_at src 0 8) (\<lambda>magic.
          if magic = HDF5_SIGNATURE then Ok Hdf5
          else if take 4 magic = CDF_SIGNATURES ! 0 then Ok Cdf1
          else if take 4 magic = CDF_SIGNATURES ! 1 then Ok Cdf2
          else if take 4 magic = CDF_SIGNATURES ! 2 then Ok Cdf5
          else probe_container src 512)
      else probe_container src 512)"

section \<open>Safety\<close>

lemma safe_parse_cached [safe_intros]: "safe_parser (parse_cached s t)"
  unfolding parse_cached_def by (intro safe_intros)

lemma safe_parse_entry [safe_intros]: "safe_parser (parse_entry s)"
  unfolding parse_entry_def by (intro safe_intros)

lemma safe_parse_symbol_node: "safe_parser (parse_symbol_node_p s)"
  unfolding parse_symbol_node_p_def by (intro safe_intros)

lemma validate_sizes_no_panic [safe_intros]: "validate_sizes a b \<noteq> Inl Panic"
  by (simp add: validate_sizes_def)

lemma safe_parse_v0_v1: "safe_parser (parse_v0_v1 ver off)"
  unfolding parse_v0_v1_def by (intro safe_intros)

lemma safe_parse_v2_v3: "safe_on b (parse_v2_v3 b ver off)"
  unfolding parse_v2_v3_def
  by (intro safe_on_pos safe_on_slice safe_on_bind_safe safe_on_if safe_intros
      safe_onI [OF safe_ret] safe_onI [OF safe_fail])

lemma safe_parse_superblock: "safe_on b (parse_superblock_p b off)"
  unfolding parse_superblock_p_def
  by (intro safe_on_bind_safe safe_on_if safe_intros safe_onI [OF safe_parse_v0_v1]
      safe_parse_v2_v3 safe_onI [OF safe_fail])

lemma width_ok_iff: "width_ok v \<longleftrightarrow> v \<in> {1, 2, 4, 8}"
proof
  assume v: "width_ok v"
  then obtain k where "v = 2 ^ k" and "v \<le> 8" by (auto simp: width_ok_def is_power_of_two_def)
  then have "2 ^ k \<le> (2 :: nat) ^ 3" by simp
  then have "k \<le> 3" by (rule power_le_imp_le_exp [rotated]) simp
  then have "k = 0 \<or> k = 1 \<or> k = 2 \<or> k = 3" by arith
  then show "v \<in> {1, 2, 4, 8}" using \<open>v = 2 ^ k\<close> by auto
next
  have "k < 64 \<Longrightarrow> is_power_of_two (2 ^ k)" for k by (auto simp: is_power_of_two_def)
  from this [of 0] this [of 1] this [of 2] this [of 3]
  have "is_power_of_two 1" "is_power_of_two 2" "is_power_of_two 4" "is_power_of_two 8" by simp_all
  then show "v \<in> {1, 2, 4, 8} \<Longrightarrow> width_ok v" by (auto simp: width_ok_def)
qed

definition sizes_ok :: "sizes \<Rightarrow> bool" where
  "sizes_ok s \<longleftrightarrow> offset_size s \<in> {1, 2, 4, 8} \<and> length_size s \<in> {1, 2, 4, 8}"

lemma validate_sizes_Ok: "validate_sizes a b = Inr s \<longleftrightarrow> s = \<lparr>offset_size = a, length_size = b\<rparr> \<and> sizes_ok s"
  by (auto simp: validate_sizes_def width_ok_iff sizes_ok_def)

lemma lift_p_Ok [result_simps]: "lift_p r c = Inr (x, c') \<longleftrightarrow> r = Inr x \<and> c' = c"
  by (cases r) (auto simp: lift_p_def)

lemma parse_v0_v1_sizes: "parse_v0_v1 ver off c = Inr (sb, c') \<Longrightarrow> sizes_ok (sb_sizes sb)"
  by (auto simp: parse_v0_v1_def result_simps validate_sizes_Ok fail_p_def split: if_splits)

lemma parse_v2_v3_sizes: "parse_v2_v3 b ver off c = Inr (sb, c') \<Longrightarrow> sizes_ok (sb_sizes sb)"
  by (auto simp: parse_v2_v3_def result_simps validate_sizes_Ok fail_p_def split: if_splits)

lemma parse_superblock_sizes: "run_p (parse_superblock_p b off) b' = Inr sb \<Longrightarrow> sizes_ok (sb_sizes sb)"
  by (auto simp: run_p_def parse_superblock_p_def result_simps fail_p_def split: if_splits
      dest: parse_v0_v1_sizes parse_v2_v3_sizes)

context byte_source
begin

lemma parse_superblock_at_no_panic:
  assumes "off \<le> length contents"
  shows "parse_superblock_at src off \<noteq> Inl Panic"
proof -
  let ?n = "min (length contents - off) 96"
  have "read_vec src off ?n = Ok (slice off ?n contents)" by (rule read_vec_inside) (use assms in simp)
  moreover have "length (slice off ?n contents) \<le> isize_max" using contents_small by simp
  ultimately show ?thesis
    using run_p_no_panic_on [OF safe_parse_superblock] assms
    by (simp add: parse_superblock_at_def size_contents sub64_def)
qed

lemma parse_superblock_at_sizes:
  "parse_superblock_at src off = Inr sb \<Longrightarrow> sizes_ok (sb_sizes sb)"
  by (auto simp: parse_superblock_at_def result_simps dest: parse_superblock_sizes)

lemma probe_doubles: "off + 8 \<le> length contents \<Longrightarrow> off * 2 + 8 \<le> u64_max"
  using contents_small by (simp add: u64_max_def isize_max_def)

lemma read_superblock_from_safe:
  "off + 8 \<le> u64_max \<Longrightarrow>
   read_superblock_from src off \<noteq> Inl Panic \<and>
   (\<forall>sb. read_superblock_from src off = Inr sb \<longrightarrow> sizes_ok (sb_sizes sb))"
proof (induction "Suc (length contents) - off" arbitrary: off rule: less_induct)
  case less
  show ?case
  proof (cases "off + 8 \<le> length contents")
    case True
    have "read_superblock_from src (if off = 0 then 512 else off * 2) \<noteq> Inl Panic \<and>
      (\<forall>sb. read_superblock_from src (if off = 0 then 512 else off * 2) = Inr sb \<longrightarrow> sizes_ok (sb_sizes sb))"
      by (rule less.hyps) (use True probe_doubles in \<open>auto simp: u64_max_def\<close>)
    then show ?thesis
      using True less.prems probe_doubles [OF True] parse_superblock_at_no_panic [of off]
        parse_superblock_at_sizes [of off]
      by (subst (1 2) read_superblock_from.simps)
        (auto simp: size_contents read_inside split: if_splits)
  next
    case False
    then show ?thesis
      using less.prems by (subst (1 2) read_superblock_from.simps) (simp add: size_contents not_le)
  qed
qed

lemma probe_container_no_panic:
  "probe + 8 \<le> u64_max \<Longrightarrow> probe_container src probe \<noteq> Inl Panic"
proof (induction "Suc (length contents) - probe" arbitrary: probe rule: less_induct)
  case less
  show ?case
  proof (cases "probe \<noteq> 0 \<and> probe + 8 \<le> length contents")
    case True
    have "probe_container src (probe * 2) \<noteq> Inl Panic"
      by (rule less.hyps) (use True probe_doubles in auto)
    then show ?thesis
      using True less.prems probe_doubles [of probe]
      by (subst probe_container.simps) (auto simp: size_contents read_inside split: if_splits)
  next
    case False
    then show ?thesis
      using less.prems by (subst probe_container.simps) (auto simp: size_contents not_le)
  qed
qed

lemma detect_container_no_panic: "detect_container src \<noteq> Inl Panic"
  using probe_container_no_panic [of 512]
  by (auto simp: detect_container_def size_contents read_inside u64_max_def split: if_splits)

end

section \<open>Round trip\<close>

text \<open>The bytes of a version 2 or 3 superblock, checksum included.\<close>

definition encode_superblock_body :: "nat \<Rightarrow> superblock \<Rightarrow> nat \<Rightarrow> bytes" where
  "encode_superblock_body flags sb header =
     HDF5_SIGNATURE @ to_le 1 (version sb) @ to_le 1 (offset_size (sb_sizes sb)) @
     to_le 1 (length_size (sb_sizes sb)) @ to_le 1 flags @
     to_le (offset_size (sb_sizes sb)) (base_address sb) @
     encode_address (sb_sizes sb) (extension_address sb) @
     to_le (offset_size (sb_sizes sb)) (end_of_file_address sb) @
     encode_address (sb_sizes sb) (Some header)"

definition encode_superblock :: "nat \<Rightarrow> superblock \<Rightarrow> nat \<Rightarrow> bytes" where
  "encode_superblock flags sb header =
     encode_superblock_body flags sb header @
     to_le 4 (unat (metadata (encode_superblock_body flags sb header)))"

definition encodable_superblock :: "nat \<Rightarrow> superblock \<Rightarrow> nat \<Rightarrow> bool" where
  "encodable_superblock flags sb header \<longleftrightarrow>
     version sb \<in> {2, 3} \<and> sizes_ok (sb_sizes sb) \<and> flags < 256 \<and>
     base_address sb < 256 ^ offset_size (sb_sizes sb) \<and>
     end_of_file_address sb < 256 ^ offset_size (sb_sizes sb) \<and>
     fits_address (sb_sizes sb) (extension_address sb) \<and>
     fits_address (sb_sizes sb) (Some header) \<and>
     sb = \<lparr>version = version sb, sb_sizes = sb_sizes sb, superblock_offset = superblock_offset sb,
       base_address = base_address sb, end_of_file_address = end_of_file_address sb,
       extension_address = extension_address sb, root = ObjectHeader header,
       group_internal_node_k = 0, group_leaf_node_k = 0,
       indexed_storage_internal_node_k = DEFAULT_ISTORE_K\<rparr>"

lemma parse_superblock_encoded:
  assumes ok: "encodable_superblock flags sb header"
    and len: "length (encode_superblock flags sb header @ post) \<le> isize_max"
  shows "run_p (parse_superblock_p (encode_superblock flags sb header @ post) (superblock_offset sb))
      (encode_superblock flags sb header @ post) = Ok sb"
proof -
  let ?s = "sb_sizes sb" and ?body = "encode_superblock_body flags sb header"
  let ?w = "offset_size ?s" and ?b = "encode_superblock flags sb header @ post"
  have w: "0 < ?w" "?w \<le> 8" "?w < 256" "length_size ?s < 256"
    and val: "validate_sizes ?w (length_size ?s) = Ok ?s"
    and ver: "version sb = 2 \<or> version sb = 3" "version sb < 256" "flags < 256"
    and vals: "base_address sb < 256 ^ ?w" "end_of_file_address sb < 256 ^ ?w"
      "fits_address ?s (extension_address sb)" "fits_address ?s (Some header)"
    using ok by (auto simp: encodable_superblock_def sizes_ok_def validate_sizes_Ok)
  have sum: "unat (metadata ?body) < 4294967296" using unsigned_less [of "metadata ?body"] by simp
  have sb: "\<lparr>version = version sb, sb_sizes = ?s, superblock_offset = superblock_offset sb,
      base_address = base_address sb, end_of_file_address = end_of_file_address sb,
      extension_address = extension_address sb, root = ObjectHeader header,
      group_internal_node_k = 0, group_leaf_node_k = 0,
      indexed_storage_internal_node_k = DEFAULT_ISTORE_K\<rparr> = sb"
    using ok unfolding encodable_superblock_def by (elim conjE) (rule sym)
  let ?pre = "HDF5_SIGNATURE @ to_le 1 (version sb)"
  let ?tail = "to_le 1 ?w @ to_le 1 (length_size ?s) @ to_le 1 flags @ to_le ?w (base_address sb) @
    encode_address ?s (extension_address sb) @ to_le ?w (end_of_file_address sb) @
    encode_address ?s (Some header) @ to_le 4 (unat (metadata ?body))"
  define b where "b = encode_superblock flags sb header @ post"
  have enc: "encode_superblock flags sb header = ?pre @ ?tail"
    by (simp add: encode_superblock_def encode_superblock_body_def del: to_le.simps)
  have covered: "slice_range b 0 (length ?body) = Ok ?body"
    by (simp add: slice_range_def encode_superblock_def b_def)
  have body: "((((((?pre @ to_le 1 ?w) @ to_le 1 (length_size ?s)) @ to_le 1 flags) @
      to_le ?w (base_address sb)) @ encode_address ?s (extension_address sb)) @
      to_le ?w (end_of_file_address sb)) @ encode_address ?s (Some header) = ?body"
    by (simp add: encode_superblock_body_def del: to_le.simps)
  have check: "reads_at ?body post (bind_p get_pos (\<lambda>checksum_pos. bind_p u32 (\<lambda>stored.
      bind_p (lift_p (slice_range b 0 checksum_pos)) (\<lambda>covered.
        if word_of_nat stored \<noteq> metadata covered
        then fail_p (ChecksumMismatch ''superblock'' (word_of_nat stored) (metadata covered))
        else ret_p sb)))) (to_le 4 (unat (metadata ?body))) sb"
    by (intro reads_at_pos reads_at_step_last [OF reads_u32 [OF sum]] reads_at_lift [OF covered])
      (simp add: reads_at_ret)
  have tail: "reads_at ?pre post (parse_v2_v3 b (version sb) (superblock_offset sb)) ?tail sb"
    unfolding parse_v2_v3_def
    by (rule reads_at_step [OF reads_u8 [OF w(3)]], rule reads_at_step [OF reads_u8 [OF w(4)]],
        rule reads_at_lift [OF val], rule reads_at_step [OF reads_u8 [OF ver(3)]],
        rule reads_at_step [OF reads_uint [OF w(1,2) vals(1)]],
        rule reads_at_step [OF reads_address [OF w(1,2) vals(3)]],
        rule reads_at_step [OF reads_uint [OF w(1,2) vals(2)]],
        rule reads_at_step [OF reads_address_required [OF w(1,2) vals(4)]], unfold body sb, rule check)
  have "reads_at [] post (parse_superblock_p b (superblock_offset sb)) (?pre @ ?tail) sb"
    unfolding parse_superblock_p_def append_assoc
    by (rule reads_at_step [OF reads_skip [of HDF5_SIGNATURE 8]], simp add: HDF5_SIGNATURE_def,
        rule reads_at_step [OF reads_u8 [OF ver(2)]])
      (use tail ver in \<open>auto simp del: to_le.simps\<close>)
  then show ?thesis using len unfolding enc [symmetric] b_def by (rule run_p_reads_at)
qed

text \<open>The places where a superblock may start: offset 0 and the powers of two from 512 on.\<close>

definition is_probe :: "nat \<Rightarrow> bool" where
  "is_probe off \<longleftrightarrow> off = 0 \<or> (\<exists>k. off = 512 * 2 ^ k)"

definition next_probe :: "nat \<Rightarrow> nat" where
  "next_probe off = (if off = 0 then 512 else off * 2)"

lemma is_probe_next: "is_probe off \<Longrightarrow> is_probe (next_probe off)"
  unfolding is_probe_def next_probe_def
  by (auto intro: exI [of _ 0]) (metis mult.commute mult.left_commute power_Suc)

lemma next_probe_le:
  assumes "is_probe off" and "is_probe target" and "off < target"
  shows "next_probe off \<le> target"
proof -
  obtain m where m: "target = 512 * 2 ^ m" using assms by (auto simp: is_probe_def)
  show ?thesis
  proof (cases "off = 0")
    case False
    then obtain k where k: "off = 512 * 2 ^ k" using assms(1) by (auto simp: is_probe_def)
    then have "k < m" using assms(3) m by simp
    then have "(2 :: nat) ^ Suc k \<le> 2 ^ m" by (intro power_increasing) auto
    then show ?thesis using k m by (simp add: next_probe_def)
  qed (use m in \<open>simp add: next_probe_def\<close>)
qed

definition first_signature :: "bytes \<Rightarrow> nat \<Rightarrow> bool" where
  "first_signature contents target \<longleftrightarrow>
     is_probe target \<and> slice target 8 contents = HDF5_SIGNATURE \<and>
     (\<forall>off < target. is_probe off \<longrightarrow> slice off 8 contents \<noteq> HDF5_SIGNATURE)"

context byte_source
begin

lemma read_superblock_from_finds:
  assumes target: "first_signature contents target"
  shows "is_probe off \<Longrightarrow> off \<le> target \<Longrightarrow> read_superblock_from src off = parse_superblock_at src target"
proof (induction "target - off" arbitrary: off rule: less_induct)
  case less
  have "length (slice target 8 contents) = 8"
    using target by (simp add: first_signature_def HDF5_SIGNATURE_def)
  then have t8: "target + 8 \<le> length contents" by (auto simp: min_def split: if_splits)
  then have off8: "off + 8 \<le> length contents" using less.prems by simp
  have u: "off + 8 \<le> u64_max" "off * 2 \<le> u64_max" using probe_doubles [OF off8] by auto
  show ?case
  proof (cases "off = target")
    case True
    then show ?thesis
      using off8 u target by (subst read_superblock_from.simps)
        (simp add: size_contents read_inside first_signature_def)
  next
    case False
    then have lt: "off < target" using less.prems by simp
    then have ne: "slice off 8 contents \<noteq> HDF5_SIGNATURE"
      using target less.prems by (simp add: first_signature_def)
    have nx: "next_probe off \<le> target"
      using next_probe_le less.prems lt target by (simp add: first_signature_def)
    have "read_superblock_from src (next_probe off) = parse_superblock_at src target"
      by (rule less.hyps) (use nx lt is_probe_next less.prems in \<open>auto simp: next_probe_def\<close>)
    then show ?thesis
      using off8 u ne by (subst read_superblock_from.simps)
        (auto simp: size_contents read_inside next_probe_def split: if_splits)
  qed
qed

end

lemma length_encode_superblock:
  "sizes_ok (sb_sizes sb) \<Longrightarrow> length (encode_superblock flags sb header) \<le> 96"
  by (auto simp: encode_superblock_def encode_superblock_body_def HDF5_SIGNATURE_def
      encode_address_def sizes_ok_def simp del: to_le.simps)

lemma parse_v1_eight:
  assumes parse: "parse_v0_v1 1 off c = Inr (sb, c')" and pos: "pos c = 9"
    and width: "buf c ! 13 = 8" and len: "length (buf c) \<le> 96"
  shows False
proof -
  show False
    using parse [unfolded parse_v0_v1_def bind_p_Ok] width pos len
    by (auto simp: result_simps validate_sizes_Ok get_remaining_def fail_p_def remaining_def
        entry_encoded_len_def dest!: u8_Ok read_moves split: if_splits)
qed

lemma read_encoded_superblock:
  assumes src: "byte_source src (pre @ encode_superblock flags sb header @ post)"
    and first: "first_signature (pre @ encode_superblock flags sb header @ post) (length pre)"
    and ok: "encodable_superblock flags sb header" and off: "superblock_offset sb = length pre"
  shows "read_superblock src = Ok sb"
proof -
  let ?enc = "encode_superblock flags sb header" and ?c = "pre @ encode_superblock flags sb header @ post"
  let ?n = "min (length ?enc + length post) 96"
  have le: "length ?enc \<le> 96" using ok by (simp add: encodable_superblock_def length_encode_superblock)
  have small: "length ?c \<le> isize_max" and size: "src_size src = length ?c"
    using byte_source.contents_small [OF src] byte_source.size_contents [OF src] .
  have buf: "slice (length pre) ?n ?c = ?enc @ take (96 - length ?enc) post"
    using le by (auto simp: slice_def min_def)
  have "read_vec src (length pre) ?n = Ok (slice (length pre) ?n ?c)"
    by (rule byte_source.read_vec_inside [OF src]) simp
  then have rd: "read_vec src (length pre) ?n = Ok (?enc @ take (96 - length ?enc) post)" unfolding buf .
  have "run_p (parse_superblock_p (?enc @ take (96 - length ?enc) post) (length pre))
      (?enc @ take (96 - length ?enc) post) = Ok sb"
    using parse_superblock_encoded [OF ok, of "take (96 - length ?enc) post"] small off by simp
  then have "parse_superblock_at src (length pre) = Ok sb"
    using rd by (simp add: parse_superblock_at_def size sub64_def)
  moreover have "read_superblock_from src 0 = parse_superblock_at src (length pre)"
    by (rule byte_source.read_superblock_from_finds [OF src first]) (simp_all add: is_probe_def)
  ultimately show ?thesis by (simp add: read_superblock_def)
qed

section \<open>Properties\<close>

text \<open>
  Finding and parsing the superblock of any file, damaged or not, terminates without a
  panic, and an accepted superblock has address and length widths of 1, 2, 4 or 8 bytes.
\<close>

theorem superblock_never_panics:
  assumes "byte_source src contents"
  shows "read_superblock src \<noteq> Inl Panic
    \<and> (\<forall>sb. read_superblock src = Inr sb \<longrightarrow> sizes_ok (sb_sizes sb))
    \<and> detect_container src \<noteq> Inl Panic"
  using byte_source.read_superblock_from_safe [OF assms, of 0]
    byte_source.detect_container_no_panic [OF assms]
  by (simp add: read_superblock_def u64_max_def)

theorem superblock_never_panics_witness:
  "read_superblock (memory_source [1, 2, 3, 4, 5, 6, 7, 8, 9]) \<noteq> Inl Panic"
proof -
  have "byte_source (memory_source [1, 2, 3, 4, 5, 6, 7, 8, 9]) [1, 2, 3, 4, 5, 6, 7, 8, 9]"
    by (rule byte_source_memory) (simp add: isize_max_def)
  from superblock_never_panics [OF this] show ?thesis by simp
qed

text \<open>
  C25.  A version 2 or 3 superblock written with its checksum, behind a user block of any allowed
  size, is found and read back field by field, provided no earlier probe shows the signature.
\<close>

theorem superblock_round_trip:
  assumes "byte_source src (pre @ encode_superblock flags sb header @ post)"
    and "first_signature (pre @ encode_superblock flags sb header @ post) (length pre)"
    and "encodable_superblock flags sb header" and "superblock_offset sb = length pre"
  shows "read_superblock src = Ok sb"
  using assms by (rule read_encoded_superblock)

definition example_superblock :: superblock where
  "example_superblock = \<lparr>version = 2, sb_sizes = EIGHT, superblock_offset = 0, base_address = 0,
     end_of_file_address = 4096, extension_address = None, root = ObjectHeader 48,
     group_internal_node_k = 0, group_leaf_node_k = 0, indexed_storage_internal_node_k = DEFAULT_ISTORE_K\<rparr>"

theorem superblock_round_trip_witness:
  "read_superblock (memory_source (encode_superblock 0 example_superblock 48)) = Ok example_superblock"
proof -
  let ?c = "[] @ encode_superblock 0 example_superblock 48 @ []"
  have sizes: "sizes_ok (sb_sizes example_superblock)"
    by (simp add: example_superblock_def EIGHT_def sizes_ok_def)
  have "length ?c \<le> isize_max"
    using length_encode_superblock [OF sizes, of 0 48] by (simp add: isize_max_def)
  then have src: "byte_source (memory_source ?c) ?c" by (rule byte_source_memory)
  have first: "first_signature ?c (length [])"
    by (simp add: first_signature_def is_probe_def encode_superblock_def encode_superblock_body_def
        HDF5_SIGNATURE_def)
  have "encodable_superblock 0 example_superblock 48"
    using sizes by (simp add: encodable_superblock_def example_superblock_def EIGHT_def
        fits_address_def undefined_for_width_def u64_max_def)
  from superblock_round_trip [OF src first this] show ?thesis by (simp add: example_superblock_def)
qed

text \<open>
  A version 1 superblock with 8-byte addresses takes 100 bytes, but only 96 are read, so no
  file with such a superblock can be opened: parsing always ends in an error.
\<close>

theorem superblock_v1_always_rejected:
  assumes src: "byte_source src contents" and len: "off + 13 < length contents"
    and ver: "contents ! (off + 8) = 1" and width: "contents ! (off + 13) = 8"
  shows "\<exists>e. parse_superblock_at src off = Error e"
proof -
  let ?n = "min (length contents - off) 96"
  let ?b = "slice off ?n contents"
  have rd: "read_vec src off ?n = Ok ?b"
    by (rule byte_source.read_vec_inside [OF src]) (use len in simp)
  have at: "parse_superblock_at src off = run_p (parse_superblock_p ?b off) ?b"
    using rd len byte_source.size_contents [OF src] by (simp add: parse_superblock_at_def sub64_def)
  have nth: "?b ! 8 = 1" "?b ! 13 = 8" "length ?b \<le> 96" using len ver width by simp_all
  have "run_p (parse_superblock_p ?b off) ?b \<noteq> Inr sb" for sb
  proof
    assume "run_p (parse_superblock_p ?b off) ?b = Inr sb"
    then obtain c0 c1 c2 ver where c: "skip 8 (new_cursor ?b) = Inr ((), c0)" "u8 c0 = Inr (ver, c1)"
      and p: "(if ver = 0 \<or> ver = 1 then parse_v0_v1 ver off
        else if ver = 2 \<or> ver = 3 then parse_v2_v3 ?b ver off
        else fail_p (Unsupported ''superblock version'')) c1 = Inr (sb, c2)"
      by (auto simp: run_p_def parse_superblock_p_def result_simps)
    have c1: "buf c1 = ?b" "pos c1 = 9" "ver = 1"
      using skip_moves [OF c(1)] u8_Ok [OF c(2)] nth by (simp_all add: new_cursor_def)
    then have "parse_v0_v1 1 off c1 = Inr (sb, c2)" using p by simp
    then show False using parse_v1_eight [OF _ c1(2)] c1(1) nth by simp
  qed
  moreover have "run_p (parse_superblock_p ?b off) ?b \<noteq> Inl Panic"
    by (rule run_p_no_panic_on [OF safe_parse_superblock])
      (use byte_source.contents_small [OF src] in simp)
  ultimately show ?thesis unfolding at
    by (metis failure.exhaust sum.exhaust)
qed

theorem superblock_v1_always_rejected_witness:
  "\<exists>e. parse_superblock_at (memory_source
     (HDF5_SIGNATURE @ [1, 0, 0, 0, 0, 8, 8, 0] @ [4, 0, 16, 0, 0, 0, 0, 0] @ [32, 0, 0, 0] @
      replicate 32 0 @ replicate 40 0)) 0 = Error e"
proof -
  let ?c = "HDF5_SIGNATURE @ [1, 0, 0, 0, 0, 8, 8, 0] @ [4, 0, 16, 0, 0, 0, 0, 0] @ [32, 0, 0, 0] @
      replicate 32 0 @ replicate 40 0 :: bytes"
  have "byte_source (memory_source ?c) ?c"
    by (rule byte_source_memory) (simp add: HDF5_SIGNATURE_def isize_max_def)
  from superblock_v1_always_rejected [OF this, of 0] show ?thesis
    by (simp add: HDF5_SIGNATURE_def)
qed

end
