(* ===== verification/Context.thy ===== *)
theory Context
  imports Superblock Io_Plan Page_Cache
begin

text \<open>
  The read context (\<^verbatim>\<open>context.rs\<close>): a source, the superblock that gives the base address, and the
  optional page cache.  A read may fill the shared cache; \<open>ctx_read_st\<close> returns the context with the
  cache it leaves.  The parsers above call \<open>ctx_read\<close>, which keeps the bytes only: the locale
  \<open>reader\<close> shows that they do not depend on what the cache holds.
\<close>

record ctx =
  ctx_source :: source
  ctx_superblock :: superblock
  ctx_io :: io_config
  ctx_io_cache :: "io_cache option"

definition new_ctx :: "source \<Rightarrow> superblock \<Rightarrow> ctx" where
  "new_ctx src sb = \<lparr>ctx_source = src, ctx_superblock = sb, ctx_io = LOCAL, ctx_io_cache = None\<rparr>"

definition with_io_cache :: "io_cache option \<Rightarrow> ctx \<Rightarrow> ctx" where
  "with_io_cache cache ctx = ctx\<lparr>ctx_io_cache := cache\<rparr>"

definition with_io :: "io_config \<Rightarrow> ctx \<Rightarrow> ctx" where
  "with_io io ctx = ctx\<lparr>ctx_io := io\<rparr>"

definition ctx_sizes :: "ctx \<Rightarrow> sizes" where
  "ctx_sizes ctx = sb_sizes (ctx_superblock ctx)"

definition raw_read :: "ctx \<Rightarrow> nat \<Rightarrow> nat \<Rightarrow> (bytes \<times> ctx) result" where
  "raw_read ctx off len =
     (case ctx_io_cache ctx of
        Some cache \<Rightarrow>
          and_then (io_read cache (ctx_source ctx) off len) (\<lambda>(bs, cache').
            Ok (bs, with_io_cache (Some cache') ctx))
      | None \<Rightarrow> and_then (read_vec (ctx_source ctx) off len) (\<lambda>bs. Ok (bs, ctx)))"

definition ctx_read_st :: "ctx \<Rightarrow> nat \<Rightarrow> nat \<Rightarrow> (bytes \<times> ctx) result" where
  "ctx_read_st ctx address len = raw_read ctx (resolve (ctx_superblock ctx) address) len"

definition ctx_read :: "ctx \<Rightarrow> nat \<Rightarrow> nat \<Rightarrow> bytes result" where
  "ctx_read ctx address len = and_then (ctx_read_st ctx address len) (\<lambda>(bs, _). Ok bs)"

definition ctx_read_upto_st :: "ctx \<Rightarrow> nat \<Rightarrow> nat \<Rightarrow> (bytes \<times> ctx) result" where
  "ctx_read_upto_st ctx address len =
     (let start = resolve (ctx_superblock ctx) address
      in raw_read ctx start (min len (src_size (ctx_source ctx) - start)))"

definition ctx_read_upto :: "ctx \<Rightarrow> nat \<Rightarrow> nat \<Rightarrow> bytes result" where
  "ctx_read_upto ctx address len = and_then (ctx_read_upto_st ctx address len) (\<lambda>(bs, _). Ok bs)"

fun raw_reads :: "ctx \<Rightarrow> ranges \<Rightarrow> (bytes list \<times> ctx) result" where
  "raw_reads ctx [] = Ok ([], ctx)"
| "raw_reads ctx ((off, len) # rest) =
     and_then (raw_read ctx off len) (\<lambda>(bs, ctx').
     and_then (raw_reads ctx' rest) (\<lambda>(out, ctx''). Ok (bs # out, ctx'')))"

definition ctx_read_ranges_st :: "ctx \<Rightarrow> ranges \<Rightarrow> (bytes list \<times> ctx) result" where
  "ctx_read_ranges_st ctx ranges =
     (let resolved = map (\<lambda>(address, len). (resolve (ctx_superblock ctx) address, len)) ranges
      in case ctx_io_cache ctx of
           Some _ \<Rightarrow> raw_reads ctx resolved
         | None \<Rightarrow> and_then (read_merged (ctx_source ctx) (ctx_io ctx) resolved) (\<lambda>out. Ok (out, ctx)))"

definition ctx_read_ranges :: "ctx \<Rightarrow> ranges \<Rightarrow> bytes list result" where
  "ctx_read_ranges ctx ranges = and_then (ctx_read_ranges_st ctx ranges) (\<lambda>(out, _). Ok out)"

section \<open>What a context returns\<close>

definition cache_ok :: "io_cache option \<Rightarrow> bytes \<Rightarrow> bool" where
  "cache_ok cache contents \<longleftrightarrow>
     (case cache of None \<Rightarrow> True | Some c \<Rightarrow> pages_valid c contents \<and> page_size c \<le> u64_max)"

locale reader =
  fixes ctx :: ctx and contents :: bytes
  assumes source: "byte_source (ctx_source ctx) contents"
    and cache: "cache_ok (ctx_io_cache ctx) contents"
begin

abbreviation file_offset :: "nat \<Rightarrow> nat" where
  "file_offset address \<equiv> resolve (ctx_superblock ctx) address"

lemma raw_read_inside:
  assumes "off + len \<le> length contents"
  shows "\<exists>cache'. raw_read ctx off len = Ok (slice off len contents, with_io_cache cache' ctx)
    \<and> cache_ok cache' contents"
proof (cases "ctx_io_cache ctx")
  case None
  then have "with_io_cache None ctx = ctx" by (simp add: with_io_cache_def)
  then show ?thesis
    using None byte_source.read_vec_inside [OF source assms]
    by (auto simp: raw_read_def cache_ok_def intro!: exI [of _ None])
next
  case (Some c)
  then obtain c' where "io_read c (ctx_source ctx) off len = Ok (slice off len contents, c')"
    "pages_valid c' contents" "page_size c' = page_size c" "page_size c \<le> u64_max"
    using cache io_read_inside [OF source _ assms, of c] by (auto simp: cache_ok_def)
  then show ?thesis using Some by (intro exI [of _ "Some c'"]) (simp add: raw_read_def cache_ok_def)
qed

lemma raw_read_outside:
  assumes "0 < len" and "len \<le> isize_max" and "length contents < off + len"
  shows "\<exists>what. raw_read ctx off len = Error (OutOfBounds what off len (length contents - off))"
proof (cases "ctx_io_cache ctx")
  case None
  then show ?thesis
    using byte_source.read_outside [OF source assms(1,3)] assms(2) by (auto simp: raw_read_def read_vec_def)
next
  case (Some c)
  then show ?thesis using io_read_outside [OF source assms(1,3)] by (simp add: raw_read_def)
qed

lemma raw_read_empty: "raw_read ctx off 0 \<noteq> Inl Panic \<and> (\<forall>bs c. raw_read ctx off 0 = Inr (bs, c) \<longrightarrow> bs = [])"
  using byte_source.read_empty [OF source, of off]
  by (auto simp: raw_read_def read_vec_def io_read_def bounds_def result_simps split: option.splits)

lemma raw_read_no_panic: "len \<le> isize_max \<Longrightarrow> raw_read ctx off len \<noteq> Inl Panic"
  using raw_read_inside [of off len] raw_read_outside [of len off] raw_read_empty [of off]
  by (cases "len = 0"; cases "off + len \<le> length contents") auto

lemma raw_read_length: "len \<le> isize_max \<Longrightarrow> raw_read ctx off len = Inr (bs, c) \<Longrightarrow> length bs = len"
  using raw_read_inside [of off len] raw_read_outside [of len off] raw_read_empty [of off]
  by (cases "len = 0"; cases "off + len \<le> length contents") auto

lemma ctx_read_inside:
  "file_offset address + len \<le> length contents \<Longrightarrow>
   ctx_read ctx address len = Ok (slice (file_offset address) len contents)"
  using raw_read_inside [of "file_offset address" len] by (auto simp: ctx_read_def ctx_read_st_def)

lemma ctx_read_outside:
  "0 < len \<Longrightarrow> len \<le> isize_max \<Longrightarrow> length contents < file_offset address + len \<Longrightarrow>
   \<exists>e. ctx_read ctx address len = Error e"
  using raw_read_outside [of len "file_offset address"] by (auto simp: ctx_read_def ctx_read_st_def)

lemma ctx_read_no_panic: "len \<le> isize_max \<Longrightarrow> ctx_read ctx address len \<noteq> Inl Panic"
  using raw_read_no_panic by (auto simp: ctx_read_def ctx_read_st_def result_simps)

lemma ctx_read_length: "len \<le> isize_max \<Longrightarrow> ctx_read ctx address len = Inr bs \<Longrightarrow> length bs = len"
  using raw_read_length by (auto simp: ctx_read_def ctx_read_st_def result_simps)

lemma upto_small: "min len (src_size (ctx_source ctx) - start) \<le> isize_max"
  using byte_source.contents_small [OF source] byte_source.size_contents [OF source] by simp

lemma ctx_read_upto_no_panic: "ctx_read_upto ctx address len \<noteq> Inl Panic"
  using raw_read_no_panic [OF upto_small]
  by (auto simp: ctx_read_upto_def ctx_read_upto_st_def Let_def result_simps)

lemma ctx_read_upto_length: "ctx_read_upto ctx address len = Inr bs \<Longrightarrow> length bs \<le> len \<and> length bs \<le> isize_max"
  using raw_read_length [OF upto_small] upto_small
  by (auto simp: ctx_read_upto_def ctx_read_upto_st_def Let_def result_simps)

lemma ctx_read_upto_inside:
  assumes "file_offset address \<le> length contents"
  shows "ctx_read_upto ctx address len = Ok (slice (file_offset address) len contents)"
proof -
  let ?n = "min len (length contents - file_offset address)"
  have "file_offset address + ?n \<le> length contents" using assms by simp
  from raw_read_inside [OF this] show ?thesis
    using byte_source.size_contents [OF source]
    by (auto simp: ctx_read_upto_def ctx_read_upto_st_def Let_def slice_min)
qed

end

lemma reader_with_cache:
  "reader ctx contents \<Longrightarrow> cache_ok cache contents \<Longrightarrow> reader (with_io_cache cache ctx) contents"
  by (simp add: reader_def with_io_cache_def)

lemma raw_reads_inside:
  "reader ctx contents \<Longrightarrow> (\<And>off len. (off, len) \<in> set ranges \<Longrightarrow> off + len \<le> length contents) \<Longrightarrow>
   \<exists>ctx'. raw_reads ctx ranges = Ok (map (\<lambda>(off, len). slice off len contents) ranges, ctx') \<and> reader ctx' contents"
proof (induction ctx ranges rule: raw_reads.induct)
  case (2 ctx off len rest)
  obtain cache' where c: "raw_read ctx off len = Ok (slice off len contents, with_io_cache cache' ctx)"
    "cache_ok cache' contents"
    using reader.raw_read_inside [OF "2.prems"(1), of off len] "2.prems"(2) by auto
  show ?case
    using "2.IH" [OF c(1) refl reader_with_cache [OF "2.prems"(1) c(2)]] "2.prems"(2) c(1) by auto
qed auto

context reader
begin

lemma ctx_read_ranges_inside:
  assumes "\<And>address len. (address, len) \<in> set ranges \<Longrightarrow> file_offset address + len \<le> length contents"
  shows "\<exists>ctx'. ctx_read_ranges_st ctx ranges =
      Ok (map (\<lambda>(address, len). slice (file_offset address) len contents) ranges, ctx') \<and> reader ctx' contents"
proof -
  let ?r = "map (\<lambda>(address, len). (file_offset address, len)) ranges"
  have r: "off + len \<le> length contents" if "(off, len) \<in> set ?r" for off len using that assms by auto
  have eq: "map (\<lambda>(off, len). slice off len contents) ?r =
      map (\<lambda>(address, len). slice (file_offset address) len contents) ranges" by auto
  have me: "reader ctx contents" by (simp add: reader_def source cache)
  show ?thesis
  proof (cases "ctx_io_cache ctx")
    case None
    have "read_merged (ctx_source ctx) (ctx_io ctx) ?r = Ok (map (\<lambda>(off, len). slice off len contents) ?r)"
      by (rule byte_source.read_merged_correct [OF source]) (use assms in auto)
    then show ?thesis using None me unfolding eq by (auto simp: ctx_read_ranges_st_def Let_def)
  next
    case (Some c)
    then show ?thesis
      using raw_reads_inside [OF me, of ?r] r unfolding eq by (simp add: ctx_read_ranges_st_def Let_def)
  qed
qed

end

text \<open>A context over a buffer in memory, without a cache, meets the contract.\<close>

interpretation mem_ctx: reader "new_ctx (memory_source (small_contents data)) sb" "small_contents data" for data sb
  by (rule reader.intro) (simp_all add: new_ctx_def cache_ok_def mem.byte_source_axioms)

section \<open>Properties\<close>



end
