(* ===== verification/Filters.thy ===== *)
theory Filters
  imports Byte_Cursor Checksum
begin

text \<open>
  The filter pipeline message (\<^verbatim>\<open>message/filter.rs\<close>) and the chunk filters (\<^verbatim>\<open>filters.rs\<close>): byte and
  bit shuffle, Fletcher-32, the Blosc container with its own LZ77 variant, and the reversal of a
  whole pipeline.  The decoders of the crates \<^verbatim>\<open>flate2\<close>, \<^verbatim>\<open>zstd\<close> and \<^verbatim>\<open>lz4_flex\<close> are parameters.
\<close>

section \<open>The filter pipeline message\<close>

definition DEFLATE :: nat where "DEFLATE = 1"
definition SHUFFLE :: nat where "SHUFFLE = 2"
definition FLETCHER32 :: nat where "FLETCHER32 = 3"
definition ZSTD :: nat where "ZSTD = 32015"
definition BLOSC :: nat where "BLOSC = 32001"

record chunk_filter =
  filter_id :: nat
  filter_name :: rstring
  filter_flags :: nat
  client_data :: "nat list"

definition name_of :: "bytes \<Rightarrow> nat \<Rightarrow> rstring" where
  "name_of raw fallback = from_utf8_lossy (take (position_or (\<lambda>b. b = 0) raw fallback) raw)"

definition parse_filter_v1 :: "chunk_filter parser" where
  "parse_filter_v1 =
     bind_p u16 (\<lambda>i. bind_p u16 (\<lambda>name_len. bind_p u16 (\<lambda>flags. bind_p u16 (\<lambda>n_client.
     bind_p (if name_len > 0
             then bind_p (take_bytes (div_ceil name_len 8 * 8)) (\<lambda>raw. ret_p (name_of raw name_len))
             else ret_p []) (\<lambda>name.
     bind_p (repeat_p n_client u32) (\<lambda>client.
     bind_p (if n_client mod 2 = 1 then skip 4 else ret_p ()) (\<lambda>_.
       ret_p \<lparr>filter_id = i, filter_name = name, filter_flags = flags, client_data = client\<rparr>)))))))"

definition parse_filter_v2 :: "chunk_filter parser" where
  "parse_filter_v2 =
     bind_p u16 (\<lambda>i. bind_p (if i < 256 then ret_p 0 else u16) (\<lambda>name_len.
     bind_p u16 (\<lambda>flags. bind_p u16 (\<lambda>n_client.
     bind_p (if name_len > 0
             then bind_p (take_bytes name_len) (\<lambda>raw. ret_p (name_of raw (length raw)))
             else ret_p []) (\<lambda>name.
     bind_p (repeat_p n_client u32) (\<lambda>client.
       ret_p \<lparr>filter_id = i, filter_name = name, filter_flags = flags, client_data = client\<rparr>))))))"

definition parse_pipeline_p :: "chunk_filter list parser" where
  "parse_pipeline_p =
     bind_p u8 (\<lambda>ver. bind_p u8 (\<lambda>n.
       if ver = 1 then bind_p (skip 6) (\<lambda>_. repeat_p n parse_filter_v1)
       else if ver = 2 then repeat_p n parse_filter_v2
       else fail_p (Unsupported ''filter pipeline message version'')))"

definition parse_pipeline :: "bytes \<Rightarrow> chunk_filter list result" where
  "parse_pipeline data = run_p parse_pipeline_p data"

section \<open>Byte shuffle\<close>

definition gather :: "nat \<Rightarrow> bytes \<Rightarrow> nat \<Rightarrow> bytes" where
  "gather n data cnt =
     concat (map (\<lambda>element. map (\<lambda>byte_index. data ! (byte_index * cnt + element)) [0..<n]) [0..<cnt])"

definition unshuffle :: "bytes \<Rightarrow> nat \<Rightarrow> bytes" where
  "unshuffle data element_size =
     (if element_size \<le> 1 \<or> length data \<le> element_size then data
      else
        let element_count = length data div element_size; shuffled_len = element_count * element_size
        in (if element_size = 2 then gather 2 data element_count
            else if element_size = 4 then gather 4 data element_count
            else if element_size = 8 then gather 8 data element_count
            else if element_size = 16 then gather 16 data element_count
            else gather element_size data element_count)
           @ drop shuffled_len data)"

definition shuffle :: "bytes \<Rightarrow> nat \<Rightarrow> bytes" where
  "shuffle data element_size =
     (if element_size \<le> 1 \<or> length data \<le> element_size then data
      else
        let element_count = length data div element_size; shuffled_len = element_count * element_size
        in concat (map (\<lambda>byte_index.
             map (\<lambda>element. data ! (element * element_size + byte_index)) [0..<element_count]) [0..<element_size])
           @ drop shuffled_len data)"

section \<open>Bit shuffle\<close>

definition get_bit :: "bytes \<Rightarrow> nat \<Rightarrow> bool" where
  "get_bit data k = bit (data ! (k div 8)) (k mod 8)"

definition or_bit :: "nat \<Rightarrow> bytes \<Rightarrow> bytes" where
  "or_bit k out = out[k div 8 := (out ! (k div 8)) OR push_bit (k mod 8) 1]"

fun unbitshuffle_loop :: "bytes \<Rightarrow> nat \<Rightarrow> nat \<Rightarrow> (nat \<times> nat) list \<Rightarrow> bytes \<Rightarrow> bytes" where
  "unbitshuffle_loop data elements bit_rows [] out = out"
| "unbitshuffle_loop data elements bit_rows ((row, element) # rest) out =
     (let src_bit = row * elements + element in
      if src_bit div 8 \<ge> length data \<or> \<not> get_bit data src_bit
      then unbitshuffle_loop data elements bit_rows rest out
      else unbitshuffle_loop data elements bit_rows rest (or_bit (element * bit_rows + row) out))"

definition unbitshuffle :: "bytes \<Rightarrow> nat \<Rightarrow> bytes" where
  "unbitshuffle data typesize =
     (if typesize = 0 \<or> length data mod typesize \<noteq> 0 then data
      else
        let elements = length data div typesize; bit_rows = typesize * 8
        in if elements = 0 then data
           else unbitshuffle_loop data elements bit_rows
                  (List.product [0..<bit_rows] [0..<elements]) (replicate (length data) 0))"

fun bitshuffle_loop :: "bytes \<Rightarrow> nat \<Rightarrow> nat \<Rightarrow> (nat \<times> nat) list \<Rightarrow> bytes \<Rightarrow> bytes" where
  "bitshuffle_loop data elements bit_rows [] out = out"
| "bitshuffle_loop data elements bit_rows ((element, row) # rest) out =
     (if \<not> get_bit data (element * bit_rows + row)
      then bitshuffle_loop data elements bit_rows rest out
      else bitshuffle_loop data elements bit_rows rest (or_bit (row * elements + element) out))"

definition bitshuffle :: "bytes \<Rightarrow> nat \<Rightarrow> bytes" where
  "bitshuffle data typesize =
     (if typesize = 0 \<or> length data mod typesize \<noteq> 0 then data
      else
        let elements = length data div typesize; bit_rows = typesize * 8
        in bitshuffle_loop data elements bit_rows
             (List.product [0..<elements] [0..<bit_rows]) (replicate (length data) 0))"

section \<open>The LZ77 variant of Blosc\<close>

text \<open>The extra length bytes after a length field of 7: value and position behind them.\<close>

function match_length :: "bytes \<Rightarrow> nat \<Rightarrow> nat \<Rightarrow> (nat \<times> nat) result" where
  "match_length data p len =
     (if p \<ge> length data then Error (Malformed ''blosclz match length runs past the block'')
      else
        let extra = unat (data ! p) in
        if extra \<noteq> 255 then Ok (len + extra, p + 1) else match_length data (p + 1) (len + extra))"
  by auto
termination by (relation "measure (\<lambda>(data, p, len). length data - p)") auto

declare match_length.simps [simp del]

text \<open>The copy loop: \<open>n\<close> bytes are left to copy, the next from index \<open>at\<close>.\<close>

fun copy_match :: "nat \<Rightarrow> nat \<Rightarrow> bytes \<Rightarrow> bytes result" where
  "copy_match 0 at out = Ok out"
| "copy_match (Suc n) at out =
     and_then (index_at out at) (\<lambda>b. copy_match n (at + 1) (out @ [b]))"

definition match_distance :: "bytes \<Rightarrow> nat \<Rightarrow> nat \<Rightarrow> (nat \<times> nat) result" where
  "match_distance data token p =
     (if p \<ge> length data then Error (Malformed ''blosclz match offset runs past the block'')
      else
        let distance = (token mod 32) * 256 + unat (data ! p); p = p + 1 in
        if distance = 0x1fff then
          if p + 1 \<ge> length data
          then Error (Malformed ''blosclz extended match offset runs past the block'')
          else Ok (distance + (unat (data ! p) * 256 + unat (data ! (p + 1))), p + 2)
        else Ok (distance, p))"

lemma match_length_moves: "match_length data p len = Inr (v, p') \<Longrightarrow> p < p' \<and> p' \<le> length data"
  by (induction data p len rule: match_length.induct)
    (subst (asm) match_length.simps, fastforce simp: Let_def split: if_splits)

lemma match_distance_moves: "match_distance data t p = Inr (v, p') \<Longrightarrow> p < p' \<and> p' \<le> length data"
  by (auto simp: match_distance_def Let_def split: if_splits)

function unblosclz_loop :: "bytes \<Rightarrow> nat \<Rightarrow> bool \<Rightarrow> bytes \<Rightarrow> bytes result" where
  "unblosclz_loop data p first out =
     (if p \<ge> length data then Ok out
      else
        let token = unat (data ! p); p = p + 1 in
        if first \<or> token div 32 = 0 then
          let cnt = token mod 32 + 1 in
          if p + cnt > length data
          then Error (Malformed ''blosclz literal run runs past the block'')
          else unblosclz_loop data (p + cnt) False (out @ slice p cnt data)
        else
          and_then (if token div 32 = 7 then match_length data p 7 else Ok (token div 32, p)) (\<lambda>(len, p).
          and_then (match_distance data token p) (\<lambda>(distance, p).
            case checked_sub (length out) (distance + 1) of
              None \<Rightarrow> Error (Malformed ''blosclz match points before the start of the block'')
            | Some start \<Rightarrow>
                and_then (copy_match (len + 2) start out) (\<lambda>out.
                  unblosclz_loop data p first out))))"
  by pat_completeness auto
termination
  by (relation "measure (\<lambda>(data, p, first, out). length data - p)")
    (auto split: if_splits dest!: match_length_moves match_distance_moves)

declare unblosclz_loop.simps [simp del]

definition with_capacity :: "nat \<Rightarrow> unit result" where
  "with_capacity n = (if n \<le> isize_max then Ok () else panic)"

definition unblosclz :: "bytes \<Rightarrow> nat \<Rightarrow> bytes result" where
  "unblosclz data expected_len =
     and_then (with_capacity expected_len) (\<lambda>_. unblosclz_loop data 0 True [])"

section \<open>The decoders of other crates\<close>

text \<open>
  \<open>zlib\<close>: the whole output of \<open>flate2::read::ZlibDecoder\<close>, or none on an error.  \<open>zstd_new\<close> and
  \<open>zstd\<close>: whether a stream decoder starts, and its whole output.  \<open>lz4\<close>: \<open>lz4_flex::block::decompress\<close>
  with the output size.
\<close>

record codecs =
  zlib :: "bytes \<Rightarrow> bytes option"
  zstd_new :: "bytes \<Rightarrow> bool"
  zstd :: "bytes \<Rightarrow> bytes option"
  lz4 :: "bytes \<Rightarrow> nat \<Rightarrow> bytes option"

definition inflate :: "codecs \<Rightarrow> bytes \<Rightarrow> nat \<Rightarrow> bytes result" where
  "inflate cs data expected_len =
     and_then (with_capacity expected_len) (\<lambda>_.
       case zlib cs data of None \<Rightarrow> Error (Malformed ''failed to inflate a chunk'') | Some out \<Rightarrow> Ok out)"

definition unzstd :: "codecs \<Rightarrow> bytes \<Rightarrow> nat \<Rightarrow> bytes result" where
  "unzstd cs data expected_len =
     and_then (with_capacity expected_len) (\<lambda>_.
       if \<not> zstd_new cs data then Error (Malformed ''failed to start a zstd decoder'')
       else case zstd cs data of
              None \<Rightarrow> Error (Malformed ''failed to decompress a zstd chunk'') | Some out \<Rightarrow> Ok out)"

definition blosc_block :: "codecs \<Rightarrow> nat \<Rightarrow> bytes \<Rightarrow> nat \<Rightarrow> bytes result" where
  "blosc_block cs codec body want =
     (if codec = 1 \<or> codec = 2 then
        (case lz4 cs body want of
           None \<Rightarrow> Error (Malformed ''failed to decompress an lz4 block'') | Some out \<Rightarrow> Ok out)
      else if codec = 4 then inflate cs body want
      else if codec = 5 then unzstd cs body want
      else if codec = 0 then unblosclz body want
      else if codec = 3 then Error (Unsupported ''blosc chunk using the snappy sub-codec'')
      else Error (Unsupported ''blosc sub-codec''))"

text \<open>\<open>u32::from_le_bytes\<close> of the four bytes at \<open>o\<close>; the indexing panics past the end.\<close>

definition le32_at :: "bytes \<Rightarrow> nat \<Rightarrow> nat result" where
  "le32_at data p = and_then (slice_range data p (p + 4)) (\<lambda>b. Ok (le_nat b))"

fun blosc_blocks :: "codecs \<Rightarrow> bytes \<Rightarrow> nat \<Rightarrow> nat \<Rightarrow> nat \<Rightarrow> nat list \<Rightarrow> bytes \<Rightarrow> bytes result" where
  "blosc_blocks cs data codec nbytes blocksize [] out = Ok out"
| "blosc_blocks cs data codec nbytes blocksize (block # rest) out =
     and_then (le32_at data (16 + block * 4)) (\<lambda>start.
       if start + 4 > length data then Error (Malformed ''blosc block offset points past the chunk'')
       else and_then (le32_at data start) (\<lambda>clen.
         let body_start = start + 4 in
         if body_start + clen > length data then Error (Malformed ''blosc block runs past the chunk'')
         else and_then (slice_range data body_start (body_start + clen)) (\<lambda>body.
           and_then (sub64 nbytes (length out)) (\<lambda>left.
           and_then (blosc_block cs codec body (min blocksize left)) (\<lambda>decoded.
             blosc_blocks cs data codec nbytes blocksize rest (out @ decoded))))))"

definition unblosc :: "codecs \<Rightarrow> bytes \<Rightarrow> bytes result" where
  "unblosc cs data =
     (if length data < 16 then Error (Malformed ''blosc chunk is shorter than its 16-byte header'')
      else if data ! 0 \<noteq> 2 then Error (Unsupported ''blosc container format version'')
      else
        let flags = unat (data ! 2); typesize = unat (data ! 3) in
        and_then (le32_at data 4) (\<lambda>nbytes. and_then (le32_at data 8) (\<lambda>blocksize.
        and_then (le32_at data 12) (\<lambda>cbytes.
          if cbytes > length data
          then Error (Malformed ''blosc header claims more compressed bytes than the chunk holds'')
          else if blocksize = 0 then Error (Malformed ''blosc header declares a zero block size'')
          else
            let codec = flags div 32; block_count = div_ceil nbytes blocksize in
            if 16 + block_count * 4 > length data
            then Error (Malformed ''blosc chunk is truncated before its block offset table'')
            else
              and_then (blosc_blocks cs data codec nbytes blocksize [0..<block_count] []) (\<lambda>out.
                let out = take nbytes out in
                Ok (if flags div 4 mod 2 \<noteq> 0 then unbitshuffle out typesize
                    else if flags mod 2 \<noteq> 0 then unshuffle out typesize
                    else out))))))"

section \<open>Fletcher-32 and the pipeline\<close>

definition swap_bytes32 :: "nat \<Rightarrow> nat" where
  "swap_bytes32 n = be_nat (to_le 4 n)"

definition verify_and_strip_fletcher32 :: "bytes \<Rightarrow> bytes result" where
  "verify_and_strip_fletcher32 data =
     (if length data < 4 then Error (Malformed ''chunk is too short to carry a fletcher32 checksum'')
      else
        let split = length data - 4 in
        and_then (le32_at data split) (\<lambda>stored_le.
          let stored_be = swap_bytes32 stored_le; computed = fletcher32 (take split data) in
          if computed \<noteq> word_of_nat stored_le \<and> computed \<noteq> word_of_nat stored_be
          then Error (ChecksumMismatch ''chunk fletcher32'' (word_of_nat stored_le) computed)
          else Ok (take split data)))"

definition decode_one :: "codecs \<Rightarrow> chunk_filter \<Rightarrow> bytes \<Rightarrow> nat \<Rightarrow> bytes result" where
  "decode_one cs f data expected_len =
     (if filter_id f = DEFLATE then inflate cs data expected_len
      else if filter_id f = SHUFFLE then
        Ok (unshuffle data (case client_data f of [] \<Rightarrow> 0 | n # _ \<Rightarrow> n))
      else if filter_id f = FLETCHER32 then verify_and_strip_fletcher32 data
      else if filter_id f = ZSTD then unzstd cs data expected_len
      else if filter_id f = BLOSC then unblosc cs data
      else Error (Unsupported ''chunk filter''))"

text \<open>The loop over \<open>enumerate().rev()\<close>; \<open>1u32 << index\<close> panics for an index of 32 or more.\<close>

fun decode_loop :: "codecs \<Rightarrow> 32 word \<Rightarrow> nat \<Rightarrow> (nat \<times> chunk_filter) list \<Rightarrow> bytes \<Rightarrow> bytes result" where
  "decode_loop cs fmask expected_len [] b = Ok b"
| "decode_loop cs fmask expected_len ((index, f) # rest) b =
     (if index \<ge> 32 then panic
      else if fmask AND push_bit index 1 \<noteq> 0 then decode_loop cs fmask expected_len rest b
      else and_then (decode_one cs f b expected_len) (decode_loop cs fmask expected_len rest))"

definition decode_chunk :: "codecs \<Rightarrow> chunk_filter list \<Rightarrow> 32 word \<Rightarrow> bytes \<Rightarrow> nat \<Rightarrow> bytes result" where
  "decode_chunk cs filters fmask data expected_len =
     decode_loop cs fmask expected_len (rev (enumerate 0 filters)) data"

definition pipeline_is_supported :: "chunk_filter list \<Rightarrow> bool" where
  "pipeline_is_supported filters =
     list_all (\<lambda>f. filter_id f \<in> {DEFLATE, SHUFFLE, FLETCHER32, ZSTD, BLOSC}) filters"

section \<open>Shuffling is undone\<close>

lemma gather_eq: "gather n data cnt = rows cnt n (\<lambda>element byte_index. data ! (byte_index * cnt + element))"
  by (simp add: gather_def rows_def)

lemma unshuffle_eq:
  "unshuffle data es =
     (if es \<le> 1 \<or> length data \<le> es then data
      else rows (length data div es) es (\<lambda>e b. data ! (b * (length data div es) + e))
           @ drop (length data div es * es) data)"
  by (simp add: unshuffle_def Let_def gather_eq)

lemma shuffle_eq:
  "shuffle data es =
     (if es \<le> 1 \<or> length data \<le> es then data
      else rows es (length data div es) (\<lambda>b e. data ! (e * es + b))
           @ drop (length data div es * es) data)"
  by (simp add: shuffle_def Let_def rows_def)

lemma div_times_le: "n div k * k \<le> (n :: nat)"
  by simp

lemma length_unshuffle: "length (unshuffle data es) = length data"
  by (simp add: unshuffle_eq mult.commute)

lemma length_shuffle: "length (shuffle data es) = length data"
  by (simp add: shuffle_eq mult.commute)

lemma nth_shuffle:
  assumes "1 < es" and "es < length data" and "b < es" and "e < length data div es"
  shows "shuffle data es ! (b * (length data div es) + e) = data ! (e * es + b)"
  using assms rows_nth [OF assms(3,4), of "\<lambda>b e. data ! (e * es + b)"] rows_index [OF assms(3,4)]
  by (simp add: shuffle_eq nth_append)

lemma nth_unshuffle:
  assumes "1 < es" and "es < length data" and "b < es" and "e < length data div es"
  shows "unshuffle data es ! (e * es + b) = data ! (b * (length data div es) + e)"
  using assms rows_nth [OF assms(4,3), of "\<lambda>e b. data ! (b * (length data div es) + e)"]
    rows_index [OF assms(4,3)]
  by (simp add: unshuffle_eq nth_append)

lemma unshuffle_shuffle: "unshuffle (shuffle data es) es = data"
proof (cases "es \<le> 1 \<or> length data \<le> es")
  case True
  then show ?thesis by (simp add: unshuffle_eq shuffle_eq)
next
  case False
  let ?n = "length data div es"
  have len: "length (shuffle data es) = length data" by (rule length_shuffle)
  have "rows ?n es (\<lambda>e b. shuffle data es ! (b * ?n + e)) = rows ?n es (\<lambda>e b. data ! (e * es + b))"
    by (rule rows_cong) (use False nth_shuffle in auto)
  also have "\<dots> = take (?n * es) data" by (rule rows_take) simp
  finally have "rows ?n es (\<lambda>e b. shuffle data es ! (b * ?n + e)) = take (?n * es) data" .
  moreover have "drop (?n * es) (shuffle data es) = drop (?n * es) data"
    using False by (simp add: shuffle_eq mult.commute)
  ultimately show ?thesis using False by (simp add: unshuffle_eq len)
qed

lemma shuffle_unshuffle: "shuffle (unshuffle data es) es = data"
proof (cases "es \<le> 1 \<or> length data \<le> es")
  case True
  then show ?thesis by (simp add: unshuffle_eq shuffle_eq)
next
  case False
  let ?n = "length data div es"
  have "rows es ?n (\<lambda>b e. unshuffle data es ! (e * es + b)) = rows es ?n (\<lambda>b e. data ! (b * ?n + e))"
    by (rule rows_cong) (use False nth_unshuffle in auto)
  also have "\<dots> = take (es * ?n) data" by (rule rows_take) simp
  finally have "rows es ?n (\<lambda>b e. unshuffle data es ! (e * es + b)) = take (?n * es) data"
    by (simp add: mult.commute)
  moreover have "drop (?n * es) (unshuffle data es) = drop (?n * es) data"
    using False by (simp add: unshuffle_eq)
  ultimately show ?thesis using False by (simp add: shuffle_eq length_unshuffle)
qed

section \<open>Bit shuffling is undone\<close>

lemma length_or_bit [simp]: "length (or_bit k out) = length out"
  by (simp add: or_bit_def)

lemma get_or_bit:
  assumes "k div 8 < length out"
  shows "get_bit (or_bit k out) j \<longleftrightarrow> get_bit out j \<or> j = k"
proof (cases "j div 8 = k div 8")
  case True
  have "j mod 8 < 8" "k mod 8 < 8" by simp_all
  then have "bit (push_bit (k mod 8) 1 :: byte) (j mod 8) \<longleftrightarrow> j mod 8 = k mod 8"
    by (auto simp: bit_simps)
  moreover have "j mod 8 = k mod 8 \<longleftrightarrow> j = k" using True by (metis div_mult_mod_eq)
  ultimately show ?thesis using True assms by (simp add: get_bit_def or_bit_def bit_or_iff)
qed (use assms in \<open>auto simp: get_bit_def or_bit_def\<close>)

lemma length_fold_or_bit [simp]: "length (fold or_bit ks out) = length out"
  by (induction ks arbitrary: out) auto

lemma get_fold_or_bit:
  "(\<And>k. k \<in> set ks \<Longrightarrow> k div 8 < length out) \<Longrightarrow>
   get_bit (fold or_bit ks out) j \<longleftrightarrow> get_bit out j \<or> j \<in> set ks"
  by (induction ks arbitrary: out) (auto simp: get_or_bit)

lemma unbitshuffle_loop_eq:
  "unbitshuffle_loop data E R ps out =
     fold or_bit (map (\<lambda>(row, el). el * R + row)
       (filter (\<lambda>(row, el). (row * E + el) div 8 < length data \<and> get_bit data (row * E + el)) ps)) out"
  by (induction data E R ps out rule: unbitshuffle_loop.induct) (auto simp: Let_def)

lemma bitshuffle_loop_eq:
  "bitshuffle_loop data E R ps out =
     fold or_bit (map (\<lambda>(el, row). row * E + el) (filter (\<lambda>(el, row). get_bit data (el * R + row)) ps)) out"
  by (induction data E R ps out rule: bitshuffle_loop.induct) auto

lemma get_bit_replicate: "k div 8 < n \<Longrightarrow> \<not> get_bit (replicate n 0) k"
  by (simp add: get_bit_def)

lemma pair_unique:
  assumes "a * n + b = c * n + d" and "b < n" and "d < (n :: nat)"
  shows "a = c \<and> b = d"
proof -
  have "(a * n + b) div n = a" "(c * n + d) div n = c" "(a * n + b) mod n = b" "(c * n + d) mod n = d"
    using assms(2,3) by simp_all
  then show ?thesis using assms(1) by metis
qed

lemma bits_in_range:
  assumes "(data_len :: nat) = E * T" and "i < E" and "j < T * 8"
  shows "(i * (T * 8) + j) div 8 < data_len" and "(j * E + i) div 8 < data_len"
proof -
  have "i * (T * 8) + j < E * (T * 8)" "j * E + i < T * 8 * E"
    by (rule rows_index [OF assms(2,3)], rule rows_index [OF assms(3,2)])
  moreover have "E * (T * 8) = data_len * 8" "T * 8 * E = data_len * 8" using assms(1) by simp_all
  ultimately have "i * (T * 8) + j < data_len * 8" "j * E + i < data_len * 8" by (simp_all only:)
  then show "(i * (T * 8) + j) div 8 < data_len" "(j * E + i) div 8 < data_len"
    by (simp_all only: less_mult_imp_div_less)
qed

lemma get_bit_bitshuffle:
  assumes T: "typesize \<noteq> 0" "length data = E * typesize" and i: "i < E" "j < typesize * 8"
  shows "get_bit (bitshuffle data typesize) (j * E + i) \<longleftrightarrow> get_bit data (i * (typesize * 8) + j)"
proof -
  define ks where "ks = map (\<lambda>(el, row). row * E + el)
    (filter (\<lambda>(el, row). get_bit data (el * (typesize * 8) + row)) (List.product [0..<E] [0..<typesize * 8]))"
  have eq: "bitshuffle data typesize = fold or_bit ks (replicate (length data) 0)"
    using T by (simp add: bitshuffle_def bitshuffle_loop_eq ks_def Let_def)
  have "k div 8 < length (replicate (length data) (0 :: byte))" if "k \<in> set ks" for k
    using that bits_in_range(2) [OF T(2)] by (auto simp: ks_def)
  moreover have "\<not> get_bit (replicate (length data) 0) (j * E + i)"
    by (rule get_bit_replicate) (rule bits_in_range(2) [OF T(2) i])
  ultimately have "get_bit (bitshuffle data typesize) (j * E + i) \<longleftrightarrow> j * E + i \<in> set ks"
    unfolding eq using get_fold_or_bit by blast
  also have "\<dots> \<longleftrightarrow> get_bit data (i * (typesize * 8) + j)"
    using i pair_unique [of j E i] by (fastforce simp: ks_def image_iff)
  finally show ?thesis .
qed

lemma get_bit_unbitshuffle:
  assumes T: "typesize \<noteq> 0" "length data = E * typesize" and i: "i < E" "j < typesize * 8"
  shows "get_bit (unbitshuffle data typesize) (i * (typesize * 8) + j) \<longleftrightarrow> get_bit data (j * E + i)"
proof -
  define ks where "ks = map (\<lambda>(row, el). el * (typesize * 8) + row)
    (filter (\<lambda>(row, el). (row * E + el) div 8 < length data \<and> get_bit data (row * E + el))
      (List.product [0..<typesize * 8] [0..<E]))"
  have eq: "unbitshuffle data typesize = fold or_bit ks (replicate (length data) 0)"
    using T i by (simp add: unbitshuffle_def unbitshuffle_loop_eq ks_def Let_def)
  have "k div 8 < length (replicate (length data) (0 :: byte))" if "k \<in> set ks" for k
    using that bits_in_range(1) [OF T(2)] by (auto simp: ks_def)
  moreover have "\<not> get_bit (replicate (length data) 0) (i * (typesize * 8) + j)"
    by (rule get_bit_replicate) (rule bits_in_range(1) [OF T(2) i])
  ultimately have "get_bit (unbitshuffle data typesize) (i * (typesize * 8) + j) \<longleftrightarrow>
      i * (typesize * 8) + j \<in> set ks"
    unfolding eq using get_fold_or_bit by blast
  also have "\<dots> \<longleftrightarrow> get_bit data (j * E + i)"
    using i pair_unique [of i "typesize * 8" j] bits_in_range(2) [OF T(2) i]
    by (fastforce simp: ks_def image_iff)
  finally show ?thesis .
qed

lemma bytes_eqI:
  assumes len: "length xs = length ys" and bits: "\<And>k. k < 8 * length xs \<Longrightarrow> get_bit xs k = get_bit ys k"
  shows "xs = ys"
proof (rule nth_equalityI [OF len])
  fix i assume i: "i < length xs"
  show "xs ! i = ys ! i"
  proof (rule bit_word_eqI)
    fix n assume "n < LENGTH(8)"
    then have "n < 8" by simp
    then show "bit (xs ! i) n = bit (ys ! i) n" using bits [of "8 * i + n"] i by (simp add: get_bit_def)
  qed
qed

lemma length_bitshuffle: "length (bitshuffle data t) = length data"
  by (simp add: bitshuffle_def Let_def bitshuffle_loop_eq)

lemma length_unbitshuffle: "length (unbitshuffle data t) = length data"
  by (simp add: unbitshuffle_def Let_def unbitshuffle_loop_eq)

lemma unbitshuffle_bitshuffle: "unbitshuffle (bitshuffle data t) t = data"
proof (cases "t = 0 \<or> length data mod t \<noteq> 0")
  case True
  then show ?thesis by (auto simp: unbitshuffle_def bitshuffle_def)
next
  case False
  define E where "E = length data div t"
  have L: "length data = E * t" "t \<noteq> 0" using False by (auto simp: E_def mult.commute)
  have L': "length (bitshuffle data t) = E * t" by (simp add: length_bitshuffle L)
  show ?thesis
  proof (rule bytes_eqI)
    fix k assume "k < 8 * length (unbitshuffle (bitshuffle data t) t)"
    then have k: "k < E * (t * 8)" by (simp add: length_unbitshuffle length_bitshuffle L mult.assoc mult.commute)
    let ?i = "k div (t * 8)" and ?j = "k mod (t * 8)"
    have i: "?i < E" "?j < t * 8" using k L(2) by (auto simp: less_mult_imp_div_less)
    have "k = ?i * (t * 8) + ?j" by (rule div_mult_mod_eq [symmetric])
    then show "get_bit (unbitshuffle (bitshuffle data t) t) k = get_bit data k"
      using get_bit_unbitshuffle [OF L(2) L' i] get_bit_bitshuffle [OF L(2) L(1) i] by metis
  qed (simp add: length_bitshuffle length_unbitshuffle)
qed

section \<open>What a blosclz stream means\<close>

lemma copy_match_eq:
  "at < length out \<Longrightarrow>
   copy_match n at out = Ok (out @ map (\<lambda>i. out ! (at + i mod (length out - at))) [0..<n])"
proof (induction n arbitrary: at out)
  case (Suc n)
  let ?x = "out ! at" and ?p = "length out - at"
  have p: "length (out @ [?x]) - (at + 1) = ?p" "0 < ?p" using Suc.prems by simp_all
  have step: "(out @ [?x]) ! (at + 1 + i mod ?p) = out ! (at + Suc i mod ?p)" for i
  proof (cases "i mod ?p = ?p - 1")
    case True
    then have "Suc i mod ?p = 0" using p(2) by (simp add: mod_Suc)
    moreover have "at + 1 + i mod ?p = length out" using True Suc.prems by simp
    ultimately show ?thesis by (simp only: nth_append_length add_0_right)
  next
    case False
    have "i mod ?p < ?p" using p(2) by simp
    then have lt: "Suc (i mod ?p) < ?p" using False by simp
    then have "Suc i mod ?p = Suc (i mod ?p)" by (simp add: mod_Suc)
    moreover have "at + 1 + i mod ?p < length out" using lt by linarith
    ultimately show ?thesis by (simp add: nth_append)
  qed
  have "copy_match (Suc n) at out = copy_match n (at + 1) (out @ [?x])"
    using Suc.prems by (simp add: index_at_def)
  also have "\<dots> = Ok ((out @ [?x]) @ map (\<lambda>i. (out @ [?x]) ! (at + 1 + i mod ?p)) [0..<n])"
    using Suc.IH [of "at + 1" "out @ [?x]"] Suc.prems unfolding p by simp
  also have "\<dots> = Ok ((out @ [?x]) @ map (\<lambda>i. out ! (at + Suc i mod ?p)) [0..<n])"
    unfolding step ..
  also have "\<dots> = Ok (out @ map (\<lambda>i. out ! (at + i mod ?p)) [0..<Suc n])"
    unfolding map_upt_Suc by simp
  finally show ?case .
qed simp

lemma match_length_no_panic: "match_length data p len \<noteq> Inl Panic"
  by (induction data p len rule: match_length.induct) (subst match_length.simps, auto simp: Let_def)

lemma match_distance_no_panic: "match_distance data t p \<noteq> Inl Panic"
  by (simp add: match_distance_def Let_def)

lemma unblosclz_loop_no_panic: "unblosclz_loop data p first out \<noteq> Inl Panic"
proof (induction "length data - p" arbitrary: p first out rule: less_induct)
  case less
  have IH: "unblosclz_loop data p' first' out' \<noteq> Inl Panic" if "p < p'" "p < length data" for p' first' out'
    by (rule less) (use that in simp)
  have copy: "copy_match n at o' \<noteq> Inl Panic" if "at < length o'" for n at o'
    using that by (simp add: copy_match_eq)
  have len: "(if t = 7 then match_length data q 7 else Ok (t, q)) \<noteq> Inl Panic
      \<and> (\<forall>n q'. (if t = 7 then match_length data q 7 else Ok (t, q)) = Inr (n, q') \<longrightarrow> q \<le> q')" for t q
    using match_length_no_panic match_length_moves by (auto intro: less_imp_le)
  show ?case
  proof (cases "p < length data \<and> \<not> (first \<or> unat (data ! p) div 32 = 0)")
    case False
    then show ?thesis using IH by (subst unblosclz_loop.simps) (auto simp: Let_def)
  next
    case True
    let ?t = "unat (data ! p)"
    define tail where "tail = (\<lambda>n distance q. case checked_sub (length out) (distance + 1) of
        None \<Rightarrow> Error (Malformed ''blosclz match points before the start of the block'')
      | Some start \<Rightarrow> and_then (copy_match (n + 2) start out) (unblosclz_loop data q first))"
    have tail: "tail n distance q \<noteq> Inl Panic" if "p < q" for n distance q
      using that IH copy True
      by (auto simp: tail_def checked_sub_def and_then_Panic simp del: copy_match.simps)
    have "unblosclz_loop data p first out =
        and_then (if ?t div 32 = 7 then match_length data (p + 1) 7 else Ok (?t div 32, p + 1)) (\<lambda>(n, q).
        and_then (match_distance data ?t q) (\<lambda>(distance, q). tail n distance q))"
      using True by (subst unblosclz_loop.simps) (simp add: Let_def tail_def)
    moreover have "(\<lambda>(n, q). and_then (match_distance data ?t q) (\<lambda>(distance, q). tail n distance q)) (n, q)
        \<noteq> Inl Panic" if "p + 1 \<le> q" for n q
      using that match_distance_no_panic match_distance_moves [of data ?t q] tail
      by (fastforce simp: and_then_Panic)
    ultimately show ?thesis using len [of "?t div 32" "p + 1"] by (auto simp only: and_then_Panic)
  qed
qed

text \<open>The tokens of a stream, their encoding, and the output they stand for.\<close>

datatype token = Literal bytes | Match nat nat

fun expand :: "bytes \<Rightarrow> token list \<Rightarrow> bytes" where
  "expand out [] = out"
| "expand out (Literal bs # ts) = expand (out @ bs) ts"
| "expand out (Match n d # ts) =
     expand (out @ map (\<lambda>i. out ! (length out - (d + 1) + i mod (d + 1))) [0..<n]) ts"

fun valid_tokens :: "bool \<Rightarrow> bytes \<Rightarrow> token list \<Rightarrow> bool" where
  "valid_tokens first out [] = True"
| "valid_tokens first out (Literal bs # ts) \<longleftrightarrow>
     1 \<le> length bs \<and> length bs \<le> 32 \<and> valid_tokens False (out @ bs) ts"
| "valid_tokens first out (Match n d # ts) \<longleftrightarrow>
     \<not> first \<and> 3 \<le> n \<and> d + 1 \<le> length out \<and> d \<le> 0x1fff + 65535
     \<and> valid_tokens False (expand out [Match n d]) ts"

fun encode_extra :: "nat \<Rightarrow> bytes" where
  "encode_extra m = (if m < 255 then [of_nat m] else 255 # encode_extra (m - 255))"

declare encode_extra.simps [simp del]

definition encode_distance :: "nat \<Rightarrow> bytes" where
  "encode_distance d =
     (if d < 0x1fff then [of_nat (d mod 256)]
      else [255, of_nat ((d - 0x1fff) div 256), of_nat ((d - 0x1fff) mod 256)])"

fun encode_token :: "token \<Rightarrow> bytes" where
  "encode_token (Literal bs) = of_nat (length bs - 1) # bs"
| "encode_token (Match n d) =
     of_nat (min (n - 2) 7 * 32 + min d 0x1fff div 256) #
     (if n - 2 < 7 then [] else encode_extra (n - 2 - 7)) @ encode_distance d"

lemma match_length_encoded:
  "match_length (pre @ encode_extra m @ post) (length pre) len =
     Ok (len + m, length pre + length (encode_extra m))"
proof (induction m arbitrary: pre len rule: encode_extra.induct)
  case (1 m)
  show ?case
  proof (cases "m < 255")
    case True
    then show ?thesis
      by (subst match_length.simps) (simp add: encode_extra.simps [of m] Let_def unat_of_nat_byte)
  next
    case False
    have "match_length (pre @ encode_extra m @ post) (length pre) len =
        match_length ((pre @ [255]) @ encode_extra (m - 255) @ post) (length (pre @ [255])) (len + 255)"
      using False by (subst match_length.simps) (simp add: encode_extra.simps [of m] Let_def)
    also have "\<dots> = Ok (len + 255 + (m - 255), length (pre @ [255]) + length (encode_extra (m - 255)))"
      using 1 [OF False] .
    finally show ?thesis using False by (simp add: encode_extra.simps [of m])
  qed
qed

lemma match_distance_encoded:
  assumes "d \<le> 0x1fff + 65535" and "token mod 32 = min d 0x1fff div 256"
  shows "match_distance (pre @ encode_distance d @ post) token (length pre) =
     Ok (d, length pre + length (encode_distance d))"
proof (cases "d < 0x1fff")
  case True
  have "token mod 32 * 256 + d mod 256 = d" using True assms(2) by simp
  then show ?thesis using True
    by (simp add: match_distance_def encode_distance_def Let_def unat_of_nat_byte)
next
  case False
  have e: "(d - 8191) div 256 < 256" using assms(1) by simp
  have "token mod 32 = 31" using False assms(2) by simp
  moreover have "8191 + ((d - 8191) div 256 * 256 + (d - 8191) mod 256) = d" using False by simp
  ultimately show ?thesis using False e
    by (simp add: match_distance_def encode_distance_def Let_def unat_of_nat_byte nth_append)
qed

definition encode_tokens :: "token list \<Rightarrow> bytes" where
  "encode_tokens ts = concat (map encode_token ts)"

lemma unblosclz_literal:
  assumes "1 \<le> length bs" and "length bs \<le> 32"
  shows "unblosclz_loop (pre @ encode_token (Literal bs) @ post) (length pre) first out =
     unblosclz_loop ((pre @ encode_token (Literal bs)) @ post) (length (pre @ encode_token (Literal bs)))
       False (out @ bs)"
proof -
  have t: "unat (of_nat (length bs - 1) :: byte) = length bs - 1"
    by (rule unat_of_nat_byte) (use assms in simp)
  then have "unat (of_nat (length bs - 1) :: byte) mod 32 + 1 = length bs"
    "unat (of_nat (length bs - 1) :: byte) div 32 = 0" using assms by auto
  then show ?thesis
    using t assms by (subst unblosclz_loop.simps) (simp add: Let_def slice_def nth_append del: of_nat_diff)
qed

lemma match_token:
  assumes "3 \<le> n"
  shows "unat (of_nat (min (n - 2) 7 * 32 + min d 0x1fff div 256) :: byte) div 32 = min (n - 2) 7
     \<and> unat (of_nat (min (n - 2) 7 * 32 + min d 0x1fff div 256) :: byte) mod 32 = min d 0x1fff div 256"
proof -
  let ?a = "min (n - 2) 7" and ?b = "min d 0x1fff div 256"
  have b: "?b < 32" by simp
  then have "?a * 32 + ?b < 256" by simp
  then have u: "unat (of_nat (?a * 32 + ?b) :: byte) = ?a * 32 + ?b" by (rule unat_of_nat_byte)
  show ?thesis unfolding u using b by simp
qed

lemma unblosclz_match_step:
  assumes "p < length data" and "unat (data ! p) div 32 \<noteq> 0"
    and "(if unat (data ! p) div 32 = 7 then match_length data (p + 1) 7
          else Ok (unat (data ! p) div 32, p + 1)) = Ok (len, q)"
    and "match_distance data (unat (data ! p)) q = Ok (d, q')" and "d + 1 \<le> length out"
    and "copy_match (len + 2) (length out - (d + 1)) out = Ok out'"
  shows "unblosclz_loop data p False out = unblosclz_loop data q' False out'"
  using assms by (subst unblosclz_loop.simps)
    (simp add: Let_def checked_sub_def del: copy_match.simps split: if_splits)

lemma unblosclz_match:
  assumes n: "3 \<le> n" and d: "d + 1 \<le> length out" "d \<le> 0x1fff + 65535"
  shows "unblosclz_loop (pre @ encode_token (Match n d) @ post) (length pre) False out =
     unblosclz_loop ((pre @ encode_token (Match n d)) @ post) (length (pre @ encode_token (Match n d)))
       False (expand out [Match n d])"
proof -
  let ?t = "of_nat (min (n - 2) 7 * 32 + min d 0x1fff div 256) :: byte"
  let ?x = "if n - 2 < 7 then [] else encode_extra (n - 2 - 7)"
  let ?data = "pre @ encode_token (Match n d) @ post" and ?q = "length pre + 1 + length ?x"
  have tok: "unat ?t div 32 = min (n - 2) 7" "unat ?t mod 32 = min d 0x1fff div 256"
    using match_token [OF n] by auto
  have data: "?data = (pre @ [?t]) @ ?x @ encode_distance d @ post" by simp
  have len: "(if unat ?t div 32 = 7 then match_length ?data (length pre + 1) 7
      else Ok (unat ?t div 32, length pre + 1)) = Ok (n - 2, ?q)"
    using n match_length_encoded [of "pre @ [?t]" "n - 2 - 7" "encode_distance d @ post" 7]
    unfolding data tok by (auto simp: min_def)
  have dist: "match_distance ?data (unat ?t) ?q = Ok (d, ?q + length (encode_distance d))"
    using match_distance_encoded [OF d(2) tok(2), of "(pre @ [?t]) @ ?x" post] unfolding data
    by (simp add: add.assoc)
  have start: "length out - (d + 1) < length out" "length out - (length out - (d + 1)) = d + 1"
    using d(1) by auto
  have at: "?data ! length pre = ?t" by (simp add: nth_append)
  have copy: "copy_match (n - 2 + 2) (length out - (d + 1)) out = Ok (expand out [Match n d])"
  proof -
    have n2: "n - 2 + 2 = n" using n by simp
    show ?thesis using copy_match_eq [OF start(1), of n] unfolding start(2) n2 by simp
  qed
  have "unblosclz_loop ?data (length pre) False out =
      unblosclz_loop ?data (?q + length (encode_distance d)) False (expand out [Match n d])"
    by (rule unblosclz_match_step [where len = "n - 2" and q = ?q and d = d])
      (use n d(1) tok(1) len dist copy in \<open>simp_all only: at, auto\<close>)
  moreover have "?q + length (encode_distance d) = length (pre @ encode_token (Match n d))" by simp
  ultimately show ?thesis by (simp only: append_assoc)
qed

lemma unblosclz_encoded:
  "valid_tokens first out ts \<Longrightarrow>
   unblosclz_loop (pre @ encode_tokens ts) (length pre) first out = Ok (expand out ts)"
proof (induction first out ts arbitrary: pre rule: valid_tokens.induct)
  case (1 first out)
  then show ?case by (subst unblosclz_loop.simps) (simp add: encode_tokens_def)
next
  case (2 first out bs ts)
  then have "unblosclz_loop (pre @ encode_token (Literal bs) @ encode_tokens ts) (length pre) first out =
      unblosclz_loop ((pre @ encode_token (Literal bs)) @ encode_tokens ts)
        (length (pre @ encode_token (Literal bs))) False (out @ bs)"
    by (intro unblosclz_literal) auto
  also have "\<dots> = Ok (expand (out @ bs) ts)"
    by (rule "2.IH") (use "2.prems" in simp)
  finally show ?case by (simp add: encode_tokens_def)
next
  case (3 first out n d ts)
  then have "unblosclz_loop (pre @ encode_token (Match n d) @ encode_tokens ts) (length pre) False out =
      unblosclz_loop ((pre @ encode_token (Match n d)) @ encode_tokens ts)
        (length (pre @ encode_token (Match n d))) False (expand out [Match n d])"
    by (intro unblosclz_match) auto
  also have "\<dots> = Ok (expand (expand out [Match n d]) ts)"
    by (rule "3.IH") (use "3.prems" in auto)
  finally show ?case using "3.prems" by (simp add: encode_tokens_def)
qed

section \<open>A whole pipeline\<close>

lemma le32_at_end: "le32_at (data @ to_le 4 n) (length data) = Ok (n mod 2 ^ 32)"
proof -
  have "(256 :: nat) ^ 4 = 2 ^ 32" by simp
  then show ?thesis by (simp add: le32_at_def slice_range_def slice_def del: to_le.simps)
qed

lemma strip_fletcher32:
  "verify_and_strip_fletcher32 (data @ to_le 4 (unat (fletcher32 data))) = Ok data"
proof -
  have "unat (fletcher32 data) < 2 ^ 32" using unsigned_less [of "fletcher32 data"] by simp
  then show ?thesis
    by (simp add: verify_and_strip_fletcher32_def Let_def le32_at_end del: to_le.simps)
qed

lemma strip_fletcher32_Ok:
  "verify_and_strip_fletcher32 data = Inr out \<Longrightarrow>
   \<exists>sum. data = out @ sum \<and> length sum = 4 \<and> (fletcher32 out = word_of_nat (le_nat sum)
        \<or> fletcher32 out = word_of_nat (be_nat sum))"
proof -
  assume ok: "verify_and_strip_fletcher32 data = Inr out"
  let ?n = "length data - 4"
  have len: "\<not> length data < 4" using ok by (auto simp: verify_and_strip_fletcher32_def)
  let ?sum = "drop ?n data"
  have l4: "length ?sum = 4" using len by simp
  have rd: "le32_at data ?n = Ok (le_nat ?sum)"
    using len by (simp add: le32_at_def slice_range_def slice_def)
  have "to_le 4 (le_nat ?sum) = ?sum" using to_le_le_nat [of ?sum] unfolding l4 .
  then have "swap_bytes32 (le_nat ?sum) = be_nat ?sum" by (simp add: swap_bytes32_def)
  then have "out = take ?n data \<and> (fletcher32 out = word_of_nat (le_nat ?sum)
      \<or> fletcher32 out = word_of_nat (be_nat ?sum))"
    using ok len by (auto simp: verify_and_strip_fletcher32_def rd Let_def split: if_splits)
  then show ?thesis using l4 by (intro exI [of _ ?sum]) auto
qed

text \<open>
  The writer's side: filter \<open>i\<close> is applied unless its bit of the mask is set.  The encoders of
  \<^verbatim>\<open>zlib\<close> and \<^verbatim>\<open>zstd\<close> are parameters, with the law that their decoder undoes them.
\<close>

record encoders =
  deflate_enc :: "bytes \<Rightarrow> bytes"
  zstd_enc :: "bytes \<Rightarrow> bytes"

definition decoders_undo :: "codecs \<Rightarrow> encoders \<Rightarrow> bool" where
  "decoders_undo cs es \<longleftrightarrow>
     (\<forall>d. zlib cs (deflate_enc es d) = Some d) \<and>
     (\<forall>d. zstd_new cs (zstd_enc es d) \<and> zstd cs (zstd_enc es d) = Some d)"

definition encode_one :: "encoders \<Rightarrow> chunk_filter \<Rightarrow> bytes \<Rightarrow> bytes" where
  "encode_one es f data =
     (if filter_id f = DEFLATE then deflate_enc es data
      else if filter_id f = SHUFFLE then shuffle data (case client_data f of [] \<Rightarrow> 0 | n # _ \<Rightarrow> n)
      else if filter_id f = FLETCHER32 then data @ to_le 4 (unat (fletcher32 data))
      else zstd_enc es data)"

fun encode_loop :: "encoders \<Rightarrow> 32 word \<Rightarrow> (nat \<times> chunk_filter) list \<Rightarrow> bytes \<Rightarrow> bytes" where
  "encode_loop es fmask [] data = data"
| "encode_loop es fmask ((index, f) # rest) data =
     encode_loop es fmask rest (if fmask AND push_bit index 1 \<noteq> 0 then data else encode_one es f data)"

definition encode_chunk :: "encoders \<Rightarrow> chunk_filter list \<Rightarrow> 32 word \<Rightarrow> bytes \<Rightarrow> bytes" where
  "encode_chunk es filters fmask data = encode_loop es fmask (enumerate 0 filters) data"

lemma filter_ids: "distinct [DEFLATE, SHUFFLE, FLETCHER32, ZSTD, BLOSC]"
  by (simp add: DEFLATE_def SHUFFLE_def FLETCHER32_def ZSTD_def BLOSC_def)

lemma decode_one_encoded:
  assumes "decoders_undo cs es" and "filter_id f \<in> {DEFLATE, SHUFFLE, FLETCHER32, ZSTD}"
    and "expected_len \<le> isize_max"
  shows "decode_one cs f (encode_one es f data) expected_len = Ok data"
  using assms filter_ids
  by (auto simp: decode_one_def encode_one_def inflate_def unzstd_def with_capacity_def
      decoders_undo_def unshuffle_shuffle strip_fletcher32)

lemma decode_loop_append:
  "decode_loop cs fmask n (xs @ ys) b = and_then (decode_loop cs fmask n xs b) (decode_loop cs fmask n ys)"
proof (induction xs arbitrary: b)
  case (Cons x xs)
  obtain i f where "x = (i, f)" by fastforce
  then show ?case using Cons.IH by (cases "decode_one cs f b n") auto
qed simp

lemma decode_encode_loop:
  assumes "decoders_undo cs es" and "expected_len \<le> isize_max"
  shows "(\<And>i f. (i, f) \<in> set fs \<Longrightarrow> i < 32 \<and> filter_id f \<in> {DEFLATE, SHUFFLE, FLETCHER32, ZSTD}) \<Longrightarrow>
    decode_loop cs fmask expected_len (rev fs) (encode_loop es fmask fs data) = Ok data"
proof (induction fs arbitrary: data)
  case (Cons g fs)
  obtain i f where g: "g = (i, f)" by fastforce
  have f: "i < 32" "filter_id f \<in> {DEFLATE, SHUFFLE, FLETCHER32, ZSTD}" using Cons.prems g by auto
  have "decode_loop cs fmask expected_len (rev fs)
      (encode_loop es fmask fs (if fmask AND push_bit i 1 \<noteq> 0 then data else encode_one es f data)) =
      Ok (if fmask AND push_bit i 1 \<noteq> 0 then data else encode_one es f data)"
    by (rule Cons.IH) (use Cons.prems in auto)
  then show ?case
    using g f decode_one_encoded [OF assms(1) f(2) assms(2), of data]
    by (simp add: decode_loop_append del: insert_iff)
qed simp

lemma decode_one_failures:
  assumes "filter_id f \<in> {DEFLATE, SHUFFLE, FLETCHER32, ZSTD}" and "expected_len \<le> isize_max"
    and "decode_one cs f data expected_len = Inl e"
  shows "\<exists>err. e = Err err \<and> \<not> is_fallback_worthy err"
  using assms filter_ids
  by (auto simp: decode_one_def inflate_def unzstd_def with_capacity_def is_fallback_worthy_def
      verify_and_strip_fletcher32_def le32_at_def slice_range_def Let_def
      split: option.splits if_splits)

lemma decode_loop_failures:
  assumes "expected_len \<le> isize_max"
  shows "(\<And>i f. (i, f) \<in> set fs \<Longrightarrow> i < 32 \<and> filter_id f \<in> {DEFLATE, SHUFFLE, FLETCHER32, ZSTD}) \<Longrightarrow>
    decode_loop cs fmask expected_len fs data = Inl e \<Longrightarrow> \<exists>err. e = Err err \<and> \<not> is_fallback_worthy err"
proof (induction fs arbitrary: data)
  case (Cons g fs)
  obtain i f where g: "g = (i, f)" by fastforce
  have f: "i < 32" "filter_id f \<in> {DEFLATE, SHUFFLE, FLETCHER32, ZSTD}" using Cons.prems(1) g by auto
  have IH: "decode_loop cs fmask expected_len fs d = Inl e \<Longrightarrow> \<exists>err. e = Err err \<and> \<not> is_fallback_worthy err"
    for d by (rule Cons.IH) (use Cons.prems in auto)
  show ?case
  proof (cases "fmask AND push_bit i 1 \<noteq> 0")
    case True
    then show ?thesis using Cons.prems(2) g f IH by simp
  next
    case False
    then have "and_then (decode_one cs f data expected_len) (decode_loop cs fmask expected_len fs) = Inl e"
      using Cons.prems(2) g f by simp
    then show ?thesis
      using IH decode_one_failures [OF f(2) assms] by (cases "decode_one cs f data expected_len") auto
  qed
qed simp

lemma in_enumerate: "(i, f) \<in> set (enumerate 0 fs) \<Longrightarrow> i < length fs \<and> f \<in> set fs"
  by (auto simp: in_set_enumerate_eq)

lemma safe_parse_pipeline: "safe_parser parse_pipeline_p"
  unfolding parse_pipeline_p_def parse_filter_v1_def parse_filter_v2_def by (intro safe_intros)

section \<open>Properties\<close>


definition store_codecs :: codecs where
  "store_codecs = \<lparr>zlib = (\<lambda>d. if d = [] then None else Some (tl d)), zstd_new = (\<lambda>d. d \<noteq> []),
     zstd = (\<lambda>d. Some (tl d)), lz4 = (\<lambda>d n. Some d)\<rparr>"


text \<open>
  When every filter is supported and none is Blosc, decoding a chunk of any bytes, damaged
  or not, never panics and never reports an unsupported feature: what \<open>pipeline_is_supported\<close>
  promises the callers that decide on a fallback before reading.
\<close>

theorem supported_pipeline_total:
  assumes "pipeline_is_supported filters" and "\<forall>f \<in> set filters. filter_id f \<noteq> BLOSC"
    and "length filters \<le> 32" and "expected_len \<le> isize_max"
  shows "decode_chunk cs filters fmask data expected_len \<noteq> Inl Panic
    \<and> (\<forall>e. decode_chunk cs filters fmask data expected_len = Error e \<longrightarrow> \<not> is_fallback_worthy e)"
proof -
  have "\<exists>err. e = Err err \<and> \<not> is_fallback_worthy err"
    if "decode_chunk cs filters fmask data expected_len = Inl e" for e
  proof (rule decode_loop_failures [OF assms(4)])
    show "decode_loop cs fmask expected_len (rev (enumerate 0 filters)) data = Inl e"
      using that by (simp add: decode_chunk_def)
    show "i < 32 \<and> filter_id f \<in> {DEFLATE, SHUFFLE, FLETCHER32, ZSTD}"
      if "(i, f) \<in> set (rev (enumerate 0 filters))" for i f
      using that assms in_enumerate [of i f filters] by (auto simp: pipeline_is_supported_def list_all_iff)
  qed
  then show ?thesis by blast
qed

theorem supported_pipeline_total_witness:
  "decode_chunk store_codecs [\<lparr>filter_id = 3, filter_name = [], filter_flags = 0, client_data = []\<rparr>] 0 [1, 2] 2
     \<noteq> Inl Panic"
  using supported_pipeline_total
    [of "[\<lparr>filter_id = 3, filter_name = [], filter_flags = 0, client_data = []\<rparr>]" 2 store_codecs 0 "[1, 2]"]
  by (simp add: pipeline_is_supported_def FLETCHER32_def BLOSC_def isize_max_def)

text \<open>
  The fast gathering \<open>unshuffle\<close> and the byte shuffle are inverse to each other for every
  element size and every length, a trailing partial element included, and keep the length.
\<close>

theorem shuffle_bijective:
  "unshuffle (shuffle data es) es = data \<and> shuffle (unshuffle data es) es = data
   \<and> length (unshuffle data es) = length data"
  by (simp add: unshuffle_shuffle shuffle_unshuffle length_unshuffle)

text \<open>
  The bit shuffle of Blosc is undone by its inverse, for every type size and length, and the
  transposed bit matrix is what the documentation says: bit \<open>j\<close> of element \<open>i\<close> comes from bit \<open>i\<close> of
  row \<open>j\<close>.
\<close>

theorem bitshuffle_undone:
  "unbitshuffle (bitshuffle data t) t = data
   \<and> (t \<noteq> 0 \<longrightarrow> length data = n * t \<longrightarrow> i < n \<longrightarrow> j < t * 8 \<longrightarrow>
      get_bit (unbitshuffle data t) (i * (t * 8) + j) = get_bit data (j * n + i))"
  using get_bit_unbitshuffle by (simp add: unbitshuffle_bitshuffle)

theorem bitshuffle_undone_witness:
  "get_bit (unbitshuffle [1, 2] 1) (1 * 8 + 0) = get_bit [1, 2] (0 * 2 + 1)"
  using bitshuffle_undone [of "[1, 2]" 1 2 1 0] by simp

text \<open>
  C38.  A blosclz stream of literal runs and (possibly overlapping) back-references, with extended
  lengths and distances, decodes to the output its tokens stand for; and no stream at all makes the
  decoder panic.
\<close>

theorem blosclz_decodes_tokens:
  assumes "expected_len \<le> isize_max"
  shows "(valid_tokens True [] ts \<longrightarrow> unblosclz (encode_tokens ts) expected_len = Ok (expand [] ts))
    \<and> unblosclz data expected_len \<noteq> Inl Panic"
  using assms unblosclz_encoded [of True "[]" ts "[]"] unblosclz_loop_no_panic
  by (simp add: unblosclz_def with_capacity_def)

theorem blosclz_decodes_tokens_witness:
  "unblosclz [1, 7, 8, 0x60, 1] 7 = Ok [7, 8, 7, 8, 7, 8, 7]"
proof -
  have "valid_tokens True [] [Literal [7, 8], Match 5 1]" by simp
  moreover have "encode_tokens [Literal [7, 8], Match 5 1] = [1, 7, 8, 0x60, 1]"
    by (simp add: encode_tokens_def encode_distance_def)
  moreover have "expand [] [Literal [7, 8], Match 5 1] = [7, 8, 7, 8, 7, 8, 7]"
    by code_simp
  ultimately show ?thesis
    using blosclz_decodes_tokens [of 7 "[Literal [7, 8], Match 5 1]" "[]"]
    by (simp add: isize_max_def del: valid_tokens.simps expand.simps)
qed

text \<open>
  The Fletcher-32 filter accepts a chunk exactly when it ends in the checksum of the rest, in
  either byte order, and returns the rest.
\<close>

theorem fletcher32_filter_sound:
  assumes "verify_and_strip_fletcher32 data = Inr out"
  shows "\<exists>sum. data = out @ sum \<and> length sum = 4
    \<and> (fletcher32 out = word_of_nat (le_nat sum) \<or> fletcher32 out = word_of_nat (be_nat sum))"
  by (rule strip_fletcher32_Ok [OF assms])

theorem fletcher32_filter_sound_witness:
  "\<exists>sum. ([5, 6] @ to_le 4 (unat (fletcher32 [5, 6]))) = [5, 6] @ sum \<and> length sum = 4"
  using fletcher32_filter_sound [OF strip_fletcher32 [of "[5, 6]"]] by blast

text \<open>
  A pipeline of more than 32 filters, which a damaged message with its one-byte filter count
  can declare, makes decoding panic on every chunk: the shift \<open>1u32 << index\<close> overflows.
\<close>

theorem long_pipeline_panics:
  assumes "32 < length filters"
  shows "decode_chunk cs filters fmask data expected_len = Inl Panic"
proof -
  obtain f fs where f: "filters = fs @ [f]" using assms by (cases filters rule: rev_cases) auto
  then have "rev (enumerate 0 filters) = (length fs, f) # rev (enumerate 0 fs)"
    by (simp add: enumerate_append_eq)
  then show ?thesis using assms f by (simp add: decode_chunk_def)
qed

theorem long_pipeline_panics_witness:
  "decode_chunk store_codecs (replicate 33 \<lparr>filter_id = 2, filter_name = [], filter_flags = 0, client_data = [4]\<rparr>)
     0 [1, 2, 3, 4, 5] 5 = Inl Panic"
  by (rule long_pipeline_panics) simp

text \<open>
  A Blosc container whose first block decodes to more bytes than the header announces makes
  the decoder panic at the next block, where \<open>nbytes - out.len()\<close> underflows; no codec of another
  crate is involved.
\<close>

theorem blosc_overrun_panics:
  "unblosc cs [2, 1, 0, 1, 2, 0, 0, 0, 1, 0, 0, 0, 16, 0, 0, 0, 24, 0, 0, 0, 24, 0, 0, 0,
     4, 0, 0, 0, 2, 65, 66, 67] = Inl Panic"
proof -
  have "valid_tokens True [] [Literal [65, 66, 67]]" by simp
  from unblosclz_encoded [OF this, of "[]"] have "unblosclz_loop [2, 65, 66, 67] 0 True [] = Ok [65, 66, 67]"
    by (simp add: encode_tokens_def)
  then have block: "unblosclz [2, 65, 66, 67] 1 = Ok [65, 66, 67]"
    by (simp add: unblosclz_def with_capacity_def isize_max_def)
  have two: "div_ceil 2 (Suc 0) = 2" "[0..<2] = [0, 1 :: nat]" by (simp_all add: div_ceil_def upt_rec)
  show ?thesis
    using block
    by (simp add: unblosc_def le32_at_def slice_range_def slice_def Let_def two blosc_block_def sub64_def)
qed

end
