(* ===== verification/Hyperslab.thy ===== *)
theory Hyperslab
  imports Context
begin

text \<open>
  Rectangular selections and the copy of their runs (\<^verbatim>\<open>read.rs\<close>): validation, the row-major strides,
  the walk over contiguous runs with its odometer, and the reads of compact and contiguous data.
  The reference is the row-major position \<open>flat dims idx\<close> of a multi-index.
\<close>

section \<open>Selections\<close>

record hyperslab =
  start :: "nat list"
  cnt :: "nat list"

definition hyperslab_all :: "nat list \<Rightarrow> hyperslab" where
  "hyperslab_all shape = \<lparr>start = replicate (length shape) 0, cnt = shape\<rparr>"

fun validate_axes :: "(nat \<times> nat) list \<Rightarrow> nat list \<Rightarrow> unit result" where
  "validate_axes ((s, c) # axes) (dim # shape) =
     (case checked_add s c of
        None \<Rightarrow> Error (BadRequest ''selection on axis overflows'')
      | Some fin \<Rightarrow>
          if fin > dim then Error (BadRequest ''selection on axis runs past the dimension size'')
          else validate_axes axes shape)"
| "validate_axes _ _ = Ok ()"

definition validate :: "hyperslab \<Rightarrow> nat list \<Rightarrow> unit result" where
  "validate slab shape =
     (if length (start slab) \<noteq> length shape \<or> length (cnt slab) \<noteq> length shape
      then Error (BadRequest ''selection rank differs from the dataset rank'')
      else validate_axes (zip (start slab) (cnt slab)) shape)"

definition new_hyperslab :: "nat list \<Rightarrow> nat list \<Rightarrow> nat list \<Rightarrow> hyperslab result" where
  "new_hyperslab st c shape =
     (let slab = \<lparr>start = st, cnt = c\<rparr> in and_then (validate slab shape) (\<lambda>_. Ok slab))"

fun ranges_loop :: "(nat \<times> nat) list \<Rightarrow> nat list \<times> nat list \<Rightarrow> hyperslab result" where
  "ranges_loop [] (st, c) = Ok \<lparr>start = st, cnt = c\<rparr>"
| "ranges_loop ((lo, hi) # rest) (st, c) =
     (if hi < lo then Error (BadRequest ''range on axis is reversed'')
      else ranges_loop rest (st @ [lo], c @ [hi - lo]))"

definition from_ranges :: "nat list \<Rightarrow> (nat \<times> nat) list \<Rightarrow> hyperslab result" where
  "from_ranges shape ranges =
     (if length ranges \<noteq> length shape then Error (BadRequest ''variable rank differs from the ranges given'')
      else ranges_loop ranges ([], []))"

definition saturating_product :: "nat list \<Rightarrow> nat" where
  "saturating_product dims = fold (\<lambda>dim total. saturating_mul total dim) dims 1"

definition element_count :: "nat list \<Rightarrow> nat" where
  "element_count dims = saturating_product dims"

definition decoded_chunk_len :: "nat list \<Rightarrow> nat \<Rightarrow> nat result" where
  "decoded_chunk_len chunk_shape element_size =
     (case checked_mul (element_count chunk_shape) element_size of
        None \<Rightarrow> Error (Malformed ''one chunk claims more bytes than this reader can hold'')
      | Some n \<Rightarrow> Ok n)"

section \<open>Runs\<close>

text \<open>
  \<open>strides\<close> fills its vector from the last axis on; the recursion does the same multiplications in
  the same order.
\<close>

fun strides :: "nat list \<Rightarrow> nat list result" where
  "strides [] = Ok []"
| "strides [d] = Ok [1]"
| "strides (d # e # shape) =
     and_then (strides (e # shape)) (\<lambda>out. and_then (mul64 (hd out) e) (\<lambda>m. Ok (m # out)))"

fun grow_run :: "hyperslab \<Rightarrow> nat list \<Rightarrow> nat \<Rightarrow> nat" where
  "grow_run slab shape 0 = 0"
| "grow_run slab shape (Suc first) =
     (if start slab ! Suc first = 0 \<and> cnt slab ! Suc first = shape ! Suc first
      then grow_run slab shape first else Suc first)"

text \<open>The odometer: axes \<open>a - 1\<close> down to 0 are incremented until one does not wrap.\<close>

fun odometer :: "nat list \<Rightarrow> nat \<Rightarrow> nat list \<Rightarrow> nat list" where
  "odometer limits 0 index = index"
| "odometer limits (Suc a) index =
     (let index = index[a := index ! a + 1] in
      if index ! a < limits ! a then index else odometer limits a (index[a := 0]))"

text \<open>The sums of one iteration over the axes outside the run; each step can overflow.\<close>

fun run_offsets ::
  "nat list \<Rightarrow> nat list \<Rightarrow> nat list \<Rightarrow> nat list \<Rightarrow> nat \<times> nat \<Rightarrow> (nat \<times> nat) result" where
  "run_offsets (s # st) (i # index) (ss # src_strides) (ds # dst_strides) (src, dst) =
     and_then (add64 s i) (\<lambda>c. and_then (mul64 c ss) (\<lambda>m. and_then (add64 src m) (\<lambda>src.
     and_then (mul64 i ds) (\<lambda>m. and_then (add64 dst m) (\<lambda>dst.
       run_offsets st index src_strides dst_strides (src, dst))))))"
| "run_offsets _ _ _ _ (src, dst) = Ok (src, dst)"

fun run_loop ::
  "nat \<Rightarrow> hyperslab \<Rightarrow> nat list \<Rightarrow> nat list \<Rightarrow> nat \<Rightarrow> nat \<Rightarrow> (nat \<Rightarrow> nat \<Rightarrow> nat \<Rightarrow> 's \<Rightarrow> 's result)
   \<Rightarrow> nat list \<Rightarrow> 's \<Rightarrow> 's result" where
  "run_loop 0 slab src_strides dst_strides first run visit index st = Ok st"
| "run_loop (Suc n) slab src_strides dst_strides first run visit index st =
     and_then (run_offsets (take first (start slab)) index (take first src_strides) (take first dst_strides) (0, 0))
       (\<lambda>(src, dst).
     and_then (mul64 (start slab ! first) (src_strides ! first)) (\<lambda>m. and_then (add64 src m) (\<lambda>src.
     and_then (visit src dst run st) (\<lambda>st.
       run_loop n slab src_strides dst_strides first run visit (odometer (cnt slab) first index) st))))"

definition for_each_run ::
  "nat list \<Rightarrow> hyperslab \<Rightarrow> (nat \<Rightarrow> nat \<Rightarrow> nat \<Rightarrow> 's \<Rightarrow> 's result) \<Rightarrow> 's \<Rightarrow> 's result" where
  "for_each_run shape slab visit st =
     (let rank = length shape in
      if rank = 0 then visit 0 0 1 st
      else if element_count (cnt slab) = 0 then Ok st
      else
        and_then (strides shape) (\<lambda>src_strides. and_then (strides (cnt slab)) (\<lambda>dst_strides.
          let first = grow_run slab shape (rank - 1); run = element_count (drop first (cnt slab)) in
          if run = 0 then Ok st
          else run_loop (element_count (take first (cnt slab))) slab src_strides dst_strides first run visit
                 (replicate first 0) st)))"

text \<open>\<open>out[at..at + len].copy_from_slice(bytes)\<close>: panics out of range or on a length mismatch.\<close>

definition copy_into :: "bytes \<Rightarrow> nat \<Rightarrow> nat \<Rightarrow> bytes \<Rightarrow> bytes result" where
  "copy_into out at len bs =
     and_then (add64 at len) (\<lambda>fin.
       if fin \<le> length out \<and> length bs = len then Ok (take at out @ bs @ drop fin out) else panic)"

definition copy_from_dense :: "bytes \<Rightarrow> bytes \<Rightarrow> nat list \<Rightarrow> hyperslab \<Rightarrow> nat \<Rightarrow> bytes result" where
  "copy_from_dense out src shape slab element_size =
     for_each_run shape slab (\<lambda>s d run out.
       and_then (mul64 s element_size) (\<lambda>sb. and_then (mul64 d element_size) (\<lambda>db.
       and_then (mul64 run element_size) (\<lambda>len. and_then (add64 sb len) (\<lambda>fin.
         if fin > length src
         then Error (Malformed ''stored data is shorter than the dataset shape implies'')
         else and_then (slice_range src sb fin) (copy_into out db len)))))) out"

definition read_contiguous :: "ctx \<Rightarrow> nat \<Rightarrow> bytes \<Rightarrow> nat list \<Rightarrow> hyperslab \<Rightarrow> nat \<Rightarrow> bytes result" where
  "read_contiguous ctx address out shape slab element_size =
     for_each_run shape slab (\<lambda>s d run out.
       and_then (mul64 run element_size) (\<lambda>len. and_then (mul64 s element_size) (\<lambda>off.
       and_then (add64 address off) (\<lambda>at. and_then (ctx_read ctx at len) (\<lambda>bs.
       and_then (mul64 d element_size) (\<lambda>db. copy_into out db len bs)))))) out"

fun reverse_chunks :: "nat \<Rightarrow> bytes \<Rightarrow> bytes" where
  "reverse_chunks n b = (if 0 < n \<and> n \<le> length b then rev (take n b) @ reverse_chunks n (drop n b) else b)"

declare reverse_chunks.simps [simp del]

definition swap_bytes_in_place :: "bytes \<Rightarrow> nat \<Rightarrow> bytes" where
  "swap_bytes_in_place b element_size = (if element_size \<le> 1 then b else reverse_chunks element_size b)"

section \<open>Integers of an element\<close>

definition read_unsigned :: "bytes \<Rightarrow> nat result" where
  "read_unsigned b =
     (let n = length b in
      if n = 0 \<or> n > 8 then Error (Unsupported ''byte integer'')
      else Ok (le_nat (b @ replicate (8 - n) 0)))"

definition read_integer :: "bytes \<Rightarrow> bool \<Rightarrow> 64 word result" where
  "read_integer b sg =
     (let n = length b in
      if n = 0 \<or> n > 8 then Error (Unsupported ''byte integer'')
      else
        let raw = (word_of_nat (le_nat (b @ replicate (8 - n) 0)) :: 64 word) in
        if \<not> sg then Ok raw
        else let sh = 64 - n * 8 in Ok (signed_drop_bit sh (push_bit sh raw)))"

section \<open>Row-major positions\<close>

definition flat :: "nat list \<Rightarrow> nat list \<Rightarrow> nat" where
  "flat dims idx = foldl (\<lambda>acc (d, i). acc * d + i) 0 (zip dims idx)"

definition in_dims :: "nat list \<Rightarrow> nat list \<Rightarrow> bool" where
  "in_dims dims idx \<longleftrightarrow> list_all2 (\<lambda>d i. i < d) dims idx"

lemma flat_Nil [simp]: "flat [] idx = 0"
  by (simp add: flat_def)

lemma flat_snoc: "length dims = length idx \<Longrightarrow> flat (dims @ [d]) (idx @ [i]) = flat dims idx * d + i"
  by (simp add: flat_def)

lemma foldl_horner:
  "length (ds :: nat list) = length (is :: nat list) \<Longrightarrow>
   foldl (\<lambda>acc (d, i). acc * d + i) a (zip ds is) = a * prod_list ds + foldl (\<lambda>acc (d, i). acc * d + i) 0 (zip ds is)"
proof (induction ds "is" arbitrary: a rule: list_induct2)
  case (Cons d ds i "is")
  from Cons.IH [of "a * d + i"] Cons.IH [of i] show ?case by (simp add: algebra_simps)
qed simp

lemma flat_Cons: "length ds = length is \<Longrightarrow> flat (d # ds) (i # is) = i * prod_list ds + flat ds is"
  using foldl_horner [of ds "is" i] by (simp add: flat_def)

lemma in_dims_length: "in_dims dims idx \<Longrightarrow> length idx = length dims"
  by (auto simp: in_dims_def dest: list_all2_lengthD)

lemma in_dims_Cons [simp]: "in_dims (d # ds) (i # is) \<longleftrightarrow> i < d \<and> in_dims ds is"
  by (simp add: in_dims_def)

lemma in_dims_Nil [simp]: "in_dims [] [] " "\<not> in_dims [] (i # is)" "\<not> in_dims (d # ds) []"
  by (auto simp: in_dims_def)

lemma flat_less: "in_dims dims idx \<Longrightarrow> flat dims idx < prod_list dims"
proof (induction dims arbitrary: idx)
  case (Cons d ds)
  then obtain i "is" where idx: "idx = i # is" "i < d" "in_dims ds is" by (cases idx) auto
  then have "flat (d # ds) idx < Suc i * prod_list ds"
    using Cons.IH in_dims_length by (simp add: flat_Cons)
  also have "\<dots> \<le> d * prod_list ds" using idx(2) by (intro mult_le_mono1) simp
  finally show ?case by simp
qed simp

lemma flat_inj: "in_dims ds i \<and> flat ds i = k \<Longrightarrow> in_dims ds j \<Longrightarrow> flat ds j = k \<Longrightarrow> i = j"
proof (induction ds arbitrary: i j k)
  case (Cons d ds)
  obtain x xs y ys where xy: "i = x # xs" "j = y # ys" "in_dims ds xs" "in_dims ds ys"
    using Cons.prems by (cases i; cases j) auto
  have "x * prod_list ds + flat ds xs = y * prod_list ds + flat ds ys"
    using Cons.prems xy in_dims_length by (simp add: flat_Cons)
  moreover have "flat ds xs < prod_list ds" "flat ds ys < prod_list ds" using flat_less xy by auto
  ultimately have "x = y" "flat ds xs = flat ds ys"
    by (metis add.commute div_mult_self1 div_less add.right_neutral less_nat_zero_code,
        metis add.commute mod_mult_self1 mod_less)
  then show ?case using Cons.IH xy by blast
qed (metis in_dims_Nil(2) list.exhaust)

lemma flat_append:
  "length xs = length is \<Longrightarrow> length ys = length js \<Longrightarrow>
   flat (xs @ ys) (is @ js) = flat xs is * prod_list ys + flat ys js"
  using foldl_horner [of ys js "flat xs is"] by (simp add: flat_def)

lemma flat_zeros: "flat ds (replicate (length ds) 0) = 0"
  by (induction ds) (auto simp: flat_Cons)

lemma prod_list_pos: "(\<forall>d \<in> set ds. 0 < d) \<Longrightarrow> 0 < prod_list (ds :: nat list)"
  by (induction ds) auto

lemma prod_list_zero: "prod_list (ds :: nat list) = 0 \<longleftrightarrow> 0 \<in> set ds"
  by (induction ds) auto

lemma prod_list_drop_le: "(\<forall>d \<in> set ds. 0 < d) \<Longrightarrow> prod_list (drop n ds) \<le> prod_list (ds :: nat list)"
proof (induction ds arbitrary: n)
  case (Cons d ds)
  then show ?case
  proof (cases n)
    case (Suc m)
    have "prod_list (drop m ds) \<le> prod_list ds" using Cons by simp
    also have "\<dots> \<le> d * prod_list ds" using Cons.prems by simp
    finally show ?thesis using Suc by simp
  qed simp
qed simp

section \<open>The saturating product\<close>

lemma saturating_fold:
  "fold (\<lambda>dim total. saturating_mul total dim) dims (min p u64_max) = min (p * prod_list dims) u64_max"
proof (induction dims arbitrary: p)
  case (Cons d dims)
  have "saturating_mul (min p u64_max) d = min (p * d) u64_max"
  proof (cases "d = 0 \<or> p \<le> u64_max")
    case False
    then have "u64_max \<le> u64_max * d" "u64_max \<le> p * d" by (cases d; simp)+
    then show ?thesis using False by (simp add: saturating_mul_def)
  qed (auto simp: saturating_mul_def)
  then show ?case using Cons [of "p * d"] by (simp add: mult.assoc)
qed simp

lemma element_count_eq: "element_count dims = min (prod_list dims) u64_max"
  using saturating_fold [of dims 1] by (simp add: element_count_def saturating_product_def u64_max_def)

section \<open>Strides\<close>

lemma strides_eq:
  "(\<forall>d \<in> set shape. 0 < d) \<Longrightarrow> prod_list (tl shape) \<le> u64_max \<Longrightarrow>
   strides shape = Ok (map (\<lambda>a. prod_list (drop (Suc a) shape)) [0..<length shape])"
proof (induction shape rule: strides.induct)
  case (3 d e shape)
  have "prod_list shape \<le> e * prod_list shape" using "3.prems"(1) by simp
  also have "\<dots> \<le> u64_max" using "3.prems"(2) by simp
  finally have "prod_list shape \<le> u64_max" .
  then have "strides (e # shape) = Ok (map (\<lambda>a. prod_list (drop (Suc a) (e # shape))) [0..<length (e # shape)])"
    using 3 by simp
  moreover have "map (\<lambda>a. prod_list (drop (Suc a) (d # e # shape))) [0..<length (d # e # shape)] =
      e * prod_list shape # map (\<lambda>a. prod_list (drop (Suc a) (e # shape))) [0..<length (e # shape)]"
    by (simp add: map_upt_Suc del: upt_Suc)
  moreover have "hd (map (\<lambda>a. prod_list (drop (Suc a) (e # shape))) [0..<length (e # shape)]) = prod_list shape"
    by (simp add: map_upt_Suc del: upt_Suc)
  ultimately show ?case using "3.prems"(2) by (simp add: mul64_def mult.commute del: upt_Suc)
qed simp_all

lemma strides_panic:
  assumes "(\<forall>d \<in> set shape. 0 < d)" and "prod_list (tl shape) > u64_max"
  shows "strides shape = Inl Panic"
  using assms
proof (induction shape rule: strides.induct)
  case (3 d e shape)
  show ?case
  proof (cases "prod_list shape \<le> u64_max")
    case True
    then have "strides (e # shape) = Ok (map (\<lambda>a. prod_list (drop (Suc a) (e # shape))) [0..<length (e # shape)])"
      using "3.prems" by (intro strides_eq) auto
    moreover have "hd (map (\<lambda>a. prod_list (drop (Suc a) (e # shape))) [0..<length (e # shape)]) = prod_list shape"
      by (simp add: map_upt_Suc del: upt_Suc)
    ultimately show ?thesis using "3.prems" by (simp add: mul64_def mult.commute del: upt_Suc)
  next
    case False
    then show ?thesis using "3.IH" "3.prems" by simp
  qed
qed (simp_all add: u64_max_def)

section \<open>The odometer\<close>

lemma length_odometer [simp]: "length (odometer limits a index) = length index"
  by (induction limits a index rule: odometer.induct) (auto simp: Let_def)

lemma odometer_drop: "a \<le> length index \<Longrightarrow> drop a (odometer limits a index) = drop a index"
proof (induction limits a index rule: odometer.induct)
  case (2 limits a index)
  have "drop (Suc a) xs = tl (drop a xs)" for xs :: "nat list" by (simp add: drop_Suc tl_drop)
  then have "drop (Suc a) (odometer limits a (index[a := 0])) = tl (drop a (odometer limits a (index[a := 0])))" .
  moreover have "tl (drop a (index[a := 0])) = drop (Suc a) index"
    by (metis drop_Suc tl_drop drop_update_cancel lessI)
  ultimately show ?case using 2 by (simp add: Let_def)
qed simp

lemma odometer_flat:
  assumes "a \<le> length limits" and "a \<le> length index" and "in_dims (take a limits) (take a index)"
  shows "in_dims (take a limits) (take a (odometer limits a index)) \<and>
     flat (take a limits) (take a (odometer limits a index)) =
       (flat (take a limits) (take a index) + 1) mod prod_list (take a limits)"
  using assms
proof (induction limits a index rule: odometer.induct)
  case (2 limits a index)
  let ?L = "take a limits" and ?I = "take a index" and ?d = "limits ! a" and ?i = "index ! a"
  have a: "a < length limits" "a < length index" using 2 by auto
  have L: "take (Suc a) limits = ?L @ [?d]" "take (Suc a) index = ?I @ [?i]"
    using a by (simp_all add: take_Suc_conv_app_nth)
  have dims: "in_dims ?L ?I" "?i < ?d"
    using "2.prems"(3) a unfolding L in_dims_def by (auto simp: list_all2_append)
  have len: "length ?L = length ?I" using a by simp
  let ?F = "flat ?L ?I" and ?P = "prod_list ?L"
  have F: "?F < ?P" by (rule flat_less [OF dims(1)])
  show ?case
  proof (cases "?i + 1 < ?d")
    case True
    have "?F * ?d + (?i + 1) < ?P * ?d" using rows_index [OF F True] .
    then show ?thesis
      using a True dims len unfolding L
      by (auto simp: Let_def take_Suc_conv_app_nth flat_snoc in_dims_def list_all2_append)
  next
    case False
    then have d: "?d = ?i + 1" using dims by simp
    let ?idx = "index[a := 0]" and ?o = "odometer limits a (index[a := 0])"
    have eq: "odometer limits (Suc a) index = ?o" using a False by (simp add: Let_def)
    have t: "take a ?idx = ?I" by simp
    have IH: "in_dims ?L (take a ?o) \<and> flat ?L (take a ?o) = (?F + 1) mod ?P"
      using "2.IH" [OF refl] a False dims "2.prems" t by simp
    have "?o ! a = ?idx ! a"
      using odometer_drop [of a ?idx limits] a by (metis Cons_nth_drop_Suc length_list_update length_odometer less_imp_le list.inject)
    then have o: "take (Suc a) ?o = take a ?o @ [0]" using a by (simp add: take_Suc_conv_app_nth)
    have "flat (?L @ [?d]) (take a ?o @ [0]) = ((?F + 1) mod ?P) * ?d"
      using IH in_dims_length [of ?L "take a ?o"] by (simp add: flat_snoc)
    also have "\<dots> = ((?F + 1) * ?d) mod (?P * ?d)" by (rule mult_mod_left)
    also have "(?F + 1) * ?d = ?F * ?d + ?i + 1" using d by simp
    finally have "flat (?L @ [?d]) (take a ?o @ [0]) = (?F * ?d + ?i + 1) mod (?P * ?d)" .
    moreover have "in_dims (?L @ [?d]) (take a ?o @ [0])"
      using IH d by (simp add: in_dims_def list_all2_appendI)
    ultimately show ?thesis using len unfolding eq o L by (simp add: flat_snoc)
  qed
qed (simp add: in_dims_def)

section \<open>The walk visits the runs in order\<close>

definition slab_ok :: "hyperslab \<Rightarrow> nat list \<Rightarrow> bool" where
  "slab_ok slab shape \<longleftrightarrow>
     length (start slab) = length shape \<and> length (cnt slab) = length shape \<and>
     (\<forall>a < length shape. start slab ! a + cnt slab ! a \<le> shape ! a)"

lemma validate_axes_Ok:
  "length axes = length shape \<Longrightarrow> (\<forall>d \<in> set shape. d \<le> u64_max) \<Longrightarrow>
   validate_axes axes shape = Inr () \<longleftrightarrow> (\<forall>a < length shape. fst (axes ! a) + snd (axes ! a) \<le> shape ! a)"
proof (induction axes shape rule: list_induct2)
  case (Cons x axes d shape)
  obtain s c where "x = (s, c)" by fastforce
  then show ?case using Cons by (auto simp: checked_add_def All_less_Suc2)
qed simp

lemma validate_Ok:
  "(\<forall>d \<in> set shape. d \<le> u64_max) \<Longrightarrow> validate slab shape = Inr () \<longleftrightarrow> slab_ok slab shape"
  using validate_axes_Ok [of "zip (start slab) (cnt slab)" shape] by (auto simp: validate_def slab_ok_def)

definition dot :: "nat list \<Rightarrow> nat list \<Rightarrow> nat" where
  "dot xs ys = sum_list (map2 (*) xs ys)"

lemma dot_Cons [simp]: "dot (x # xs) (y # ys) = x * y + dot xs ys"
  by (simp add: dot_def)

lemma dot_Nil [simp]: "dot [] ys = 0" "dot xs [] = 0"
  by (simp_all add: dot_def)

lemma dot_append: "length xs = length us \<Longrightarrow> dot (xs @ ys) (us @ vs) = dot xs us + dot ys vs"
  by (simp add: dot_def)

lemma dot_zeros: "dot (replicate n 0) ys = 0"
proof (induction n arbitrary: ys)
  case (Suc n)
  then show ?case by (cases ys) simp_all
qed simp

abbreviation stride_list :: "nat list \<Rightarrow> nat list" where
  "stride_list ds \<equiv> map (\<lambda>a. prod_list (drop (Suc a) ds)) [0..<length ds]"

lemma stride_list_Cons: "stride_list (d # ds) = prod_list ds # stride_list ds"
  by (simp add: map_upt_Suc del: upt_Suc)

lemma dot_strides: "length idx = length ds \<Longrightarrow> dot idx (stride_list ds) = flat ds idx"
proof (induction ds arbitrary: idx)
  case (Cons d ds)
  then obtain i "is" where "idx = i # is" "length is = length ds" by (cases idx) auto
  then show ?case using Cons.IH unfolding stride_list_Cons by (simp add: flat_Cons)
qed simp

lemma run_offsets_eq:
  "length st = length index \<Longrightarrow> length ss = length index \<Longrightarrow> length ds = length index \<Longrightarrow>
   (\<forall>x \<in> set ss. 0 < x) \<Longrightarrow> src + dot (map2 (+) st index) ss \<le> u64_max \<Longrightarrow> dst + dot index ds \<le> u64_max \<Longrightarrow>
   run_offsets st index ss ds (src, dst) = Ok (src + dot (map2 (+) st index) ss, dst + dot index ds)"
proof (induction st index ss ds "(src, dst)" arbitrary: src dst rule: run_offsets.induct)
  case (1 s st i index ss sss ds dss src dst)
  have "s + i \<le> (s + i) * ss" using "1.prems"(4) by simp
  moreover have "src + (s + i) * ss + dot (map2 (+) st index) sss \<le> u64_max" using "1.prems"(5) by simp
  moreover have "dst + i * ds + dot index dss \<le> u64_max" using "1.prems"(6) by simp
  ultimately have "s + i \<le> u64_max" "(s + i) * ss \<le> u64_max" "src + (s + i) * ss \<le> u64_max"
    "i * ds \<le> u64_max" "dst + i * ds \<le> u64_max" by linarith+
  then show ?case using 1 by (simp add: add64_def mul64_def add.assoc)
qed auto

fun visit_all :: "(nat \<Rightarrow> nat \<Rightarrow> nat \<Rightarrow> 's \<Rightarrow> 's result) \<Rightarrow> (nat \<times> nat \<times> nat) list \<Rightarrow> 's \<Rightarrow> 's result" where
  "visit_all visit [] st = Ok st"
| "visit_all visit ((src, dst, run) # rest) st = and_then (visit src dst run st) (visit_all visit rest)"

definition outer_index :: "hyperslab \<Rightarrow> nat \<Rightarrow> nat \<Rightarrow> nat list" where
  "outer_index slab first k = (odometer (cnt slab) first ^^ k) (replicate first 0)"

definition run_coords :: "hyperslab \<Rightarrow> nat \<Rightarrow> nat list \<Rightarrow> nat list" where
  "run_coords slab first index =
     map2 (+) (take first (start slab)) index @
     (start slab ! first # replicate (length (start slab) - Suc first) 0)"

lemma in_dims_nth: "in_dims ds idx \<longleftrightarrow> length idx = length ds \<and> (\<forall>a < length ds. idx ! a < ds ! a)"
  by (auto simp: in_dims_def list_all2_conv_all_nth)

lemma grow_run_le: "grow_run slab shape n \<le> n"
  by (induction slab shape n rule: grow_run.induct) auto

lemma grow_run_full:
  "grow_run slab shape n < a \<Longrightarrow> a \<le> n \<Longrightarrow> start slab ! a = 0 \<and> cnt slab ! a = shape ! a"
proof (induction slab shape n rule: grow_run.induct)
  case (2 slab shape n)
  then show ?case by (cases "a = Suc n") (auto split: if_splits)
qed auto

lemma outer_index_flat:
  assumes "first \<le> length (cnt slab)" and pos: "\<forall>c \<in> set (cnt slab). 0 < c"
    and "k < prod_list (take first (cnt slab))"
  shows "in_dims (take first (cnt slab)) (outer_index slab first k)
    \<and> flat (take first (cnt slab)) (outer_index slab first k) = k"
  using assms(3)
proof (induction k)
  case 0
  have "in_dims (take first (cnt slab)) (replicate first 0)"
    using assms(1) pos by (auto simp: in_dims_nth)
  moreover have "flat (take first (cnt slab)) (replicate first 0) = 0"
    using flat_zeros [of "take first (cnt slab)"] assms(1) by (simp add: min_absorb2)
  ultimately show ?case by (simp add: outer_index_def)
next
  case (Suc k)
  let ?i = "outer_index slab first k" and ?L = "take first (cnt slab)"
  have IH: "in_dims ?L ?i" "flat ?L ?i = k" using Suc by auto
  have len: "length ?i = first" using in_dims_length [OF IH(1)] assms(1) by simp
  have "odometer (cnt slab) first ?i = outer_index slab first (Suc k)" by (simp add: outer_index_def)
  moreover have "take first (odometer (cnt slab) first ?i) = odometer (cnt slab) first ?i" using len by simp
  ultimately show ?case
    using odometer_flat [of first "cnt slab" ?i] IH len assms(1) Suc.prems by simp
qed

lemma map2_zeros: "length xs = n \<Longrightarrow> map2 (+) (replicate n 0) xs = (xs :: nat list)"
  by (induction n arbitrary: xs) (auto simp: length_Suc_conv)

lemma flat_run_lists:
  assumes "length P = length SA" and "length SA = length index" and "length T = length sub"
  shows "flat (P @ d # T) (map2 (+) (SA @ s # replicate (length T) 0) (index @ s0 # sub)) =
    flat (P @ d # T) (map2 (+) SA index @ s # replicate (length T) 0) + flat (c # T) (s0 # sub)"
proof -
  have "map2 (+) (SA @ s # replicate (length T) 0) (index @ s0 # sub) = map2 (+) SA index @ (s + s0) # sub"
    using assms map2_zeros [of sub "length T"] by simp
  moreover have "length (map2 (+) SA index) = length P" using assms by simp
  ultimately show ?thesis
    using assms flat_zeros [of T] by (simp add: flat_append flat_Cons algebra_simps)
qed

text \<open>Runs that tile the output one after the other leave the concatenation of their bytes.\<close>

lemma copy_into_step:
  assumes "(k + 1) * len \<le> length out" and "length out \<le> isize_max" and "length bs = len"
  shows "copy_into out (k * len) len bs = Ok (take (k * len) out @ bs @ drop ((k + 1) * len) out)"
  using assms by (simp add: copy_into_def add64_def isize_max_def u64_max_def add.commute)

lemma visit_all_copy:
  assumes visit: "\<And>k out. k < K \<Longrightarrow> length out = K * len \<Longrightarrow>
      visit (s k) (k * run) run out = copy_into out (k * len) len (f k)"
    and len: "\<And>k. k < K \<Longrightarrow> length (f k) = len" and small: "K * len \<le> isize_max"
  shows "m + n \<le> K \<Longrightarrow> length out = K * len \<Longrightarrow>
    visit_all visit (map (\<lambda>k. (s k, k * run, run)) [m..<m + n]) out =
    Ok (take (m * len) out @ concat (map f [m..<m + n]) @ drop ((m + n) * len) out)"
proof (induction n arbitrary: m out)
  case (Suc n)
  let ?out = "take (m * len) out @ f m @ drop ((m + 1) * len) out"
  have m: "m < K" "(m + 1) * len \<le> K * len" using Suc.prems(1) by (simp, intro mult_le_mono1, simp)
  have step: "visit (s m) (m * run) run out = Ok ?out"
    using visit [OF m(1) Suc.prems(2)] copy_into_step [of m len out "f m"] m len [OF m(1)] Suc.prems(2) small
    by simp
  have le: "m * len \<le> length out" using m Suc.prems(2) by simp
  have l: "length ?out = K * len" using m len [OF m(1)] le Suc.prems(2) by simp
  have upt: "[m..<m + Suc n] = m # [Suc m..<Suc m + n]" by (simp add: upt_rec)
  have t: "take (Suc m * len) ?out = take (m * len) out @ f m"
    using le len [OF m(1)] by simp
  have d: "drop ((Suc m + n) * len) ?out = drop ((m + Suc n) * len) out"
    using le len [OF m(1)] by (simp add: algebra_simps)
  have "visit_all visit (map (\<lambda>k. (s k, k * run, run)) [Suc m..<Suc m + n]) ?out =
      Ok (take (Suc m * len) ?out @ concat (map f [Suc m..<Suc m + n]) @ drop ((Suc m + n) * len) ?out)"
    using Suc.IH [of "Suc m" ?out] Suc.prems(1) l by simp
  then show ?case unfolding upt t d using step by simp
qed simp

text \<open>
  A non-empty valid selection of a shape whose size fits in \<open>u64\<close>, walked in runs that take the
  axis \<open>first\<close> and, whole, every axis behind it: the setting of every read.
\<close>

locale slab_walk =
  fixes shape :: "nat list" and slab :: hyperslab and first :: nat
  assumes ok: "slab_ok slab shape" and pos: "\<forall>c \<in> set (cnt slab). 0 < c"
    and fits: "prod_list shape \<le> u64_max" and first_less: "first < length shape"
    and whole_axes: "\<And>a. first < a \<Longrightarrow> a < length shape \<Longrightarrow> start slab ! a = 0 \<and> cnt slab ! a = shape ! a"
begin

abbreviation run :: nat where
  "run \<equiv> prod_list (drop first (cnt slab))"

abbreviation outer :: nat where
  "outer \<equiv> prod_list (take first (cnt slab))"

abbreviation src_of :: "nat \<Rightarrow> nat" where
  "src_of k \<equiv> flat shape (run_coords slab first (outer_index slab first k))"

lemma lengths: "length (start slab) = length shape" "length (cnt slab) = length shape"
  using ok by (simp_all add: slab_ok_def)

lemma cnt_pos: "a < length shape \<Longrightarrow> 0 < cnt slab ! a"
  using pos lengths by (metis nth_mem)

lemma shape_pos: "\<forall>d \<in> set shape. 0 < d"
proof
  fix d assume "d \<in> set shape"
  then obtain a where a: "a < length shape" "d = shape ! a" by (auto simp: in_set_conv_nth)
  then have "start slab ! a + cnt slab ! a \<le> d" using ok by (simp add: slab_ok_def)
  then show "0 < d" using cnt_pos [OF a(1)] by simp
qed

lemma cnt_le: "prod_list (cnt slab) \<le> prod_list shape"
proof -
  have "list_all2 (\<le>) (cnt slab) shape"
    using ok by (auto simp: slab_ok_def list_all2_conv_all_nth)
  then show ?thesis by (induction rule: list_all2_induct) (auto intro: mult_le_mono)
qed

lemma prod_split: "outer * run = prod_list (cnt slab)"
  by (simp flip: prod_list.append)

lemma coords_in_dims:
  assumes "in_dims (take first (cnt slab)) index"
  shows "in_dims shape (run_coords slab first index)"
proof -
  have len: "length index = first" using in_dims_length [OF assms] first_less lengths by simp
  have "run_coords slab first index ! a < shape ! a" if a: "a < length shape" for a
  proof -
    consider "a < first" | "a = first" | "first < a" by linarith
    then show ?thesis
    proof cases
      case 1
      then have "index ! a < cnt slab ! a" using assms a lengths by (simp add: in_dims_nth)
      then have "start slab ! a + index ! a < shape ! a" using ok a by (fastforce simp: slab_ok_def)
      then show ?thesis using 1 len lengths first_less by (simp add: run_coords_def nth_append)
    next
      case 2
      have "start slab ! a + cnt slab ! a \<le> shape ! a" using ok a by (simp add: slab_ok_def)
      then show ?thesis
        using 2 len lengths first_less cnt_pos [OF a] by (simp add: run_coords_def nth_append)
    next
      case 3
      then show ?thesis
        using a len lengths shape_pos by (simp add: run_coords_def nth_append nth_Cons split: nat.splits)
    qed
  qed
  then show ?thesis using len lengths first_less by (simp add: in_dims_nth run_coords_def)
qed

lemma strides_ok:
  "strides shape = Ok (stride_list shape)" "strides (cnt slab) = Ok (stride_list (cnt slab))"
proof -
  have "prod_list (tl shape) \<le> u64_max"
    using prod_list_drop_le [OF shape_pos, of 1] fits by (simp add: drop_Suc)
  then show "strides shape = Ok (stride_list shape)" by (intro strides_eq shape_pos)
  have "prod_list (tl (cnt slab)) \<le> u64_max"
    using prod_list_drop_le [OF pos, of 1] cnt_le fits by (simp add: drop_Suc)
  then show "strides (cnt slab) = Ok (stride_list (cnt slab))" by (intro strides_eq pos)
qed

lemma src_of_dot:
  assumes "length index = first"
  shows "flat shape (run_coords slab first index) =
    dot (map2 (+) (take first (start slab)) index) (take first (stride_list shape))
      + start slab ! first * (stride_list shape ! first)"
proof -
  let ?S = "stride_list shape" and ?xs = "map2 (+) (take first (start slab)) index"
  have l: "length ?xs = first" "length (run_coords slab first index) = length shape"
    using assms lengths first_less by (simp_all add: run_coords_def)
  have "?S = take first ?S @ ?S ! first # drop (Suc first) ?S"
    by (rule id_take_nth_drop) (use first_less in simp)
  then have "dot (run_coords slab first index) ?S =
      dot (run_coords slab first index) (take first ?S @ ?S ! first # drop (Suc first) ?S)" by simp
  also have "\<dots> = dot ?xs (take first ?S) + start slab ! first * (?S ! first)"
    unfolding run_coords_def using l first_less by (subst dot_append) (simp_all add: dot_zeros)
  finally show ?thesis using dot_strides [OF l(2)] by simp
qed

lemma dst_of_dot:
  assumes "length index = first"
  shows "dot index (take first (stride_list (cnt slab))) = flat (take first (cnt slab)) index * run"
proof -
  let ?S = "stride_list (cnt slab)" and ?z = "replicate (length shape - first) 0"
  have f: "first \<le> length shape" using first_less by simp
  have "dot (index @ ?z) (take first ?S @ drop first ?S) = dot index (take first ?S) + dot ?z (drop first ?S)"
    using assms lengths f by (intro dot_append) simp
  then have "dot index (take first ?S) = dot (index @ ?z) ?S" by (simp add: dot_zeros)
  also have "\<dots> = flat (cnt slab) (index @ ?z)" using assms lengths f by (intro dot_strides) simp
  also have "\<dots> = flat (take first (cnt slab) @ drop first (cnt slab)) (index @ ?z)" by simp
  also have "\<dots> = flat (take first (cnt slab)) index * run + flat (drop first (cnt slab)) ?z"
    using assms lengths f by (intro flat_append) simp_all
  also have "flat (drop first (cnt slab)) ?z = 0"
    using flat_zeros [of "drop first (cnt slab)"] lengths by simp
  finally show ?thesis by simp
qed

lemma run_offsets_walk:
  assumes m: "m < outer" and d: "d0 + m * run \<le> u64_max"
  shows "run_offsets (take first (start slab)) (outer_index slab first m) (take first (stride_list shape))
      (take first (stride_list (cnt slab))) (0, d0) =
      Ok (src_of m - start slab ! first * (stride_list shape ! first), d0 + m * run)"
    and "start slab ! first * (stride_list shape ! first) \<le> src_of m" and "src_of m \<le> u64_max"
proof -
  let ?i = "outer_index slab first m" and ?S = "stride_list shape" and ?D = "stride_list (cnt slab)"
  have f: "first \<le> length (cnt slab)" using first_less lengths by simp
  have i: "in_dims (take first (cnt slab)) ?i" "flat (take first (cnt slab)) ?i = m"
    using outer_index_flat [OF f pos m] by auto
  have len: "length ?i = first" using in_dims_length [OF i(1)] f by simp
  have src: "src_of m = dot (map2 (+) (take first (start slab)) ?i) (take first ?S)
      + start slab ! first * (?S ! first)" by (rule src_of_dot [OF len])
  show le: "src_of m \<le> u64_max" using flat_less [OF coords_in_dims [OF i(1)]] fits by simp
  show "start slab ! first * (?S ! first) \<le> src_of m" using src by simp
  have dst: "dot ?i (take first ?D) = m * run" using dst_of_dot [OF len] i(2) by simp
  have "0 < x" if x: "x \<in> set (take first ?S)" for x
  proof -
    obtain a where "x = prod_list (drop (Suc a) shape)" using in_set_takeD [OF x] by auto
    moreover have "\<forall>d \<in> set (drop (Suc a) shape). 0 < d" using shape_pos in_set_dropD by fast
    ultimately show ?thesis using prod_list_pos by simp
  qed
  then show "run_offsets (take first (start slab)) ?i (take first ?S) (take first ?D) (0, d0) =
      Ok (src_of m - start slab ! first * (?S ! first), d0 + m * run)"
    using run_offsets_eq [of "take first (start slab)" ?i "take first ?S" "take first ?D" 0 d0]
      len lengths first_less src le dst d by simp
qed

lemma run_loop_eq:
  "m + n \<le> outer \<Longrightarrow>
   run_loop n slab (stride_list shape) (stride_list (cnt slab)) first run visit (outer_index slab first m) st =
   visit_all visit (map (\<lambda>k. (src_of k, k * run, run)) [m..<m + n]) st"
proof (induction n arbitrary: m st)
  case (Suc n)
  let ?S = "stride_list shape" and ?D = "stride_list (cnt slab)"
  have m: "m < outer" using Suc.prems by simp
  have "m * run \<le> outer * run" using m by (intro mult_le_mono1) simp
  then have dle: "0 + m * run \<le> u64_max" using prod_split cnt_le fits by linarith
  note off = run_offsets_walk [OF m dle]
  have mul: "mul64 (start slab ! first) (?S ! first) = Ok (start slab ! first * (?S ! first))"
    using off(2,3) by (simp add: mul64_def)
  have add: "add64 (src_of m - start slab ! first * (?S ! first)) (start slab ! first * (?S ! first)) = Ok (src_of m)"
    using off(2,3) by (simp add: add64_def)
  have upt: "[m..<m + Suc n] = m # [Suc m..<Suc m + n]" by (simp add: upt_rec)
  have nxt: "odometer (cnt slab) first (outer_index slab first m) = outer_index slab first (Suc m)" by (simp add: outer_index_def)
  have IH: "run_loop n slab ?S ?D first run visit (outer_index slab first (Suc m)) =
      visit_all visit (map (\<lambda>k. (src_of k, k * run, run)) [Suc m..<Suc m + n])"
    by (rule ext, rule Suc.IH) (use Suc.prems in simp)
  show ?case
    unfolding upt run_loop.simps off(1) and_then.simps prod.case mul add nxt IH list.map visit_all.simps add_0 ..
qed simp

text \<open>Behind the first axis of the run the selection takes whole axes.\<close>

lemma tail_full:
  "drop (Suc first) (cnt slab) = drop (Suc first) shape"
  "drop (Suc first) (start slab) = replicate (length shape - Suc first) 0"
proof -
  show "drop (Suc first) (cnt slab) = drop (Suc first) shape"
    "drop (Suc first) (start slab) = replicate (length shape - Suc first) 0"
    using lengths whole_axes by (auto intro!: nth_equalityI)
qed

lemma flat_run:
  assumes index: "length index = first" and sub: "length sub = length shape - first"
  shows "flat shape (map2 (+) (start slab) (index @ sub)) =
    flat shape (run_coords slab first index) + flat (drop first (cnt slab)) sub"
proof -
  define f where "f = first"
  have f: "f < length shape" "length index = f" using first_less index by (simp_all add: f_def)
  obtain s0 sub' where s: "sub = s0 # sub'" "length sub' = length shape - Suc f"
    using sub first_less by (cases sub) (auto simp: f_def)
  have shape: "take f shape @ shape ! f # drop (Suc f) shape = shape"
    using id_take_nth_drop [OF f(1)] by simp
  have cnt: "cnt slab ! f # drop (Suc f) shape = drop f (cnt slab)"
    using Cons_nth_drop_Suc [of f "cnt slab"] f lengths tail_full(1) by (simp add: f_def)
  have n: "length (drop (Suc f) shape) = length shape - Suc f" by simp
  have st: "take f (start slab) @ start slab ! f # replicate (length shape - Suc f) 0 = start slab"
    using id_take_nth_drop [of f "start slab"] f lengths tail_full(2) by (simp add: f_def)
  have co: "map2 (+) (take f (start slab)) index @ start slab ! f # replicate (length shape - Suc f) 0 =
      run_coords slab f index"
    using lengths by (simp add: run_coords_def)
  have "flat shape (map2 (+) (start slab) (index @ s0 # sub')) =
      flat shape (run_coords slab f index) + flat (drop f (cnt slab)) (s0 # sub')"
    using flat_run_lists [of "take f shape" "take f (start slab)" index "drop (Suc f) shape" sub' "shape ! f"
        "start slab ! f" s0 "cnt slab ! f"] f lengths s
    unfolding n shape cnt st co by simp
  then show ?thesis unfolding f_def s(1) .
qed

lemma flat_last: "(\<forall>c \<in> set ds. 0 < c) \<Longrightarrow> flat ds (map (\<lambda>c. c - 1) ds) = prod_list ds - 1"
proof (induction ds)
  case (Cons d ds)
  have "0 < prod_list ds" using Cons.prems prod_list_pos by simp
  then have "(d - 1) * prod_list ds + (prod_list ds - 1) = d * prod_list ds - 1"
    using Cons.prems by (cases d) auto
  then show ?case using Cons by (simp add: flat_Cons)
qed simp

lemma in_dims_add:
  assumes "in_dims (cnt slab) idx"
  shows "in_dims shape (map2 (+) (start slab) idx)"
proof -
  have "start slab ! a + idx ! a < shape ! a" if "a < length shape" for a
    using assms ok that by (fastforce simp: in_dims_nth slab_ok_def)
  then show ?thesis using assms lengths by (simp add: in_dims_nth)
qed

lemma src_of_bound:
  assumes "k < outer"
  shows "src_of k + run \<le> prod_list shape"
proof -
  let ?i = "outer_index slab first k" and ?sub = "map (\<lambda>c. c - 1) (drop first (cnt slab))"
  have f: "first \<le> length (cnt slab)" using first_less lengths by simp
  have i: "in_dims (take first (cnt slab)) ?i" using outer_index_flat [OF f pos assms] by simp
  have len: "length ?i = first" using in_dims_length [OF i] f by simp
  have sub: "in_dims (drop first (cnt slab)) ?sub"
    using pos lengths by (auto simp: in_dims_nth dest: cnt_pos)
  have "in_dims (take first (cnt slab) @ drop first (cnt slab)) (?i @ ?sub)"
    using i sub unfolding in_dims_def by (rule list_all2_appendI)
  then have "flat shape (map2 (+) (start slab) (?i @ ?sub)) < prod_list shape"
    using flat_less [OF in_dims_add] by simp
  moreover have "flat (drop first (cnt slab)) ?sub = run - 1"
    by (rule flat_last) (use pos in \<open>auto dest: in_set_dropD\<close>)
  moreover have "0 < run" using prod_list_pos [OF pos] prod_split by (metis gr0I mult_0_right)
  moreover have "flat shape (map2 (+) (start slab) (?i @ ?sub)) = src_of k + flat (drop first (cnt slab)) ?sub"
    by (rule flat_run [OF len]) (use lengths in simp)
  ultimately show ?thesis by linarith
qed

lemma copied_runs:
  assumes visit: "\<And>k out. k < outer \<Longrightarrow> length out = outer * (run * es) \<Longrightarrow>
      visit (src_of k) (k * run) run out = copy_into out (k * (run * es)) (run * es) (f k)"
    and len: "\<And>k. k < outer \<Longrightarrow> length (f k) = run * es"
    and out: "length out = prod_list (cnt slab) * es" "length out \<le> isize_max"
  shows "visit_all visit (map (\<lambda>k. (src_of k, k * run, run)) [0..<outer]) out = Ok (concat (map f [0..<outer]))"
proof -
  have l: "length out = outer * (run * es)" using out(1) prod_split by (simp add: mult.assoc)
  have "visit_all visit (map (\<lambda>k. (src_of k, k * run, run)) [0..<0 + outer]) out =
      Ok (take (0 * (run * es)) out @ concat (map f [0..<0 + outer]) @ drop ((0 + outer) * (run * es)) out)"
    by (rule visit_all_copy [where K = outer]) (use visit len l out in auto)
  then show ?thesis using l by simp
qed

lemma nth_copied_runs:
  assumes len: "\<And>k. k < outer \<Longrightarrow> length (f k) = run * es"
    and f: "\<And>k j. k < outer \<Longrightarrow> j < run * es \<Longrightarrow> f k ! j = g (src_of k * es + j)"
    and idx: "in_dims (cnt slab) idx" and b: "b < es"
  shows "concat (map f [0..<outer]) ! (flat (cnt slab) idx * es + b) =
    g (flat shape (map2 (+) (start slab) idx) * es + b)"
proof -
  let ?i = "take first idx" and ?sub = "drop first idx"
  let ?k = "flat (take first (cnt slab)) ?i" and ?j = "flat (drop first (cnt slab)) ?sub"
  have fl: "first \<le> length (cnt slab)" "length idx = length (cnt slab)"
    using first_less lengths in_dims_length [OF idx] by auto
  have i: "in_dims (take first (cnt slab)) ?i" "in_dims (drop first (cnt slab)) ?sub"
    using idx by (auto simp: in_dims_nth)
  have k: "?k < outer" "?j < run" using flat_less i by auto
  have "outer_index slab first ?k = ?i"
    using outer_index_flat [OF fl(1) pos k(1)] i(1) flat_inj by blast
  then have src: "src_of ?k + ?j = flat shape (map2 (+) (start slab) idx)"
    using flat_run [of ?i ?sub] fl lengths by simp
  have "flat (take first (cnt slab) @ drop first (cnt slab)) (?i @ ?sub) = ?k * run + ?j"
    by (rule flat_append) (use fl in simp_all)
  then have pos: "flat (cnt slab) idx * es + b = ?k * (run * es) + (?j * es + b)"
    by (simp add: algebra_simps)
  have jb: "?j * es + b < run * es" by (rule rows_index [OF k(2) b])
  have rows: "concat (map f [0..<outer]) = rows outer (run * es) (\<lambda>k j. f k ! j)"
    using len by (rule concat_rows)
  have "concat (map f [0..<outer]) ! (flat (cnt slab) idx * es + b) = f ?k ! (?j * es + b)"
    unfolding pos rows by (rule rows_nth [OF k(1) jb])
  also have "\<dots> = g (src_of ?k * es + (?j * es + b))" by (rule f [OF k(1) jb])
  also have "src_of ?k * es + (?j * es + b) = flat shape (map2 (+) (start slab) idx) * es + b"
    unfolding src [symmetric] by (simp add: algebra_simps)
  finally show ?thesis .
qed

text \<open>A visitor that copies the run's bytes from a linear source, wherever those come from.\<close>

lemma dense_copy:
  assumes visit: "\<And>k out. k < outer \<Longrightarrow> length out = outer * (run * es) \<Longrightarrow>
      visit (src_of k) (k * run) run out =
        copy_into out (k * (run * es)) (run * es) (slice (base + src_of k * es) (run * es) data)"
    and src: "base + prod_list shape * es \<le> length data"
    and out: "length out = prod_list (cnt slab) * es" "length out \<le> isize_max"
  shows "\<exists>out'. visit_all visit (map (\<lambda>k. (src_of k, k * run, run)) [0..<outer]) out = Ok out' \<and> length out' = length out
    \<and> (\<forall>idx b. in_dims (cnt slab) idx \<longrightarrow> b < es \<longrightarrow>
         out' ! (flat (cnt slab) idx * es + b) =
         data ! (base + flat shape (map2 (+) (start slab) idx) * es + b))"
proof -
  let ?f = "\<lambda>k. slice (base + src_of k * es) (run * es) data"
  have room: "base + src_of k * es + run * es \<le> length data" if "k < outer" for k
  proof -
    have "(src_of k + run) * es \<le> prod_list shape * es" using src_of_bound [OF that] by (rule mult_le_mono1)
    then show ?thesis using src unfolding distrib_right by linarith
  qed
  have len: "length (?f k) = run * es" if "k < outer" for k using room [OF that] by simp
  have "visit_all visit (map (\<lambda>k. (src_of k, k * run, run)) [0..<outer]) out = Ok (concat (map ?f [0..<outer]))"
    by (rule copied_runs [where es = es]) (use visit len out in auto)
  moreover have "length (concat (map ?f [0..<outer])) = length out"
  proof -
    have "concat (map ?f [0..<outer]) = rows outer (run * es) (\<lambda>k j. ?f k ! j)"
      by (rule concat_rows) (rule len)
    then have "length (concat (map ?f [0..<outer])) = outer * (run * es)" by (simp only: length_rows)
    also have "\<dots> = length out" unfolding out(1) mult.assoc [symmetric] prod_split ..
    finally show ?thesis .
  qed
  moreover have "concat (map ?f [0..<outer]) ! (flat (cnt slab) idx * es + b) =
      data ! (base + flat shape (map2 (+) (start slab) idx) * es + b)"
    if "in_dims (cnt slab) idx" "b < es" for idx b
  proof -
    have "?f k ! j = data ! (base + (src_of k * es + j))" if "k < outer" "j < run * es" for k j
    proof -
      have "base + src_of k * es + j < length data" using room [OF that(1)] that(2) by linarith
      from nth_slice [OF that(2) this] show ?thesis by (simp only: add.assoc)
    qed
    from nth_copied_runs [of ?f es "\<lambda>j. data ! (base + j)" idx b, OF len this that]
    show ?thesis by (simp only: add.assoc)
  qed
  ultimately show ?thesis by blast
qed

lemma slab_copy_walk:
  assumes src: "base + prod_list shape * es \<le> length data"
    and out: "length out = prod_list (cnt slab) * es" "length out \<le> isize_max"
    and visit: "\<And>s d run out. s + run \<le> prod_list shape \<Longrightarrow> d * es + run * es \<le> length out \<Longrightarrow>
      length out = prod_list (cnt slab) * es \<Longrightarrow>
      visit s d run out = copy_into out (d * es) (run * es) (slice (base + s * es) (run * es) data)"
  shows "\<exists>out'. visit_all visit (map (\<lambda>k. (src_of k, k * run, run)) [0..<outer]) out = Ok out' \<and> length out' = length out
    \<and> (\<forall>idx b. in_dims (cnt slab) idx \<longrightarrow> b < es \<longrightarrow>
         out' ! (flat (cnt slab) idx * es + b) =
         data ! (base + flat shape (map2 (+) (start slab) idx) * es + b))"
proof (rule dense_copy [OF _ src out])
  fix k and out :: bytes
  assume k: "k < outer" and l: "length out = outer * (run * es)"
  have "k * run * es + run * es = (k + 1) * (run * es)" by (simp add: mult.assoc)
  also have "\<dots> \<le> outer * (run * es)" using k by (intro mult_le_mono1) simp
  finally have "k * run * es + run * es \<le> length out" using l by simp
  moreover have "length out = prod_list (cnt slab) * es" using l prod_split by (simp add: mult.assoc)
  ultimately have "visit (src_of k) (k * run) run out =
      copy_into out (k * run * es) (run * es) (slice (base + src_of k * es) (run * es) data)"
    using visit [OF src_of_bound [OF k], of "k * run" out] by simp
  then show "visit (src_of k) (k * run) run out =
      copy_into out (k * (run * es)) (run * es) (slice (base + src_of k * es) (run * es) data)"
    by (simp add: mult.assoc)
qed

end

text \<open>The walk of \<open>for_each_run\<close>, whose runs grow over the trailing axes taken whole.\<close>

locale grown_walk =
  fixes shape :: "nat list" and slab :: hyperslab
  assumes grown_ok: "slab_ok slab shape" and grown_pos: "\<forall>c \<in> set (cnt slab). 0 < c"
    and rank: "0 < length shape" and grown_fits: "prod_list shape \<le> u64_max"
begin

lemma grown_first_less: "grow_run slab shape (length shape - 1) < length shape"
  by (rule le_less_trans [OF grow_run_le]) (use rank in simp)

end

sublocale grown_walk \<subseteq> slab_walk shape slab "grow_run slab shape (length shape - 1)"
  by unfold_locales
    (use grown_ok grown_pos grown_fits grown_first_less grow_run_full [of slab shape "length shape - 1"] in auto)

context grown_walk begin

abbreviation first :: nat where
  "first \<equiv> grow_run slab shape (length shape - 1)"

lemma grown_slab_walk: "slab_walk shape slab first"
  by (rule slab_walk_axioms)

lemma for_each_run_eq:
  "for_each_run shape slab visit st = visit_all visit (map (\<lambda>k. (src_of k, k * run, run)) [0..<outer]) st"
proof -
  have p: "prod_list (cnt slab) \<noteq> 0" using prod_list_pos [OF pos] by simp
  have le: "outer \<le> u64_max" "run \<le> u64_max" "run \<noteq> 0"
  proof -
    have "0 < outer" "0 < run" using p prod_split by (metis gr0I mult_0 mult_0_right)+
    moreover from this have "outer \<le> outer * run" "run \<le> outer * run" by simp_all
    ultimately show "outer \<le> u64_max" "run \<le> u64_max" "run \<noteq> 0"
      using prod_split cnt_le fits by linarith+
  qed
  have e: "element_count (cnt slab) \<noteq> 0" "element_count (drop first (cnt slab)) = run"
    "element_count (take first (cnt slab)) = outer"
    using p le by (simp_all add: element_count_eq u64_max_def)
  have "for_each_run shape slab visit st =
      run_loop outer slab (stride_list shape) (stride_list (cnt slab)) first run visit (replicate first 0) st"
    unfolding for_each_run_def Let_def strides_ok and_then.simps e using e(1) le(3) rank by auto
  also have "replicate first 0 = outer_index slab first 0" by (simp add: outer_index_def)
  finally show ?thesis using run_loop_eq [of 0 outer visit st] by simp
qed

end

text \<open>The selection of a whole dataset, for every shape whose size is representable.\<close>

definition sane_shape :: "nat list \<Rightarrow> nat list" where
  "sane_shape shape = (if shape \<noteq> [] \<and> 0 \<notin> set shape \<and> prod_list shape \<le> u64_max then shape else [1])"

interpretation whole: grown_walk "sane_shape shape" "hyperslab_all (sane_shape shape)" for shape
  by unfold_locales
    (auto simp: sane_shape_def hyperslab_all_def slab_ok_def u64_max_def intro!: gr0I)

lemma whole_first: "grow_run (hyperslab_all shape) shape n = 0" if "n < length shape"
  using that by (induction n) (auto simp: hyperslab_all_def)

lemma slab_cnt_le:
  assumes "slab_ok slab shape"
  shows "prod_list (cnt slab) \<le> prod_list shape"
proof -
  have "list_all2 (\<le>) (cnt slab) shape"
    using assms by (auto simp: slab_ok_def list_all2_conv_all_nth)
  then show ?thesis by (induction rule: list_all2_induct) (auto intro: mult_le_mono)
qed

lemma slab_copy:
  assumes ok: "slab_ok slab shape" and fits: "prod_list shape \<le> u64_max"
    and src: "base + prod_list shape * es \<le> length data" and small: "length data \<le> isize_max"
    and out: "length out = prod_list (cnt slab) * es"
    and visit: "\<And>s d run out. s + run \<le> prod_list shape \<Longrightarrow> d * es + run * es \<le> length out \<Longrightarrow>
      length out = prod_list (cnt slab) * es \<Longrightarrow>
      visit s d run out = copy_into out (d * es) (run * es) (slice (base + s * es) (run * es) data)"
  shows "\<exists>out'. for_each_run shape slab visit out = Ok out' \<and> length out' = length out
    \<and> (\<forall>idx b. in_dims (cnt slab) idx \<longrightarrow> b < es \<longrightarrow>
         out' ! (flat (cnt slab) idx * es + b) =
         data ! (base + flat shape (map2 (+) (start slab) idx) * es + b))"
proof -
  have "prod_list (cnt slab) * es \<le> prod_list shape * es" using slab_cnt_le [OF ok] by (rule mult_le_mono1)
  then have osmall: "length out \<le> isize_max" using out src small by linarith
  show ?thesis
  proof (cases "shape = []")
    case True
    then have "cnt slab = []" "start slab = []" using ok by (auto simp: slab_ok_def)
    then show ?thesis
      using True visit [of 0 1 0 out] out src osmall
      by (auto simp: for_each_run_def copy_into_def add64_def isize_max_def u64_max_def in_dims_def)
  next
    case False
    show ?thesis
    proof (cases "0 \<in> set (cnt slab)")
      case True
      then have "prod_list (cnt slab) = 0" by (simp add: prod_list_zero)
      moreover have "\<not> in_dims (cnt slab) idx" for idx using flat_less calculation by force
      ultimately show ?thesis
        using False by (auto simp: for_each_run_def element_count_eq)
    next
      case pos: False
      have w: "grown_walk shape slab"
        by unfold_locales (use ok fits False pos in \<open>auto intro!: gr0I\<close>)
      have "slab_walk shape slab (grow_run slab shape (length shape - 1))"
        by (rule grown_walk.grown_slab_walk [OF w])
      then show ?thesis unfolding grown_walk.for_each_run_eq [OF w]
        by (rule slab_walk.slab_copy_walk [OF _ src out osmall]) (rule visit)
    qed
  qed
qed

lemma run_fits:
  assumes "s + run \<le> (n :: nat)" and "base + n * es \<le> m" and "m \<le> isize_max"
  shows "s * es \<le> isize_max" and "run * es \<le> isize_max" and "base + s * es + run * es \<le> m"
proof -
  have "s * es + run * es \<le> n * es" using mult_le_mono1 [OF assms(1), of es] by (simp add: distrib_right)
  then show "s * es \<le> isize_max" "run * es \<le> isize_max" "base + s * es + run * es \<le> m"
    using assms by linarith+
qed

lemma copy_from_dense_correct:
  assumes ok: "slab_ok slab shape" and fits: "prod_list shape \<le> u64_max"
    and src: "prod_list shape * es \<le> length src" and small: "length src \<le> isize_max"
    and out: "length out = prod_list (cnt slab) * es"
  shows "\<exists>out'. copy_from_dense out src shape slab es = Ok out' \<and> length out' = length out
    \<and> (\<forall>idx b. in_dims (cnt slab) idx \<longrightarrow> b < es \<longrightarrow>
         out' ! (flat (cnt slab) idx * es + b) =
         src ! (flat shape (map2 (+) (start slab) idx) * es + b))"
proof -
  let ?v = "\<lambda>s d run out. and_then (mul64 s es) (\<lambda>sb. and_then (mul64 d es) (\<lambda>db.
       and_then (mul64 run es) (\<lambda>len. and_then (add64 sb len) (\<lambda>fin.
         if fin > length src
         then Error (Malformed ''stored data is shorter than the dataset shape implies'')
         else and_then (slice_range src sb fin) (copy_into out db len)))))"
  have u: "isize_max \<le> u64_max" by (simp add: isize_max_def u64_max_def)
  have "?v s d run out' = copy_into out' (d * es) (run * es) (slice (0 + s * es) (run * es) src)"
    if s: "s + run \<le> prod_list shape" and d: "d * es + run * es \<le> length out'"
      and o: "length out' = prod_list (cnt slab) * es" for s d run and out' :: bytes
  proof -
    have "d * es \<le> u64_max"
    proof (cases "es = 0")
      case False
      have "length out' \<le> prod_list shape * es"
        using o slab_cnt_le [OF ok] by (simp add: mult_le_mono1)
      then show ?thesis using d src small u by linarith
    qed simp
    then show ?thesis
      using run_fits [OF s, of 0 es "length src"] src small u
      by (simp add: mul64_def add64_def slice_range_def not_less)
  qed
  from slab_copy [OF ok fits _ small out this] src show ?thesis
    unfolding copy_from_dense_def by simp
qed

lemma read_contiguous_correct:
  assumes rd: "reader ctx contents" and ok: "slab_ok slab shape" and fits: "prod_list shape \<le> u64_max"
    and src: "base_address (ctx_superblock ctx) + address + prod_list shape * es \<le> length contents"
    and out: "length out = prod_list (cnt slab) * es"
  shows "\<exists>out'. read_contiguous ctx address out shape slab es = Ok out' \<and> length out' = length out
    \<and> (\<forall>idx b. in_dims (cnt slab) idx \<longrightarrow> b < es \<longrightarrow>
         out' ! (flat (cnt slab) idx * es + b) =
         contents ! (base_address (ctx_superblock ctx) + address
           + flat shape (map2 (+) (start slab) idx) * es + b))"
proof -
  let ?base = "base_address (ctx_superblock ctx)"
  have small: "length contents \<le> isize_max" using byte_source.contents_small [OF reader.source [OF rd]] .
  have u: "isize_max \<le> u64_max" by (simp add: isize_max_def u64_max_def)
  let ?v = "\<lambda>s d run out. and_then (mul64 run es) (\<lambda>len. and_then (mul64 s es) (\<lambda>off.
       and_then (add64 address off) (\<lambda>at. and_then (ctx_read ctx at len) (\<lambda>bs.
       and_then (mul64 d es) (\<lambda>db. copy_into out db len bs)))))"
  have "?v s d run out' = copy_into out' (d * es) (run * es) (slice (?base + address + s * es) (run * es) contents)"
    if s: "s + run \<le> prod_list shape" and d: "d * es + run * es \<le> length out'"
      and o: "length out' = prod_list (cnt slab) * es" for s d run and out' :: bytes
  proof -
    have f: "s * es \<le> isize_max" "run * es \<le> isize_max" "?base + address + s * es + run * es \<le> length contents"
      using run_fits [OF s src small] .
    have "length out' \<le> prod_list shape * es" using o slab_cnt_le [OF ok] by (simp add: mult_le_mono1)
    then have db: "d * es \<le> u64_max" using d src small u by linarith
    have at: "address + s * es \<le> u64_max" using f small u by linarith
    have "?base + (address + s * es) < 2 ^ 64" using f small by (simp add: isize_max_def)
    then have res: "resolve (ctx_superblock ctx) (address + s * es) = ?base + address + s * es"
      by (simp add: resolve_def wrapping_add_def)
    then have "ctx_read ctx (address + s * es) (run * es) = Ok (slice (?base + address + s * es) (run * es) contents)"
      using reader.ctx_read_inside [OF rd, of "address + s * es" "run * es"] f(3) by simp
    then show ?thesis using f u db at by (simp add: mul64_def add64_def)
  qed
  from slab_copy [OF ok fits src small out this] show ?thesis unfolding read_contiguous_def .
qed

section \<open>Values of an element\<close>

lemma le_nat_zeros: "le_nat (bs @ replicate n 0) = le_nat bs"
proof -
  have "le_nat (replicate n 0) = 0" by (induction n) auto
  then show ?thesis by (simp add: le_nat_append)
qed

lemma shift_pair:
  assumes "M \<le> 63"
  shows "drop_bit (63 - M) (signed_take_bit 63 (push_bit (63 - M) x)) = signed_take_bit M (x :: int)"
proof (rule bit_eqI)
  fix k
  have "min 63 (63 - M + k) - (63 - M) = min M k" "63 - M \<le> min 63 (63 - M + k)" using assms by auto
  then show "bit (drop_bit (63 - M) (signed_take_bit 63 (push_bit (63 - M) x))) k = bit (signed_take_bit M x) k"
    by (auto simp: bit_drop_bit_eq bit_signed_take_bit_iff bit_push_bit_iff)
qed

lemma sint_read_integer:
  assumes n: "length bs = Suc m" "m < 8"
  shows "sint (signed_drop_bit (64 - length bs * 8) (push_bit (64 - length bs * 8) (word_of_nat (le_nat bs) :: 64 word))) =
     (if le_nat bs < 2 ^ (8 * length bs - 1) then int (le_nat bs) else int (le_nat bs) - 2 ^ (8 * length bs))"
proof -
  define M where "M = 8 * length bs - 1"
  have M: "M \<le> 63" "64 - length bs * 8 = 63 - M" "8 * length bs = Suc M" using n by (simp_all add: M_def)
  let ?w = "word_of_nat (le_nat bs) :: 64 word"
  have "(256 :: nat) ^ length bs = 2 ^ (8 * length bs)" by (simp add: power_mult)
  then have N: "le_nat bs < 2 ^ Suc M" using le_nat_bound [of bs] M by simp
  also have "(2 :: nat) ^ Suc M \<le> 2 ^ 64" using M by (intro power_increasing) auto
  finally have "unat ?w = le_nat bs" by (simp add: unat_of_nat take_bit_nat_eq_self)
  then have "uint ?w = int (le_nat bs)" by (metis uint_nat)
  then have w: "sint ?w = signed_take_bit 63 (int (le_nat bs))" by (simp add: sint_uint)
  have "sint (signed_drop_bit (63 - M) (push_bit (63 - M) ?w)) =
      drop_bit (63 - M) (signed_take_bit 63 (push_bit (63 - M) (sint ?w)))"
    by (simp add: sint_signed_drop_bit_eq signed_push_bit_eq)
  also have "\<dots> = signed_take_bit M (int (le_nat bs))"
    using M(1) by (simp add: shift_pair w signed_take_bit_signed_take_bit min_def)
  also have "\<dots> = take_bit (Suc M) (int (le_nat bs) + 2 ^ M) - 2 ^ M" by (rule signed_take_bit_eq_take_bit_shift)
  also have "\<dots> = (if le_nat bs < 2 ^ M then int (le_nat bs) else int (le_nat bs) - 2 ^ Suc M)"
  proof (cases "le_nat bs < 2 ^ M")
    case True
    then have "int (le_nat bs) < 2 ^ M" by (metis of_nat_less_iff of_nat_numeral of_nat_power)
    then show ?thesis using True by (simp add: take_bit_int_eq_self)
  next
    case False
    have "int (le_nat bs) < 2 ^ Suc M" using N by (metis of_nat_less_iff of_nat_numeral of_nat_power)
    moreover have "2 ^ M \<le> int (le_nat bs)" using False by (metis not_less of_nat_le_iff of_nat_numeral of_nat_power)
    ultimately have "(int (le_nat bs) + 2 ^ M) mod 2 ^ Suc M = int (le_nat bs) + 2 ^ M - 2 ^ Suc M"
      by (subst minus_mod_self2 [symmetric], intro mod_pos_pos_trivial) auto
    then show ?thesis using False by (simp add: take_bit_eq_mod)
  qed
  finally show ?thesis unfolding M by simp
qed

lemma length_reverse_chunks [simp]: "length (reverse_chunks n b) = length b"
proof (induction n b rule: reverse_chunks.induct)
  case (1 n b)
  then show ?case by (subst reverse_chunks.simps) auto
qed

lemma nth_reverse_chunks:
  "0 < n \<Longrightarrow> (i + 1) * n \<le> length b \<Longrightarrow> j < n \<Longrightarrow> reverse_chunks n b ! (i * n + j) = b ! (i * n + (n - 1 - j))"
proof (induction i arbitrary: b)
  case 0
  then show ?case by (subst reverse_chunks.simps) (simp add: nth_append rev_nth)
next
  case (Suc i)
  have le: "n \<le> length b" using Suc.prems by simp
  have "reverse_chunks n b = rev (take n b) @ reverse_chunks n (drop n b)"
    using Suc.prems(1) le by (subst reverse_chunks.simps) simp
  moreover have "reverse_chunks n (drop n b) ! (i * n + j) = drop n b ! (i * n + (n - 1 - j))"
    by (rule Suc.IH) (use Suc.prems in auto)
  ultimately show ?case using le Suc.prems by (simp add: nth_append add.assoc)
qed

section \<open>Properties\<close>

text \<open>
  Reading a selection of a compact dataset returns exactly the selected elements: the copy
  succeeds, keeps the length of the output, and the bytes of the element at multi-index \<open>idx\<close> of the
  selection are those at \<open>start + idx\<close> of the stored array, in row-major order.  The merging of
  whole trailing axes into one run is invisible.
\<close>

theorem compact_read_exact:
  assumes "validate slab shape = Inr ()" and "\<forall>d \<in> set shape. d \<le> u64_max" and "prod_list shape \<le> u64_max"
    and "prod_list shape * es \<le> length src" and "length src \<le> isize_max"
    and "length out = prod_list (cnt slab) * es"
  shows "\<exists>out'. copy_from_dense out src shape slab es = Ok out' \<and> length out' = length out
    \<and> (\<forall>idx b. in_dims (cnt slab) idx \<longrightarrow> b < es \<longrightarrow>
         out' ! (flat (cnt slab) idx * es + b) =
         src ! (flat shape (map2 (+) (start slab) idx) * es + b))"
  using copy_from_dense_correct assms validate_Ok by blast

theorem compact_read_exact_witness:
  "\<exists>out'. copy_from_dense [0, 0] [10, 11, 12, 13, 14, 15] [2, 3] \<lparr>start = [1, 1], cnt = [1, 2]\<rparr> 1 = Ok out'
     \<and> out' ! 0 = 14 \<and> out' ! 1 = 15"
proof -
  let ?slab = "\<lparr>start = [1, 1], cnt = [1, 2]\<rparr>"
  have "validate ?slab [2, 3] = Inr ()" by (simp add: validate_def checked_add_def u64_max_def)
  then obtain out' where o: "copy_from_dense [0, 0] [10, 11, 12, 13, 14, 15] [2, 3] ?slab 1 = Ok out'"
    "\<And>idx b. in_dims (cnt ?slab) idx \<Longrightarrow> b < 1 \<Longrightarrow> out' ! (flat (cnt ?slab) idx * 1 + b) =
       [10, 11, 12, 13, 14, 15] ! (flat [2, 3] (map2 (+) (start ?slab) idx) * 1 + b)"
    using compact_read_exact [of ?slab "[2, 3]" 1 "[10, 11, 12, 13, 14, 15]" "[0, 0]"]
    by (auto simp: u64_max_def isize_max_def)
  from o(2) [of "[0, 0]" 0] o(2) [of "[0, 1]" 0] o(1) show ?thesis by (simp add: flat_def)
qed

text \<open>
  Reading a selection of a contiguous dataset through a context, with or without a page
  cache, returns the file's bytes of exactly the selected elements behind the dataset's address.
\<close>

theorem contiguous_read_exact:
  assumes "reader ctx contents" and "validate slab shape = Inr ()" and "\<forall>d \<in> set shape. d \<le> u64_max"
    and "prod_list shape \<le> u64_max"
    and "base_address (ctx_superblock ctx) + address + prod_list shape * es \<le> length contents"
    and "length out = prod_list (cnt slab) * es"
  shows "\<exists>out'. read_contiguous ctx address out shape slab es = Ok out' \<and> length out' = length out
    \<and> (\<forall>idx b. in_dims (cnt slab) idx \<longrightarrow> b < es \<longrightarrow>
         out' ! (flat (cnt slab) idx * es + b) =
         contents ! (base_address (ctx_superblock ctx) + address
           + flat shape (map2 (+) (start slab) idx) * es + b))"
  using read_contiguous_correct assms validate_Ok by blast

theorem contiguous_read_exact_witness:
  "\<exists>out'. read_contiguous (new_ctx (memory_source [9, 9, 10, 11, 12, 13]) example_superblock) 2 [0] [2, 2]
     \<lparr>start = [1, 0], cnt = [1, 1]\<rparr> 1 = Ok out' \<and> out' ! 0 = 12"
proof -
  let ?data = "[9, 9, 10, 11, 12, 13] :: bytes" and ?slab = "\<lparr>start = [1, 0], cnt = [1, 1]\<rparr>"
  let ?ctx = "new_ctx (memory_source ?data) example_superblock"
  have "byte_source (memory_source ?data) ?data" by (rule byte_source_memory) (simp add: isize_max_def)
  then have rd: "reader ?ctx ?data" by (simp add: reader_def new_ctx_def cache_ok_def)
  have "validate ?slab [2, 2] = Inr ()" by (simp add: validate_def checked_add_def u64_max_def)
  then obtain out' where o: "read_contiguous ?ctx 2 [0] [2, 2] ?slab 1 = Ok out'"
    "\<And>idx b. in_dims (cnt ?slab) idx \<Longrightarrow> b < 1 \<Longrightarrow> out' ! (flat (cnt ?slab) idx * 1 + b) =
       ?data ! (base_address (ctx_superblock ?ctx) + 2 + flat [2, 2] (map2 (+) (start ?slab) idx) * 1 + b)"
    using contiguous_read_exact [OF rd, of ?slab "[2, 2]" 2 1 "[0]"]
    by (auto simp: u64_max_def new_ctx_def example_superblock_def)
  from o(2) [of "[0, 0]" 0] o(1) show ?thesis by (simp add: flat_def new_ctx_def example_superblock_def)
qed

text \<open>
  The element count of any shape, damaged ones included, is the product of its dimensions
  cut off at \<open>u64::MAX\<close>, a zero dimension making it zero wherever it stands; no step wraps.
\<close>

theorem element_count_saturates:
  "element_count dims = min (prod_list dims) u64_max"
  by (rule element_count_eq)

text \<open>
  A valid, non-empty selection of a shape whose inner dimensions multiply past \<open>u64\<close> makes
  the walk panic, whatever it visits: the strides are computed with a plain multiplication, while
  the element count of the same shape saturates.
\<close>

theorem damaged_shape_panics:
  assumes "validate slab shape = Inr ()" and "\<forall>d \<in> set shape. 0 < d \<and> d \<le> u64_max"
    and "\<forall>c \<in> set (cnt slab). 0 < c" and "u64_max < prod_list (tl shape)"
  shows "for_each_run shape slab visit st = Inl Panic"
proof -
  have "shape \<noteq> []" using assms(4) by (auto simp: u64_max_def)
  moreover have "element_count (cnt slab) \<noteq> 0"
    using prod_list_pos [OF assms(3)] by (simp add: element_count_eq u64_max_def)
  ultimately show ?thesis
    using strides_panic [of shape] assms by (simp add: for_each_run_def)
qed

theorem damaged_shape_panics_witness:
  "for_each_run [1, 2 ^ 40, 2 ^ 40] \<lparr>start = [0, 0, 0], cnt = [1, 1, 1]\<rparr> (\<lambda>s d n (out :: bytes). Ok out) [] = Inl Panic"
  by (rule damaged_shape_panics) (simp_all add: validate_def checked_add_def u64_max_def)

text \<open>
  An integer element of 1 to 8 bytes is read as its two's-complement value at its own width:
  the left and right shift extend the sign.
\<close>

theorem read_integer_sign_extends:
  assumes "1 \<le> length bs" and "length bs \<le> 8"
  shows "\<exists>w. read_integer bs True = Ok w \<and> sint w =
     (if le_nat bs < 2 ^ (8 * length bs - 1) then int (le_nat bs) else int (le_nat bs) - 2 ^ (8 * length bs))"
proof -
  obtain m where m: "length bs = Suc m" "m < 8" using assms by (cases "length bs") auto
  show ?thesis
    using sint_read_integer [OF m] assms by (auto simp: read_integer_def Let_def le_nat_zeros)
qed

theorem read_integer_sign_extends_witness:
  "\<exists>w. read_integer [0xFE, 0xFF] True = Ok w \<and> sint w = -2"
  using read_integer_sign_extends [of "[0xFE, 0xFF]"] by simp

text \<open>
  Byte swapping a buffer of whole elements reverses the bytes of each element in place and
  keeps the length.
\<close>

theorem swap_bytes_reverses_elements:
  assumes "1 < es" and "(i + 1) * es \<le> length b" and "j < es"
  shows "swap_bytes_in_place b es ! (i * es + j) = b ! (i * es + (es - 1 - j))
    \<and> length (swap_bytes_in_place b es) = length b"
  using assms nth_reverse_chunks [of es i b j] by (simp add: swap_bytes_in_place_def)

theorem swap_bytes_reverses_elements_witness:
  "swap_bytes_in_place [1, 2, 3, 4] 2 ! 2 = 4"
  using swap_bytes_reverses_elements [of 2 1 "[1, 2, 3, 4]" 0] by simp

end
