(* ===== verification/Messages.thy ===== *)
theory Messages
  imports Hyperslab Filters
begin

text \<open>
  The messages that describe a dataset's storage: the dataspace (\<^verbatim>\<open>message/dataspace.rs\<close>), the data
  layout (\<^verbatim>\<open>message/layout.rs\<close>) and the fill value with its tiling by doubling
  (\<^verbatim>\<open>message/fillvalue.rs\<close>).
\<close>

section \<open>Dataspace\<close>

datatype dataspace_kind = Scalar | Simple | NullSpace

record dataspace =
  ds_kind :: dataspace_kind
  dims :: "nat list"
  max_dims :: "nat list option"

definition dataspace_element_count :: "dataspace \<Rightarrow> nat" where
  "dataspace_element_count d =
     (case ds_kind d of NullSpace \<Rightarrow> 0 | Scalar \<Rightarrow> 1 | Simple \<Rightarrow> element_count (dims d))"

definition has_unlimited :: "dataspace \<Rightarrow> bool" where
  "has_unlimited d = (case max_dims d of None \<Rightarrow> False | Some m \<Rightarrow> u64_max \<in> set m)"

definition read_dims :: "nat \<Rightarrow> sizes \<Rightarrow> nat list parser" where
  "read_dims rank s = repeat_p rank (read_length s)"

definition read_max_dims :: "nat \<Rightarrow> nat \<Rightarrow> sizes \<Rightarrow> nat list option parser" where
  "read_max_dims flags rank s =
     (if flags mod 2 \<noteq> 0 then bind_p (read_dims rank s) (\<lambda>m. ret_p (Some m)) else ret_p None)"

definition parse_dataspace_v1 :: "sizes \<Rightarrow> dataspace parser" where
  "parse_dataspace_v1 s =
     bind_p u8 (\<lambda>rank. bind_p u8 (\<lambda>flags. bind_p (skip 1) (\<lambda>_. bind_p (skip 4) (\<lambda>_.
     bind_p (read_dims rank s) (\<lambda>ds. bind_p (read_max_dims flags rank s) (\<lambda>m.
     bind_p (if flags div 2 mod 2 \<noteq> 0 then skip (rank * length_size s) else ret_p ()) (\<lambda>_.
       ret_p \<lparr>ds_kind = (if rank = 0 then Scalar else Simple), dims = ds, max_dims = m\<rparr>)))))))"

definition parse_dataspace_v2 :: "sizes \<Rightarrow> dataspace parser" where
  "parse_dataspace_v2 s =
     bind_p u8 (\<lambda>rank. bind_p u8 (\<lambda>flags. bind_p u8 (\<lambda>k.
     bind_p (if k = 0 then ret_p Scalar else if k = 1 then ret_p Simple else if k = 2 then ret_p NullSpace
             else fail_p (Malformed ''dataspace type'')) (\<lambda>kind.
     bind_p (read_dims rank s) (\<lambda>ds. bind_p (read_max_dims flags rank s) (\<lambda>m.
       ret_p \<lparr>ds_kind = kind, dims = ds, max_dims = m\<rparr>))))))"

definition parse_dataspace_p :: "sizes \<Rightarrow> dataspace parser" where
  "parse_dataspace_p s =
     bind_p u8 (\<lambda>ver.
       if ver = 1 then parse_dataspace_v1 s
       else if ver = 2 then parse_dataspace_v2 s
       else fail_p (Unsupported ''dataspace message version''))"

definition parse_dataspace :: "bytes \<Rightarrow> sizes \<Rightarrow> dataspace result" where
  "parse_dataspace data s = run_p (parse_dataspace_p s) data"

section \<open>Data layout\<close>

datatype chunk_index =
    SingleChunk (filtered_size: nat) (single_mask: nat)
  | Implicit
  | FixedArray (fixed_page_bits: nat)
  | ExtensibleArray (max_bits: nat) (index_elements: nat) (min_pointers: nat) (min_elements: nat) (page_bits: nat)
  | BtreeV2 (node_size: nat) (split_percent: nat) (merge_percent: nat)
  | BtreeV1

datatype layout =
    Compact bytes
  | Contiguous "nat option" nat
  | Chunked "nat option" "nat list" nat chunk_index

definition zero_dims_error :: error where
  "zero_dims_error = Malformed ''chunked layout declares a dimensionality of zero''"

text \<open>The tail of a chunked layout of versions 1 to 3: chunk dimensions and element size.\<close>

definition parse_chunk_dims :: "nat option \<Rightarrow> nat \<Rightarrow> layout parser" where
  "parse_chunk_dims address dimensionality =
     (if dimensionality = 0 then fail_p zero_dims_error
      else bind_p (repeat_p (dimensionality - 1) u32) (\<lambda>chunk_dims.
           bind_p u32 (\<lambda>element_size. ret_p (Chunked address chunk_dims element_size BtreeV1))))"

definition parse_layout_v1_v2 :: "sizes \<Rightarrow> layout parser" where
  "parse_layout_v1_v2 s =
     bind_p u8 (\<lambda>dimensionality. bind_p u8 (\<lambda>cls. bind_p (skip 5) (\<lambda>_.
       if cls = 0 then
         bind_p (repeat_p dimensionality u32) (\<lambda>_. bind_p u32 (\<lambda>sz.
         bind_p (take_bytes sz) (\<lambda>data. ret_p (Compact data))))
       else if cls = 1 then
         bind_p (read_address s) (\<lambda>address. bind_p (repeat_p dimensionality u32) (\<lambda>ds.
           ret_p (Contiguous address (fold (\<lambda>d total. saturating_mul total d) ds 1))))
       else if cls = 2 then
         bind_p (read_address s) (\<lambda>address. parse_chunk_dims address dimensionality)
       else fail_p (Malformed ''data layout class''))))"

definition parse_layout_v3 :: "sizes \<Rightarrow> layout parser" where
  "parse_layout_v3 s =
     bind_p u8 (\<lambda>cls.
       if cls = 0 then bind_p u16 (\<lambda>sz. bind_p (take_bytes sz) (\<lambda>data. ret_p (Compact data)))
       else if cls = 1 then
         bind_p (read_address s) (\<lambda>address. bind_p (read_length s) (\<lambda>sz. ret_p (Contiguous address sz)))
       else if cls = 2 then
         bind_p u8 (\<lambda>dimensionality. bind_p (read_address s) (\<lambda>address.
           parse_chunk_dims address dimensionality))
       else fail_p (Malformed ''data layout class''))"

definition parse_chunk_index :: "sizes \<Rightarrow> nat \<Rightarrow> nat \<Rightarrow> chunk_index parser" where
  "parse_chunk_index s flags index_type =
     (if index_type = 1 then
        if flags div 2 mod 2 \<noteq> 0
        then bind_p (read_length s) (\<lambda>sz. bind_p u32 (\<lambda>m. ret_p (SingleChunk sz m)))
        else ret_p (SingleChunk 0 0)
      else if index_type = 2 then ret_p Implicit
      else if index_type = 3 then bind_p u8 (\<lambda>b. ret_p (FixedArray b))
      else if index_type = 4 then
        bind_p u8 (\<lambda>mb. bind_p u8 (\<lambda>ie. bind_p u8 (\<lambda>mp. bind_p u8 (\<lambda>me. bind_p u8 (\<lambda>pb.
          ret_p (ExtensibleArray mb ie mp me pb))))))
      else if index_type = 5 then
        bind_p u32 (\<lambda>n. bind_p u8 (\<lambda>sp. bind_p u8 (\<lambda>mp. ret_p (BtreeV2 n sp mp))))
      else fail_p (Unsupported ''version 4 chunk index type''))"

text \<open>The casts \<open>as u32\<close> keep the low 32 bits.\<close>

definition parse_layout_v4 :: "sizes \<Rightarrow> layout parser" where
  "parse_layout_v4 s =
     bind_p u8 (\<lambda>cls.
       if cls = 0 then bind_p u16 (\<lambda>sz. bind_p (take_bytes sz) (\<lambda>data. ret_p (Compact data)))
       else if cls = 1 then
         bind_p (read_address s) (\<lambda>address. bind_p (read_length s) (\<lambda>sz. ret_p (Contiguous address sz)))
       else if cls = 2 then
         bind_p u8 (\<lambda>flags. bind_p u8 (\<lambda>dimensionality.
           if dimensionality = 0 then fail_p zero_dims_error
           else bind_p u8 (\<lambda>dim_width.
             bind_p (repeat_p (dimensionality - 1) (read_uint dim_width)) (\<lambda>ds.
             bind_p (read_uint dim_width) (\<lambda>es. bind_p u8 (\<lambda>index_type.
             bind_p (parse_chunk_index s flags index_type) (\<lambda>index. bind_p (read_address s) (\<lambda>address.
               ret_p (Chunked address (map (\<lambda>d. d mod 2 ^ 32) ds) (es mod 2 ^ 32) index)))))))))
       else fail_p (Malformed ''data layout class''))"

definition parse_layout_p :: "sizes \<Rightarrow> layout parser" where
  "parse_layout_p s =
     bind_p u8 (\<lambda>ver.
       if ver = 1 \<or> ver = 2 then parse_layout_v1_v2 s
       else if ver = 3 then parse_layout_v3 s
       else if ver = 4 then parse_layout_v4 s
       else fail_p (Unsupported ''data layout message version''))"

definition parse_layout :: "bytes \<Rightarrow> sizes \<Rightarrow> layout result" where
  "parse_layout data s = run_p (parse_layout_p s) data"

section \<open>Fill value\<close>

text \<open>A fill value is the field \<open>bytes: Option<Vec<u8>>\<close> of \<open>FillValue\<close>.\<close>

type_synonym fill_value = "bytes option"

definition parse_fill_tail :: "fill_value parser" where
  "parse_fill_tail =
     bind_p get_remaining (\<lambda>rem.
       if rem < 4 then ret_p None
       else bind_p u32 (\<lambda>sz. bind_p get_remaining (\<lambda>rem.
         if sz = 0 \<or> rem < sz then ret_p None
         else bind_p (take_bytes sz) (\<lambda>v. ret_p (Some v)))))"

definition parse_fill_p :: "fill_value parser" where
  "parse_fill_p =
     bind_p u8 (\<lambda>ver.
       if ver = 1 \<or> ver = 2 then
         bind_p (skip 1) (\<lambda>_. bind_p (skip 1) (\<lambda>_. bind_p u8 (\<lambda>defined.
           if ver = 1 \<or> defined \<noteq> 0 then parse_fill_tail else ret_p None)))
       else if ver = 3 then
         bind_p u8 (\<lambda>flags. if flags div 32 mod 2 = 0 then ret_p None else parse_fill_tail)
       else fail_p (Unsupported ''fill value message version''))"

definition parse_fill :: "bytes \<Rightarrow> fill_value result" where
  "parse_fill data = run_p parse_fill_p data"

definition parse_fill_old :: "bytes \<Rightarrow> fill_value result" where
  "parse_fill_old data = run_p parse_fill_tail data"

text \<open>
  The doubling loop; \<open>done\<close> is positive whenever it is entered, because the head of a non-empty
  buffer is.
\<close>

function fill_loop :: "bytes \<Rightarrow> nat \<Rightarrow> bytes" where
  "fill_loop b filled =
     (if filled < length b \<and> 0 < filled then
        let n = min filled (length b - filled)
        in fill_loop (take filled b @ take n b @ drop (filled + n) b) (filled + n)
      else b)"
  by auto
termination by (relation "measure (\<lambda>(b, filled). length b - filled)") (auto simp: min_def)

declare fill_loop.simps [simp del]

definition fill :: "fill_value \<Rightarrow> bytes \<Rightarrow> nat \<Rightarrow> bytes" where
  "fill fv b element_size =
     (case fv of
        None \<Rightarrow> replicate (length b) 0
      | Some v \<Rightarrow>
          if v = [] \<or> element_size = 0 then replicate (length b) 0
          else if length v \<noteq> element_size then replicate (length b) 0
          else
            let head = min element_size (length b)
            in fill_loop (take head v @ drop head b) head)"

section \<open>Parsing is total\<close>

lemma safe_parse_dataspace: "safe_parser (parse_dataspace_p s)"
  unfolding parse_dataspace_p_def parse_dataspace_v1_def parse_dataspace_v2_def read_dims_def read_max_dims_def
  by (intro safe_intros)

lemma safe_parse_chunk_index [safe_intros]: "safe_parser (parse_chunk_index s f t)"
  unfolding parse_chunk_index_def by (intro safe_intros)

lemma safe_parse_layout: "safe_parser (parse_layout_p s)"
  unfolding parse_layout_p_def parse_layout_v1_v2_def parse_layout_v3_def parse_layout_v4_def parse_chunk_dims_def
  by (intro safe_intros)

lemma safe_parse_fill_tail [safe_intros]: "safe_parser parse_fill_tail"
  unfolding parse_fill_tail_def by (intro safe_intros)

lemma safe_parse_fill: "safe_parser parse_fill_p"
  unfolding parse_fill_p_def by (intro safe_intros)

section \<open>Tiling\<close>

lemma fill_loop_tiles:
  assumes es: "0 < es" "length v = es"
  shows "filled \<le> length b \<Longrightarrow> (es dvd filled \<and> 0 < filled) \<or> filled = length b \<Longrightarrow>
    (\<forall>i < filled. b ! i = v ! (i mod es)) \<Longrightarrow>
    length (fill_loop b filled) = length b \<and> (\<forall>i < length b. fill_loop b filled ! i = v ! (i mod es))"
proof (induction b filled rule: fill_loop.induct)
  case (1 b filled)
  show ?case
  proof (cases "filled < length b \<and> 0 < filled")
    case True
    let ?n = "min filled (length b - filled)"
    let ?b = "take filled b @ take ?n b @ drop (filled + ?n) b"
    have dv: "es dvd filled" using "1.prems"(2) True by auto
    have len: "length ?b = length b" using True by auto
    have nth: "?b ! i = v ! (i mod es)" if "i < filled + ?n" for i
    proof (cases "i < filled")
      case True
      then show ?thesis using "1.prems"(1,3) by (simp add: nth_append)
    next
      case False
      moreover have "i - filled < filled" "i - filled < length b - filled" using that False by auto
      ultimately have "?b ! i = b ! (i - filled)" using "1.prems"(1) by (simp add: nth_append)
      also have "\<dots> = v ! ((i - filled) mod es)" using "1.prems"(3) that False by simp
      also have "(i - filled) mod es = i mod es" using dv False by (metis mod_eq_dvd_iff_nat diff_diff_cancel not_less diff_le_self)
      finally show ?thesis .
    qed
    have "(es dvd filled + ?n \<and> 0 < filled + ?n) \<or> filled + ?n = length ?b"
      using dv True len by (auto simp: min_def)
    then have "length (fill_loop ?b (filled + ?n)) = length ?b \<and>
        (\<forall>i < length ?b. fill_loop ?b (filled + ?n) ! i = v ! (i mod es))"
      using "1.IH" [OF True refl] nth len True by auto
    then show ?thesis using True len by (subst (1 2) fill_loop.simps) (simp add: Let_def)
  next
    case False
    then show ?thesis using "1.prems" by (subst (1 2) fill_loop.simps) auto
  qed
qed

lemma fill_nth:
  assumes "i < length b" and "0 < es"
  shows "length (fill fv b es) = length b \<and>
     fill fv b es ! i = (case fv of Some v \<Rightarrow> if length v = es then v ! (i mod es) else 0 | None \<Rightarrow> 0)"
proof (cases "\<exists>v. fv = Some v \<and> length v = es")
  case True
  then obtain v where v: "fv = Some v" "length v = es" by blast
  let ?h = "min es (length b)"
  have "length (fill_loop (take ?h v @ drop ?h b) ?h) = length (take ?h v @ drop ?h b) \<and>
      (\<forall>i < length (take ?h v @ drop ?h b). fill_loop (take ?h v @ drop ?h b) ?h ! i = v ! (i mod es))"
    by (rule fill_loop_tiles [OF assms(2) v(2)]) (use v assms in \<open>auto simp: nth_append min_def split: if_splits\<close>)
  then show ?thesis using v assms by (auto simp: fill_def Let_def)
next
  case False
  then show ?thesis using assms by (auto simp: fill_def split: option.splits)
qed

section \<open>Properties\<close>

text \<open>
  The fill value tiles the buffer: with a value of the element's width every element of the
  buffer is that value (a partial last element its prefix), with none the buffer is zero; the
  copying by doubling is the plain repetition.
\<close>

theorem fill_repeats_value:
  assumes "i < length b" and "0 < es"
  shows "length (fill fv b es) = length b \<and>
     fill fv b es ! i = (case fv of Some v \<Rightarrow> if length v = es then v ! (i mod es) else 0 | None \<Rightarrow> 0)"
  using assms by (rule fill_nth)

theorem fill_repeats_value_witness:
  "fill (Some [7, 8, 9]) [0, 0, 0, 0, 0, 0, 0, 0] 3 ! 7 = 8"
  using fill_repeats_value [of 7 "[0, 0, 0, 0, 0, 0, 0, 0]" 3 "Some [7, 8, 9]"] by simp

text \<open>
  No message body, whatever its bytes, makes the parsers of the dataspace, the data layout,
  the fill value or the filter pipeline panic.
\<close>

theorem storage_messages_never_panic:
  assumes "length data \<le> isize_max"
  shows "parse_dataspace data s \<noteq> Inl Panic \<and> parse_layout data s \<noteq> Inl Panic
    \<and> parse_fill data \<noteq> Inl Panic \<and> parse_fill_old data \<noteq> Inl Panic \<and> parse_pipeline data \<noteq> Inl Panic"
  unfolding parse_dataspace_def parse_layout_def parse_fill_def parse_fill_old_def parse_pipeline_def
  by (intro conjI run_p_no_panic assms safe_parse_dataspace safe_parse_layout safe_parse_fill
      safe_parse_fill_tail safe_parse_pipeline)

theorem storage_messages_never_panic_witness:
  "parse_layout [3, 2, 255, 1] EIGHT \<noteq> Inl Panic"
  using storage_messages_never_panic [of "[3, 2, 255, 1]" EIGHT] by (simp add: isize_max_def)

definition encode_chunked_v3 :: "sizes \<Rightarrow> nat option \<Rightarrow> nat list \<Rightarrow> nat \<Rightarrow> bytes" where
  "encode_chunked_v3 s address chunk_dims element_size =
     to_le 1 3 @ to_le 1 2 @ to_le 1 (length chunk_dims + 1) @ encode_address s address @
     concat (map (to_le 4) chunk_dims) @ to_le 4 element_size"

text \<open>
  A chunked data layout of version 3, written with its dimensionality, address, chunk
  dimensions and element size, is read back exactly; the trailing entry is the element size.
\<close>

theorem chunked_layout_round_trip:
  assumes "sizes_ok s" and "fits_address s address" and "length chunk_dims < 255"
    and "\<forall>d \<in> set chunk_dims. d < 2 ^ 32" and "element_size < 2 ^ 32"
  shows "parse_layout (encode_chunked_v3 s address chunk_dims element_size) s =
     Ok (Chunked address chunk_dims element_size BtreeV1)"
proof -
  have w: "0 < offset_size s" "offset_size s \<le> 8" using assms(1) by (auto simp: sizes_ok_def)
  have "reads (bind_p (repeat_p (length chunk_dims) u32) (\<lambda>ds. bind_p u32 (\<lambda>es. ret_p (Chunked address ds es BtreeV1))))
      (concat (map (to_le 4) chunk_dims) @ to_le 4 element_size) (Chunked address chunk_dims element_size BtreeV1)"
    by (rule reads_bind [OF reads_repeat reads_bind_last [OF reads_u32]])
      (use assms(4,5) in \<open>auto intro!: reads_u32 reads_ret\<close>)
  then have tail: "reads (parse_chunk_dims address (length chunk_dims + 1))
      (concat (map (to_le 4) chunk_dims) @ to_le 4 element_size) (Chunked address chunk_dims element_size BtreeV1)"
    by (simp add: parse_chunk_dims_def)
  have inner: "reads (bind_p u8 (\<lambda>dim. bind_p (read_address s) (\<lambda>a. parse_chunk_dims a dim)))
      (to_le 1 (length chunk_dims + 1) @ encode_address s address @
       concat (map (to_le 4) chunk_dims) @ to_le 4 element_size) (Chunked address chunk_dims element_size BtreeV1)"
    by (rule reads_bind [OF reads_u8], use assms(3) in simp, rule reads_bind [OF reads_address [OF w assms(2)]], rule tail)
  have v3: "reads (parse_layout_v3 s) (to_le 1 2 @ to_le 1 (length chunk_dims + 1) @ encode_address s address @
      concat (map (to_le 4) chunk_dims) @ to_le 4 element_size) (Chunked address chunk_dims element_size BtreeV1)"
    unfolding parse_layout_v3_def
    by (rule reads_bind [OF reads_u8]) (use inner in \<open>simp_all del: to_le.simps\<close>)
  have "reads (parse_layout_p s) (encode_chunked_v3 s address chunk_dims element_size)
      (Chunked address chunk_dims element_size BtreeV1)"
    unfolding parse_layout_p_def encode_chunked_v3_def
    by (rule reads_bind [OF reads_u8]) (use v3 in \<open>simp_all del: to_le.simps\<close>)
  moreover have "length (encode_chunked_v3 s address chunk_dims element_size) \<le> isize_max"
  proof -
    have "length (concat (map (to_le 4) chunk_dims)) = length chunk_dims * 4"
      by (simp add: length_concat o_def sum_list_triv del: to_le.simps)
    then show ?thesis
      using assms(3) w(2) by (simp add: encode_chunked_v3_def encode_address_def isize_max_def del: to_le.simps)
  qed
  ultimately show ?thesis
    using run_p_reads [of "parse_layout_p s" "encode_chunked_v3 s address chunk_dims element_size" _ "[]"]
    by (simp add: parse_layout_def)
qed

theorem chunked_layout_round_trip_witness:
  "parse_layout (encode_chunked_v3 EIGHT (Some 4096) [10, 20] 4) EIGHT = Ok (Chunked (Some 4096) [10, 20] 4 BtreeV1)"
  by (rule chunked_layout_round_trip)
    (simp_all add: sizes_ok_def EIGHT_def fits_address_def undefined_for_width_def u64_max_def)

end
