(* ===== verification/Object_Header.thy ===== *)
theory Object_Header
  imports Context
begin

text \<open>
  Object headers (\<^verbatim>\<open>objheader.rs\<close>): the framing of header messages in versions 1 and 2, the
  continuation blocks and their checksums.  The parsers of the two versions differ only in the
  frame of a message and in the frame of a block; \<open>framing\<close> names the version, with the flag that
  says whether creation orders are stored.  A \<open>Vec\<close> used as a stack is the list of its elements,
  top first.
\<close>

section \<open>Messages\<close>

datatype message_type =
    NilMsg | DataspaceMsg | LinkInfoMsg | DatatypeMsg | FillValueOldMsg | FillValueMsg | LinkMsg
  | ExternalDataFilesMsg | DataLayoutMsg | BogusMsg | GroupInfoMsg | FilterPipelineMsg | AttributeMsg
  | ObjectCommentMsg | ObjectModificationTimeOldMsg | SharedMessageTableMsg | ObjectHeaderContinuationMsg
  | SymbolTableMsg | ObjectModificationTimeMsg | BtreeKValuesMsg | DriverInfoMsg | AttributeInfoMsg
  | ObjectReferenceCountMsg | UnknownMsg nat

definition known_types :: "message_type list" where
  "known_types =
     [NilMsg, DataspaceMsg, LinkInfoMsg, DatatypeMsg, FillValueOldMsg, FillValueMsg, LinkMsg,
      ExternalDataFilesMsg, DataLayoutMsg, BogusMsg, GroupInfoMsg, FilterPipelineMsg, AttributeMsg,
      ObjectCommentMsg, ObjectModificationTimeOldMsg, SharedMessageTableMsg, ObjectHeaderContinuationMsg,
      SymbolTableMsg, ObjectModificationTimeMsg, BtreeKValuesMsg, DriverInfoMsg, AttributeInfoMsg,
      ObjectReferenceCountMsg]"

definition from_code :: "nat \<Rightarrow> message_type" where
  "from_code code = (if code < length known_types then known_types ! code else UnknownMsg code)"

record header_message =
  msg_kind :: message_type
  msg_flags :: nat
  creation_order :: "nat option"
  msg_data :: bytes

definition is_shared :: "header_message \<Rightarrow> bool" where
  "is_shared m \<longleftrightarrow> msg_flags m div 2 mod 2 \<noteq> 0"

record object_header =
  oh_address :: nat
  oh_version :: nat
  messages :: "header_message list"

definition messages_of :: "message_type \<Rightarrow> object_header \<Rightarrow> header_message list" where
  "messages_of k oh = filter (\<lambda>m. msg_kind m = k) (messages oh)"

definition message_of :: "message_type \<Rightarrow> object_header \<Rightarrow> header_message option" where
  "message_of k oh = find (\<lambda>m. msg_kind m = k) (messages oh)"

section \<open>Framing of messages\<close>

datatype framing = V1 | V2 bool

definition frame_header_len :: "framing \<Rightarrow> nat" where
  "frame_header_len f = (case f of V1 \<Rightarrow> 8 | V2 tracks \<Rightarrow> if tracks then 6 else 4)"

definition frame_body :: "nat \<Rightarrow> nat \<Rightarrow> nat option \<Rightarrow> nat \<Rightarrow> header_message option parser" where
  "frame_body code flags order sz =
     bind_p get_remaining (\<lambda>rem.
       if rem < sz then ret_p None
       else bind_p (take_bytes sz) (\<lambda>data.
         ret_p (Some \<lparr>msg_kind = from_code code, msg_flags = flags, creation_order = order, msg_data = data\<rparr>)))"

definition read_order :: "bool \<Rightarrow> nat option parser" where
  "read_order tracks = (if tracks then bind_p u16 (\<lambda>n. ret_p (Some n)) else ret_p None)"

definition read_frame :: "framing \<Rightarrow> header_message option parser" where
  "read_frame f =
     (case f of
        V1 \<Rightarrow> bind_p u16 (\<lambda>code. bind_p u16 (\<lambda>sz. bind_p u8 (\<lambda>flags. bind_p (skip 3) (\<lambda>_.
          frame_body code flags None sz))))
      | V2 tracks \<Rightarrow> bind_p u8 (\<lambda>code. bind_p u16 (\<lambda>sz. bind_p u8 (\<lambda>flags. bind_p (read_order tracks) (\<lambda>order.
          frame_body code flags order sz)))))"

definition parse_continuation_p :: "sizes \<Rightarrow> (nat \<times> nat) parser" where
  "parse_continuation_p s =
     bind_p (address_required s ''object header continuation'') (\<lambda>address.
       bind_p (read_length s) (\<lambda>len. ret_p (address, len)))"

definition parse_continuation :: "sizes \<Rightarrow> bytes \<Rightarrow> (nat \<times> nat) result" where
  "parse_continuation s data = run_p (parse_continuation_p s) data"

text \<open>Every frame moves the cursor, so the loop over the messages of a block ends.\<close>

lemma advances_frame_body [advances_intros]: "advances 0 (frame_body code flags order sz)"
  unfolding frame_body_def by (intro advances_intros)

lemma advances_read_order [advances_intros]: "advances 0 (read_order tracks)"
  unfolding read_order_def by (intro advances_intros)

lemma advances_read_frame: "advances 1 (read_frame f)"
proof (cases f)
  case V1
  have "advances 2 (read_frame f)"
    unfolding V1 read_frame_def framing.case by (rule advances_bind_left [OF advances_u16]) (intro advances_intros)
  then show ?thesis by (rule advances_weaken) simp
next
  case (V2 tracks)
  show ?thesis
    unfolding V2 read_frame_def framing.case by (rule advances_bind_left [OF advances_u8]) (intro advances_intros)
qed

lemma frame_header_len_pos: "0 < frame_header_len f"
  by (simp add: frame_header_len_def split: framing.splits)

lemma frame_shrinks:
  "\<not> remaining c < frame_header_len f \<Longrightarrow> Inr (m, c') = read_frame f c \<Longrightarrow> remaining c' < remaining c"
  using advancesD [OF advances_read_frame, of f c m c'] frame_header_len_pos [of f] by (auto simp: remaining_def)

function parse_messages ::
  "framing \<Rightarrow> sizes \<Rightarrow> cursor \<Rightarrow> header_message list \<Rightarrow> (nat \<times> nat) list \<Rightarrow>
   (header_message list \<times> (nat \<times> nat) list) result" where
  "parse_messages f s cur out queue =
     (if remaining cur < frame_header_len f then Ok (out, queue)
      else and_then (read_frame f cur) (\<lambda>(frame, cur').
        case frame of
          None \<Rightarrow> Ok (out, queue)
        | Some m \<Rightarrow>
            if msg_kind m = ObjectHeaderContinuationMsg then
              and_then (parse_continuation s (msg_data m)) (\<lambda>target.
                parse_messages f s cur' out (target # queue))
            else if msg_kind m \<noteq> NilMsg then parse_messages f s cur' (out @ [m]) queue
            else parse_messages f s cur' out queue))"
  by auto
termination
proof (relation "measure (\<lambda>(f, s, cur, out, queue). remaining cur)", goal_cases)
qed (auto dest!: frame_shrinks)

declare parse_messages.simps [simp del]

definition parse_v1_messages where
  "parse_v1_messages s block out queue = parse_messages V1 s (new_cursor block) out queue"

definition parse_v2_messages where
  "parse_v2_messages s body tracks out queue = parse_messages (V2 tracks) s (new_cursor body) out queue"

section \<open>Blocks\<close>

definition OHDR_SIGNATURE :: bytes where
  "OHDR_SIGNATURE = [0x4f, 0x48, 0x44, 0x52]"

definition OCHK_SIGNATURE :: bytes where
  "OCHK_SIGNATURE = [0x4f, 0x43, 0x48, 0x4b]"

definition MAX_CONTINUATION_BLOCKS :: nat where
  "MAX_CONTINUATION_BLOCKS = 4096"

definition verify_checksum :: "bytes \<Rightarrow> nat \<Rightarrow> string \<Rightarrow> unit result" where
  "verify_checksum block len what =
     and_then (add64 len 4) (\<lambda>end_pos.
       if length block < end_pos then Error (Malformed (what @ '' is truncated before its checksum''))
       else let stored = word_of_nat (le_nat (slice len 4 block)); computed = metadata (take len block)
            in if stored \<noteq> computed then Error (ChecksumMismatch what stored computed) else Ok ())"

definition read_block :: "framing \<Rightarrow> ctx \<Rightarrow> nat \<Rightarrow> nat \<Rightarrow> bytes result" where
  "read_block f ctx block_address block_len =
     (case f of
        V1 \<Rightarrow> ctx_read ctx block_address block_len
      | V2 _ \<Rightarrow>
          if block_len < 8
          then Error (Malformed ''OCHK continuation block is too short to hold a signature and checksum'')
          else and_then (ctx_read ctx block_address block_len) (\<lambda>block.
            and_then (slice_range block 0 4) (\<lambda>sig.
              if sig \<noteq> OCHK_SIGNATURE
              then Error (Malformed ''object header continuation block is missing its OCHK signature'')
              else and_then (verify_checksum block (block_len - 4) ''object header continuation'') (\<lambda>_.
                slice_range block 4 (block_len - 4)))))"

function follow_blocks ::
  "framing \<Rightarrow> ctx \<Rightarrow> nat \<Rightarrow> nat list \<Rightarrow> header_message list \<Rightarrow> (nat \<times> nat) list \<Rightarrow> header_message list result" where
  "follow_blocks f ctx blocks visited out queue =
     (case queue of
        [] \<Rightarrow> Ok out
      | (block_address, block_len) # rest \<Rightarrow>
          if MAX_CONTINUATION_BLOCKS < blocks + 1
          then Error (Malformed ''object header has too many continuation blocks; the file may be cyclic'')
          else if block_address \<in> set visited then Error (Malformed ''object header continuation cycle'')
          else and_then (read_block f ctx block_address block_len) (\<lambda>block.
            and_then (parse_messages f (ctx_sizes ctx) (new_cursor block) out rest) (\<lambda>(out', queue').
              follow_blocks f ctx (blocks + 1) (block_address # visited) out' queue')))"
  by auto
termination
  by (relation "measure (\<lambda>(f, ctx, blocks, visited, out, queue). Suc MAX_CONTINUATION_BLOCKS - blocks)") auto

declare follow_blocks.simps [simp del]

definition v1_prefix :: "(nat \<times> nat) parser" where
  "v1_prefix =
     bind_p u8 (\<lambda>ver.
       if ver \<noteq> 1 then fail_p (Unsupported ''object header version'')
       else bind_p (skip 1) (\<lambda>_. bind_p u16 (\<lambda>_. bind_p u32 (\<lambda>_. bind_p u32 (\<lambda>len. ret_p (ver, len))))))"

definition read_v1 :: "ctx \<Rightarrow> nat \<Rightarrow> object_header result" where
  "read_v1 ctx address =
     and_then (ctx_read ctx address 16) (\<lambda>prefix.
     and_then (run_p v1_prefix prefix) (\<lambda>(ver, first_block_len).
     and_then (add64 address 16) (\<lambda>first.
     and_then (follow_blocks V1 ctx 0 [] [] [(first, first_block_len)]) (\<lambda>out.
       Ok \<lparr>oh_address = address, oh_version = ver, messages = out\<rparr>))))"

definition v2_prefix :: "(nat \<times> nat \<times> nat \<times> nat) parser" where
  "v2_prefix =
     bind_p (take_bytes 4) (\<lambda>sig.
       if sig \<noteq> OHDR_SIGNATURE then fail_p (Malformed ''object header is missing its OHDR signature'')
       else bind_p u8 (\<lambda>ver.
         if ver \<noteq> 2 then fail_p (Unsupported ''OHDR object header version'')
         else bind_p u8 (\<lambda>flags.
           bind_p (if flags div 32 mod 2 \<noteq> 0 then skip 16 else ret_p ()) (\<lambda>_.
           bind_p (if flags div 16 mod 2 \<noteq> 0 then skip 4 else ret_p ()) (\<lambda>_.
           bind_p (read_uint (2 ^ (flags mod 4))) (\<lambda>chunk0_len.
           bind_p get_pos (\<lambda>prefix_len. ret_p (ver, flags, chunk0_len, prefix_len))))))))"

definition read_v2 :: "ctx \<Rightarrow> nat \<Rightarrow> object_header result" where
  "read_v2 ctx address =
     and_then (ctx_read_upto ctx address 32) (\<lambda>head.
     and_then (run_p v2_prefix head) (\<lambda>(ver, flags, chunk0_len, prefix_len).
     and_then (add64 prefix_len chunk0_len) (\<lambda>body_end.
     and_then (add64 body_end 4) (\<lambda>block_len.
     and_then (ctx_read ctx address block_len) (\<lambda>first_block.
     and_then (verify_checksum first_block body_end ''object header'') (\<lambda>_.
     and_then (slice_range first_block prefix_len body_end) (\<lambda>body.
     let f = V2 (flags div 4 mod 2 \<noteq> 0) in
     and_then (parse_messages f (ctx_sizes ctx) (new_cursor body) [] []) (\<lambda>(out, queue).
     and_then (follow_blocks f ctx 0 [address] out queue) (\<lambda>out'.
       Ok \<lparr>oh_address = address, oh_version = ver, messages = out'\<rparr>)))))))))"

definition read_object_header :: "ctx \<Rightarrow> nat \<Rightarrow> object_header result" where
  "read_object_header ctx address =
     and_then (ctx_read_upto ctx address 4) (\<lambda>probe.
       if length probe = 4 \<and> probe = OHDR_SIGNATURE then read_v2 ctx address else read_v1 ctx address)"

section \<open>What a header holds\<close>

definition surfaced :: "header_message \<Rightarrow> bool" where
  "surfaced m \<longleftrightarrow> msg_kind m \<noteq> NilMsg \<and> msg_kind m \<noteq> ObjectHeaderContinuationMsg"

definition framed :: "framing \<Rightarrow> header_message \<Rightarrow> bool" where
  "framed f m \<longleftrightarrow> msg_flags m < 256 \<and> length (msg_data m) < 65536 \<and>
     (case creation_order m of None \<Rightarrow> f \<noteq> V2 True | Some n \<Rightarrow> f = V2 True \<and> n < 65536)"

lemma frame_body_framed:
  assumes "frame_body code flags order sz c = Inr (Some m, c')" and "flags < 256" and "sz < 65536"
    and "case order of None \<Rightarrow> f \<noteq> V2 True | Some n \<Rightarrow> f = V2 True \<and> n < 65536"
  shows "framed f m"
  using assms by (auto simp: frame_body_def framed_def get_remaining_def take_bytes_Ok result_simps split: if_splits)

lemma read_frame_framed: "read_frame f c = Inr (Some m, c') \<Longrightarrow> framed f m"
  by (cases f) (auto simp: read_frame_def read_order_def result_simps
      dest!: u8_bound u16_bound split: if_splits elim!: frame_body_framed)

lemma parse_messages_well_formed:
  "parse_messages f s cur out queue = Inr (out', queue') \<Longrightarrow>
   \<forall>m \<in> set out. surfaced m \<and> framed f m \<Longrightarrow> \<forall>m \<in> set out'. surfaced m \<and> framed f m"
proof (induction f s cur out queue arbitrary: out' queue' rule: parse_messages.induct)
  case (1 f s cur out queue)
  show ?case
  proof (cases "remaining cur < frame_header_len f")
    case True
    then show ?thesis using "1.prems" by (simp add: parse_messages.simps [of f s cur])
  next
    case False
    then obtain frame cur' where fr: "read_frame f cur = Inr (frame, cur')"
      using "1.prems" by (auto simp: parse_messages.simps [of f s cur] result_simps)
    show ?thesis
    proof (cases frame)
      case None
      then show ?thesis using "1.prems" fr False by (simp add: parse_messages.simps [of f s cur])
    next
      case (Some m)
      have m: "framed f m" using fr Some read_frame_framed by simp
      consider target where "msg_kind m = ObjectHeaderContinuationMsg"
          "parse_continuation s (msg_data m) = Inr target"
          "parse_messages f s cur' out (target # queue) = Inr (out', queue')"
        | "msg_kind m \<noteq> ObjectHeaderContinuationMsg" "msg_kind m \<noteq> NilMsg"
          "parse_messages f s cur' (out @ [m]) queue = Inr (out', queue')"
        | "msg_kind m \<noteq> ObjectHeaderContinuationMsg" "\<not> msg_kind m \<noteq> NilMsg"
          "parse_messages f s cur' out queue = Inr (out', queue')"
        using "1.prems"(1) fr False Some
        by (auto simp: parse_messages.simps [of f s cur] result_simps split: if_splits)
      then show ?thesis
      proof cases
        case 1
        from "1.IH"(1) [OF False fr refl Some 1(1,2,3) "1.prems"(2)] show ?thesis .
      next
        case 2
        then have "\<forall>m \<in> set (out @ [m]). surfaced m \<and> framed f m"
          using "1.prems"(2) m by (simp add: surfaced_def)
        from "1.IH"(2) [OF False fr refl Some 2(1,2,3) this] show ?thesis .
      next
        case 3
        from "1.IH"(3) [OF False fr refl Some 3(1,2,3) "1.prems"(2)] show ?thesis .
      qed
    qed
  qed
qed

lemma follow_blocks_well_formed:
  "follow_blocks f ctx blocks visited out queue = Inr out' \<Longrightarrow>
   \<forall>m \<in> set out. surfaced m \<and> framed f m \<Longrightarrow> \<forall>m \<in> set out'. surfaced m \<and> framed f m"
proof (induction f ctx blocks visited out queue arbitrary: out' rule: follow_blocks.induct)
  case (1 f ctx blocks visited out queue)
  show ?case
  proof (cases queue)
    case Nil
    then show ?thesis using "1.prems" by (simp add: follow_blocks.simps [of f ctx blocks])
  next
    case (Cons b rest)
    obtain a len where b: "b = (a, len)" by (cases b)
    with Cons "1.prems"(1) obtain block out1 queue1 where
      s: "\<not> MAX_CONTINUATION_BLOCKS < blocks + 1" "a \<notin> set visited" "read_block f ctx a len = Inr block"
        "parse_messages f (ctx_sizes ctx) (new_cursor block) out rest = Inr (out1, queue1)"
        "follow_blocks f ctx (blocks + 1) (a # visited) out1 queue1 = Inr out'"
      by (auto simp: follow_blocks.simps [of f ctx blocks] result_simps split: if_splits)
    show ?thesis
      using "1.IH" [OF Cons b [symmetric] s(1) s(2) s(3) s(4) refl s(5)]
        parse_messages_well_formed [OF s(4)] "1.prems"(2) by blast
  qed
qed

section \<open>Headers written by the format's rules\<close>

text \<open>
  A version 2 header as a writer lays it out: a first chunk behind the \<open>OHDR\<close> prefix and a chain of
  \<open>OCHK\<close> blocks, each chunk but the last ending in a continuation message for the next.
\<close>

definition code_of :: "message_type \<Rightarrow> nat" where
  "code_of k = (case k of UnknownMsg c \<Rightarrow> c | _ \<Rightarrow> position_or (\<lambda>x. x = k) known_types 0)"

definition encode_frame :: "header_message \<Rightarrow> bytes" where
  "encode_frame m =
     to_le 1 (code_of (msg_kind m)) @ to_le 2 (length (msg_data m)) @ to_le 1 (msg_flags m) @
     (case creation_order m of None \<Rightarrow> [] | Some n \<Rightarrow> to_le 2 n) @ msg_data m"

definition encodable :: "bool \<Rightarrow> header_message \<Rightarrow> bool" where
  "encodable tracks m \<longleftrightarrow>
     framed (V2 tracks) m \<and> from_code (code_of (msg_kind m)) = msg_kind m \<and> code_of (msg_kind m) < 256"

definition continuation_message :: "sizes \<Rightarrow> bool \<Rightarrow> nat \<times> nat \<Rightarrow> header_message" where
  "continuation_message s tracks target =
     \<lparr>msg_kind = ObjectHeaderContinuationMsg, msg_flags = 0,
      creation_order = (if tracks then Some 0 else None),
      msg_data = encode_address s (Some (fst target)) @ to_le (length_size s) (snd target)\<rparr>"

definition chunk_body :: "sizes \<Rightarrow> bool \<Rightarrow> header_message list \<Rightarrow> (nat \<times> nat) option \<Rightarrow> bytes" where
  "chunk_body s tracks ms target =
     concat (map encode_frame (ms @ (case target of None \<Rightarrow> [] | Some t \<Rightarrow> [continuation_message s tracks t])))"

definition with_checksum :: "bytes \<Rightarrow> bytes" where
  "with_checksum b = b @ to_le 4 (unat (metadata b))"

definition ochk_block :: "bytes \<Rightarrow> bytes" where
  "ochk_block body = with_checksum (OCHK_SIGNATURE @ body)"

definition ohdr_prefix :: "nat \<Rightarrow> bytes \<Rightarrow> bytes \<Rightarrow> nat \<Rightarrow> bytes" where
  "ohdr_prefix flags stamps phase len =
     OHDR_SIGNATURE @ to_le 1 2 @ to_le 1 flags @ stamps @ phase @ to_le (2 ^ (flags mod 4)) len"

definition ohdr_block :: "nat \<Rightarrow> bytes \<Rightarrow> bytes \<Rightarrow> bytes \<Rightarrow> bytes" where
  "ohdr_block flags stamps phase body = with_checksum (ohdr_prefix flags stamps phase (length body) @ body)"

type_synonym chain = "(nat \<times> header_message list) list"

fun chain_target :: "sizes \<Rightarrow> bool \<Rightarrow> chain \<Rightarrow> (nat \<times> nat) option" where
  "chain_target s tracks [] = None"
| "chain_target s tracks ((a, ms) # rest) =
     Some (a, length (ochk_block (chunk_body s tracks ms (chain_target s tracks rest))))"

definition stored_at :: "ctx \<Rightarrow> bytes \<Rightarrow> nat \<Rightarrow> bytes \<Rightarrow> bool" where
  "stored_at ctx contents address block \<longleftrightarrow>
     resolve (ctx_superblock ctx) address + length block \<le> length contents \<and>
     slice (resolve (ctx_superblock ctx) address) (length block) contents = block"

fun chain_stored :: "sizes \<Rightarrow> bool \<Rightarrow> ctx \<Rightarrow> bytes \<Rightarrow> chain \<Rightarrow> bool" where
  "chain_stored s tracks ctx contents [] \<longleftrightarrow> True"
| "chain_stored s tracks ctx contents ((a, ms) # rest) \<longleftrightarrow>
     fits_address s (Some a) \<and> snd (the (chain_target s tracks ((a, ms) # rest))) < 256 ^ length_size s \<and>
     (\<forall>m \<in> set ms. encodable tracks m \<and> msg_kind m \<noteq> ObjectHeaderContinuationMsg) \<and>
     stored_at ctx contents a (ochk_block (chunk_body s tracks ms (chain_target s tracks rest))) \<and>
     chain_stored s tracks ctx contents rest"

definition visible :: "header_message list \<Rightarrow> header_message list" where
  "visible ms = filter (\<lambda>m. msg_kind m \<noteq> NilMsg) ms"

lemma reads_frame_body:
  "length data = sz \<Longrightarrow>
   reads (frame_body code flags order sz) data
     (Some \<lparr>msg_kind = from_code code, msg_flags = flags, creation_order = order, msg_data = data\<rparr>)"
  using reads_take [of data sz]
  by (auto simp: frame_body_def reads_def bind_p_def get_remaining_def remaining_def ret_p_def)

lemma reads_read_order:
  "(case order of None \<Rightarrow> \<not> tracks | Some n \<Rightarrow> tracks \<and> n < 65536) \<Longrightarrow>
   reads (read_order tracks) (case order of None \<Rightarrow> [] | Some n \<Rightarrow> to_le 2 n) order"
  unfolding read_order_def
  by (cases order) (auto simp del: to_le.simps intro!: reads_ret reads_bind_last [OF reads_u16])

lemma reads_frame:
  assumes "encodable tracks m"
  shows "reads (read_frame (V2 tracks)) (encode_frame m) (Some m)"
proof -
  have e: "from_code (code_of (msg_kind m)) = msg_kind m" "code_of (msg_kind m) < 256"
    "length (msg_data m) < 65536" "msg_flags m < 256"
    "case creation_order m of None \<Rightarrow> \<not> tracks | Some n \<Rightarrow> tracks \<and> n < 65536"
    using assms by (auto simp: encodable_def framed_def split: option.splits)
  have "reads (frame_body (code_of (msg_kind m)) (msg_flags m) (creation_order m) (length (msg_data m)))
      (msg_data m) (Some m)"
    using reads_frame_body [of "msg_data m" "length (msg_data m)" "code_of (msg_kind m)" "msg_flags m" "creation_order m"] e(1)
    by (cases m) simp
  then show ?thesis
    unfolding read_frame_def framing.case encode_frame_def
    by (intro reads_bind [OF reads_u8 [OF e(2)]] reads_bind [OF reads_u16 [OF e(3)]]
        reads_bind [OF reads_u8 [OF e(4)]] reads_bind [OF reads_read_order [OF e(5)]])
qed

lemma length_encode_frame:
  "encodable tracks m \<Longrightarrow> length (encode_frame m) = frame_header_len (V2 tracks) + length (msg_data m)"
  by (auto simp: encode_frame_def encodable_def framed_def frame_header_len_def split: option.splits)

lemma parse_messages_encoded:
  assumes "\<forall>m \<in> set ms. encodable tracks m"
    and "\<forall>m \<in> set ms. msg_kind m = ObjectHeaderContinuationMsg \<longrightarrow> parse_continuation s (msg_data m) = Ok (target m)"
    and "length (pre @ concat (map encode_frame ms)) \<le> isize_max"
  shows "parse_messages (V2 tracks) s \<lparr>buf = pre @ concat (map encode_frame ms), pos = length pre\<rparr> out queue =
    Ok (out @ filter surfaced ms,
        rev (map target (filter (\<lambda>m. msg_kind m = ObjectHeaderContinuationMsg) ms)) @ queue)"
  using assms
proof (induction ms arbitrary: pre out queue)
  case Nil
  then show ?case
    using frame_header_len_pos [of "V2 tracks"] by (simp add: parse_messages.simps [of "V2 tracks"] remaining_def)
next
  case (Cons m ms)
  define c where "c = \<lparr>buf = pre @ concat (map encode_frame (m # ms)), pos = length pre\<rparr>"
  define c' where "c' = \<lparr>buf = (pre @ encode_frame m) @ concat (map encode_frame ms), pos = length (pre @ encode_frame m)\<rparr>"
  have m: "encodable tracks m" using Cons.prems(1) by simp
  have fr: "read_frame (V2 tracks) c = Ok (Some m, c')"
    using reads_frame [OF m, unfolded reads_def, rule_format, of pre "concat (map encode_frame ms)"]
      Cons.prems(3) by (simp add: c_def c'_def)
  have rem: "\<not> remaining c < frame_header_len (V2 tracks)"
    using length_encode_frame [OF m] by (simp add: remaining_def c_def)
  have IH: "parse_messages (V2 tracks) s c' out' queue' =
      Ok (out' @ filter surfaced ms,
          rev (map target (filter (\<lambda>m. msg_kind m = ObjectHeaderContinuationMsg) ms)) @ queue')" for out' queue'
    unfolding c'_def by (rule Cons.IH) (use Cons.prems in auto)
  show ?case
    using Cons.prems(2) rem unfolding c_def [symmetric]
    by (auto simp: parse_messages.simps [of "V2 tracks" s c] fr IH surfaced_def [of m])
qed

lemma framed_continuation:
  assumes "sizes_ok s"
  shows "encodable tracks (continuation_message s tracks target)"
proof -
  have "offset_size s + length_size s < 65536" using assms by (auto simp: sizes_ok_def)
  then show ?thesis
    by (simp add: encodable_def framed_def continuation_message_def code_of_def known_types_def position_or_def
        from_code_def encode_address_def del: to_le.simps)
qed

lemma parse_continuation_encoded:
  assumes "sizes_ok s" and "fits_address s (Some a)" and "len < 256 ^ length_size s"
  shows "parse_continuation s (msg_data (continuation_message s tracks (a, len))) = Ok (a, len)"
proof -
  have w: "0 < offset_size s" "offset_size s \<le> 8" "0 < length_size s" "length_size s \<le> 8"
    using assms(1) by (auto simp: sizes_ok_def)
  have "reads (parse_continuation_p s) (msg_data (continuation_message s tracks (a, len))) (a, len)"
    unfolding parse_continuation_p_def continuation_message_def read_length_def header_message.simps fst_conv snd_conv
    by (rule reads_bind [OF reads_address_required [OF w(1,2) assms(2)]],
        rule reads_bind_last [OF reads_uint [OF w(3,4) assms(3)]], rule reads_ret)
  from run_p_reads [OF this, of "[]"] show ?thesis
    using w by (simp add: parse_continuation_def continuation_message_def encode_address_def isize_max_def)
qed

definition target_ok :: "sizes \<Rightarrow> (nat \<times> nat) option \<Rightarrow> bool" where
  "target_ok s t \<longleftrightarrow> (case t of None \<Rightarrow> True | Some (a, len) \<Rightarrow> fits_address s (Some a) \<and> len < 256 ^ length_size s)"

definition as_queue :: "'a option \<Rightarrow> 'a list" where
  "as_queue t = (case t of None \<Rightarrow> [] | Some x \<Rightarrow> [x])"

lemma parse_chunk_body:
  assumes s: "sizes_ok s" and t: "target_ok s t"
    and ms: "\<forall>m \<in> set ms. encodable tracks m \<and> msg_kind m \<noteq> ObjectHeaderContinuationMsg"
    and len: "length (chunk_body s tracks ms t) \<le> isize_max"
  shows "parse_messages (V2 tracks) s (new_cursor (chunk_body s tracks ms t)) out queue =
    Ok (out @ visible ms, as_queue t @ queue)"
proof -
  let ?all = "ms @ (case t of None \<Rightarrow> [] | Some x \<Rightarrow> [continuation_message s tracks x])"
  let ?target = "\<lambda>_. the t"
  have enc: "\<forall>m \<in> set ?all. encodable tracks m"
    using ms framed_continuation [OF s] by (auto split: option.splits)
  have tgt: "\<forall>m \<in> set ?all. msg_kind m = ObjectHeaderContinuationMsg \<longrightarrow> parse_continuation s (msg_data m) = Ok (?target m)"
    using ms t parse_continuation_encoded [OF s] by (auto simp: target_ok_def split: option.splits)
  have vis: "filter surfaced ?all = visible ms"
    using ms by (auto simp: visible_def surfaced_def continuation_message_def split: option.splits intro!: filter_cong)
  have cont: "rev (map ?target (filter (\<lambda>m. msg_kind m = ObjectHeaderContinuationMsg) ?all)) = as_queue t"
    using ms by (auto simp: as_queue_def continuation_message_def filter_empty_conv split: option.splits)
  show ?thesis
    using parse_messages_encoded [OF enc tgt, of "[]" out queue] len unfolding vis cont
    by (simp add: chunk_body_def new_cursor_def)
qed

lemma verify_with_checksum:
  assumes "length (with_checksum b) \<le> isize_max"
  shows "verify_checksum (with_checksum b) (length b) what = Ok ()"
proof -
  have "unat (metadata b) < 4294967296" using unsigned_less [of "metadata b"] by simp
  then show ?thesis
    using assms by (simp add: verify_checksum_def with_checksum_def add64_def u64_max_def isize_max_def slice_def
        Let_def del: to_le.simps)
qed

context reader
begin

lemma ctx_read_stored:
  "stored_at ctx contents address block \<Longrightarrow> ctx_read ctx address (length block) = Ok block"
  using ctx_read_inside [of address "length block"] by (auto simp: stored_at_def)

lemma stored_small: "stored_at ctx contents address block \<Longrightarrow> length block \<le> isize_max"
  using byte_source.contents_small [OF source] by (simp add: stored_at_def)

lemma read_block_stored:
  assumes "stored_at ctx contents address (ochk_block body)"
  shows "read_block (V2 tracks) ctx address (length (ochk_block body)) = Ok body"
proof -
  have len: "length (ochk_block body) = length body + 8"
    by (simp add: ochk_block_def with_checksum_def OCHK_SIGNATURE_def)
  have "length (with_checksum (OCHK_SIGNATURE @ body)) \<le> isize_max"
    using stored_small [OF assms] by (simp add: ochk_block_def)
  from verify_with_checksum [OF this] have chk: "verify_checksum (ochk_block body) (4 + length body) what = Ok ()" for what
    by (simp add: ochk_block_def OCHK_SIGNATURE_def numeral_eq_Suc)
  show ?thesis
    using ctx_read_stored [OF assms] chk unfolding len
    by (simp add: read_block_def slice_range_def len) (simp add: ochk_block_def with_checksum_def OCHK_SIGNATURE_def slice_def)
qed

lemma follow_chain:
  assumes "sizes_ok (ctx_sizes ctx)"
  shows "chain_stored (ctx_sizes ctx) tracks ctx contents chain \<Longrightarrow> distinct (map fst chain @ visited) \<Longrightarrow>
    blocks + length chain \<le> MAX_CONTINUATION_BLOCKS \<Longrightarrow>
    follow_blocks (V2 tracks) ctx blocks visited out (as_queue (chain_target (ctx_sizes ctx) tracks chain)) =
      Ok (out @ concat (map (\<lambda>(_, ms). visible ms) chain))"
proof (induction chain arbitrary: blocks visited out)
  case Nil
  then show ?case by (simp add: as_queue_def follow_blocks.simps [of _ _ blocks])
next
  case (Cons b rest)
  obtain a ms where b: "b = (a, ms)" by (cases b)
  let ?t = "chain_target (ctx_sizes ctx) tracks rest"
  let ?body = "chunk_body (ctx_sizes ctx) tracks ms ?t"
  have st: "stored_at ctx contents a (ochk_block ?body)"
    and ms: "\<forall>m \<in> set ms. encodable tracks m \<and> msg_kind m \<noteq> ObjectHeaderContinuationMsg"
    and rest: "chain_stored (ctx_sizes ctx) tracks ctx contents rest"
    using Cons.prems(1) by (simp_all add: b)
  have t: "target_ok (ctx_sizes ctx) ?t"
    using rest by (cases rest) (auto simp: target_ok_def)
  have body: "length ?body \<le> isize_max"
    using stored_small [OF st] by (simp add: ochk_block_def with_checksum_def OCHK_SIGNATURE_def)
  have "distinct (map fst rest @ a # visited)" "blocks + 1 + length rest \<le> MAX_CONTINUATION_BLOCKS"
    using Cons.prems(2,3) by (auto simp: b)
  from Cons.IH [OF rest this, of "out @ visible ms"] show ?case
    using Cons.prems(2,3) read_block_stored [OF st, of tracks] parse_chunk_body [OF assms t ms body, of out "[]"]
    by (simp add: b as_queue_def [of "Some _"] follow_blocks.simps [of _ _ blocks])
qed

end

lemma reads_ohdr_prefix:
  assumes "flags < 256" and "length stamps = (if flags div 32 mod 2 \<noteq> 0 then 16 else 0)"
    and "length phase = (if flags div 16 mod 2 \<noteq> 0 then 4 else 0)" and "len < 256 ^ 2 ^ (flags mod 4)"
  shows "reads_at [] post v2_prefix (ohdr_prefix flags stamps phase len)
    (2, flags, len, length (ohdr_prefix flags stamps phase len))"
proof -
  have "flags mod 4 \<le> 3" using mod_less_divisor [of 4 flags] by linarith
  then have w: "0 < (2 :: nat) ^ (flags mod 4)" "(2 :: nat) ^ (flags mod 4) \<le> 8"
    using power_increasing [of "flags mod 4" 3 "2 :: nat"] by simp_all
  have opt: "reads (if P then skip n else ret_p ()) xs ()" if "length xs = (if P then n else 0)" for P n xs
    using that by (auto intro: reads_skip reads_ret)
  have pos: "reads_at (((((OHDR_SIGNATURE @ to_le 1 2) @ to_le 1 flags) @ stamps) @ phase) @ to_le (2 ^ (flags mod 4)) len)
      post (bind_p get_pos (\<lambda>prefix_len. ret_p (2, flags, len, prefix_len))) []
      (2, flags, len, length (ohdr_prefix flags stamps phase len))"
    by (rule reads_at_pos) (simp add: ohdr_prefix_def reads_at_def ret_p_def del: to_le.simps)
  have flag: "reads_at (OHDR_SIGNATURE @ to_le 1 2) post
      (bind_p u8 (\<lambda>flags.
       bind_p (if flags div 32 mod 2 \<noteq> 0 then skip 16 else ret_p ()) (\<lambda>_.
       bind_p (if flags div 16 mod 2 \<noteq> 0 then skip 4 else ret_p ()) (\<lambda>_.
       bind_p (read_uint (2 ^ (flags mod 4))) (\<lambda>chunk0_len.
       bind_p get_pos (\<lambda>prefix_len. ret_p (2 :: nat, flags, chunk0_len, prefix_len)))))))
      (to_le 1 flags @ stamps @ phase @ to_le (2 ^ (flags mod 4)) len)
      (2, flags, len, length (ohdr_prefix flags stamps phase len))"
    by (rule reads_at_step [OF reads_u8 [OF assms(1)]], rule reads_at_step [OF opt [OF assms(2)]],
        rule reads_at_step [OF opt [OF assms(3)]], rule reads_at_step_last [OF reads_uint [OF w assms(4)]], rule pos)
  have two: "reads_at OHDR_SIGNATURE post
      (bind_p u8 (\<lambda>ver.
         if ver \<noteq> 2 then fail_p (Unsupported ''OHDR object header version'')
         else bind_p u8 (\<lambda>flags.
           bind_p (if flags div 32 mod 2 \<noteq> 0 then skip 16 else ret_p ()) (\<lambda>_.
           bind_p (if flags div 16 mod 2 \<noteq> 0 then skip 4 else ret_p ()) (\<lambda>_.
           bind_p (read_uint (2 ^ (flags mod 4))) (\<lambda>chunk0_len.
           bind_p get_pos (\<lambda>prefix_len. ret_p (ver, flags, chunk0_len, prefix_len))))))))
      (to_le 1 2 @ to_le 1 flags @ stamps @ phase @ to_le (2 ^ (flags mod 4)) len)
      (2, flags, len, length (ohdr_prefix flags stamps phase len))"
    by (rule reads_at_step [OF reads_u8 [of 2]]) (use flag in \<open>simp_all del: to_le.simps\<close>)
  have "reads_at [] post v2_prefix
      (OHDR_SIGNATURE @ to_le 1 2 @ to_le 1 flags @ stamps @ phase @ to_le (2 ^ (flags mod 4)) len)
      (2, flags, len, length (ohdr_prefix flags stamps phase len))"
    unfolding v2_prefix_def
    by (rule reads_at_step [OF reads_take [of OHDR_SIGNATURE 4]])
      (use two in \<open>simp_all add: OHDR_SIGNATURE_def del: to_le.simps\<close>)
  then show ?thesis by (simp only: ohdr_prefix_def)
qed

definition stored_header ::
  "ctx \<Rightarrow> bytes \<Rightarrow> nat \<Rightarrow> nat \<Rightarrow> bytes \<Rightarrow> bytes \<Rightarrow> header_message list \<Rightarrow> chain \<Rightarrow> bool" where
  "stored_header ctx contents address flags stamps phase ms chain \<longleftrightarrow>
     (let s = ctx_sizes ctx; tracks = flags div 4 mod 2 \<noteq> 0;
          body = chunk_body s tracks ms (chain_target s tracks chain)
      in sizes_ok s \<and> flags < 256 \<and>
         length stamps = (if flags div 32 mod 2 \<noteq> 0 then 16 else 0) \<and>
         length phase = (if flags div 16 mod 2 \<noteq> 0 then 4 else 0) \<and>
         length body < 256 ^ 2 ^ (flags mod 4) \<and>
         (\<forall>m \<in> set ms. encodable tracks m \<and> msg_kind m \<noteq> ObjectHeaderContinuationMsg) \<and>
         stored_at ctx contents address (ohdr_block flags stamps phase body) \<and>
         chain_stored s tracks ctx contents chain \<and>
         distinct (map fst chain @ [address]) \<and> length chain \<le> MAX_CONTINUATION_BLOCKS)"

definition prefix_len :: "nat \<Rightarrow> nat" where
  "prefix_len flags = 6 + (if flags div 32 mod 2 \<noteq> 0 then 16 else 0) + (if flags div 16 mod 2 \<noteq> 0 then 4 else 0)
     + 2 ^ (flags mod 4)"

lemma length_ohdr_prefix:
  "length (ohdr_prefix flags stamps phase len) = 6 + length stamps + length phase + 2 ^ (flags mod 4)"
  by (simp add: ohdr_prefix_def OHDR_SIGNATURE_def)

context reader
begin

lemma ctx_read_upto_stored:
  assumes "stored_at ctx contents address block"
  obtains post where "ctx_read_upto ctx address n = Ok (take n block @ post)" "length (take n block @ post) \<le> n"
    "n \<le> length block \<Longrightarrow> post = []"
proof -
  let ?o = "file_offset address"
  have "take (length block) (drop ?o contents) = block" using assms by (simp add: stored_at_def slice_def)
  then have split: "drop ?o contents = block @ drop (length block) (drop ?o contents)"
    by (metis append_take_drop_id)
  have "slice ?o n contents = take n block @ take (n - length block) (drop (length block) (drop ?o contents))"
    unfolding slice_def by (subst split) simp
  moreover have "?o \<le> length contents" using assms by (simp add: stored_at_def)
  ultimately show thesis
    using that [of "take (n - length block) (drop (length block) (drop ?o contents))"]
      ctx_read_upto_inside [of address n] by simp
qed

lemma read_stored_header:
  assumes st: "stored_header ctx contents address flags stamps phase ms chain" and small: "prefix_len flags \<le> 32"
  shows "read_object_header ctx address =
    Ok \<lparr>oh_address = address, oh_version = 2,
       messages = visible ms @ concat (map (\<lambda>(_, ms). visible ms) chain)\<rparr>"
proof -
  define s where "s = ctx_sizes ctx"
  define tracks where "tracks \<longleftrightarrow> flags div 4 mod 2 \<noteq> 0"
  define t where "t = chain_target s tracks chain"
  define body where "body = chunk_body s tracks ms t"
  define pre where "pre = ohdr_prefix flags stamps phase (length body)"
  define block where "block = ohdr_block flags stamps phase body"
  note defs = s_def tracks_def t_def body_def
  have h: "sizes_ok s" "flags < 256" "length body < 256 ^ 2 ^ (flags mod 4)"
    "length stamps = (if flags div 32 mod 2 \<noteq> 0 then 16 else 0)"
    "length phase = (if flags div 16 mod 2 \<noteq> 0 then 4 else 0)"
    and ms: "\<forall>m \<in> set ms. encodable tracks m \<and> msg_kind m \<noteq> ObjectHeaderContinuationMsg"
    and block: "stored_at ctx contents address block" and chain: "chain_stored s tracks ctx contents chain"
    and dist: "distinct (map fst chain @ [address])" "0 + length chain \<le> MAX_CONTINUATION_BLOCKS"
    using st by (simp_all add: stored_header_def Let_def defs block_def)
  have b: "block = with_checksum (pre @ body)" by (simp add: block_def ohdr_block_def pre_def)
  have len: "length block = length pre + length body + 4" by (simp add: b with_checksum_def)
  have small': "length pre \<le> 32" using small h(4,5) by (simp add: pre_def length_ohdr_prefix prefix_len_def)
  have lens: "length block \<le> isize_max" "length body \<le> isize_max" using stored_small [OF block] len by simp_all
  have sig: "take 4 block = OHDR_SIGNATURE"
    by (simp add: b with_checksum_def pre_def ohdr_prefix_def OHDR_SIGNATURE_def)
  have probe: "ctx_read_upto ctx address 4 = Ok OHDR_SIGNATURE"
    using ctx_read_upto_stored [OF block, of 4] sig len by (metis append_Nil2 le_add2)
  obtain post where head: "ctx_read_upto ctx address 32 = Ok (take 32 block @ post)" "length (take 32 block @ post) \<le> 32"
    using ctx_read_upto_stored [OF block, of 32] by metis
  obtain rest where rest: "take 32 block @ post = pre @ rest"
    using small' by (auto simp: b with_checksum_def)
  have "run_p v2_prefix (pre @ rest) = Ok (2, flags, length body, length pre)"
    unfolding pre_def
    by (rule run_p_reads_at [OF reads_ohdr_prefix [OF h(2,4,5,3)]])
      (use head(2) rest in \<open>simp add: pre_def isize_max_def\<close>)
  note prefix = this [folded rest]
  have first: "ctx_read ctx address (length pre + length body + 4) = Ok block"
    using ctx_read_stored [OF block] len by simp
  have chk: "verify_checksum block (length pre + length body) what = Ok ()" for what
    using verify_with_checksum [of "pre @ body"] lens(1) by (simp add: b)
  have area: "slice_range block (length pre) (length pre + length body) = Ok body"
    by (simp add: slice_range_def slice_def b with_checksum_def)
  have tok: "target_ok s t" using chain by (cases chain) (auto simp: target_ok_def t_def)
  have msgs: "parse_messages (V2 tracks) s (new_cursor body) [] [] = Ok (visible ms, as_queue t)"
    using parse_chunk_body [OF h(1) tok ms, of "[]" "[]"] lens(2) by (simp add: body_def)
  have follow: "follow_blocks (V2 tracks) ctx 0 [address] (visible ms) (as_queue t) =
      Ok (visible ms @ concat (map (\<lambda>(_, ms). visible ms) chain))"
    using follow_chain [of tracks chain "[address]" 0 "visible ms"] h(1) chain dist by (simp add: s_def t_def)
  have tr: "(flags div 4 mod 2 = Suc 0) = tracks" by (auto simp: tracks_def)
  have "read_v2 ctx address = Ok \<lparr>oh_address = address, oh_version = 2,
      messages = visible ms @ concat (map (\<lambda>(_, ms). visible ms) chain)\<rparr>"
    using lens(1) by (simp add: read_v2_def head(1) prefix first chk area add64_def len isize_max_def u64_max_def
        Let_def tr msgs follow s_def [symmetric])
  then show ?thesis by (simp add: read_object_header_def probe) (simp add: OHDR_SIGNATURE_def)
qed

end

definition fails_at :: "bytes \<Rightarrow> bytes \<Rightarrow> 'a parser \<Rightarrow> bool" where
  "fails_at pre post p \<longleftrightarrow>
     (length (pre @ post) \<le> isize_max \<longrightarrow> (\<exists>off len n. p \<lparr>buf = pre @ post, pos = length pre\<rparr> =
        Error (OutOfBounds ''metadata'' off len n)))"

lemma fails_at_step: "reads p xs v \<Longrightarrow> fails_at (pre @ xs) post (f v) \<Longrightarrow> fails_at pre (xs @ post) (bind_p p f)"
  by (auto simp: fails_at_def reads_def bind_p_def)

lemma fails_at_uint: "length post < w \<Longrightarrow> w \<le> 8 \<Longrightarrow> fails_at pre post (bind_p (read_uint w) f)"
  by (auto simp: fails_at_def read_uint_def bind_p_def take_bytes_def checked_add_def oob_def split: option.splits)

lemma wide_prefix_fails:
  assumes "flags < 256" and "flags div 32 mod 2 \<noteq> 0" and "flags div 16 mod 2 \<noteq> 0" and "flags mod 4 = 3"
    and "length stamps = 16" and "length phase = 4" and "length post = 6"
  shows "fails_at [] (OHDR_SIGNATURE @ to_le 1 2 @ to_le 1 flags @ stamps @ phase @ post) v2_prefix"
proof -
  have "fails_at (((OHDR_SIGNATURE @ to_le 1 2) @ to_le 1 flags) @ stamps) (phase @ post)
      (bind_p (skip 4) (\<lambda>_. bind_p (read_uint (2 ^ 3)) (\<lambda>chunk0_len.
       bind_p get_pos (\<lambda>prefix_len. ret_p (2 :: nat, flags, chunk0_len, prefix_len)))))"
    by (rule fails_at_step [OF reads_skip [OF assms(6)]], rule fails_at_uint) (use assms(7) in simp_all)
  then have "fails_at ((OHDR_SIGNATURE @ to_le 1 2) @ to_le 1 flags) (stamps @ phase @ post)
      (bind_p (skip 16) (\<lambda>_. bind_p (skip 4) (\<lambda>_. bind_p (read_uint (2 ^ 3)) (\<lambda>chunk0_len.
       bind_p get_pos (\<lambda>prefix_len. ret_p (2 :: nat, flags, chunk0_len, prefix_len))))))"
    by (rule fails_at_step [OF reads_skip [OF assms(5)]])
  then have "fails_at (OHDR_SIGNATURE @ to_le 1 2) (to_le 1 flags @ stamps @ phase @ post)
      (bind_p u8 (\<lambda>flags.
       bind_p (if flags div 32 mod 2 \<noteq> 0 then skip 16 else ret_p ()) (\<lambda>_.
       bind_p (if flags div 16 mod 2 \<noteq> 0 then skip 4 else ret_p ()) (\<lambda>_.
       bind_p (read_uint (2 ^ (flags mod 4))) (\<lambda>chunk0_len.
       bind_p get_pos (\<lambda>prefix_len. ret_p (2 :: nat, flags, chunk0_len, prefix_len)))))))"
    by (intro fails_at_step [OF reads_u8 [OF assms(1)]]) (use assms(2-4) in \<open>simp del: to_le.simps\<close>)
  then have "fails_at OHDR_SIGNATURE (to_le 1 2 @ to_le 1 flags @ stamps @ phase @ post)
      (bind_p u8 (\<lambda>ver.
         if ver \<noteq> 2 then fail_p (Unsupported ''OHDR object header version'')
         else bind_p u8 (\<lambda>flags.
           bind_p (if flags div 32 mod 2 \<noteq> 0 then skip 16 else ret_p ()) (\<lambda>_.
           bind_p (if flags div 16 mod 2 \<noteq> 0 then skip 4 else ret_p ()) (\<lambda>_.
           bind_p (read_uint (2 ^ (flags mod 4))) (\<lambda>chunk0_len.
           bind_p get_pos (\<lambda>prefix_len. ret_p (ver, flags, chunk0_len, prefix_len))))))))"
    by (intro fails_at_step [OF reads_u8 [of 2]]) (simp_all del: to_le.simps)
  then show ?thesis
    unfolding v2_prefix_def
    by (intro fails_at_step [where pre = "[]" and xs = OHDR_SIGNATURE, OF reads_take])
      (auto simp: OHDR_SIGNATURE_def simp del: to_le.simps)
qed

context reader
begin

lemma stored_prefix:
  assumes "stored_at ctx contents address block" and "take 4 block = OHDR_SIGNATURE" and "take 32 block @ post = head"
    and "ctx_read_upto ctx address 32 = Ok head"
  shows "read_object_header ctx address = read_v2 ctx address"
proof -
  have "4 \<le> length block" using arg_cong [OF assms(2), of length] by (simp add: OHDR_SIGNATURE_def)
  then have "ctx_read_upto ctx address 4 = Ok OHDR_SIGNATURE"
    using ctx_read_upto_stored [OF assms(1), of 4] assms(2) by (metis append_Nil2)
  then show ?thesis by (simp add: read_object_header_def) (simp add: OHDR_SIGNATURE_def)
qed

lemma wide_header:
  assumes st: "stored_header ctx contents address flags stamps phase ms chain" and wide: "32 < prefix_len flags"
  shows "\<exists>off len n. read_object_header ctx address = Error (OutOfBounds ''metadata'' off len n)"
proof -
  obtain body where h: "flags < 256" "length stamps = (if flags div 32 mod 2 \<noteq> 0 then 16 else 0)"
    "length phase = (if flags div 16 mod 2 \<noteq> 0 then 4 else 0)"
    and block: "stored_at ctx contents address (ohdr_block flags stamps phase body)"
    using st by (auto simp: stored_header_def Let_def)
  let ?block = "ohdr_block flags stamps phase body"
  have "flags mod 4 \<le> 3" using mod_less_divisor [of 4 flags] by linarith
  then have "flags mod 4 \<le> 2 \<or> flags mod 4 = 3" by linarith
  then have f: "flags div 32 mod 2 \<noteq> 0" "flags div 16 mod 2 \<noteq> 0" "flags mod 4 = 3"
    using wide power_increasing [of "flags mod 4" 2 "2 :: nat"] by (auto simp: prefix_len_def split: if_splits)
  have h': "length stamps = 16" "length phase = 4" using h f by simp_all
  have b: "?block = (OHDR_SIGNATURE @ to_le 1 2 @ to_le 1 flags @ stamps @ phase) @ (to_le 8 (length body) @ body @
      to_le 4 (unat (metadata (ohdr_prefix flags stamps phase (length body) @ body))))"
    using f(3) by (simp add: ohdr_block_def with_checksum_def ohdr_prefix_def del: to_le.simps)
  define post where "post = take 6 (to_le 8 (length body))"
  have t32: "take 32 ?block = OHDR_SIGNATURE @ to_le 1 2 @ to_le 1 flags @ stamps @ phase @ post"
    unfolding b post_def using h' by (simp add: OHDR_SIGNATURE_def take_Cons' del: to_le.simps)
  have "32 \<le> length ?block" using h' f(3) by (simp add: b OHDR_SIGNATURE_def)
  then have head: "ctx_read_upto ctx address 32 = Ok (take 32 ?block)"
    using ctx_read_upto_stored [OF block, of 32] by (metis append_Nil2)
  have sig: "take 4 ?block = OHDR_SIGNATURE" unfolding b by (simp add: OHDR_SIGNATURE_def)
  have "fails_at [] (take 32 ?block) v2_prefix"
    unfolding t32 by (rule wide_prefix_fails [OF h(1) f h']) (simp add: post_def)
  then obtain off len n where "run_p v2_prefix (take 32 ?block) = Error (OutOfBounds ''metadata'' off len n)"
    by (auto simp: fails_at_def run_p_def new_cursor_def isize_max_def)
  then show ?thesis
    using stored_prefix [OF block sig, of "[]"] head by (simp add: read_v2_def)
qed

lemma huge_header:
  assumes st: "stored_at ctx contents address (ohdr_prefix flags stamps phase len)"
    and h: "flags < 256" "length stamps = (if flags div 32 mod 2 \<noteq> 0 then 16 else 0)"
      "length phase = (if flags div 16 mod 2 \<noteq> 0 then 4 else 0)" "len < 256 ^ 2 ^ (flags mod 4)"
    and small: "prefix_len flags \<le> 32" and huge: "u64_max < prefix_len flags + len + 4"
  shows "read_object_header ctx address = Inl Panic"
proof -
  let ?pre = "ohdr_prefix flags stamps phase len"
  have lp: "length ?pre = prefix_len flags" using h by (simp add: length_ohdr_prefix prefix_len_def)
  obtain post where head: "ctx_read_upto ctx address 32 = Ok (take 32 ?pre @ post)" "length (take 32 ?pre @ post) \<le> 32"
    using ctx_read_upto_stored [OF st, of 32] by metis
  have all: "take 32 ?pre = ?pre" using small by (simp add: lp)
  have "run_p v2_prefix (?pre @ post) = Ok (2, flags, len, prefix_len flags)"
    unfolding lp [symmetric] by (rule run_p_reads_at [OF reads_ohdr_prefix [OF h]]) (use head(2) all in \<open>simp add: isize_max_def\<close>)
  moreover have "take 4 ?pre = OHDR_SIGNATURE" by (simp add: ohdr_prefix_def OHDR_SIGNATURE_def)
  ultimately show ?thesis
    using stored_prefix [OF st _ refl] head huge by (auto simp: all read_v2_def add64_def)
qed

end

lemma v2_prefix_version: "run_p v2_prefix b = Inr (ver, x) \<Longrightarrow> ver = 2"
  by (auto simp: v2_prefix_def run_p_def fail_p_def result_simps split: if_splits)

lemma read_v2_OkE:
  assumes "read_v2 ctx address = Inr oh"
  obtains f c out q where "parse_messages f (ctx_sizes ctx) c [] [] = Inr (out, q)"
    "follow_blocks f ctx 0 [address] out q = Inr (messages oh)" "oh_address oh = address" "oh_version oh = 2"
proof -
  obtain head ver flags c0 plen where p: "run_p v2_prefix head = Inr (ver, flags, c0, plen)"
    and rest: "\<exists>c out q out'. parse_messages (V2 (flags div 4 mod 2 \<noteq> 0)) (ctx_sizes ctx) c [] [] = Inr (out, q)
      \<and> follow_blocks (V2 (flags div 4 mod 2 \<noteq> 0)) ctx 0 [address] out q = Inr out'
      \<and> oh = \<lparr>oh_address = address, oh_version = ver, messages = out'\<rparr>"
    using assms by (clarsimp simp: read_v2_def Let_def result_simps) blast
  show thesis using rest v2_prefix_version [OF p] that by auto
qed

definition example_message :: "nat \<Rightarrow> header_message" where
  "example_message n = \<lparr>msg_kind = DataspaceMsg, msg_flags = 0, creation_order = None, msg_data = [of_nat n]\<rparr>"

definition example_header :: bytes where
  "example_header =
     ohdr_block 0 [] [] (chunk_body EIGHT False [example_message 2] (Some (36, 13))) @
     ochk_block (chunk_body EIGHT False [example_message 3] None)"

lemma example_encodable [simp]: "encodable False (example_message n)"
  by (simp add: encodable_def framed_def example_message_def code_of_def position_or_def known_types_def from_code_def)

lemma example_header_stored:
  "reader (new_ctx (memory_source example_header) example_superblock) example_header \<and>
   stored_header (new_ctx (memory_source example_header) example_superblock) example_header 0 0 [] []
     [example_message 2] [(36, [example_message 3])]"
proof -
  let ?ctx = "new_ctx (memory_source example_header) example_superblock"
  have s: "ctx_sizes ?ctx = EIGHT" by (simp add: ctx_sizes_def new_ctx_def example_superblock_def)
  have len: "length (encode_frame (example_message n)) = 5" for n
    by (simp add: encode_frame_def example_message_def)
  have cont: "length (encode_frame (continuation_message EIGHT False t)) = 20" for t
    by (simp add: encode_frame_def continuation_message_def encode_address_def EIGHT_def)
  note lens = len cont chunk_body_def ohdr_block_def ochk_block_def with_checksum_def length_ohdr_prefix
    OCHK_SIGNATURE_def
  define b1 where "b1 = ohdr_block 0 [] [] (chunk_body EIGHT False [example_message 2] (Some (36, 13)))"
  define b2 where "b2 = ochk_block (chunk_body EIGHT False [example_message 3] None)"
  have l: "length b1 = 36" "length b2 = 13" by (simp_all add: lens b1_def b2_def)
  have eh: "example_header = b1 @ b2" by (simp add: example_header_def b1_def b2_def)
  have "length example_header \<le> isize_max" unfolding eh by (simp add: l isize_max_def)
  then have src: "byte_source (memory_source example_header) example_header" by (rule byte_source_memory)
  then have rd: "reader ?ctx example_header" by (simp add: reader_def new_ctx_def cache_ok_def)
  have res: "resolve (ctx_superblock (new_ctx src example_superblock)) a = a" if "a < 100" for a src
    using that by (simp add: new_ctx_def resolve_def wrapping_add_def example_superblock_def)
  have t: "chain_target EIGHT False [(36, [example_message 3])] = Some (36, 13)"
    using l(2) by (simp add: b2_def)
  have at: "stored_at ?ctx example_header 0 b1" "stored_at ?ctx example_header 36 b2"
    unfolding stored_at_def by (simp_all add: res eh slice_def l)
  have k: "msg_kind (example_message n) = DataspaceMsg" for n by (simp add: example_message_def)
  have body: "length (chunk_body EIGHT False [example_message 2] (Some (36, 13))) = 25" by (simp add: lens)
  have sz: "sizes_ok EIGHT" "fits_address EIGHT (Some 36)" "(13 :: nat) < 256 ^ length_size EIGHT"
    by (simp_all add: sizes_ok_def EIGHT_def fits_address_def undefined_for_width_def u64_max_def)
  have ch: "chain_stored EIGHT False ?ctx example_header [(36, [example_message 3])]"
    using at(2) sz l(2) by (simp add: k b2_def)
  have "stored_header ?ctx example_header 0 0 [] [] [example_message 2] [(36, [example_message 3])]"
    using at(1) sz(1) ch unfolding stored_header_def Let_def s
    by (simp add: t body k b1_def MAX_CONTINUATION_BLOCKS_def del: chain_target.simps chain_stored.simps)
  with rd show ?thesis by blast
qed

section \<open>Properties\<close>





text \<open>
  The window read for the prefix of a version 2 header is 32 bytes, but a prefix with
  timestamps, phase-change values and an 8-byte size takes 34: every such header, however well
  formed, is refused as out of bounds.
\<close>

theorem wide_header_rejected:
  assumes "reader ctx contents" and "stored_header ctx contents address flags stamps phase ms chain"
    and "32 < prefix_len flags"
  shows "\<exists>off len n. read_object_header ctx address = Error (OutOfBounds ''metadata'' off len n)"
  using assms by (rule reader.wide_header)

theorem wide_header_rejected_witness:
  "\<exists>off len n. read_object_header (new_ctx (memory_source (ohdr_block 51 (replicate 16 0) (replicate 4 0) [])) example_superblock) 0
     = Error (OutOfBounds ''metadata'' off len n)"
proof -
  let ?b = "ohdr_block 51 (replicate 16 0) (replicate 4 0) []"
  let ?ctx = "new_ctx (memory_source ?b) example_superblock"
  have len: "length ?b = 38" by (simp add: ohdr_block_def with_checksum_def length_ohdr_prefix)
  then have "byte_source (memory_source ?b) ?b" by (intro byte_source_memory) (simp add: isize_max_def)
  then have "reader ?ctx ?b" by (simp add: reader_def new_ctx_def cache_ok_def)
  moreover have "stored_header ?ctx ?b 0 51 (replicate 16 0) (replicate 4 0) [] []"
    unfolding stored_header_def Let_def stored_at_def
    by (simp add: chunk_body_def len new_ctx_def ctx_sizes_def resolve_def wrapping_add_def example_superblock_def
        sizes_ok_def EIGHT_def)
  ultimately show ?thesis by (rule wide_header_rejected) (simp add: prefix_len_def)
qed

text \<open>
  A version 2 header whose stored chunk size is within four bytes of \<open>u64::MAX\<close> makes the
  reader panic: the sum of prefix, chunk and checksum lengths is not checked.
\<close>

theorem huge_header_panics:
  assumes "reader ctx contents" and "stored_at ctx contents address (ohdr_prefix flags stamps phase len)"
    and "flags < 256" and "length stamps = (if flags div 32 mod 2 \<noteq> 0 then 16 else 0)"
    and "length phase = (if flags div 16 mod 2 \<noteq> 0 then 4 else 0)" and "len < 256 ^ 2 ^ (flags mod 4)"
    and "prefix_len flags \<le> 32" and "u64_max < prefix_len flags + len + 4"
  shows "read_object_header ctx address = Inl Panic"
  using assms by (rule reader.huge_header)

theorem huge_header_panics_witness:
  "read_object_header (new_ctx (memory_source (ohdr_prefix 3 [] [] u64_max)) example_superblock) 0 = Inl Panic"
proof -
  let ?b = "ohdr_prefix 3 [] [] u64_max"
  let ?ctx = "new_ctx (memory_source ?b) example_superblock"
  have len: "length ?b = 14" by (simp add: length_ohdr_prefix)
  then have "byte_source (memory_source ?b) ?b" by (intro byte_source_memory) (simp add: isize_max_def)
  then have "reader ?ctx ?b" by (simp add: reader_def new_ctx_def cache_ok_def)
  moreover have "stored_at ?ctx ?b 0 ?b"
    unfolding stored_at_def
    by (simp add: len new_ctx_def resolve_def wrapping_add_def example_superblock_def)
  ultimately show ?thesis by (rule huge_header_panics) (simp_all add: prefix_len_def u64_max_def)
qed

end
