(* ===== verification/Heaps.thy ===== *)
theory Heaps
  imports Context Object_Header
begin

text \<open>
  Local heaps, which hold the link names of old-style groups, global heap collections, which hold
  variable-length values, and the descriptors that point into them (\<^verbatim>\<open>heap.rs\<close>).
\<close>

section \<open>Local heaps\<close>

definition HEAP_SIGNATURE :: bytes where
  "HEAP_SIGNATURE = [0x48, 0x45, 0x41, 0x50]"

definition GCOL_SIGNATURE :: bytes where
  "GCOL_SIGNATURE = [0x47, 0x43, 0x4f, 0x4c]"

text \<open>A local heap is its data segment.\<close>

type_synonym local_heap = bytes

definition local_heap_header :: "sizes \<Rightarrow> (nat \<times> nat) parser" where
  "local_heap_header s =
     bind_p (take_bytes 4) (\<lambda>sig.
       if sig \<noteq> HEAP_SIGNATURE then fail_p (Malformed ''local heap is missing its HEAP signature'')
       else bind_p u8 (\<lambda>ver.
         if ver \<noteq> 0 then fail_p (Unsupported ''local heap version'')
         else bind_p (skip 3) (\<lambda>_. bind_p (read_length s) (\<lambda>segment_size. bind_p (read_length s) (\<lambda>_.
           bind_p (address_required s ''local heap data segment'') (\<lambda>segment_address.
             ret_p (segment_address, segment_size)))))))"

definition local_heap_read :: "ctx \<Rightarrow> nat \<Rightarrow> local_heap result" where
  "local_heap_read ctx address =
     (let s = ctx_sizes ctx in
      and_then (ctx_read ctx address (8 + 2 * length_size s + offset_size s)) (\<lambda>header.
      and_then (run_p (local_heap_header s) header) (\<lambda>(segment_address, segment_size).
        ctx_read ctx segment_address segment_size)))"

definition name_at :: "local_heap \<Rightarrow> nat \<Rightarrow> rstring result" where
  "name_at heap off =
     (if length heap \<le> off then Error (Malformed ''local heap offset is past the end of the segment'')
      else and_then (slice_range heap off (length heap)) (\<lambda>rest.
        Ok (from_utf8_lossy (take (position_or (\<lambda>b. b = 0) rest (length rest)) rest))))"

section \<open>Global heap collections\<close>

record global_heap_object =
  obj_index :: nat
  reference_count :: nat
  obj_data :: bytes

type_synonym global_heap = "global_heap_object list"

definition global_heap_header :: "sizes \<Rightarrow> nat parser" where
  "global_heap_header s =
     bind_p (take_bytes 4) (\<lambda>sig.
       if sig \<noteq> GCOL_SIGNATURE then fail_p (Malformed ''global heap is missing its GCOL signature'')
       else bind_p u8 (\<lambda>ver.
         if ver \<noteq> 1 then fail_p (Unsupported ''global heap version'')
         else bind_p (skip 3) (\<lambda>_. read_length s)))"

definition object_head :: "sizes \<Rightarrow> (nat \<times> nat \<times> nat) parser" where
  "object_head s =
     bind_p u16 (\<lambda>index. bind_p u16 (\<lambda>rc. bind_p (skip 4) (\<lambda>_. bind_p (read_length s) (\<lambda>sz. ret_p (index, rc, sz)))))"

lemma advances_object_head: "advances 2 (object_head s)"
  unfolding object_head_def by (rule advances_bind_left [OF advances_u16]) (intro advances_intros)

lemma object_head_shrinks:
  "\<not> remaining c < 8 + n \<Longrightarrow> object_head s c = Inr (x, c') \<Longrightarrow> remaining c' < remaining c"
  using advancesD [OF advances_object_head, of s c x c'] by (auto simp: remaining_def)

lemma take_shrinks: "take_bytes n c = Inr (x, c') \<Longrightarrow> remaining c' \<le> remaining c"
  by (auto simp: take_bytes_Ok remaining_def)

lemma skip_shrinks: "skip n c = Inr (x, c') \<Longrightarrow> remaining c' \<le> remaining c"
  using skip_moves [of n c x c'] by (auto simp: remaining_def)

definition pad8 :: "nat \<Rightarrow> nat" where
  "pad8 n = (8 - n mod 8) mod 8"

function heap_objects :: "sizes \<Rightarrow> cursor \<Rightarrow> global_heap \<Rightarrow> global_heap result" where
  "heap_objects s cur objects =
     (if remaining cur < 8 + length_size s then Ok objects
      else and_then (object_head s cur) (\<lambda>(head, cur1). case head of (index, rc, sz) \<Rightarrow>
        if index = 0 then Ok objects
        else if remaining cur1 < sz then Error (Malformed ''global heap object claims more bytes than remain'')
        else and_then (take_bytes sz cur1) (\<lambda>(data, cur2).
          let objects' = objects @ [\<lparr>obj_index = index, reference_count = rc, obj_data = data\<rparr>]; pad = pad8 sz
          in if 0 < pad
             then if remaining cur2 < pad then Ok objects'
                  else and_then (skip pad cur2) (\<lambda>(_, cur3). heap_objects s cur3 objects')
             else heap_objects s cur2 objects')))"
  by auto
termination
  by (relation "measure (\<lambda>(s, cur, objects). remaining cur)")
    (auto dest!: object_head_shrinks take_shrinks skip_shrinks)

declare heap_objects.simps [simp del]

definition global_heap_read :: "ctx \<Rightarrow> nat \<Rightarrow> global_heap result" where
  "global_heap_read ctx address =
     (let s = ctx_sizes ctx; header_len = 8 + length_size s in
      and_then (ctx_read ctx address header_len) (\<lambda>header.
      and_then (run_p (global_heap_header s) header) (\<lambda>collection_size.
        if collection_size < header_len
        then Error (Malformed ''global heap collection size is smaller than its own header'')
        else and_then (ctx_read ctx address collection_size) (\<lambda>whole.
          heap_objects s (cursor_at whole header_len) []))))"

definition heap_object :: "global_heap \<Rightarrow> nat \<Rightarrow> global_heap_object option" where
  "heap_object heap index = find (\<lambda>ob. obj_index ob = index) heap"

section \<open>Variable-length descriptors\<close>

record vlen_descriptor =
  vlen_length :: nat
  collection_address :: nat
  object_index :: nat

definition parse_descriptor_p :: "sizes \<Rightarrow> vlen_descriptor parser" where
  "parse_descriptor_p s =
     bind_p u32 (\<lambda>len. bind_p (address_required s ''vlen global heap collection'') (\<lambda>address. bind_p u32 (\<lambda>index.
       ret_p \<lparr>vlen_length = len, collection_address = address, object_index = index\<rparr>)))"

definition parse_descriptor :: "bytes \<Rightarrow> sizes \<Rightarrow> vlen_descriptor result" where
  "parse_descriptor data s = run_p (parse_descriptor_p s) data"

definition descriptor_encoded_len :: "sizes \<Rightarrow> nat" where
  "descriptor_encoded_len s = 4 + offset_size s + 4"

section \<open>Heaps written by the format's rules\<close>

definition encode_local_heap :: "sizes \<Rightarrow> nat \<Rightarrow> nat \<Rightarrow> nat \<Rightarrow> bytes" where
  "encode_local_heap s len free segment =
     HEAP_SIGNATURE @ to_le 1 0 @ replicate 3 0 @ to_le (length_size s) len @ to_le (length_size s) free @
     encode_address s (Some segment)"

lemma reads_reserved: "reads (skip n) (replicate n 0) ()"
  by (rule reads_skip) simp

lemma reads_local_heap_header:
  assumes "sizes_ok s" and "fits_address s (Some segment)" and "len < 256 ^ length_size s" and "free < 256 ^ length_size s"
  shows "reads (local_heap_header s) (encode_local_heap s len free segment) (segment, len)"
proof -
  have w: "0 < offset_size s" "offset_size s \<le> 8" "0 < length_size s" "length_size s \<le> 8"
    using assms(1) by (auto simp: sizes_ok_def)
  have tail: "reads (bind_p (skip 3) (\<lambda>_. bind_p (read_length s) (\<lambda>segment_size. bind_p (read_length s) (\<lambda>_.
           bind_p (address_required s ''local heap data segment'') (\<lambda>segment_address.
             ret_p (segment_address, segment_size))))))
      (replicate 3 0 @ to_le (length_size s) len @ to_le (length_size s) free @ encode_address s (Some segment))
      (segment, len)"
    unfolding read_length_def
    by (rule reads_bind [OF reads_reserved], rule reads_bind [OF reads_uint [OF w(3,4) assms(3)]],
        rule reads_bind [OF reads_uint [OF w(3,4) assms(4)]],
        rule reads_bind_last [OF reads_address_required [OF w(1,2) assms(2)]], rule reads_ret)
  have ver: "reads (bind_p u8 (\<lambda>ver.
         if ver \<noteq> 0 then fail_p (Unsupported ''local heap version'')
         else bind_p (skip 3) (\<lambda>_. bind_p (read_length s) (\<lambda>segment_size. bind_p (read_length s) (\<lambda>_.
           bind_p (address_required s ''local heap data segment'') (\<lambda>segment_address.
             ret_p (segment_address, segment_size)))))))
      (to_le 1 0 @ replicate 3 0 @ to_le (length_size s) len @ to_le (length_size s) free @ encode_address s (Some segment))
      (segment, len)"
    by (rule reads_bind [OF reads_u8 [of 0]]) (use tail in \<open>simp_all del: to_le.simps\<close>)
  show ?thesis
    unfolding local_heap_header_def encode_local_heap_def
    by (rule reads_bind [OF reads_take [of HEAP_SIGNATURE 4]])
      (use ver in \<open>simp_all add: HEAP_SIGNATURE_def del: to_le.simps\<close>)
qed

definition encode_object :: "sizes \<Rightarrow> global_heap_object \<Rightarrow> bytes" where
  "encode_object s ob =
     to_le 2 (obj_index ob) @ to_le 2 (reference_count ob) @ replicate 4 0 @
     to_le (length_size s) (length (obj_data ob)) @ obj_data ob @ replicate (pad8 (length (obj_data ob))) 0"

definition object_ok :: "sizes \<Rightarrow> global_heap_object \<Rightarrow> bool" where
  "object_ok s ob \<longleftrightarrow> 0 < obj_index ob \<and> obj_index ob < 65536 \<and> reference_count ob < 65536 \<and>
     length (obj_data ob) < 256 ^ length_size s"

text \<open>What closes a collection: fewer bytes than an object header, or the free space object, index 0.\<close>

definition closes :: "sizes \<Rightarrow> bytes \<Rightarrow> bool" where
  "closes s post \<longleftrightarrow> length post < 8 + length_size s \<or> take 2 post = [0, 0]"

definition encode_collection :: "sizes \<Rightarrow> global_heap \<Rightarrow> bytes \<Rightarrow> bytes" where
  "encode_collection s objects post =
     (let body = concat (map (encode_object s) objects) @ post
      in GCOL_SIGNATURE @ to_le 1 1 @ replicate 3 0 @ to_le (length_size s) (8 + length_size s + length body) @ body)"

lemma reads_object_head:
  assumes "sizes_ok s" and "i < 65536" and "r < 65536" and "n < 256 ^ length_size s"
  shows "reads (object_head s) (to_le 2 i @ to_le 2 r @ replicate 4 0 @ to_le (length_size s) n) (i, r, n)"
proof -
  have w: "0 < length_size s" "length_size s \<le> 8" using assms(1) by (auto simp: sizes_ok_def)
  show ?thesis
    unfolding object_head_def read_length_def
    by (rule reads_bind [OF reads_u16 [OF assms(2)]], rule reads_bind [OF reads_u16 [OF assms(3)]],
        rule reads_bind [OF reads_reserved], rule reads_bind_last [OF reads_uint [OF w assms(4)]], rule reads_ret)
qed

text \<open>Bytes in front of the free space: any object header is read, whatever it holds.\<close>

lemma reads_u16_bytes: "length xs = 2 \<Longrightarrow> reads u16 xs (le_nat xs)"
  using reads_u16 [of "le_nat xs"] to_le_le_nat [of xs] le_nat_bound [of xs] by simp

lemma reads_uint_bytes: "length xs = w \<Longrightarrow> 0 < w \<Longrightarrow> w \<le> 8 \<Longrightarrow> reads (read_uint w) xs (le_nat xs)"
  using reads_uint [of w "le_nat xs"] to_le_le_nat [of xs] le_nat_bound [of xs] by simp

lemma object_head_total:
  assumes s: "sizes_ok s" and len: "8 + length_size s \<le> length post" and small: "length (pre @ post) \<le> isize_max"
  shows "\<exists>r n c'. object_head s \<lparr>buf = pre @ post, pos = length pre\<rparr> = Ok ((le_nat (take 2 post), r, n), c')"
proof -
  have w: "0 < length_size s" "length_size s \<le> 8" using s by (auto simp: sizes_ok_def)
  define a where "a = take 2 post"
  define b where "b = slice 2 2 post"
  define c where "c = slice 4 4 post"
  define d where "d = slice 8 (length_size s) post"
  have l: "length a = 2" "length b = 2" "length c = 4" "length d = length_size s"
    using len by (simp_all add: a_def b_def c_def d_def)
  have "a @ b = take 4 post" using slice_append_adjacent [of 0 2 post 2] by (simp only: a_def b_def slice_0 add_0 numeral_plus_numeral) simp
  then have "(a @ b) @ c = take 8 post" using slice_append_adjacent [of 0 4 post 4] by (simp add: c_def)
  then have "((a @ b) @ c) @ d = take (8 + length_size s) post"
    using slice_append_adjacent [of 0 8 post "length_size s"] by (simp add: d_def)
  then have split: "pre @ (a @ b @ c @ d) @ drop (8 + length_size s) post = pre @ post" by simp
  have "reads (object_head s) (a @ b @ c @ d) (le_nat a, le_nat b, le_nat d)"
    unfolding object_head_def read_length_def
    by (rule reads_bind [OF reads_u16_bytes [OF l(1)]], rule reads_bind [OF reads_u16_bytes [OF l(2)]],
        rule reads_bind [OF reads_skip [OF l(3)]], rule reads_bind_last [OF reads_uint_bytes [OF l(4) w]], rule reads_ret)
  from this [unfolded reads_def, rule_format, of pre "drop (8 + length_size s) post"] show ?thesis
    using small len l unfolding split a_def [symmetric] by auto
qed

lemma heap_objects_encoded:
  assumes s: "sizes_ok s"
  shows "\<forall>ob \<in> set objects. object_ok s ob \<Longrightarrow> closes s post \<Longrightarrow>
    length (pre @ concat (map (encode_object s) objects) @ post) \<le> isize_max \<Longrightarrow>
    heap_objects s \<lparr>buf = pre @ concat (map (encode_object s) objects) @ post, pos = length pre\<rparr> out = Ok (out @ objects)"
proof (induction objects arbitrary: pre out)
  case Nil
  let ?c = "\<lparr>buf = pre @ post, pos = length pre\<rparr>"
  show ?case
  proof (cases "length post < 8 + length_size s")
    case True
    then show ?thesis by (simp add: heap_objects.simps [of s] remaining_def)
  next
    case False
    then have z: "take 2 post = [0, 0]" using Nil.prems(2) by (simp add: closes_def)
    obtain r n c' where "object_head s ?c = Ok ((le_nat (take 2 post), r, n), c')"
      using object_head_total [OF s, of post pre] False Nil.prems(3) by auto
    then show ?thesis using z False by (simp add: heap_objects.simps [of s] remaining_def)
  qed
next
  case (Cons ob objects)
  let ?n = "length (obj_data ob)"
  let ?rest = "concat (map (encode_object s) objects) @ post"
  define head where "head = to_le 2 (obj_index ob) @ to_le 2 (reference_count ob) @ replicate 4 0 @ to_le (length_size s) ?n"
  define b where "b = pre @ head @ obj_data ob @ replicate (pad8 ?n) 0 @ ?rest"
  have ok: "0 < obj_index ob" "obj_index ob < 65536" "reference_count ob < 65536" "?n < 256 ^ length_size s"
    using Cons.prems(1) by (auto simp: object_ok_def)
  have b: "pre @ concat (map (encode_object s) (ob # objects)) @ post = b"
    by (simp add: b_def head_def encode_object_def)
  have len: "length b \<le> isize_max" using Cons.prems(3) unfolding b .
  have hl: "length head = 8 + length_size s" by (simp add: head_def)
  have h: "object_head s \<lparr>buf = b, pos = length pre\<rparr> =
      Ok ((obj_index ob, reference_count ob, ?n), \<lparr>buf = b, pos = length (pre @ head)\<rparr>)"
    using reads_object_head [OF s ok(2-4), folded head_def, unfolded reads_def, rule_format,
        of pre "obj_data ob @ replicate (pad8 ?n) 0 @ ?rest"] len by (simp add: b_def)
  have d: "take_bytes ?n \<lparr>buf = b, pos = length (pre @ head)\<rparr> =
      Ok (obj_data ob, \<lparr>buf = b, pos = length (pre @ head @ obj_data ob)\<rparr>)"
    using reads_take [OF refl, of "obj_data ob", unfolded reads_def, rule_format,
        of "pre @ head" "replicate (pad8 ?n) 0 @ ?rest"] len by (simp add: b_def)
  have p: "skip (pad8 ?n) \<lparr>buf = b, pos = length (pre @ head @ obj_data ob)\<rparr> =
      Ok ((), \<lparr>buf = b, pos = length (pre @ head @ obj_data ob @ replicate (pad8 ?n) 0)\<rparr>)"
    using reads_reserved [of "pad8 ?n", unfolded reads_def, rule_format, of "pre @ head @ obj_data ob" ?rest] len
    by (simp add: b_def)
  have IH: "heap_objects s \<lparr>buf = b, pos = length (pre @ head @ obj_data ob @ replicate (pad8 ?n) 0)\<rparr> (out @ [ob]) =
      Ok (out @ ob # objects)"
    using Cons.IH [of "pre @ head @ obj_data ob @ replicate (pad8 ?n) 0" "out @ [ob]"] Cons.prems len
    by (simp add: b_def)
  have ob: "\<lparr>obj_index = obj_index ob, reference_count = reference_count ob, obj_data = obj_data ob\<rparr> = ob" by simp
  have rem: "\<not> remaining \<lparr>buf = b, pos = length pre\<rparr> < 8 + length_size s"
    "\<not> remaining \<lparr>buf = b, pos = length (pre @ head)\<rparr> < ?n"
    "\<not> remaining \<lparr>buf = b, pos = length (pre @ head @ obj_data ob)\<rparr> < pad8 ?n"
    by (simp_all add: remaining_def b_def hl)
  show ?case
    unfolding b
    using ok(1) rem IH by (simp add: heap_objects.simps [of s "\<lparr>buf = b, pos = length pre\<rparr>"] h d p ob Let_def
        del: length_append) auto
qed

lemma reads_global_heap_header:
  assumes s: "sizes_ok s" and n: "n < 256 ^ length_size s"
  shows "reads (global_heap_header s) (GCOL_SIGNATURE @ to_le 1 1 @ replicate 3 0 @ to_le (length_size s) n) n"
proof -
  have w: "0 < length_size s" "length_size s \<le> 8" using s by (auto simp: sizes_ok_def)
  have "reads (bind_p (skip 3) (\<lambda>_. read_length s)) (replicate 3 0 @ to_le (length_size s) n) n"
    unfolding read_length_def by (rule reads_bind [OF reads_reserved reads_uint [OF w n]])
  then have "reads (bind_p u8 (\<lambda>ver. if ver \<noteq> 1 then fail_p (Unsupported ''global heap version'')
      else bind_p (skip 3) (\<lambda>_. read_length s))) (to_le 1 1 @ replicate 3 0 @ to_le (length_size s) n) n"
    by (intro reads_bind [OF reads_u8 [of 1]]) (simp_all del: to_le.simps)
  then show ?thesis
    unfolding global_heap_header_def
    by (intro reads_bind [OF reads_take [of GCOL_SIGNATURE 4]]) (simp_all add: GCOL_SIGNATURE_def del: to_le.simps)
qed

context reader
begin

lemma stored_prefix_read:
  assumes "stored_at ctx contents address (xs @ ys)"
  shows "ctx_read ctx address (length xs) = Ok xs"
proof -
  have "stored_at ctx contents address xs"
    using assms unfolding stored_at_def slice_def by simp (metis append_eq_conv_conj min.absorb1 le_add1 take_take)
  then show ?thesis by (rule ctx_read_stored)
qed

lemma local_heap_stored:
  assumes "sizes_ok (ctx_sizes ctx)" and "fits_address (ctx_sizes ctx) (Some segment)"
    and "length heap < 256 ^ length_size (ctx_sizes ctx)" and "free < 256 ^ length_size (ctx_sizes ctx)"
    and "stored_at ctx contents address (encode_local_heap (ctx_sizes ctx) (length heap) free segment)"
    and "stored_at ctx contents segment heap"
  shows "local_heap_read ctx address = Ok heap"
proof -
  let ?s = "ctx_sizes ctx" and ?h = "encode_local_heap (ctx_sizes ctx) (length heap) free segment"
  have len: "length ?h = 8 + 2 * length_size ?s + offset_size ?s"
    by (simp add: encode_local_heap_def HEAP_SIGNATURE_def encode_address_def)
  have "run_p (local_heap_header ?s) ?h = Ok (segment, length heap)"
    using run_p_reads [OF reads_local_heap_header [OF assms(1-4)], of "[]"] stored_small [OF assms(5)] by simp
  then show ?thesis
    using ctx_read_stored [OF assms(5)] ctx_read_stored [OF assms(6)] by (simp add: local_heap_read_def Let_def len)
qed

lemma global_heap_stored:
  assumes s: "sizes_ok (ctx_sizes ctx)" and ok: "\<forall>ob \<in> set objects. object_ok (ctx_sizes ctx) ob"
    and cl: "closes (ctx_sizes ctx) post"
    and st: "stored_at ctx contents address (encode_collection (ctx_sizes ctx) objects post)"
    and fits: "length (encode_collection (ctx_sizes ctx) objects post) < 256 ^ length_size (ctx_sizes ctx)"
  shows "global_heap_read ctx address = Ok objects"
proof -
  let ?s = "ctx_sizes ctx"
  define body where "body = concat (map (encode_object ?s) objects) @ post"
  define n where "n = 8 + length_size ?s + length body"
  define head where "head = GCOL_SIGNATURE @ to_le 1 1 @ replicate 3 0 @ to_le (length_size ?s) n"
  have e: "encode_collection ?s objects post = head @ body"
    by (simp add: encode_collection_def Let_def head_def body_def n_def)
  have hl: "length head = 8 + length_size ?s" by (simp add: head_def GCOL_SIGNATURE_def)
  have n: "length (head @ body) = n" by (simp add: hl n_def)
  have small: "length (head @ body) \<le> isize_max" using stored_small [OF st] by (simp add: e)
  have hd: "ctx_read ctx address (8 + length_size ?s) = Ok head"
    using stored_prefix_read [OF st [unfolded e]] by (simp add: hl)
  have "n < 256 ^ length_size ?s" using fits unfolding e n .
  from run_p_reads [OF reads_global_heap_header [OF s this], of "[]"]
  have p: "run_p (global_heap_header ?s) head = Ok n" using small by (simp add: head_def)
  have w: "ctx_read ctx address n = Ok (head @ body)" using ctx_read_stored [OF st] unfolding e n .
  have "heap_objects ?s (cursor_at (head @ body) (8 + length_size ?s)) [] = Ok objects"
    using heap_objects_encoded [OF s ok cl, of head "[]"] small by (simp add: cursor_at_def hl body_def)
  then show ?thesis by (simp add: global_heap_read_def Let_def hd p w) (simp add: n_def)
qed

end

section \<open>Properties\<close>

text \<open>
  A global heap collection laid out by the format's rules, objects padded to eight bytes and
  closed by free space or the end of the collection, is read back with exactly its objects; looking
  one up by its index finds it when indices are distinct.
\<close>

theorem global_heap_round_trip:
  assumes "reader ctx contents" and "sizes_ok (ctx_sizes ctx)"
    and "\<forall>ob \<in> set objects. object_ok (ctx_sizes ctx) ob" and "closes (ctx_sizes ctx) post"
    and "stored_at ctx contents address (encode_collection (ctx_sizes ctx) objects post)"
    and "length (encode_collection (ctx_sizes ctx) objects post) < 256 ^ length_size (ctx_sizes ctx)"
    and "distinct (map obj_index objects)"
  shows "global_heap_read ctx address = Ok objects \<and>
    (\<forall>ob \<in> set objects. heap_object objects (obj_index ob) = Some ob)"
proof -
  have "find (\<lambda>o'. obj_index o' = obj_index ob) objects = Some ob" if "ob \<in> set objects" for ob
    using that assms(7) by (induction objects) auto
  then show ?thesis using reader.global_heap_stored [OF assms(1-6)] by (simp add: heap_object_def)
qed

theorem global_heap_round_trip_witness:
  "global_heap_read (new_ctx (memory_source (encode_collection EIGHT
       [\<lparr>obj_index = 2, reference_count = 3, obj_data = [104, 105]\<rparr>] [])) example_superblock) 0 =
     Ok [\<lparr>obj_index = 2, reference_count = 3, obj_data = [104, 105]\<rparr>]"
proof -
  let ?o = "\<lparr>obj_index = 2, reference_count = 3, obj_data = [104, 105]\<rparr>"
  let ?b = "encode_collection EIGHT [?o] []"
  let ?ctx = "new_ctx (memory_source ?b) example_superblock"
  have s: "ctx_sizes ?ctx = EIGHT" by (simp add: ctx_sizes_def new_ctx_def example_superblock_def)
  have len: "length ?b = 40"
    by (simp add: encode_collection_def encode_object_def EIGHT_def GCOL_SIGNATURE_def pad8_def)
  have "byte_source (memory_source ?b) ?b" by (intro byte_source_memory) (simp add: len isize_max_def)
  then have rd: "reader ?ctx ?b" by (simp add: reader_def new_ctx_def cache_ok_def)
  have at: "stored_at ?ctx ?b 0 ?b"
    unfolding stored_at_def by (simp add: len new_ctx_def resolve_def wrapping_add_def example_superblock_def)
  have "global_heap_read ?ctx 0 = Ok [?o] \<and> (\<forall>ob \<in> set [?o]. heap_object [?o] (obj_index ob) = Some ob)"
    by (rule global_heap_round_trip [OF rd, unfolded s, where post = "[]"], unfold len)
      (use at in \<open>simp_all add: sizes_ok_def EIGHT_def object_ok_def closes_def\<close>)
  then show ?thesis by blast
qed

text \<open>
  A local heap is read back as its data segment, wherever the segment lies, and the name at
  any offset inside it is the text up to the next NUL or the end of the segment; an offset past
  the segment is an error.
\<close>

theorem local_heap_names:
  assumes "reader ctx contents" and "sizes_ok (ctx_sizes ctx)" and "fits_address (ctx_sizes ctx) (Some segment)"
    and "length heap < 256 ^ length_size (ctx_sizes ctx)" and "free < 256 ^ length_size (ctx_sizes ctx)"
    and "stored_at ctx contents address (encode_local_heap (ctx_sizes ctx) (length heap) free segment)"
    and "stored_at ctx contents segment heap"
  shows "and_then (local_heap_read ctx address) (\<lambda>h. name_at h off) =
    (if off < length heap then Ok (from_utf8_lossy (takeWhile (\<lambda>b. b \<noteq> 0) (drop off heap)))
     else Error (Malformed ''local heap offset is past the end of the segment''))"
  using reader.local_heap_stored [OF assms]
  by (auto simp: name_at_def slice_range_def slice_def take_position_or [of "\<lambda>b. b = 0" "drop off heap", simplified])

theorem local_heap_names_witness:
  "and_then (local_heap_read (new_ctx (memory_source (encode_local_heap EIGHT 4 0 32 @ [108, 97, 116, 0]))
      example_superblock) 0) (\<lambda>h. name_at h 0) = Ok (from_utf8_lossy [108, 97, 116])"
proof -
  define h where "h = encode_local_heap EIGHT 4 0 32"
  define d :: bytes where "d = [108, 97, 116, 0]"
  let ?ctx = "new_ctx (memory_source (h @ d)) example_superblock"
  have s: "ctx_sizes ?ctx = EIGHT" by (simp add: ctx_sizes_def new_ctx_def example_superblock_def)
  have len: "length h = 32" "length d = 4"
    by (simp_all add: h_def d_def encode_local_heap_def HEAP_SIGNATURE_def encode_address_def EIGHT_def)
  have "byte_source (memory_source (h @ d)) (h @ d)" by (intro byte_source_memory) (simp add: len isize_max_def)
  then have rd: "reader ?ctx (h @ d)" by (simp add: reader_def new_ctx_def cache_ok_def)
  have at: "stored_at ?ctx (h @ d) 0 (encode_local_heap EIGHT (length d) 0 32)" "stored_at ?ctx (h @ d) 32 d"
    unfolding stored_at_def len h_def [symmetric]
    by (simp_all add: len new_ctx_def resolve_def wrapping_add_def example_superblock_def slice_def)
  have "and_then (local_heap_read ?ctx 0) (\<lambda>h. name_at h 0) =
    (if 0 < length d then Ok (from_utf8_lossy (takeWhile (\<lambda>b. b \<noteq> 0) (drop 0 d)))
     else Error (Malformed ''local heap offset is past the end of the segment''))"
    by (rule local_heap_names [OF rd, unfolded s, OF _ _ _ _ at])
      (simp_all add: len sizes_ok_def EIGHT_def fits_address_def undefined_for_width_def u64_max_def)
  then show ?thesis by (simp add: len h_def) (simp add: d_def)
qed

end
