(* ===== verification/Btree1.thy ===== *)
theory Btree1
  imports Heaps "HOL-Library.List_Lexorder" "HOL-Library.Multiset"
begin

text \<open>
  Version 1 B-trees (\<^verbatim>\<open>btree1.rs\<close>), which index the children of an old-style group or the chunks
  of a dataset.  The two walks of the source differ in the node type they expect, in what a leaf
  contributes and in whether the size of the output is limited; \<open>tree_walk\<close> takes these three as
  arguments.  The stack is kept top first.
\<close>

section \<open>Nodes\<close>

record chunk_key =
  key_size :: nat
  key_filter_mask :: nat
  key_offset :: "nat list"

record chunk_record =
  chunk_size :: nat
  filter_mask :: nat
  chunk_offset :: "nat list"
  chunk_address :: nat

record node =
  node_type :: nat
  node_level :: nat
  children :: "nat list"
  chunk_keys :: "chunk_key list"

definition TREE_SIGNATURE :: bytes where
  "TREE_SIGNATURE = [0x54, 0x52, 0x45, 0x45]"

definition MAX_NODES :: nat where
  "MAX_NODES = 2 ^ 20"

definition NODE_TYPE_GROUP :: nat where
  "NODE_TYPE_GROUP = 0"

definition NODE_TYPE_CHUNK :: nat where
  "NODE_TYPE_CHUNK = 1"

definition parse_chunk_key :: "nat \<Rightarrow> chunk_key parser" where
  "parse_chunk_key rank =
     bind_p u32 (\<lambda>sz. bind_p u32 (\<lambda>fmask. bind_p (repeat_p rank u64) (\<lambda>off. bind_p (skip 8) (\<lambda>_.
       ret_p \<lparr>key_size = sz, key_filter_mask = fmask, key_offset = off\<rparr>))))"

definition node_header :: "sizes \<Rightarrow> (nat \<times> nat \<times> nat) parser" where
  "node_header s =
     bind_p (take_bytes 4) (\<lambda>sig.
       if sig \<noteq> TREE_SIGNATURE then fail_p (Malformed ''B-tree node is missing its TREE signature'')
       else bind_p u8 (\<lambda>ty. bind_p u8 (\<lambda>lev. bind_p u16 (\<lambda>used.
         bind_p (read_address s) (\<lambda>_. bind_p (read_address s) (\<lambda>_. ret_p (ty, lev, used)))))))"

definition key_len :: "sizes \<Rightarrow> nat \<Rightarrow> nat \<Rightarrow> nat result" where
  "key_len s rank ty =
     (if ty = NODE_TYPE_GROUP then Ok (length_size s)
      else if ty = NODE_TYPE_CHUNK then Ok (4 + 4 + 8 * (rank + 1))
      else Error (Malformed ''B-tree node type''))"

text \<open>One entry: its key, kept for a chunk node only, and the address of the child behind it.\<close>

definition node_entry :: "sizes \<Rightarrow> nat \<Rightarrow> nat \<Rightarrow> nat \<Rightarrow> (chunk_key option \<times> nat) parser" where
  "node_entry s rank ty klen =
     bind_p (if ty = NODE_TYPE_GROUP then bind_p (skip klen) (\<lambda>_. ret_p None)
             else bind_p (parse_chunk_key rank) (\<lambda>k. ret_p (Some k))) (\<lambda>key.
       bind_p (address_required s ''B-tree child'') (\<lambda>child. ret_p (key, child)))"

definition node_read :: "ctx \<Rightarrow> nat \<Rightarrow> nat \<Rightarrow> node result" where
  "node_read ctx address rank =
     (let s = ctx_sizes ctx; header_len = 8 + 2 * offset_size s in
      and_then (ctx_read ctx address header_len) (\<lambda>header.
      and_then (run_p (node_header s) header) (\<lambda>(ty, lev, used).
      and_then (key_len s rank ty) (\<lambda>klen.
      and_then (add64 address header_len) (\<lambda>body_address.
      and_then (ctx_read ctx body_address ((used + 1) * klen + used * offset_size s)) (\<lambda>body.
      and_then (run_p (repeat_p used (node_entry s rank ty klen)) body) (\<lambda>entries.
        Ok \<lparr>node_type = ty, node_level = lev, children = map snd entries,
            chunk_keys = List.map_filter fst entries\<rparr>)))))))"

section \<open>Walks\<close>

function tree_walk ::
  "(nat \<Rightarrow> node result) \<Rightarrow> nat \<Rightarrow> ('r list \<Rightarrow> bool) \<Rightarrow> (node \<Rightarrow> 'r list) \<Rightarrow>
   nat list \<Rightarrow> nat list \<Rightarrow> 'r list \<Rightarrow> 'r list result" where
  "tree_walk rd ty full collect visited stack out =
     (case stack of
        [] \<Rightarrow> Ok out
      | a # rest \<Rightarrow>
          if full out \<or> MAX_NODES < length visited
          then Error (Malformed ''B-tree is implausibly large; the file may be cyclic'')
          else if a \<in> set visited then tree_walk rd ty full collect visited rest out
          else and_then (rd a) (\<lambda>nd.
            if node_type nd \<noteq> ty then Error (Malformed ''unexpected B-tree node type'')
            else if node_level nd = 0 then tree_walk rd ty full collect (a # visited) rest (out @ collect nd)
            else tree_walk rd ty full collect (a # visited) (rev (children nd) @ rest) out))"
  by auto
termination
  by (relation "measures [\<lambda>(rd, ty, full, collect, visited, stack, out). Suc MAX_NODES - length visited,
      \<lambda>(rd, ty, full, collect, visited, stack, out). length stack]") auto

declare tree_walk.simps [simp del]

definition leaf_records :: "node \<Rightarrow> chunk_record list" where
  "leaf_records nd =
     map (\<lambda>(key, child). \<lparr>chunk_size = key_size key, filter_mask = key_filter_mask key,
        chunk_offset = key_offset key, chunk_address = child\<rparr>) (zip (chunk_keys nd) (children nd))"

definition read_chunk_btree :: "ctx \<Rightarrow> nat \<Rightarrow> nat \<Rightarrow> chunk_record list result" where
  "read_chunk_btree ctx address rank =
     and_then (tree_walk (\<lambda>a. node_read ctx a rank) NODE_TYPE_CHUNK (\<lambda>out. MAX_NODES < length out) leaf_records
         [] [address] []) (\<lambda>out.
       Ok (sort_key chunk_offset out))"

definition read_group_node_addresses :: "ctx \<Rightarrow> nat \<Rightarrow> nat list result" where
  "read_group_node_addresses ctx address =
     tree_walk (\<lambda>a. node_read ctx a 0) NODE_TYPE_GROUP (\<lambda>_. False) children [] [address] []"

section \<open>Trees as the format means them\<close>

datatype btree = Leaf nat node | Inner nat node "btree list"

fun tree_address :: "btree \<Rightarrow> nat" where
  "tree_address (Leaf a nd) = a"
| "tree_address (Inner a nd ts) = a"

fun addresses :: "btree \<Rightarrow> nat list" where
  "addresses (Leaf a nd) = [a]"
| "addresses (Inner a nd ts) = a # concat (map addresses ts)"

fun inorder :: "(node \<Rightarrow> 'r list) \<Rightarrow> btree \<Rightarrow> 'r list" where
  "inorder collect (Leaf a nd) = collect nd"
| "inorder collect (Inner a nd ts) = concat (map (inorder collect) ts)"

fun visit_order :: "(node \<Rightarrow> 'r list) \<Rightarrow> btree \<Rightarrow> 'r list" where
  "visit_order collect (Leaf a nd) = collect nd"
| "visit_order collect (Inner a nd ts) = concat (map (visit_order collect) (rev ts))"

fun represents :: "(nat \<Rightarrow> node result) \<Rightarrow> nat \<Rightarrow> btree \<Rightarrow> bool" where
  "represents rd ty (Leaf a nd) \<longleftrightarrow> rd a = Ok nd \<and> node_type nd = ty \<and> node_level nd = 0"
| "represents rd ty (Inner a nd ts) \<longleftrightarrow>
     rd a = Ok nd \<and> node_type nd = ty \<and> node_level nd \<noteq> 0 \<and> children nd = map tree_address ts \<and>
     list_all (represents rd ty) ts"

lemma mset_concat_rev: "mset (concat (map f (rev xs))) = mset (concat (map f xs))"
  by (induction xs) auto

lemma visit_order_mset: "mset (visit_order collect t) = mset (inorder collect t)"
proof (induction t)
  case (Inner a nd ts)
  have "mset (concat (map (visit_order collect) ts)) = mset (concat (map (inorder collect) ts))"
    using Inner by (induction ts) auto
  moreover have "mset (concat (map (visit_order collect) (rev ts))) = mset (concat (map (visit_order collect) ts))"
    by (rule mset_concat_rev)
  ultimately show ?case by simp
qed simp

abbreviation all_addresses :: "btree list \<Rightarrow> nat list" where
  "all_addresses ts \<equiv> concat (map addresses ts)"

lemma tree_walk_represents:
  assumes full: "\<And>xs ys. full xs \<Longrightarrow> full (xs @ ys)"
  shows "list_all (represents rd ty) ts \<Longrightarrow> distinct (visited @ all_addresses ts) \<Longrightarrow>
    length visited + length (all_addresses ts) \<le> MAX_NODES \<Longrightarrow>
    \<not> full (out @ concat (map (visit_order collect) ts)) \<Longrightarrow>
    tree_walk rd ty full collect visited (map tree_address ts) out = Ok (out @ concat (map (visit_order collect) ts))"
proof (induction "length (all_addresses ts)" arbitrary: ts visited out rule: less_induct)
  case less
  show ?case
  proof (cases ts)
    case Nil
    then show ?thesis by (simp add: tree_walk.simps [of rd])
  next
    case (Cons t rest)
    have nf: "\<not> full out" using less.prems(4) full by blast
    show ?thesis
    proof (cases t)
      case (Leaf a nd)
      have "tree_walk rd ty full collect (a # visited) (map tree_address rest) (out @ collect nd) =
          Ok ((out @ collect nd) @ concat (map (visit_order collect) rest))"
        using less.prems by (intro less.hyps) (auto simp: Cons Leaf)
      then show ?thesis
        using less.prems nf by (simp add: Cons Leaf tree_walk.simps [of rd ty full collect visited])
    next
      case (Inner a nd kids)
      have eq: "map tree_address (rev kids @ rest) = rev (children nd) @ map tree_address rest"
        using less.prems(1) by (simp add: Cons Inner rev_map)
      have m: "mset (all_addresses (rev kids @ rest)) = mset (all_addresses (kids @ rest))"
        by (simp add: mset_concat_rev)
      note same = mset_eq_length [OF m] mset_eq_setD [OF m] mset_eq_imp_distinct_iff [OF m]
      have prems: "list_all (represents rd ty) (rev kids @ rest)" "length (all_addresses (rev kids @ rest)) < length (all_addresses ts)"
        "distinct ((a # visited) @ all_addresses (rev kids @ rest))"
        "length (a # visited) + length (all_addresses (rev kids @ rest)) \<le> MAX_NODES"
        "\<not> full (out @ concat (map (visit_order collect) (rev kids @ rest)))"
        using less.prems unfolding distinct_append same by (auto simp: Cons Inner list_all_iff)
      then have "tree_walk rd ty full collect (a # visited) (map tree_address (rev kids @ rest)) out =
          Ok (out @ concat (map (visit_order collect) (rev kids @ rest)))"
        by (intro less.hyps)
      then show ?thesis
        using less.prems nf unfolding eq by (simp add: Cons Inner tree_walk.simps [of rd ty full collect visited])
    qed
  qed
qed

text \<open>Sorting by distinct keys yields the sorted list, whatever the order it starts from.\<close>

lemma sort_key_distinct:
  assumes m: "mset ys = mset xs" and s: "sorted (map f ys)" and d: "distinct (map f ys)"
  shows "sort_key f xs = ys"
proof (rule properties_for_sort_key [OF m _ s])
  fix k
  assume k: "k \<in> set ys"
  have single: "filter (\<lambda>x. f k = f x) zs = [k]" if "mset zs = mset ys" for zs
  proof -
    have "distinct (map f zs)" using d that by (metis mset_eq_imp_distinct_iff mset_map)
    moreover have "k \<in> set zs" using k that by (metis mset_eq_setD)
    ultimately show ?thesis
    proof (induction zs)
      case (Cons z zs)
      show ?case
      proof (cases "k = z")
        case True
        then show ?thesis using Cons.prems by (auto simp: filter_empty_conv image_iff)
      next
        case False
        then have "f k \<noteq> f z" using Cons.prems by (auto simp: image_iff)
        then show ?thesis using Cons False by auto
      qed
    qed simp
  qed
  show "filter (\<lambda>x. f k = f x) ys = filter (\<lambda>x. f k = f x) xs" using single [OF refl] single [OF m [symmetric]] by simp
qed

section \<open>Nodes in the file\<close>

definition encode_key :: "chunk_key \<Rightarrow> bytes" where
  "encode_key k = to_le 4 (key_size k) @ to_le 4 (key_filter_mask k) @ concat (map (to_le 8) (key_offset k)) @ to_le 8 0"

definition key_ok :: "nat \<Rightarrow> chunk_key \<Rightarrow> bool" where
  "key_ok rank k \<longleftrightarrow> key_size k < 2 ^ 32 \<and> key_filter_mask k < 2 ^ 32 \<and> length (key_offset k) = rank \<and>
     (\<forall>x \<in> set (key_offset k). x < 2 ^ 64)"

definition encode_entry :: "sizes \<Rightarrow> chunk_key \<times> nat \<Rightarrow> bytes" where
  "encode_entry s e = encode_key (fst e) @ encode_address s (Some (snd e))"

text \<open>A chunk node with its entries and the trailing key, \<open>rest\<close>, that bounds the last child.\<close>

definition encode_node ::
  "sizes \<Rightarrow> nat \<Rightarrow> nat option \<Rightarrow> nat option \<Rightarrow> (chunk_key \<times> nat) list \<Rightarrow> bytes \<Rightarrow> bytes" where
  "encode_node s lev left right entries rest =
     (TREE_SIGNATURE @ to_le 1 NODE_TYPE_CHUNK @ to_le 1 lev @ to_le 2 (length entries) @
      encode_address s left @ encode_address s right) @
     concat (map (encode_entry s) entries) @ rest"

definition entries_ok :: "sizes \<Rightarrow> nat \<Rightarrow> (chunk_key \<times> nat) list \<Rightarrow> bool" where
  "entries_ok s rank entries \<longleftrightarrow>
     length entries < 65536 \<and> (\<forall>(k, child) \<in> set entries. key_ok rank k \<and> fits_address s (Some child))"

lemma reads_chunk_key:
  assumes "key_ok rank k"
  shows "reads (parse_chunk_key rank) (encode_key k) k"
proof -
  have k: "key_size k < 4294967296" "key_filter_mask k < 4294967296" "length (key_offset k) = rank"
    "\<And>x. x \<in> set (key_offset k) \<Longrightarrow> x < 18446744073709551616" using assms by (auto simp: key_ok_def)
  have kk: "\<lparr>key_size = key_size k, key_filter_mask = key_filter_mask k, key_offset = key_offset k\<rparr> = k" by simp
  have off: "reads (repeat_p rank u64) (concat (map (to_le 8) (key_offset k))) (key_offset k)"
    using reads_repeat [of "key_offset k" u64 "to_le 8"] reads_u64 k(3,4) by blast
  have "reads (bind_p (skip 8) (\<lambda>_. ret_p \<lparr>key_size = key_size k, key_filter_mask = key_filter_mask k,
      key_offset = key_offset k\<rparr>)) (to_le 8 0) k"
    by (rule reads_bind_last [OF reads_skip]) (use reads_ret [of k] in \<open>simp_all add: kk\<close>)
  then show ?thesis
    unfolding parse_chunk_key_def encode_key_def
    by (intro reads_bind [OF reads_u32 [OF k(1)]] reads_bind [OF reads_u32 [OF k(2)]] reads_bind [OF off])
qed

lemma reads_node_entry:
  assumes "sizes_ok s" and "key_ok rank k" and "fits_address s (Some child)"
  shows "reads (node_entry s rank NODE_TYPE_CHUNK klen) (encode_entry s (k, child)) (Some k, child)"
proof -
  have w: "0 < offset_size s" "offset_size s \<le> 8" using assms(1) by (auto simp: sizes_ok_def)
  have "reads (if NODE_TYPE_CHUNK = NODE_TYPE_GROUP then bind_p (skip klen) (\<lambda>_. ret_p None)
      else bind_p (parse_chunk_key rank) (\<lambda>k. ret_p (Some k))) (encode_key k) (Some k)"
    by (simp add: NODE_TYPE_CHUNK_def NODE_TYPE_GROUP_def)
      (rule reads_bind_last [OF reads_chunk_key [OF assms(2)] reads_ret])
  then show ?thesis
    unfolding node_entry_def encode_entry_def fst_conv snd_conv
    by (rule reads_bind) (rule reads_bind_last [OF reads_address_required [OF w assms(3)] reads_ret])
qed

lemma reads_node_header:
  assumes "sizes_ok s" and "lev < 256" and "n < 65536" and "fits_address s left" and "fits_address s right"
  shows "reads (node_header s) (TREE_SIGNATURE @ to_le 1 NODE_TYPE_CHUNK @ to_le 1 lev @ to_le 2 n @
      encode_address s left @ encode_address s right) (NODE_TYPE_CHUNK, lev, n)"
proof -
  have w: "0 < offset_size s" "offset_size s \<le> 8" and ty: "NODE_TYPE_CHUNK < 256"
    using assms(1) by (auto simp: sizes_ok_def NODE_TYPE_CHUNK_def)
  have "reads (bind_p u8 (\<lambda>ty. bind_p u8 (\<lambda>lev. bind_p u16 (\<lambda>used.
         bind_p (read_address s) (\<lambda>_. bind_p (read_address s) (\<lambda>_. ret_p (ty, lev, used)))))))
      (to_le 1 NODE_TYPE_CHUNK @ to_le 1 lev @ to_le 2 n @ encode_address s left @ encode_address s right)
      (NODE_TYPE_CHUNK, lev, n)"
    by (rule reads_bind [OF reads_u8 [OF ty]], rule reads_bind [OF reads_u8 [OF assms(2)]],
        rule reads_bind [OF reads_u16 [OF assms(3)]], rule reads_bind [OF reads_address [OF w assms(4)]],
        rule reads_bind_last [OF reads_address [OF w assms(5)] reads_ret])
  then show ?thesis
    unfolding node_header_def
    by (intro reads_bind [OF reads_take [of TREE_SIGNATURE 4]]) (simp_all add: TREE_SIGNATURE_def del: to_le.simps)
qed

lemma reads_entries:
  assumes "sizes_ok s" and "entries_ok s rank entries"
  shows "reads (repeat_p (length entries) (node_entry s rank NODE_TYPE_CHUNK klen))
    (concat (map (encode_entry s) entries)) (map (\<lambda>(k, child). (Some k, child)) entries)"
proof -
  have "reads (node_entry s rank NODE_TYPE_CHUNK klen) ((\<lambda>(k, child). encode_entry s (the k, child)) e) e"
    if "e \<in> set (map (\<lambda>(k, child). (Some k, child)) entries)" for e
    using that assms by (auto simp: entries_ok_def intro!: reads_node_entry)
  from reads_repeat [OF this, of "map (\<lambda>(k, child). (Some k, child)) entries"]
  show ?thesis by (simp add: o_def case_prod_unfold)
qed

lemma length_encode_entry: "key_ok rank k \<Longrightarrow> length (encode_entry s (k, child)) = 8 * (rank + 2) + offset_size s"
  by (simp add: encode_entry_def encode_key_def key_ok_def encode_address_def length_concat o_def sum_list_triv
      del: to_le.simps)

lemma resolve_add:
  assumes "resolve sb a + n \<le> u64_max"
  shows "resolve sb (a + n) = resolve sb a + n"
proof -
  have "(base_address sb + (a + n)) mod 2 ^ 64 = ((base_address sb + a) mod 2 ^ 64 + n) mod 2 ^ 64"
    by (simp add: mod_add_left_eq add.assoc)
  also have "\<dots> = (base_address sb + a) mod 2 ^ 64 + n"
    using assms by (intro mod_less) (simp add: resolve_def wrapping_add_def u64_max_def)
  finally show ?thesis by (simp add: resolve_def wrapping_add_def)
qed

context reader
begin

lemma stored_suffix:
  assumes "stored_at ctx contents address (xs @ ys)"
  shows "stored_at ctx contents (address + length xs) ys"
proof -
  let ?o = "file_offset address"
  have fit: "?o + length (xs @ ys) \<le> length contents" and eq: "slice ?o (length xs + length ys) contents = xs @ ys"
    using assms by (simp_all add: stored_at_def)
  have "length contents \<le> u64_max"
    using byte_source.contents_small [OF source] by (simp add: isize_max_def u64_max_def)
  then have o': "file_offset (address + length xs) = ?o + length xs" using fit by (intro resolve_add) simp
  have "slice ?o (length xs) contents @ slice (?o + length xs) (length ys) contents = xs @ ys"
    unfolding slice_append_adjacent by (rule eq)
  then have "slice (?o + length xs) (length ys) contents = ys" using fit by simp
  then show ?thesis using fit by (simp add: stored_at_def o')
qed

lemma node_stored:
  assumes s: "sizes_ok (ctx_sizes ctx)" and lev: "lev < 256"
    and sib: "fits_address (ctx_sizes ctx) left" "fits_address (ctx_sizes ctx) right"
    and ok: "entries_ok (ctx_sizes ctx) rank entries" and rest: "length rest = 8 * (rank + 2)"
    and st: "stored_at ctx contents address (encode_node (ctx_sizes ctx) lev left right entries rest)"
    and fit: "address + 8 + 2 * offset_size (ctx_sizes ctx) \<le> u64_max"
  shows "node_read ctx address rank =
    Ok \<lparr>node_type = NODE_TYPE_CHUNK, node_level = lev, children = map snd entries, chunk_keys = map fst entries\<rparr>"
proof -
  let ?s = "ctx_sizes ctx"
  define head where "head = TREE_SIGNATURE @ to_le 1 NODE_TYPE_CHUNK @ to_le 1 lev @ to_le 2 (length entries) @
      encode_address ?s left @ encode_address ?s right"
  define body where "body = concat (map (encode_entry ?s) entries) @ rest"
  have e: "encode_node ?s lev left right entries rest = head @ body" by (simp add: encode_node_def head_def body_def)
  have hl: "length head = 8 + 2 * offset_size ?s"
    by (simp add: head_def TREE_SIGNATURE_def encode_address_def)
  have n: "length entries < 65536" using ok by (simp add: entries_ok_def)
  have small: "length (head @ body) \<le> isize_max" using stored_small [OF st] by (simp add: e)
  have "map (length \<circ> encode_entry ?s) entries = map (\<lambda>_. 8 * (rank + 2) + offset_size ?s) entries"
    using ok by (intro map_cong refl) (auto simp: entries_ok_def length_encode_entry)
  then have "sum_list (map (length \<circ> encode_entry ?s) entries) = length entries * (8 * (rank + 2) + offset_size ?s)"
    by (simp only: sum_list_triv) simp
  then have bl: "length body = (length entries + 1) * (4 + 4 + 8 * (rank + 1)) + length entries * offset_size ?s"
    by (simp add: body_def rest length_concat algebra_simps)
  have hd: "ctx_read ctx address (8 + 2 * offset_size ?s) = Ok head"
    using stored_prefix_read [OF st [unfolded e]] by (simp add: hl)
  have p: "run_p (node_header ?s) head = Ok (NODE_TYPE_CHUNK, lev, length entries)"
    using run_p_reads [OF reads_node_header [OF s lev n sib], of "[]"] small by (simp add: head_def)
  have "stored_at ctx contents (address + length head) body" using st unfolding e by (rule stored_suffix)
  from ctx_read_stored [OF this]
  have bd: "ctx_read ctx (address + (8 + 2 * offset_size ?s)) (length body) = Ok body" by (simp add: hl)
  have q: "run_p (repeat_p (length entries) (node_entry ?s rank NODE_TYPE_CHUNK klen)) body =
      Ok (map (\<lambda>(k, child). (Some k, child)) entries)" for klen
    using run_p_reads [OF reads_entries [OF s ok], of rest] small by (simp add: body_def)
  have kl: "key_len ?s rank NODE_TYPE_CHUNK = Ok (4 + 4 + 8 * (rank + 1))"
    by (simp add: key_len_def NODE_TYPE_CHUNK_def NODE_TYPE_GROUP_def)
  have mf: "List.map_filter fst (map (\<lambda>(k, child). (Some k, child)) entries) = map fst entries"
    by (induction entries) auto
  show ?thesis
    using fit bd unfolding bl
    by (simp add: node_read_def Let_def hd p kl add64_def q mf)
      (simp add: o_def case_prod_unfold)
qed

end

section \<open>Properties\<close>


definition example_key :: "nat \<Rightarrow> chunk_key" where
  "example_key i = \<lparr>key_size = 10, key_filter_mask = 0, key_offset = [i]\<rparr>"

definition example_block :: "nat \<Rightarrow> (chunk_key \<times> nat) list \<Rightarrow> bytes" where
  "example_block lev entries = encode_node EIGHT lev None None entries (replicate 24 0)"

definition example_file :: bytes where
  "example_file = example_block 0 [(example_key 0, 1000)] @ example_block 0 [(example_key 5, 2000)] @
     example_block 1 [(example_key 0, 0), (example_key 5, 80)]"

definition example_node :: "nat \<Rightarrow> (chunk_key \<times> nat) list \<Rightarrow> node" where
  "example_node lev entries =
     \<lparr>node_type = NODE_TYPE_CHUNK, node_level = lev, children = map snd entries, chunk_keys = map fst entries\<rparr>"

definition example_tree :: btree where
  "example_tree = Inner 160 (example_node 1 [(example_key 0, 0), (example_key 5, 80)])
     [Leaf 0 (example_node 0 [(example_key 0, 1000)]), Leaf 80 (example_node 0 [(example_key 5, 2000)])]"


end
