(* ===== verification/Datatype_Message.thy ===== *)
theory Datatype_Message
  imports Byte_Cursor
begin

text \<open>
  The datatype message (\<^verbatim>\<open>message/datatype.rs\<close>).  Types nest: compound members, array, enum and
  variable-length bases are encoded inline and parsed by recursive calls.  \<open>parse_at\<close> takes the
  recursion depth as fuel; running out of it is a panic, the stack overflow it stands for.  Every
  call consumes eight bytes before it recurses, so \<open>length data + 1\<close> is always enough, which
  \<open>parse_at_fuel\<close> shows; \<open>parse_datatype\<close> starts with that.
\<close>

section \<open>Types\<close>

datatype endianness = Little | Big

datatype string_padding = NullTerminate | NullPad | SpacePad

datatype character_set = Ascii | Utf8

datatype vlen_kind = VSequence | VString

datatype hdf_type = Datatype (dt_version: nat) (dt_size: nat) (dt_class: datatype_class)
and datatype_class =
    FixedPoint endianness bool nat nat
  | FloatingPoint endianness nat nat nat nat nat nat nat nat
  | String string_padding character_set
  | Opaque rstring
  | Compound "compound_member list"
  | Reference nat
  | Enum hdf_type "rstring list" "bytes list"
  | VariableLength vlen_kind hdf_type string_padding character_set
  | Array "nat list" hdf_type
  | UnsupportedClass nat
and compound_member = Member (member_name: rstring) (member_offset: nat) (member_type: hdf_type)

section \<open>Parsing\<close>

definition string_pad :: "nat \<Rightarrow> string_padding result" where
  "string_pad code =
     (if code = 0 then Ok NullTerminate else if code = 1 then Ok NullPad else if code = 2 then Ok SpacePad
      else Error (Malformed ''string padding code''))"

definition char_set :: "nat \<Rightarrow> character_set result" where
  "char_set code =
     (if code = 0 then Ok Ascii else if code = 1 then Ok Utf8 else Error (Unsupported ''character set code''))"

text \<open>\<open>u32::BITS - 1 - leading_zeros\<close> is the position of the highest set bit.\<close>

fun floor_log2 :: "nat \<Rightarrow> nat" where
  "floor_log2 n = (if n \<le> 1 then 0 else Suc (floor_log2 (n div 2)))"

declare floor_log2.simps [simp del]

definition compound_offset_width :: "nat \<Rightarrow> nat" where
  "compound_offset_width sz = (if sz = 0 then 1 else max (div_ceil (floor_log2 sz) 8) 1)"

definition parse_fixed_point :: "nat \<Rightarrow> datatype_class parser" where
  "parse_fixed_point bitfield =
     bind_p u16 (\<lambda>bit_offset. bind_p u16 (\<lambda>bit_precision.
       ret_p (FixedPoint (if bitfield mod 2 = 0 then Little else Big) (bitfield div 8 mod 2 \<noteq> 0) bit_offset bit_precision)))"

definition parse_floating_point :: "nat \<Rightarrow> datatype_class parser" where
  "parse_floating_point bitfield =
     (if bitfield div 64 mod 2 \<noteq> 0 then fail_p (Unsupported ''VAX-order floating point (mixed-endian)'')
      else bind_p u16 (\<lambda>bit_offset. bind_p u16 (\<lambda>bit_precision. bind_p u8 (\<lambda>eloc. bind_p u8 (\<lambda>esize.
        bind_p u8 (\<lambda>mloc. bind_p u8 (\<lambda>msize. bind_p u32 (\<lambda>bias.
          ret_p (FloatingPoint (if bitfield mod 2 = 0 then Little else Big) bit_offset bit_precision eloc esize
            mloc msize bias (bitfield div 256 mod 256))))))))))"

definition parse_string :: "nat \<Rightarrow> datatype_class parser" where
  "parse_string bitfield =
     bind_p (lift_p (string_pad (bitfield mod 16))) (\<lambda>pad.
       bind_p (lift_p (char_set (bitfield div 16 mod 16))) (\<lambda>charset. ret_p (String pad charset)))"

definition parse_opaque :: "nat \<Rightarrow> datatype_class parser" where
  "parse_opaque bitfield =
     bind_p (take_bytes (bitfield mod 256)) (\<lambda>raw.
       ret_p (Opaque (from_utf8_lossy (take (position_or (\<lambda>b. b = 0) raw (length raw)) raw))))"

text \<open>A member of a version 1 compound: an inline shape of four dimensions in front of its base type.\<close>

definition member_v1 :: "hdf_type parser \<Rightarrow> nat \<Rightarrow> compound_member parser" where
  "member_v1 parse ver =
     bind_p (cstring_padded 8) (\<lambda>nm. bind_p u32 (\<lambda>off. bind_p u8 (\<lambda>rank. bind_p (skip 3) (\<lambda>_. bind_p (skip 4) (\<lambda>_.
     bind_p (skip 4) (\<lambda>_. bind_p (repeat_p 4 u32) (\<lambda>dims. bind_p parse (\<lambda>base.
       if rank = 0 then ret_p (Member nm off base)
       else bind_p (lift_p (slice_range dims 0 rank)) (\<lambda>dims'.
         ret_p (Member nm off (Datatype ver (fold (\<lambda>d w. min (w * d) (2 ^ 32 - 1)) dims' (dt_size base))
           (Array dims' base))))))))))))"

definition member_v2 :: "hdf_type parser \<Rightarrow> compound_member parser" where
  "member_v2 parse =
     bind_p (cstring_padded 8) (\<lambda>nm. bind_p u32 (\<lambda>off. bind_p parse (\<lambda>t. ret_p (Member nm off t))))"

definition member_v3 :: "hdf_type parser \<Rightarrow> nat \<Rightarrow> compound_member parser" where
  "member_v3 parse sz =
     bind_p cstring (\<lambda>nm. bind_p (read_uint (compound_offset_width sz)) (\<lambda>off. bind_p parse (\<lambda>t. ret_p (Member nm off t))))"

definition parse_compound :: "hdf_type parser \<Rightarrow> nat \<Rightarrow> nat \<Rightarrow> nat \<Rightarrow> datatype_class parser" where
  "parse_compound parse ver bitfield sz =
     bind_p (repeat_p (bitfield mod 65536)
         (if ver = 1 then member_v1 parse ver else if ver = 2 then member_v2 parse
          else if ver = 3 \<or> ver = 4 then member_v3 parse sz
          else fail_p (Unsupported ''compound datatype version''))) (\<lambda>members.
       ret_p (Compound members))"

definition parse_enum :: "hdf_type parser \<Rightarrow> nat \<Rightarrow> nat \<Rightarrow> datatype_class parser" where
  "parse_enum parse ver bitfield =
     bind_p parse (\<lambda>base.
       bind_p (repeat_p (bitfield mod 65536) (if ver \<ge> 3 then cstring else cstring_padded 8)) (\<lambda>names.
         bind_p (repeat_p (bitfield mod 65536) (take_bytes (dt_size base))) (\<lambda>values.
           ret_p (Enum base names values))))"

definition parse_vlen :: "hdf_type parser \<Rightarrow> nat \<Rightarrow> datatype_class parser" where
  "parse_vlen parse bitfield =
     bind_p (if bitfield mod 16 = 0 then ret_p VSequence else if bitfield mod 16 = 1 then ret_p VString
             else fail_p (Malformed ''variable-length datatype flavour'')) (\<lambda>kind.
       bind_p (lift_p (string_pad (bitfield div 16 mod 16))) (\<lambda>pad.
         bind_p (lift_p (char_set (bitfield div 256 mod 16))) (\<lambda>charset.
           bind_p parse (\<lambda>base. ret_p (VariableLength kind base pad charset)))))"

definition parse_array :: "hdf_type parser \<Rightarrow> nat \<Rightarrow> datatype_class parser" where
  "parse_array parse ver =
     bind_p u8 (\<lambda>rank. bind_p (if ver = 2 then skip 3 else ret_p ()) (\<lambda>_. bind_p (repeat_p rank u32) (\<lambda>dims.
       bind_p (if ver = 2 then skip (rank * 4) else ret_p ()) (\<lambda>_. bind_p parse (\<lambda>base. ret_p (Array dims base))))))"

definition parse_class :: "hdf_type parser \<Rightarrow> nat \<Rightarrow> nat \<Rightarrow> nat \<Rightarrow> nat \<Rightarrow> datatype_class parser" where
  "parse_class parse code ver bitfield sz =
     (if code = 0 then parse_fixed_point bitfield
      else if code = 1 then parse_floating_point bitfield
      else if code = 3 then parse_string bitfield
      else if code = 5 then parse_opaque bitfield
      else if code = 6 then parse_compound parse ver bitfield sz
      else if code = 7 then ret_p (Reference (bitfield mod 16))
      else if code = 8 then parse_enum parse ver bitfield
      else if code = 9 then parse_vlen parse bitfield
      else if code = 10 then parse_array parse ver
      else ret_p (UnsupportedClass code))"

text \<open>The three bit field bytes are or-ed at disjoint positions, which is their little-endian value.\<close>

fun parse_at :: "nat \<Rightarrow> hdf_type parser" where
  "parse_at 0 = lift_p panic"
| "parse_at (Suc fuel) =
     bind_p u8 (\<lambda>cv.
       if cv div 16 = 0 \<or> cv div 16 > 4 then fail_p (Malformed ''datatype message version'')
       else bind_p u8 (\<lambda>bits0. bind_p u8 (\<lambda>bits1. bind_p u8 (\<lambda>bits2. bind_p u32 (\<lambda>sz.
         bind_p (parse_class (parse_at fuel) (cv mod 16) (cv div 16) (bits0 + 256 * bits1 + 65536 * bits2) sz) (\<lambda>cls.
           ret_p (Datatype (cv div 16) sz cls)))))))"

definition parse_datatype :: "bytes \<Rightarrow> hdf_type result" where
  "parse_datatype data = run_p (parse_at (length data + 1)) data"

definition byte_order :: "hdf_type \<Rightarrow> endianness option" where
  "byte_order t = (case dt_class t of
       FixedPoint order _ _ _ \<Rightarrow> Some order
     | FloatingPoint order _ _ _ _ _ _ _ _ \<Rightarrow> Some order
     | _ \<Rightarrow> None)"

fun is_decodable :: "hdf_type \<Rightarrow> bool" and class_decodable :: "datatype_class \<Rightarrow> bool"
  and member_decodable :: "compound_member \<Rightarrow> bool" where
  "is_decodable (Datatype ver sz cls) = class_decodable cls"
| "class_decodable (Array dims base) = is_decodable base"
| "class_decodable (Compound members) = list_all member_decodable members"
| "class_decodable (UnsupportedClass code) = False"
| "class_decodable (FixedPoint a b c d) = True"
| "class_decodable (FloatingPoint a b c d e f g h i) = True"
| "class_decodable (String a b) = True"
| "class_decodable (Opaque a) = True"
| "class_decodable (Reference a) = True"
| "class_decodable (Enum a b c) = True"
| "class_decodable (VariableLength a b c d) = True"
| "member_decodable (Member nm off t) = is_decodable t"

section \<open>The fuel is enough\<close>

text \<open>\<open>agree k p q\<close>: the two parsers do the same on every cursor with at most \<open>k\<close> bytes left.\<close>

definition agree :: "nat \<Rightarrow> 'a parser \<Rightarrow> 'a parser \<Rightarrow> bool" where
  "agree k p q \<longleftrightarrow> (\<forall>c. remaining c \<le> k \<longrightarrow> p c = q c)"

named_theorems agree_intros \<open>rules that two parsers agree\<close>

lemma agree_refl [agree_intros]: "agree k p p"
  by (simp add: agree_def)

lemma agree_bind_shrink:
  assumes "agree k p q" and "advances m p" and "\<And>x. agree (k - m) (f x) (g x)"
  shows "agree k (bind_p p f) (bind_p q g)"
  unfolding agree_def
proof (intro allI impI)
  fix c
  assume c: "remaining c \<le> k"
  show "bind_p p f c = bind_p q g c"
  proof (cases "p c")
    case (Inl e)
    then show ?thesis using assms(1) c by (simp add: agree_def bind_p_def)
  next
    case (Inr r)
    obtain x c' where r: "r = (x, c')" by (cases r)
    have "remaining c' \<le> k - m" using advancesD [OF assms(2)] Inr r c by (fastforce simp: remaining_def)
    then have "f x c' = g x c'" using assms(3) by (simp add: agree_def)
    then show ?thesis using assms(1) c Inr r by (simp add: agree_def bind_p_def)
  qed
qed

lemma agree_bind [agree_intros]:
  "agree k p q \<Longrightarrow> advances 0 p \<Longrightarrow> (\<And>x. agree k (f x) (g x)) \<Longrightarrow> agree k (bind_p p f) (bind_p q g)"
  using agree_bind_shrink [of k p q 0 f g] by simp

lemma agree_if [agree_intros]:
  "(P \<Longrightarrow> agree k p p') \<Longrightarrow> (\<not> P \<Longrightarrow> agree k q q') \<Longrightarrow> agree k (if P then p else q) (if P then p' else q')"
  by simp

lemma agree_repeat [agree_intros]: "agree k p q \<Longrightarrow> advances 0 p \<Longrightarrow> agree k (repeat_p n p) (repeat_p n q)"
proof (induction n)
  case (Suc n)
  then show ?case by (auto intro!: agree_intros advances_intros)
qed (simp add: agree_refl)

lemma advances_cstring [advances_intros]: "advances 0 cstring"
  by (auto simp: advances_def cstring_def result_simps split: option.splits)

lemma advances_cstring_padded [advances_intros]: "advances 0 (cstring_padded a)"
  unfolding cstring_padded_def by (intro advances_intros)

lemmas type_parser_defs =
  parse_class_def parse_fixed_point_def parse_floating_point_def parse_string_def parse_opaque_def parse_compound_def
  parse_enum_def parse_vlen_def parse_array_def member_v1_def member_v2_def member_v3_def

lemma advances_class [advances_intros]: "advances 0 parse \<Longrightarrow> advances 0 (parse_class parse code ver bitfield sz)"
  unfolding type_parser_defs by (intro advances_intros)

lemma advances_parse_at [advances_intros]: "advances 0 (parse_at n)"
  by (induction n) (simp_all only: parse_at.simps, (intro advances_intros)+)

lemma agree_class:
  "agree k p q \<Longrightarrow> advances 0 p \<Longrightarrow> agree k (parse_class p code ver bitfield sz) (parse_class q code ver bitfield sz)"
  unfolding type_parser_defs by (intro agree_intros advances_intros)

lemma parse_at_agree: "agree k (parse_at (Suc k)) (parse_at (Suc k + d))"
proof (induction k)
  case 0
  have "u8 c \<noteq> Inr r" if "remaining c = 0" for c r
    using that u8_Ok [of c "fst r" "snd r"] by (auto simp: remaining_def)
  then have u8: "\<exists>e. u8 c = Inl e" if "remaining c = 0" for c using that by (metis sum.exhaust)
  show ?case
    unfolding agree_def parse_at.simps add_Suc
  proof (intro allI impI)
    fix c :: cursor
    assume "remaining c \<le> 0"
    then obtain e where "u8 c = Inl e" using u8 by blast
    then show "bind_p u8 f c = bind_p u8 g c" for f g :: "nat \<Rightarrow> 'x parser" by (simp add: bind_p_def)
  qed
next
  case (Suc k)
  have "agree k (parse_class (parse_at (Suc k)) code ver bitfield sz) (parse_class (parse_at (Suc k + d)) code ver bitfield sz)"
    for code ver bitfield sz by (rule agree_class [OF Suc.IH advances_parse_at])
  then show ?case
    unfolding parse_at.simps add_Suc
    by (intro agree_bind_shrink [OF agree_refl advances_u8] agree_if agree_refl agree_bind advances_intros) simp
qed

lemma run_parse_at: "length data < n \<Longrightarrow> run_p (parse_at n) data = parse_datatype data"
  using parse_at_agree [of "length data" "n - Suc (length data)"]
  by (simp add: parse_datatype_def run_p_def agree_def new_cursor_def remaining_def)

section \<open>Encoded types\<close>

definition order_bit :: "endianness \<Rightarrow> nat" where
  "order_bit order = (case order of Little \<Rightarrow> 0 | Big \<Rightarrow> 1)"

definition pad_code :: "string_padding \<Rightarrow> nat" where
  "pad_code pad = (case pad of NullTerminate \<Rightarrow> 0 | NullPad \<Rightarrow> 1 | SpacePad \<Rightarrow> 2)"

definition charset_code :: "character_set \<Rightarrow> nat" where
  "charset_code cs = (case cs of Ascii \<Rightarrow> 0 | Utf8 \<Rightarrow> 1)"

fun class_code :: "datatype_class \<Rightarrow> nat" where
  "class_code (FixedPoint _ _ _ _) = 0"
| "class_code (FloatingPoint _ _ _ _ _ _ _ _ _) = 1"
| "class_code (String _ _) = 3"
| "class_code (Opaque _) = 5"
| "class_code (Compound _) = 6"
| "class_code (Reference _) = 7"
| "class_code (Enum _ _ _) = 8"
| "class_code (VariableLength _ _ _ _) = 9"
| "class_code (Array _ _) = 10"
| "class_code (UnsupportedClass code) = code"

fun class_bits :: "datatype_class \<Rightarrow> nat" where
  "class_bits (FixedPoint order neg _ _) = order_bit order + (if neg then 8 else 0)"
| "class_bits (FloatingPoint order _ _ _ _ _ _ _ sloc) = order_bit order + 256 * sloc"
| "class_bits (String pad cs) = pad_code pad + 16 * charset_code cs"
| "class_bits (Opaque tag) = length tag"
| "class_bits (Compound ms) = length ms"
| "class_bits (Reference k) = k"
| "class_bits (Enum _ names _) = length names"
| "class_bits (VariableLength k _ pad cs) = (case k of VSequence \<Rightarrow> 0 | VString \<Rightarrow> 1) + 16 * pad_code pad + 256 * charset_code cs"
| "class_bits _ = 0"

definition encode_cstring :: "rstring \<Rightarrow> bytes" where
  "encode_cstring nm = nm @ [0]"

definition name_ok :: "rstring \<Rightarrow> bool" where
  "name_ok nm \<longleftrightarrow> 0 \<notin> set nm \<and> from_utf8_lossy nm = nm"

fun encode_type :: "hdf_type \<Rightarrow> bytes" and encode_class :: "nat \<Rightarrow> datatype_class \<Rightarrow> bytes"
  and encode_member :: "nat \<Rightarrow> compound_member \<Rightarrow> bytes" where
  "encode_type (Datatype ver sz cls) =
     to_le 1 (16 * ver + class_code cls) @ to_le 1 (class_bits cls mod 256) @ to_le 1 (class_bits cls div 256 mod 256) @
     to_le 1 (class_bits cls div 65536) @ to_le 4 sz @ encode_class sz cls"
| "encode_class sz (FixedPoint _ _ off prec) = to_le 2 off @ to_le 2 prec"
| "encode_class sz (FloatingPoint _ off prec eloc esize mloc msize bias _) =
     to_le 2 off @ to_le 2 prec @ to_le 1 eloc @ to_le 1 esize @ to_le 1 mloc @ to_le 1 msize @ to_le 4 bias"
| "encode_class sz (String _ _) = []"
| "encode_class sz (Opaque tag) = tag"
| "encode_class sz (Compound ms) = concat (map (encode_member sz) ms)"
| "encode_class sz (Reference _) = []"
| "encode_class sz (Enum base names values) = encode_type base @ concat (map encode_cstring names) @ concat values"
| "encode_class sz (VariableLength _ base _ _) = encode_type base"
| "encode_class sz (Array dims base) = to_le 1 (length dims) @ concat (map (to_le 4) dims) @ encode_type base"
| "encode_class sz (UnsupportedClass _) = []"
| "encode_member sz (Member nm off t) = encode_cstring nm @ to_le (compound_offset_width sz) off @ encode_type t"

fun type_ok :: "hdf_type \<Rightarrow> bool" and class_ok :: "nat \<Rightarrow> nat \<Rightarrow> datatype_class \<Rightarrow> bool"
  and member_ok :: "nat \<Rightarrow> compound_member \<Rightarrow> bool" where
  "type_ok (Datatype ver sz cls) \<longleftrightarrow> 0 < ver \<and> ver \<le> 4 \<and> sz < 2 ^ 32 \<and> class_ok ver sz cls"
| "class_ok ver sz (FixedPoint _ _ off prec) \<longleftrightarrow> off < 65536 \<and> prec < 65536"
| "class_ok ver sz (FloatingPoint _ off prec eloc esize mloc msize bias sloc) \<longleftrightarrow>
     off < 65536 \<and> prec < 65536 \<and> eloc < 256 \<and> esize < 256 \<and> mloc < 256 \<and> msize < 256 \<and> bias < 2 ^ 32 \<and> sloc < 256"
| "class_ok ver sz (String _ _) \<longleftrightarrow> True"
| "class_ok ver sz (Opaque tag) \<longleftrightarrow> length tag < 256 \<and> name_ok tag"
| "class_ok ver sz (Compound ms) \<longleftrightarrow> 3 \<le> ver \<and> length ms < 65536 \<and> list_all (member_ok sz) ms"
| "class_ok ver sz (Reference k) \<longleftrightarrow> k < 16"
| "class_ok ver sz (Enum base names values) \<longleftrightarrow>
     3 \<le> ver \<and> type_ok base \<and> length names < 65536 \<and> length values = length names \<and> list_all name_ok names \<and>
     list_all (\<lambda>v. length v = dt_size base) values"
| "class_ok ver sz (VariableLength _ base _ _) \<longleftrightarrow> type_ok base"
| "class_ok ver sz (Array dims base) \<longleftrightarrow> ver \<noteq> 2 \<and> length dims < 256 \<and> list_all (\<lambda>d. d < 2 ^ 32) dims \<and> type_ok base"
| "class_ok ver sz (UnsupportedClass code) \<longleftrightarrow> code = 2 \<or> code = 4 \<or> 10 < code \<and> code < 16"
| "member_ok sz (Member nm off t) \<longleftrightarrow> name_ok nm \<and> off < 256 ^ compound_offset_width sz \<and> type_ok t"

lemma reads_lift: "r = Ok v \<Longrightarrow> reads (lift_p r) [] v"
  by (simp add: reads_def lift_p_def)

lemma reads_lift_bind: "r = Ok v \<Longrightarrow> reads (f v) xs w \<Longrightarrow> reads (bind_p (lift_p r) f) xs w"
  using reads_bind [OF reads_lift, of r v f xs w] by simp

lemma string_pad_code [simp]: "string_pad (pad_code pad) = Ok pad"
  by (cases pad) (simp_all add: string_pad_def pad_code_def)

lemma char_set_code [simp]: "char_set (charset_code cs) = Ok cs"
  by (cases cs) (simp_all add: char_set_def charset_code_def)

lemma pad_code_lt: "pad_code pad < 16"
  by (cases pad) (simp_all add: pad_code_def)

lemma charset_code_lt: "charset_code cs < 16"
  by (cases cs) (simp_all add: charset_code_def)

lemma reads_cstring:
  assumes "name_ok nm"
  shows "reads cstring (encode_cstring nm) nm"
  unfolding reads_def
proof (intro allI impI)
  fix pre post :: bytes
  have d: "drop (length pre) (pre @ encode_cstring nm @ post) = nm @ 0 # post" by (simp add: encode_cstring_def)
  have p: "position (\<lambda>b. b = 0) (nm @ 0 # post) = Some (length nm)"
  proof -
    have "0 \<notin> set nm" using assms by (simp add: name_ok_def)
    then show ?thesis by (induction nm) auto
  qed
  show "cstring \<lparr>buf = pre @ encode_cstring nm @ post, pos = length pre\<rparr> =
      Ok (nm, \<lparr>buf = pre @ encode_cstring nm @ post, pos = length pre + length (encode_cstring nm)\<rparr>)"
    using assms p d by (simp add: cstring_def slice_range_def slice_def decode_utf8_eq name_ok_def encode_cstring_def)
qed

lemma nibbles:
  assumes "a < 16" and "b < 16"
  shows "(a + 16 * b + 256 * c) mod 16 = a" "(a + 16 * b + 256 * c) div 16 mod 16 = b" "(a + 16 * b + 256 * c) div 256 = (c :: nat)"
proof -
  have e: "a + 16 * b + 256 * c = a + 16 * (b + 16 * c)" by simp
  have d: "(a + 16 * (b + 16 * c)) div 16 = b + 16 * c" using assms(1) by simp
  show "(a + 16 * b + 256 * c) mod 16 = a" unfolding e mod_mult_self2 using assms(1) by simp
  show "(a + 16 * b + 256 * c) div 16 mod 16 = b" unfolding e d using assms(2) by simp
  have "(a + 16 * b + 256 * c) div (16 * 16) = c" unfolding div_mult2_eq e d using assms(2) by simp
  then show "(a + 16 * b + 256 * c) div 256 = c" by simp
qed

lemma float_bits:
  assumes "a < 2"
  shows "(a + 256 * c) mod 2 = a" "(a + 256 * c) div 64 mod 2 = 0" "(a + 256 * c) div 256 = (c :: nat)"
proof -
  show "(a + 256 * c) mod 2 = a" using assms by (simp add: mod_add_eq [symmetric] mod_mult_left_eq [symmetric])
  have "(a + 64 * (4 * c)) div 64 = 4 * c" using assms by simp
  then show "(a + 256 * c) div 64 mod 2 = 0" by simp
  show "(a + 256 * c) div 256 = c" using assms by simp
qed

lemma floor_log2_bound: "n < 2 ^ Suc k \<Longrightarrow> floor_log2 n \<le> k"
proof (induction k arbitrary: n)
  case 0
  then show ?case by (simp add: floor_log2.simps [of n])
next
  case (Suc k)
  have "n div 2 < 2 ^ Suc k" using Suc.prems by (simp add: less_mult_imp_div_less)
  from Suc.IH [OF this] show ?case by (simp add: floor_log2.simps [of n])
qed

lemma compound_offset_width_bounds:
  assumes "sz < 2 ^ 32"
  shows "0 < compound_offset_width sz" "compound_offset_width sz \<le> 8"
proof -
  have "floor_log2 sz \<le> 31" using assms by (intro floor_log2_bound) simp
  then have "div_ceil (floor_log2 sz) 8 \<le> 4" by (subst div_ceil_le_iff) simp_all
  then show "0 < compound_offset_width sz" "compound_offset_width sz \<le> 8" by (auto simp: compound_offset_width_def)
qed

lemma reads_u32': "n < 2 ^ 32 \<Longrightarrow> reads u32 (to_le 4 n) n"
  by (rule reads_u32) simp

lemma reads_fixed_point:
  assumes "class_ok ver sz (FixedPoint order neg off prec)"
  shows "reads (parse_fixed_point (class_bits (FixedPoint order neg off prec)))
    (encode_class sz (FixedPoint order neg off prec)) (FixedPoint order neg off prec)"
proof -
  let ?b = "class_bits (FixedPoint order neg off prec)"
  have o: "off < 65536" "prec < 65536" using assms by auto
  have "(if ?b mod 2 = 0 then Little else Big) = order" "(?b div 8 mod 2 \<noteq> 0) = neg"
    by (cases order; cases neg; simp add: order_bit_def)+
  then show ?thesis
    unfolding parse_fixed_point_def encode_class.simps
    by (intro reads_bind [OF reads_u16 [OF o(1)]] reads_bind_last [OF reads_u16 [OF o(2)]]) (simp only: reads_ret)
qed

lemma reads_floating_point:
  assumes "class_ok ver sz (FloatingPoint order off prec eloc esize mloc msize bias sloc)"
  shows "reads (parse_floating_point (class_bits (FloatingPoint order off prec eloc esize mloc msize bias sloc)))
    (encode_class sz (FloatingPoint order off prec eloc esize mloc msize bias sloc))
    (FloatingPoint order off prec eloc esize mloc msize bias sloc)"
proof -
  let ?b = "class_bits (FloatingPoint order off prec eloc esize mloc msize bias sloc)"
  have o: "off < 65536" "prec < 65536" "eloc < 256" "esize < 256" "mloc < 256" "msize < 256" "bias < 2 ^ 32" "sloc < 256"
    using assms by auto
  have "order_bit order < 2" by (cases order) (simp_all add: order_bit_def)
  note fb = float_bits [OF this, of sloc]
  have bits: "(if ?b mod 2 = 0 then Little else Big) = order" "?b div 64 mod 2 = 0" "?b div 256 mod 256 = sloc"
    unfolding class_bits.simps fb using o(8) by (cases order; simp add: order_bit_def)+
  have "reads (bind_p u16 (\<lambda>bit_offset. bind_p u16 (\<lambda>bit_precision. bind_p u8 (\<lambda>eloc. bind_p u8 (\<lambda>esize.
        bind_p u8 (\<lambda>mloc. bind_p u8 (\<lambda>msize. bind_p u32 (\<lambda>bias.
          ret_p (FloatingPoint order bit_offset bit_precision eloc esize mloc msize bias sloc)))))))))
      (to_le 2 off @ to_le 2 prec @ to_le 1 eloc @ to_le 1 esize @ to_le 1 mloc @ to_le 1 msize @ to_le 4 bias)
      (FloatingPoint order off prec eloc esize mloc msize bias sloc)"
    by (rule reads_bind [OF reads_u16 [OF o(1)]], rule reads_bind [OF reads_u16 [OF o(2)]],
        rule reads_bind [OF reads_u8 [OF o(3)]], rule reads_bind [OF reads_u8 [OF o(4)]],
        rule reads_bind [OF reads_u8 [OF o(5)]], rule reads_bind [OF reads_u8 [OF o(6)]],
        rule reads_bind_last [OF reads_u32' [OF o(7)] reads_ret])
  then show ?thesis unfolding parse_floating_point_def bits encode_class.simps by simp
qed

lemma reads_string: "reads (parse_string (class_bits (String pad cs))) [] (String pad cs)"
proof -
  have b: "class_bits (String pad cs) mod 16 = pad_code pad" "class_bits (String pad cs) div 16 mod 16 = charset_code cs"
    using pad_code_lt [of pad] charset_code_lt [of cs] by simp_all
  show ?thesis
    unfolding parse_string_def b
    by (rule reads_lift_bind [OF string_pad_code], rule reads_lift_bind [OF char_set_code], rule reads_ret)
qed

lemma reads_opaque:
  assumes "class_ok ver sz (Opaque tag)"
  shows "reads (parse_opaque (class_bits (Opaque tag))) (encode_class sz (Opaque tag)) (Opaque tag)"
proof -
  have t: "length tag < 256" "0 \<notin> set tag" "from_utf8_lossy tag = tag" using assms by (auto simp: name_ok_def)
  have "takeWhile (\<lambda>b. b \<noteq> 0) tag = tag" using t(2) by (auto simp: takeWhile_eq_all_conv)
  then have "take (position_or (\<lambda>b. b = 0) tag (length tag)) tag = tag" by (simp add: take_position_or)
  then show ?thesis
    unfolding parse_opaque_def using t
    by (intro reads_bind_last [OF reads_take]) (simp_all add: reads_ret)
qed

lemma reads_member:
  assumes "member_ok sz (Member nm off t)" and "reads parse (encode_type t) t" and "sz < 2 ^ 32"
  shows "reads (member_v3 parse sz) (encode_member sz (Member nm off t)) (Member nm off t)"
proof -
  note w = compound_offset_width_bounds [OF assms(3)]
  show ?thesis
    unfolding member_v3_def encode_member.simps
    by (rule reads_bind [OF reads_cstring], use assms in simp, rule reads_bind [OF reads_uint [OF w]], use assms in simp,
        rule reads_bind_last [OF assms(2) reads_ret])
qed

lemma reads_compound:
  assumes ok: "class_ok ver sz (Compound ms)" "ver \<le> 4" "sz < 2 ^ 32"
    and sub: "\<And>m. m \<in> set ms \<Longrightarrow> reads parse (encode_type (member_type m)) (member_type m)"
  shows "reads (parse_compound parse ver (class_bits (Compound ms)) sz) (encode_class sz (Compound ms)) (Compound ms)"
proof -
  have "reads (member_v3 parse sz) (encode_member sz m) m" if "m \<in> set ms" for m
  proof (cases m)
    case (Member nm off t)
    then have "member_ok sz (Member nm off t)" using ok(1) that by (auto simp: list_all_iff simp del: member_ok.simps)
    from reads_member [OF this _ ok(3)] sub [OF that] show ?thesis by (simp add: Member)
  qed
  then have "reads (repeat_p (length ms) (member_v3 parse sz)) (concat (map (encode_member sz) ms)) ms"
    by (rule reads_repeat)
  moreover have "ver = 3 \<or> ver = 4" "length ms mod 65536 = length ms" using ok by auto
  ultimately show ?thesis
    unfolding parse_compound_def by (intro reads_bind_last [where v = ms] reads_ret) (auto simp del: repeat_p.simps)
qed

lemma reads_enum:
  assumes ok: "class_ok ver sz (Enum base names values)" and sub: "reads parse (encode_type base) base"
  shows "reads (parse_enum parse ver (class_bits (Enum base names values))) (encode_class sz (Enum base names values))
    (Enum base names values)"
proof -
  have o: "3 \<le> ver" "length names mod 65536 = length names" "length values = length names"
    "\<And>n. n \<in> set names \<Longrightarrow> name_ok n" "\<And>v. v \<in> set values \<Longrightarrow> length v = dt_size base"
    using ok by (auto simp: list_all_iff)
  have names: "reads (repeat_p (length names) cstring) (concat (map encode_cstring names)) names"
    by (rule reads_repeat) (rule reads_cstring [OF o(4)])
  have vals: "reads (repeat_p (length values) (take_bytes (dt_size base))) (concat (map (\<lambda>v. v) values)) values"
    by (rule reads_repeat) (rule reads_take [OF o(5)])
  have "reads (bind_p parse (\<lambda>base. bind_p (repeat_p (length names) cstring) (\<lambda>names.
         bind_p (repeat_p (length values) (take_bytes (dt_size base))) (\<lambda>values. ret_p (Enum base names values)))))
      (encode_type base @ concat (map encode_cstring names) @ concat (map (\<lambda>v. v) values)) (Enum base names values)"
    by (rule reads_bind [OF sub], rule reads_bind [OF names], rule reads_bind_last [OF vals reads_ret])
  then show ?thesis using o(1,2,3) by (simp add: parse_enum_def)
qed

lemma reads_vlen:
  assumes sub: "reads parse (encode_type base) base"
  shows "reads (parse_vlen parse (class_bits (VariableLength k base pad cs))) (encode_class sz (VariableLength k base pad cs))
    (VariableLength k base pad cs)"
proof -
  let ?b = "class_bits (VariableLength k base pad cs)"
  have b: "?b mod 16 = (case k of VSequence \<Rightarrow> 0 | VString \<Rightarrow> 1)" "?b div 16 mod 16 = pad_code pad"
    "?b div 256 mod 16 = charset_code cs"
    using nibbles [of "case k of VSequence \<Rightarrow> 0 | VString \<Rightarrow> 1" "pad_code pad" "charset_code cs"] pad_code_lt [of pad]
      charset_code_lt [of cs] by (simp_all split: vlen_kind.splits)
  have "reads (if ?b mod 16 = 0 then ret_p VSequence else if ?b mod 16 = 1 then ret_p VString
             else fail_p (Malformed ''variable-length datatype flavour'')) [] k"
    unfolding b(1) by (cases k) (simp_all add: reads_ret)
  then have "reads (parse_vlen parse ?b) ([] @ encode_type base) (VariableLength k base pad cs)"
    unfolding parse_vlen_def b(2,3)
    by (rule reads_bind) (rule reads_lift_bind [OF string_pad_code], rule reads_lift_bind [OF char_set_code],
        rule reads_bind_last [OF sub reads_ret])
  then show ?thesis by simp
qed

lemma reads_array:
  assumes ok: "class_ok ver sz (Array dims base)" and sub: "reads parse (encode_type base) base"
  shows "reads (parse_array parse ver) (encode_class sz (Array dims base)) (Array dims base)"
proof -
  have o: "length dims < 256" "ver \<noteq> 2" "\<And>d. d \<in> set dims \<Longrightarrow> d < 2 ^ 32" using ok by (auto simp: list_all_iff)
  have dims: "reads (repeat_p (length dims) u32) (concat (map (to_le 4) dims)) dims"
    by (rule reads_repeat) (rule reads_u32' [OF o(3)])
  have "reads (bind_p u8 (\<lambda>rank. bind_p (repeat_p rank u32) (\<lambda>dims. bind_p parse (\<lambda>base. ret_p (Array dims base)))))
      (to_le 1 (length dims) @ concat (map (to_le 4) dims) @ encode_type base) (Array dims base)"
    by (rule reads_bind [OF reads_u8 [OF o(1)]], rule reads_bind [OF dims], rule reads_bind_last [OF sub reads_ret])
  then show ?thesis using o(2) by (simp add: parse_array_def)
qed

lemma member_size: "m \<in> set ms \<Longrightarrow> size (member_type m) < size (Compound ms)"
proof -
  assume m: "m \<in> set ms"
  have "size (member_type m) < size m" by (cases m) simp
  also have "size m \<le> size_list size ms" using m by (simp add: size_list_estimation')
  finally show ?thesis by simp
qed

lemma reads_class:
  assumes ok: "class_ok ver sz cls" "ver \<le> 4" "sz < 2 ^ 32"
    and sub: "\<And>t. size t < size cls \<Longrightarrow> type_ok t \<Longrightarrow> reads parse (encode_type t) t"
  shows "reads (parse_class parse (class_code cls) ver (class_bits cls) sz) (encode_class sz cls) cls"
proof (cases cls)
  case (FixedPoint order neg off prec)
  then show ?thesis using reads_fixed_point [of ver sz order neg off prec] ok(1)
    by (simp add: parse_class_def del: class_bits.simps class_ok.simps encode_class.simps)
next
  case (FloatingPoint order off prec eloc esize mloc msize bias sloc)
  then show ?thesis using reads_floating_point [of ver sz order off prec eloc esize mloc msize bias sloc] ok(1)
    by (simp add: parse_class_def del: class_bits.simps class_ok.simps encode_class.simps)
next
  case (String pad cs)
  then show ?thesis using reads_string [of pad cs] by (simp add: parse_class_def del: class_bits.simps)
next
  case (Opaque tag)
  then show ?thesis using reads_opaque [of ver sz tag] ok(1)
    by (simp add: parse_class_def del: class_bits.simps class_ok.simps encode_class.simps)
next
  case (Compound ms)
  have "reads parse (encode_type (member_type m)) (member_type m)" if m: "m \<in> set ms" for m
  proof (rule sub)
    show "size (member_type m) < size cls" using member_size [OF m] by (simp add: Compound)
    have "member_ok sz m" using ok(1) m by (auto simp: Compound list_all_iff simp del: member_ok.simps)
    then show "type_ok (member_type m)" by (cases m) simp
  qed
  from reads_compound [OF ok(1) [unfolded Compound] ok(2,3) this] show ?thesis
    by (simp add: Compound parse_class_def del: class_bits.simps encode_class.simps)
next
  case (Reference k)
  then show ?thesis using ok(1) by (simp add: parse_class_def reads_ret)
next
  case (Enum base names vals)
  have "reads parse (encode_type base) base" using ok(1) by (intro sub) (simp_all add: Enum)
  from reads_enum [OF ok(1) [unfolded Enum] this] show ?thesis
    by (simp add: Enum parse_class_def del: class_bits.simps encode_class.simps)
next
  case (VariableLength k base pad cs)
  have "reads parse (encode_type base) base" using ok(1) by (intro sub) (simp_all add: VariableLength)
  from reads_vlen [OF this] show ?thesis
    by (simp add: VariableLength parse_class_def del: class_bits.simps encode_class.simps)
next
  case (Array dims base)
  have "reads parse (encode_type base) base" using ok(1) by (intro sub) (simp_all add: Array)
  from reads_array [OF ok(1) [unfolded Array] this] show ?thesis
    by (simp add: Array parse_class_def del: class_bits.simps encode_class.simps)
next
  case (UnsupportedClass code)
  then show ?thesis using ok(1) by (auto simp: parse_class_def reads_ret)
qed

lemma class_code_lt: "class_ok ver sz cls \<Longrightarrow> class_code cls < 16"
  by (cases cls) auto

lemma class_bits_lt: "class_ok ver sz cls \<Longrightarrow> class_bits cls < 16777216"
  by (cases cls) (auto simp: order_bit_def pad_code_def charset_code_def
      split: endianness.splits vlen_kind.splits string_padding.splits character_set.splits)

lemma split_bits: "n mod 256 + 256 * (n div 256 mod 256) + 65536 * (n div 65536) = (n :: nat)"
proof -
  have "n div 65536 = n div 256 div 256" by (simp flip: div_mult2_eq)
  moreover have "n = 256 * (n div 256) + n mod 256" by simp
  moreover have "n div 256 = 256 * (n div 256 div 256) + n div 256 mod 256" by simp
  ultimately show ?thesis by linarith
qed

lemma reads_type: "size t < n \<Longrightarrow> type_ok t \<Longrightarrow> reads (parse_at n) (encode_type t) t"
proof (induction n arbitrary: t)
  case (Suc n)
  obtain ver sz cls where t: "t = Datatype ver sz cls" by (cases t)
  have o: "0 < ver" "ver \<le> 4" "sz < 2 ^ 32" "class_ok ver sz cls" using Suc.prems(2) by (simp_all add: t)
  let ?b = "class_bits cls"
  have cv: "16 * ver + class_code cls < 256" "(16 * ver + class_code cls) div 16 = ver"
    "(16 * ver + class_code cls) mod 16 = class_code cls" using class_code_lt [OF o(4)] o(2) by simp_all
  have b: "?b mod 256 < 256" "?b div 256 mod 256 < 256" "?b div 65536 < 256" using class_bits_lt [OF o(4)] by simp_all
  have cls: "reads (parse_class (parse_at n) (class_code cls) ver ?b sz) (encode_class sz cls) cls"
    by (rule reads_class [OF o(4,2,3)]) (use Suc in \<open>simp add: t\<close>)
  have "reads (bind_p u8 (\<lambda>bits0. bind_p u8 (\<lambda>bits1. bind_p u8 (\<lambda>bits2. bind_p u32 (\<lambda>sz.
         bind_p (parse_class (parse_at n) (class_code cls) ver (bits0 + 256 * bits1 + 65536 * bits2) sz) (\<lambda>cls.
           ret_p (Datatype ver sz cls)))))))
      (to_le 1 (?b mod 256) @ to_le 1 (?b div 256 mod 256) @ to_le 1 (?b div 65536) @ to_le 4 sz @ encode_class sz cls) t"
    unfolding t
    by (rule reads_bind [OF reads_u8 [OF b(1)]], rule reads_bind [OF reads_u8 [OF b(2)]],
        rule reads_bind [OF reads_u8 [OF b(3)]], rule reads_bind [OF reads_u32' [OF o(3)]], unfold split_bits,
        rule reads_bind_last [OF cls reads_ret])
  then show ?case
    unfolding t parse_at.simps encode_type.simps
    by (intro reads_bind [OF reads_u8 [OF cv(1)]]) (use o(1,2) class_code_lt [OF o(4)] in \<open>simp add: cv del: to_le.simps\<close>)
qed simp

lemma floor_log2_lower: "2 ^ k \<le> n \<Longrightarrow> k \<le> floor_log2 n"
proof (induction k arbitrary: n)
  case (Suc k)
  have "(1 :: nat) \<le> 2 ^ k" by simp
  then have "1 < n" using Suc.prems unfolding power_Suc by linarith
  moreover have "2 ^ k \<le> n div 2" using Suc.prems by simp
  ultimately show ?case using Suc.IH [of "n div 2"] by (simp add: floor_log2.simps [of n])
qed simp

lemma floor_log2_eq: "2 ^ k \<le> n \<Longrightarrow> n < 2 ^ Suc k \<Longrightarrow> floor_log2 n = k"
  using floor_log2_lower floor_log2_bound by (simp add: le_antisym)

lemma read_uint_lt:
  assumes "read_uint w c = Inr (v, c')"
  shows "v < 256 ^ w"
proof (cases "w = 0 \<or> 8 < w")
  case True
  then show ?thesis using assms by (auto simp: read_uint_def fail_p_def result_simps split: if_splits)
next
  case False
  then have "v = le_nat (slice (pos c) w (buf c))" "pos c + w \<le> length (buf c)"
    using assms by (auto simp: read_uint_eq result_simps)
  then show ?thesis using le_nat_bound [of "slice (pos c) w (buf c)"] by simp
qed

lemma repeat_p_elem: "repeat_p n p c = Inr (xs, c') \<Longrightarrow> x \<in> set xs \<Longrightarrow> \<exists>c1 c2. p c1 = Inr (x, c2)"
proof (induction n arbitrary: c xs)
  case (Suc n)
  then obtain y ys c1 where "p c = Inr (y, c1)" "repeat_p n p c1 = Inr (ys, c')" "xs = y # ys"
    by (auto simp: result_simps)
  then show ?case using Suc.IH [of c1 ys] Suc.prems(2) by auto
qed (simp add: result_simps)

lemma member_v3_offset:
  assumes "member_v3 parse sz c = Inr (m, c')"
  shows "member_offset m < 256 ^ compound_offset_width sz"
proof -
  obtain nm c1 off c2 t where "read_uint (compound_offset_width sz) c1 = Inr (off, c2)" "m = Member nm off t"
    using assms unfolding member_v3_def bind_p_Ok ret_p_Ok by blast
  then show ?thesis using read_uint_lt by simp
qed

lemma parse_datatype_compound:
  assumes "parse_datatype data = Ok (Datatype ver sz (Compound ms))" and "3 \<le> ver"
  shows "\<exists>n parse c c'. repeat_p n (member_v3 parse sz) c = Inr (ms, c')"
proof -
  obtain parse bits code c c' where p: "parse_class parse code ver bits sz c = Inr (Compound ms, c')" "ver \<le> 4"
    using assms(1) by (auto simp: parse_datatype_def run_p_def fail_p_def result_simps split: if_splits)
  have "code = 6"
    using p(1) by (auto simp: parse_class_def parse_fixed_point_def parse_floating_point_def parse_string_def parse_opaque_def
        parse_enum_def parse_vlen_def parse_array_def fail_p_def result_simps split: if_splits)
  then show ?thesis
    using p assms(2) by (auto simp: parse_class_def parse_compound_def fail_p_def result_simps split: if_splits)
qed

lemma parse_encoded:
  assumes "type_ok t" and "length (encode_type t @ rest) \<le> isize_max"
  shows "parse_datatype (encode_type t @ rest) = Ok t"
proof -
  let ?n = "Suc (size t + length (encode_type t @ rest))"
  have "reads (parse_at ?n) (encode_type t) t" using assms(1) by (intro reads_type) simp_all
  from run_p_reads [OF this, of rest] have "run_p (parse_at ?n) (encode_type t @ rest) = Ok t" using assms(2) by simp
  then show ?thesis by (subst (asm) run_parse_at) simp_all
qed

text \<open>A version 1 compound of \<open>n\<close> members whose first one declares an array of the given rank.\<close>

definition padded_name :: "rstring \<Rightarrow> bytes" where
  "padded_name nm = encode_cstring nm @
     replicate (if (length nm + 1) mod 8 \<noteq> 0 then 8 - (length nm + 1) mod 8 else 0) 0"

definition v1_member :: "rstring \<Rightarrow> nat \<Rightarrow> nat \<Rightarrow> nat list \<Rightarrow> hdf_type \<Rightarrow> bytes" where
  "v1_member nm off rank dims base =
     padded_name nm @ to_le 4 off @ to_le 1 rank @ replicate 3 0 @ replicate 4 0 @ replicate 4 0 @
     concat (map (to_le 4) dims) @ encode_type base"

definition v1_compound :: "nat \<Rightarrow> nat \<Rightarrow> rstring \<Rightarrow> nat \<Rightarrow> nat \<Rightarrow> nat list \<Rightarrow> hdf_type \<Rightarrow> bytes" where
  "v1_compound n sz nm off rank dims base =
     to_le 1 22 @ to_le 1 (n mod 256) @ to_le 1 (n div 256 mod 256) @ to_le 1 (n div 65536) @ to_le 4 sz @
     v1_member nm off rank dims base"

lemma reads_padded_name:
  assumes "name_ok nm"
  shows "reads (cstring_padded 8) (padded_name nm) nm"
  unfolding reads_def
proof (intro allI impI)
  fix pre post :: bytes
  define pad where "pad = (if (length nm + 1) mod 8 \<noteq> 0 then 8 - (length nm + 1) mod 8 else 0)"
  define b where "b = pre @ encode_cstring nm @ replicate pad 0 @ post"
  have pn: "padded_name nm = encode_cstring nm @ replicate pad 0" by (simp add: padded_name_def pad_def)
  assume "length pre + length (padded_name nm) + length post \<le> isize_max"
  then have len: "length b \<le> isize_max" by (simp add: b_def pn)
  have c: "cstring \<lparr>buf = b, pos = length pre\<rparr> = Ok (nm, \<lparr>buf = b, pos = length pre + (length nm + 1)\<rparr>)"
    using reads_cstring [OF assms, unfolded reads_def, rule_format, of pre "replicate pad 0 @ post"] len
    by (simp add: b_def encode_cstring_def)
  have s: "skip pad \<lparr>buf = b, pos = length pre + (length nm + 1)\<rparr> =
      Ok ((), \<lparr>buf = b, pos = length pre + (length nm + 1) + pad\<rparr>)"
    using reads_skip [of "replicate pad 0" pad, unfolded reads_def, rule_format, of "pre @ encode_cstring nm" post] len
    by (simp add: b_def encode_cstring_def)
  show "cstring_padded 8 \<lparr>buf = pre @ padded_name nm @ post, pos = length pre\<rparr> =
      Ok (nm, \<lparr>buf = pre @ padded_name nm @ post, pos = length pre + length (padded_name nm)\<rparr>)"
    using c s unfolding pn append_assoc b_def [symmetric]
    by (auto simp: cstring_padded_def bind_p_def get_pos_def ret_p_def pad_def encode_cstring_def)
qed

definition panics_at :: "bytes \<Rightarrow> bytes \<Rightarrow> 'a parser \<Rightarrow> bool" where
  "panics_at pre post p \<longleftrightarrow>
     (length (pre @ post) \<le> isize_max \<longrightarrow> p \<lparr>buf = pre @ post, pos = length pre\<rparr> = Inl Panic)"

lemma panics_at_step: "reads p xs v \<Longrightarrow> panics_at (pre @ xs) post (f v) \<Longrightarrow> panics_at pre (xs @ post) (bind_p p f)"
  by (auto simp: panics_at_def reads_def bind_p_def)

lemma panics_at_bind: "panics_at pre post p \<Longrightarrow> panics_at pre post (bind_p p f)"
  by (auto simp: panics_at_def bind_p_def)

lemma v1_member_panics:
  assumes "name_ok nm" and "off < 2 ^ 32" and "4 < rank" and "rank < 256"
    and "length dims = 4" and "\<forall>d \<in> set dims. d < 2 ^ 32" and "reads parse (encode_type base) base"
  shows "panics_at pre (v1_member nm off rank dims base @ rest) (member_v1 parse ver)"
proof -
  have dims: "reads (repeat_p 4 u32) (concat (map (to_le 4) dims)) dims"
    using reads_repeat [of dims u32 "to_le 4"] assms(5,6) reads_u32' by fastforce
  have z: "reads (skip k) (replicate k 0) ()" for k by (rule reads_skip) simp
  have bad: "panics_at pre post (if rank = 0 then ret_p (Member nm off base)
       else bind_p (lift_p (slice_range dims 0 rank)) f)" for pre post f
    using assms(3,5) by (simp add: panics_at_def slice_range_def lift_p_def bind_p_def)
  show ?thesis
    unfolding member_v1_def v1_member_def append_assoc
    by (rule panics_at_step [OF reads_padded_name [OF assms(1)]], rule panics_at_step [OF reads_u32' [OF assms(2)]],
        rule panics_at_step [OF reads_u8 [OF assms(4)]], rule panics_at_step [OF z], rule panics_at_step [OF z],
        rule panics_at_step [OF z], rule panics_at_step [OF dims], rule panics_at_step [OF assms(7)], rule bad)
qed

lemma v1_compound_panics:
  assumes n: "0 < n" "n < 65536" and sz: "sz < 2 ^ 32" and m: "name_ok nm" "off < 2 ^ 32" "4 < rank" "rank < 256"
    "length dims = 4" "\<forall>d \<in> set dims. d < 2 ^ 32" and base: "type_ok base"
    and len: "length (v1_compound n sz nm off rank dims base @ rest) \<le> isize_max"
  shows "parse_datatype (v1_compound n sz nm off rank dims base @ rest) = Inl Panic"
proof -
  define fuel where "fuel = Suc (size base + length (v1_compound n sz nm off rank dims base @ rest))"
  have b: "n mod 256 < 256" "n div 256 mod 256 < 256" "n div 65536 < 256" using n by simp_all
  have base': "reads (parse_at fuel) (encode_type base) base" using base by (intro reads_type) (simp_all add: fuel_def)
  obtain k where k: "n mod 65536 = Suc k" using n by (cases n) auto
  have cls: "panics_at pre (v1_member nm off rank dims base @ rest) (parse_class (parse_at fuel) 6 1 n sz)" for pre
    using v1_member_panics [OF m base'] by (simp add: parse_class_def parse_compound_def k panics_at_bind)
  have bits: "panics_at pre (to_le 1 (n mod 256) @ to_le 1 (n div 256 mod 256) @ to_le 1 (n div 65536) @ to_le 4 sz @
        v1_member nm off rank dims base @ rest)
      (bind_p u8 (\<lambda>bits0. bind_p u8 (\<lambda>bits1. bind_p u8 (\<lambda>bits2. bind_p u32 (\<lambda>sz.
         bind_p (parse_class (parse_at fuel) 6 1 (bits0 + 256 * bits1 + 65536 * bits2) sz) (\<lambda>cls.
           ret_p (Datatype 1 sz cls)))))))" for pre
    by (rule panics_at_step [OF reads_u8 [OF b(1)]], rule panics_at_step [OF reads_u8 [OF b(2)]],
        rule panics_at_step [OF reads_u8 [OF b(3)]], rule panics_at_step [OF reads_u32' [OF sz]], unfold split_bits,
        rule panics_at_bind [OF cls])
  have "panics_at [] (v1_compound n sz nm off rank dims base @ rest) (parse_at (Suc fuel))"
    unfolding v1_compound_def parse_at.simps append_assoc
    by (rule panics_at_step [OF reads_u8 [of 22]]) (use bits in \<open>simp_all del: to_le.simps\<close>)
  then have "run_p (parse_at (Suc fuel)) (v1_compound n sz nm off rank dims base @ rest) = Inl Panic"
    using len by (simp add: panics_at_def run_p_def new_cursor_def del: parse_at.simps)
  then show ?thesis by (subst (asm) run_parse_at) (simp_all add: fuel_def)
qed

section \<open>Properties\<close>


definition example_type :: hdf_type where
  "example_type = Datatype 3 12 (Compound
     [Member [120] 0 (Datatype 1 4 (FixedPoint Big True 0 32)),
      Member [121] 4 (Datatype 1 8 (Array [2] (Datatype 1 4 (FloatingPoint Little 0 32 23 8 0 23 127 31))))])"




text \<open>
  In a compound of version 3 or 4 of 257 to 511 bytes no member offset above 255 can be
  read, although members lie there: the width computed for the offset field is one byte.
\<close>

theorem compound_offsets_truncated:
  assumes "parse_datatype data = Ok (Datatype ver sz (Compound ms))" and "3 \<le> ver" and "256 < sz" and "sz < 512"
    and "m \<in> set ms"
  shows "member_offset m < 256"
proof -
  have w: "compound_offset_width sz = 1"
    using floor_log2_eq [of 8 sz] assms(3,4) by (simp add: compound_offset_width_def div_ceil_def)
  from parse_datatype_compound [OF assms(1,2)]
  obtain parse :: "hdf_type parser" and n c c' where "repeat_p n (member_v3 parse sz) c = Inr (ms, c')" by auto
  from repeat_p_elem [OF this assms(5)] obtain c1 c2 where "member_v3 parse sz c1 = Inr (m, c2)" by auto
  from member_v3_offset [OF this] show ?thesis by (simp add: w)
qed

definition wide_type :: hdf_type where
  "wide_type = Datatype 3 300 (Compound [Member [120] 44 (Datatype 1 4 (FixedPoint Little True 0 32))])"

theorem compound_offsets_truncated_witness:
  "parse_datatype (encode_type wide_type @ []) = Ok wide_type \<and> compound_offset_width 300 = 1 \<and>
   member_offset (Member [120] 44 (Datatype 1 4 (FixedPoint Little True 0 32))) < 256"
proof -
  have w: "compound_offset_width 300 = 1" by (simp add: compound_offset_width_def floor_log2.simps div_ceil_def)
  have "from_utf8_lossy [120] = [120]" by (rule from_utf8_lossy_id, rule valid_utf8_ascii) simp
  then have p: "parse_datatype (encode_type wide_type @ []) = Ok wide_type"
    by (intro parse_encoded) (simp_all add: wide_type_def name_ok_def w encode_cstring_def isize_max_def)
  from compound_offsets_truncated [OF this [unfolded wide_type_def]]
  have "member_offset (Member [120] 44 (Datatype 1 4 (FixedPoint Little True 0 32))) < 256" by simp
  with p w show ?thesis by blast
qed

text \<open>
  A member of a version 1 compound that declares more than four dimensions makes the parser
  panic, whatever its name, offset, shape and base type: the rank byte slices the four stored
  dimensions unchecked.
\<close>

theorem member_rank_panics:
  assumes "0 < n" and "n < 65536" and "sz < 2 ^ 32" and "name_ok nm" and "off < 2 ^ 32" and "4 < rank" and "rank < 256"
    and "length dims = 4" and "\<forall>d \<in> set dims. d < 2 ^ 32" and "type_ok base"
    and "length (v1_compound n sz nm off rank dims base @ rest) \<le> isize_max"
  shows "parse_datatype (v1_compound n sz nm off rank dims base @ rest) = Inl Panic"
  using assms by (rule v1_compound_panics)

theorem member_rank_panics_witness:
  "parse_datatype (v1_compound 1 4 [120] 0 5 [1, 1, 1, 1] (Datatype 1 4 (FixedPoint Little True 0 32)) @ []) = Inl Panic"
proof -
  have "from_utf8_lossy [120] = [120]" by (rule from_utf8_lossy_id, rule valid_utf8_ascii) simp
  then show ?thesis
    by (intro member_rank_panics) (simp_all add: name_ok_def v1_compound_def v1_member_def padded_name_def encode_cstring_def isize_max_def)
qed

end
