(* ===== verification/Chunk_Copy.thy ===== *)
theory Chunk_Copy
  imports Hyperslab Btree1
begin

text \<open>
  How one decoded chunk is copied into the output of a read (\<^verbatim>\<open>read.rs\<close>, the body of
  \<open>read_chunked\<close>): the intersection of the chunk with the selection, the loop over its rows with
  the odometer, and the element positions in chunk and output.  All sums and products are written
  with the overflow checks of the source's operators.
\<close>

section \<open>The intersection\<close>

definition lows :: "chunk_record \<Rightarrow> hyperslab \<Rightarrow> nat list" where
  "lows r slab = map2 max (chunk_offset r) (start slab)"

definition highs :: "chunk_record \<Rightarrow> nat list \<Rightarrow> hyperslab \<Rightarrow> nat list" where
  "highs r chunk_shape slab =
     map2 min (map2 saturating_add (chunk_offset r) chunk_shape) (map2 (+) (start slab) (cnt slab))"

definition intersects :: "chunk_record \<Rightarrow> nat list \<Rightarrow> hyperslab \<Rightarrow> nat \<Rightarrow> bool" where
  "intersects r chunk_shape slab rank =
     list_all (\<lambda>axis. max (chunk_offset r ! axis) (start slab ! axis) <
         min (saturating_add (chunk_offset r ! axis) (chunk_shape ! axis)) (start slab ! axis + cnt slab ! axis))
       [0..<rank]"

section \<open>The rows\<close>

text \<open>
  The sums over the axes of one row: \<open>lo\<close> plus the row's index gives the coordinate, and its
  distances to the chunk's and the selection's first element are weighted by the strides.  The last
  axis has index 0.
\<close>

fun row_offsets ::
  "nat list \<Rightarrow> nat list \<Rightarrow> nat list \<Rightarrow> nat list \<Rightarrow> nat list \<Rightarrow> nat list \<Rightarrow> nat \<times> nat \<Rightarrow> (nat \<times> nat) result" where
  "row_offsets (l # lo) (i # index) (o1 # off) (s # st) (c # cs) (d # ds) (src, dst) =
     and_then (add64 l i) (\<lambda>coord.
     and_then (sub64 coord o1) (\<lambda>a. and_then (mul64 a c) (\<lambda>m. and_then (add64 src m) (\<lambda>src.
     and_then (sub64 coord s) (\<lambda>b. and_then (mul64 b d) (\<lambda>m. and_then (add64 dst m) (\<lambda>dst.
       row_offsets lo index off st cs ds (src, dst))))))))"
| "row_offsets _ _ _ _ _ _ (src, dst) = Ok (src, dst)"

definition copy_row :: "bytes \<Rightarrow> nat \<Rightarrow> nat \<Rightarrow> nat \<Rightarrow> nat \<Rightarrow> bytes \<Rightarrow> bytes result" where
  "copy_row decoded es src dst run out =
     and_then (mul64 src es) (\<lambda>sb. and_then (mul64 dst es) (\<lambda>db. and_then (mul64 run es) (\<lambda>len.
     and_then (add64 sb len) (\<lambda>fin. and_then (slice_range decoded sb fin) (copy_into out db len)))))"

fun copy_rows ::
  "nat \<Rightarrow> nat list \<Rightarrow> nat list \<Rightarrow> nat list \<Rightarrow> nat list \<Rightarrow> nat list \<Rightarrow> nat list \<Rightarrow> nat \<Rightarrow> nat \<Rightarrow> bytes \<Rightarrow>
   nat list \<Rightarrow> bytes \<Rightarrow> bytes result" where
  "copy_rows 0 lo ext off st cs ds run es decoded index out = Ok out"
| "copy_rows (Suc n) lo ext off st cs ds run es decoded index out =
     and_then (row_offsets lo (index @ [0]) off st cs ds (0, 0)) (\<lambda>(src, dst).
     and_then (copy_row decoded es src dst run out) (\<lambda>out.
       copy_rows n lo ext off st cs ds run es decoded (odometer ext (length lo - 1) index) out))"

definition copy_chunk ::
  "chunk_record \<Rightarrow> nat list \<Rightarrow> hyperslab \<Rightarrow> nat \<Rightarrow> nat list \<Rightarrow> nat list \<Rightarrow> bytes \<Rightarrow> bytes \<Rightarrow> bytes result" where
  "copy_chunk r chunk_shape slab es chunk_strides dst_strides decoded out =
     (let lo = lows r slab; hi = highs r chunk_shape slab; ext = map2 (-) hi lo in
      if list_ex (\<lambda>(l, h). h \<le> l) (zip lo hi) then Ok out
      else and_then (sub64 (length chunk_shape) 1) (\<lambda>inner.
        copy_rows (max (saturating_product (take inner ext)) (if length chunk_shape = 1 then 1 else 0))
          lo ext (chunk_offset r) (start slab) chunk_strides dst_strides (ext ! inner) es decoded
          (replicate inner 0) out))"

section \<open>Elements\<close>

definition elem :: "nat \<Rightarrow> bytes \<Rightarrow> nat \<Rightarrow> bytes" where
  "elem es bs i = slice (i * es) es bs"

lemma elem_take: "(i + 1) * es \<le> n \<Longrightarrow> elem es (take n bs) i = elem es bs i"
  by (simp add: elem_def slice_def drop_take)

lemma elem_slice:
  assumes "j < run"
  shows "elem es (slice (s * es) (run * es) bs) j = elem es bs (s + j)"
proof -
  have "j * es + es \<le> run * es" using mult_le_mono1 [of "Suc j" run es] assms by simp
  then show ?thesis by (simp add: elem_def slice_slice add_mult_distrib)
qed

lemma elem_splice:
  assumes out: "length out = n * es" and d: "d + run \<le> n" and bs: "length bs = run * es" and i: "i < n"
  shows "elem es (take (d * es) out @ bs @ drop ((d + run) * es) out) i =
    (if d \<le> i \<and> i < d + run then elem es bs (i - d) else elem es out i)"
proof -
  have le: "d * es \<le> length out" unfolding out using d by (intro mult_le_mono1) simp
  consider "i < d" | "d \<le> i" "i < d + run" | "d + run \<le> i" by linarith
  then show ?thesis
  proof cases
    case 1
    then have "(i + 1) * es \<le> d * es" by (intro mult_le_mono1) simp
    then have "i * es + es \<le> d * es" by simp
    then show ?thesis using 1 le by (simp add: elem_def slice_def drop_take)
  next
    case 2
    have e: "i * es - d * es = (i - d) * es" by (simp add: diff_mult_distrib)
    have "(i - d + 1) * es \<le> run * es" using 2 by (intro mult_le_mono1) simp
    then have "(i - d) * es + es \<le> length bs" using bs by simp
    moreover have "d * es \<le> i * es" using 2 by simp
    ultimately show ?thesis using 2 le e by (simp add: elem_def slice_def)
  next
    case 3
    have e: "i * es - d * es - run * es = (i - (d + run)) * es" by (simp add: diff_mult_distrib add_mult_distrib)
    have "(d + run) * es \<le> i * es" using 3 by (intro mult_le_mono1) simp
    then have ge: "d * es + run * es \<le> i * es" by (simp add: add_mult_distrib)
    have "(i - (d + run)) * es + (d * es + run * es) = i * es" using e ge by linarith
    moreover have "drop (i * es) (take (d * es) out) = []" using ge by simp
    ultimately have "drop (i * es) (take (d * es) out @ bs @ drop ((d + run) * es) out) = drop (i * es) out"
      using le bs e by (simp add: add_mult_distrib)
    then show ?thesis using 3 by (simp add: elem_def slice_def)
  qed
qed

lemma copy_row_elem:
  assumes out: "length out = n * es" and d: "d + run \<le> n" and s: "s + run \<le> m" and dec: "m * es \<le> length decoded"
    and small: "length out \<le> isize_max" "length decoded \<le> isize_max"
  shows "\<exists>out'. copy_row decoded es s d run out = Ok out' \<and> length out' = length out \<and>
    (\<forall>i < n. elem es out' i = (if d \<le> i \<and> i < d + run then elem es decoded (s + (i - d)) else elem es out i))"
proof -
  let ?bs = "slice (s * es) (run * es) decoded"
  have s': "(s + run) * es \<le> length decoded" using mult_le_mono1 [OF s, of es] dec by linarith
  have d': "(d + run) * es \<le> length out" unfolding out by (rule mult_le_mono1 [OF d])
  have b: "s * es \<le> u64_max" "d * es \<le> u64_max" "run * es \<le> u64_max" "s * es + run * es \<le> u64_max" "d * es + run * es \<le> u64_max"
    using s' d' small by (simp_all add: add_mult_distrib isize_max_def u64_max_def)
  have bs: "length ?bs = run * es" using s' by (simp add: add_mult_distrib)
  have "copy_row decoded es s d run out = Ok (take (d * es) out @ ?bs @ drop ((d + run) * es) out)"
    using b s' d' bs by (simp add: copy_row_def mul64_def add64_def slice_range_def copy_into_def add_mult_distrib)
  moreover have "length (take (d * es) out @ ?bs @ drop ((d + run) * es) out) = length out"
    using d' bs by (simp add: add_mult_distrib)
  moreover have "elem es ?bs (i - d) = elem es decoded (s + (i - d))" if "d \<le> i" "i < d + run" for i
    using that by (intro elem_slice) simp
  ultimately show ?thesis using elem_splice [OF out d bs] by (intro exI [of _ "take (d * es) out @ ?bs @ drop ((d + run) * es) out"]) auto
qed

lemma row_offsets_eq:
  "length lo = length off \<Longrightarrow> length ix = length off \<Longrightarrow> length st = length off \<Longrightarrow> length cs = length off \<Longrightarrow>
   length ds = length off \<Longrightarrow>
   (\<forall>a < length off. off ! a \<le> lo ! a + ix ! a \<and> st ! a \<le> lo ! a + ix ! a \<and> lo ! a + ix ! a \<le> u64_max) \<Longrightarrow>
   src + dot (map2 (-) (map2 (+) lo ix) off) cs \<le> u64_max \<Longrightarrow> dst + dot (map2 (-) (map2 (+) lo ix) st) ds \<le> u64_max \<Longrightarrow>
   row_offsets lo ix off st cs ds (src, dst) =
     Ok (src + dot (map2 (-) (map2 (+) lo ix) off) cs, dst + dot (map2 (-) (map2 (+) lo ix) st) ds)"
proof (induction off arbitrary: lo ix st cs ds src dst)
  case (Cons o1 off)
  obtain l lo' i ix' s st' c cs' d ds' where e: "lo = l # lo'" "ix = i # ix'" "st = s # st'" "cs = c # cs'" "ds = d # ds'"
    using Cons.prems(1-5) by (auto simp: length_Suc_conv)
  have h: "o1 \<le> l + i" "s \<le> l + i" "l + i \<le> u64_max" using Cons.prems(6) by (auto simp: e dest: spec [of _ 0])
  have t: "\<forall>a < length off. off ! a \<le> lo' ! a + ix' ! a \<and> st' ! a \<le> lo' ! a + ix' ! a \<and> lo' ! a + ix' ! a \<le> u64_max"
    using Cons.prems(6) by (auto simp: e dest: spec [of _ "Suc _"])
  have b: "src + (l + i - o1) * c + dot (map2 (-) (map2 (+) lo' ix') off) cs' \<le> u64_max"
    "dst + (l + i - s) * d + dot (map2 (-) (map2 (+) lo' ix') st') ds' \<le> u64_max"
    using Cons.prems(7,8) by (simp_all add: e add.assoc)
  then have b': "(l + i - o1) * c \<le> u64_max" "src + (l + i - o1) * c \<le> u64_max"
    "(l + i - s) * d \<le> u64_max" "dst + (l + i - s) * d \<le> u64_max" by linarith+
  from Cons.IH [OF _ _ _ _ _ t b] Cons.prems(1-5) h b' show ?case
    by (simp add: e add64_def sub64_def mul64_def add.assoc)
qed simp

section \<open>The setting of a copy\<close>

text \<open>
  A chunk of a non-zero shape that meets the selection: \<open>lo\<close> and \<open>hi\<close> bound the intersection,
  which lies inside both.
\<close>

locale chunk_meets =
  fixes chunk_shape :: "nat list" and off :: "nat list" and st :: "nat list" and ct :: "nat list"
    and lo :: "nat list" and hi :: "nat list"
  assumes rank: "0 < length chunk_shape"
    and lens: "length off = length chunk_shape" "length st = length chunk_shape" "length ct = length chunk_shape"
      "length lo = length chunk_shape" "length hi = length chunk_shape"
    and meets: "\<And>a. a < length chunk_shape \<Longrightarrow> lo ! a < hi ! a"
    and in_chunk: "\<And>a. a < length chunk_shape \<Longrightarrow> off ! a \<le> lo ! a \<and> hi ! a \<le> off ! a + chunk_shape ! a"
    and in_slab: "\<And>a. a < length chunk_shape \<Longrightarrow> st ! a \<le> lo ! a \<and> hi ! a \<le> st ! a + ct ! a"
begin

abbreviation inner :: nat where
  "inner \<equiv> length chunk_shape - 1"

abbreviation ext :: "nat list" where
  "ext \<equiv> map2 (-) hi lo"

abbreviation outer :: nat where
  "outer \<equiv> prod_list (take inner ext)"

definition index_of :: "nat \<Rightarrow> nat list" where
  "index_of k = outer_index \<lparr>start = lo, cnt = ext\<rparr> inner k"

definition coords :: "nat \<Rightarrow> nat \<Rightarrow> nat list" where
  "coords k j = map2 (+) lo (index_of k @ [j])"

abbreviation in_chunk_at :: "nat list \<Rightarrow> nat list" where
  "in_chunk_at x \<equiv> map2 (-) x off"

abbreviation in_slab_at :: "nat list \<Rightarrow> nat list" where
  "in_slab_at x \<equiv> map2 (-) x st"

lemma length_ext [simp]: "length ext = length chunk_shape"
  using lens by simp

lemma ext_nth: "a < length chunk_shape \<Longrightarrow> ext ! a = hi ! a - lo ! a"
  using lens by simp

lemma ext_pos: "\<forall>c \<in> set ext. 0 < c"
  using meets lens by (auto simp: in_set_conv_nth)

lemma index_of_flat:
  assumes "k < outer"
  shows "in_dims (take inner ext) (index_of k)" "flat (take inner ext) (index_of k) = k" "length (index_of k) = inner"
proof -
  have "inner \<le> length (cnt \<lparr>start = lo, cnt = ext\<rparr>)" by (simp add: lens)
  from outer_index_flat [OF this] ext_pos assms
  show 1: "in_dims (take inner ext) (index_of k)" "flat (take inner ext) (index_of k) = k"
    by (simp_all add: index_of_def)
  show "length (index_of k) = inner" using in_dims_length [OF 1(1)] by (simp add: lens)
qed

lemma coords_nth:
  assumes "k < outer" and "j < ext ! inner" and "a < length chunk_shape"
  shows "lo ! a \<le> coords k j ! a \<and> coords k j ! a < hi ! a"
proof -
  have len: "length (index_of k) = inner" using index_of_flat [OF assms(1)] by simp
  have nth: "coords k j ! a = lo ! a + (index_of k @ [j]) ! a" using assms(3) lens len rank by (simp add: coords_def)
  show ?thesis
  proof (cases "a < inner")
    case True
    have "index_of k ! a < hi ! a - lo ! a" using index_of_flat(1) [OF assms(1)] True lens by (simp add: in_dims_nth)
    then show ?thesis using nth True len by (simp add: nth_append)
  next
    case False
    then have "a = inner" using assms(3) by linarith
    then show ?thesis using nth len assms(2) ext_nth [OF assms(3)] by (auto simp: nth_append less_diff_conv)
  qed
qed

lemma length_coords: "k < outer \<Longrightarrow> length (coords k j) = length chunk_shape"
  using index_of_flat(3) [of k] lens rank by (simp add: coords_def)

lemma coords_in:
  assumes "k < outer" and "j < ext ! inner"
  shows "in_dims chunk_shape (in_chunk_at (coords k j))" "in_dims ct (in_slab_at (coords k j))"
proof -
  have "coords k j ! a - off ! a < chunk_shape ! a \<and> coords k j ! a - st ! a < ct ! a" if "a < length chunk_shape" for a
    using coords_nth [OF assms that] in_chunk [OF that] in_slab [OF that] by linarith
  then show "in_dims chunk_shape (in_chunk_at (coords k j))" "in_dims ct (in_slab_at (coords k j))"
    using lens length_coords [OF assms(1)] by (simp_all add: in_dims_nth)
qed

lemma coords_step:
  assumes "k < outer" and "length base = length chunk_shape" and "length dims = length chunk_shape"
    and "\<And>a. a < length chunk_shape \<Longrightarrow> base ! a \<le> lo ! a"
  shows "flat dims (map2 (-) (coords k j) base) = flat dims (map2 (-) (coords k 0) base) + j"
proof -
  have len: "length (index_of k) = inner" using index_of_flat [OF assms(1)] by simp
  define ix where "ix = index_of k"
  have c: "coords k j = map2 (+) lo (ix @ [j])" for j by (simp add: coords_def ix_def)
  obtain l0 l1 where lo': "lo = l0 @ [l1]" "length l0 = inner" using lens(4) rank by (cases lo rule: rev_cases) auto
  obtain b0 b1 where b: "base = b0 @ [b1]" "length b0 = inner" using assms(2) rank by (cases base rule: rev_cases) auto
  obtain d0 d1 where d: "dims = d0 @ [d1]" "length d0 = inner" using assms(3) rank by (cases dims rule: rev_cases) auto
  have "b1 \<le> l1" using assms(4) [of inner] rank lo' b by (simp add: nth_append)
  moreover have "map2 (-) (coords k j) base = map2 (-) (map2 (+) l0 ix) b0 @ [l1 + j - b1]" for j
  proof -
    have "map2 (-) (map2 (+) lo (ix @ [j])) base = map2 (-) (map2 (+) l0 ix) b0 @ [l1 + j - b1]"
      by (subst lo'(1), subst b(1)) (use lo'(2) b(2) len in \<open>simp add: ix_def\<close>)
    then show ?thesis by (simp only: c)
  qed
  moreover have "length (map2 (-) (map2 (+) l0 ix) b0) = length d0" using lo'(2) b(2) d(2) len by (simp add: ix_def)
  ultimately show ?thesis unfolding d(1) by (simp add: flat_snoc)
qed

text \<open>The row \<open>k\<close> occupies exactly the output positions of its coordinates.\<close>

lemma row_positions:
  assumes k: "k < outer" and idx: "in_dims ct idx"
  defines "d \<equiv> flat ct (in_slab_at (coords k 0))"
  shows "d \<le> flat ct idx \<and> flat ct idx < d + ext ! inner \<longleftrightarrow>
    (\<exists>j < ext ! inner. map2 (+) st idx = coords k j \<and> flat ct idx = d + j)"
proof -
  have le: "\<And>a. a < length chunk_shape \<Longrightarrow> st ! a \<le> lo ! a" using in_slab by blast
  have step: "flat ct (in_slab_at (coords k j)) = d + j" for j
    unfolding d_def by (rule coords_step [OF k]) (use lens le in simp_all)
  have restore: "map2 (+) st (in_slab_at (coords k j)) = coords k j" if "j < ext ! inner" for j
    using coords_nth [OF k that] le length_coords [OF k, of j] lens by (intro nth_equalityI) fastforce+
  show ?thesis
  proof
    assume r: "d \<le> flat ct idx \<and> flat ct idx < d + ext ! inner"
    define j where "j = flat ct idx - d"
    have j: "j < ext ! inner" "flat ct idx = d + j" using r by (auto simp: j_def)
    have "idx = in_slab_at (coords k j)"
      by (rule flat_inj [of ct]) (use idx j(2) step [of j] coords_in(2) [OF k j(1)] in auto)
    then show "\<exists>j < ext ! inner. map2 (+) st idx = coords k j \<and> flat ct idx = d + j" using restore [OF j(1)] j by auto
  qed auto
qed

lemma index_of_0: "index_of 0 = replicate inner 0"
  by (simp add: index_of_def outer_index_def)

lemma run_pos: "0 < ext ! inner"
  using meets [of inner] ext_nth [of inner] rank by simp

lemma row_inside:
  assumes k: "k < outer"
  shows "flat ct (in_slab_at (coords k 0)) + ext ! inner \<le> prod_list ct"
    "flat chunk_shape (in_chunk_at (coords k 0)) + ext ! inner \<le> prod_list chunk_shape"
proof -
  have j: "ext ! inner - 1 < ext ! inner" using run_pos by simp
  have "flat ct (in_slab_at (coords k (ext ! inner - 1))) = flat ct (in_slab_at (coords k 0)) + (ext ! inner - 1)"
    by (rule coords_step [OF k]) (use lens in_slab in auto)
  then show "flat ct (in_slab_at (coords k 0)) + ext ! inner \<le> prod_list ct"
    using flat_less [OF coords_in(2) [OF k j]] run_pos by linarith
  have "flat chunk_shape (in_chunk_at (coords k (ext ! inner - 1))) =
      flat chunk_shape (in_chunk_at (coords k 0)) + (ext ! inner - 1)"
    by (rule coords_step [OF k]) (use lens in_chunk in auto)
  then show "flat chunk_shape (in_chunk_at (coords k 0)) + ext ! inner \<le> prod_list chunk_shape"
    using flat_less [OF coords_in(1) [OF k j]] run_pos by linarith
qed

lemma row_offsets_at:
  assumes k: "k < outer" and small: "prod_list chunk_shape \<le> u64_max" "prod_list ct \<le> u64_max"
    "\<And>a. a < length chunk_shape \<Longrightarrow> hi ! a \<le> u64_max"
  shows "row_offsets lo (index_of k @ [0]) off st (stride_list chunk_shape) (stride_list ct) (0, 0) =
    Ok (flat chunk_shape (in_chunk_at (coords k 0)), flat ct (in_slab_at (coords k 0)))"
proof -
  have len: "length (index_of k @ [0]) = length chunk_shape" using index_of_flat(3) [OF k] rank by simp
  have nth: "off ! a \<le> coords k 0 ! a \<and> st ! a \<le> coords k 0 ! a \<and> coords k 0 ! a \<le> u64_max" if "a < length chunk_shape" for a
    using coords_nth [OF k run_pos that] in_chunk [OF that] in_slab [OF that] small(3) [OF that] by linarith
  have c: "coords k 0 ! a = lo ! a + (index_of k @ [0]) ! a" if "a < length chunk_shape" for a
    using that lens len by (simp add: coords_def)
  have f: "dot (in_chunk_at (coords k 0)) (stride_list chunk_shape) = flat chunk_shape (in_chunk_at (coords k 0))"
    "dot (in_slab_at (coords k 0)) (stride_list ct) = flat ct (in_slab_at (coords k 0))"
    using length_coords [OF k, of 0] lens by (intro dot_strides; simp)+
  have le: "flat chunk_shape (in_chunk_at (coords k 0)) \<le> u64_max" "flat ct (in_slab_at (coords k 0)) \<le> u64_max"
    using row_inside [OF k] small by linarith+
  show ?thesis
    using row_offsets_eq [of lo off "index_of k @ [0]" st "stride_list chunk_shape" "stride_list ct" 0 0]
      lens len nth c f le by (simp add: coords_def)
qed

definition covered :: "nat \<Rightarrow> nat \<Rightarrow> nat list \<Rightarrow> bool" where
  "covered m n x \<longleftrightarrow> (\<exists>k j. m \<le> k \<and> k < n \<and> j < ext ! inner \<and> x = coords k j)"

lemma copy_rows_from:
  assumes small: "prod_list chunk_shape \<le> u64_max" "prod_list ct \<le> u64_max"
      "\<And>a. a < length chunk_shape \<Longrightarrow> hi ! a \<le> u64_max"
    and dec: "prod_list chunk_shape * es \<le> length decoded" "length decoded \<le> isize_max"
    and lim: "prod_list ct * es \<le> isize_max"
  shows "m + n \<le> outer \<Longrightarrow> length out = prod_list ct * es \<Longrightarrow>
    \<exists>out'. copy_rows n lo ext off st (stride_list chunk_shape) (stride_list ct) (ext ! inner) es decoded (index_of m) out = Ok out'
      \<and> length out' = length out
      \<and> (\<forall>idx. in_dims ct idx \<longrightarrow> elem es out' (flat ct idx) =
          (if covered m (m + n) (map2 (+) st idx) then elem es decoded (flat chunk_shape (in_chunk_at (map2 (+) st idx)))
           else elem es out (flat ct idx)))"
proof (induction n arbitrary: m out)
  case 0
  then show ?case by (auto simp: covered_def)
next
  case (Suc n)
  have m: "m < outer" using Suc.prems(1) by simp
  let ?s = "flat chunk_shape (in_chunk_at (coords m 0))" and ?d = "flat ct (in_slab_at (coords m 0))"
  obtain o1 where o1: "copy_row decoded es ?s ?d (ext ! inner) out = Ok o1" "length o1 = length out"
    "\<And>i. i < prod_list ct \<Longrightarrow> elem es o1 i =
       (if ?d \<le> i \<and> i < ?d + ext ! inner then elem es decoded (?s + (i - ?d)) else elem es out i)"
    using copy_row_elem [OF Suc.prems(2) row_inside [OF m] dec(1) _ dec(2)] lim Suc.prems(2) by metis
  have nxt: "odometer ext (length lo - 1) (index_of m) = index_of (Suc m)"
    using lens by (simp add: index_of_def outer_index_def)
  obtain out' where o': "copy_rows n lo ext off st (stride_list chunk_shape) (stride_list ct) (ext ! inner) es decoded
      (index_of (Suc m)) o1 = Ok out'" "length out' = length o1"
    "\<And>idx. in_dims ct idx \<Longrightarrow> elem es out' (flat ct idx) =
          (if covered (Suc m) (Suc m + n) (map2 (+) st idx)
           then elem es decoded (flat chunk_shape (in_chunk_at (map2 (+) st idx))) else elem es o1 (flat ct idx))"
    using Suc.IH [of "Suc m" o1] Suc.prems o1(2) by auto
  have el: "elem es o1 (flat ct idx) = (if covered m (Suc m) (map2 (+) st idx)
      then elem es decoded (flat chunk_shape (in_chunk_at (map2 (+) st idx))) else elem es out (flat ct idx))"
    if idx: "in_dims ct idx" for idx
  proof (cases "?d \<le> flat ct idx \<and> flat ct idx < ?d + ext ! inner")
    case True
    then obtain j where j: "j < ext ! inner" "map2 (+) st idx = coords m j" "flat ct idx = ?d + j"
      using row_positions [OF m idx] by blast
    have "flat chunk_shape (in_chunk_at (coords m j)) = ?s + j"
      by (rule coords_step [OF m]) (use lens in_chunk in auto)
    then show ?thesis using o1(3) [OF flat_less [OF idx]] True j by (auto simp: covered_def)
  next
    case False
    have "\<not> covered m (Suc m) (map2 (+) st idx)"
    proof
      assume "covered m (Suc m) (map2 (+) st idx)"
      then obtain j where j: "j < ext ! inner" "map2 (+) st idx = coords m j" by (auto simp: covered_def less_Suc_eq)
      have "map2 (-) (map2 (+) st idx) st = idx"
        using in_dims_length [OF idx] lens by (intro nth_equalityI) auto
      then have "flat ct idx = ?d + j"
        using coords_step [OF m, of st ct j] lens in_slab j(2) by auto
      then show False using False j(1) by simp
    qed
    then show ?thesis using o1(3) [OF flat_less [OF idx]] False by auto
  qed
  have split: "covered m (m + Suc n) x \<longleftrightarrow> covered m (Suc m) x \<or> covered (Suc m) (Suc m + n) x" for x
  proof -
    have "(m \<le> k \<and> k < m + Suc n) = ((m \<le> k \<and> k < Suc m) \<or> (Suc m \<le> k \<and> k < Suc m + n))" for k by arith
    then show ?thesis unfolding covered_def by blast
  qed
  show ?case
  proof (intro exI [of _ out'] conjI allI impI)
    show "copy_rows (Suc n) lo ext off st (stride_list chunk_shape) (stride_list ct) (ext ! inner) es decoded (index_of m) out = Ok out'"
      using o1(1) o'(1) row_offsets_at [OF m small] nxt by simp
    show "length out' = length out" using o1(2) o'(2) by simp
    show "elem es out' (flat ct idx) = (if covered m (m + Suc n) (map2 (+) st idx)
        then elem es decoded (flat chunk_shape (in_chunk_at (map2 (+) st idx))) else elem es out (flat ct idx))"
      if idx: "in_dims ct idx" for idx
      unfolding split o'(3) [OF idx] el [OF idx] by simp
  qed
qed

lemma covered_all:
  assumes "length x = length chunk_shape"
  shows "covered 0 outer x \<longleftrightarrow> (\<forall>a < length chunk_shape. lo ! a \<le> x ! a \<and> x ! a < hi ! a)"
proof
  assume "covered 0 outer x"
  then show "\<forall>a < length chunk_shape. lo ! a \<le> x ! a \<and> x ! a < hi ! a" using coords_nth by (auto simp: covered_def)
next
  assume w: "\<forall>a < length chunk_shape. lo ! a \<le> x ! a \<and> x ! a < hi ! a"
  define ix where "ix = map2 (-) (take inner x) (take inner lo)"
  define k where "k = flat (take inner ext) ix"
  have ix: "in_dims (take inner ext) ix" using w lens assms by (auto simp: in_dims_nth ix_def intro!: diff_less_mono)
  have k: "k < outer" unfolding k_def by (rule flat_less [OF ix])
  have i: "index_of k = ix"
    by (rule flat_inj [of "take inner ext" _ k]) (use index_of_flat [OF k] ix k_def in auto)
  have "x = coords k (x ! inner - lo ! inner)"
  proof (rule nth_equalityI)
    show "length x = length (coords k (x ! inner - lo ! inner))" using length_coords [OF k] assms by simp
    fix a
    assume a: "a < length x"
    have l: "length ix = inner" using assms lens by (simp add: ix_def)
    have c: "coords k (x ! inner - lo ! inner) ! a = lo ! a + (ix @ [x ! inner - lo ! inner]) ! a"
      using a assms lens l rank by (simp add: coords_def i)
    show "x ! a = coords k (x ! inner - lo ! inner) ! a"
    proof (cases "a < inner")
      case True
      then show ?thesis using c w a assms l lens by (auto simp: nth_append ix_def)
    next
      case False
      then have "a = inner" using a assms by linarith
      then show ?thesis using c w a assms l by (auto simp: nth_append)
    qed
  qed
  moreover have "x ! inner - lo ! inner < ext ! inner" using w rank ext_nth [of inner] by (auto simp: diff_less_mono)
  ultimately show "covered 0 outer x" using k by (auto simp: covered_def)
qed

end

section \<open>Copying one chunk\<close>

text \<open>The chunk of a record holds the coordinate \<open>x\<close>.\<close>

definition holds :: "nat list \<Rightarrow> chunk_record \<Rightarrow> nat list \<Rightarrow> bool" where
  "holds chunk_shape r x \<longleftrightarrow>
     (\<forall>a < length chunk_shape. chunk_offset r ! a \<le> x ! a \<and> x ! a < chunk_offset r ! a + chunk_shape ! a)"

definition chunk_position :: "nat list \<Rightarrow> chunk_record \<Rightarrow> nat list \<Rightarrow> nat" where
  "chunk_position chunk_shape r x = flat chunk_shape (map2 (-) x (chunk_offset r))"

definition shapes_ok :: "nat list \<Rightarrow> nat list \<Rightarrow> hyperslab \<Rightarrow> nat \<Rightarrow> bool" where
  "shapes_ok shape chunk_shape slab es \<longleftrightarrow>
     slab_ok slab shape \<and> length chunk_shape = length shape \<and> 0 < length shape \<and>
     (\<forall>d \<in> set shape. d \<le> u64_max) \<and> (\<forall>c \<in> set chunk_shape. 0 < c) \<and> (\<forall>c \<in> set (cnt slab). 0 < c) \<and>
     prod_list chunk_shape \<le> u64_max \<and> prod_list (cnt slab) \<le> u64_max \<and> prod_list (cnt slab) * es \<le> isize_max"

lemma prod_list_le: "length xs = length ys \<Longrightarrow> (\<And>a. a < length xs \<Longrightarrow> xs ! a \<le> ys ! a) \<Longrightarrow> prod_list xs \<le> prod_list (ys :: nat list)"
proof (induction xs ys rule: list_induct2)
  case (Cons x xs y ys)
  have "x \<le> y" using Cons.prems [of 0] by simp
  moreover have "prod_list xs \<le> prod_list ys" using Cons.prems [of "Suc _"] by (intro Cons.IH) auto
  ultimately show ?case by (simp add: mult_le_mono)
qed simp

lemma prod_list_take_le: "(\<forall>d \<in> set ds. 0 < d) \<Longrightarrow> prod_list (take n ds) \<le> prod_list (ds :: nat list)"
proof -
  assume "\<forall>d \<in> set ds. 0 < d"
  then have "0 < prod_list (drop n ds)" by (intro prod_list_pos) (auto dest: in_set_dropD)
  moreover have "prod_list ds = prod_list (take n ds) * prod_list (drop n ds)" by (metis append_take_drop_id prod_list.append)
  ultimately show ?thesis by simp
qed

lemma in_window:
  assumes ok: "shapes_ok shape chunk_shape slab es" and r: "length (chunk_offset r) = length shape"
    and idx: "in_dims (cnt slab) idx"
  shows "(\<forall>a < length chunk_shape. lows r slab ! a \<le> map2 (+) (start slab) idx ! a \<and>
      map2 (+) (start slab) idx ! a < highs r chunk_shape slab ! a) \<longleftrightarrow> holds chunk_shape r (map2 (+) (start slab) idx)"
proof -
  have l: "length (start slab) = length shape" "length (cnt slab) = length shape" "length idx = length shape"
    "length chunk_shape = length shape"
    using ok in_dims_length [OF idx] by (auto simp: shapes_ok_def slab_ok_def)
  have "start slab ! a + idx ! a < u64_max" if "a < length shape" for a
  proof -
    have "idx ! a < cnt slab ! a" using idx that l by (simp add: in_dims_nth)
    moreover have "start slab ! a + cnt slab ! a \<le> shape ! a" "shape ! a \<le> u64_max"
      using ok that by (auto simp: shapes_ok_def slab_ok_def)
    ultimately show ?thesis by linarith
  qed
  moreover have "idx ! a < cnt slab ! a" if "a < length shape" for a using idx that l by (simp add: in_dims_nth)
  ultimately show ?thesis
    using l r by (auto simp: holds_def lows_def highs_def saturating_add_def)
qed

lemma copy_chunk_correct:
  assumes ok: "shapes_ok shape chunk_shape slab es" and r: "length (chunk_offset r) = length shape"
    and dec: "prod_list chunk_shape * es \<le> length decoded" "length decoded \<le> isize_max"
    and out: "length out = prod_list (cnt slab) * es"
  shows "\<exists>out'. copy_chunk r chunk_shape slab es (stride_list chunk_shape) (stride_list (cnt slab)) decoded out = Ok out'
    \<and> length out' = length out
    \<and> (\<forall>idx. in_dims (cnt slab) idx \<longrightarrow> elem es out' (flat (cnt slab) idx) =
        (if holds chunk_shape r (map2 (+) (start slab) idx)
         then elem es decoded (chunk_position chunk_shape r (map2 (+) (start slab) idx))
         else elem es out (flat (cnt slab) idx)))"
proof -
  let ?lo = "lows r slab" and ?hi = "highs r chunk_shape slab"
  have l: "length (start slab) = length shape" "length (cnt slab) = length shape" "length chunk_shape = length shape"
    "length ?lo = length shape" "length ?hi = length shape" "0 < length shape"
    using ok r by (auto simp: shapes_ok_def slab_ok_def lows_def highs_def)
  have x: "length (map2 (+) (start slab) idx) = length shape" if "in_dims (cnt slab) idx" for idx
    using in_dims_length [OF that] l by simp
  show ?thesis
  proof (cases "list_ex (\<lambda>(l, h). h \<le> l) (zip ?lo ?hi)")
    case True
    then obtain a where a: "a < length shape" "?hi ! a \<le> ?lo ! a" using l by (auto simp: list_ex_iff set_zip)
    have "\<not> holds chunk_shape r (map2 (+) (start slab) idx)" if "in_dims (cnt slab) idx" for idx
      using in_window [OF ok r that] a l by (metis leD le_less_trans)
    then show ?thesis using True by (auto simp: copy_chunk_def Let_def)
  next
    case False
    have lt: "?lo ! a < ?hi ! a" if "a < length shape" for a
      using False that l by (fastforce simp: list_ex_iff set_zip)
    have hi: "?hi ! a \<le> chunk_offset r ! a + chunk_shape ! a" "?hi ! a \<le> start slab ! a + cnt slab ! a" "?hi ! a \<le> u64_max"
      "chunk_offset r ! a \<le> ?lo ! a" "start slab ! a \<le> ?lo ! a" if "a < length shape" for a
      using that l r by (auto simp: highs_def lows_def saturating_add_def)
    have loc: "chunk_meets chunk_shape (chunk_offset r) (start slab) (cnt slab) ?lo ?hi"
      by (rule chunk_meets.intro) (use l r lt hi in auto)
    let ?ext = "map2 (-) ?hi ?lo" and ?inner = "length chunk_shape - 1"
    let ?outer = "prod_list (take ?inner ?ext)"
    have small: "prod_list chunk_shape \<le> u64_max" "prod_list (cnt slab) \<le> u64_max" "prod_list (cnt slab) * es \<le> isize_max"
      using ok by (auto simp: shapes_ok_def)
    obtain out' where o: "copy_rows ?outer ?lo ?ext (chunk_offset r) (start slab) (stride_list chunk_shape)
        (stride_list (cnt slab)) (?ext ! ?inner) es decoded (replicate ?inner 0) out = Ok out'" "length out' = length out"
      "\<And>idx. in_dims (cnt slab) idx \<Longrightarrow> elem es out' (flat (cnt slab) idx) =
          (if chunk_meets.covered chunk_shape ?lo ?hi 0 ?outer (map2 (+) (start slab) idx)
           then elem es decoded (flat chunk_shape (map2 (-) (map2 (+) (start slab) idx) (chunk_offset r)))
           else elem es out (flat (cnt slab) idx))"
      using chunk_meets.copy_rows_from [OF loc small(1,2) _ dec small(3), of 0 ?outer out]
        chunk_meets.index_of_0 [OF loc] hi(3) l(3) out by auto
    have pos: "0 < ?outer" 
      by (intro prod_list_pos ballI) (use chunk_meets.ext_pos [OF loc] in \<open>blast dest: in_set_takeD\<close>)
    have "?hi ! a - ?lo ! a \<le> cnt slab ! a" if "a < length shape" for a
      using hi(2) [OF that] hi(5) [OF that] by linarith
    then have "?outer \<le> prod_list (take ?inner (cnt slab))" by (intro prod_list_le) (use l in auto)
    also have "\<dots> \<le> prod_list (cnt slab)" using ok by (intro prod_list_take_le) (auto simp: shapes_ok_def)
    finally have sat: "saturating_product (take ?inner ?ext) = ?outer"
      using small(2) element_count_eq [of "take ?inner ?ext"] by (simp add: element_count_def)
    have m: "max ?outer (if length chunk_shape = 1 then 1 else 0) = ?outer" using pos by simp
    have s1: "sub64 (length chunk_shape) 1 = Ok ?inner" using l by (cases shape) (simp_all add: sub64_def)
    have run: "copy_chunk r chunk_shape slab es (stride_list chunk_shape) (stride_list (cnt slab)) decoded out = Ok out'"
      unfolding copy_chunk_def Let_def if_not_P [OF False] s1 and_then.simps sat m by (rule o(1))
    have "elem es out' (flat (cnt slab) idx) =
        (if holds chunk_shape r (map2 (+) (start slab) idx)
         then elem es decoded (chunk_position chunk_shape r (map2 (+) (start slab) idx))
         else elem es out (flat (cnt slab) idx))" if idx: "in_dims (cnt slab) idx" for idx
      using o(3) [OF idx] chunk_meets.covered_all [OF loc, of "map2 (+) (start slab) idx"] x [OF idx] l(3) in_window [OF ok r idx]
      by (simp add: chunk_position_def)
    then show ?thesis using run o(2) by blast
  qed
qed

text \<open>
  The setting is met by every selection of a whole dataset that is stored as one chunk.
\<close>

lemma sane_shape_pos: "a < length (sane_shape shape) \<Longrightarrow> 0 < sane_shape shape ! a"
  by (auto simp: sane_shape_def in_set_conv_nth split: if_splits)

lemma sane_shape_nonempty: "sane_shape shape \<noteq> []"
  by (simp add: sane_shape_def)

interpretation one_chunk: chunk_meets "sane_shape shape" "replicate (length (sane_shape shape)) 0"
  "start (hyperslab_all (sane_shape shape))" "cnt (hyperslab_all (sane_shape shape))"
  "replicate (length (sane_shape shape)) 0" "sane_shape shape" for shape
  by unfold_locales (auto simp: hyperslab_all_def sane_shape_pos sane_shape_nonempty)

end
