(* ===== verification/Chunked_Read.thy ===== *)
theory Chunked_Read
  imports Chunk_Copy Filters Messages Datatype_Message
begin

text \<open>
  Reading a selection of a chunked dataset (\<^verbatim>\<open>read.rs\<close>): the coverage test that decides whether the
  fill value is needed, the batched prefetch with its read-ahead, and the loop over the chunks that
  meet the selection.  The decoded-chunk cache is passed along explicitly, with what it keeps after
  each insertion decided by \<open>evict\<close>, the replacement policy of the cache library; an operation
  returns its result and the cache it leaves, errors included.
\<close>

section \<open>Datasets and the chunk cache\<close>

record dataset_index =
  ds_shape :: "nat list"
  ds_datatype :: hdf_type
  ds_layout :: layout
  ds_pipeline :: "chunk_filter list"
  ds_fill_value :: fill_value

record chunk_cache =
  entries :: "nat \<rightharpoonup> bytes"
  readahead :: nat

type_synonym eviction = "(nat \<rightharpoonup> bytes) \<Rightarrow> (nat \<rightharpoonup> bytes)"

definition only_evicts :: "eviction \<Rightarrow> bool" where
  "only_evicts evict \<longleftrightarrow> (\<forall>c. evict c \<subseteq>\<^sub>m c)"

definition then_st :: "'a result \<times> 's \<Rightarrow> ('a \<Rightarrow> 's \<Rightarrow> 'b result \<times> 's) \<Rightarrow> 'b result \<times> 's" where
  "then_st rs f = (case rs of (Inl e, s) \<Rightarrow> (Inl e, s) | (Inr x, s) \<Rightarrow> f x s)"

lemma then_st_simps [simp]: "then_st (Inl e, s) f = (Inl e, s)" "then_st (Inr x, s) f = f x s"
  by (simp_all add: then_st_def)

section \<open>Fetching and decoding\<close>

definition decode_record :: "codecs \<Rightarrow> ctx \<Rightarrow> chunk_filter list \<Rightarrow> nat \<Rightarrow> chunk_record \<Rightarrow> bytes result" where
  "decode_record cs ctx filters decoded_len r =
     and_then (ctx_read ctx (chunk_address r) (chunk_size r)) (\<lambda>raw.
       decode_chunk cs filters (word_of_nat (filter_mask r)) raw decoded_len)"

text \<open>A chunk that fails to decode while it is prefetched is passed over; a panic is not.\<close>

fun store_prefetched ::
  "eviction \<Rightarrow> codecs \<Rightarrow> chunk_filter list \<Rightarrow> nat \<Rightarrow> (chunk_record \<times> bytes) list \<Rightarrow> (nat \<rightharpoonup> bytes) \<Rightarrow>
   unit result \<times> (nat \<rightharpoonup> bytes)" where
  "store_prefetched evict cs filters decoded_len [] es = (Ok (), es)"
| "store_prefetched evict cs filters decoded_len ((r, raw) # rest) es =
     (case decode_chunk cs filters (word_of_nat (filter_mask r)) raw decoded_len of
        Inr decoded \<Rightarrow>
          store_prefetched evict cs filters decoded_len rest (evict (es(chunk_address r \<mapsto> decoded)))
      | Inl Panic \<Rightarrow> (panic, es)
      | Inl _ \<Rightarrow> store_prefetched evict cs filters decoded_len rest es)"

definition wanted_chunks :: "(nat \<rightharpoonup> bytes) \<Rightarrow> chunk_record list \<Rightarrow> nat list \<Rightarrow> chunk_record list" where
  "wanted_chunks es chunks candidates =
     filter (\<lambda>r. \<not> (chunk_size r = 0 \<or> es (chunk_address r) \<noteq> None)) (map ((!) chunks) candidates)"

definition prefetch_chunks ::
  "eviction \<Rightarrow> codecs \<Rightarrow> ctx \<Rightarrow> chunk_filter list \<Rightarrow> chunk_record list \<Rightarrow> nat list \<Rightarrow> nat \<Rightarrow>
   chunk_cache option \<Rightarrow> unit result \<times> chunk_cache option" where
  "prefetch_chunks evict cs ctx filters chunks needed decoded_len cache =
     (case cache of
        None \<Rightarrow> (Ok (), None)
      | Some c \<Rightarrow>
          if needed = [] then (Ok (), cache)
          else then_st (add64 (last needed + 1) (readahead c), cache) (\<lambda>fin cache.
            let candidates = needed @ [last needed + 1..<min fin (length chunks)];
                wanted = wanted_chunks (entries c) chunks candidates
            in if wanted = [] then (Ok (), cache)
               else then_st (ctx_read_ranges ctx (map (\<lambda>r. (chunk_address r, chunk_size r)) wanted), cache)
                 (\<lambda>blobs _.
                    let (r, es) = store_prefetched evict cs filters decoded_len (zip wanted blobs) (entries c)
                    in (r, Some (c\<lparr>entries := es\<rparr>)))))"

definition fetch_decoded ::
  "eviction \<Rightarrow> codecs \<Rightarrow> ctx \<Rightarrow> chunk_filter list \<Rightarrow> nat \<Rightarrow> chunk_record \<Rightarrow> chunk_cache option \<Rightarrow>
   bytes result \<times> chunk_cache option" where
  "fetch_decoded evict cs ctx filters decoded_len r cache =
     (case cache of
        None \<Rightarrow> (decode_record cs ctx filters decoded_len r, None)
      | Some c \<Rightarrow>
          let (d, es) = get_or_decode (entries c) (chunk_address r) (decode_record cs ctx filters decoded_len r)
          in (d, Some (c\<lparr>entries := evict es\<rparr>)))"

section \<open>The loop over chunks\<close>

fun chunk_loop ::
  "eviction \<Rightarrow> codecs \<Rightarrow> ctx \<Rightarrow> chunk_filter list \<Rightarrow> nat list \<Rightarrow> hyperslab \<Rightarrow> nat \<Rightarrow> nat \<Rightarrow> nat list \<Rightarrow> nat list \<Rightarrow>
   chunk_record list \<Rightarrow> bytes \<Rightarrow> chunk_cache option \<Rightarrow> bytes result \<times> chunk_cache option" where
  "chunk_loop evict cs ctx filters chunk_shape slab es decoded_len chunk_strides dst_strides [] out cache = (Ok out, cache)"
| "chunk_loop evict cs ctx filters chunk_shape slab es decoded_len chunk_strides dst_strides (r # rest) out cache =
     (if list_ex (\<lambda>(l, h). h \<le> l) (zip (lows r slab) (highs r chunk_shape slab))
      then chunk_loop evict cs ctx filters chunk_shape slab es decoded_len chunk_strides dst_strides rest out cache
      else then_st (fetch_decoded evict cs ctx filters decoded_len r cache) (\<lambda>decoded cache.
        if length decoded < decoded_len
        then (Error (Malformed ''chunk decoded to too few bytes''), cache)
        else then_st (copy_chunk r chunk_shape slab es chunk_strides dst_strides decoded out, cache) (\<lambda>out cache.
          chunk_loop evict cs ctx filters chunk_shape slab es decoded_len chunk_strides dst_strides rest out cache)))"

definition read_chunked ::
  "eviction \<Rightarrow> codecs \<Rightarrow> ctx \<Rightarrow> 'e dataset_index_scheme \<Rightarrow> chunk_record list \<Rightarrow> nat list \<Rightarrow> bytes \<Rightarrow> hyperslab \<Rightarrow> nat \<Rightarrow>
   chunk_cache option \<Rightarrow> bytes result \<times> chunk_cache option" where
  "read_chunked evict cs ctx ds chunks chunk_dims out slab es cache =
     (let rank = length (ds_shape ds) in
      if length chunk_dims \<noteq> rank
      then (Error (Malformed ''the rank of the chunk shape differs from the rank of the dataset''), cache)
      else then_st (strides (cnt slab), cache) (\<lambda>dst_strides cache.
        then_st (decoded_chunk_len chunk_dims es, cache) (\<lambda>decoded_len cache.
        then_st (strides chunk_dims, cache) (\<lambda>chunk_strides cache.
          if list_ex (\<lambda>r. length (chunk_offset r) \<noteq> rank) chunks
          then (Error (Malformed ''chunk index entry has the wrong rank''), cache)
          else
            let needed = filter (\<lambda>i. intersects (chunks ! i) chunk_dims slab rank) [0..<length chunks] in
            then_st (prefetch_chunks evict cs ctx (ds_pipeline ds) chunks needed decoded_len cache) (\<lambda>_ cache.
              chunk_loop evict cs ctx (ds_pipeline ds) chunk_dims slab es decoded_len chunk_strides dst_strides
                (map ((!) chunks) needed) out cache)))))"

section \<open>Coverage\<close>

text \<open>
  The block of grid cells the selection touches: per axis the first cell and the number of cells,
  with the product of the numbers bounded by the number of chunks.
\<close>

fun cell_block :: "nat \<Rightarrow> (nat \<times> nat \<times> nat) list \<Rightarrow> nat \<Rightarrow> ((nat \<times> nat) list \<times> nat) option" where
  "cell_block n [] cells = Some ([], cells)"
| "cell_block n ((st, ct, width) # axes) cells =
     (if width = 0 then None
      else let lo = st div width; span = (st + ct - 1) div width - lo + 1 in
        case checked_mul cells span of
          Some m \<Rightarrow> if m \<le> n then map_option (\<lambda>(b, k). ((lo, span) # b, k)) (cell_block n axes m) else None
        | None \<Rightarrow> None)"

fun cell_of :: "(nat \<times> nat \<times> nat \<times> nat) list \<Rightarrow> nat \<Rightarrow> nat option" where
  "cell_of [] cell = Some cell"
| "cell_of ((off, width, lo, span) # axes) cell =
     (if off mod width \<noteq> 0 then None
      else let index = off div width in
        if index < lo \<or> lo + span \<le> index then None
        else cell_of axes (cell * span + (index - lo)))"

fun mark_cells ::
  "nat \<Rightarrow> nat list \<Rightarrow> (nat \<times> nat) list \<Rightarrow> chunk_record list \<Rightarrow> bool list \<Rightarrow> nat \<Rightarrow> bool" where
  "mark_cells rank chunk_shape block [] seen missing = False"
| "mark_cells rank chunk_shape block (r # rest) seen missing =
     (if chunk_size r = 0 \<or> length (chunk_offset r) \<noteq> rank then mark_cells rank chunk_shape block rest seen missing
      else case cell_of (zip (chunk_offset r) (zip chunk_shape block)) 0 of
        None \<Rightarrow> mark_cells rank chunk_shape block rest seen missing
      | Some cell \<Rightarrow>
          if seen ! cell then mark_cells rank chunk_shape block rest seen missing
          else if missing - 1 = 0 then True
          else mark_cells rank chunk_shape block rest (seen[cell := True]) (missing - 1))"

definition chunks_cover :: "chunk_record list \<Rightarrow> nat list \<Rightarrow> hyperslab \<Rightarrow> nat \<Rightarrow> bool" where
  "chunks_cover chunks chunk_shape slab rank =
     (if element_count (cnt slab) = 0 then True
      else case cell_block (length chunks) (zip (start slab) (zip (cnt slab) chunk_shape)) 1 of
        None \<Rightarrow> False
      | Some (block, cells) \<Rightarrow> mark_cells rank chunk_shape block chunks (replicate cells False) cells)"

definition selection_is_covered :: "'e dataset_index_scheme \<Rightarrow> chunk_record list option \<Rightarrow> hyperslab \<Rightarrow> bool" where
  "selection_is_covered ds chunks slab =
     (case ds_layout ds of
        Compact _ \<Rightarrow> True
      | Contiguous address _ \<Rightarrow> address \<noteq> None
      | Chunked _ chunk_dims _ _ \<Rightarrow>
          let rank = length (ds_shape ds) in
          if rank = 0 \<or> length chunk_dims \<noteq> rank then False
          else case chunks of None \<Rightarrow> False | Some cs \<Rightarrow> chunks_cover cs chunk_dims slab rank)"


section \<open>The coverage test is sound\<close>

definition axis_cells :: "nat \<times> nat \<times> nat \<Rightarrow> nat \<times> nat" where
  "axis_cells = (\<lambda>(st, ct, width). (st div width, (st + ct - 1) div width - st div width + 1))"

lemma cell_block_eq:
  "cell_block n axes cells = Some (block, k) \<Longrightarrow>
   block = map axis_cells axes \<and> k = cells * prod_list (map (snd \<circ> axis_cells) axes) \<and> (\<forall>(st, ct, width) \<in> set axes. 0 < width)"
proof (induction n axes cells arbitrary: block k rule: cell_block.induct)
  case (2 n st ct width axes cells)
  let ?span = "snd (axis_cells (st, ct, width))"
  have w: "0 < width" using "2.prems" by (auto split: if_splits)
  obtain m where m: "checked_mul cells ?span = Some m" "m \<le> n"
    "map_option (\<lambda>(b, k). (axis_cells (st, ct, width) # b, k)) (cell_block n axes m) = Some (block, k)"
    using "2.prems" w by (auto simp: Let_def axis_cells_def split: option.splits if_splits)
  then obtain b where b: "cell_block n axes m = Some (b, k)" "block = axis_cells (st, ct, width) # b" by auto
  have "m = cells * ?span" using m(1) by (auto simp: checked_mul_def split: if_splits)
  moreover have "b = map axis_cells axes \<and> k = m * prod_list (map (snd \<circ> axis_cells) axes) \<and> (\<forall>(st, ct, width) \<in> set axes. 0 < width)"
    by (rule "2.IH" [OF _ refl refl _ m(2) b(1)]) (use w m(1) in \<open>simp_all add: axis_cells_def\<close>)
  ultimately show ?case using w b(2) by (simp add: comp_def)
qed simp

lemma cell_of_eq:
  "cell_of axes c =
     (if \<forall>(off, width, lo, span) \<in> set axes. off mod width = 0 \<and> lo \<le> off div width \<and> off div width < lo + span
      then Some (c * prod_list (map (\<lambda>(_, _, _, span). span) axes) +
        flat (map (\<lambda>(_, _, _, span). span) axes) (map (\<lambda>(off, width, lo, _). off div width - lo) axes))
      else None)"
proof (induction axes arbitrary: c)
  case (Cons ax axes)
  obtain off width lo span where ax: "ax = (off, width, lo, span)" by (cases ax)
  show ?case
  proof (cases "off mod width = 0 \<and> lo \<le> off div width \<and> off div width < lo + span")
    case True
    then obtain d where d: "off div width = lo + d" using le_Suc_ex by blast
    have 1: "cell_of (ax # axes) c = cell_of axes (c * span + d)" using True by (simp add: ax d Let_def)
    show ?thesis unfolding 1 Cons.IH using True by (simp add: ax d flat_Cons add_mult_distrib mult.assoc)
  qed (auto simp: ax Let_def)
qed simp

definition unseen :: "bool list \<Rightarrow> nat set" where
  "unseen seen = {c. c < length seen \<and> \<not> seen ! c}"

lemma unseen_mark:
  assumes "c \<in> unseen seen"
  shows "unseen (seen[c := True]) = unseen seen - {c} \<and> card (unseen (seen[c := True])) = card (unseen seen) - 1"
proof -
  have "unseen (seen[c := True]) = unseen seen - {c}" using assms by (auto simp: unseen_def nth_list_update split: if_splits)
  then show ?thesis using assms by (simp add: card_Diff_singleton)
qed

definition written_cell :: "nat \<Rightarrow> nat list \<Rightarrow> (nat \<times> nat) list \<Rightarrow> chunk_record \<Rightarrow> nat \<Rightarrow> bool" where
  "written_cell rank chunk_shape block r c \<longleftrightarrow>
     chunk_size r \<noteq> 0 \<and> length (chunk_offset r) = rank \<and> cell_of (zip (chunk_offset r) (zip chunk_shape block)) 0 = Some c"

text \<open>The markers count the cells without a chunk, so no chunk can stand in for two cells.\<close>

lemma mark_cells_complete:
  "mark_cells rank chunk_shape block rs seen missing \<Longrightarrow> missing = card (unseen seen) \<Longrightarrow>
   (\<And>r c. r \<in> set rs \<Longrightarrow> written_cell rank chunk_shape block r c \<Longrightarrow> c < length seen) \<Longrightarrow>
   c \<in> unseen seen \<Longrightarrow> \<exists>r \<in> set rs. written_cell rank chunk_shape block r c"
proof (induction rs arbitrary: seen missing)
  case (Cons r rs)
  have fin: "finite (unseen seen)" by (simp add: unseen_def)
  show ?case
  proof (cases "\<exists>d. written_cell rank chunk_shape block r d \<and> \<not> seen ! d")
    case False
    have "mark_cells rank chunk_shape block rs seen missing"
      using False Cons.prems(1) by (auto simp: written_cell_def split: option.splits if_splits)
    from Cons.IH [OF this Cons.prems(2) _ Cons.prems(4)] Cons.prems(3) show ?thesis by auto
  next
    case True
    then obtain d where d: "written_cell rank chunk_shape block r d" "\<not> seen ! d" by blast
    then have u: "d \<in> unseen seen" using Cons.prems(3) [of r d] by (auto simp: unseen_def)
    show ?thesis
    proof (cases "c = d")
      case False
      then have m: "c \<in> unseen (seen[d := True])" using Cons.prems(4) unseen_mark [OF u] by blast
      have "missing - 1 \<noteq> 0"
        using unseen_mark [OF u] m fin Cons.prems(2) by (metis card_0_eq empty_iff finite_Diff)
      then have "mark_cells rank chunk_shape block rs (seen[d := True]) (missing - 1)"
        using Cons.prems(1) d by (auto simp: written_cell_def)
      moreover have "c < length (seen[d := True])" if "r' \<in> set rs" "written_cell rank chunk_shape block r' c" for r' c
        using Cons.prems(3) [of r' c] that by simp
      ultimately have "\<exists>r \<in> set rs. written_cell rank chunk_shape block r c"
        using Cons.IH [OF _ _ _ m, of "missing - 1"] unseen_mark [OF u, THEN conjunct2] Cons.prems(2) by metis
      then show ?thesis by auto
    qed (use d in auto)
  qed
qed simp

lemma axis_cell_holds:
  fixes x :: nat
  assumes "0 < w" and "off mod w = 0" and "off div w = x div w"
  shows "off \<le> x \<and> x < off + w"
  using assms by (metis add_left_cancel add_strict_left_mono div_mod_decomp group_cancel.rule0 le_add1 mod_less_divisor)

lemma axis_cell_inside:
  fixes s :: nat
  assumes "s \<le> x" and "x < s + c" and "0 < w"
  shows "s div w \<le> x div w \<and> x div w < s div w + ((s + c - 1) div w - s div w + 1)"
proof -
  have "s div w \<le> x div w" "x div w \<le> (s + c - 1) div w" using assms by (auto intro!: div_le_mono)
  then show ?thesis by linarith
qed

lemma chunks_cover_holds:
  assumes cover: "chunks_cover chunks chunk_shape slab rank" and len: "length (start slab) = rank" "length (cnt slab) = rank"
    "length chunk_shape = rank" and idx: "in_dims (cnt slab) idx"
  shows "\<exists>r \<in> set chunks. chunk_size r \<noteq> 0 \<and> length (chunk_offset r) = rank \<and> holds chunk_shape r (map2 (+) (start slab) idx)"
proof -
  let ?x = "map2 (+) (start slab) idx" and ?axes = "zip (start slab) (zip (cnt slab) chunk_shape)"
  have li: "length idx = rank" using in_dims_length [OF idx] len by simp
  have "element_count (cnt slab) \<noteq> 0" using flat_less [OF idx] by (simp add: element_count_eq u64_max_def)
  then obtain block k where b: "cell_block (length chunks) ?axes 1 = Some (block, k)"
    "mark_cells rank chunk_shape block chunks (replicate k False) k"
    using cover by (auto simp: chunks_cover_def split: option.splits)
  from cell_block_eq [OF b(1)] have bk: "block = map axis_cells ?axes" "k = prod_list (map (snd \<circ> axis_cells) ?axes)"
    "\<forall>(st, ct, w) \<in> set ?axes. 0 < w" by auto
  define spans where "spans = map snd block"
  define q where "q = map (\<lambda>a. ?x ! a div chunk_shape ! a - fst (block ! a)) [0..<rank]"
  have lb: "length block = rank" using bk(1) len by simp
  have ba: "block ! a = axis_cells (start slab ! a, cnt slab ! a, chunk_shape ! a)" "0 < chunk_shape ! a" if "a < rank" for a
    using that bk(1) len bspec [OF bk(3) nth_mem, of a] by auto
  have k: "k = prod_list spans" by (simp add: bk spans_def)
  have xa: "?x ! a div chunk_shape ! a < fst (block ! a) + snd (block ! a) \<and> fst (block ! a) \<le> ?x ! a div chunk_shape ! a"
    if "a < rank" for a
  proof -
    have "idx ! a < cnt slab ! a" using idx that len by (simp add: in_dims_nth)
    then show ?thesis
      using axis_cell_inside [of "start slab ! a" "?x ! a" "cnt slab ! a" "chunk_shape ! a"] ba [OF that] that len li
      by (auto simp: axis_cells_def)
  qed
  have q: "in_dims spans q" using xa lb by (auto simp: in_dims_nth spans_def q_def less_diff_conv2 add.commute)
  have cell: "written_cell rank chunk_shape block r c \<longleftrightarrow> chunk_size r \<noteq> 0 \<and> length (chunk_offset r) = rank \<and>
      (\<forall>a < rank. chunk_offset r ! a mod chunk_shape ! a = 0 \<and> fst (block ! a) \<le> chunk_offset r ! a div chunk_shape ! a
        \<and> chunk_offset r ! a div chunk_shape ! a < fst (block ! a) + snd (block ! a))
      \<and> c = flat spans (map (\<lambda>a. chunk_offset r ! a div chunk_shape ! a - fst (block ! a)) [0..<rank])" for r c
  proof -
    let ?z = "zip (chunk_offset r) (zip chunk_shape block)"
    have e: "map (\<lambda>(_, _, _, span). span) ?z = spans"
      "map (\<lambda>(off, width, lo, _). off div width - lo) ?z = map (\<lambda>a. chunk_offset r ! a div chunk_shape ! a - fst (block ! a)) [0..<rank]"
      if "length (chunk_offset r) = rank"
      using that len lb by (auto intro!: nth_equalityI simp: spans_def split: prod.splits)
    show ?thesis
    proof (cases "length (chunk_offset r) = rank")
      case True
      show ?thesis unfolding written_cell_def cell_of_eq e [OF True] using True len lb
        by (auto simp: all_set_conv_all_nth case_prod_unfold)
    qed (simp add: written_cell_def)
  qed
  have "c < length (replicate k False)" if "written_cell rank chunk_shape block r c" for r c
  proof -
    have "in_dims spans (map (\<lambda>a. chunk_offset r ! a div chunk_shape ! a - fst (block ! a)) [0..<rank])"
      using that [unfolded cell] lb by (auto simp: in_dims_nth spans_def less_diff_conv2 add.commute)
    from flat_less [OF this] show ?thesis using that [unfolded cell] by (simp add: k)
  qed
  moreover have "unseen (replicate k False) = {..<k}" by (auto simp: unseen_def)
  ultimately obtain r where r: "r \<in> set chunks" "written_cell rank chunk_shape block r (flat spans q)"
    using mark_cells_complete [OF b(2), of "flat spans q"] flat_less [OF q] by (auto simp: k)
  have "map (\<lambda>a. chunk_offset r ! a div chunk_shape ! a - fst (block ! a)) [0..<rank] = q"
    by (rule flat_inj [of spans _ "flat spans q"])
      (use r(2) [unfolded cell] q lb in \<open>auto simp: in_dims_nth spans_def less_diff_conv2 add.commute\<close>)
  then have "map (\<lambda>a. chunk_offset r ! a div chunk_shape ! a - fst (block ! a)) [0..<rank] ! a = q ! a" for a by simp
  then have "chunk_offset r ! a div chunk_shape ! a = ?x ! a div chunk_shape ! a" if "a < rank" for a
    using r(2) [unfolded cell] xa [OF that] that by (metis (no_types, lifting) eq_diff_iff nth_map_upt q_def add_0 diff_zero)
  then have "chunk_offset r ! a \<le> ?x ! a \<and> ?x ! a < chunk_offset r ! a + chunk_shape ! a" if "a < rank" for a
    using r(2) [unfolded cell] ba(2) [OF that] that by (intro axis_cell_holds) auto
  then have "holds chunk_shape r ?x" using len by (simp add: holds_def)
  then show ?thesis using r [unfolded cell] by blast
qed


section \<open>Reading is exact\<close>

definition cache_valid :: "codecs \<Rightarrow> ctx \<Rightarrow> chunk_filter list \<Rightarrow> nat \<Rightarrow> chunk_record list \<Rightarrow> (nat \<rightharpoonup> bytes) \<Rightarrow> bool" where
  "cache_valid cs ctx filters dl chunks es \<longleftrightarrow>
     (\<forall>r \<in> set chunks. \<forall>b. es (chunk_address r) = Some b \<longrightarrow> decode_record cs ctx filters dl r = Ok b)"

definition cache_state_valid ::
  "codecs \<Rightarrow> ctx \<Rightarrow> chunk_filter list \<Rightarrow> nat \<Rightarrow> chunk_record list \<Rightarrow> chunk_cache option \<Rightarrow> bool" where
  "cache_state_valid cs ctx filters dl chunks cache \<longleftrightarrow>
     (\<forall>c. cache = Some c \<longrightarrow> cache_valid cs ctx filters dl chunks (entries c) \<and> length chunks + readahead c \<le> u64_max)"

text \<open>
  The chunks of an intact file: inside the file, of the dataset's rank, decoded without a panic,
  and decoded alike when two records share an address.
\<close>

definition chunks_stored ::
  "codecs \<Rightarrow> ctx \<Rightarrow> bytes \<Rightarrow> chunk_filter list \<Rightarrow> nat \<Rightarrow> nat \<Rightarrow> chunk_record list \<Rightarrow> bool" where
  "chunks_stored cs ctx contents filters dl rank chunks \<longleftrightarrow>
     (\<forall>r \<in> set chunks. length (chunk_offset r) = rank \<and>
        resolve (ctx_superblock ctx) (chunk_address r) + chunk_size r \<le> length contents \<and>
        decode_record cs ctx filters dl r \<noteq> Inl Panic \<and>
        (\<forall>r' \<in> set chunks. chunk_address r' = chunk_address r \<longrightarrow>
           decode_record cs ctx filters dl r' = decode_record cs ctx filters dl r))"

lemma cache_valid_insert:
  assumes "cache_valid cs ctx filters dl chunks es" and "chunks_stored cs ctx contents filters dl rank chunks"
    and "r \<in> set chunks" and "decode_record cs ctx filters dl r = Ok d" and "only_evicts evict"
  shows "cache_valid cs ctx filters dl chunks (evict (es(chunk_address r \<mapsto> d)))"
proof -
  have "(es(chunk_address r \<mapsto> d)) a = Some b" if "evict (es(chunk_address r \<mapsto> d)) a = Some b" for a b
    using assms(5) that by (metis domI map_le_def only_evicts_def)
  then show ?thesis
    using assms(1-4) unfolding cache_valid_def chunks_stored_def by (metis fun_upd_apply option.inject)
qed

lemma cache_valid_evict:
  "cache_valid cs ctx filters dl chunks es \<Longrightarrow> only_evicts evict \<Longrightarrow> cache_valid cs ctx filters dl chunks (evict es)"
  unfolding cache_valid_def only_evicts_def by (metis domI map_le_def)

lemma store_prefetched_valid:
  assumes "chunks_stored cs ctx contents filters dl rank chunks" and "only_evicts evict"
  shows "cache_valid cs ctx filters dl chunks es \<Longrightarrow> set rs \<subseteq> set chunks \<Longrightarrow>
    (\<And>r. r \<in> set rs \<Longrightarrow> decode_record cs ctx filters dl r =
      decode_chunk cs filters (word_of_nat (filter_mask r)) (blob r) dl) \<Longrightarrow>
    \<exists>es'. store_prefetched evict cs filters dl (zip rs (map blob rs)) es = (Ok (), es') \<and>
      cache_valid cs ctx filters dl chunks es'"
proof (induction rs arbitrary: es)
  case (Cons r rs)
  have d: "decode_record cs ctx filters dl r = decode_chunk cs filters (word_of_nat (filter_mask r)) (blob r) dl"
    using Cons.prems(3) by simp
  have np: "decode_record cs ctx filters dl r \<noteq> Inl Panic" using assms(1) Cons.prems(2) by (auto simp: chunks_stored_def)
  show ?case
  proof (cases "decode_record cs ctx filters dl r")
    case (Inl e)
    then obtain x where "e = Err x" using np by (cases e) auto
    then show ?thesis using Cons.IH [OF Cons.prems(1)] Cons.prems(2,3) Inl d by simp
  next
    case (Inr b)
    then show ?thesis
      using Cons.IH [OF cache_valid_insert [OF Cons.prems(1) assms(1) _ Inr assms(2)]] Cons.prems(2,3) d by simp
  qed
qed simp

lemma read_stored_ranges:
  assumes "reader ctx contents"
    and "\<And>r. r \<in> set w \<Longrightarrow> resolve (ctx_superblock ctx) (chunk_address r) + chunk_size r \<le> length contents"
  shows "ctx_read_ranges ctx (map (\<lambda>r. (chunk_address r, chunk_size r)) w) =
    Ok (map (\<lambda>r. slice (resolve (ctx_superblock ctx) (chunk_address r)) (chunk_size r) contents) w)"
proof -
  obtain ctx' where "ctx_read_ranges_st ctx (map (\<lambda>r. (chunk_address r, chunk_size r)) w) =
      Ok (map (\<lambda>r. slice (resolve (ctx_superblock ctx) (chunk_address r)) (chunk_size r) contents) w, ctx')"
    using reader.ctx_read_ranges_inside [OF assms(1), of "map (\<lambda>r. (chunk_address r, chunk_size r)) w"] assms(2)
    by (auto simp: comp_def)
  then show ?thesis by (simp add: ctx_read_ranges_def)
qed

lemma prefetch_valid:
  assumes rd: "reader ctx contents" and st: "chunks_stored cs ctx contents filters dl rank chunks"
    and ev: "only_evicts evict" and cv: "cache_state_valid cs ctx filters dl chunks cache"
    and ne: "\<forall>i \<in> set needed. i < length chunks"
  shows "\<exists>cache'. prefetch_chunks evict cs ctx filters chunks needed dl cache = (Ok (), cache') \<and>
    cache_state_valid cs ctx filters dl chunks cache'"
proof (cases "cache = None \<or> needed = []")
  case True
  then show ?thesis using cv by (auto simp: prefetch_chunks_def split: option.splits)
next
  case False
  then obtain c where c: "cache = Some c" "needed \<noteq> []" by auto
  have l: "last needed < length chunks" using ne last_in_set [OF c(2)] by blast
  then have a: "add64 (last needed + 1) (readahead c) = Ok (last needed + 1 + readahead c)"
    using cv c by (simp add: add64_def cache_state_valid_def)
  let ?w = "wanted_chunks (entries c) chunks (needed @ [last needed + 1..<min (last needed + 1 + readahead c) (length chunks)])"
  have sub: "set ?w \<subseteq> set chunks" using ne by (auto simp: wanted_chunks_def)
  let ?blob = "\<lambda>r. slice (resolve (ctx_superblock ctx) (chunk_address r)) (chunk_size r) contents"
  have inside: "resolve (ctx_superblock ctx) (chunk_address r) + chunk_size r \<le> length contents" if "r \<in> set ?w" for r
    using st sub that by (auto simp: chunks_stored_def)
  have "ctx_read_ranges ctx (map (\<lambda>r. (chunk_address r, chunk_size r)) ?w) = Ok (map ?blob ?w)"
    by (rule read_stored_ranges [OF rd inside])
  moreover obtain es' where
    "store_prefetched evict cs filters dl (zip ?w (map ?blob ?w)) (entries c) = (Ok (), es')"
    "cache_valid cs ctx filters dl chunks es'"
    using store_prefetched_valid [OF st ev _ sub, of "entries c" ?blob] cv c(1) reader.ctx_read_inside [OF rd inside]
    by (auto simp: decode_record_def cache_state_valid_def)
  ultimately show ?thesis
    using c a cv by (auto simp: prefetch_chunks_def Let_def cache_state_valid_def)
qed

lemma fetch_decoded_valid:
  assumes "chunks_stored cs ctx contents filters dl rank chunks" and "only_evicts evict"
    and "cache_state_valid cs ctx filters dl chunks cache" and "r \<in> set chunks" and "decode_record cs ctx filters dl r = Ok d"
  shows "\<exists>cache'. fetch_decoded evict cs ctx filters dl r cache = (Ok d, cache') \<and> cache_state_valid cs ctx filters dl chunks cache'"
proof (cases cache)
  case (Some c)
  then have v: "cache_valid cs ctx filters dl chunks (entries c)" using assms(3) by (simp add: cache_state_valid_def)
  show ?thesis
  proof (cases "entries c (chunk_address r)")
    case None
    then show ?thesis
      using cache_valid_insert [OF v assms(1,4,5,2)] Some assms(3,5)
      by (auto simp: fetch_decoded_def get_or_decode_def cache_state_valid_def)
  next
    case (Some b)
    then have "b = d" using v assms(4,5) by (auto simp: cache_valid_def)
    then show ?thesis
      using cache_valid_evict [OF v assms(2)] Some \<open>cache = Some c\<close> assms(3,5)
      by (auto simp: fetch_decoded_def get_or_decode_def cache_state_valid_def)
  qed
qed (use assms in \<open>auto simp: fetch_decoded_def cache_state_valid_def\<close>)


definition decodes :: "codecs \<Rightarrow> ctx \<Rightarrow> chunk_filter list \<Rightarrow> nat \<Rightarrow> chunk_record \<Rightarrow> bool" where
  "decodes cs ctx filters dl r \<longleftrightarrow>
     (\<exists>d. decode_record cs ctx filters dl r = Ok d \<and> dl \<le> length d \<and> length d \<le> isize_max)"

text \<open>The element at the coordinate \<open>x\<close> in the last of the chunks \<open>rs\<close> that hold it.\<close>

definition stored_element ::
  "codecs \<Rightarrow> ctx \<Rightarrow> chunk_filter list \<Rightarrow> nat list \<Rightarrow> nat \<Rightarrow> chunk_record list \<Rightarrow> nat list \<Rightarrow> bytes option" where
  "stored_element cs ctx filters chunk_shape es rs x =
     (case find (\<lambda>r. holds chunk_shape r x) (rev rs) of
        None \<Rightarrow> None
      | Some r \<Rightarrow>
          (case decode_record cs ctx filters (prod_list chunk_shape * es) r of
             Inl _ \<Rightarrow> None
           | Inr d \<Rightarrow> Some (elem es d (chunk_position chunk_shape r x))))"

lemma find_append: "find P (xs @ ys) = (case find P xs of None \<Rightarrow> find P ys | Some x \<Rightarrow> Some x)"
  by (induction xs) auto

lemma find_filter_weaker: "(\<And>x. P x \<Longrightarrow> Q x) \<Longrightarrow> find P (filter Q xs) = find P xs"
  by (induction xs) auto

lemma find_in_set: "find P xs = Some x \<Longrightarrow> x \<in> set xs"
  by (auto simp: find_Some_iff)

lemma stored_element_Cons:
  assumes "\<forall>r' \<in> set rs. decodes cs ctx filters (prod_list chunk_shape * es) r'"
    and d: "decode_record cs ctx filters (prod_list chunk_shape * es) r = Ok d"
  shows "stored_element cs ctx filters chunk_shape es (r # rs) x =
    (case stored_element cs ctx filters chunk_shape es rs x of
       Some e \<Rightarrow> Some e
     | None \<Rightarrow> if holds chunk_shape r x then Some (elem es d (chunk_position chunk_shape r x)) else None)"
proof (cases "find (\<lambda>r. holds chunk_shape r x) (rev rs)")
  case None
  then show ?thesis using d by (simp add: stored_element_def find_append)
next
  case (Some r')
  then obtain d' where "decode_record cs ctx filters (prod_list chunk_shape * es) r' = Ok d'"
    using find_in_set [OF Some] assms(1) by (auto simp: decodes_def)
  then show ?thesis using Some by (simp add: stored_element_def find_append)
qed

lemma chunk_loop_exact:
  assumes st: "chunks_stored cs ctx contents filters dl rank chunks" and ev: "only_evicts evict"
    and ok: "shapes_ok shape chunk_shape slab es" and dl: "dl = prod_list chunk_shape * es" and rank: "rank = length shape"
  shows "set rs \<subseteq> set chunks \<Longrightarrow> (\<forall>r \<in> set rs. decodes cs ctx filters dl r) \<Longrightarrow>
    cache_state_valid cs ctx filters dl chunks cache \<Longrightarrow> length out = prod_list (cnt slab) * es \<Longrightarrow>
    \<exists>out' cache'. chunk_loop evict cs ctx filters chunk_shape slab es dl (stride_list chunk_shape) (stride_list (cnt slab))
        rs out cache = (Ok out', cache')
      \<and> cache_state_valid cs ctx filters dl chunks cache' \<and> length out' = length out
      \<and> (\<forall>idx. in_dims (cnt slab) idx \<longrightarrow> elem es out' (flat (cnt slab) idx) =
          (case stored_element cs ctx filters chunk_shape es rs (map2 (+) (start slab) idx) of
             Some e \<Rightarrow> e | None \<Rightarrow> elem es out (flat (cnt slab) idx)))"
proof (induction rs arbitrary: out cache)
  case Nil
  then show ?case by (auto simp: stored_element_def)
next
  case (Cons r rs)
  have r: "r \<in> set chunks" "length (chunk_offset r) = length shape"
    using Cons.prems(1) st rank by (auto simp: chunks_stored_def)
  obtain d where d: "decode_record cs ctx filters dl r = Ok d" "dl \<le> length d" "length d \<le> isize_max"
    using Cons.prems(2) by (auto simp: decodes_def)
  obtain o1 where o1: "copy_chunk r chunk_shape slab es (stride_list chunk_shape) (stride_list (cnt slab)) d out = Ok o1"
    "length o1 = length out"
    "\<And>idx. in_dims (cnt slab) idx \<Longrightarrow> elem es o1 (flat (cnt slab) idx) =
        (if holds chunk_shape r (map2 (+) (start slab) idx)
         then elem es d (chunk_position chunk_shape r (map2 (+) (start slab) idx)) else elem es out (flat (cnt slab) idx))"
    using copy_chunk_correct [OF ok r(2) _ d(3) Cons.prems(4)] d(2) dl by auto
  obtain c1 where c1: "cache_state_valid cs ctx filters dl chunks c1"
    "chunk_loop evict cs ctx filters chunk_shape slab es dl (stride_list chunk_shape) (stride_list (cnt slab)) (r # rs) out cache =
     chunk_loop evict cs ctx filters chunk_shape slab es dl (stride_list chunk_shape) (stride_list (cnt slab)) rs o1 c1"
  proof (cases "list_ex (\<lambda>(l, h). h \<le> l) (zip (lows r slab) (highs r chunk_shape slab))")
    case True
    then have "o1 = out" using o1(1) by (simp add: copy_chunk_def Let_def)
    then show ?thesis using True Cons.prems(3) by (intro that [of cache]) auto
  next
    case False
    obtain c' where "fetch_decoded evict cs ctx filters dl r cache = (Ok d, c')" "cache_state_valid cs ctx filters dl chunks c'"
      using fetch_decoded_valid [OF st ev Cons.prems(3) r(1) d(1)] by blast
    then show ?thesis using False o1(1) d(2) by (intro that [of c']) auto
  qed
  obtain out' cache' where o': "chunk_loop evict cs ctx filters chunk_shape slab es dl (stride_list chunk_shape)
      (stride_list (cnt slab)) rs o1 c1 = (Ok out', cache')" "cache_state_valid cs ctx filters dl chunks cache'"
    "length out' = length o1"
    "\<And>idx. in_dims (cnt slab) idx \<Longrightarrow> elem es out' (flat (cnt slab) idx) =
          (case stored_element cs ctx filters chunk_shape es rs (map2 (+) (start slab) idx) of
             Some e \<Rightarrow> e | None \<Rightarrow> elem es o1 (flat (cnt slab) idx))"
    using Cons.IH [OF _ _ c1(1), of o1] Cons.prems o1(2) by auto
  have "elem es out' (flat (cnt slab) idx) =
      (case stored_element cs ctx filters chunk_shape es (r # rs) (map2 (+) (start slab) idx) of
         Some e \<Rightarrow> e | None \<Rightarrow> elem es out (flat (cnt slab) idx))" if idx: "in_dims (cnt slab) idx" for idx
  proof -
    have "\<forall>r' \<in> set rs. decodes cs ctx filters (prod_list chunk_shape * es) r'" using Cons.prems(2) dl by simp
    from stored_element_Cons [OF this d(1) [unfolded dl]] show ?thesis
      using o'(4) [OF idx] o1(3) [OF idx] by (auto split: option.splits)
  qed
  then show ?case using o' o1(2) c1(2) by auto
qed

lemma holds_intersects:
  assumes "shapes_ok shape chunk_shape slab es" and "length (chunk_offset r) = length shape" and "in_dims (cnt slab) idx"
    and "holds chunk_shape r (map2 (+) (start slab) idx)"
  shows "intersects r chunk_shape slab (length shape)"
proof -
  have l: "length (start slab) = length shape" "length (cnt slab) = length shape" "length chunk_shape = length shape"
    using assms(1) by (auto simp: shapes_ok_def slab_ok_def)
  have "lows r slab ! a < highs r chunk_shape slab ! a" if "a < length shape" for a
    using in_window [OF assms(1-3)] assms(4) that l by (metis le_less_trans)
  then show ?thesis using l assms(2) by (auto simp: intersects_def list_all_iff lows_def highs_def)
qed

lemma read_chunked_exact:
  assumes rd: "reader ctx contents" and ev: "only_evicts evict" and ok: "shapes_ok (ds_shape ds) chunk_dims slab es"
    and fits: "prod_list chunk_dims * es \<le> u64_max"
    and st: "chunks_stored cs ctx contents (ds_pipeline ds) (prod_list chunk_dims * es) (length (ds_shape ds)) chunks"
    and dec: "\<forall>r \<in> set chunks. intersects r chunk_dims slab (length (ds_shape ds)) \<longrightarrow>
        decodes cs ctx (ds_pipeline ds) (prod_list chunk_dims * es) r"
    and cv: "cache_state_valid cs ctx (ds_pipeline ds) (prod_list chunk_dims * es) chunks cache"
    and out: "length out = prod_list (cnt slab) * es"
  shows "\<exists>out' cache'. read_chunked evict cs ctx ds chunks chunk_dims out slab es cache = (Ok out', cache')
    \<and> cache_state_valid cs ctx (ds_pipeline ds) (prod_list chunk_dims * es) chunks cache' \<and> length out' = length out
    \<and> (\<forall>idx. in_dims (cnt slab) idx \<longrightarrow> elem es out' (flat (cnt slab) idx) =
        (case stored_element cs ctx (ds_pipeline ds) chunk_dims es chunks (map2 (+) (start slab) idx) of
           Some e \<Rightarrow> e | None \<Rightarrow> elem es out (flat (cnt slab) idx)))"
proof -
  let ?rank = "length (ds_shape ds)" and ?dl = "prod_list chunk_dims * es"
  let ?needed = "filter (\<lambda>i. intersects (chunks ! i) chunk_dims slab ?rank) [0..<length chunks]"
  let ?rs = "filter (\<lambda>r. intersects r chunk_dims slab ?rank) chunks"
  have rs: "map ((!) chunks) ?needed = ?rs"
    by (metis (no_types, lifting) filter_map map_nth comp_def filter_cong)
  have rank: "length chunk_dims = ?rank" "\<forall>r \<in> set chunks. length (chunk_offset r) = ?rank"
    using ok st by (auto simp: shapes_ok_def chunks_stored_def)
  have pos: "\<forall>c \<in> set chunk_dims. 0 < c" "\<forall>c \<in> set (cnt slab). 0 < c" "prod_list chunk_dims \<le> u64_max" "prod_list (cnt slab) \<le> u64_max"
    using ok by (auto simp: shapes_ok_def)
  have s: "strides (cnt slab) = Ok (stride_list (cnt slab))" "strides chunk_dims = Ok (stride_list chunk_dims)"
    using strides_eq [OF pos(2)] strides_eq [OF pos(1)] prod_list_drop_le [OF pos(2), of 1] prod_list_drop_le [OF pos(1), of 1] pos(3,4)
    by (simp_all add: drop_Suc)
  have l: "decoded_chunk_len chunk_dims es = Ok ?dl"
    using fits pos(3) by (simp add: decoded_chunk_len_def element_count_eq checked_mul_def)
  obtain c1 where c1: "prefetch_chunks evict cs ctx (ds_pipeline ds) chunks ?needed ?dl cache = (Ok (), c1)"
    "cache_state_valid cs ctx (ds_pipeline ds) ?dl chunks c1"
    using prefetch_valid [OF rd st ev cv, of ?needed] by auto
  obtain out' c2 where o': "chunk_loop evict cs ctx (ds_pipeline ds) chunk_dims slab es ?dl (stride_list chunk_dims)
      (stride_list (cnt slab)) ?rs out c1 = (Ok out', c2)" "cache_state_valid cs ctx (ds_pipeline ds) ?dl chunks c2"
    "length out' = length out"
    "\<And>idx. in_dims (cnt slab) idx \<Longrightarrow> elem es out' (flat (cnt slab) idx) =
          (case stored_element cs ctx (ds_pipeline ds) chunk_dims es ?rs (map2 (+) (start slab) idx) of
             Some e \<Rightarrow> e | None \<Rightarrow> elem es out (flat (cnt slab) idx))"
    using chunk_loop_exact [OF st ev ok refl refl _ _ c1(2) out, of ?rs] dec by auto
  have "stored_element cs ctx (ds_pipeline ds) chunk_dims es ?rs (map2 (+) (start slab) idx) =
      stored_element cs ctx (ds_pipeline ds) chunk_dims es chunks (map2 (+) (start slab) idx)" if idx: "in_dims (cnt slab) idx" for idx
  proof -
    have "find (\<lambda>r. holds chunk_dims r (map2 (+) (start slab) idx)) (rev ?rs) =
        find (\<lambda>r. holds chunk_dims r (map2 (+) (start slab) idx)) (rev chunks)"
      unfolding rev_filter using rank(2) holds_intersects [OF ok _ idx]
      by (induction chunks rule: rev_induct) auto
    then show ?thesis by (simp add: stored_element_def)
  qed
  moreover have "read_chunked evict cs ctx ds chunks chunk_dims out slab es cache = (Ok out', c2)"
    using rank s l c1(1) o'(1) by (simp add: read_chunked_def Let_def list_ex_iff rs)
  ultimately show ?thesis using o'(2-4) by auto
qed


section \<open>Properties\<close>

text \<open>
  A read of a chunked dataset whose chunks lie inside the file succeeds and fills the output,
  element by element in row-major order of the selection, with the element of the last chunk of
  the index that holds its coordinate, decoded; an element no chunk holds keeps the fill value.  It
  does so with or without a chunk cache, whatever valid entries the cache holds, whatever it evicts
  and however far it reads ahead, and leaves a valid cache.
\<close>

theorem chunked_read_exact:
  assumes "reader ctx contents" and "only_evicts evict" and "shapes_ok (ds_shape ds) chunk_dims slab es"
    and "prod_list chunk_dims * es \<le> u64_max"
    and "chunks_stored cs ctx contents (ds_pipeline ds) (prod_list chunk_dims * es) (length (ds_shape ds)) chunks"
    and "\<forall>r \<in> set chunks. intersects r chunk_dims slab (length (ds_shape ds)) \<longrightarrow>
        decodes cs ctx (ds_pipeline ds) (prod_list chunk_dims * es) r"
    and "cache_state_valid cs ctx (ds_pipeline ds) (prod_list chunk_dims * es) chunks cache"
    and "length out = prod_list (cnt slab) * es"
  shows "\<exists>out' cache'. read_chunked evict cs ctx ds chunks chunk_dims out slab es cache = (Ok out', cache')
    \<and> cache_state_valid cs ctx (ds_pipeline ds) (prod_list chunk_dims * es) chunks cache' \<and> length out' = length out
    \<and> (\<forall>idx. in_dims (cnt slab) idx \<longrightarrow> elem es out' (flat (cnt slab) idx) =
        (case stored_element cs ctx (ds_pipeline ds) chunk_dims es chunks (map2 (+) (start slab) idx) of
           Some e \<Rightarrow> e | None \<Rightarrow> elem es out (flat (cnt slab) idx)))"
  using assms by (rule read_chunked_exact)

definition example_chunk :: "nat \<Rightarrow> chunk_record" where
  "example_chunk i = \<lparr>chunk_size = 1, filter_mask = 0, chunk_offset = [i], chunk_address = i\<rparr>"

definition example_dataset :: dataset_index where
  "example_dataset = \<lparr>ds_shape = [2], ds_datatype = Datatype 1 1 (FixedPoint Little False 0 8),
     ds_layout = Chunked (Some 0) [1] 1 BtreeV1, ds_pipeline = [], ds_fill_value = None\<rparr>"

theorem chunked_read_exact_witness:
  "\<exists>out cache. read_chunked id store_codecs (new_ctx (memory_source [10, 20]) example_superblock) example_dataset
     [example_chunk 0, example_chunk 1] [1] [0, 0] (hyperslab_all [2]) 1 (Some \<lparr>entries = Map.empty, readahead = 4\<rparr>) = (Ok out, cache)
     \<and> elem 1 out 1 = [20]"
proof -
  let ?ctx = "new_ctx (memory_source [10, 20]) example_superblock"
  have "byte_source (memory_source [10, 20]) [10, 20]" by (rule byte_source_memory) (simp add: isize_max_def)
  then have rd: "reader ?ctx [10, 20]" by (simp add: reader_def new_ctx_def cache_ok_def)
  have rs: "resolve (ctx_superblock ?ctx) i = i" if "i < 2" for i
    using that by (simp add: new_ctx_def resolve_def wrapping_add_def example_superblock_def)
  have dec: "decode_record store_codecs ?ctx [] 1 (example_chunk i) = Ok (slice i 1 [10, 20])" if "i < 2" for i
    using reader.ctx_read_inside [OF rd, of i 1] that rs [OF that]
    by (simp add: decode_record_def example_chunk_def decode_chunk_def)
  have ok: "shapes_ok (ds_shape example_dataset) [1] (hyperslab_all [2]) 1"
    by (simp add: shapes_ok_def slab_ok_def hyperslab_all_def example_dataset_def u64_max_def isize_max_def)
  have st: "chunks_stored store_codecs ?ctx [10, 20] (ds_pipeline example_dataset) (prod_list [1] * 1) (length (ds_shape example_dataset))
      [example_chunk 0, example_chunk 1]"
    using dec [of 0] dec [of 1] rs by (simp add: chunks_stored_def example_dataset_def) (simp add: example_chunk_def)
  have de: "\<forall>r \<in> set [example_chunk 0, example_chunk 1]. intersects r [1] (hyperslab_all [2]) (length (ds_shape example_dataset)) \<longrightarrow>
      decodes store_codecs ?ctx (ds_pipeline example_dataset) (prod_list [1] * 1) r"
    using dec [of 0] dec [of 1] by (simp add: decodes_def example_dataset_def isize_max_def)
  have cv: "cache_state_valid store_codecs ?ctx (ds_pipeline example_dataset) (prod_list [1] * 1) [example_chunk 0, example_chunk 1]
      (Some \<lparr>entries = Map.empty, readahead = 4\<rparr>)"
    by (simp add: cache_state_valid_def cache_valid_def u64_max_def)
  have "only_evicts id" by (simp add: only_evicts_def)
  moreover have "prod_list [1] * 1 \<le> u64_max" "length [0 :: byte, 0] = prod_list (cnt (hyperslab_all [2])) * 1"
    by (simp_all add: u64_max_def hyperslab_all_def)
  ultimately obtain out cache where o: "read_chunked id store_codecs ?ctx example_dataset [example_chunk 0, example_chunk 1] [1] [0, 0]
      (hyperslab_all [2]) 1 (Some \<lparr>entries = Map.empty, readahead = 4\<rparr>) = (Ok out, cache)"
    "\<forall>idx. in_dims (cnt (hyperslab_all [2])) idx \<longrightarrow> elem 1 out (flat (cnt (hyperslab_all [2])) idx) =
        (case stored_element store_codecs ?ctx (ds_pipeline example_dataset) [1] 1 [example_chunk 0, example_chunk 1]
            (map2 (+) (start (hyperslab_all [2])) idx) of
           Some e \<Rightarrow> e | None \<Rightarrow> elem 1 [0, 0] (flat (cnt (hyperslab_all [2])) idx))"
    using chunked_read_exact [OF rd _ ok _ st de cv] by blast
  have "stored_element store_codecs ?ctx [] [1] 1 [example_chunk 0, example_chunk 1] [1] = Some [20]"
    using dec [of 1] by (simp add: stored_element_def holds_def) (simp add: example_chunk_def chunk_position_def elem_def slice_def flat_def)
  then have "elem 1 out 1 = [20]" using o(2) [rule_format, of "[1]"] by (simp add: flat_def hyperslab_all_def example_dataset_def)
  then show ?thesis using o(1) by blast
qed

text \<open>
  C16.  When the coverage test says that the stored chunks cover a selection, every selected element
  lies in a stored chunk on the grid, so leaving the fill value out is sound: a chunk named twice
  never stands in for a missing one.
\<close>

theorem coverage_test_sound:
  assumes "chunks_cover chunks chunk_shape slab (length chunk_shape)"
    and "length (start slab) = length chunk_shape" and "length (cnt slab) = length chunk_shape" and "in_dims (cnt slab) idx"
  shows "\<exists>r \<in> set chunks. chunk_size r \<noteq> 0 \<and> length (chunk_offset r) = length chunk_shape \<and>
    holds chunk_shape r (map2 (+) (start slab) idx)"
  using chunks_cover_holds [OF assms(1-3) refl assms(4)] .

theorem coverage_test_sound_witness:
  "\<exists>r \<in> set [example_chunk 0, example_chunk 1]. chunk_size r \<noteq> 0 \<and> length (chunk_offset r) = length [1 :: nat] \<and>
     holds [1] r (map2 (+) (start (hyperslab_all [2])) [1])"
  by (rule coverage_test_sound)
    (simp_all add: chunks_cover_def hyperslab_all_def element_count_eq u64_max_def example_chunk_def checked_mul_def Let_def)

end
