(* ===== verification/Btree2.thy ===== *)
theory Btree2
  imports Btree1 Datatype_Message
begin

text \<open>
  Version 2 B-trees (\<^verbatim>\<open>btree2.rs\<close>): the header with its checksum, the field widths derived level by
  level from the leaf upwards, and the in-order walk.  The derivation multiplies record counts that
  grow with the depth, so its overflow checks are kept.  Node lengths are written without them: a
  child's record count is below \<open>2 ^ 32\<close> and a record is below \<open>2 ^ 16\<close> bytes.
\<close>

section \<open>Header and field widths\<close>

record btree_v2 =
  record_type :: nat
  record_size :: nat
  btree_records :: "bytes list"

definition BTHD_SIGNATURE :: bytes where
  "BTHD_SIGNATURE = [0x42, 0x54, 0x48, 0x44]"

definition BTIN_SIGNATURE :: bytes where
  "BTIN_SIGNATURE = [0x42, 0x54, 0x49, 0x4e]"

definition BTLF_SIGNATURE :: bytes where
  "BTLF_SIGNATURE = [0x42, 0x54, 0x4c, 0x46]"

definition NODE_OVERHEAD :: nat where
  "NODE_OVERHEAD = 4 + 1 + 1 + 4"

definition enc_size :: "nat \<Rightarrow> nat" where
  "enc_size v = ((if v = 0 then 0 else floor_log2 v) + 8) div 8"

record node_layout =
  max_nrec_size :: nat
  cum_max_nrec_size :: "nat list"

fun derive_levels :: "nat \<Rightarrow> nat \<Rightarrow> nat \<Rightarrow> nat \<Rightarrow> nat \<Rightarrow> nat \<Rightarrow> nat \<Rightarrow> nat list \<Rightarrow> nat list result" where
  "derive_levels node_sz rec_sz off_sz nrec_sz 0 d cum szs = Ok szs"
| "derive_levels node_sz rec_sz off_sz nrec_sz (Suc n) d cum szs =
     (let pointer_size = off_sz + nrec_sz + (if d > 1 then szs ! (d - 1) else 0);
          denominator = rec_sz + pointer_size;
          numerator = node_sz - (NODE_OVERHEAD + nrec_sz);
          m = (if denominator = 0 then 0 else numerator div denominator)
      in and_then (mul64 (m + 1) cum) (\<lambda>x. and_then (add64 x m) (\<lambda>cum'.
           derive_levels node_sz rec_sz off_sz nrec_sz n (d + 1) cum' (szs @ [enc_size cum']))))"

definition derive :: "nat \<Rightarrow> nat \<Rightarrow> nat \<Rightarrow> nat \<Rightarrow> node_layout result" where
  "derive node_sz rec_sz depth off_sz =
     (let leaf_max = (node_sz - NODE_OVERHEAD) div rec_sz; nrec = enc_size leaf_max
      in and_then (derive_levels node_sz rec_sz off_sz nrec depth 1 leaf_max [0]) (\<lambda>szs.
           Ok \<lparr>max_nrec_size = nrec, cum_max_nrec_size = szs\<rparr>))"

section \<open>Nodes\<close>

definition verify_tail_checksum :: "bytes \<Rightarrow> string \<Rightarrow> unit result" where
  "verify_tail_checksum b what =
     and_then (sub64 (length b) 4) (\<lambda>split.
       let stored = word_of_nat (le_nat (drop split b)); computed = metadata (take split b)
       in if stored \<noteq> computed then Error (ChecksumMismatch what stored computed) else Ok ())"

definition node_prefix :: "bytes \<Rightarrow> string \<Rightarrow> unit parser" where
  "node_prefix signature what =
     bind_p (take_bytes 4) (\<lambda>sig.
       if sig \<noteq> signature then fail_p (Malformed (what @ '' is missing its signature'')) else skip 2)"

definition read_leaf :: "ctx \<Rightarrow> nat \<Rightarrow> nat \<Rightarrow> nat \<Rightarrow> bytes list result" where
  "read_leaf ctx rec_sz address nrecs =
     and_then (ctx_read ctx address (NODE_OVERHEAD + nrecs * rec_sz)) (\<lambda>b.
       run_p (bind_p (node_prefix BTLF_SIGNATURE ''version 2 B-tree leaf'') (\<lambda>_.
         bind_p (lift_p (verify_tail_checksum b ''version 2 B-tree leaf'')) (\<lambda>_.
           repeat_p nrecs (take_bytes rec_sz)))) b)"

definition child_pointer :: "nat \<Rightarrow> nat \<Rightarrow> nat \<Rightarrow> (nat \<times> nat) parser" where
  "child_pointer off_sz nrec_sz total_sz =
     bind_p (read_uint off_sz) (\<lambda>a. bind_p (read_uint nrec_sz) (\<lambda>n.
       bind_p (if 0 < total_sz then skip total_sz else ret_p ()) (\<lambda>_. ret_p (a, n))))"

definition child_total_size :: "node_layout \<Rightarrow> nat \<Rightarrow> nat" where
  "child_total_size lay depth = (if depth > 1 then cum_max_nrec_size lay ! (depth - 1) else 0)"

definition read_internal ::
  "ctx \<Rightarrow> nat \<Rightarrow> node_layout \<Rightarrow> nat \<Rightarrow> nat \<Rightarrow> nat \<Rightarrow> nat \<Rightarrow> (bytes list \<times> (nat \<times> nat) list) result" where
  "read_internal ctx rec_sz lay off_sz depth address nrecs =
     (let nrec = max_nrec_size lay; tot = child_total_size lay depth; pointer_size = off_sz + nrec + tot in
      and_then (ctx_read ctx address (NODE_OVERHEAD + nrecs * rec_sz + (nrecs + 1) * pointer_size)) (\<lambda>b.
        run_p (bind_p (node_prefix BTIN_SIGNATURE ''version 2 B-tree internal node'') (\<lambda>_.
          bind_p (lift_p (verify_tail_checksum b ''version 2 B-tree internal node'')) (\<lambda>_.
          bind_p (repeat_p nrecs (take_bytes rec_sz)) (\<lambda>records.
          bind_p (repeat_p (nrecs + 1) (child_pointer off_sz nrec tot)) (\<lambda>kids. ret_p (records, kids)))))) b))"

fun fold_result :: "('a \<Rightarrow> 's \<Rightarrow> 's result) \<Rightarrow> 'a list \<Rightarrow> 's \<Rightarrow> 's result" where
  "fold_result f [] s = Ok s"
| "fold_result f (x # xs) s = and_then (f x s) (fold_result f xs)"

definition MAX_NODES_V2 :: nat where
  "MAX_NODES_V2 = 2 ^ 20"

fun collect ::
  "ctx \<Rightarrow> nat \<Rightarrow> node_layout \<Rightarrow> nat \<Rightarrow> nat \<Rightarrow> nat \<Rightarrow> nat \<Rightarrow> bytes list \<times> nat \<Rightarrow> (bytes list \<times> nat) result" where
  "collect ctx rec_sz lay off_sz 0 address nrecs (out, visited) =
     (if MAX_NODES_V2 < visited + 1
      then Error (Malformed ''version 2 B-tree has implausibly many nodes; the file may be cyclic'')
      else and_then (read_leaf ctx rec_sz address nrecs) (\<lambda>records. Ok (out @ records, visited + 1)))"
| "collect ctx rec_sz lay off_sz (Suc depth) address nrecs (out, visited) =
     (if MAX_NODES_V2 < visited + 1
      then Error (Malformed ''version 2 B-tree has implausibly many nodes; the file may be cyclic'')
      else and_then (read_internal ctx rec_sz lay off_sz (Suc depth) address nrecs) (\<lambda>(records, kids).
        fold_result (\<lambda>(i, (child_address, child_records)) st.
            and_then (collect ctx rec_sz lay off_sz depth child_address child_records st) (\<lambda>(out, visited).
              Ok (if i < length records then out @ [records ! i] else out, visited)))
          (enumerate 0 kids) (out, visited + 1)))"

section \<open>The whole tree\<close>

definition header_fields :: "sizes \<Rightarrow> (nat \<times> nat \<times> nat \<times> nat \<times> nat option \<times> nat \<times> nat \<times> nat) parser" where
  "header_fields s =
     bind_p (take_bytes 4) (\<lambda>sig.
       if sig \<noteq> BTHD_SIGNATURE then fail_p (Malformed ''version 2 B-tree header is missing its BTHD signature'')
       else bind_p u8 (\<lambda>ver.
         if ver \<noteq> 0 then fail_p (Unsupported ''version 2 B-tree header version'')
         else bind_p u8 (\<lambda>ty. bind_p u32 (\<lambda>node_sz. bind_p u16 (\<lambda>rec_sz. bind_p u16 (\<lambda>depth.
           bind_p (skip 1) (\<lambda>_. bind_p (skip 1) (\<lambda>_.
           bind_p (read_address s) (\<lambda>root_at. bind_p u16 (\<lambda>root_records. bind_p (read_length s) (\<lambda>_.
           bind_p get_pos (\<lambda>checksum_pos. bind_p u32 (\<lambda>stored.
             ret_p (ty, node_sz, rec_sz, depth, root_at, root_records, checksum_pos, stored))))))))))))))"

definition read_btree2 :: "ctx \<Rightarrow> nat \<Rightarrow> btree_v2 result" where
  "read_btree2 ctx address =
     (let s = ctx_sizes ctx; header_len = 4 + 1 + 1 + 4 + 2 + 2 + 1 + 1 + offset_size s + 2 + length_size s + 4 in
      and_then (ctx_read_upto ctx address header_len) (\<lambda>b.
      and_then (run_p (header_fields s) b) (\<lambda>(ty, node_sz, rec_sz, depth, root_at, root_records, checksum_pos, stored).
        let computed = metadata (take checksum_pos b) in
        if word_of_nat stored \<noteq> computed
        then Error (ChecksumMismatch ''version 2 B-tree header'' (word_of_nat stored) computed)
        else if rec_sz = 0 \<or> node_sz \<le> NODE_OVERHEAD
        then Error (Malformed ''version 2 B-tree declares an impossible node or record size'')
        else and_then (derive node_sz rec_sz depth (offset_size s)) (\<lambda>lay.
          and_then (case root_at of
              None \<Rightarrow> Ok []
            | Some a \<Rightarrow> and_then (collect ctx rec_sz lay (offset_size s) depth a root_records ([], 0)) (\<lambda>(out, _). Ok out))
            (\<lambda>records. Ok \<lparr>record_type = ty, record_size = rec_sz, btree_records = records\<rparr>)))))"

section \<open>Trees as the format means them\<close>

datatype tree2 = Leaf2 nat "bytes list" | Node2 nat "bytes list" "tree2 list"

fun address2 :: "tree2 \<Rightarrow> nat" where
  "address2 (Leaf2 a rs) = a"
| "address2 (Node2 a rs ts) = a"

fun count2 :: "tree2 \<Rightarrow> nat" where
  "count2 (Leaf2 a rs) = length rs"
| "count2 (Node2 a rs ts) = length rs"

fun nodes2 :: "tree2 \<Rightarrow> nat" where
  "nodes2 (Leaf2 a rs) = 1"
| "nodes2 (Node2 a rs ts) = Suc (sum_list (map nodes2 ts))"

fun weave :: "'a list list \<Rightarrow> 'a list \<Rightarrow> 'a list" where
  "weave [] rs = []"
| "weave (xs # xss) [] = xs @ weave xss []"
| "weave (xs # xss) (r # rs) = xs @ r # weave xss rs"

fun inorder2 :: "tree2 \<Rightarrow> bytes list" where
  "inorder2 (Leaf2 a rs) = rs"
| "inorder2 (Node2 a rs ts) = weave (map inorder2 ts) rs"

definition encode_leaf2 :: "nat \<Rightarrow> bytes list \<Rightarrow> bytes" where
  "encode_leaf2 ty rs = with_checksum ((BTLF_SIGNATURE @ [0, of_nat ty]) @ concat rs)"

definition encode_pointer2 :: "nat \<Rightarrow> nat \<Rightarrow> nat \<Rightarrow> tree2 \<Rightarrow> bytes" where
  "encode_pointer2 off_sz nrec tot t =
     to_le off_sz (address2 t) @ to_le nrec (count2 t) @ to_le tot (length (inorder2 t))"

definition encode_internal2 :: "nat \<Rightarrow> nat \<Rightarrow> nat \<Rightarrow> nat \<Rightarrow> bytes list \<Rightarrow> tree2 list \<Rightarrow> bytes" where
  "encode_internal2 ty off_sz nrec tot rs ts =
     with_checksum ((BTIN_SIGNATURE @ [0, of_nat ty]) @ concat rs @ concat (map (encode_pointer2 off_sz nrec tot) ts))"

text \<open>The nodes of a tree of the given depth, each stored at its address with the widths of its level.\<close>

fun stored_tree2 :: "ctx \<Rightarrow> bytes \<Rightarrow> nat \<Rightarrow> nat \<Rightarrow> node_layout \<Rightarrow> nat \<Rightarrow> tree2 \<Rightarrow> bool" where
  "stored_tree2 ctx contents ty rec_sz lay depth (Leaf2 a rs) \<longleftrightarrow>
     depth = 0 \<and> (\<forall>r \<in> set rs. length r = rec_sz) \<and> stored_at ctx contents a (encode_leaf2 ty rs)"
| "stored_tree2 ctx contents ty rec_sz lay depth (Node2 a rs ts) \<longleftrightarrow>
     0 < depth \<and> (\<forall>r \<in> set rs. length r = rec_sz) \<and> length ts = length rs + 1 \<and>
     (\<forall>t \<in> set ts. address2 t < 256 ^ offset_size (ctx_sizes ctx) \<and> count2 t < 256 ^ max_nrec_size lay) \<and>
     stored_at ctx contents a
       (encode_internal2 ty (offset_size (ctx_sizes ctx)) (max_nrec_size lay) (child_total_size lay depth) rs ts) \<and>
     (\<forall>t \<in> set ts. stored_tree2 ctx contents ty rec_sz lay (depth - 1) t)"

lemma verify_tail_with_checksum: "verify_tail_checksum (with_checksum b) what = Ok ()"
proof -
  have "unat (metadata b) < 4294967296" using unsigned_less [of "metadata b"] by simp
  then show ?thesis by (simp add: verify_tail_checksum_def with_checksum_def sub64_def Let_def del: to_le.simps)
qed

lemma reads_node_prefix: "length sig = 4 \<Longrightarrow> reads (node_prefix sig what) (sig @ [a, b]) ()"
  unfolding node_prefix_def by (rule reads_bind [OF reads_take]) (auto intro: reads_skip)

lemma reads_records: "\<forall>r \<in> set rs. length r = rec_sz \<Longrightarrow> reads (repeat_p (length rs) (take_bytes rec_sz)) (concat rs) rs"
  using reads_repeat [of rs "take_bytes rec_sz" id] by (auto intro: reads_take)

lemma length_concat_records: "\<forall>r \<in> set rs. length r = n \<Longrightarrow> length (concat rs) = length rs * n"
  by (induction rs) auto

lemma run_node:
  assumes len: "length (with_checksum ((sig @ [a, b]) @ body)) \<le> isize_max" and sig: "length sig = 4"
    and p: "reads p body v"
  shows "run_p (bind_p (node_prefix sig what) (\<lambda>_.
      bind_p (lift_p (verify_tail_checksum (with_checksum ((sig @ [a, b]) @ body)) what)) (\<lambda>_. p)))
    (with_checksum ((sig @ [a, b]) @ body)) = Ok v"
proof -
  let ?b = "with_checksum ((sig @ [a, b]) @ body)" and ?chk = "to_le 4 (unat (metadata ((sig @ [a, b]) @ body)))"
  have "reads_at [] ?chk (bind_p (node_prefix sig what) (\<lambda>_. bind_p (lift_p (verify_tail_checksum ?b what)) (\<lambda>_. p)))
      ((sig @ [a, b]) @ body) v"
    by (rule reads_at_step [OF reads_node_prefix [OF sig]],
        rule reads_at_lift [OF verify_tail_with_checksum], rule reads_at_of_reads [OF p])
  from run_p_reads_at [OF this] show ?thesis using len by (simp add: with_checksum_def)
qed

context reader
begin

lemma read_leaf_stored:
  assumes "stored_at ctx contents a (encode_leaf2 ty rs)" and "\<forall>r \<in> set rs. length r = rec_sz"
  shows "read_leaf ctx rec_sz a (length rs) = Ok rs"
proof -
  have "length (encode_leaf2 ty rs) = NODE_OVERHEAD + length rs * rec_sz"
    using length_concat_records [OF assms(2)]
    by (simp add: encode_leaf2_def with_checksum_def BTLF_SIGNATURE_def NODE_OVERHEAD_def)
  with ctx_read_stored [OF assms(1)] have "ctx_read ctx a (NODE_OVERHEAD + length rs * rec_sz) = Ok (encode_leaf2 ty rs)" by simp
  then show ?thesis
    using run_node [OF stored_small [OF assms(1), unfolded encode_leaf2_def] _ reads_records [OF assms(2)]]
    by (simp add: read_leaf_def encode_leaf2_def BTLF_SIGNATURE_def)
qed

lemma read_internal_stored:
  assumes st: "stored_at ctx contents a (encode_internal2 ty off_sz (max_nrec_size lay) (child_total_size lay depth) rs ts)"
    and rs: "\<forall>r \<in> set rs. length r = rec_sz" and ts: "length ts = length rs + 1"
    and fit: "\<forall>t \<in> set ts. address2 t < 256 ^ off_sz \<and> count2 t < 256 ^ max_nrec_size lay"
    and w: "0 < off_sz" "off_sz \<le> 8" "0 < max_nrec_size lay" "max_nrec_size lay \<le> 8"
  shows "read_internal ctx rec_sz lay off_sz depth a (length rs) = Ok (rs, map (\<lambda>t. (address2 t, count2 t)) ts)"
proof -
  let ?nrec = "max_nrec_size lay" and ?tot = "child_total_size lay depth"
  let ?enc = "encode_pointer2 off_sz ?nrec ?tot"
  have ptr: "reads (child_pointer off_sz ?nrec ?tot) (?enc t) (address2 t, count2 t)" if "t \<in> set ts" for t
  proof -
    have "reads (bind_p (if 0 < ?tot then skip ?tot else ret_p ()) (\<lambda>_. ret_p (address2 t, count2 t)))
        (to_le ?tot (length (inorder2 t))) (address2 t, count2 t)"
      by (cases "0 < ?tot") (auto intro!: reads_bind_last [OF reads_skip] reads_ret simp del: to_le.simps, simp add: reads_ret)
    then show ?thesis
      using fit that unfolding child_pointer_def encode_pointer2_def
      by (intro reads_bind [OF reads_uint [OF w(1,2)]] reads_bind [OF reads_uint [OF w(3,4)]]) auto
  qed
  have kids: "reads (repeat_p (length us) (child_pointer off_sz ?nrec ?tot)) (concat (map ?enc us))
      (map (\<lambda>t. (address2 t, count2 t)) us)" if "set us \<subseteq> set ts" for us
    using that
  proof (induction us)
    case (Cons t us)
    then show ?case by (simp, intro reads_bind [OF ptr] reads_bind_last [OF Cons.IH] reads_ret) auto
  qed (simp add: reads_ret)
  have body: "reads (bind_p (repeat_p (length rs) (take_bytes rec_sz)) (\<lambda>records.
      bind_p (repeat_p (length rs + 1) (child_pointer off_sz ?nrec ?tot)) (\<lambda>kids. ret_p (records, kids))))
      (concat rs @ concat (map ?enc ts)) (rs, map (\<lambda>t. (address2 t, count2 t)) ts)"
    by (rule reads_bind [OF reads_records [OF rs]], rule reads_bind_last [OF kids [of ts, unfolded ts] reads_ret]) simp
  have "length (concat (map ?enc ts)) = length ts * (off_sz + ?nrec + ?tot)"
    by (induction ts) (simp_all add: encode_pointer2_def del: to_le.simps)
  then have "length (encode_internal2 ty off_sz ?nrec ?tot rs ts) =
      NODE_OVERHEAD + length rs * rec_sz + (length rs + 1) * (off_sz + ?nrec + ?tot)"
    using length_concat_records [OF rs] ts
    by (simp add: encode_internal2_def with_checksum_def BTIN_SIGNATURE_def NODE_OVERHEAD_def)
  with ctx_read_stored [OF st] have "ctx_read ctx a (NODE_OVERHEAD + length rs * rec_sz + (length rs + 1) * (off_sz + ?nrec + ?tot)) =
      Ok (encode_internal2 ty off_sz ?nrec ?tot rs ts)" by simp
  then show ?thesis
    using run_node [OF stored_small [OF st, unfolded encode_internal2_def] _ body]
    by (simp add: read_internal_def Let_def encode_internal2_def BTIN_SIGNATURE_def)
qed

end


lemma weave_fold:
  assumes "\<And>t st. t \<in> set ts \<Longrightarrow> snd st + nodes2 t \<le> MAX_NODES_V2 \<Longrightarrow>
      f (address2 t) (count2 t) st = Ok (fst st @ inorder2 t, snd st + nodes2 t)"
  shows "visited + sum_list (map nodes2 ts) \<le> MAX_NODES_V2 \<Longrightarrow> k + length ts = length rs + 1 \<Longrightarrow>
    fold_result (\<lambda>(i, (a, n)) st. and_then (f a n st) (\<lambda>(out, v).
        Ok (if i < length rs then out @ [rs ! i] else out, v)))
      (enumerate k (map (\<lambda>t. (address2 t, count2 t)) ts)) (out, visited) =
    Ok (out @ weave (map inorder2 ts) (drop k rs), visited + sum_list (map nodes2 ts))"
  using assms
proof (induction ts arbitrary: k out visited)
  case (Cons t ts)
  have t: "f (address2 t) (count2 t) (out, visited) = Ok (out @ inorder2 t, visited + nodes2 t)"
    using Cons.prems(1,3) by simp
  have IH: "fold_result (\<lambda>(i, (a, n)) st. and_then (f a n st) (\<lambda>(out, v).
        Ok (if i < length rs then out @ [rs ! i] else out, v)))
      (enumerate (Suc k) (map (\<lambda>t. (address2 t, count2 t)) ts)) (out', visited + nodes2 t) =
    Ok (out' @ weave (map inorder2 ts) (drop (Suc k) rs), visited + nodes2 t + sum_list (map nodes2 ts))"
    if "Suc k + length ts = length rs + 1" for out'
    using Cons.IH [of "visited + nodes2 t" "Suc k" out'] Cons.prems(1,3) that by (simp add: add.assoc)
  show ?case
  proof (cases "k < length rs")
    case True
    then have "drop k rs = rs ! k # drop (Suc k) rs" by (simp add: Cons_nth_drop_Suc)
    then show ?thesis using t IH [of "out @ inorder2 t @ [rs ! k]"] Cons.prems(2) True by (simp add: add.assoc)
  next
    case False
    moreover have "k + length ts = length rs" using Cons.prems(2) by simp
    ultimately have "length ts = 0" by linarith
    then have "ts = []" "drop k rs = []" using False by auto
    then show ?thesis using t False by simp
  qed
qed simp

context reader
begin

lemma collect_stored:
  assumes "sizes_ok (ctx_sizes ctx)" and "0 < max_nrec_size lay" and "max_nrec_size lay \<le> 8"
  shows "stored_tree2 ctx contents ty rec_sz lay depth t \<Longrightarrow> snd st + nodes2 t \<le> MAX_NODES_V2 \<Longrightarrow>
    collect ctx rec_sz lay (offset_size (ctx_sizes ctx)) depth (address2 t) (count2 t) st =
      Ok (fst st @ inorder2 t, snd st + nodes2 t)"
proof (induction t arbitrary: depth st)
  case (Leaf2 a rs)
  then show ?case using read_leaf_stored by (cases st) auto
next
  case (Node2 a rs ts)
  obtain d where d: "depth = Suc d" using Node2.prems(1) by (cases depth) auto
  obtain out visited where st: "st = (out, visited)" by fastforce
  have w: "0 < offset_size (ctx_sizes ctx)" "offset_size (ctx_sizes ctx) \<le> 8" using assms(1) by (auto simp: sizes_ok_def)
  have rd: "read_internal ctx rec_sz lay (offset_size (ctx_sizes ctx)) depth a (length rs) =
      Ok (rs, map (\<lambda>t. (address2 t, count2 t)) ts)"
    using Node2.prems(1) by (intro read_internal_stored [OF _ _ _ _ w assms(2,3)]) auto
  have kids: "collect ctx rec_sz lay (offset_size (ctx_sizes ctx)) d (address2 t) (count2 t) st' =
      Ok (fst st' @ inorder2 t, snd st' + nodes2 t)" if "t \<in> set ts" "snd st' + nodes2 t \<le> MAX_NODES_V2" for t st'
    using Node2.IH [OF that(1), of d] Node2.prems(1) that d by simp
  have "visited + 1 + sum_list (map nodes2 ts) \<le> MAX_NODES_V2" using Node2.prems(2) by (simp add: st)
  from weave_fold [where f = "collect ctx rec_sz lay (offset_size (ctx_sizes ctx)) d" and k = 0 and rs = rs and out = out, OF kids this]
  show ?case using Node2.prems rd d by (simp add: st)
qed

end


section \<open>Widths\<close>

lemma floor_log2_bounds: "0 < n \<Longrightarrow> 2 ^ floor_log2 n \<le> n \<and> n < 2 ^ Suc (floor_log2 n)"
proof (induction n rule: floor_log2.induct)
  case (1 n)
  show ?case
  proof (cases "n \<le> 1")
    case True
    then show ?thesis using 1(2) by (simp add: floor_log2.simps)
  next
    case False
    then have "2 ^ floor_log2 (n div 2) \<le> n div 2" "n div 2 < 2 ^ Suc (floor_log2 (n div 2))" using 1(1) by auto
    then show ?thesis using False by (simp add: floor_log2.simps [of n]) linarith
  qed
qed

text \<open>The width computed for a field holds its value, and every 64-bit value fits eight bytes.\<close>

lemma enc_size_fits: "v < 256 ^ enc_size v"
proof (cases "v = 0")
  case False
  have "Suc (floor_log2 v) \<le> 8 * enc_size v" using False by (simp add: enc_size_def)
  then have "(2 :: nat) ^ Suc (floor_log2 v) \<le> 2 ^ (8 * enc_size v)" by (intro power_increasing) auto
  then show ?thesis using floor_log2_bounds [of v] False by (simp add: power_mult)
qed (simp add: enc_size_def)

lemma enc_size_pos: "0 < enc_size v"
  by (simp add: enc_size_def)

lemma enc_size_le: "v \<le> u64_max \<Longrightarrow> enc_size v \<le> 8"
proof -
  assume "v \<le> u64_max"
  then have "v < 2 ^ 64" by (simp add: u64_max_def)
  then have "floor_log2 v < 64" if "v \<noteq> 0"
    using floor_log2_bounds [of v] that power_less_imp_less_exp [of "2 :: nat" "floor_log2 v" 64] by linarith
  then show ?thesis by (auto simp: enc_size_def)
qed

lemma derive_levels_panic:
  assumes "off_sz \<le> 8" and "nrec \<le> 8" and "rec_sz + 42 \<le> node_sz" and "0 < rec_sz"
  shows "0 < cum \<Longrightarrow> u64_max < 2 ^ n * cum \<Longrightarrow> (\<forall>x \<in> set szs. x \<le> 8) \<Longrightarrow> length szs = d \<Longrightarrow> 0 < d \<Longrightarrow> cum \<le> u64_max \<Longrightarrow>
    derive_levels node_sz rec_sz off_sz nrec n d cum szs = Inl Panic"
proof (induction n arbitrary: d cum szs)
  case (Suc n)
  let ?p = "off_sz + nrec + (if d > 1 then szs ! (d - 1) else 0)"
  define m where "m = (if rec_sz + ?p = 0 then 0 else (node_sz - (NODE_OVERHEAD + nrec)) div (rec_sz + ?p))"
  have "szs ! (d - 1) \<le> 8" using Suc.prems(3-5) by auto
  then have "?p \<le> 24" using assms(1,2) by simp
  moreover have "node_sz - (NODE_OVERHEAD + nrec) \<ge> rec_sz + 24" using assms(2,3) by (simp add: NODE_OVERHEAD_def)
  moreover have "0 < rec_sz + ?p" using assms(4) by simp
  ultimately have m: "1 \<le> m" by (simp add: m_def Suc_le_eq div_greater_zero_iff)
  define cum' where "cum' = (m + 1) * cum + m"
  have step: "derive_levels node_sz rec_sz off_sz nrec (Suc n) d cum szs =
      (if cum' \<le> u64_max then derive_levels node_sz rec_sz off_sz nrec n (d + 1) cum' (szs @ [enc_size cum']) else panic)"
    unfolding derive_levels.simps Let_def m_def [symmetric] cum'_def mul64_def add64_def by auto
  have "cum' = m * cum + cum + m" by (simp add: cum'_def)
  then have "2 * cum \<le> cum'" using mult_le_mono1 [OF m, of cum] by linarith
  then have "2 ^ n * (2 * cum) \<le> 2 ^ n * cum'" by (rule mult_le_mono2)
  moreover have "2 ^ n * (2 * cum) = 2 ^ Suc n * cum" by simp
  ultimately have "u64_max < 2 ^ n * cum'" using Suc.prems(2) by linarith
  then show ?case
    using Suc.IH [of cum' "szs @ [enc_size cum']" "d + 1"] Suc.prems(3,4) enc_size_le [of cum'] \<open>2 * cum \<le> cum'\<close> Suc.prems(1)
    unfolding step by auto
qed simp


lemma derive_panic:
  assumes "off_sz \<le> 8" and "rec_sz + 42 \<le> node_sz" and "0 < rec_sz" and "node_sz < 2 ^ 32" and "64 \<le> depth"
  shows "derive node_sz rec_sz depth off_sz = Inl Panic"
proof -
  let ?leaf = "(node_sz - NODE_OVERHEAD) div rec_sz"
  have "?leaf \<le> node_sz" by (meson diff_le_self div_le_dividend le_trans)
  then have le: "?leaf \<le> u64_max" using assms(4) by (simp add: u64_max_def)
  have pos: "0 < ?leaf" using assms(2,3) by (simp add: div_greater_zero_iff NODE_OVERHEAD_def)
  have "u64_max < 2 ^ 64" by (simp add: u64_max_def)
  also have "\<dots> \<le> 2 ^ depth" using assms(5) by (intro power_increasing) auto
  also have "\<dots> \<le> 2 ^ depth * ?leaf" using pos by simp
  finally have "derive_levels node_sz rec_sz off_sz (enc_size ?leaf) depth 1 ?leaf [0] = Inl Panic"
    using derive_levels_panic [OF assms(1) enc_size_le [OF le] assms(2,3) pos] le by simp
  then show ?thesis by (simp add: derive_def Let_def)
qed

lemma derive_width:
  assumes "derive node_sz rec_sz depth off_sz = Inr lay" and "node_sz < 2 ^ 32"
  shows "0 < max_nrec_size lay \<and> max_nrec_size lay \<le> 8"
proof -
  let ?leaf = "(node_sz - NODE_OVERHEAD) div rec_sz"
  have "?leaf \<le> node_sz" by (meson diff_le_self div_le_dividend le_trans)
  then have "?leaf \<le> u64_max" using assms(2) by (simp add: u64_max_def)
  then show ?thesis using assms(1) enc_size_le enc_size_pos by (auto simp: derive_def Let_def result_simps)
qed

section \<open>The header in the file\<close>

definition header_body2 ::
  "sizes \<Rightarrow> nat \<Rightarrow> nat \<Rightarrow> nat \<Rightarrow> nat \<Rightarrow> nat option \<Rightarrow> nat \<Rightarrow> nat \<Rightarrow> bytes" where
  "header_body2 s ty node_sz rec_sz depth root_at root_records tot =
     BTHD_SIGNATURE @ to_le 1 0 @ to_le 1 ty @ to_le 4 node_sz @ to_le 2 rec_sz @ to_le 2 depth @ [100] @ [40] @
     encode_address s root_at @ to_le 2 root_records @ to_le (length_size s) tot"

definition header_ok2 :: "sizes \<Rightarrow> nat \<Rightarrow> nat \<Rightarrow> nat \<Rightarrow> nat \<Rightarrow> nat option \<Rightarrow> nat \<Rightarrow> nat \<Rightarrow> bool" where
  "header_ok2 s ty node_sz rec_sz depth root_at root_records tot \<longleftrightarrow>
     sizes_ok s \<and> ty < 256 \<and> NODE_OVERHEAD < node_sz \<and> node_sz < 2 ^ 32 \<and> 0 < rec_sz \<and> rec_sz < 65536 \<and> depth < 65536 \<and>
     fits_address s root_at \<and> root_records < 65536 \<and> tot < 256 ^ length_size s"

lemma reads_header_fields:
  assumes ok: "header_ok2 s ty node_sz rec_sz depth root_at root_records tot" and st: "stored < 4294967296"
  defines "body \<equiv> header_body2 s ty node_sz rec_sz depth root_at root_records tot"
  shows "reads_at [] [] (header_fields s) (body @ to_le 4 stored)
    (ty, node_sz, rec_sz, depth, root_at, root_records, length body, stored)"
proof -
  have w: "0 < offset_size s" "offset_size s \<le> 8" "0 < length_size s" "length_size s \<le> 8"
    and o: "ty < 256" "node_sz < 4294967296" "rec_sz < 65536" "depth < 65536" "fits_address s root_at" "root_records < 65536"
      "tot < 256 ^ length_size s"
    using ok by (auto simp: header_ok2_def sizes_ok_def)
  have pos: "reads_at body [] (bind_p get_pos (\<lambda>checksum_pos. bind_p u32 (\<lambda>stored.
      ret_p (ty, node_sz, rec_sz, depth, root_at, root_records, checksum_pos, stored)))) (to_le 4 stored)
      (ty, node_sz, rec_sz, depth, root_at, root_records, length body, stored)"
    by (rule reads_at_pos, rule reads_at_step_last [OF reads_u32 [OF st]], rule reads_at_ret)
  have body: "body = ((((((((((BTHD_SIGNATURE @ to_le 1 0) @ to_le 1 ty) @ to_le 4 node_sz) @ to_le 2 rec_sz) @ to_le 2 depth) @ [100]) @ [40]) @
     encode_address s root_at) @ to_le 2 root_records) @ to_le (length_size s) tot)"
    by (simp add: body_def header_body2_def del: to_le.simps)
  have rest: "reads_at (BTHD_SIGNATURE @ to_le 1 0) []
      (bind_p u8 (\<lambda>ty. bind_p u32 (\<lambda>node_sz. bind_p u16 (\<lambda>rec_sz. bind_p u16 (\<lambda>depth.
           bind_p (skip 1) (\<lambda>_. bind_p (skip 1) (\<lambda>_.
           bind_p (read_address s) (\<lambda>root_at. bind_p u16 (\<lambda>root_records. bind_p (read_length s) (\<lambda>_.
           bind_p get_pos (\<lambda>checksum_pos. bind_p u32 (\<lambda>stored.
             ret_p (ty, node_sz, rec_sz, depth, root_at, root_records, checksum_pos, stored)))))))))))))
      (to_le 1 ty @ to_le 4 node_sz @ to_le 2 rec_sz @ to_le 2 depth @ [100] @ [40] @
        encode_address s root_at @ to_le 2 root_records @ to_le (length_size s) tot @ to_le 4 stored)
      (ty, node_sz, rec_sz, depth, root_at, root_records, length body, stored)"
    unfolding read_length_def
    by (rule reads_at_step [OF reads_u8 [OF o(1)]], rule reads_at_step [OF reads_u32 [OF o(2)]],
        rule reads_at_step [OF reads_u16 [OF o(3)]], rule reads_at_step [OF reads_u16 [OF o(4)]],
        rule reads_at_step [OF reads_skip], simp, rule reads_at_step [OF reads_skip], simp,
        rule reads_at_step [OF reads_address [OF w(1,2) o(5)]], rule reads_at_step [OF reads_u16 [OF o(6)]],
        rule reads_at_step [OF reads_uint [OF w(3,4) o(7)]], fold body, rule pos)
  have ver: "reads_at BTHD_SIGNATURE [] (bind_p u8 (\<lambda>ver.
         if ver \<noteq> 0 then fail_p (Unsupported ''version 2 B-tree header version'')
         else bind_p u8 (\<lambda>ty. bind_p u32 (\<lambda>node_sz. bind_p u16 (\<lambda>rec_sz. bind_p u16 (\<lambda>depth.
           bind_p (skip 1) (\<lambda>_. bind_p (skip 1) (\<lambda>_.
           bind_p (read_address s) (\<lambda>root_at. bind_p u16 (\<lambda>root_records. bind_p (read_length s) (\<lambda>_.
           bind_p get_pos (\<lambda>checksum_pos. bind_p u32 (\<lambda>stored.
             ret_p (ty, node_sz, rec_sz, depth, root_at, root_records, checksum_pos, stored))))))))))))))
      (to_le 1 0 @ to_le 1 ty @ to_le 4 node_sz @ to_le 2 rec_sz @ to_le 2 depth @ [100] @ [40] @
        encode_address s root_at @ to_le 2 root_records @ to_le (length_size s) tot @ to_le 4 stored)
      (ty, node_sz, rec_sz, depth, root_at, root_records, length body, stored)"
    by (rule reads_at_step [OF reads_u8 [of 0]]) (use rest in \<open>simp_all del: to_le.simps\<close>)
  have "reads_at [] [] (header_fields s)
      (BTHD_SIGNATURE @ to_le 1 0 @ to_le 1 ty @ to_le 4 node_sz @ to_le 2 rec_sz @ to_le 2 depth @ [100] @ [40] @
        encode_address s root_at @ to_le 2 root_records @ to_le (length_size s) tot @ to_le 4 stored)
      (ty, node_sz, rec_sz, depth, root_at, root_records, length body, stored)"
    unfolding header_fields_def
    by (rule reads_at_step [OF reads_take [of BTHD_SIGNATURE 4]])
      (use ver in \<open>simp_all add: BTHD_SIGNATURE_def del: to_le.simps\<close>)
  then show ?thesis by (simp add: body_def header_body2_def del: to_le.simps)
qed


definition encode_header2 ::
  "sizes \<Rightarrow> nat \<Rightarrow> nat \<Rightarrow> nat \<Rightarrow> nat \<Rightarrow> nat option \<Rightarrow> nat \<Rightarrow> nat \<Rightarrow> bytes" where
  "encode_header2 s ty node_sz rec_sz depth root_at root_records tot =
     with_checksum (header_body2 s ty node_sz rec_sz depth root_at root_records tot)"

lemma length_header_body2: "length (header_body2 s ty node_sz rec_sz depth root_at root_records tot) =
    18 + offset_size s + length_size s"
  by (simp add: header_body2_def BTHD_SIGNATURE_def encode_address_def)

context reader
begin

lemma read_header_stored:
  assumes ok: "header_ok2 (ctx_sizes ctx) ty node_sz rec_sz depth root_at root_records tot"
    and st: "stored_at ctx contents address (encode_header2 (ctx_sizes ctx) ty node_sz rec_sz depth root_at root_records tot)"
  shows "read_btree2 ctx address =
    and_then (derive node_sz rec_sz depth (offset_size (ctx_sizes ctx))) (\<lambda>lay.
      and_then (case root_at of
          None \<Rightarrow> Ok []
        | Some a \<Rightarrow> and_then (collect ctx rec_sz lay (offset_size (ctx_sizes ctx)) depth a root_records ([], 0)) (\<lambda>(out, _). Ok out))
        (\<lambda>records. Ok \<lparr>record_type = ty, record_size = rec_sz, btree_records = records\<rparr>))"
proof -
  let ?s = "ctx_sizes ctx"
  define body where "body = header_body2 ?s ty node_sz rec_sz depth root_at root_records tot"
  define b where "b = with_checksum body"
  have len: "length b = 4 + 1 + 1 + 4 + 2 + 2 + 1 + 1 + offset_size ?s + 2 + length_size ?s + 4"
    by (simp add: b_def body_def with_checksum_def length_header_body2)
  have st': "stored_at ctx contents address b" using st by (simp add: b_def body_def encode_header2_def)
  have rd: "ctx_read_upto ctx address (length b) = Ok b"
    using ctx_read_upto_inside [of address "length b"] st' by (auto simp: stored_at_def)
  have m: "unat (metadata body) < 4294967296" using unsigned_less [of "metadata body"] by simp
  have "run_p (header_fields ?s) b = Ok (ty, node_sz, rec_sz, depth, root_at, root_records, length body, unat (metadata body))"
    using run_p_reads_at [OF reads_header_fields [OF ok m]] stored_small [OF st']
    by (simp add: b_def body_def with_checksum_def del: to_le.simps)
  moreover have "take (length body) b = body" by (simp add: b_def with_checksum_def)
  moreover have "\<not> (rec_sz = 0 \<or> node_sz \<le> NODE_OVERHEAD)" using ok by (simp add: header_ok2_def)
  ultimately show ?thesis unfolding read_btree2_def Let_def len [symmetric] rd by simp
qed

end

text \<open>Files in memory, as the examples use them.\<close>

lemma memory_reader: "length f \<le> isize_max \<Longrightarrow> reader (new_ctx (memory_source f) example_superblock) f"
  using byte_source_memory [of f] by (simp add: reader_def new_ctx_def cache_ok_def)

lemma memory_stored:
  assumes "f = pre @ b @ post" and "a = length pre" and "length f \<le> isize_max"
  shows "stored_at (new_ctx (memory_source f) example_superblock) f a b"
  using assms by (simp add: stored_at_def new_ctx_def resolve_def wrapping_add_def example_superblock_def isize_max_def slice_def)

lemma memory_sizes [simp]: "ctx_sizes (new_ctx src example_superblock) = EIGHT"
  by (simp add: ctx_sizes_def new_ctx_def example_superblock_def)

lemma sizes_ok_EIGHT [simp]: "sizes_ok EIGHT"
  by (simp add: sizes_ok_def EIGHT_def)

section \<open>Properties\<close>


definition example_file2 :: bytes where
  "example_file2 = encode_header2 EIGHT 8 64 1 1 (Some 61) 1 4 @ encode_leaf2 8 [[1], [2]] @ encode_leaf2 8 [[9]] @
     encode_internal2 8 8 1 0 [[7]] [Leaf2 38 [[1], [2]], Leaf2 50 [[9]]]"


text \<open>
  A header that declares 64 levels or more makes the reader panic, whatever the nodes hold:
  the record count of a subtree at least doubles with each level, and its product is unchecked.
\<close>

theorem deep_btree2_panics:
  assumes "reader ctx contents" and "header_ok2 (ctx_sizes ctx) ty node_sz rec_sz depth root_at root_records tot"
    and "stored_at ctx contents address (encode_header2 (ctx_sizes ctx) ty node_sz rec_sz depth root_at root_records tot)"
    and "64 \<le> depth" and "rec_sz + 42 \<le> node_sz"
  shows "read_btree2 ctx address = Inl Panic"
proof -
  have "derive node_sz rec_sz depth (offset_size (ctx_sizes ctx)) = Inl Panic"
    using assms(2,4,5) by (intro derive_panic) (auto simp: header_ok2_def sizes_ok_def)
  then show ?thesis using reader.read_header_stored [OF assms(1-3)] by simp
qed

theorem deep_btree2_panics_witness:
  "read_btree2 (new_ctx (memory_source (encode_header2 EIGHT 8 512 11 64 None 0 0)) example_superblock) 0 = Inl Panic"
proof -
  let ?f = "encode_header2 EIGHT 8 512 11 64 None 0 0"
  have small: "length ?f \<le> isize_max"
    by (simp add: encode_header2_def with_checksum_def length_header_body2 EIGHT_def isize_max_def)
  show ?thesis
    by (rule deep_btree2_panics [OF memory_reader [OF small], where ty = 8 and node_sz = 512 and rec_sz = 11 and depth = 64
          and root_at = None and root_records = 0 and tot = 0])
      (use memory_stored [of ?f "[]" ?f "[]" 0] small in
        \<open>simp_all add: header_ok2_def NODE_OVERHEAD_def fits_address_def\<close>)
qed

end
