(* ===== verification/Chunk_Index.thy ===== *)
theory Chunk_Index
  imports Btree2 Chunked_Read
begin

text \<open>
  The chunk indexes of layout version 4 (\<^verbatim>\<open>chunk_index.rs\<close>): single chunk, implicit, fixed array,
  extensible array and version 2 B-tree, each resolved to a list of chunk records sorted by
  position.  Lengths computed from fields of the file carry their overflow checks.
\<close>

section \<open>Grid\<close>

definition chunk_grid :: "nat list \<Rightarrow> nat list \<Rightarrow> nat list" where
  "chunk_grid shape chunk_dims = map2 (\<lambda>d c. if c = 0 then 0 else div_ceil d c) shape chunk_dims"

text \<open>The loop runs over the axes from the last to the first, with the rest of the index.\<close>

fun offset_loop :: "nat \<Rightarrow> (nat \<times> nat) list \<Rightarrow> nat list" where
  "offset_loop rest [] = []"
| "offset_loop rest ((g, c) # axes) = (rest mod max g 1) * c # offset_loop (rest div max g 1) axes"

definition chunk_offset_at :: "nat \<Rightarrow> nat list \<Rightarrow> nat list \<Rightarrow> nat list" where
  "chunk_offset_at index grid chunk_dims = rev (offset_loop index (rev (zip grid chunk_dims)))"

definition chunk_count :: "ctx \<Rightarrow> nat \<Rightarrow> nat result" where
  "chunk_count ctx tot =
     (if src_size (ctx_source ctx) < tot then Error (Malformed ''a chunk index claims more chunks than the file holds bytes'')
      else Ok tot)"

section \<open>Elements of array indexes\<close>

record index_element =
  el_address :: "nat option"
  el_size :: nat
  el_mask :: nat

definition element_record :: "nat list \<Rightarrow> nat list \<Rightarrow> nat \<Rightarrow> nat \<Rightarrow> index_element \<Rightarrow> nat \<Rightarrow> chunk_record" where
  "element_record grid chunk_dims unfiltered_size i e a =
     \<lparr>chunk_size = (if el_size e = 0 then unfiltered_size mod 2 ^ 32 else el_size e), filter_mask = el_mask e,
      chunk_offset = chunk_offset_at i grid chunk_dims, chunk_address = a\<rparr>"

definition elements_to_records :: "index_element list \<Rightarrow> nat list \<Rightarrow> nat list \<Rightarrow> nat \<Rightarrow> chunk_record list" where
  "elements_to_records elements grid chunk_dims unfiltered_size =
     List.map_filter (\<lambda>(i, e). map_option (element_record grid chunk_dims unfiltered_size i e) (el_address e))
       (enumerate 0 elements)"

definition CLIENT_FILTERED_CHUNKS :: nat where
  "CLIENT_FILTERED_CHUNKS = 1"

definition read_element :: "nat \<Rightarrow> nat \<Rightarrow> sizes \<Rightarrow> index_element parser" where
  "read_element entry_size client_id s =
     (if client_id = CLIENT_FILTERED_CHUNKS
      then bind_p (read_address s) (\<lambda>a.
        if entry_size < offset_size s + 4 then fail_p (Malformed ''chunk index entry is too small'')
        else bind_p (read_uint ((entry_size - (offset_size s + 4)) mod 256)) (\<lambda>sz. bind_p u32 (\<lambda>fmask.
          ret_p \<lparr>el_address = a, el_size = sz mod 2 ^ 32, el_mask = fmask\<rparr>)))
      else bind_p (read_address s) (\<lambda>a. ret_p \<lparr>el_address = a, el_size = 0, el_mask = 0\<rparr>))"

text \<open>An element takes 24 bytes in memory, which bounds the number that can be reserved.\<close>

definition read_elements :: "nat \<Rightarrow> nat \<Rightarrow> nat \<Rightarrow> sizes \<Rightarrow> index_element list parser" where
  "read_elements n entry_size client_id s =
     bind_p (lift_p (with_capacity (24 * n))) (\<lambda>_. repeat_p n (read_element entry_size client_id s))"

definition expect_signature :: "bytes \<Rightarrow> string \<Rightarrow> unit parser" where
  "expect_signature want what =
     bind_p (take_bytes 4) (\<lambda>sig. if sig \<noteq> want then fail_p (Malformed (what @ '' has the wrong signature'')) else ret_p ())"

definition verify_index_checksum :: "bytes \<Rightarrow> nat \<Rightarrow> string \<Rightarrow> unit result" where
  "verify_index_checksum b len what =
     (if length b < len + 4 then panic
      else let stored = word_of_nat (le_nat (slice len 4 b)); computed = metadata (take len b)
           in if stored \<noteq> computed then Error (ChecksumMismatch what stored computed) else Ok ())"

section \<open>Fixed arrays\<close>

definition FAHD_SIGNATURE :: bytes where
  "FAHD_SIGNATURE = [0x46, 0x41, 0x48, 0x44]"

definition FADB_SIGNATURE :: bytes where
  "FADB_SIGNATURE = [0x46, 0x41, 0x44, 0x42]"

definition fixed_array_header :: "sizes \<Rightarrow> (nat \<times> nat \<times> nat \<times> nat \<times> nat option) parser" where
  "fixed_array_header s =
     bind_p (expect_signature FAHD_SIGNATURE ''fixed array header'') (\<lambda>_.
     bind_p u8 (\<lambda>ver.
       if ver \<noteq> 0 then fail_p (Unsupported ''fixed array header version'')
       else bind_p u8 (\<lambda>client_id. bind_p u8 (\<lambda>entry_size. bind_p u8 (\<lambda>pbits.
         bind_p (read_length s) (\<lambda>max_entries. bind_p (read_address s) (\<lambda>data_block.
           ret_p (client_id, entry_size, pbits, max_entries, data_block))))))))"

definition block_prefix :: "bytes \<Rightarrow> string \<Rightarrow> sizes \<Rightarrow> unit parser" where
  "block_prefix want what s =
     bind_p (expect_signature want what) (\<lambda>_.
     bind_p u8 (\<lambda>ver.
       if ver \<noteq> 0 then fail_p (Unsupported (what @ '' version''))
       else bind_p (skip 1) (\<lambda>_. skip (offset_size s))))"

definition paged :: "nat \<Rightarrow> nat \<Rightarrow> bool result" where
  "paged pbits max_entries =
     (if pbits = 0 then Ok False else if 64 \<le> pbits then panic else Ok (2 ^ pbits < max_entries))"

definition read_fixed_array :: "ctx \<Rightarrow> nat \<Rightarrow> nat \<Rightarrow> index_element list result" where
  "read_fixed_array ctx address expected =
     (let s = ctx_sizes ctx; header_len = 4 + 1 + 1 + 1 + 1 + length_size s + offset_size s + 4 in
      and_then (ctx_read ctx address header_len) (\<lambda>b.
      and_then (run_p (fixed_array_header s) b) (\<lambda>(client_id, entry_size, pbits, max_entries, data_block).
      and_then (verify_index_checksum b (header_len - 4) ''fixed array header'') (\<lambda>_.
      case data_block of
        None \<Rightarrow> Ok []
      | Some block_address \<Rightarrow>
          let n = min max_entries (max expected max_entries) in
          and_then (paged pbits max_entries) (\<lambda>is_paged.
          if is_paged then Error (Unsupported ''paged fixed array data block'')
          else and_then (mul64 n entry_size) (\<lambda>len.
          and_then (add64 (4 + 1 + 1 + offset_size s) len) (\<lambda>len.
          and_then (add64 len 4) (\<lambda>block_len.
          and_then (ctx_read ctx block_address block_len) (\<lambda>block.
            run_p (bind_p (block_prefix FADB_SIGNATURE ''fixed array data block'' s) (\<lambda>_.
              bind_p (lift_p (verify_index_checksum block (block_len - 4) ''fixed array data block'')) (\<lambda>_.
                read_elements n entry_size client_id s))) block))))))))) "

section \<open>Extensible arrays\<close>

definition EAHD_SIGNATURE :: bytes where
  "EAHD_SIGNATURE = [0x45, 0x41, 0x48, 0x44]"

definition EAIB_SIGNATURE :: bytes where
  "EAIB_SIGNATURE = [0x45, 0x41, 0x49, 0x42]"

definition EADB_SIGNATURE :: bytes where
  "EADB_SIGNATURE = [0x45, 0x41, 0x44, 0x42]"

definition SBLK_FIRST_IDX :: nat where
  "SBLK_FIRST_IDX = 2"

record array_header =
  ea_client :: nat
  ea_element_size :: nat
  ea_max_bits :: nat
  ea_index_elements :: nat
  ea_min_elements :: nat
  ea_max_index_set :: nat
  ea_index_block :: "nat option"

definition extensible_array_header :: "sizes \<Rightarrow> array_header parser" where
  "extensible_array_header s =
     bind_p (expect_signature EAHD_SIGNATURE ''extensible array header'') (\<lambda>_.
     bind_p u8 (\<lambda>ver.
       if ver \<noteq> 0 then fail_p (Unsupported ''extensible array header version'')
       else bind_p u8 (\<lambda>client_id. bind_p u8 (\<lambda>element_size. bind_p u8 (\<lambda>max_bits. bind_p u8 (\<lambda>n_index.
         bind_p u8 (\<lambda>n_min. bind_p u8 (\<lambda>_. bind_p u8 (\<lambda>_.
         bind_p (read_length s) (\<lambda>_. bind_p (read_length s) (\<lambda>_. bind_p (read_length s) (\<lambda>_. bind_p (read_length s) (\<lambda>_.
         bind_p (read_length s) (\<lambda>max_index_set. bind_p (read_length s) (\<lambda>_. bind_p (read_address s) (\<lambda>index_block.
           ret_p \<lparr>ea_client = client_id, ea_element_size = element_size, ea_max_bits = max_bits,
             ea_index_elements = n_index, ea_min_elements = n_min,
             ea_max_index_set = max_index_set, ea_index_block = index_block\<rparr>)))))))))))))))) "

definition log2_exact :: "nat \<Rightarrow> nat" where
  "log2_exact v = floor_log2 v"

definition data_block_capacity :: "nat \<Rightarrow> nat \<Rightarrow> nat" where
  "data_block_capacity sblk n_min = n_min * 2 ^ div_ceil sblk 2"

definition read_data_block :: "ctx \<Rightarrow> nat \<Rightarrow> nat \<Rightarrow> nat \<Rightarrow> nat \<Rightarrow> nat \<Rightarrow> nat \<Rightarrow> index_element list result" where
  "read_data_block ctx address wanted capacity element_size client_id block_offset_size =
     (let s = ctx_sizes ctx; len = 4 + 1 + 1 + offset_size s + block_offset_size + capacity * element_size + 4 in
      and_then (ctx_read ctx address len) (\<lambda>block.
        run_p (bind_p (block_prefix EADB_SIGNATURE ''extensible array data block'' s) (\<lambda>_.
          bind_p (skip block_offset_size) (\<lambda>_.
          bind_p (lift_p (verify_index_checksum block (len - 4) ''extensible array data block'')) (\<lambda>_.
            read_elements wanted element_size client_id s)))) block))"

definition unwritten :: index_element where
  "unwritten = \<lparr>el_address = None, el_size = 0, el_mask = 0\<rparr>"

fun data_blocks ::
  "ctx \<Rightarrow> array_header \<Rightarrow> nat \<Rightarrow> (nat \<times> nat option) list \<Rightarrow> index_element list \<Rightarrow> index_element list result" where
  "data_blocks ctx h block_offset_size [] out = Ok out"
| "data_blocks ctx h block_offset_size ((sblk, address) # rest) out =
     (if ea_max_index_set h \<le> length out then Ok out
      else let capacity = data_block_capacity sblk (ea_min_elements h);
               wanted = min capacity (ea_max_index_set h - length out)
           in case address of
                None \<Rightarrow> data_blocks ctx h block_offset_size rest (out @ replicate wanted unwritten)
              | Some a \<Rightarrow>
                  and_then (read_data_block ctx a wanted capacity (ea_element_size h) (ea_client h) block_offset_size)
                    (\<lambda>els. data_blocks ctx h block_offset_size rest (out @ els)))"

text \<open>The elements stored in the index block itself, then the addresses behind them.\<close>

definition index_block_elements :: "array_header \<Rightarrow> nat \<Rightarrow> bytes \<Rightarrow> sizes \<Rightarrow> (index_element list \<times> nat option list) parser" where
  "index_block_elements h index_len block s =
     bind_p (block_prefix EAIB_SIGNATURE ''extensible array index block'' s) (\<lambda>_.
     bind_p (lift_p (verify_index_checksum block (index_len - 4) ''extensible array index block'')) (\<lambda>_.
     let inline = min (ea_index_elements h) (ea_max_index_set h) in
     bind_p (read_elements inline (ea_element_size h) (ea_client h) s) (\<lambda>out.
     bind_p (skip ((ea_index_elements h - inline) * ea_element_size h)) (\<lambda>_.
       if ea_max_index_set h \<le> length out then ret_p (out, [])
       else bind_p (repeat_p SBLK_FIRST_IDX (read_address s)) (\<lambda>addresses. ret_p (out, addresses))))))"

definition read_extensible_array :: "ctx \<Rightarrow> nat \<Rightarrow> index_element list result" where
  "read_extensible_array ctx address =
     (let s = ctx_sizes ctx;
          header_len = 4 + 1 + 1 + 1 + 1 + 1 + 1 + 1 + 1 + length_size s * 6 + offset_size s + 4 in
      and_then (ctx_read ctx address header_len) (\<lambda>b.
      and_then (run_p (extensible_array_header s) b) (\<lambda>h.
      and_then (verify_index_checksum b (header_len - 4) ''extensible array header'') (\<lambda>_.
      case ea_index_block h of
        None \<Rightarrow> Ok []
      | Some index_block_address \<Rightarrow>
          if ea_element_size h = 0 \<or> ea_min_elements h = 0
          then Error (Malformed ''extensible array header declares a zero element or block size'')
          else and_then (sub64 (ea_max_bits h) (log2_exact (ea_min_elements h))) (\<lambda>levels.
            let index_len = 4 + 1 + 1 + offset_size s + ea_index_elements h * ea_element_size h +
                  (SBLK_FIRST_IDX + (1 + levels)) * offset_size s + 4 in
            and_then (ctx_read ctx index_block_address index_len) (\<lambda>block.
            and_then (run_p (index_block_elements h index_len block s) block) (\<lambda>(out, addresses).
            if ea_max_index_set h \<le> length out then Ok out
            else and_then (data_blocks ctx h (div_ceil (ea_max_bits h) 8) (enumerate 0 addresses) out) (\<lambda>out.
              if length out < ea_max_index_set h
              then Error (Unsupported ''extensible array beyond its directly addressed data blocks'')
              else Ok out))))))))"

section \<open>Version 2 B-trees of chunks\<close>

text \<open>The scaled offsets of a record; those past the rank are read and dropped.\<close>

fun scaled_offsets :: "nat \<Rightarrow> nat list \<Rightarrow> nat list parser" where
  "scaled_offsets 0 widths = ret_p []"
| "scaled_offsets (Suc n) widths =
     bind_p u64 (\<lambda>scaled.
       case widths of
         [] \<Rightarrow> scaled_offsets n []
       | c # cs \<Rightarrow> bind_p (lift_p (mul64 scaled c)) (\<lambda>x. bind_p (scaled_offsets n cs) (\<lambda>xs. ret_p (x # xs))))"

definition btree2_chunk :: "sizes \<Rightarrow> bool \<Rightarrow> nat \<Rightarrow> nat \<Rightarrow> nat list \<Rightarrow> chunk_record parser" where
  "btree2_chunk s filtered size_width stored_dims chunk_dims =
     bind_p (address_required s ''chunk B-tree record'') (\<lambda>a.
     bind_p (if filtered
             then bind_p (read_uint (size_width mod 256)) (\<lambda>sz. bind_p u32 (\<lambda>fmask. ret_p (sz mod 2 ^ 32, fmask)))
             else ret_p (0, 0)) (\<lambda>(sz, fmask).
     bind_p (scaled_offsets stored_dims chunk_dims) (\<lambda>off.
       ret_p \<lparr>chunk_size = sz, filter_mask = fmask, chunk_offset = off, chunk_address = a\<rparr>)))"

definition read_btree2_chunks :: "ctx \<Rightarrow> nat \<Rightarrow> nat list \<Rightarrow> bool \<Rightarrow> chunk_record list result" where
  "read_btree2_chunks ctx address chunk_dims filtered =
     (let s = ctx_sizes ctx in
      and_then (read_btree2 ctx address) (\<lambda>btree.
        let fixed = (if filtered then offset_size s + 4 else offset_size s);
            stored_dims = (record_size btree - fixed) div 8
        in if stored_dims < length chunk_dims
           then Error (Malformed ''chunk B-tree record holds too few offsets'')
           else map_result (run_p (btree2_chunk s filtered (record_size btree - (offset_size s + 4 + stored_dims * 8)) stored_dims
               chunk_dims)) (btree_records btree)))"

section \<open>The resolver\<close>

definition stored_chunk_size :: "nat \<Rightarrow> nat" where
  "stored_chunk_size unfiltered = (if unfiltered < 2 ^ 32 then unfiltered else 2 ^ 32 - 1)"

definition implicit_records :: "nat \<Rightarrow> nat list \<Rightarrow> nat list \<Rightarrow> nat \<Rightarrow> nat \<Rightarrow> chunk_record list" where
  "implicit_records n grid chunk_dims unfiltered_size address =
     map (\<lambda>i. \<lparr>chunk_size = stored_chunk_size unfiltered_size, filter_mask = 0,
       chunk_offset = chunk_offset_at i grid chunk_dims,
       chunk_address = saturating_add address (saturating_mul i unfiltered_size)\<rparr>) [0..<n]"

definition read_index_v4 ::
  "ctx \<Rightarrow> chunk_index \<Rightarrow> nat option \<Rightarrow> nat list \<Rightarrow> nat list \<Rightarrow> nat \<Rightarrow> bool \<Rightarrow> chunk_record list result" where
  "read_index_v4 ctx index address shape chunk_dims es filtered =
     (let grid = chunk_grid shape chunk_dims; tot = element_count grid;
          unfiltered_size = saturating_mul (element_count chunk_dims) es;
          stored_size = stored_chunk_size unfiltered_size
      in case address of
           None \<Rightarrow> Ok []
         | Some a \<Rightarrow>
             and_then (case index of
                 SingleChunk filtered_sz fmask \<Rightarrow>
                   Ok [\<lparr>chunk_size = (if filtered then filtered_sz mod 2 ^ 32 else stored_size), filter_mask = fmask,
                        chunk_offset = replicate (length shape) 0, chunk_address = a\<rparr>]
               | Implicit \<Rightarrow>
                   and_then (chunk_count ctx tot) (\<lambda>n. Ok (implicit_records n grid chunk_dims unfiltered_size a))
               | FixedArray _ \<Rightarrow>
                   and_then (chunk_count ctx tot) (\<lambda>n.
                   and_then (read_fixed_array ctx a n) (\<lambda>els.
                     Ok (elements_to_records els grid chunk_dims unfiltered_size)))
               | ExtensibleArray _ _ _ _ _ \<Rightarrow>
                   and_then (read_extensible_array ctx a) (\<lambda>els.
                     Ok (elements_to_records els grid chunk_dims unfiltered_size))
               | BtreeV2 _ _ _ \<Rightarrow>
                   and_then (read_btree2_chunks ctx a chunk_dims filtered) (\<lambda>rs.
                     Ok (map (\<lambda>r. if chunk_size r = 0 then r\<lparr>chunk_size := stored_size\<rparr> else r) rs))
               | BtreeV1 \<Rightarrow> Error (Malformed ''a version 1 B-tree index reached the version 4 resolver''))
             (\<lambda>records. Ok (sort_key chunk_offset records)))"


section \<open>The grid tiles the dataset\<close>

lemma chunk_offset_at_snoc:
  "length grid = length ws \<Longrightarrow> chunk_offset_at i (grid @ [g]) (ws @ [c]) =
     chunk_offset_at (i div max g 1) grid ws @ [(i mod max g 1) * c]"
  by (simp add: chunk_offset_at_def)

text \<open>The chunk with number \<open>i\<close> starts at the grid cell whose row-major position is \<open>i\<close>.\<close>

lemma chunk_offset_at_flat:
  assumes "length grid = length ws"
  shows "in_dims grid q \<Longrightarrow> chunk_offset_at (flat grid q) grid ws = map2 (*) q ws"
  using assms
proof (induction grid ws arbitrary: q rule: rev_induct2)
  case (4 g grid c ws)
  obtain q' i where q: "q = q' @ [i]" using in_dims_length [OF "4.prems"(1)] by (cases q rule: rev_cases) auto
  have l: "length q' = length grid" "length grid = length ws" using in_dims_length [OF "4.prems"(1)] "4.prems"(2) q by auto
  have i: "i < g" "in_dims grid q'" using "4.prems"(1) l(1) unfolding q in_dims_def by (auto simp: list_all2_append)
  then have "max g 1 = g" by simp
  then show ?case
    using "4.IH" [of q'] l i unfolding q by (simp only: chunk_offset_at_snoc flat_snoc) simp
qed (auto simp: chunk_offset_at_def in_dims_def)

lemma unflat_ex:
  assumes "\<forall>g \<in> set grid. 0 < g"
  shows "i < prod_list grid \<Longrightarrow> \<exists>q. in_dims grid q \<and> flat grid q = i"
  using assms
proof (induction grid arbitrary: i)
  case (Cons g grid)
  have p: "0 < prod_list grid" using Cons.prems(2) by (intro prod_list_pos) simp
  then have "i mod prod_list grid < prod_list grid" by simp
  with Cons.IH obtain q where q: "in_dims grid q" "flat grid q = i mod prod_list grid" using Cons.prems(2) by auto
  have "i div prod_list grid < g" using Cons.prems(1) p by (simp add: div_less_iff_less_mult)
  then have "in_dims (g # grid) (i div prod_list grid # q)" "flat (g # grid) (i div prod_list grid # q) = i"
    using q in_dims_length [OF q(1)] by (simp_all add: flat_Cons)
  then show ?case by blast
qed (auto intro: exI [of _ "[]"])

lemma cell_in_grid:
  assumes "length ws = length shape" and "\<forall>c \<in> set ws. 0 < c" and "in_dims shape x"
  shows "in_dims (chunk_grid shape ws) (map2 (div) x ws)"
proof -
  have "x ! a div ws ! a < div_ceil (shape ! a) (ws ! a)" if "a < length shape" for a
  proof -
    have "0 < ws ! a" "x ! a < shape ! a" using assms that by (auto simp: in_dims_nth)
    then show ?thesis
      by (metis div_ceil_mult_ge div_less_iff_less_mult less_le_trans)
  qed
  moreover have "0 < ws ! a" if "a < length shape" for a using assms(1,2) that by (metis nth_mem)
  ultimately have "map2 (div) x ws ! a < chunk_grid shape ws ! a" if "a < length shape" for a
    using that assms(1) in_dims_length [OF assms(3)] by (fastforce simp: chunk_grid_def)
  then show ?thesis using assms(1) in_dims_length [OF assms(3)] by (simp add: in_dims_nth chunk_grid_def)
qed

lemma holds_cell:
  assumes "length ws = length x" and "length q = length x" and "\<forall>c \<in> set ws. 0 < c"
    and "chunk_offset r = map2 (*) q ws"
  shows "holds ws r x \<longleftrightarrow> q = map2 (div) x ws"
proof -
  have "(q ! a * ws ! a \<le> x ! a \<and> x ! a < q ! a * ws ! a + ws ! a) = (q ! a = x ! a div ws ! a)" if "a < length x" for a
  proof -
    have w: "0 < ws ! a" using assms(1,3) that by auto
    have "(q ! a * ws ! a \<le> x ! a) = (q ! a \<le> x ! a div ws ! a)" using w by (simp add: less_eq_div_iff_mult_less_eq)
    moreover have "(x ! a < q ! a * ws ! a + ws ! a) = (x ! a div ws ! a < Suc (q ! a))"
      using w by (simp add: div_less_iff_less_mult add.commute)
    ultimately show ?thesis by linarith
  qed
  then show ?thesis using assms(1,2,4) by (auto simp: holds_def list_eq_iff_nth_eq)
qed


lemma length_chunk_grid: "length ws = length shape \<Longrightarrow> length (chunk_grid shape ws) = length shape"
  by (simp add: chunk_grid_def)

lemma chunk_at_holds:
  assumes len: "length ws = length shape" and pos: "\<forall>c \<in> set ws. 0 < c" and x: "in_dims shape x"
    and i: "i < prod_list (chunk_grid shape ws)" and r: "chunk_offset r = chunk_offset_at i (chunk_grid shape ws) ws"
  shows "holds ws r x \<longleftrightarrow> i = flat (chunk_grid shape ws) (map2 (div) x ws)"
proof -
  let ?g = "chunk_grid shape ws"
  have "\<forall>g \<in> set ?g. 0 < g" using i by (metis gr0I mult_is_0 not_less_zero prod_list_zero)
  with unflat_ex i obtain q where q: "in_dims ?g q" "flat ?g q = i" by blast
  have "chunk_offset r = map2 (*) q ws" using chunk_offset_at_flat [OF _ q(1)] len by (simp add: r q(2) [symmetric] length_chunk_grid)
  then have "holds ws r x \<longleftrightarrow> q = map2 (div) x ws"
    using len in_dims_length [OF x] in_dims_length [OF q(1)] length_chunk_grid [OF len] pos by (intro holds_cell) auto
  also have "\<dots> \<longleftrightarrow> i = flat ?g (map2 (div) x ws)"
    using flat_inj [OF conjI [OF q]] cell_in_grid [OF len pos x] q(2) by auto
  finally show ?thesis .
qed

lemma set_map_filter: "y \<in> set (List.map_filter f xs) \<longleftrightarrow> (\<exists>x \<in> set xs. f x = Some y)"
  by (induction xs) (auto split: option.splits)

lemma elements_to_records_iff:
  "r \<in> set (elements_to_records els grid ws u) \<longleftrightarrow>
   (\<exists>i a. i < length els \<and> el_address (els ! i) = Some a \<and> r = element_record grid ws u i (els ! i) a)"
  by (auto simp: elements_to_records_def set_map_filter Bex_def in_set_enumerate_eq)


lemma element_record_offset [simp]: "chunk_offset (element_record grid ws u i e a) = chunk_offset_at i grid ws"
  by (simp add: element_record_def)

lemma records_holding:
  assumes "length ws = length shape" and "\<forall>c \<in> set ws. 0 < c" and "in_dims shape x"
    and "length els = prod_list (chunk_grid shape ws)"
  defines "i \<equiv> flat (chunk_grid shape ws) (map2 (div) x ws)"
  shows "{r \<in> set (elements_to_records els (chunk_grid shape ws) ws u). holds ws r x} =
    (case el_address (els ! i) of None \<Rightarrow> {} | Some a \<Rightarrow> {element_record (chunk_grid shape ws) ws u i (els ! i) a})"
proof -
  have "i < length els" using flat_less [OF cell_in_grid [OF assms(1-3)]] assms(4) by (simp add: i_def)
  moreover have "holds ws (element_record (chunk_grid shape ws) ws u j e a) x \<longleftrightarrow> j = i" if "j < length els" for j e a
    using chunk_at_holds [OF assms(1-3), of j "element_record (chunk_grid shape ws) ws u j e a"] that assms(4) by (simp add: i_def)
  ultimately show ?thesis by (auto simp: elements_to_records_iff split: option.splits)
qed

section \<open>Fixed arrays in the file\<close>

definition element_ok :: "sizes \<Rightarrow> nat \<Rightarrow> nat \<Rightarrow> index_element \<Rightarrow> bool" where
  "element_ok s entry_size client_id e \<longleftrightarrow> fits_address s (el_address e) \<and>
     (if client_id = CLIENT_FILTERED_CHUNKS
      then offset_size s + 4 < entry_size \<and> entry_size \<le> offset_size s + 12 \<and>
        el_size e < 256 ^ (entry_size - (offset_size s + 4)) \<and> el_size e < 2 ^ 32 \<and> el_mask e < 2 ^ 32
      else entry_size = offset_size s \<and> el_size e = 0 \<and> el_mask e = 0)"

definition encode_element :: "sizes \<Rightarrow> nat \<Rightarrow> nat \<Rightarrow> index_element \<Rightarrow> bytes" where
  "encode_element s entry_size client_id e =
     (if client_id = CLIENT_FILTERED_CHUNKS
      then encode_address s (el_address e) @ to_le (entry_size - (offset_size s + 4)) (el_size e) @ to_le 4 (el_mask e)
      else encode_address s (el_address e))"

definition encode_fixed_header :: "sizes \<Rightarrow> nat \<Rightarrow> nat \<Rightarrow> nat \<Rightarrow> nat \<Rightarrow> nat option \<Rightarrow> bytes" where
  "encode_fixed_header s client_id entry_size pbits n block_at =
     with_checksum (FAHD_SIGNATURE @ to_le 1 0 @ to_le 1 client_id @ to_le 1 entry_size @ to_le 1 pbits @
       to_le (length_size s) n @ encode_address s block_at)"

definition encode_fixed_block :: "sizes \<Rightarrow> nat \<Rightarrow> nat \<Rightarrow> nat \<Rightarrow> index_element list \<Rightarrow> bytes" where
  "encode_fixed_block s client_id entry_size header_at els =
     with_checksum (FADB_SIGNATURE @ to_le 1 0 @ to_le 1 client_id @ encode_address s (Some header_at) @
       concat (map (encode_element s entry_size client_id) els))"

lemma reads_element:
  assumes s: "sizes_ok s" and e: "element_ok s entry_size client_id e"
  shows "reads (read_element entry_size client_id s) (encode_element s entry_size client_id e) e"
proof (cases "client_id = CLIENT_FILTERED_CHUNKS")
  case True
  have w: "0 < offset_size s" "offset_size s \<le> 8" using s by (auto simp: sizes_ok_def)
  let ?w = "entry_size - (offset_size s + 4)"
  have o: "fits_address s (el_address e)" "\<not> entry_size < offset_size s + 4" "0 < ?w" "?w \<le> 8" "el_size e < 256 ^ ?w"
      "el_size e mod 2 ^ 32 = el_size e" "el_mask e < 4294967296"
    using e True by (auto simp: element_ok_def)
  have m: "?w mod 256 = ?w" using o(4) by simp
  have ee: "\<lparr>el_address = el_address e, el_size = el_size e, el_mask = el_mask e\<rparr> = e" by simp
  have "reads (bind_p (read_uint (?w mod 256)) (\<lambda>sz. bind_p u32 (\<lambda>fmask.
      ret_p \<lparr>el_address = el_address e, el_size = sz mod 2 ^ 32, el_mask = fmask\<rparr>))) (to_le ?w (el_size e) @ to_le 4 (el_mask e)) e"
    unfolding m by (rule reads_bind [OF reads_uint [OF o(3,4,5)]], rule reads_bind_last [OF reads_u32 [OF o(7)]])
      (unfold o(6) ee, rule reads_ret)
  then show ?thesis
    unfolding read_element_def encode_element_def if_P [OF True] if_not_P [OF o(2)]
    by (rule reads_bind [OF reads_address [OF w o(1)]])
next
  case False
  have w: "0 < offset_size s" "offset_size s \<le> 8" using s by (auto simp: sizes_ok_def)
  have "e = \<lparr>el_address = el_address e, el_size = 0, el_mask = 0\<rparr>" using e False by (simp add: element_ok_def)
  then show ?thesis
    using e unfolding read_element_def encode_element_def if_not_P [OF False]
    by (intro reads_bind_last [OF reads_address [OF w]]) (auto simp: element_ok_def intro: reads_ret)
qed


lemma reads_expect: "length sig = 4 \<Longrightarrow> reads (expect_signature sig what) sig ()"
  unfolding expect_signature_def by (rule reads_bind_last [OF reads_take]) (auto intro: reads_ret)

lemma reads_block_prefix:
  assumes "length sig = 4" and "length skipped = 1" and "length a = offset_size s"
  shows "reads (block_prefix sig what s) (sig @ to_le 1 0 @ skipped @ a) ()"
proof -
  have "reads (bind_p (skip 1) (\<lambda>_. skip (offset_size s))) (skipped @ a) ()"
    by (rule reads_bind [OF reads_skip reads_skip]) (use assms in auto)
  then show ?thesis
    unfolding block_prefix_def
    by (intro reads_bind [OF reads_expect [OF assms(1)]] reads_bind [OF reads_u8 [of 0]]) simp_all
qed

lemma verify_index_with_checksum: "verify_index_checksum (with_checksum b) (length b) what = Ok ()"
proof -
  have "unat (metadata b) < 4294967296" using unsigned_less [of "metadata b"] by simp
  then show ?thesis
    by (simp add: verify_index_checksum_def with_checksum_def slice_def Let_def del: to_le.simps)
qed

lemma reads_fixed_header:
  assumes "sizes_ok s" and "client_id < 256" and "entry_size < 256" and "pbits < 256" and "n < 256 ^ length_size s"
    and "fits_address s block_at"
  shows "reads (fixed_array_header s) (FAHD_SIGNATURE @ to_le 1 0 @ to_le 1 client_id @ to_le 1 entry_size @ to_le 1 pbits @
       to_le (length_size s) n @ encode_address s block_at) (client_id, entry_size, pbits, n, block_at)"
proof -
  have w: "0 < offset_size s" "offset_size s \<le> 8" "0 < length_size s" "length_size s \<le> 8" using assms(1) by (auto simp: sizes_ok_def)
  have "reads (bind_p u8 (\<lambda>client_id. bind_p u8 (\<lambda>entry_size. bind_p u8 (\<lambda>pbits.
         bind_p (read_length s) (\<lambda>max_entries. bind_p (read_address s) (\<lambda>data_block.
           ret_p (client_id, entry_size, pbits, max_entries, data_block)))))))
      (to_le 1 client_id @ to_le 1 entry_size @ to_le 1 pbits @ to_le (length_size s) n @ encode_address s block_at)
      (client_id, entry_size, pbits, n, block_at)"
    unfolding read_length_def
    by (rule reads_bind [OF reads_u8 [OF assms(2)]], rule reads_bind [OF reads_u8 [OF assms(3)]],
        rule reads_bind [OF reads_u8 [OF assms(4)]], rule reads_bind [OF reads_uint [OF w(3,4) assms(5)]],
        rule reads_bind_last [OF reads_address [OF w(1,2) assms(6)] reads_ret])
  then show ?thesis
    unfolding fixed_array_header_def
    by (intro reads_bind [OF reads_expect] reads_bind [OF reads_u8 [of 0]]) (simp_all add: FAHD_SIGNATURE_def del: to_le.simps)
qed

lemma length_encode_elements:
  assumes "\<forall>e \<in> set els. element_ok s entry_size client_id e"
  shows "length (concat (map (encode_element s entry_size client_id) els)) = length els * entry_size"
  using assms
proof (induction els)
  case (Cons e els)
  have "length (encode_element s entry_size client_id e) = entry_size"
    using Cons.prems by (auto simp: encode_element_def element_ok_def encode_address_def simp del: to_le.simps)
  then show ?case using Cons by simp
qed simp

context reader
begin

lemma fixed_array_stored:
  assumes s: "sizes_ok (ctx_sizes ctx)" and ids: "client_id < 256" "entry_size < 256" "pbits < 64"
    and pg: "pbits = 0 \<or> length els \<le> 2 ^ pbits" and n: "length els < 256 ^ length_size (ctx_sizes ctx)" "24 * length els \<le> isize_max"
    and fa: "fits_address (ctx_sizes ctx) (Some block_at)" and els: "\<forall>e \<in> set els. element_ok (ctx_sizes ctx) entry_size client_id e"
    and hd: "stored_at ctx contents address (encode_fixed_header (ctx_sizes ctx) client_id entry_size pbits (length els) (Some block_at))"
    and bl: "stored_at ctx contents block_at (encode_fixed_block (ctx_sizes ctx) client_id entry_size address els)"
  shows "read_fixed_array ctx address expected = Ok els"
proof -
  let ?s = "ctx_sizes ctx"
  define h where "h = FAHD_SIGNATURE @ to_le 1 0 @ to_le 1 client_id @ to_le 1 entry_size @ to_le 1 pbits @
       to_le (length_size ?s) (length els) @ encode_address ?s (Some block_at)"
  define pre where "pre = FADB_SIGNATURE @ to_le 1 0 @ to_le 1 client_id @ encode_address ?s (Some address)"
  define body where "body = concat (map (encode_element ?s entry_size client_id) els)"
  have hd': "stored_at ctx contents address (with_checksum h)" using hd by (simp add: h_def encode_fixed_header_def)
  have bl': "stored_at ctx contents block_at (with_checksum (pre @ body))"
    using bl by (simp add: pre_def body_def encode_fixed_block_def)
  have lh: "4 + 1 + 1 + 1 + 1 + length_size ?s + offset_size ?s + 4 = length (with_checksum h)"
    and lw: "length (with_checksum b) - 4 = length b" for b
    by (simp_all add: h_def with_checksum_def FAHD_SIGNATURE_def encode_address_def)
  have lp: "4 + 1 + 1 + offset_size ?s = length pre" and lb: "length els * entry_size = length body"
    using length_encode_elements [OF els] by (simp_all add: pre_def body_def FADB_SIGNATURE_def encode_address_def)
  have "run_p (fixed_array_header ?s) (h @ to_le 4 (unat (metadata h))) = Ok (client_id, entry_size, pbits, length els, Some block_at)"
    unfolding h_def
    by (rule run_p_reads [OF reads_fixed_header [OF s ids(1,2) _ n(1) fa]])
      (use ids(3) stored_small [OF hd'] in \<open>simp_all add: h_def with_checksum_def\<close>)
  then have head: "run_p (fixed_array_header ?s) (with_checksum h) = Ok (client_id, entry_size, pbits, length els, Some block_at)"
    by (simp add: with_checksum_def)
  have small: "length pre + length body + 4 \<le> isize_max" and lwb: "length pre + length body + 4 = length (with_checksum (pre @ body))"
    using stored_small [OF bl'] by (simp_all add: with_checksum_def)
  have "reads (repeat_p (length els) (read_element entry_size client_id ?s)) body els"
    unfolding body_def using els by (intro reads_repeat reads_element [OF s]) auto
  then have el: "reads (read_elements (length els) entry_size client_id ?s) body els"
    using n(2) by (simp add: read_elements_def with_capacity_def reads_def bind_p_def lift_p_def)
  have pf: "reads (block_prefix FADB_SIGNATURE what ?s) pre ()" for what
    unfolding pre_def by (rule reads_block_prefix) (simp_all add: FADB_SIGNATURE_def encode_address_def)
  have "reads_at [] (to_le 4 (unat (metadata (pre @ body)))) (bind_p (block_prefix FADB_SIGNATURE ''fixed array data block'' ?s) (\<lambda>_.
      bind_p (lift_p (verify_index_checksum (with_checksum (pre @ body)) (length (pre @ body)) ''fixed array data block'')) (\<lambda>_.
        read_elements (length els) entry_size client_id ?s))) (pre @ body) els"
    by (rule reads_at_step [OF pf], rule reads_at_lift [OF verify_index_with_checksum], rule reads_at_of_reads [OF el])
  from run_p_reads_at [OF this]
  have block: "run_p (bind_p (block_prefix FADB_SIGNATURE ''fixed array data block'' ?s) (\<lambda>_.
      bind_p (lift_p (verify_index_checksum (with_checksum (pre @ body)) (length (pre @ body)) ''fixed array data block'')) (\<lambda>_.
        read_elements (length els) entry_size client_id ?s))) (with_checksum (pre @ body)) = Ok els"
    using small by (simp add: with_checksum_def)
  have pgd: "paged pbits (length els) = Ok False" using pg ids(3) by (auto simp: paged_def)
  have ar: "mul64 (length els) entry_size = Ok (length body)" "add64 (length pre) (length body) = Ok (length pre + length body)"
    "add64 (length pre + length body) 4 = Ok (length (with_checksum (pre @ body)))"
    unfolding lwb [symmetric] using small by (simp_all add: mul64_def add64_def isize_max_def u64_max_def lb)
  have mm: "min (length els) (max expected (length els)) = length els" by simp
  show ?thesis
    unfolding read_fixed_array_def Let_def lh lp ctx_read_stored [OF hd'] and_then.simps head case_prod_conv lw
      verify_index_with_checksum option.case pgd mm ar ctx_read_stored [OF bl'] if_False
    using block unfolding verify_index_with_checksum .
qed

end


section \<open>Properties\<close>


definition example_elements :: "index_element list" where
  "example_elements = [\<lparr>el_address = Some 5, el_size = 0, el_mask = 0\<rparr>, unwritten]"

definition example_array :: bytes where
  "example_array = encode_fixed_header EIGHT 0 8 0 2 (Some 28) @ encode_fixed_block EIGHT 0 8 0 example_elements"


end
