(* ===== verification/Dataset_Read.thy ===== *)
theory Dataset_Read
  imports Chunk_Index
begin

text \<open>
  Reading a hyperslab of a dataset of any layout (\<^verbatim>\<open>read.rs\<close>, \<open>read_hyperslab\<close>), the lazily
  resolved chunk index of a dataset (\<^verbatim>\<open>index.rs\<close>), and what becomes of the raw bytes: fixed-length
  strings, and variable-length strings and sequences followed into the global heap.  The state of a
  read is the dataset's once-written chunk index and the chunk cache of the file.
\<close>

section \<open>The chunk index of a dataset\<close>

definition element_size :: "'e dataset_index_scheme \<Rightarrow> nat" where
  "element_size ds = dt_size (ds_datatype ds)"

definition is_readable :: "'e dataset_index_scheme \<Rightarrow> bool" where
  "is_readable ds \<longleftrightarrow> is_decodable (ds_datatype ds) \<and> pipeline_is_supported (ds_pipeline ds)"

definition resolve_chunks :: "'e dataset_index_scheme \<Rightarrow> ctx \<Rightarrow> chunk_record list option result" where
  "resolve_chunks ds ctx =
     (case ds_layout ds of
        Chunked address chunk_dims width index \<Rightarrow>
          (case index of
             BtreeV1 \<Rightarrow>
               (case address of
                  None \<Rightarrow> Ok (Some [])
                | Some a \<Rightarrow> and_then (read_chunk_btree ctx a (length chunk_dims)) (\<lambda>rs. Ok (Some rs)))
           | _ \<Rightarrow>
               and_then (read_index_v4 ctx index address (ds_shape ds) chunk_dims
                   (if width = 0 then dt_size (ds_datatype ds) else width) (ds_pipeline ds \<noteq> [])) (\<lambda>rs. Ok (Some rs)))
      | _ \<Rightarrow> Ok None)"

type_synonym once_chunks = "chunk_record list option option"

definition dataset_chunks ::
  "'e dataset_index_scheme \<Rightarrow> ctx \<Rightarrow> once_chunks \<Rightarrow> chunk_record list option result \<times> once_chunks" where
  "dataset_chunks ds ctx lock =
     (case lock of
        Some resolved \<Rightarrow> (Ok resolved, lock)
      | None \<Rightarrow> (case resolve_chunks ds ctx of Inl e \<Rightarrow> (Inl e, None) | Inr resolved \<Rightarrow> (Ok resolved, Some resolved)))"

definition resolved_chunks :: "once_chunks \<Rightarrow> chunk_record list option" where
  "resolved_chunks lock = (case lock of None \<Rightarrow> None | Some c \<Rightarrow> c)"

definition prepare :: "'e dataset_index_scheme \<Rightarrow> ctx \<Rightarrow> once_chunks \<Rightarrow> unit result \<times> once_chunks" where
  "prepare ds ctx lock = (case dataset_chunks ds ctx lock of (r, lock') \<Rightarrow> (and_then r (\<lambda>_. Ok ()), lock'))"

definition is_prepared :: "once_chunks \<Rightarrow> bool" where
  "is_prepared lock \<longleftrightarrow> lock \<noteq> None"

section \<open>Raw data\<close>

record raw_data =
  raw_bytes :: bytes
  raw_element_size :: nat
  raw_shape :: "nat list"

definition raw_len :: "raw_data \<Rightarrow> nat" where
  "raw_len raw = (if raw_element_size raw = 0 then 0 else length (raw_bytes raw) div raw_element_size raw)"

definition rposition :: "('a \<Rightarrow> bool) \<Rightarrow> 'a list \<Rightarrow> nat option" where
  "rposition P xs = map_option (\<lambda>k. length xs - 1 - k) (position P (rev xs))"

definition string_end :: "string_padding \<Rightarrow> bytes \<Rightarrow> nat" where
  "string_end pad raw =
     (let fin = position_or (\<lambda>b. b = 0) raw (length raw) in
      case pad of
        NullTerminate \<Rightarrow> fin
      | NullPad \<Rightarrow> fin
      | SpacePad \<Rightarrow> (case rposition (\<lambda>b. b \<noteq> 32) (take fin raw) of None \<Rightarrow> 0 | Some p \<Rightarrow> p + 1))"

definition to_strings_of :: "raw_data \<Rightarrow> hdf_type \<Rightarrow> rstring list result" where
  "to_strings_of raw t =
     (case dt_class t of
        String pad _ \<Rightarrow>
          map_result (\<lambda>i. and_then (slice_range (raw_bytes raw) (i * raw_element_size raw) ((i + 1) * raw_element_size raw)) (\<lambda>b.
              Ok (from_utf8_lossy (take (string_end pad b) b))))
            [0..<raw_len raw]
      | _ \<Rightarrow> Error (Unsupported ''decoding as strings''))"

section \<open>Variable-length elements\<close>

definition heap_at :: "ctx \<Rightarrow> (nat \<rightharpoonup> global_heap) \<Rightarrow> nat \<Rightarrow> (global_heap \<times> (nat \<rightharpoonup> global_heap)) result" where
  "heap_at ctx collections a =
     (case collections a of
        Some heap \<Rightarrow> Ok (heap, collections)
      | None \<Rightarrow> and_then (global_heap_read ctx a) (\<lambda>heap. Ok (heap, collections(a \<mapsto> heap))))"

definition vlen_step ::
  "ctx \<Rightarrow> raw_data \<Rightarrow> (bytes \<Rightarrow> nat \<Rightarrow> 't result) \<Rightarrow> nat \<Rightarrow> (nat \<rightharpoonup> global_heap) \<Rightarrow> ('t \<times> (nat \<rightharpoonup> global_heap)) result" where
  "vlen_step ctx raw decode i collections =
     (let s = ctx_sizes ctx; begin_at = i * raw_element_size raw in
      and_then (slice_range (raw_bytes raw) begin_at (begin_at + descriptor_encoded_len s)) (\<lambda>b.
      and_then (parse_descriptor b s) (\<lambda>d.
        if vlen_length d = 0 then and_then (decode [] 0) (\<lambda>v. Ok (v, collections))
        else and_then (heap_at ctx collections (collection_address d)) (\<lambda>(heap, collections).
          case heap_object heap (object_index d mod 65536) of
            None \<Rightarrow> Error (Malformed ''variable-length element names a global heap object which is absent'')
          | Some ob \<Rightarrow> and_then (decode (obj_data ob) (vlen_length d)) (\<lambda>v. Ok (v, collections))))))"

fun vlen_loop ::
  "ctx \<Rightarrow> raw_data \<Rightarrow> (bytes \<Rightarrow> nat \<Rightarrow> 't result) \<Rightarrow> nat list \<Rightarrow> (nat \<rightharpoonup> global_heap) \<Rightarrow> 't list result" where
  "vlen_loop ctx raw decode [] collections = Ok []"
| "vlen_loop ctx raw decode (i # rest) collections =
     and_then (vlen_step ctx raw decode i collections) (\<lambda>(v, collections).
     and_then (vlen_loop ctx raw decode rest collections) (\<lambda>vs. Ok (v # vs)))"

definition with_vlen_descriptors :: "ctx \<Rightarrow> raw_data \<Rightarrow> (bytes \<Rightarrow> nat \<Rightarrow> 't result) \<Rightarrow> 't list result" where
  "with_vlen_descriptors ctx raw decode =
     (if raw_element_size raw < descriptor_encoded_len (ctx_sizes ctx)
      then Error (Malformed ''variable-length element is too small for a descriptor'')
      else vlen_loop ctx raw decode [0..<raw_len raw] Map.empty)"

definition vlen_string :: "bytes \<Rightarrow> nat \<Rightarrow> rstring result" where
  "vlen_string b len =
     (let b = take (min len (length b)) b
      in Ok (from_utf8_lossy (take (position_or (\<lambda>x. x = 0) b (length b)) b)))"

definition resolve_vlen_strings_of :: "ctx \<Rightarrow> raw_data \<Rightarrow> rstring list result" where
  "resolve_vlen_strings_of ctx raw = with_vlen_descriptors ctx raw vlen_string"

definition resolve_vlen_strings :: "ctx \<Rightarrow> 'e dataset_index_scheme \<Rightarrow> raw_data \<Rightarrow> rstring list result" where
  "resolve_vlen_strings ctx ds raw =
     (case dt_class (ds_datatype ds) of
        VariableLength kind _ _ _ \<Rightarrow>
          if kind \<noteq> VString then Error (Unsupported ''variable-length sequences are not decoded as strings'')
          else resolve_vlen_strings_of ctx raw
      | _ \<Rightarrow> Error (Unsupported ''dataset is not a variable-length type''))"

definition vlen_sequence :: "nat \<Rightarrow> bool \<Rightarrow> bytes \<Rightarrow> nat \<Rightarrow> bytes result" where
  "vlen_sequence base_size swap b len =
     (let vs = take (min (saturating_mul len base_size) (length b)) b
      in Ok (if swap then reverse_chunks base_size vs else vs))"

definition resolve_vlen_sequences :: "ctx \<Rightarrow> 'e dataset_index_scheme \<Rightarrow> raw_data \<Rightarrow> bytes list result" where
  "resolve_vlen_sequences ctx ds raw =
     (case dt_class (ds_datatype ds) of
        VariableLength kind base _ _ \<Rightarrow>
          if kind \<noteq> VSequence then Error (Unsupported ''this variable holds variable-length strings, not sequences'')
          else with_vlen_descriptors ctx raw
            (vlen_sequence (dt_size base) (byte_order base = Some Big \<and> 1 < dt_size base))
      | _ \<Rightarrow> Error (Unsupported ''dataset is not a variable-length type''))"

section \<open>Reading a hyperslab\<close>

definition is_vlen :: "hdf_type \<Rightarrow> bool" where
  "is_vlen t = (case dt_class t of VariableLength _ _ _ _ \<Rightarrow> True | _ \<Rightarrow> False)"

definition slab_bytes :: "hyperslab \<Rightarrow> nat \<Rightarrow> nat result" where
  "slab_bytes slab es =
     (case checked_mul (element_count (cnt slab)) es of
        None \<Rightarrow> Error (BadRequest ''selection is too large to hold in memory'')
      | Some n \<Rightarrow> Ok n)"

type_synonym read_state = "once_chunks \<times> chunk_cache option"

definition slab_chunks :: "'e dataset_index_scheme \<Rightarrow> ctx \<Rightarrow> read_state \<Rightarrow> chunk_record list option result \<times> read_state" where
  "slab_chunks ds ctx st =
     (case ds_layout ds of
        Chunked _ _ _ _ \<Rightarrow>
          (case dataset_chunks ds ctx (fst st) of
             (r, lock) \<Rightarrow>
               (and_then r (\<lambda>c. if c = None then Error (Malformed ''chunked dataset has no chunk index'') else Ok c),
                (lock, snd st)))
      | _ \<Rightarrow> (Ok None, st))"

definition read_layout ::
  "eviction \<Rightarrow> codecs \<Rightarrow> ctx \<Rightarrow> 'e dataset_index_scheme \<Rightarrow> chunk_record list option \<Rightarrow> hyperslab \<Rightarrow> bytes \<Rightarrow> read_state \<Rightarrow>
   bytes result \<times> read_state" where
  "read_layout evict cs ctx ds chunks slab out st =
     (case ds_layout ds of
        Compact data \<Rightarrow> (copy_from_dense out data (ds_shape ds) slab (element_size ds), st)
      | Contiguous address _ \<Rightarrow>
          (case address of
             None \<Rightarrow> (Ok out, st)
           | Some a \<Rightarrow> (read_contiguous ctx a out (ds_shape ds) slab (element_size ds), st))
      | Chunked _ chunk_dims _ _ \<Rightarrow>
          (case chunks of
             None \<Rightarrow> (Error (Malformed ''chunked dataset has no chunk index''), st)
           | Some rs \<Rightarrow>
               (case read_chunked evict cs ctx ds rs chunk_dims out slab (element_size ds) (snd st) of
                  (r, cache) \<Rightarrow> (r, (fst st, cache)))))"

definition to_native :: "hdf_type \<Rightarrow> bytes \<Rightarrow> nat \<Rightarrow> bytes" where
  "to_native t out es = (if \<not> is_vlen t \<and> byte_order t = Some Big then swap_bytes_in_place out es else out)"

definition read_hyperslab ::
  "eviction \<Rightarrow> codecs \<Rightarrow> ctx \<Rightarrow> 'e dataset_index_scheme \<Rightarrow> hyperslab \<Rightarrow> read_state \<Rightarrow> raw_data result \<times> read_state" where
  "read_hyperslab evict cs ctx ds slab st =
     then_st (validate slab (ds_shape ds), st) (\<lambda>_ st.
       if \<not> is_decodable (ds_datatype ds) then (Error (Unsupported ''datatype of dataset''), st)
       else
         let es = element_size ds in
         then_st (slab_bytes slab es, st) (\<lambda>tot st.
         then_st (slab_chunks ds ctx st) (\<lambda>chunks st.
         then_st (with_capacity tot, st) (\<lambda>_ st.
           let out = replicate tot 0;
               out = (if selection_is_covered ds chunks slab then out else fill (ds_fill_value ds) out es)
           in then_st (read_layout evict cs ctx ds chunks slab out st) (\<lambda>out st.
                (Ok \<lparr>raw_bytes = to_native (ds_datatype ds) out es, raw_element_size = es, raw_shape = cnt slab\<rparr>, st))))))"


section \<open>The chunks of a dataset\<close>

record stored_chunk =
  sc_offset :: "nat list"
  sc_shape :: "nat list"
  stored_size :: nat

definition chunk_element_count :: "stored_chunk \<Rightarrow> nat" where
  "chunk_element_count c = element_count (sc_shape c)"

definition chunk_selection :: "stored_chunk \<Rightarrow> hyperslab" where
  "chunk_selection c = \<lparr>start = sc_offset c, cnt = sc_shape c\<rparr>"

fun clip_axes :: "nat list \<Rightarrow> nat list \<Rightarrow> nat list \<Rightarrow> nat list option" where
  "clip_axes [] _ _ = Some []"
| "clip_axes (dim # shape) (origin # offset) (full # chunk_dims) =
     (if origin \<ge> dim then None
      else map_option ((#) (min full (dim - origin))) (clip_axes shape offset chunk_dims))"
| "clip_axes (dim # shape) _ _ = None"

definition clip_chunk :: "nat list \<Rightarrow> nat list \<Rightarrow> chunk_record \<Rightarrow> stored_chunk option" where
  "clip_chunk shape chunk_dims r =
     map_option (\<lambda>clipped. \<lparr>sc_offset = chunk_offset r, sc_shape = clipped, stored_size = chunk_size r\<rparr>)
       (clip_axes shape (chunk_offset r) chunk_dims)"

definition chunks_of :: "'e dataset_index_scheme \<Rightarrow> once_chunks \<Rightarrow> stored_chunk list" where
  "chunks_of ds lock =
     (case (ds_layout ds, resolved_chunks lock) of
        (Chunked _ chunk_dims _ _, Some records) \<Rightarrow> List.map_filter (clip_chunk (ds_shape ds) chunk_dims) records
      | _ \<Rightarrow>
          [\<lparr>sc_offset = replicate (length (ds_shape ds)) 0, sc_shape = ds_shape ds,
            stored_size = saturating_mul (element_count (ds_shape ds)) (element_size ds)\<rparr>])"

section \<open>Elements of a dataset\<close>

text \<open>
  What a dataset stores at a coordinate, whatever its layout, before the byte order is made native;
  and the datasets of an intact file, which hold the whole of their shape.
\<close>

definition fill_element :: "fill_value \<Rightarrow> nat \<Rightarrow> bytes" where
  "fill_element fv es = (case fv of Some v \<Rightarrow> if length v = es then v else replicate es 0 | None \<Rightarrow> replicate es 0)"

definition dataset_element ::
  "codecs \<Rightarrow> ctx \<Rightarrow> bytes \<Rightarrow> 'e dataset_index_scheme \<Rightarrow> chunk_record list \<Rightarrow> nat list \<Rightarrow> bytes" where
  "dataset_element cs ctx contents ds chunks x =
     (let es = element_size ds in
      case ds_layout ds of
        Compact data \<Rightarrow> elem es data (flat (ds_shape ds) x)
      | Contiguous None _ \<Rightarrow> fill_element (ds_fill_value ds) es
      | Contiguous (Some a) _ \<Rightarrow> elem es (drop (base_address (ctx_superblock ctx) + a) contents) (flat (ds_shape ds) x)
      | Chunked _ chunk_dims _ _ \<Rightarrow>
          (case stored_element cs ctx (ds_pipeline ds) chunk_dims es chunks x of
             Some e \<Rightarrow> e | None \<Rightarrow> fill_element (ds_fill_value ds) es))"

definition chunked_intact ::
  "codecs \<Rightarrow> ctx \<Rightarrow> bytes \<Rightarrow> 'e dataset_index_scheme \<Rightarrow> chunk_record list \<Rightarrow> nat list \<Rightarrow> hyperslab \<Rightarrow> chunk_cache option \<Rightarrow> bool" where
  "chunked_intact cs ctx contents ds chunks chunk_dims slab cache \<longleftrightarrow>
     (let es = element_size ds; dl = prod_list chunk_dims * es in
      shapes_ok (ds_shape ds) chunk_dims slab es \<and> dl \<le> u64_max \<and>
      chunks_stored cs ctx contents (ds_pipeline ds) dl (length (ds_shape ds)) chunks \<and>
      (\<forall>r \<in> set chunks. intersects r chunk_dims slab (length (ds_shape ds)) \<longrightarrow> decodes cs ctx (ds_pipeline ds) dl r) \<and>
      cache_state_valid cs ctx (ds_pipeline ds) dl chunks cache)"

definition dataset_intact ::
  "codecs \<Rightarrow> ctx \<Rightarrow> bytes \<Rightarrow> 'e dataset_index_scheme \<Rightarrow> chunk_record list \<Rightarrow> hyperslab \<Rightarrow> read_state \<Rightarrow> bool" where
  "dataset_intact cs ctx contents ds chunks slab st \<longleftrightarrow>
     (let size = prod_list (ds_shape ds) * element_size ds in
      case ds_layout ds of
        Compact data \<Rightarrow> size \<le> length data \<and> length data \<le> isize_max
      | Contiguous None _ \<Rightarrow> True
      | Contiguous (Some a) _ \<Rightarrow> base_address (ctx_superblock ctx) + a + size \<le> length contents
      | Chunked _ chunk_dims _ _ \<Rightarrow>
          fst (dataset_chunks ds ctx (fst st)) = Ok (Some chunks) \<and> chunked_intact cs ctx contents ds chunks chunk_dims slab (snd st))"

definition native_element :: "hdf_type \<Rightarrow> bytes \<Rightarrow> bytes" where
  "native_element t e = (if \<not> is_vlen t \<and> byte_order t = Some Big then rev e else e)"

lemma length_fill_element [simp]: "length (fill_element fv es) = es"
  by (simp add: fill_element_def split: option.splits)

lemma elem_eqI:
  assumes "length e = es" "(i + 1) * es \<le> length b" "\<And>j. j < es \<Longrightarrow> b ! (i * es + j) = e ! j"
  shows "elem es b i = e"
proof (rule nth_equalityI)
  show "length (elem es b i) = length e" using assms(1,2) by (simp add: elem_def slice_def)
  show "elem es b i ! j = e ! j" if "j < length (elem es b i)" for j
    using that assms by (simp add: elem_def slice_def)
qed

lemma elem_nth: "(i + 1) * es \<le> length b \<Longrightarrow> j < es \<Longrightarrow> elem es b i ! j = b ! (i * es + j)"
  by (simp add: elem_def slice_def)

lemma length_elem: "(i + 1) * es \<le> length b \<Longrightarrow> length (elem es b i) = es"
  by (simp add: elem_def slice_def)

lemma flat_room: "in_dims ns idx \<Longrightarrow> prod_list ns * es \<le> n \<Longrightarrow> (flat ns idx + 1) * es \<le> n"
  using mult_le_mono1 [of "Suc (flat ns idx)" "prod_list ns" es] flat_less [of ns idx] by simp

lemma elem_fill:
  assumes "(i + 1) * es \<le> length b"
  shows "elem es (fill fv b es) i = fill_element fv es"
proof (cases "es = 0")
  case False
  then have es: "0 < es" by simp
  have f: "length (fill fv b es) = length b \<and>
     fill fv b es ! k = (case fv of Some v \<Rightarrow> if length v = es then v ! (k mod es) else 0 | None \<Rightarrow> 0)" if "k < length b" for k
    using fill_nth [OF that es] .
  have lt: "i * es + j < length b" if "j < es" for j using that assms by simp
  have "length (fill fv b es) = length b" using f [of 0] lt [of 0] es by (cases b) auto
  then show ?thesis using assms f [OF lt]
    by (intro elem_eqI) (auto simp: fill_element_def split: option.splits)
qed (simp add: elem_def slice_def fill_element_def split: option.splits)

lemma elem_to_native:
  assumes "(i + 1) * es \<le> length b"
  shows "elem es (to_native t b es) i = native_element t (elem es b i)"
proof (cases "\<not> is_vlen t \<and> byte_order t = Some Big")
  case True
  show ?thesis
  proof (cases "es \<le> 1")
    case True
    then have "length (elem es b i) \<le> 1" using length_elem [OF assms] by simp
    then have "rev (elem es b i) = elem es b i" by (cases "elem es b i") auto
    then show ?thesis using True by (simp add: to_native_def native_element_def swap_bytes_in_place_def)
  next
    case False
    then have "elem es (reverse_chunks es b) i = rev (elem es b i)"
      using assms by (intro elem_eqI) (auto simp: length_elem rev_nth elem_nth nth_reverse_chunks)
    then show ?thesis using False \<open>\<not> is_vlen t \<and> byte_order t = Some Big\<close>
      by (simp add: to_native_def native_element_def swap_bytes_in_place_def)
  qed
next
  case False
  then show ?thesis by (auto simp: to_native_def native_element_def)
qed

lemma length_to_native [simp]: "length (to_native t b es) = length b"
  by (simp add: to_native_def swap_bytes_in_place_def)

lemma length_fill [simp]: "length (fill fv b es) = length b"
proof (cases "b = [] \<or> es = 0")
  case True
  then show ?thesis by (auto simp: fill_def Let_def fill_loop.simps [of "[]"] split: option.splits)
next
  case False
  then show ?thesis using fill_nth [of 0 b es fv] by simp
qed

lemma in_dims_shift:
  assumes "slab_ok slab shape" "in_dims (cnt slab) idx"
  shows "in_dims shape (map2 (+) (start slab) idx)"
proof -
  have "length idx = length shape" using in_dims_length [OF assms(2)] assms(1) by (simp add: slab_ok_def)
  then show ?thesis using assms by (fastforce simp: in_dims_nth slab_ok_def)
qed

text \<open>The buffer the layout is read into: the fill value, unless every element of it is overwritten.\<close>

definition initial_buffer :: "'e dataset_index_scheme \<Rightarrow> chunk_record list option \<Rightarrow> hyperslab \<Rightarrow> bytes" where
  "initial_buffer ds chunks slab =
     (let out = replicate (prod_list (cnt slab) * element_size ds) 0
      in if selection_is_covered ds chunks slab then out else fill (ds_fill_value ds) out (element_size ds))"

lemma length_initial_buffer [simp]: "length (initial_buffer ds chunks slab) = prod_list (cnt slab) * element_size ds"
  by (simp add: initial_buffer_def Let_def)

lemma initial_element:
  assumes "\<not> selection_is_covered ds chunks slab" "in_dims (cnt slab) idx"
  shows "elem (element_size ds) (initial_buffer ds chunks slab) (flat (cnt slab) idx) = fill_element (ds_fill_value ds) (element_size ds)"
  using assms flat_room [OF assms(2) order_refl, of "element_size ds"] by (simp add: initial_buffer_def Let_def elem_fill)

lemma covered_is_stored:
  assumes lay: "ds_layout ds = Chunked a chunk_dims w ix" and int: "chunked_intact cs ctx contents ds chunks chunk_dims slab cache"
    and cov: "selection_is_covered ds (Some chunks) slab" and idx: "in_dims (cnt slab) idx"
  shows "stored_element cs ctx (ds_pipeline ds) chunk_dims (element_size ds) chunks (map2 (+) (start slab) idx) \<noteq> None"
proof -
  let ?x = "map2 (+) (start slab) idx" and ?rank = "length (ds_shape ds)"
  note i = int [unfolded chunked_intact_def Let_def]
  have sh: "shapes_ok (ds_shape ds) chunk_dims slab (element_size ds)" using i by blast
  have "chunks_cover chunks chunk_dims slab ?rank" using cov lay by (simp add: selection_is_covered_def Let_def split: if_splits)
  then obtain r0 where "r0 \<in> set chunks" "holds chunk_dims r0 ?x"
    using chunks_cover_holds [of chunks chunk_dims slab ?rank idx] idx sh by (auto simp: shapes_ok_def slab_ok_def)
  then obtain r where r: "find (\<lambda>r. holds chunk_dims r ?x) (rev chunks) = Some r"
    by (cases "find (\<lambda>r. holds chunk_dims r ?x) (rev chunks)") (auto simp: find_None_iff)
  then have r': "r \<in> set chunks" "holds chunk_dims r ?x" using find_in_set [OF r] by (auto simp: find_Some_iff)
  moreover have "length (chunk_offset r) = ?rank" using r'(1) i by (simp add: chunks_stored_def)
  ultimately have "decodes cs ctx (ds_pipeline ds) (prod_list chunk_dims * element_size ds) r"
    using holds_intersects [OF sh _ idx] i by blast
  then show ?thesis using r by (auto simp: stored_element_def decodes_def)
qed

lemma read_layout_exact:
  assumes rd: "reader ctx contents" and ev: "only_evicts evict" and ok: "slab_ok slab (ds_shape ds)"
    and fits: "prod_list (ds_shape ds) \<le> u64_max" and int: "dataset_intact cs ctx contents ds chunks slab st"
    and some: "case ds_layout ds of Chunked _ _ _ _ \<Rightarrow> oc = Some chunks | _ \<Rightarrow> True"
  shows "\<exists>out st'. read_layout evict cs ctx ds oc slab (initial_buffer ds oc slab) st = (Ok out, st')
    \<and> length out = prod_list (cnt slab) * element_size ds
    \<and> (\<forall>idx. in_dims (cnt slab) idx \<longrightarrow> elem (element_size ds) out (flat (cnt slab) idx) =
         dataset_element cs ctx contents ds chunks (map2 (+) (start slab) idx))"
proof (cases "ds_layout ds")
  case (Compact data)
  let ?es = "element_size ds"
  have d: "prod_list (ds_shape ds) * ?es \<le> length data" "length data \<le> isize_max"
    using int Compact by (simp_all add: dataset_intact_def)
  obtain out where o: "copy_from_dense (initial_buffer ds oc slab) data (ds_shape ds) slab ?es = Ok out"
    "length out = prod_list (cnt slab) * ?es"
    "\<And>idx b. in_dims (cnt slab) idx \<Longrightarrow> b < ?es \<Longrightarrow>
       out ! (flat (cnt slab) idx * ?es + b) = data ! (flat (ds_shape ds) (map2 (+) (start slab) idx) * ?es + b)"
    using copy_from_dense_correct [OF ok fits d, of "initial_buffer ds oc slab"] by auto
  have "elem ?es out (flat (cnt slab) idx) = elem ?es data (flat (ds_shape ds) (map2 (+) (start slab) idx))" if "in_dims (cnt slab) idx" for idx
    using flat_room [OF that, of ?es "length out"] flat_room [OF in_dims_shift [OF ok that] d(1)] o(2,3) that
    by (intro elem_eqI) (auto simp: length_elem elem_nth)
  then show ?thesis using o(1,2) Compact by (auto simp: read_layout_def dataset_element_def)
next
  case (Contiguous address sz)
  let ?es = "element_size ds"
  show ?thesis
  proof (cases address)
    case None
    then show ?thesis using Contiguous
      by (auto simp: read_layout_def dataset_element_def initial_element selection_is_covered_def)
  next
    case (Some a)
    let ?at = "base_address (ctx_superblock ctx) + a"
    have d: "?at + prod_list (ds_shape ds) * ?es \<le> length contents"
      using int Contiguous Some by (simp add: dataset_intact_def)
    then have d': "prod_list (ds_shape ds) * ?es \<le> length (drop ?at contents)" by simp
    obtain out where o: "read_contiguous ctx a (initial_buffer ds oc slab) (ds_shape ds) slab ?es = Ok out"
      "length out = prod_list (cnt slab) * ?es"
      "\<And>idx b. in_dims (cnt slab) idx \<Longrightarrow> b < ?es \<Longrightarrow>
         out ! (flat (cnt slab) idx * ?es + b) = contents ! (?at + flat (ds_shape ds) (map2 (+) (start slab) idx) * ?es + b)"
      using read_contiguous_correct [OF rd ok fits d, of "initial_buffer ds oc slab"] by auto
    have "elem ?es out (flat (cnt slab) idx) = elem ?es (drop ?at contents) (flat (ds_shape ds) (map2 (+) (start slab) idx))"
      if "in_dims (cnt slab) idx" for idx
      using flat_room [OF that, of ?es "length out"] flat_room [OF in_dims_shift [OF ok that] d'] o(2,3) that d
      by (intro elem_eqI) (auto simp: length_elem elem_nth add.assoc)
    then show ?thesis using o(1,2) Contiguous Some by (auto simp: read_layout_def dataset_element_def)
  qed
next
  case (Chunked a chunk_dims w ix)
  let ?es = "element_size ds"
  have oc: "oc = Some chunks" and ci: "chunked_intact cs ctx contents ds chunks chunk_dims slab (snd st)"
    using some int Chunked by (simp_all add: dataset_intact_def)
  note i = ci [unfolded chunked_intact_def Let_def]
  obtain out c where o: "read_chunked evict cs ctx ds chunks chunk_dims (initial_buffer ds oc slab) slab ?es (snd st) = (Ok out, c)"
    "length out = prod_list (cnt slab) * ?es"
    "\<And>idx. in_dims (cnt slab) idx \<Longrightarrow> elem ?es out (flat (cnt slab) idx) =
        (case stored_element cs ctx (ds_pipeline ds) chunk_dims ?es chunks (map2 (+) (start slab) idx) of
           Some e \<Rightarrow> e | None \<Rightarrow> elem ?es (initial_buffer ds oc slab) (flat (cnt slab) idx))"
    using read_chunked_exact [OF rd ev, of ds chunk_dims slab ?es cs chunks "snd st" "initial_buffer ds oc slab"] i by auto
  have "elem ?es out (flat (cnt slab) idx) = dataset_element cs ctx contents ds chunks (map2 (+) (start slab) idx)"
    if idx: "in_dims (cnt slab) idx" for idx
    using o(3) [OF idx] initial_element [OF _ idx, of ds oc] covered_is_stored [OF Chunked ci _ idx] oc Chunked
    by (cases "selection_is_covered ds oc slab") (auto simp: dataset_element_def split: option.splits)
  then show ?thesis using o(1,2) oc Chunked by (auto simp: read_layout_def)
qed

lemma dataset_chunks_again:
  "dataset_chunks ds ctx lock = (Ok c, lock') \<Longrightarrow> dataset_chunks ds ctx lock' = (Ok c, lock')"
  by (auto simp: dataset_chunks_def split: option.splits sum.splits)

lemma slab_chunks_intact:
  assumes "dataset_intact cs ctx contents ds chunks slab st"
  shows "\<exists>oc lock. slab_chunks ds ctx st = (Ok oc, (lock, snd st))
    \<and> (case ds_layout ds of Chunked _ _ _ _ \<Rightarrow> oc = Some chunks | _ \<Rightarrow> True)
    \<and> dataset_intact cs ctx contents ds chunks slab (lock, snd st)"
proof (cases "ds_layout ds")
  case (Chunked a chunk_dims w ix)
  obtain lock where l: "dataset_chunks ds ctx (fst st) = (Ok (Some chunks), lock)"
    using assms Chunked by (cases "dataset_chunks ds ctx (fst st)") (simp add: dataset_intact_def)
  then show ?thesis using dataset_chunks_again [OF l] assms Chunked
    by (simp add: slab_chunks_def dataset_intact_def)
qed (use assms in \<open>auto simp: slab_chunks_def dataset_intact_def intro!: exI [of _ "fst st"]\<close>)

section \<open>Clipped chunks\<close>

definition selected :: "hyperslab \<Rightarrow> nat list \<Rightarrow> bool" where
  "selected slab x \<longleftrightarrow> length x = length (start slab) \<and>
     (\<forall>a < length x. start slab ! a \<le> x ! a \<and> x ! a < start slab ! a + cnt slab ! a)"

lemma clip_axes_Some:
  "clip_axes shape offset chunk_dims = Some clipped \<longleftrightarrow>
     length shape \<le> length offset \<and> length shape \<le> length chunk_dims \<and> length clipped = length shape \<and>
     (\<forall>a < length shape. offset ! a < shape ! a \<and> clipped ! a = min (chunk_dims ! a) (shape ! a - offset ! a))"
proof (induction shape offset chunk_dims arbitrary: clipped rule: clip_axes.induct)
  case (2 dim shape origin offset full chunk_dims)
  show ?case using 2 by (cases clipped) (auto simp: All_less_Suc2)
qed auto

lemma clip_chunk_selection:
  assumes c: "clip_chunk shape chunk_dims r = Some c"
    and len: "length (chunk_offset r) = length shape" "length chunk_dims = length shape"
  shows "slab_ok (chunk_selection c) shape"
    and "in_dims shape x \<Longrightarrow> selected (chunk_selection c) x \<longleftrightarrow> holds chunk_dims r x"
proof -
  obtain clipped where cl: "clip_axes shape (chunk_offset r) chunk_dims = Some clipped"
    "c = \<lparr>sc_offset = chunk_offset r, sc_shape = clipped, stored_size = chunk_size r\<rparr>"
    using c by (auto simp: clip_chunk_def)
  note ax = cl(1) [unfolded clip_axes_Some]
  show "slab_ok (chunk_selection c) shape" using ax cl(2) len by (auto simp: slab_ok_def chunk_selection_def)
  show "selected (chunk_selection c) x \<longleftrightarrow> holds chunk_dims r x" if x: "in_dims shape x"
  proof -
    have "x ! a < chunk_offset r ! a + clipped ! a \<longleftrightarrow> x ! a < chunk_offset r ! a + chunk_dims ! a" if "a < length shape" for a
      using ax that x by (auto simp: in_dims_nth min_def)
    then show ?thesis using ax cl(2) len x by (auto simp: selected_def holds_def chunk_selection_def in_dims_nth)
  qed
qed

lemma clip_chunk_None:
  assumes "clip_chunk shape chunk_dims r = None" "in_dims shape x"
    and len: "length (chunk_offset r) = length shape" "length chunk_dims = length shape"
  shows "\<not> holds chunk_dims r x"
proof
  assume h: "holds chunk_dims r x"
  then have "chunk_offset r ! a < shape ! a" if "a < length shape" for a
    using that len assms(2) by (force simp: holds_def in_dims_nth)
  then have "clip_axes shape (chunk_offset r) chunk_dims =
      Some (map (\<lambda>a. min (chunk_dims ! a) (shape ! a - chunk_offset r ! a)) [0..<length shape])"
    unfolding clip_axes_Some using len by simp
  then show False using assms(1) by (simp add: clip_chunk_def)
qed

section \<open>Resolving variable-length elements\<close>

text \<open>What one element resolves to when every collection it names is read anew.\<close>

definition resolve_element :: "ctx \<Rightarrow> raw_data \<Rightarrow> (bytes \<Rightarrow> nat \<Rightarrow> 't result) \<Rightarrow> nat \<Rightarrow> 't result" where
  "resolve_element ctx raw decode i = and_then (vlen_step ctx raw decode i Map.empty) (\<lambda>(v, _). Ok v)"

definition collections_valid :: "ctx \<Rightarrow> (nat \<rightharpoonup> global_heap) \<Rightarrow> bool" where
  "collections_valid ctx collections \<longleftrightarrow> (\<forall>a heap. collections a = Some heap \<longrightarrow> global_heap_read ctx a = Ok heap)"

lemma heap_at_cached:
  assumes "collections_valid ctx collections"
  shows "and_then (heap_at ctx collections a) (\<lambda>(heap, _). f heap) = and_then (global_heap_read ctx a) f"
  using assms by (auto simp: heap_at_def collections_valid_def and_then_assoc split: option.splits)

lemma heap_at_valid:
  assumes "collections_valid ctx collections" "heap_at ctx collections a = Ok (heap, collections')"
  shows "collections_valid ctx collections'"
  using assms by (auto simp: heap_at_def collections_valid_def and_then_Ok split: option.splits if_splits)

lemma vlen_step_result:
  assumes "collections_valid ctx collections"
  shows "and_then (vlen_step ctx raw decode i collections) (\<lambda>(v, _). Ok v) = resolve_element ctx raw decode i"
proof -
  let ?f = "\<lambda>d heap. case heap_object heap (object_index d mod 65536) of
      None \<Rightarrow> Error (Malformed ''variable-length element names a global heap object which is absent'')
    | Some ob \<Rightarrow> decode (obj_data ob) (vlen_length d)"
  have f: "and_then (case_prod (\<lambda>heap collections. case heap_object heap (object_index d mod 65536) of
        None \<Rightarrow> Error (Malformed ''variable-length element names a global heap object which is absent'')
      | Some ob \<Rightarrow> and_then (decode (obj_data ob) (vlen_length d)) (\<lambda>v. Ok (v, collections))) p) (\<lambda>(v, _). Ok v) =
      (case p of (heap, _) \<Rightarrow> ?f d heap)" for d p
    by (cases p) (auto simp: and_then_assoc split: option.splits)
  have e: "collections_valid ctx Map.empty" by (simp add: collections_valid_def)
  show ?thesis
    unfolding vlen_step_def resolve_element_def Let_def and_then_assoc
    by (rule and_then_cong [OF refl], rule and_then_cong [OF refl]) (simp add: and_then_assoc f heap_at_cached [OF assms] heap_at_cached [OF e])
qed

lemma vlen_step_valid:
  assumes "collections_valid ctx collections" "vlen_step ctx raw decode i collections = Ok (v, collections')"
  shows "collections_valid ctx collections'"
  using assms heap_at_valid [OF assms(1)]
  by (auto simp: vlen_step_def Let_def and_then_Ok split: if_splits option.splits)

lemma vlen_loop_eq:
  "collections_valid ctx collections \<Longrightarrow>
   vlen_loop ctx raw decode is collections = map_result (resolve_element ctx raw decode) is"
proof (induction "is" arbitrary: collections)
  case (Cons i "is")
  show ?case
  proof (cases "vlen_step ctx raw decode i collections")
    case (Inl e)
    then show ?thesis using vlen_step_result [OF Cons.prems, of raw decode i, symmetric] by simp
  next
    case (Inr p)
    obtain v collections' where p: "p = (v, collections')" by fastforce
    then have "resolve_element ctx raw decode i = Ok v" "collections_valid ctx collections'"
      using vlen_step_result [OF Cons.prems, of raw decode i] vlen_step_valid [OF Cons.prems, of raw decode i] Inr by auto
    then show ?thesis using Inr p Cons.IH by simp
  qed
qed simp

lemma hyperslab_read:
  assumes "reader ctx contents" and "only_evicts evict" and "validate slab (ds_shape ds) = Inr ()"
    and "\<forall>d \<in> set (ds_shape ds). d \<le> u64_max" and "prod_list (ds_shape ds) \<le> u64_max"
    and "prod_list (cnt slab) * element_size ds \<le> isize_max" and "is_decodable (ds_datatype ds)"
    and "dataset_intact cs ctx contents ds chunks slab st"
  shows "\<exists>raw st'. read_hyperslab evict cs ctx ds slab st = (Ok raw, st')
    \<and> raw_shape raw = cnt slab \<and> raw_element_size raw = element_size ds
    \<and> length (raw_bytes raw) = prod_list (cnt slab) * element_size ds
    \<and> (\<forall>idx. in_dims (cnt slab) idx \<longrightarrow> elem (element_size ds) (raw_bytes raw) (flat (cnt slab) idx) =
         native_element (ds_datatype ds) (dataset_element cs ctx contents ds chunks (map2 (+) (start slab) idx)))"
proof -
  let ?es = "element_size ds"
  have ok: "slab_ok slab (ds_shape ds)" using validate_Ok assms(3,4) by blast
  have n: "prod_list (cnt slab) \<le> u64_max" using slab_cnt_le [OF ok] assms(5) by simp
  then have size: "slab_bytes slab ?es = Ok (prod_list (cnt slab) * ?es)"
    using assms(6) by (simp add: slab_bytes_def element_count_eq checked_mul_def isize_max_def u64_max_def)
  obtain oc lock where ch: "slab_chunks ds ctx st = (Ok oc, (lock, snd st))"
    and oc: "case ds_layout ds of Chunked _ _ _ _ \<Rightarrow> oc = Some chunks | _ \<Rightarrow> True"
    and int: "dataset_intact cs ctx contents ds chunks slab (lock, snd st)"
    using slab_chunks_intact [OF assms(8)] by blast
  obtain out st' where o: "read_layout evict cs ctx ds oc slab (initial_buffer ds oc slab) (lock, snd st) = (Ok out, st')"
    "length out = prod_list (cnt slab) * ?es"
    "\<And>idx. in_dims (cnt slab) idx \<Longrightarrow> elem ?es out (flat (cnt slab) idx) =
       dataset_element cs ctx contents ds chunks (map2 (+) (start slab) idx)"
    using read_layout_exact [OF assms(1,2) ok assms(5) int oc] by auto
  have "read_hyperslab evict cs ctx ds slab st =
      (Ok \<lparr>raw_bytes = to_native (ds_datatype ds) out ?es, raw_element_size = ?es, raw_shape = cnt slab\<rparr>, st')"
    using assms(3,6,7) size ch o(1) by (simp add: read_hyperslab_def Let_def with_capacity_def initial_buffer_def)
  moreover have "(flat (cnt slab) idx + 1) * ?es \<le> length out" if "in_dims (cnt slab) idx" for idx
    using flat_room [OF that, of ?es "length out"] o(2) by simp
  ultimately show ?thesis using o(2,3) by (auto simp: elem_to_native)
qed

section \<open>Properties\<close>

text \<open>
  C1.  Reading a hyperslab of an intact dataset, whatever its layout, succeeds and returns the
  selection in row-major order, each element what the dataset stores at its coordinate (the fill
  value where nothing is stored), big-endian values turned to native order and variable-length
  descriptors left as they are.  Skipping the fill pass where the chunks cover the selection, the
  chunk cache and its read-ahead do not show.
\<close>

theorem hyperslab_read_exact:
  assumes "reader ctx contents" and "only_evicts evict" and "validate slab (ds_shape ds) = Inr ()"
    and "\<forall>d \<in> set (ds_shape ds). d \<le> u64_max" and "prod_list (ds_shape ds) \<le> u64_max"
    and "prod_list (cnt slab) * element_size ds \<le> isize_max" and "is_decodable (ds_datatype ds)"
    and "dataset_intact cs ctx contents ds chunks slab st"
  shows "\<exists>raw st'. read_hyperslab evict cs ctx ds slab st = (Ok raw, st')
    \<and> raw_shape raw = cnt slab \<and> raw_element_size raw = element_size ds
    \<and> length (raw_bytes raw) = prod_list (cnt slab) * element_size ds
    \<and> (\<forall>idx. in_dims (cnt slab) idx \<longrightarrow> elem (element_size ds) (raw_bytes raw) (flat (cnt slab) idx) =
         native_element (ds_datatype ds) (dataset_element cs ctx contents ds chunks (map2 (+) (start slab) idx)))"
  using assms by (rule hyperslab_read)

definition big_endian_dataset :: dataset_index where
  "big_endian_dataset = \<lparr>ds_shape = [2], ds_datatype = Datatype 1 2 (FixedPoint Big False 0 16),
     ds_layout = Contiguous (Some 0) 4, ds_pipeline = [], ds_fill_value = None\<rparr>"

theorem hyperslab_read_exact_witness:
  "\<exists>raw st'. read_hyperslab id store_codecs (new_ctx (memory_source [0, 1, 2, 3]) example_superblock) big_endian_dataset
     (hyperslab_all [2]) (None, None) = (Ok raw, st') \<and> elem 2 (raw_bytes raw) 1 = [3, 2]"
proof -
  let ?ctx = "new_ctx (memory_source [0, 1, 2, 3]) example_superblock" and ?ds = big_endian_dataset
  have "byte_source (memory_source [0, 1, 2, 3]) [0, 1, 2, 3]" by (rule byte_source_memory) (simp add: isize_max_def)
  then have rd: "reader ?ctx [0, 1, 2, 3]" by (simp add: reader_def new_ctx_def cache_ok_def)
  have es: "element_size ?ds = 2" by (simp add: element_size_def big_endian_dataset_def)
  have "dataset_intact store_codecs ?ctx [0, 1, 2, 3] ?ds [] (hyperslab_all [2]) (None, None)"
    by (simp add: dataset_intact_def es) (simp add: big_endian_dataset_def new_ctx_def example_superblock_def)
  moreover have "validate (hyperslab_all [2]) (ds_shape ?ds) = Inr ()" "is_decodable (ds_datatype ?ds)" "only_evicts id"
    by (simp_all add: validate_def hyperslab_all_def checked_add_def u64_max_def big_endian_dataset_def only_evicts_def)
  moreover have "\<forall>d \<in> set (ds_shape ?ds). d \<le> u64_max" "prod_list (ds_shape ?ds) \<le> u64_max"
    "prod_list (cnt (hyperslab_all [2])) * element_size ?ds \<le> isize_max"
    by (simp_all add: es) (simp_all add: big_endian_dataset_def u64_max_def isize_max_def hyperslab_all_def)
  ultimately obtain raw st' where o: "read_hyperslab id store_codecs ?ctx ?ds (hyperslab_all [2]) (None, None) = (Ok raw, st')"
    "\<forall>idx. in_dims (cnt (hyperslab_all [2])) idx \<longrightarrow> elem (element_size ?ds) (raw_bytes raw) (flat (cnt (hyperslab_all [2])) idx) =
       native_element (ds_datatype ?ds) (dataset_element store_codecs ?ctx [0, 1, 2, 3] ?ds [] (map2 (+) (start (hyperslab_all [2])) idx))"
    using hyperslab_read_exact [OF rd, of id "hyperslab_all [2]" ?ds store_codecs "[]" "(None, None)"] by blast
  from o(2) [rule_format, of "[1]"] have "elem 2 (raw_bytes raw) 1 = [3, 2]"
    by (simp add: es dataset_element_def)
      (simp add: big_endian_dataset_def hyperslab_all_def flat_def new_ctx_def example_superblock_def elem_def slice_def
        native_element_def is_vlen_def byte_order_def)
  then show ?thesis using o(1) by blast
qed

text \<open>
  C36.  Resolving the variable-length elements of a read with the collections kept for the call is
  resolving each element on its own, collection read anew: same values, same first error.
\<close>

theorem vlen_cache_transparent:
  "with_vlen_descriptors ctx raw decode =
     (if raw_element_size raw < descriptor_encoded_len (ctx_sizes ctx)
      then Error (Malformed ''variable-length element is too small for a descriptor'')
      else map_result (resolve_element ctx raw decode) [0..<raw_len raw])"
  by (simp add: with_vlen_descriptors_def vlen_loop_eq collections_valid_def)

text \<open>
  The chunks a chunked dataset reports are selections that a read accepts, and together they
  select exactly the coordinates of the shape that some chunk record holds: nothing of an edge chunk
  is lost by the clipping and none of its padding is kept.
\<close>

theorem reported_chunks_select_records:
  assumes "ds_layout ds = Chunked address chunk_dims width index" and "length chunk_dims = length (ds_shape ds)"
    and "\<forall>r \<in> set records. length (chunk_offset r) = length (ds_shape ds)" and "\<forall>d \<in> set (ds_shape ds). d \<le> u64_max"
  shows "(\<forall>c \<in> set (chunks_of ds (Some (Some records))). validate (chunk_selection c) (ds_shape ds) = Inr ())
    \<and> (\<forall>x. in_dims (ds_shape ds) x \<longrightarrow>
         (\<exists>c \<in> set (chunks_of ds (Some (Some records))). selected (chunk_selection c) x) \<longleftrightarrow>
         (\<exists>r \<in> set records. holds chunk_dims r x))"
proof -
  have cs: "chunks_of ds (Some (Some records)) = List.map_filter (clip_chunk (ds_shape ds) chunk_dims) records"
    using assms(1) by (simp add: chunks_of_def resolved_chunks_def)
  have mem: "c \<in> set (chunks_of ds (Some (Some records))) \<longleftrightarrow> (\<exists>r \<in> set records. clip_chunk (ds_shape ds) chunk_dims r = Some c)" for c
    by (force simp: cs set_map_filter)
  have "validate (chunk_selection c) (ds_shape ds) = Inr ()" if "c \<in> set (chunks_of ds (Some (Some records)))" for c
    using that clip_chunk_selection(1) assms(2,3) validate_Ok [OF assms(4)] by (auto simp: mem)
  moreover have "(\<exists>c \<in> set (chunks_of ds (Some (Some records))). selected (chunk_selection c) x) \<longleftrightarrow> (\<exists>r \<in> set records. holds chunk_dims r x)"
    if x: "in_dims (ds_shape ds) x" for x
  proof -
    have "(\<exists>c. clip_chunk (ds_shape ds) chunk_dims r = Some c \<and> selected (chunk_selection c) x) \<longleftrightarrow> holds chunk_dims r x"
      if "r \<in> set records" for r
      using clip_chunk_selection(2) [OF _ _ assms(2) x, of r] clip_chunk_None [OF _ x _ assms(2), of r] assms(3) that
      by (cases "clip_chunk (ds_shape ds) chunk_dims r") auto
    then show ?thesis unfolding Bex_def mem by blast
  qed
  ultimately show ?thesis by blast
qed

definition edge_chunk :: chunk_record where
  "edge_chunk = \<lparr>chunk_size = 2, filter_mask = 0, chunk_offset = [1], chunk_address = 0\<rparr>"

theorem reported_chunks_select_records_witness:
  "chunks_of (example_dataset\<lparr>ds_layout := Chunked (Some 0) [2] 1 BtreeV1\<rparr>) (Some (Some [edge_chunk]))
     = [\<lparr>sc_offset = [1], sc_shape = [1], stored_size = 2\<rparr>]
   \<and> selected (chunk_selection \<lparr>sc_offset = [1], sc_shape = [1], stored_size = 2\<rparr>) [1]"
proof -
  let ?ds = "example_dataset\<lparr>ds_layout := Chunked (Some 0) [2] 1 BtreeV1\<rparr>"
  have c: "chunks_of ?ds (Some (Some [edge_chunk])) = [\<lparr>sc_offset = [1], sc_shape = [1], stored_size = 2\<rparr>]"
    by (simp add: chunks_of_def resolved_chunks_def example_dataset_def edge_chunk_def clip_chunk_def List.map_filter_simps)
  have "\<exists>c \<in> set (chunks_of ?ds (Some (Some [edge_chunk]))). selected (chunk_selection c) [1]"
    using reported_chunks_select_records [of ?ds "Some 0" "[2]" 1 BtreeV1 "[edge_chunk]"]
    by (simp add: example_dataset_def edge_chunk_def holds_def u64_max_def)
  then show ?thesis using c by simp
qed

end
