(* ===== verification/Object_Messages.thy ===== *)
theory Object_Messages
  imports Object_Header Messages Datatype_Message Btree2
begin

text \<open>
  The messages that tie objects together: links, link info, symbol table and attribute info
  (\<^verbatim>\<open>message/link.rs\<close>), attributes (\<^verbatim>\<open>message/attribute.rs\<close>), pointers to shared messages
  (\<^verbatim>\<open>message/shared.rs\<close>), and the typed accessors of an object header (\<^verbatim>\<open>message/mod.rs\<close>), which
  follow a committed datatype into the header that holds it.
\<close>

section \<open>Links\<close>

datatype link_target =
    Hard nat
  | Soft rstring
  | External bytes
  | UnknownLink nat bytes

record link =
  link_name :: rstring
  target :: link_target
  link_order :: "nat option"

definition parse_target :: "nat \<Rightarrow> sizes \<Rightarrow> link_target parser" where
  "parse_target link_type s =
     (if link_type = 0 then bind_p (address_required s ''hard link target'') (\<lambda>a. ret_p (Hard a))
      else bind_p u16 (\<lambda>len. bind_p (take_bytes len) (\<lambda>raw.
        ret_p (if link_type = 1 then Soft (from_utf8_lossy raw)
               else if link_type = 64 then External raw
               else UnknownLink link_type raw))))"

definition parse_link_fields :: "sizes \<Rightarrow> nat \<Rightarrow> link parser" where
  "parse_link_fields s flags =
     bind_p (if flags div 8 mod 2 \<noteq> 0 then u8 else ret_p 0) (\<lambda>link_type.
     bind_p (if flags div 4 mod 2 \<noteq> 0 then bind_p u64 (\<lambda>v. ret_p (Some v)) else ret_p None) (\<lambda>order.
     bind_p (if flags div 16 mod 2 \<noteq> 0 then skip 1 else ret_p ()) (\<lambda>_.
     bind_p (read_uint (2 ^ (flags mod 4))) (\<lambda>name_len.
     bind_p (take_bytes name_len) (\<lambda>raw_name.
     bind_p (parse_target link_type s) (\<lambda>tgt.
       ret_p \<lparr>link_name = from_utf8_lossy raw_name, target = tgt, link_order = order\<rparr>))))))"

definition parse_link_at :: "sizes \<Rightarrow> link parser" where
  "parse_link_at s =
     bind_p u8 (\<lambda>ver.
       if ver \<noteq> 1 then fail_p (Unsupported ''link message version'')
       else bind_p u8 (parse_link_fields s))"

definition parse_link :: "bytes \<Rightarrow> sizes \<Rightarrow> link result" where
  "parse_link body s = run_p (parse_link_at s) body"

definition hard_address :: "link \<Rightarrow> nat option" where
  "hard_address l = (case target l of Hard a \<Rightarrow> Some a | _ \<Rightarrow> None)"

record link_info =
  max_creation_index :: "nat option"
  li_heap :: "nat option"
  li_name_btree :: "nat option"
  li_order_btree :: "nat option"

definition parse_link_info_p :: "sizes \<Rightarrow> link_info parser" where
  "parse_link_info_p s =
     bind_p u8 (\<lambda>ver.
       if ver \<noteq> 0 then fail_p (Unsupported ''link info message version'')
       else bind_p u8 (\<lambda>flags.
         bind_p (if flags mod 2 \<noteq> 0 then bind_p u64 (\<lambda>v. ret_p (Some v)) else ret_p None) (\<lambda>mx.
         bind_p (read_address s) (\<lambda>heap. bind_p (read_address s) (\<lambda>names.
         bind_p (if flags div 2 mod 2 \<noteq> 0 then read_address s else ret_p None) (\<lambda>orders.
           ret_p \<lparr>max_creation_index = mx, li_heap = heap, li_name_btree = names, li_order_btree = orders\<rparr>))))))"

definition parse_link_info :: "bytes \<Rightarrow> sizes \<Rightarrow> link_info result" where
  "parse_link_info body s = run_p (parse_link_info_p s) body"

definition links_dense :: "link_info \<Rightarrow> bool" where
  "links_dense li \<longleftrightarrow> li_heap li \<noteq> None"

record symbol_table =
  st_btree :: nat
  st_heap :: nat

definition parse_symbol_table_p :: "sizes \<Rightarrow> symbol_table parser" where
  "parse_symbol_table_p s =
     bind_p (address_required s ''group B-tree'') (\<lambda>b. bind_p (address_required s ''group local heap'') (\<lambda>h.
       ret_p \<lparr>st_btree = b, st_heap = h\<rparr>))"

definition parse_symbol_table :: "bytes \<Rightarrow> sizes \<Rightarrow> symbol_table result" where
  "parse_symbol_table body s = run_p (parse_symbol_table_p s) body"

record attribute_info =
  ai_heap :: "nat option"
  ai_name_btree :: "nat option"
  ai_order_btree :: "nat option"

definition parse_attribute_info_p :: "sizes \<Rightarrow> attribute_info parser" where
  "parse_attribute_info_p s =
     bind_p u8 (\<lambda>ver.
       if ver \<noteq> 0 then fail_p (Unsupported ''attribute info message version'')
       else bind_p u8 (\<lambda>flags.
         bind_p (if flags mod 2 \<noteq> 0 then skip 2 else ret_p ()) (\<lambda>_.
         bind_p (read_address s) (\<lambda>heap. bind_p (read_address s) (\<lambda>names.
         bind_p (if flags div 2 mod 2 \<noteq> 0 then read_address s else ret_p None) (\<lambda>orders.
           ret_p \<lparr>ai_heap = heap, ai_name_btree = names, ai_order_btree = orders\<rparr>))))))"

definition parse_attribute_info :: "bytes \<Rightarrow> sizes \<Rightarrow> attribute_info result" where
  "parse_attribute_info body s = run_p (parse_attribute_info_p s) body"

definition attributes_dense :: "attribute_info \<Rightarrow> bool" where
  "attributes_dense ai \<longleftrightarrow> ai_heap ai \<noteq> None"

section \<open>Attributes\<close>

record attribute =
  attr_name :: rstring
  attr_type :: hdf_type
  attr_space :: dataspace
  attr_data :: bytes

datatype value_extent = Rest | Computed

definition take_value :: "hdf_type \<Rightarrow> dataspace \<Rightarrow> value_extent \<Rightarrow> bytes parser" where
  "take_value t sp extent =
     (case extent of
        Rest \<Rightarrow> bind_p get_remaining take_bytes
      | Computed \<Rightarrow>
          (case checked_mul (dataspace_element_count sp) (dt_size t) of
             None \<Rightarrow> fail_p (Malformed ''attribute value length overflows a machine word'')
           | Some len \<Rightarrow> take_bytes len))"

definition pad8 :: "nat \<Rightarrow> nat" where
  "pad8 n = div_ceil n 8 * 8"

definition read_padded_name :: "nat \<Rightarrow> nat \<Rightarrow> rstring parser" where
  "read_padded_name sz align =
     bind_p (take_bytes (if align > 1 then div_ceil sz align * align else sz)) (\<lambda>raw.
       ret_p (from_utf8_lossy (take (position_or (\<lambda>b. b = 0) (take sz raw) (min sz (length raw))) raw)))"

definition attribute_tail :: "nat \<Rightarrow> nat \<Rightarrow> nat \<Rightarrow> nat \<Rightarrow> sizes \<Rightarrow> value_extent \<Rightarrow> attribute parser" where
  "attribute_tail name_size align type_size space_size s extent =
     bind_p (read_padded_name name_size align) (\<lambda>nm.
     bind_p (take_bytes type_size) (\<lambda>tb. bind_p (lift_p (parse_datatype tb)) (\<lambda>t.
     bind_p (take_bytes space_size) (\<lambda>sb. bind_p (lift_p (parse_dataspace sb s)) (\<lambda>sp.
     bind_p (take_value t sp extent) (\<lambda>data.
       ret_p \<lparr>attr_name = nm, attr_type = t, attr_space = sp, attr_data = data\<rparr>))))))"

definition parse_attribute_v1 :: "sizes \<Rightarrow> value_extent \<Rightarrow> attribute parser" where
  "parse_attribute_v1 s extent =
     bind_p (skip 1) (\<lambda>_. bind_p u16 (\<lambda>name_size. bind_p u16 (\<lambda>type_size. bind_p u16 (\<lambda>space_size.
       attribute_tail name_size 8 (pad8 type_size) (pad8 space_size) s extent))))"

definition parse_attribute_v2_v3 :: "nat \<Rightarrow> sizes \<Rightarrow> value_extent \<Rightarrow> attribute parser" where
  "parse_attribute_v2_v3 ver s extent =
     bind_p u8 (\<lambda>flags. bind_p u16 (\<lambda>name_size. bind_p u16 (\<lambda>type_size. bind_p u16 (\<lambda>space_size.
       if flags mod 4 \<noteq> 0 then fail_p (Unsupported ''attribute with a shared datatype or dataspace'')
       else bind_p (if ver = 3 then skip 1 else ret_p ()) (\<lambda>_.
         attribute_tail name_size 1 type_size space_size s extent)))))"

definition read_attribute :: "sizes \<Rightarrow> value_extent \<Rightarrow> attribute parser" where
  "read_attribute s extent =
     bind_p u8 (\<lambda>ver.
       if ver = 1 then parse_attribute_v1 s extent
       else if ver = 2 \<or> ver = 3 then parse_attribute_v2_v3 ver s extent
       else fail_p (Unsupported ''attribute message version''))"

definition parse_attribute :: "bytes \<Rightarrow> sizes \<Rightarrow> attribute result" where
  "parse_attribute body s = run_p (read_attribute s Rest) body"

definition parse_attribute_at :: "sizes \<Rightarrow> attribute parser" where
  "parse_attribute_at s = read_attribute s Computed"

definition attribute_element_count :: "attribute \<Rightarrow> nat" where
  "attribute_element_count a = dataspace_element_count (attr_space a)"

section \<open>Shared messages\<close>

datatype shared_location = Unshared | MessageHeap | Committed nat | Here

record shared_message =
  sm_version :: nat
  sm_location :: shared_location

definition parse_shared_p :: "sizes \<Rightarrow> shared_message parser" where
  "parse_shared_p s =
     bind_p u8 (\<lambda>ver. bind_p u8 (\<lambda>kind.
       if ver = 1 then
         bind_p (seek 8) (\<lambda>_. bind_p (address_required s ''shared message target'') (\<lambda>a.
           ret_p \<lparr>sm_version = ver, sm_location = Committed a\<rparr>))
       else if ver \<noteq> 2 \<and> ver \<noteq> 3 then fail_p (Unsupported ''shared message version'')
       else if kind = 0 then ret_p \<lparr>sm_version = ver, sm_location = Unshared\<rparr>
       else if kind = 1 then ret_p \<lparr>sm_version = ver, sm_location = MessageHeap\<rparr>
       else if kind = 2 then
         bind_p (address_required s ''shared message target'') (\<lambda>a. ret_p \<lparr>sm_version = ver, sm_location = Committed a\<rparr>)
       else if kind = 3 then ret_p \<lparr>sm_version = ver, sm_location = Here\<rparr>
       else fail_p (Unsupported ''shared message type'')))"

definition parse_shared :: "bytes \<Rightarrow> sizes \<Rightarrow> shared_message result" where
  "parse_shared body s = run_p (parse_shared_p s) body"

definition committed_address :: "shared_message \<Rightarrow> string \<Rightarrow> nat result" where
  "committed_address m what =
     (case sm_location m of
        Committed a \<Rightarrow> Ok a
      | MessageHeap \<Rightarrow> Error (Unsupported (what @ '' held in the shared message heap''))
      | Here \<Rightarrow> Error (Unsupported (what @ '' shared within its own object header''))
      | Unshared \<Rightarrow> Error (Malformed (what @ '' is flagged shared but points nowhere'')))"

section \<open>Typed messages of an object header\<close>

definition reject_shared :: "header_message \<Rightarrow> string \<Rightarrow> unit result" where
  "reject_shared m what = ensure (\<not> is_shared m) (Unsupported (''shared '' @ what @ '' message''))"

definition oh_dataspace :: "object_header \<Rightarrow> sizes \<Rightarrow> dataspace option result" where
  "oh_dataspace oh s =
     (case message_of DataspaceMsg oh of
        None \<Rightarrow> Ok None
      | Some m \<Rightarrow> and_then (reject_shared m ''dataspace'') (\<lambda>_. and_then (parse_dataspace (msg_data m) s) (\<lambda>d. Ok (Some d))))"

definition MAX_SHARED_HOPS :: nat where
  "MAX_SHARED_HOPS = 8"

definition shared_address :: "header_message \<Rightarrow> sizes \<Rightarrow> nat result" where
  "shared_address m s = and_then (parse_shared (msg_data m) s) (\<lambda>sm. committed_address sm ''datatype'')"

fun follow_committed :: "nat \<Rightarrow> ctx \<Rightarrow> nat \<Rightarrow> hdf_type option result" where
  "follow_committed 0 ctx address =
     Error (Malformed ''committed datatype chain is too long; the file may be cyclic'')"
| "follow_committed (Suc hops) ctx address =
     and_then (read_object_header ctx address) (\<lambda>committed.
       case message_of DatatypeMsg committed of
         None \<Rightarrow> Error (Malformed ''committed datatype has no datatype message'')
       | Some m \<Rightarrow>
           if \<not> is_shared m then and_then (parse_datatype (msg_data m)) (\<lambda>t. Ok (Some t))
           else and_then (shared_address m (ctx_sizes ctx)) (\<lambda>next. follow_committed hops ctx next))"

definition oh_datatype :: "object_header \<Rightarrow> ctx \<Rightarrow> hdf_type option result" where
  "oh_datatype oh ctx =
     (case message_of DatatypeMsg oh of
        None \<Rightarrow> Ok None
      | Some m \<Rightarrow>
          if \<not> is_shared m then and_then (parse_datatype (msg_data m)) (\<lambda>t. Ok (Some t))
          else and_then (shared_address m (ctx_sizes ctx)) (\<lambda>a. follow_committed MAX_SHARED_HOPS ctx a))"

definition oh_layout :: "object_header \<Rightarrow> sizes \<Rightarrow> layout option result" where
  "oh_layout oh s =
     (case message_of DataLayoutMsg oh of
        None \<Rightarrow> Ok None
      | Some m \<Rightarrow> and_then (reject_shared m ''data layout'') (\<lambda>_. and_then (parse_layout (msg_data m) s) (\<lambda>l. Ok (Some l))))"

definition oh_filter_pipeline :: "object_header \<Rightarrow> chunk_filter list result" where
  "oh_filter_pipeline oh =
     (case message_of FilterPipelineMsg oh of
        None \<Rightarrow> Ok []
      | Some m \<Rightarrow> and_then (reject_shared m ''filter pipeline'') (\<lambda>_. parse_pipeline (msg_data m)))"

definition oh_fill_value :: "object_header \<Rightarrow> fill_value result" where
  "oh_fill_value oh =
     (case message_of FillValueMsg oh of
        Some m \<Rightarrow> parse_fill (msg_data m)
      | None \<Rightarrow>
          (case message_of FillValueOldMsg oh of
             Some m \<Rightarrow> parse_fill_old (msg_data m)
           | None \<Rightarrow> Ok None))"

definition oh_link_info :: "object_header \<Rightarrow> sizes \<Rightarrow> link_info option result" where
  "oh_link_info oh s =
     (case message_of LinkInfoMsg oh of
        None \<Rightarrow> Ok None
      | Some m \<Rightarrow> and_then (parse_link_info (msg_data m) s) (\<lambda>l. Ok (Some l)))"

definition oh_symbol_table :: "object_header \<Rightarrow> sizes \<Rightarrow> symbol_table option result" where
  "oh_symbol_table oh s =
     (case message_of SymbolTableMsg oh of
        None \<Rightarrow> Ok None
      | Some m \<Rightarrow> and_then (parse_symbol_table (msg_data m) s) (\<lambda>t. Ok (Some t)))"

definition oh_attribute_info :: "object_header \<Rightarrow> sizes \<Rightarrow> attribute_info option result" where
  "oh_attribute_info oh s =
     (case message_of AttributeInfoMsg oh of
        None \<Rightarrow> Ok None
      | Some m \<Rightarrow> and_then (parse_attribute_info (msg_data m) s) (\<lambda>i. Ok (Some i)))"

definition compact_links :: "object_header \<Rightarrow> sizes \<Rightarrow> link list result" where
  "compact_links oh s = map_result (\<lambda>m. parse_link (msg_data m) s) (messages_of LinkMsg oh)"

text \<open>An attribute that does not parse is set aside with its error; a panic is not caught.\<close>

fun attribute_loop :: "header_message list \<Rightarrow> sizes \<Rightarrow> (attribute list \<times> error list) result" where
  "attribute_loop [] s = Ok ([], [])"
| "attribute_loop (m # ms) s =
     and_then
       (if is_shared m then Ok (Inl (Unsupported ''shared attribute message''))
        else case parse_attribute (msg_data m) s of
          Inr a \<Rightarrow> Ok (Inr a)
        | Inl (Err e) \<Rightarrow> Ok (Inl e)
        | Inl Panic \<Rightarrow> panic) (\<lambda>r.
     and_then (attribute_loop ms s) (\<lambda>(out, errors).
       Ok (case r of Inr a \<Rightarrow> (a # out, errors) | Inl e \<Rightarrow> (out, e # errors))))"

definition compact_attributes :: "object_header \<Rightarrow> sizes \<Rightarrow> (attribute list \<times> error list) result" where
  "compact_attributes oh s = attribute_loop (messages_of AttributeMsg oh) s"

definition is_group :: "object_header \<Rightarrow> bool" where
  "is_group oh \<longleftrightarrow> message_of DataLayoutMsg oh = None \<and>
     (message_of LinkInfoMsg oh \<noteq> None \<or> message_of SymbolTableMsg oh \<noteq> None \<or> message_of GroupInfoMsg oh \<noteq> None)"

definition is_dataset :: "object_header \<Rightarrow> bool" where
  "is_dataset oh \<longleftrightarrow> message_of DataLayoutMsg oh \<noteq> None"

definition is_committed_datatype :: "object_header \<Rightarrow> bool" where
  "is_committed_datatype oh \<longleftrightarrow> message_of DatatypeMsg oh \<noteq> None \<and> message_of DataLayoutMsg oh = None"

section \<open>Encodings\<close>

text \<open>
  A link as the format stores it.  The width \<open>2 ^ w\<close> of the name's length, the presence of the type
  byte and of the character set byte are the writer's choice.
\<close>

fun target_code :: "link_target \<Rightarrow> nat" where
  "target_code (Hard _) = 0"
| "target_code (Soft _) = 1"
| "target_code (External _) = 64"
| "target_code (UnknownLink k _) = k"

fun encode_target :: "sizes \<Rightarrow> link_target \<Rightarrow> bytes" where
  "encode_target s (Hard a) = encode_address s (Some a)"
| "encode_target s (Soft p) = to_le 2 (length p) @ p"
| "encode_target s (External raw) = to_le 2 (length raw) @ raw"
| "encode_target s (UnknownLink k raw) = to_le 2 (length raw) @ raw"

fun link_target_ok :: "sizes \<Rightarrow> link_target \<Rightarrow> bool" where
  "link_target_ok s (Hard a) \<longleftrightarrow> fits_address s (Some a)"
| "link_target_ok s (Soft p) \<longleftrightarrow> valid_utf8 p \<and> length p < 65536"
| "link_target_ok s (External raw) \<longleftrightarrow> length raw < 65536"
| "link_target_ok s (UnknownLink k raw) \<longleftrightarrow> length raw < 65536 \<and> k < 256 \<and> k \<noteq> 0 \<and> k \<noteq> 1 \<and> k \<noteq> 64"

definition link_flags :: "nat \<Rightarrow> bool \<Rightarrow> bool \<Rightarrow> bool \<Rightarrow> nat" where
  "link_flags w order typed charset = w + 4 * of_bool order + 8 * of_bool typed + 16 * of_bool charset"

definition encode_link :: "sizes \<Rightarrow> nat \<Rightarrow> bool \<Rightarrow> byte option \<Rightarrow> link \<Rightarrow> bytes" where
  "encode_link s w typed charset l =
     to_le 1 1 @ to_le 1 (link_flags w (link_order l \<noteq> None) typed (charset \<noteq> None)) @
     (if typed then to_le 1 (target_code (target l)) else []) @
     (case link_order l of None \<Rightarrow> [] | Some v \<Rightarrow> to_le 8 v) @
     (case charset of None \<Rightarrow> [] | Some b \<Rightarrow> [b]) @
     to_le (2 ^ w) (length (link_name l)) @ link_name l @ encode_target s (target l)"

definition link_ok :: "sizes \<Rightarrow> nat \<Rightarrow> bool \<Rightarrow> link \<Rightarrow> bool" where
  "link_ok s w typed l \<longleftrightarrow>
     w < 4 \<and> valid_utf8 (link_name l) \<and> length (link_name l) < 256 ^ 2 ^ w \<and> link_target_ok s (target l) \<and>
     (typed \<or> target_code (target l) = 0) \<and> (\<forall>v. link_order l = Some v \<longrightarrow> v \<le> u64_max)"

lemma link_flags_bits:
  assumes "w < 4"
  shows "link_flags w o' t c mod 4 = w" "link_flags w o' t c div 4 mod 2 \<noteq> 0 \<longleftrightarrow> o'"
    "link_flags w o' t c div 8 mod 2 \<noteq> 0 \<longleftrightarrow> t" "link_flags w o' t c div 16 mod 2 \<noteq> 0 \<longleftrightarrow> c" "link_flags w o' t c < 256"
proof -
  have "w \<in> {0, 1, 2, 3}" using assms by auto
  then show "link_flags w o' t c mod 4 = w" "link_flags w o' t c div 4 mod 2 \<noteq> 0 \<longleftrightarrow> o'"
    "link_flags w o' t c div 8 mod 2 \<noteq> 0 \<longleftrightarrow> t" "link_flags w o' t c div 16 mod 2 \<noteq> 0 \<longleftrightarrow> c" "link_flags w o' t c < 256"
    by (cases o'; cases t; cases c; force simp: link_flags_def)+
qed

lemma reads_if: "reads p xs v \<Longrightarrow> reads q ys v' \<Longrightarrow> reads (if b then p else q) (if b then xs else ys) (if b then v else v')"
  by simp

lemma reads_blob: "length raw < 65536 \<Longrightarrow> f raw = v \<Longrightarrow>
    reads (bind_p u16 (\<lambda>len. bind_p (take_bytes len) (\<lambda>raw. ret_p (f raw)))) (to_le 2 (length raw) @ raw) v"
  by (rule reads_bind [OF reads_u16], assumption, rule reads_bind_last [OF reads_take [OF refl]], simp add: reads_ret)

lemma reads_target:
  assumes "sizes_ok s" "link_target_ok s t"
  shows "reads (parse_target (target_code t) s) (encode_target s t) t"
proof (cases t)
  case (Hard a)
  then show ?thesis using assms
    by (auto simp: parse_target_def sizes_ok_def intro!: reads_bind_last reads_address_required reads_ret)
next
  case (Soft p)
  then show ?thesis using assms reads_blob [of p "\<lambda>raw. Soft (from_utf8_lossy raw)" t]
    by (simp add: parse_target_def from_utf8_lossy_id del: to_le.simps)
next
  case (External raw)
  then show ?thesis using assms reads_blob [of raw "\<lambda>raw. External raw" t]
    by (simp add: parse_target_def del: to_le.simps)
next
  case (UnknownLink k raw)
  then show ?thesis using assms reads_blob [of raw "\<lambda>raw. UnknownLink k raw" t]
    by (simp add: parse_target_def del: to_le.simps)
qed

lemma reads_link:
  assumes s: "sizes_ok s" and ok: "link_ok s w typed l"
  shows "reads (parse_link_at s) (encode_link s w typed charset l) l"
proof -
  let ?o = "link_order l" and ?fl = "link_flags w (link_order l \<noteq> None) typed (charset \<noteq> None)"
  note o = ok [unfolded link_ok_def]
  have b: "?fl mod 4 = w" "(0 < ?fl div 4 mod 2) = (\<exists>y. ?o = Some y)" "(0 < ?fl div 8 mod 2) = typed"
    "(0 < ?fl div 16 mod 2) = (\<exists>y. charset = Some y)" "?fl < 256"
    using link_flags_bits [of w "?o \<noteq> None" typed "charset \<noteq> None"] o by auto
  have w: "(2 :: nat) ^ w \<in> {1, 2, 4, 8}"
  proof -
    have "w \<in> {0, 1, 2, 3}" using o by auto
    then show ?thesis by auto
  qed
  have l: "\<lparr>link_name = link_name l, target = target l, link_order = ?o\<rparr> = l" by simp
  have rest: "reads (bind_p (read_uint (2 ^ w)) (\<lambda>n. bind_p (take_bytes n) (\<lambda>raw. bind_p (parse_target (target_code (target l)) s) (\<lambda>tgt.
        ret_p \<lparr>link_name = from_utf8_lossy raw, target = tgt, link_order = ?o\<rparr>))))
      (to_le (2 ^ w) (length (link_name l)) @ link_name l @ encode_target s (target l)) l"
    by (intro reads_bind [OF reads_uint] reads_bind [OF reads_take] reads_bind_last [OF reads_target [OF s]])
      (use o w in \<open>auto simp: from_utf8_lossy_id l reads_ret\<close>)
  have charset: "reads (if 0 < ?fl div 16 mod 2 then skip 1 else ret_p ()) (case charset of None \<Rightarrow> [] | Some b \<Rightarrow> [b]) ()"
    unfolding b(4) by (cases charset) (auto intro: reads_skip reads_ret)
  have order: "reads (if 0 < ?fl div 4 mod 2 then bind_p u64 (\<lambda>v. ret_p (Some v)) else ret_p None)
      (case ?o of None \<Rightarrow> [] | Some v \<Rightarrow> to_le 8 v) ?o"
    unfolding b(2) using o by (cases ?o) (auto intro!: reads_bind_last reads_u64 reads_ret simp: u64_max_def simp del: to_le.simps)
  have kind: "reads (if 0 < ?fl div 8 mod 2 then u8 else ret_p 0) (if typed then to_le 1 (target_code (target l)) else [])
      (target_code (target l))"
  proof -
    have "target_code (target l) < 256" using o by (cases "target l") auto
    then show ?thesis unfolding b(3) using o by (cases typed) (auto intro: reads_u8 reads_ret simp del: to_le.simps One_nat_def)
  qed
  have fields: "reads (parse_link_fields s ?fl) ((if typed then to_le 1 (target_code (target l)) else []) @
      (case ?o of None \<Rightarrow> [] | Some v \<Rightarrow> to_le 8 v) @ (case charset of None \<Rightarrow> [] | Some b \<Rightarrow> [b]) @
      to_le (2 ^ w) (length (link_name l)) @ link_name l @ encode_target s (target l)) l"
    unfolding parse_link_fields_def b(1) neq0_conv
    by (rule reads_bind [OF kind], rule reads_bind [OF order], rule reads_bind [OF charset], rule rest)
  show ?thesis unfolding parse_link_at_def encode_link_def
    by (rule reads_bind [OF reads_u8]) (use reads_bind [where f = "parse_link_fields s", OF reads_u8 [OF b(5)] fields] in \<open>simp_all del: to_le.simps\<close>)
qed

text \<open>A dataspace of version 2 and an attribute of version 3.\<close>

definition kind_code :: "dataspace_kind \<Rightarrow> nat" where
  "kind_code k = (case k of Scalar \<Rightarrow> 0 | Simple \<Rightarrow> 1 | NullSpace \<Rightarrow> 2)"

definition encode_dims :: "sizes \<Rightarrow> nat list \<Rightarrow> bytes" where
  "encode_dims s ns = concat (map (to_le (length_size s)) ns)"

definition encode_dataspace :: "sizes \<Rightarrow> dataspace \<Rightarrow> bytes" where
  "encode_dataspace s d =
     to_le 1 2 @ to_le 1 (length (dims d)) @ to_le 1 (of_bool (max_dims d \<noteq> None)) @ to_le 1 (kind_code (ds_kind d)) @
     encode_dims s (dims d) @ (case max_dims d of None \<Rightarrow> [] | Some m \<Rightarrow> encode_dims s m)"

definition dataspace_ok :: "sizes \<Rightarrow> dataspace \<Rightarrow> bool" where
  "dataspace_ok s d \<longleftrightarrow> length (dims d) < 256 \<and> (\<forall>n \<in> set (dims d). n < 256 ^ length_size s) \<and>
     (\<forall>m. max_dims d = Some m \<longrightarrow> length m = length (dims d) \<and> (\<forall>n \<in> set m. n < 256 ^ length_size s))"

definition encode_attribute :: "sizes \<Rightarrow> byte \<Rightarrow> attribute \<Rightarrow> bytes" where
  "encode_attribute s charset a =
     to_le 1 3 @ to_le 1 0 @ to_le 2 (length (attr_name a) + 1) @ to_le 2 (length (encode_type (attr_type a))) @
     to_le 2 (length (encode_dataspace s (attr_space a))) @ [charset] @ attr_name a @ [0] @
     encode_type (attr_type a) @ encode_dataspace s (attr_space a) @ attr_data a"

definition attribute_ok :: "sizes \<Rightarrow> attribute \<Rightarrow> bool" where
  "attribute_ok s a \<longleftrightarrow>
     valid_utf8 (attr_name a) \<and> 0 \<notin> set (attr_name a) \<and> length (attr_name a) < 65535 \<and>
     type_ok (attr_type a) \<and> length (encode_type (attr_type a)) < 65536 \<and>
     dataspace_ok s (attr_space a) \<and> length (encode_dataspace s (attr_space a)) < 65536"

lemma reads_dims:
  assumes "sizes_ok s" "\<forall>n \<in> set ns. n < 256 ^ length_size s"
  shows "reads (read_dims (length ns) s) (encode_dims s ns) ns"
  unfolding read_dims_def encode_dims_def read_length_def
  using assms by (intro reads_repeat reads_uint) (auto simp: sizes_ok_def)

lemma reads_dataspace:
  assumes s: "sizes_ok s" and ok: "dataspace_ok s d"
  shows "reads (parse_dataspace_p s) (encode_dataspace s d) d"
proof -
  let ?flags = "of_bool (max_dims d \<noteq> None) :: nat"
  have d: "\<lparr>ds_kind = ds_kind d, dims = dims d, max_dims = max_dims d\<rparr> = d" by simp
  have m: "reads (read_max_dims ?flags (length (dims d)) s) (case max_dims d of None \<Rightarrow> [] | Some m \<Rightarrow> encode_dims s m) (max_dims d)"
  proof (cases "max_dims d")
    case (Some m)
    then have "reads (read_dims (length (dims d)) s) (encode_dims s m) m"
      using reads_dims [OF s, of m] ok by (auto simp: dataspace_ok_def)
    then show ?thesis using Some by (auto simp: read_max_dims_def intro!: reads_bind_last reads_ret)
  qed (simp add: read_max_dims_def reads_ret)
  have tail: "reads (bind_p (read_dims (length (dims d)) s) (\<lambda>ds. bind_p (read_max_dims ?flags (length (dims d)) s) (\<lambda>m.
        ret_p \<lparr>ds_kind = ds_kind d, dims = ds, max_dims = m\<rparr>)))
      (encode_dims s (dims d) @ (case max_dims d of None \<Rightarrow> [] | Some m \<Rightarrow> encode_dims s m)) d"
    by (rule reads_bind [OF reads_dims [OF s]], use ok in \<open>simp add: dataspace_ok_def\<close>, rule reads_bind_last [OF m],
        simp only: d, rule reads_ret)
  have k: "reads (bind_p u8 (\<lambda>k. bind_p (if k = 0 then ret_p Scalar else if k = 1 then ret_p Simple else if k = 2 then ret_p NullSpace
        else fail_p (Malformed ''dataspace type'')) (\<lambda>kind.
        bind_p (read_dims (length (dims d)) s) (\<lambda>ds. bind_p (read_max_dims ?flags (length (dims d)) s) (\<lambda>m.
          ret_p \<lparr>ds_kind = kind, dims = ds, max_dims = m\<rparr>)))))
      (to_le 1 (kind_code (ds_kind d)) @ encode_dims s (dims d) @ (case max_dims d of None \<Rightarrow> [] | Some m \<Rightarrow> encode_dims s m)) d"
    by (rule reads_bind [OF reads_u8])
      (use tail in \<open>cases "ds_kind d"; simp add: kind_code_def del: to_le.simps\<close>)+
  have v2: "reads (parse_dataspace_v2 s) (to_le 1 (length (dims d)) @ to_le 1 ?flags @ to_le 1 (kind_code (ds_kind d)) @
      encode_dims s (dims d) @ (case max_dims d of None \<Rightarrow> [] | Some m \<Rightarrow> encode_dims s m)) d"
    unfolding parse_dataspace_v2_def
    by (rule reads_bind [OF reads_u8], use ok in \<open>simp add: dataspace_ok_def\<close>, rule reads_bind [OF reads_u8], simp, rule k)
  show ?thesis unfolding parse_dataspace_p_def encode_dataspace_def
    by (rule reads_bind [OF reads_u8]) (use v2 in \<open>simp_all del: to_le.simps\<close>)
qed

lemma reads_padded_name_v3:
  assumes "valid_utf8 nm" "0 \<notin> set nm"
  shows "reads (read_padded_name (length nm + 1) 1) (nm @ [0]) nm"
proof -
  have "take (position_or (\<lambda>b. b = 0) (nm @ [0]) (length (nm @ [0]))) (nm @ [0]) = nm"
    unfolding take_position_or using assms(2) by (induction nm) auto
  then show ?thesis unfolding read_padded_name_def
    by (intro reads_bind_last [OF reads_take]) (use reads_ret [of nm] assms in \<open>auto simp: from_utf8_lossy_id\<close>)
qed

definition value_ok :: "attribute \<Rightarrow> bytes \<Rightarrow> value_extent \<Rightarrow> bool" where
  "value_ok a post extent =
     (case extent of
        Rest \<Rightarrow> post = []
      | Computed \<Rightarrow> length (attr_data a) = dataspace_element_count (attr_space a) * dt_size (attr_type a))"

lemma reads_at_value:
  assumes "value_ok a post extent"
  shows "reads_at pre post (take_value (attr_type a) (attr_space a) extent) (attr_data a) (attr_data a)"
proof (cases extent)
  case Rest
  have "reads_at pre [] (take_bytes (length (attr_data a))) (attr_data a) (attr_data a)"
    by (rule reads_at_of_reads [OF reads_take [OF refl]])
  then show ?thesis using assms Rest
    by (simp add: take_value_def value_ok_def reads_at_def bind_p_def get_remaining_def remaining_def)
next
  case Computed
  then have "length (attr_data a) = dataspace_element_count (attr_space a) * dt_size (attr_type a)"
    using assms by (simp add: value_ok_def)
  then show ?thesis using Computed reads_take [OF refl, of "attr_data a"]
    by (auto simp: take_value_def reads_at_def checked_mul_def reads_def isize_max_def u64_max_def)
qed

lemma reads_attribute:
  assumes s: "sizes_ok s" and ok: "attribute_ok s a" and v: "value_ok a post extent"
  shows "reads_at pre post (read_attribute s extent) (encode_attribute s charset a) a"
proof -
  note o = ok [unfolded attribute_ok_def]
  let ?t = "encode_type (attr_type a)" and ?d = "encode_dataspace s (attr_space a)"
  have a: "\<lparr>attr_name = attr_name a, attr_type = attr_type a, attr_space = attr_space a, attr_data = attr_data a\<rparr> = a" by simp
  have t: "parse_datatype ?t = Ok (attr_type a)" using parse_encoded [of "attr_type a" "[]"] o by (simp add: isize_max_def)
  have d: "parse_dataspace ?d s = Ok (attr_space a)"
    using run_p_reads [OF reads_dataspace [OF s], of "attr_space a" "[]"] o by (simp add: parse_dataspace_def isize_max_def)
  have last: "reads_at p post (bind_p (take_value (attr_type a) (attr_space a) extent) (\<lambda>data.
      ret_p \<lparr>attr_name = attr_name a, attr_type = attr_type a, attr_space = attr_space a, attr_data = data\<rparr>)) (attr_data a) a" for p
    using reads_at_value [OF v, of p] a by (simp add: reads_at_def bind_p_def ret_p_def)
  have tail: "reads_at p post (attribute_tail (length (attr_name a) + 1) 1 (length ?t) (length ?d) s extent)
      ((attr_name a @ [0]) @ ?t @ ?d @ attr_data a) a" for p
    unfolding attribute_tail_def
    by (rule reads_at_step [OF reads_padded_name_v3], use o in simp, use o in simp, rule reads_at_step [OF reads_take [OF refl]],
        rule reads_at_lift [OF t], rule reads_at_step [OF reads_take [OF refl]], rule reads_at_lift [OF d], rule last)
  have skip: "reads_at p post (bind_p (if (3 :: nat) = 3 then skip 1 else ret_p ()) (\<lambda>_.
      attribute_tail (length (attr_name a) + 1) 1 (length ?t) (length ?d) s extent))
      ([charset] @ (attr_name a @ [0]) @ ?t @ ?d @ attr_data a) a" for p
    by (rule reads_at_step [where xs = "[charset]"]) (use tail in \<open>simp_all add: reads_skip\<close>)
  have v3: "reads_at p post (parse_attribute_v2_v3 3 s extent)
      (to_le 1 0 @ to_le 2 (length (attr_name a) + 1) @ to_le 2 (length ?t) @ to_le 2 (length ?d) @
       [charset] @ (attr_name a @ [0]) @ ?t @ ?d @ attr_data a) a" for p
    unfolding parse_attribute_v2_v3_def
    by (rule reads_at_step [OF reads_u8], simp, rule reads_at_step [OF reads_u16], use o in simp,
        rule reads_at_step [OF reads_u16], use o in simp, rule reads_at_step [OF reads_u16], use o in simp)
      (use skip in \<open>simp del: to_le.simps\<close>)
  have "reads_at pre post (read_attribute s extent) (to_le 1 3 @ to_le 1 0 @ to_le 2 (length (attr_name a) + 1) @
      to_le 2 (length ?t) @ to_le 2 (length ?d) @ [charset] @ (attr_name a @ [0]) @ ?t @ ?d @ attr_data a) a"
    unfolding read_attribute_def by (rule reads_at_step [OF reads_u8]) (use v3 in \<open>simp_all del: to_le.simps\<close>)
  then show ?thesis by (simp add: encode_attribute_def del: to_le.simps)
qed

section \<open>Committed datatypes\<close>

definition committed_step :: "ctx \<Rightarrow> nat \<Rightarrow> nat \<Rightarrow> bool" where
  "committed_step ctx a b \<longleftrightarrow>
     (\<exists>oh m. read_object_header ctx a = Ok oh \<and> message_of DatatypeMsg oh = Some m \<and> is_shared m \<and>
        shared_address m (ctx_sizes ctx) = Ok b)"

definition committed_here :: "ctx \<Rightarrow> nat \<Rightarrow> hdf_type \<Rightarrow> bool" where
  "committed_here ctx a t \<longleftrightarrow>
     (\<exists>oh m. read_object_header ctx a = Ok oh \<and> message_of DatatypeMsg oh = Some m \<and> \<not> is_shared m \<and>
        parse_datatype (msg_data m) = Ok t)"

lemma follow_committed_step: "committed_step ctx a b \<Longrightarrow> follow_committed (Suc hops) ctx a = follow_committed hops ctx b"
  by (auto simp: committed_step_def)

lemma follow_committed_steps:
  "(committed_step ctx ^^ n) a b \<Longrightarrow> n \<le> hops \<Longrightarrow> follow_committed hops ctx a = follow_committed (hops - n) ctx b"
proof (induction n arbitrary: hops a)
  case (Suc n)
  obtain c where c: "committed_step ctx a c" "(committed_step ctx ^^ n) c b" using relpowp_Suc_D2 [OF Suc.prems(1)] by blast
  then show ?case using Suc.IH [OF c(2), of "hops - 1"] Suc.prems(2) follow_committed_step [OF c(1), of "hops - 1"] by simp
qed simp

lemma message_of_single [simp]:
  "message_of k \<lparr>oh_address = a, oh_version = v, messages = [m]\<rparr> = (if msg_kind m = k then Some m else None)"
  by (simp add: message_of_def)

section \<open>Properties\<close>

text \<open>
  C31.  A link of any kind, with any width of the name's length and any of its optional fields, is
  read back exactly from its encoding, wherever it stands, and the cursor is left behind its last
  byte: links stored back to back are all found.
\<close>

theorem link_round_trip:
  assumes "sizes_ok s" and "link_ok s w typed l" and "length pre + length (encode_link s w typed charset l) + length post \<le> isize_max"
  shows "parse_link_at s \<lparr>buf = pre @ encode_link s w typed charset l @ post, pos = length pre\<rparr> =
    Ok (l, \<lparr>buf = pre @ encode_link s w typed charset l @ post, pos = length pre + length (encode_link s w typed charset l)\<rparr>)"
  using reads_link [OF assms(1,2), of charset] assms(3) by (simp add: reads_def)

theorem link_round_trip_witness:
  "parse_link (encode_link EIGHT 0 True (Some 1) \<lparr>link_name = [108, 97, 116], target = Soft [47, 120], link_order = Some 7\<rparr>) EIGHT =
     Ok \<lparr>link_name = [108, 97, 116], target = Soft [47, 120], link_order = Some 7\<rparr>"
proof -
  let ?l = "\<lparr>link_name = [108, 97, 116], target = Soft [47, 120], link_order = Some 7\<rparr>"
  have "valid_utf8 [108, 97, 116]" "valid_utf8 [47, 120]" by (rule valid_utf8_ascii, auto)+
  then have "link_ok EIGHT 0 True ?l" by (simp add: link_ok_def u64_max_def)
  moreover have "length (encode_link EIGHT 0 True (Some 1) ?l) \<le> isize_max" by (simp add: encode_link_def isize_max_def)
  ultimately show ?thesis
    using link_round_trip [of EIGHT 0 True ?l "[]" "Some 1" "[]"] by (simp add: parse_link_def run_p_def new_cursor_def)
qed

text \<open>
  C32.  An attribute of version 3 with any encodable name, datatype and dataspace is read back
  exactly: as a message body, its value the rest of the body, and in a heap of attributes stored back to
  back, its value as long as datatype and dataspace say.
\<close>

theorem attribute_round_trip:
  assumes "sizes_ok s" and "attribute_ok s a" and "length pre + length (encode_attribute s charset a) + length post \<le> isize_max"
  shows "parse_attribute (encode_attribute s charset a) s = Ok a \<and>
    (length (attr_data a) = attribute_element_count a * dt_size (attr_type a) \<longrightarrow>
     parse_attribute_at s \<lparr>buf = pre @ encode_attribute s charset a @ post, pos = length pre\<rparr> =
       Ok (a, \<lparr>buf = pre @ encode_attribute s charset a @ post, pos = length (pre @ encode_attribute s charset a)\<rparr>))"
proof -
  have "reads_at [] [] (read_attribute s Rest) (encode_attribute s charset a) a"
    by (rule reads_attribute [OF assms(1,2)]) (simp add: value_ok_def)
  then have "parse_attribute (encode_attribute s charset a) s = Ok a"
    using run_p_reads_at [of "[]" "read_attribute s Rest" "encode_attribute s charset a" a] assms(3)
    by (simp add: parse_attribute_def)
  moreover have "reads_at pre post (read_attribute s Computed) (encode_attribute s charset a) a"
    if "length (attr_data a) = attribute_element_count a * dt_size (attr_type a)"
    by (rule reads_attribute [OF assms(1,2)]) (use that in \<open>simp add: value_ok_def attribute_element_count_def\<close>)
  ultimately show ?thesis using assms(3) by (simp add: parse_attribute_at_def reads_at_def)
qed

definition example_attribute :: attribute where
  "example_attribute = \<lparr>attr_name = [117], attr_type = Datatype 1 2 (FixedPoint Little True 0 16),
     attr_space = \<lparr>ds_kind = Simple, dims = [2], max_dims = None\<rparr>, attr_data = [1, 2, 3, 4]\<rparr>"

theorem attribute_round_trip_witness:
  "parse_attribute (encode_attribute EIGHT 0 example_attribute) EIGHT = Ok example_attribute"
proof -
  have "valid_utf8 [117]" by (rule valid_utf8_ascii) simp
  then have "attribute_ok EIGHT example_attribute"
    by (simp add: attribute_ok_def example_attribute_def dataspace_ok_def encode_dataspace_def encode_dims_def EIGHT_def)
  moreover have "length ([] :: bytes) + length (encode_attribute EIGHT 0 example_attribute) + length ([] :: bytes) \<le> isize_max"
    by (simp add: encode_attribute_def example_attribute_def encode_dataspace_def encode_dims_def EIGHT_def isize_max_def)
  ultimately show ?thesis using attribute_round_trip [of EIGHT example_attribute "[]" 0 "[]"] by simp
qed

text \<open>
  A datatype committed at the end of a chain of fewer than eight pointers is found; a longer
  chain, and so every cycle, is reported as damage instead of being followed for ever.
\<close>

theorem committed_chain_bounded:
  assumes "(committed_step ctx ^^ n) a b"
  shows "(n < MAX_SHARED_HOPS \<and> committed_here ctx b t \<longrightarrow> follow_committed MAX_SHARED_HOPS ctx a = Ok (Some t)) \<and>
    (MAX_SHARED_HOPS \<le> n \<longrightarrow> follow_committed MAX_SHARED_HOPS ctx a =
       Error (Malformed ''committed datatype chain is too long; the file may be cyclic''))"
proof (intro conjI impI)
  assume "n < MAX_SHARED_HOPS \<and> committed_here ctx b t"
  moreover from this obtain hops where "MAX_SHARED_HOPS - n = Suc hops" by (cases "MAX_SHARED_HOPS - n") auto
  ultimately show "follow_committed MAX_SHARED_HOPS ctx a = Ok (Some t)"
    using follow_committed_steps [OF assms, of MAX_SHARED_HOPS] by (auto simp: committed_here_def)
next
  assume n: "MAX_SHARED_HOPS \<le> n"
  then obtain c where "(committed_step ctx ^^ MAX_SHARED_HOPS) a c"
    using assms relpowp_add [of MAX_SHARED_HOPS "n - MAX_SHARED_HOPS" "committed_step ctx"] by auto
  from follow_committed_steps [OF this order_refl]
  show "follow_committed MAX_SHARED_HOPS ctx a = Error (Malformed ''committed datatype chain is too long; the file may be cyclic'')"
    by simp
qed

definition self_pointer :: header_message where
  "self_pointer = \<lparr>msg_kind = DatatypeMsg, msg_flags = 2, creation_order = None, msg_data = [2, 2] @ to_le 8 0\<rparr>"

definition cyclic_file :: bytes where
  "cyclic_file = ohdr_block 0 [] [] (chunk_body EIGHT False [self_pointer] None)"

theorem committed_chain_bounded_witness:
  "follow_committed MAX_SHARED_HOPS (new_ctx (memory_source cyclic_file) example_superblock) 0 =
     Error (Malformed ''committed datatype chain is too long; the file may be cyclic'')"
proof -
  let ?ctx = "new_ctx (memory_source cyclic_file) example_superblock"
  have len: "length (chunk_body EIGHT False [self_pointer] None) = 14"
    by (simp add: chunk_body_def encode_frame_def self_pointer_def)
  have small: "length cyclic_file \<le> isize_max"
    by (simp add: cyclic_file_def ohdr_block_def with_checksum_def length_ohdr_prefix len isize_max_def)
  have enc: "encodable False self_pointer" "msg_kind self_pointer = DatatypeMsg"
    by (simp_all add: encodable_def framed_def self_pointer_def code_of_def position_or_def known_types_def from_code_def)
  have "stored_header ?ctx cyclic_file 0 0 [] [] [self_pointer] []"
    using memory_stored [of cyclic_file "[]" cyclic_file "[]" 0] small enc len
    by (simp add: stored_header_def cyclic_file_def MAX_CONTINUATION_BLOCKS_def)
  then have oh: "read_object_header ?ctx 0 = Ok \<lparr>oh_address = 0, oh_version = 2, messages = [self_pointer]\<rparr>"
    using reader.read_stored_header [OF memory_reader [OF small]] enc(2) by (simp add: prefix_len_def visible_def)
  have "reads (parse_shared_p EIGHT) (to_le 1 2 @ to_le 1 2 @ encode_address EIGHT (Some 0)) \<lparr>sm_version = 2, sm_location = Committed 0\<rparr>"
    unfolding parse_shared_p_def
    by (rule reads_bind [OF reads_u8], simp, rule reads_bind [OF reads_u8], simp)
      (auto simp: EIGHT_def fits_address_def undefined_for_width_def u64_max_def intro!: reads_bind_last reads_address_required reads_ret)
  from run_p_reads [OF this, of "[]"] have "parse_shared (msg_data self_pointer) EIGHT = Ok \<lparr>sm_version = 2, sm_location = Committed 0\<rparr>"
    by (simp add: parse_shared_def self_pointer_def encode_address_def EIGHT_def isize_max_def)
  then have "committed_step ?ctx 0 0"
    using oh enc(2) by (simp add: committed_step_def shared_address_def committed_address_def) (simp add: is_shared_def self_pointer_def)
  then have "(committed_step ?ctx ^^ n) 0 0" for n by (induction n) auto
  then show ?thesis using committed_chain_bounded [of MAX_SHARED_HOPS ?ctx 0 0] by simp
qed

end
