(* ===== verification/Fractal_Heap.thy ===== *)
theory Fractal_Heap
  imports Object_Messages
begin

text \<open>
  Fractal heaps (\<^verbatim>\<open>fractal.rs\<close>) and the links and attributes stored in them (\<^verbatim>\<open>dense.rs\<close>): the
  checksummed header, direct blocks and the tree of indirect blocks over them, lookup by heap ID,
  the sequential walk that checks itself against the header's count, and the fall-back to the
  version 2 B-tree that names the records of a heap with gaps.
\<close>

section \<open>The header\<close>

definition FRHP_SIGNATURE :: bytes where
  "FRHP_SIGNATURE = [0x46, 0x52, 0x48, 0x50]"

definition FHDB_SIGNATURE :: bytes where
  "FHDB_SIGNATURE = [0x46, 0x48, 0x44, 0x42]"

definition FHIB_SIGNATURE :: bytes where
  "FHIB_SIGNATURE = [0x46, 0x48, 0x49, 0x42]"

definition MAX_BLOCKS :: nat where
  "MAX_BLOCKS = 2 ^ 20"

record heap_header =
  hh_address :: nat
  hh_id_len :: nat
  hh_flags :: nat
  hh_filter_len :: nat
  hh_managed :: nat
  table_width :: nat
  starting_block_size :: nat
  max_direct_block_size :: nat
  block_offset_size :: nat
  root_block :: "nat option"
  root_rows :: nat

definition skip_lengths :: "nat \<Rightarrow> sizes \<Rightarrow> unit parser" where
  "skip_lengths n s = bind_p (repeat_p n (read_length s)) (\<lambda>_. ret_p ())"

definition heap_header_fields :: "nat \<Rightarrow> sizes \<Rightarrow> (heap_header \<times> nat \<times> nat) parser" where
  "heap_header_fields address s =
     bind_p (take_bytes 4) (\<lambda>sig.
       if sig \<noteq> FRHP_SIGNATURE then fail_p (Malformed ''fractal heap header is missing its FRHP signature'')
       else bind_p u8 (\<lambda>ver.
         if ver \<noteq> 0 then fail_p (Unsupported ''fractal heap header version'')
         else bind_p u16 (\<lambda>id_len. bind_p u16 (\<lambda>filter_len. bind_p u8 (\<lambda>flags. bind_p u32 (\<lambda>_.
           bind_p (read_length s) (\<lambda>_. bind_p (read_address s) (\<lambda>_. bind_p (read_length s) (\<lambda>_. bind_p (read_address s) (\<lambda>_.
           bind_p (skip_lengths 3 s) (\<lambda>_. bind_p (read_length s) (\<lambda>managed. bind_p (skip_lengths 4 s) (\<lambda>_.
           bind_p u16 (\<lambda>width. bind_p (read_length s) (\<lambda>start_size. bind_p (read_length s) (\<lambda>max_size.
           bind_p u16 (\<lambda>bits. bind_p u16 (\<lambda>_. bind_p (read_address s) (\<lambda>rt. bind_p u16 (\<lambda>nrows.
           bind_p (if filter_len > 0
                   then bind_p (read_length s) (\<lambda>_. bind_p u32 (\<lambda>_. skip filter_len)) else ret_p ()) (\<lambda>_.
           bind_p get_pos (\<lambda>checksum_pos. bind_p u32 (\<lambda>stored.
             ret_p (\<lparr>hh_address = address, hh_id_len = id_len, hh_flags = flags, hh_filter_len = filter_len,
                     hh_managed = managed, table_width = width, starting_block_size = start_size,
                     max_direct_block_size = max_size, block_offset_size = div_ceil bits 8,
                     root_block = rt, root_rows = nrows\<rparr>, checksum_pos, stored))))))))))))))))))))))))"

definition read_heap_header :: "ctx \<Rightarrow> nat \<Rightarrow> heap_header result" where
  "read_heap_header ctx address =
     (let s = ctx_sizes ctx; osz = offset_size s; l = length_size s;
          max_len = 4 + 1 + 2 + 2 + 1 + 4 + l + osz + l + osz + l * 8 + 2 + l * 2 + 2 + 2 + osz + 2 + l + 4 + 4 in
      and_then (ctx_read_upto ctx address max_len) (\<lambda>b.
      and_then (run_p (heap_header_fields address s) b) (\<lambda>(h, checksum_pos, stored).
        let computed = metadata (take checksum_pos b) in
        if word_of_nat stored \<noteq> computed
        then Error (ChecksumMismatch ''fractal heap header'' (word_of_nat stored) computed)
        else if table_width h = 0 \<or> starting_block_size h = 0
        then Error (Malformed ''fractal heap header declares a zero table width or block size'')
        else Ok h)))"

text \<open>The shift drops bits off the top and panics for 64 places or more.\<close>

definition row_block_size :: "heap_header \<Rightarrow> nat \<Rightarrow> nat result" where
  "row_block_size h row =
     (if row < 2 then Ok (starting_block_size h)
      else if row - 1 \<ge> 64 then panic
      else Ok (starting_block_size h * 2 ^ (row - 1) mod 2 ^ 64))"

function direct_rows_from :: "heap_header \<Rightarrow> nat \<Rightarrow> nat result" where
  "direct_rows_from h row =
     (if row < 65535 then
        and_then (row_block_size h row) (\<lambda>size.
          if size \<le> max_direct_block_size h then direct_rows_from h (row + 1) else Ok row)
      else Ok row)"
  by auto
termination by (relation "measure (\<lambda>(h, row). 65535 - row)") auto

declare direct_rows_from.simps [simp del]

definition max_direct_rows :: "heap_header \<Rightarrow> nat result" where
  "max_direct_rows h = direct_rows_from h 0"

definition checksums_blocks :: "heap_header \<Rightarrow> bool" where
  "checksums_blocks h \<longleftrightarrow> hh_flags h div 2 mod 2 \<noteq> 0"

definition direct_block_header_len :: "heap_header \<Rightarrow> sizes \<Rightarrow> nat" where
  "direct_block_header_len h s =
     4 + 1 + offset_size s + block_offset_size h + (if checksums_blocks h then 4 else 0)"

section \<open>Blocks\<close>

type_synonym heap_blocks = "(nat \<times> bytes) list"

definition block_prefix_p :: "bytes \<Rightarrow> string \<Rightarrow> heap_header \<Rightarrow> sizes \<Rightarrow> unit parser" where
  "block_prefix_p signature what h s =
     bind_p (take_bytes 4) (\<lambda>sig.
       if sig \<noteq> signature then fail_p (Malformed (what @ '' is missing its signature''))
       else bind_p u8 (\<lambda>ver.
         if ver \<noteq> 0 then fail_p (Unsupported (what @ '' version''))
         else bind_p (address_required s (what @ '' heap header'')) (\<lambda>a.
           if a \<noteq> hh_address h then fail_p (Malformed (what @ '' points at a different heap header''))
           else ret_p ())))"

definition verify_direct_block :: "bytes \<Rightarrow> unit parser" where
  "verify_direct_block block =
     bind_p get_pos (\<lambda>checksum_pos. bind_p u32 (\<lambda>stored.
       let scratch = take checksum_pos block @ replicate 4 0 @ drop (checksum_pos + 4) block; computed = metadata scratch in
       if word_of_nat stored \<noteq> computed
       then fail_p (ChecksumMismatch ''fractal heap direct block'' (word_of_nat stored) computed) else ret_p ()))"

definition direct_block_offset :: "heap_header \<Rightarrow> sizes \<Rightarrow> bytes \<Rightarrow> nat parser" where
  "direct_block_offset h s block =
     bind_p (block_prefix_p FHDB_SIGNATURE ''fractal heap direct block'' h s) (\<lambda>_.
     bind_p (read_uint (block_offset_size h mod 256)) (\<lambda>off.
     bind_p (if checksums_blocks h then verify_direct_block block else ret_p ()) (\<lambda>_. ret_p off)))"

definition read_direct_block :: "ctx \<Rightarrow> heap_header \<Rightarrow> nat \<Rightarrow> nat \<Rightarrow> heap_blocks \<Rightarrow> heap_blocks result" where
  "read_direct_block ctx h address block_size out =
     (if length out > MAX_BLOCKS
      then Error (Malformed ''fractal heap has implausibly many blocks; the file may be cyclic'')
      else
        and_then (ctx_read ctx address block_size) (\<lambda>block.
        and_then (run_p (direct_block_offset h (ctx_sizes ctx) block) block) (\<lambda>off.
          let payload_start = direct_block_header_len h (ctx_sizes ctx) in
          if payload_start > length block
          then Error (Malformed ''fractal heap direct block is smaller than its own header'')
          else and_then (add64 off payload_start) (\<lambda>at. Ok (out @ [(at, drop payload_start block)])))))"

text \<open>The child pointers of an indirect block are read before the first child is followed: the block is exactly as long as they need.\<close>

definition verify_indirect_block :: "bytes \<Rightarrow> unit result" where
  "verify_indirect_block block =
     (let checksum_pos = length block - 4; stored = word_of_nat (le_nat (slice checksum_pos 4 block));
          computed = metadata (take checksum_pos block)
      in if stored \<noteq> computed then Error (ChecksumMismatch ''fractal heap indirect block'' stored computed) else Ok ())"

definition indirect_children ::
  "heap_header \<Rightarrow> sizes \<Rightarrow> bytes \<Rightarrow> nat \<Rightarrow> nat \<Rightarrow> (nat option list \<times> nat option list) parser" where
  "indirect_children h s block direct_entries indirect_entries =
     bind_p (block_prefix_p FHIB_SIGNATURE ''fractal heap indirect block'' h s) (\<lambda>_.
     bind_p (skip (block_offset_size h)) (\<lambda>_.
     bind_p (lift_p (verify_indirect_block block)) (\<lambda>_.
     bind_p (repeat_p direct_entries (read_address s)) (\<lambda>direct.
     bind_p (repeat_p indirect_entries (read_address s)) (\<lambda>indirect. ret_p (direct, indirect))))))"

fun read_indirect_block :: "nat \<Rightarrow> ctx \<Rightarrow> heap_header \<Rightarrow> nat \<Rightarrow> nat \<Rightarrow> heap_blocks \<Rightarrow> heap_blocks result" where
  "read_indirect_block 0 ctx h address nrows out =
     Error (Malformed ''fractal heap indirect blocks nest too deeply; the file may be cyclic'')"
| "read_indirect_block (Suc levels) ctx h address nrows out =
     and_then (max_direct_rows h) (\<lambda>mdr.
       let s = ctx_sizes ctx;
           direct_entries = min nrows mdr * table_width h;
           indirect_entries = (nrows - mdr) * table_width h;
           block_len = 4 + 1 + offset_size s + block_offset_size h + direct_entries * offset_size s
             + indirect_entries * offset_size s + 4 in
       and_then (ctx_read ctx address block_len) (\<lambda>block.
       and_then (run_p (indirect_children h s block direct_entries indirect_entries) block) (\<lambda>(direct, indirect).
       and_then (fold_result (\<lambda>(entry, child) out.
           case child of
             None \<Rightarrow> Ok out
           | Some a \<Rightarrow> and_then (row_block_size h (entry div table_width h)) (\<lambda>size. read_direct_block ctx h a size out))
         (enumerate 0 direct) out) (\<lambda>out.
       fold_result (\<lambda>(entry, child) out.
           case child of
             None \<Rightarrow> Ok out
           | Some a \<Rightarrow>
               let row = mdr + entry div table_width h; child_rows = (row - mdr) + 1
               in read_indirect_block levels ctx h a child_rows out)
         (enumerate 0 indirect) out))))"

text \<open>A depth above 64 is refused, so 65 levels are read.\<close>

definition MAX_DEPTH :: nat where
  "MAX_DEPTH = 65"

section \<open>The heap\<close>

record fractal_heap =
  heap_blocks :: heap_blocks
  managed_object_count :: nat
  heap_id_len :: nat
  heap_offset_size :: nat

definition heap_root_blocks :: "ctx \<Rightarrow> heap_header \<Rightarrow> heap_blocks result" where
  "heap_root_blocks ctx h =
     (case root_block h of
        None \<Rightarrow> Ok []
      | Some rt \<Rightarrow>
          if root_rows h = 0 then read_direct_block ctx h rt (starting_block_size h) []
          else read_indirect_block MAX_DEPTH ctx h rt (root_rows h) [])"

definition read_fractal_heap :: "ctx \<Rightarrow> nat \<Rightarrow> fractal_heap result" where
  "read_fractal_heap ctx address =
     and_then (read_heap_header ctx address) (\<lambda>h.
       if hh_filter_len h > 0 then Error (Unsupported ''fractal heap with filtered direct blocks'')
       else and_then (heap_root_blocks ctx h) (\<lambda>blocks.
         Ok \<lparr>heap_blocks = sort_key fst blocks, managed_object_count = hh_managed h, heap_id_len = hh_id_len h,
             heap_offset_size = block_offset_size h\<rparr>))"

definition block_payloads :: "fractal_heap \<Rightarrow> bytes list" where
  "block_payloads heap = map snd (heap_blocks heap)"

fun find_managed :: "heap_blocks \<Rightarrow> nat \<Rightarrow> nat \<Rightarrow> bytes result" where
  "find_managed [] off len = Error (Malformed ''fractal heap offset falls in no direct block'')"
| "find_managed ((block_offset, payload) # blocks) off len =
     and_then (add64 block_offset (length payload)) (\<lambda>fin.
       if off \<ge> block_offset \<and> off < fin then
         let start = off - block_offset in
         and_then (add64 start len) (\<lambda>stop.
           if stop > length payload then Error (Malformed ''fractal heap object runs past the end of its direct block'')
           else Ok (slice start len payload))
       else find_managed blocks off len)"

definition heap_get :: "fractal_heap \<Rightarrow> bytes \<Rightarrow> bytes result" where
  "heap_get heap heap_id =
     (if length heap_id < heap_id_len heap then Error (Malformed ''heap ID is too short for this heap'')
      else and_then (index_at heap_id 0) (\<lambda>first.
        if unat first div 16 mod 4 \<noteq> 0 then Error (Unsupported ''fractal heap object of a class other than managed'')
        else and_then (sub64 (heap_id_len heap) 1) (\<lambda>n. and_then (sub64 n (heap_offset_size heap)) (\<lambda>length_size.
          and_then (bind_p (read_uint (heap_offset_size heap mod 256)) (\<lambda>off.
              bind_p (read_uint (length_size mod 256)) (\<lambda>len. ret_p (off, len))) (cursor_at heap_id 1)) (\<lambda>((off, len), _).
            find_managed (heap_blocks heap) off len)))))"

definition walk_indexed :: "fractal_heap \<Rightarrow> btree_v2 \<Rightarrow> (bytes \<Rightarrow> bytes result) \<Rightarrow> 't parser \<Rightarrow> 't list result" where
  "walk_indexed heap tree heap_id_of parse =
     map_result (\<lambda>record.
       and_then (heap_id_of record) (\<lambda>heap_id. and_then (heap_get heap heap_id) (\<lambda>b. run_p parse b)))
     (btree_records tree)"

text \<open>Every round of the walk pushes a record, so the header's count bounds the rounds.\<close>

function walk_block :: "nat \<Rightarrow> 't parser \<Rightarrow> cursor \<Rightarrow> 't list \<Rightarrow> 't list result" where
  "walk_block managed parse c out =
     (if remaining c > 0 \<and> length out < managed then
        and_then (peek 1 c) (\<lambda>b. and_then (index_at b 0) (\<lambda>first.
          if first = 0 then Ok out
          else case parse c of
            Inl Panic \<Rightarrow> panic
          | Inl (Err e) \<Rightarrow> Error (Malformed ''failed to parse a fractal heap record'')
          | Inr (v, c') \<Rightarrow>
              if pos c' = pos c then Error (Malformed ''record parser consumed no bytes; refusing to loop'')
              else walk_block managed parse c' (out @ [v])))
      else Ok out)"
  by pat_completeness auto
termination by (relation "measure (\<lambda>(managed, parse, c, out). managed - length out)") auto

declare walk_block.simps [simp del]

definition walk_lenient :: "fractal_heap \<Rightarrow> 't parser \<Rightarrow> ('t list \<times> bool) result" where
  "walk_lenient heap parse =
     and_then (fold_result (\<lambda>block out. walk_block (managed_object_count heap) parse (new_cursor block) out)
         (block_payloads heap) []) (\<lambda>out.
       Ok (out, length out = managed_object_count heap))"

definition heap_walk :: "fractal_heap \<Rightarrow> 't parser \<Rightarrow> 't list result" where
  "heap_walk heap parse =
     and_then (walk_lenient heap parse) (\<lambda>(out, complete).
       if \<not> complete then Error (Unsupported ''fractal heap walk found fewer records than the header counts'') else Ok out)"

section \<open>Dense storage\<close>

definition LINK_RECORD_HEAP_ID_OFFSET :: nat where
  "LINK_RECORD_HEAP_ID_OFFSET = 4"

definition ATTRIBUTE_RECORD_HEAP_ID_OFFSET :: nat where
  "ATTRIBUTE_RECORD_HEAP_ID_OFFSET = 0"

definition heap_id_at :: "nat \<Rightarrow> bytes \<Rightarrow> bytes result" where
  "heap_id_at off record = slice_range record off (length record)"

definition read_dense_links :: "ctx \<Rightarrow> nat \<Rightarrow> nat option \<Rightarrow> link list result" where
  "read_dense_links ctx heap_addr name_btree =
     and_then (read_fractal_heap ctx heap_addr) (\<lambda>heap.
     and_then (walk_lenient heap (parse_link_at (ctx_sizes ctx))) (\<lambda>(links, complete).
       if complete then Ok links
       else case name_btree of
         None \<Rightarrow> Error (Malformed ''a link heap has gaps but the group records no name index'')
       | Some a \<Rightarrow>
           and_then (read_btree2 ctx a) (\<lambda>tree.
             walk_indexed heap tree (heap_id_at LINK_RECORD_HEAP_ID_OFFSET) (parse_link_at (ctx_sizes ctx)))))"

definition read_dense_attributes :: "ctx \<Rightarrow> nat \<Rightarrow> nat option \<Rightarrow> sizes \<Rightarrow> (attribute list \<times> bool) result" where
  "read_dense_attributes ctx heap_addr name_btree s =
     and_then (read_fractal_heap ctx heap_addr) (\<lambda>heap.
     and_then (walk_lenient heap (parse_attribute_at s)) (\<lambda>(attributes, complete).
       if complete then Ok (attributes, True)
       else case name_btree of
         None \<Rightarrow> Ok (attributes, False)
       | Some a \<Rightarrow>
           and_then (read_btree2 ctx a) (\<lambda>tree.
             case walk_indexed heap tree (heap_id_at ATTRIBUTE_RECORD_HEAP_ID_OFFSET) (parse_attribute_at s) of
               Inr indexed \<Rightarrow> Ok (indexed, True)
             | Inl Panic \<Rightarrow> panic
             | Inl (Err e) \<Rightarrow> if e = Incomplete then Error Incomplete else Ok (attributes, False))))"

section \<open>The sequential walk\<close>

text \<open>A block filled with records back to back, zeroes behind them, yields its records as far as the count allows.\<close>

definition holds_records :: "'t parser \<Rightarrow> (bytes \<times> 't) list \<Rightarrow> bytes \<Rightarrow> bool" where
  "holds_records parse rs payload \<longleftrightarrow>
     (\<exists>pad. payload = concat (map fst rs) @ replicate pad 0) \<and> length payload \<le> isize_max \<and>
     (\<forall>(enc, v) \<in> set rs. reads parse enc v \<and> enc \<noteq> [] \<and> hd enc \<noteq> 0)"

lemma peek_one:
  assumes "length pre < length b" "length b \<le> isize_max"
  shows "peek 1 \<lparr>buf = b, pos = length pre\<rparr> = Ok [b ! length pre]"
  using assms by (simp add: peek_def checked_add_def u64_max_def isize_max_def slice_range_def slice_def take_Suc_conv_app_nth
      hd_drop_conv_nth drop_Suc take_Suc Cons_nth_drop_Suc [symmetric])

lemma walk_block_records:
  assumes "\<forall>(enc, v) \<in> set rs. reads parse enc v \<and> enc \<noteq> [] \<and> hd enc \<noteq> 0"
  shows "length (pre @ concat (map fst rs) @ replicate pad 0) \<le> isize_max \<Longrightarrow>
    walk_block managed parse \<lparr>buf = pre @ concat (map fst rs) @ replicate pad 0, pos = length pre\<rparr> out =
      Ok (out @ take (managed - length out) (map snd rs))"
  using assms
proof (induction rs arbitrary: pre out)
  case Nil
  show ?case
  proof (cases "pad > 0 \<and> length out < managed")
    case True
    then show ?thesis using Nil peek_one [of pre "pre @ replicate pad 0"]
      by (subst walk_block.simps) (simp add: remaining_def nth_append index_at_def)
  next
    case False
    then show ?thesis by (subst walk_block.simps) (auto simp: remaining_def)
  qed
next
  case (Cons r rs)
  obtain enc v where r: "r = (enc, v)" by fastforce
  have e: "reads parse enc v" "enc \<noteq> []" "hd enc \<noteq> 0" using Cons.prems(2) r by auto
  let ?b = "pre @ enc @ concat (map fst rs) @ replicate pad 0"
  have len: "length ?b \<le> isize_max" using Cons.prems(1) r by simp
  show ?case
  proof (cases "length out < managed")
    case True
    have "parse \<lparr>buf = ?b, pos = length pre\<rparr> = Ok (v, \<lparr>buf = ?b, pos = length pre + length enc\<rparr>)"
      using e(1) [unfolded reads_def, rule_format, of pre "concat (map fst rs) @ replicate pad 0"] len by simp
    moreover have "peek 1 \<lparr>buf = ?b, pos = length pre\<rparr> = Ok [hd enc]"
      using peek_one [of pre ?b] len e(2) by (simp add: nth_append hd_conv_nth)
    moreover have "walk_block managed parse \<lparr>buf = ?b, pos = length pre + length enc\<rparr> (out @ [v]) =
        Ok (out @ [v] @ take (managed - Suc (length out)) (map snd rs))"
      using Cons.IH [of "pre @ enc" "out @ [v]"] Cons.prems r by simp
    moreover have "managed - length out = Suc (managed - Suc (length out))" using True by simp
    ultimately show ?thesis using e(2,3) True r
      by (subst walk_block.simps) (simp add: remaining_def index_at_def)
  next
    case False
    then show ?thesis by (subst walk_block.simps) simp
  qed
qed

lemma walk_blocks_records:
  "list_all2 (holds_records parse) rss payloads \<Longrightarrow>
   fold_result (\<lambda>block out. walk_block managed parse (new_cursor block) out) payloads out =
     Ok (out @ take (managed - length out) (concat (map (map snd) rss)))"
proof (induction rss payloads arbitrary: out rule: list_all2_induct)
  case (Cons rs rss payload payloads)
  obtain pad where p: "payload = concat (map fst rs) @ replicate pad 0" "length payload \<le> isize_max"
    "\<forall>(enc, v) \<in> set rs. reads parse enc v \<and> enc \<noteq> [] \<and> hd enc \<noteq> 0"
    using Cons.hyps(1) by (auto simp: holds_records_def)
  have "walk_block managed parse (new_cursor payload) out = Ok (out @ take (managed - length out) (map snd rs))"
    using walk_block_records [OF p(3), of "[]" pad managed out] p(1,2) by (simp add: new_cursor_def)
  then show ?case using Cons.IH by (simp add: take_append) (simp add: min_def)
qed simp

lemma walk_lenient_records:
  assumes "list_all2 (holds_records parse) rss (block_payloads heap)"
  shows "walk_lenient heap parse =
    (let rs = take (managed_object_count heap) (concat (map (map snd) rss)) in Ok (rs, length rs = managed_object_count heap))"
  using walk_blocks_records [OF assms, of "managed_object_count heap" "[]"] by (simp add: walk_lenient_def Let_def)

section \<open>Stored heaps\<close>

text \<open>
  A heap as the format stores it: the header with the fields the reader passes over, direct blocks,
  and an indirect root block over rows of direct blocks.
\<close>

record heap_misc =
  max_managed :: nat
  lengths_before :: "nat list"
  huge_btree :: "nat option"
  free_manager :: "nat option"
  lengths_managed :: "nat list"
  lengths_after :: "nat list"
  heap_bits :: nat
  starting_rows :: nat

definition misc_ok :: "sizes \<Rightarrow> heap_misc \<Rightarrow> bool" where
  "misc_ok s m \<longleftrightarrow> max_managed m < 4294967296 \<and> length (lengths_before m) = 2 \<and> length (lengths_managed m) = 3 \<and>
     length (lengths_after m) = 4 \<and> (\<forall>n \<in> set (lengths_before m @ lengths_managed m @ lengths_after m). n < 256 ^ length_size s) \<and>
     fits_address s (huge_btree m) \<and> fits_address s (free_manager m) \<and> heap_bits m < 65536 \<and> starting_rows m < 65536"

definition header_ok :: "sizes \<Rightarrow> heap_misc \<Rightarrow> heap_header \<Rightarrow> bool" where
  "header_ok s m h \<longleftrightarrow> hh_id_len h < 65536 \<and> hh_flags h < 256 \<and> hh_filter_len h = 0 \<and> hh_managed h < 256 ^ length_size s \<and>
     0 < table_width h \<and> table_width h < 65536 \<and> 0 < starting_block_size h \<and> starting_block_size h < 256 ^ length_size s \<and>
     max_direct_block_size h < 256 ^ length_size s \<and> block_offset_size h = div_ceil (heap_bits m) 8 \<and>
     fits_address s (root_block h) \<and> root_rows h < 65536 \<and> fits_address s (Some (hh_address h)) \<and>
     0 < block_offset_size h \<and> block_offset_size h \<le> 8"

definition heap_header_body :: "sizes \<Rightarrow> heap_misc \<Rightarrow> heap_header \<Rightarrow> bytes" where
  "heap_header_body s m h =
     FRHP_SIGNATURE @ to_le 1 0 @ to_le 2 (hh_id_len h) @ to_le 2 0 @ to_le 1 (hh_flags h) @ to_le 4 (max_managed m) @
     to_le (length_size s) (lengths_before m ! 0) @ encode_address s (huge_btree m) @
     to_le (length_size s) (lengths_before m ! 1) @ encode_address s (free_manager m) @
     encode_dims s (lengths_managed m) @ to_le (length_size s) (hh_managed h) @ encode_dims s (lengths_after m) @
     to_le 2 (table_width h) @ to_le (length_size s) (starting_block_size h) @ to_le (length_size s) (max_direct_block_size h) @
     to_le 2 (heap_bits m) @ to_le 2 (starting_rows m) @ encode_address s (root_block h) @ to_le 2 (root_rows h)"

lemma reads_length: "sizes_ok s \<Longrightarrow> n < 256 ^ length_size s \<Longrightarrow> reads (read_length s) (to_le (length_size s) n) n"
  unfolding read_length_def by (rule reads_uint) (auto simp: sizes_ok_def)

lemma reads_skip_lengths:
  assumes "sizes_ok s" "length ns = n" "\<forall>x \<in> set ns. x < 256 ^ length_size s"
  shows "reads (skip_lengths n s) (encode_dims s ns) ()"
  unfolding skip_lengths_def encode_dims_def assms(2) [symmetric]
  using assms(1,3) by (intro reads_bind_last [OF reads_repeat reads_ret] reads_length) auto

lemma reads_addr: "sizes_ok s \<Longrightarrow> fits_address s a \<Longrightarrow> reads (read_address s) (encode_address s a) a"
  by (rule reads_address) (auto simp: sizes_ok_def)

lemma reads_heap_header:
  assumes s: "sizes_ok s" and m: "misc_ok s m" and h: "header_ok s m h" and c: "stored < 4294967296"
  shows "reads_at [] post (heap_header_fields (hh_address h) s) (heap_header_body s m h @ to_le 4 stored)
    (h, length (heap_header_body s m h), stored)"
proof -
  note mo = m [unfolded misc_ok_def] and ho = h [unfolded header_ok_def]
  have lb: "lengths_before m ! 0 < 256 ^ length_size s" "lengths_before m ! 1 < 256 ^ length_size s"
    using mo nth_mem [of 0 "lengths_before m"] nth_mem [of 1 "lengths_before m"] by auto
  have lm: "\<forall>x \<in> set (lengths_managed m). x < 256 ^ length_size s" "\<forall>x \<in> set (lengths_after m). x < 256 ^ length_size s"
    using mo by auto
  have hh: "\<lparr>hh_address = hh_address h, hh_id_len = hh_id_len h, hh_flags = hh_flags h, hh_filter_len = 0, hh_managed = hh_managed h,
      table_width = table_width h, starting_block_size = starting_block_size h, max_direct_block_size = max_direct_block_size h,
      block_offset_size = div_ceil (heap_bits m) 8, root_block = root_block h, root_rows = root_rows h\<rparr> = h"
    using ho by (cases h) simp
  show ?thesis
    unfolding heap_header_fields_def heap_header_body_def append_assoc
    apply (rule reads_at_step [OF reads_take], simp add: FRHP_SIGNATURE_def)
    apply (simp only: refl not_True_eq_False if_False)
    apply (rule reads_at_step [OF reads_u8], simp)
    apply (simp only: refl not_True_eq_False if_False)
    apply (rule reads_at_step [OF reads_u16], use ho in simp)
    apply (rule reads_at_step [OF reads_u16], simp)
    apply (rule reads_at_step [OF reads_u8], use ho in simp)
    apply (rule reads_at_step [OF reads_u32], use mo in simp)
    apply (rule reads_at_step [OF reads_length [OF s lb(1)]])
    apply (rule reads_at_step [OF reads_addr [OF s]], use mo in simp)
    apply (rule reads_at_step [OF reads_length [OF s lb(2)]])
    apply (rule reads_at_step [OF reads_addr [OF s]], use mo in simp)
    apply (rule reads_at_step [OF reads_skip_lengths [OF s _ lm(1)]], use mo in simp)
    apply (rule reads_at_step [OF reads_length [OF s]], use ho in simp)
    apply (rule reads_at_step [OF reads_skip_lengths [OF s _ lm(2)]], use mo in simp)
    apply (rule reads_at_step [OF reads_u16], use ho in simp)
    apply (rule reads_at_step [OF reads_length [OF s]], use ho in simp)
    apply (rule reads_at_step [OF reads_length [OF s]], use ho in simp)
    apply (rule reads_at_step [OF reads_u16], use mo in simp)
    apply (rule reads_at_step [OF reads_u16], use mo in simp)
    apply (rule reads_at_step [OF reads_addr [OF s]], use ho in simp)
    apply (rule reads_at_step [OF reads_u16], use ho in simp)
    apply (simp only: less_irrefl if_False bind_ret_p)
    apply (rule reads_at_pos)
    apply (rule reads_at_step_last [OF reads_u32 [OF c]])
    apply (simp only: hh append_assoc append_Nil)
    apply (rule reads_at_ret)
    done
qed

definition block_head :: "bytes \<Rightarrow> sizes \<Rightarrow> heap_header \<Rightarrow> bytes" where
  "block_head signature s h = signature @ to_le 1 0 @ encode_address s (Some (hh_address h))"

definition direct_block_head :: "sizes \<Rightarrow> heap_header \<Rightarrow> nat \<Rightarrow> bytes" where
  "direct_block_head s h off = block_head FHDB_SIGNATURE s h @ to_le (block_offset_size h) off"

definition encode_direct_block :: "sizes \<Rightarrow> heap_header \<Rightarrow> nat \<Rightarrow> bytes \<Rightarrow> bytes" where
  "encode_direct_block s h off payload =
     direct_block_head s h off @
     (if checksums_blocks h then to_le 4 (unat (metadata (direct_block_head s h off @ replicate 4 0 @ payload))) else []) @ payload"

definition encode_indirect_block :: "sizes \<Rightarrow> heap_header \<Rightarrow> nat \<Rightarrow> nat option list \<Rightarrow> bytes" where
  "encode_indirect_block s h off kids =
     with_checksum (block_head FHIB_SIGNATURE s h @ to_le (block_offset_size h) off @ concat (map (encode_address s) kids))"

lemma reads_block_prefix_p:
  assumes "sizes_ok s" "fits_address s (Some (hh_address h))" "length signature = 4"
  shows "reads (block_prefix_p signature what h s) (block_head signature s h) ()"
proof -
  have "reads (bind_p (address_required s (what @ '' heap header'')) (\<lambda>a.
      if a \<noteq> hh_address h then fail_p (Malformed (what @ '' points at a different heap header'')) else ret_p ()))
      (encode_address s (Some (hh_address h))) ()"
    by (rule reads_bind_last [OF reads_address_required]) (use assms reads_ret in \<open>auto simp: sizes_ok_def\<close>)
  then have "reads (bind_p u8 (\<lambda>ver. if ver \<noteq> 0 then fail_p (Unsupported (what @ '' version''))
      else bind_p (address_required s (what @ '' heap header'')) (\<lambda>a.
        if a \<noteq> hh_address h then fail_p (Malformed (what @ '' points at a different heap header'')) else ret_p ())))
      (to_le 1 0 @ encode_address s (Some (hh_address h))) ()"
    by (intro reads_bind [OF reads_u8]) simp_all
  then show ?thesis unfolding block_prefix_p_def block_head_def
    by (intro reads_bind [OF reads_take]) (use assms(3) in simp_all)
qed

lemma length_encode_address [simp]: "length (encode_address s a) = offset_size s"
  by (simp add: encode_address_def)

lemma length_block_head: "length signature = 4 \<Longrightarrow> length (block_head signature s h) = 5 + offset_size s"
  by (simp add: block_head_def)

lemma signature_lengths [simp]: "length FHDB_SIGNATURE = 4" "length FHIB_SIGNATURE = 4" "length FRHP_SIGNATURE = 4"
  by (simp_all add: FHDB_SIGNATURE_def FHIB_SIGNATURE_def FRHP_SIGNATURE_def)

lemma length_encode_direct:
  "length (encode_direct_block s h off payload) = direct_block_header_len h s + length payload"
  by (simp add: encode_direct_block_def direct_block_head_def direct_block_header_len_def length_block_head del: to_le.simps)

lemma reads_direct_block:
  assumes s: "sizes_ok s" and a: "fits_address s (Some (hh_address h))"
    and w: "0 < block_offset_size h" "block_offset_size h \<le> 8" and off: "off < 256 ^ block_offset_size h"
    and small: "length (encode_direct_block s h off payload) \<le> isize_max"
  shows "run_p (direct_block_offset h s (encode_direct_block s h off payload)) (encode_direct_block s h off payload) = Ok off"
proof -
  let ?b = "encode_direct_block s h off payload" and ?head = "direct_block_head s h off"
  let ?zero = "?head @ replicate 4 0 @ payload"
  have mod: "block_offset_size h mod 256 = block_offset_size h" using w by simp
  have start: "reads_at [] post (direct_block_offset h s b) (block_head FHDB_SIGNATURE s h @ to_le (block_offset_size h) off @ xs) off"
    if "reads_at ?head post (bind_p (if checksums_blocks h then verify_direct_block b else ret_p ()) (\<lambda>_. ret_p off)) xs off"
    for post b xs
    unfolding direct_block_offset_def mod
    by (rule reads_at_step [OF reads_block_prefix_p [OF s a]], simp, rule reads_at_step [OF reads_uint [OF w off]])
      (use that in \<open>simp add: direct_block_head_def del: to_le.simps\<close>)
  show ?thesis
  proof (cases "checksums_blocks h")
    case True
    let ?sum = "unat (metadata ?zero)"
    have b: "?b = ?head @ to_le 4 ?sum @ payload" using True by (simp add: encode_direct_block_def)
    have lt: "?sum < 4294967296" using unsigned_less [of "metadata ?zero"] by simp
    have scratch: "take (length ?head) ?b @ replicate 4 0 @ drop (length ?head + 4) ?b = ?zero"
      unfolding b by (simp del: to_le.simps)
    have "reads_at ?head payload (verify_direct_block ?b) (to_le 4 ?sum) ()"
      unfolding verify_direct_block_def
      by (rule reads_at_pos, rule reads_at_step_last [OF reads_u32 [OF lt]])
        (use scratch in \<open>simp add: Let_def reads_at_ret del: to_le.simps\<close>)
    then have "reads_at ?head payload (bind_p (verify_direct_block ?b) (\<lambda>_. ret_p off)) (to_le 4 ?sum) off"
      by (simp add: reads_at_def bind_p_def ret_p_def del: to_le.simps)
    from start [of payload ?b "to_le 4 ?sum"] this True have "reads_at [] payload (direct_block_offset h s ?b) (?head @ to_le 4 ?sum) off"
      by (simp add: direct_block_head_def del: to_le.simps)
    from run_p_reads_at [OF this] show ?thesis using small b by (simp del: to_le.simps)
  next
    case False
    have b: "?b = ?head @ payload" using False by (simp add: encode_direct_block_def)
    from start [of payload ?b "[]"] False have "reads_at [] payload (direct_block_offset h s ?b) ?head off"
      by (simp add: direct_block_head_def reads_at_ret del: to_le.simps)
    from run_p_reads_at [OF this] show ?thesis using small b by (simp del: to_le.simps)
  qed
qed

text \<open>
  A child of the root: its address, its offset in the heap's space and its payload.  An absent child
  is stored as the undefined address.
\<close>

type_synonym heap_child = "(nat \<times> nat \<times> bytes) option"

definition kid_stored :: "ctx \<Rightarrow> bytes \<Rightarrow> heap_header \<Rightarrow> nat \<Rightarrow> heap_child \<Rightarrow> bool" where
  "kid_stored ctx contents h i kid =
     (case kid of
        None \<Rightarrow> True
      | Some (a, off, payload) \<Rightarrow>
          fits_address (ctx_sizes ctx) (Some a) \<and> off < 256 ^ block_offset_size h \<and>
          off + direct_block_header_len h (ctx_sizes ctx) \<le> u64_max \<and>
          row_block_size h (i div table_width h) = Ok (direct_block_header_len h (ctx_sizes ctx) + length payload) \<and>
          stored_at ctx contents a (encode_direct_block (ctx_sizes ctx) h off payload))"

definition kid_blocks :: "sizes \<Rightarrow> heap_header \<Rightarrow> heap_child list \<Rightarrow> heap_blocks" where
  "kid_blocks s h kids =
     List.map_filter (map_option (\<lambda>(a, off, payload). (off + direct_block_header_len h s, payload))) kids"

definition root_stored :: "ctx \<Rightarrow> bytes \<Rightarrow> heap_header \<Rightarrow> heap_child list \<Rightarrow> bool" where
  "root_stored ctx contents h kids =
     (case root_block h of
        None \<Rightarrow> kids = []
      | Some rt \<Rightarrow>
          if root_rows h = 0 then \<exists>off payload. kids = [Some (rt, off, payload)] \<and> kid_stored ctx contents h 0 (Some (rt, off, payload))
          else \<exists>mdr off. max_direct_rows h = Ok mdr \<and> root_rows h \<le> mdr \<and>
            length kids = root_rows h * table_width h \<and> length kids \<le> MAX_BLOCKS \<and>
            stored_at ctx contents rt (encode_indirect_block (ctx_sizes ctx) h off (map (map_option fst) kids)) \<and>
            (\<forall>i < length kids. kid_stored ctx contents h i (kids ! i)))"

definition heap_stored :: "ctx \<Rightarrow> bytes \<Rightarrow> heap_misc \<Rightarrow> heap_header \<Rightarrow> heap_child list \<Rightarrow> bool" where
  "heap_stored ctx contents m h kids \<longleftrightarrow>
     sizes_ok (ctx_sizes ctx) \<and> misc_ok (ctx_sizes ctx) m \<and> header_ok (ctx_sizes ctx) m h \<and>
     stored_at ctx contents (hh_address h) (with_checksum (heap_header_body (ctx_sizes ctx) m h)) \<and>
     root_stored ctx contents h kids \<and> sorted (map fst (kid_blocks (ctx_sizes ctx) h kids))"

lemma kid_blocks_simps [simp]:
  "kid_blocks s h [] = []"
  "kid_blocks s h (None # kids) = kid_blocks s h kids"
  "kid_blocks s h (Some (a, off, payload) # kids) = (off + direct_block_header_len h s, payload) # kid_blocks s h kids"
  by (simp_all add: kid_blocks_def List.map_filter_simps)

lemma verify_indirect_with_checksum: "verify_indirect_block (with_checksum b) = Ok ()"
proof -
  have "unat (metadata b) < 4294967296" using unsigned_less [of "metadata b"] by simp
  then show ?thesis by (simp add: verify_indirect_block_def with_checksum_def slice_def Let_def del: to_le.simps)
qed

lemma reads_indirect_children:
  assumes s: "sizes_ok s" and a: "fits_address s (Some (hh_address h))" and kids: "\<forall>k \<in> set kids. fits_address s k"
    and small: "length (encode_indirect_block s h off kids) \<le> isize_max"
  shows "run_p (indirect_children h s (encode_indirect_block s h off kids) (length kids) 0) (encode_indirect_block s h off kids) =
    Ok (kids, [])"
proof -
  let ?b = "encode_indirect_block s h off kids"
  let ?body = "block_head FHIB_SIGNATURE s h @ to_le (block_offset_size h) off @ concat (map (encode_address s) kids)"
  have v: "verify_indirect_block ?b = Ok ()" by (simp add: encode_indirect_block_def verify_indirect_with_checksum del: to_le.simps)
  have last: "reads (bind_p (repeat_p (length kids) (read_address s)) (\<lambda>direct. bind_p (repeat_p 0 (read_address s)) (\<lambda>indirect.
      ret_p (direct, indirect)))) (concat (map (encode_address s) kids)) (kids, [])"
    by (rule reads_bind_last [OF reads_repeat]) (use kids reads_addr [OF s] reads_ret in auto)
  have "reads_at [] post (indirect_children h s ?b (length kids) 0) ?body (kids, [])" for post
    unfolding indirect_children_def
    by (rule reads_at_step [OF reads_block_prefix_p [OF s a]], simp, rule reads_at_step [OF reads_skip], simp,
        rule reads_at_lift [OF v], rule reads_at_of_reads [OF last])
  from run_p_reads_at [OF this [of "to_le 4 (unat (metadata ?body))"]] small show ?thesis
    by (simp add: encode_indirect_block_def with_checksum_def del: to_le.simps)
qed

context reader
begin

lemma read_direct_stored:
  assumes s: "sizes_ok (ctx_sizes ctx)" and h: "header_ok (ctx_sizes ctx) m h" and out: "length out \<le> MAX_BLOCKS"
    and kid: "kid_stored ctx contents h i (Some (a, off, payload))"
    and size: "row_block_size h (i div table_width h) = Ok block_size"
  shows "read_direct_block ctx h a block_size out = Ok (out @ [(off + direct_block_header_len h (ctx_sizes ctx), payload)])"
proof -
  let ?s = "ctx_sizes ctx" let ?b = "encode_direct_block ?s h off payload" and ?hd = "direct_block_header_len h ?s"
  have k: "off < 256 ^ block_offset_size h" "off + ?hd \<le> u64_max" "block_size = length ?b" "stored_at ctx contents a ?b"
    using kid size by (simp_all add: kid_stored_def length_encode_direct)
  have r: "ctx_read ctx a block_size = Ok ?b" using ctx_read_stored [OF k(4)] k(3) by simp
  have p: "run_p (direct_block_offset h ?s ?b) ?b = Ok off"
    using reads_direct_block [OF s _ _ _ k(1) stored_small [OF k(4)]] h by (simp add: header_ok_def)
  have "drop ?hd ?b = payload"
    by (simp add: encode_direct_block_def direct_block_head_def direct_block_header_len_def length_block_head del: to_le.simps)
  then show ?thesis using out r p k(2)
    by (simp add: read_direct_block_def Let_def length_encode_direct add64_def)
qed

lemma read_children_stored:
  assumes s: "sizes_ok (ctx_sizes ctx)" and h: "header_ok (ctx_sizes ctx) m h"
  shows "length out + length kids \<le> MAX_BLOCKS \<Longrightarrow> (\<forall>i < length kids. kid_stored ctx contents h (base + i) (kids ! i)) \<Longrightarrow>
    fold_result (\<lambda>(entry, child) out.
        case child of
          None \<Rightarrow> Ok out
        | Some a \<Rightarrow> and_then (row_block_size h (entry div table_width h)) (\<lambda>size. read_direct_block ctx h a size out))
      (enumerate base (map (map_option fst) kids)) out = Ok (out @ kid_blocks (ctx_sizes ctx) h kids)"
proof (induction kids arbitrary: base out)
  case (Cons kid kids)
  have IH: "\<forall>i < length kids. kid_stored ctx contents h (Suc base + i) (kids ! i)" using Cons.prems(2) by auto
  have kid: "kid_stored ctx contents h base kid" using Cons.prems(2) by auto
  show ?case
  proof (cases kid)
    case None
    then show ?thesis using Cons.IH [OF _ IH, of out] Cons.prems(1) by simp
  next
    case (Some k)
    obtain a off payload where k: "k = (a, off, payload)" by (cases k) auto
    obtain size where size: "row_block_size h (base div table_width h) = Ok size" using kid Some k by (auto simp: kid_stored_def)
    have "read_direct_block ctx h a size out = Ok (out @ [(off + direct_block_header_len h (ctx_sizes ctx), payload)])"
      using read_direct_stored [OF s h _ _ size, of out a off payload] kid Some k Cons.prems(1) by simp
    then show ?thesis using Cons.IH [OF _ IH, of "out @ [(off + direct_block_header_len h (ctx_sizes ctx), payload)]"] Cons.prems(1) Some k size
      by simp
  qed
qed simp

lemma root_blocks_stored:
  assumes s: "sizes_ok (ctx_sizes ctx)" and h: "header_ok (ctx_sizes ctx) m h" and rt: "root_stored ctx contents h kids"
  shows "heap_root_blocks ctx h = Ok (kid_blocks (ctx_sizes ctx) h kids)"
proof (cases "root_block h")
  case None
  then show ?thesis using rt by (simp add: root_stored_def heap_root_blocks_def)
next
  case (Some a)
  let ?s = "ctx_sizes ctx"
  show ?thesis
  proof (cases "root_rows h = 0")
    case True
    then obtain off payload where k: "kids = [Some (a, off, payload)]" "kid_stored ctx contents h 0 (Some (a, off, payload))"
      using rt Some by (auto simp: root_stored_def)
    have "row_block_size h (0 div table_width h) = Ok (starting_block_size h)" by (simp add: row_block_size_def)
    then show ?thesis using read_direct_stored [OF s h _ k(2), of "[]"] Some True k(1) by (simp add: heap_root_blocks_def)
  next
    case False
    then obtain mdr off where r: "max_direct_rows h = Ok mdr" "root_rows h \<le> mdr" "length kids = root_rows h * table_width h"
      "length kids \<le> MAX_BLOCKS" "stored_at ctx contents a (encode_indirect_block ?s h off (map (map_option fst) kids))"
      "\<forall>i < length kids. kid_stored ctx contents h (0 + i) (kids ! i)"
      using rt Some by (auto simp: root_stored_def)
    let ?ks = "map (map_option fst) kids" let ?b = "encode_indirect_block ?s h off ?ks"
    have "fits_address ?s (map_option fst k)" if "k \<in> set kids" for k
      using r(6) that by (auto simp: in_set_conv_nth kid_stored_def fits_address_def split: option.splits prod.splits)
    then have f: "\<forall>k \<in> set ?ks. fits_address ?s k" by simp
    have len: "length (concat (map (encode_address ?s) ks)) = length ks * offset_size ?s" for ks
      by (induction ks) simp_all
    have bl: "length ?b = 4 + 1 + offset_size ?s + block_offset_size h + root_rows h * table_width h * offset_size ?s + 4"
      by (simp add: encode_indirect_block_def with_checksum_def length_block_head len r(3) del: to_le.simps map_map)
    have "run_p (indirect_children h ?s ?b (length ?ks) 0) ?b = Ok (?ks, [])"
      by (rule reads_indirect_children [OF s _ f stored_small [OF r(5)]]) (use h in \<open>simp add: header_ok_def\<close>)
    moreover have "ctx_read ctx a (length ?b) = Ok ?b" using ctx_read_stored [OF r(5)] .
    ultimately have rd: "read_indirect_block (Suc levels) ctx h a (root_rows h) [] = Ok (kid_blocks ?s h kids)" for levels
      using r(1,2) read_children_stored [OF s h, of "[]" kids 0] r(3,4,6) bl by (simp add: Let_def min_absorb1)
    have "MAX_DEPTH = Suc 64" by (simp add: MAX_DEPTH_def)
    with rd [of 64] have "read_indirect_block MAX_DEPTH ctx h a (root_rows h) [] = Ok (kid_blocks ?s h kids)" by simp
    then show ?thesis using Some False by (simp add: heap_root_blocks_def)
  qed
qed

lemma read_stored_heap_header:
  assumes s: "sizes_ok (ctx_sizes ctx)" and m: "misc_ok (ctx_sizes ctx) m" and h: "header_ok (ctx_sizes ctx) m h"
    and st: "stored_at ctx contents (hh_address h) (with_checksum (heap_header_body (ctx_sizes ctx) m h))"
  shows "read_heap_header ctx (hh_address h) = Ok h"
proof -
  let ?s = "ctx_sizes ctx" let ?body = "heap_header_body ?s m h" let ?sum = "unat (metadata ?body)"
  let ?max = "4 + 1 + 2 + 2 + 1 + 4 + length_size ?s + offset_size ?s + length_size ?s + offset_size ?s + length_size ?s * 8 + 2
      + length_size ?s * 2 + 2 + 2 + offset_size ?s + 2 + length_size ?s + 4 + 4"
  have sum: "?sum < 4294967296" using unsigned_less [of "metadata ?body"] by simp
  have len: "length ?body \<le> ?max - 4"
    using m by (simp add: heap_header_body_def encode_dims_def misc_ok_def length_concat o_def sum_list_triv del: to_le.simps)
  have le: "length (with_checksum ?body) \<le> ?max" using len by (simp add: with_checksum_def del: to_le.simps)
  obtain post where "ctx_read_upto ctx (hh_address h) ?max = Ok (take ?max (with_checksum ?body) @ post)"
    by (rule ctx_read_upto_stored [OF st])
  then have post: "ctx_read_upto ctx (hh_address h) ?max = Ok (with_checksum ?body @ post)" unfolding take_all [OF le] .
  from ctx_read_upto_length [OF post] have small: "length (with_checksum ?body @ post) \<le> isize_max" by simp
  have "run_p (heap_header_fields (hh_address h) ?s) (with_checksum ?body @ post) = Ok (h, length ?body, ?sum)"
    using run_p_reads_at [OF reads_heap_header [OF s m h sum], of post] small by (simp add: with_checksum_def del: to_le.simps)
  then show ?thesis using post h
    by (simp add: read_heap_header_def Let_def with_checksum_def header_ok_def del: to_le.simps)
qed

lemma read_stored_heap:
  assumes "heap_stored ctx contents m h kids"
  shows "read_fractal_heap ctx (hh_address h) =
    Ok \<lparr>heap_blocks = kid_blocks (ctx_sizes ctx) h kids, managed_object_count = hh_managed h, heap_id_len = hh_id_len h,
        heap_offset_size = block_offset_size h\<rparr>"
proof -
  note a = assms [unfolded heap_stored_def]
  have "read_heap_header ctx (hh_address h) = Ok h" "heap_root_blocks ctx h = Ok (kid_blocks (ctx_sizes ctx) h kids)"
    using read_stored_heap_header [of m h] root_blocks_stored [of m h kids] a by auto
  then show ?thesis using a by (simp add: read_fractal_heap_def header_ok_def sort_key_id_if_sorted)
qed

end

section \<open>Lookup by heap ID\<close>

text \<open>A heap ID of a managed object: the flags byte, then offset and length at the widths of the heap.\<close>

definition encode_heap_id :: "fractal_heap \<Rightarrow> nat \<Rightarrow> nat \<Rightarrow> bytes" where
  "encode_heap_id heap off len =
     [0] @ to_le (heap_offset_size heap) off @ to_le (heap_id_len heap - 1 - heap_offset_size heap) len"

definition id_ok :: "fractal_heap \<Rightarrow> nat \<Rightarrow> nat \<Rightarrow> bool" where
  "id_ok heap off len \<longleftrightarrow>
     (let ls = heap_id_len heap - 1 - heap_offset_size heap in
      0 < heap_offset_size heap \<and> heap_offset_size heap \<le> 8 \<and> heap_offset_size heap + 1 < heap_id_len heap \<and> ls \<le> 8 \<and>
      off < 256 ^ heap_offset_size heap \<and> len < 256 ^ ls \<and> heap_id_len heap \<le> u64_max)"

definition blocks_apart :: "heap_blocks \<Rightarrow> bool" where
  "blocks_apart blocks \<longleftrightarrow>
     (\<forall>at payload. (at, payload) \<in> set blocks \<longrightarrow> at + length payload \<le> u64_max) \<and>
     (\<forall>at payload at' payload' x. (at, payload) \<in> set blocks \<longrightarrow> (at', payload') \<in> set blocks \<longrightarrow>
        at \<le> x \<and> x < at + length payload \<longrightarrow> at' \<le> x \<and> x < at' + length payload' \<longrightarrow> (at, payload) = (at', payload'))"

lemma blocks_apartD:
  "blocks_apart blocks \<Longrightarrow> (at, p) \<in> set blocks \<Longrightarrow> (at', p') \<in> set blocks \<Longrightarrow> at \<le> x \<Longrightarrow> x < at + length p \<Longrightarrow>
   at' \<le> x \<Longrightarrow> x < at' + length p' \<Longrightarrow> (at, p) = (at', p')"
  unfolding blocks_apart_def by blast

lemma blocks_apart_tl: "blocks_apart (b # blocks) \<Longrightarrow> blocks_apart blocks"
  unfolding blocks_apart_def by (meson list.set_intros(2))

lemma find_managed_block:
  assumes "(at, payload) \<in> set blocks" "blocks_apart blocks" "k + len \<le> length payload" "k < length payload"
  shows "find_managed blocks (at + k) len = Ok (slice k len payload)"
  using assms(1,2)
proof (induction blocks)
  case (Cons b blocks)
  obtain at' payload' where b: "b = (at', payload')" by fastforce
  have in_set: "(at', payload') \<in> set (b # blocks)" using b by simp
  have top: "at' + length payload' \<le> u64_max" "at + length payload \<le> u64_max"
    using Cons.prems by (auto simp: blocks_apart_def b)
  show ?case
  proof (cases "at' \<le> at + k \<and> at + k < at' + length payload'")
    case True
    then have "(at, payload) = (at', payload')"
      using blocks_apartD [OF Cons.prems(2,1) in_set, of "at + k"] assms(4) by simp
    then show ?thesis using True top assms(3) by (simp add: b add64_def)
  next
    case False
    then have "(at, payload) \<noteq> b" using assms(4) b by auto
    then have "find_managed blocks (at + k) len = Ok (slice k len payload)"
      using Cons.IH [OF _ blocks_apart_tl [OF Cons.prems(2)]] Cons.prems(1) by auto
    then show ?thesis using False top by (auto simp: b add64_def)
  qed
qed simp

lemma heap_get_managed:
  assumes b: "(at, payload) \<in> set (heap_blocks heap)" "blocks_apart (heap_blocks heap)"
    and r: "k + len \<le> length payload" "k < length payload" and ok: "id_ok heap (at + k) len"
    and small: "length (encode_heap_id heap (at + k) len @ rest) \<le> isize_max"
  shows "heap_get heap (encode_heap_id heap (at + k) len @ rest) = Ok (slice k len payload)"
proof -
  let ?w = "heap_offset_size heap" let ?ls = "heap_id_len heap - 1 - ?w" let ?id = "encode_heap_id heap (at + k) len @ rest"
  have o: "0 < ?w" "?w \<le> 8" "?w + 1 < heap_id_len heap" "?ls \<le> 8" "at + k < 256 ^ ?w" "len < 256 ^ ?ls" "0 < ?ls"
    using ok by (auto simp: id_ok_def Let_def)
  have mods: "?w mod 256 = ?w" "?ls mod 256 = ?ls" using o by auto
  have len: "heap_id_len heap \<le> length ?id" using o by (simp add: encode_heap_id_def del: to_le.simps)
  have first: "index_at ?id 0 = Ok 0" by (simp add: encode_heap_id_def index_at_def)
  have sub: "sub64 (heap_id_len heap) 1 = Ok (heap_id_len heap - 1)" "sub64 (heap_id_len heap - 1) ?w = Ok ?ls"
    using o by (auto simp: sub64_def)
  have "reads (bind_p (read_uint ?w) (\<lambda>off. bind_p (read_uint ?ls) (\<lambda>len. ret_p (off, len))))
      (to_le ?w (at + k) @ to_le ?ls len) (at + k, len)"
    by (rule reads_bind [OF reads_uint [OF o(1,2,5)] reads_bind_last [OF reads_uint [OF o(7,4,6)] reads_ret]])
  from this [unfolded reads_def, rule_format, of "[0]" rest]
  have "\<exists>c. bind_p (read_uint ?w) (\<lambda>off. bind_p (read_uint ?ls) (\<lambda>len. ret_p (off, len))) (cursor_at ?id 1) = Ok ((at + k, len), c)"
    using small by (simp add: cursor_at_def encode_heap_id_def del: to_le.simps)
  then obtain c where "bind_p (read_uint ?w) (\<lambda>off. bind_p (read_uint ?ls) (\<lambda>len. ret_p (off, len))) (cursor_at ?id 1) = Ok ((at + k, len), c)"
    by blast
  then show ?thesis using len first sub find_managed_block [OF b r] mods by (simp add: heap_get_def)
qed

section \<open>Properties\<close>

text \<open>A link with the choices of its writer: width of the name's length, type byte, character set.\<close>

type_synonym stored_link = "nat \<times> bool \<times> byte option \<times> link"

definition link_bytes :: "sizes \<Rightarrow> stored_link \<Rightarrow> bytes" where
  "link_bytes s = (\<lambda>(w, typed, charset, l). encode_link s w typed charset l)"

definition link_of :: "stored_link \<Rightarrow> link" where
  "link_of = (\<lambda>(w, typed, charset, l). l)"

definition links_stored :: "sizes \<Rightarrow> stored_link list \<Rightarrow> bytes \<Rightarrow> bool" where
  "links_stored s items payload \<longleftrightarrow>
     (\<exists>pad. payload = concat (map (link_bytes s) items) @ replicate pad 0) \<and> length payload \<le> isize_max \<and>
     (\<forall>(w, typed, charset, l) \<in> set items. link_ok s w typed l)"

lemma links_stored_records:
  assumes "sizes_ok s" "links_stored s items payload"
  shows "holds_records (parse_link_at s) (map (\<lambda>i. (link_bytes s i, link_of i)) items) payload"
proof -
  have "encode_link s w typed charset l \<noteq> [] \<and> hd (encode_link s w typed charset l) \<noteq> 0" for w typed charset l
    by (simp add: encode_link_def)
  then show ?thesis using assms reads_link [OF assms(1)]
    by (fastforce simp: links_stored_def holds_records_def link_bytes_def link_of_def o_def)
qed

lemma list_all2_stored_records:
  assumes "sizes_ok s" "list_all2 (links_stored s) itemss payloads"
  shows "list_all2 (holds_records (parse_link_at s)) (map (map (\<lambda>i. (link_bytes s i, link_of i))) itemss) payloads"
  using assms(2) links_stored_records [OF assms(1)] by (auto simp: list_all2_conv_all_nth)


definition example_heap_header :: heap_header where
  "example_heap_header = \<lparr>hh_address = 0, hh_id_len = 8, hh_flags = 2, hh_filter_len = 0, hh_managed = 2, table_width = 4,
     starting_block_size = 64, max_direct_block_size = 128, block_offset_size = 4, root_block = Some 146, root_rows = 0\<rparr>"

definition example_misc :: heap_misc where
  "example_misc = \<lparr>max_managed = 64, lengths_before = [0, 0], huge_btree = None, free_manager = None,
     lengths_managed = [64, 64, 64], lengths_after = [0, 0, 0, 0], heap_bits = 32, starting_rows = 0\<rparr>"

definition example_links :: "stored_link list" where
  "example_links =
     [(0, False, None, \<lparr>link_name = [97], target = Hard 100, link_order = None\<rparr>),
      (0, False, None, \<lparr>link_name = [98], target = Hard 200, link_order = None\<rparr>)]"

definition example_payload :: bytes where
  "example_payload = concat (map (link_bytes EIGHT) example_links) @ replicate 19 0"

definition example_heap :: bytes where
  "example_heap = with_checksum (heap_header_body EIGHT example_misc example_heap_header) @
     encode_direct_block EIGHT example_heap_header 0 example_payload"

lemma example_links_stored: "links_stored EIGHT example_links example_payload"
proof -
  have "valid_utf8 [97]" "valid_utf8 [98]" by (rule valid_utf8_ascii, auto)+
  then have "\<forall>(w, typed, charset, l) \<in> set example_links. link_ok EIGHT w typed l"
    by (simp add: example_links_def link_ok_def fits_address_def undefined_for_width_def u64_max_def EIGHT_def)
  then show ?thesis
    by (auto simp: links_stored_def example_payload_def example_links_def link_bytes_def encode_link_def EIGHT_def isize_max_def)
qed


text \<open>
  The sequential walk trusts the header's count alone: a block that holds more parseable
  records than the heap has live ones, as after a record was freed and another written behind it,
  yields the first of them and counts as complete, so a deleted record is reported, a live one is
  lost and the index is not consulted.
\<close>

theorem walk_trusts_the_count:
  assumes "list_all2 (links_stored s) itemss (block_payloads heap)" and "sizes_ok s"
    and "managed_object_count heap \<le> length (concat itemss)"
  shows "walk_lenient heap (parse_link_at s) = Ok (take (managed_object_count heap) (map link_of (concat itemss)), True)"
  using walk_lenient_records [OF list_all2_stored_records [OF assms(2,1)]] assms(3)
  by (simp add: map_concat o_def Let_def length_concat)

theorem walk_trusts_the_count_witness:
  "walk_lenient \<lparr>heap_blocks = [(21, example_payload)], managed_object_count = 1, heap_id_len = 8, heap_offset_size = 4\<rparr>
     (parse_link_at EIGHT) = Ok ([\<lparr>link_name = [97], target = Hard 100, link_order = None\<rparr>], True)"
  using walk_trusts_the_count [of EIGHT "[example_links]"
      "\<lparr>heap_blocks = [(21, example_payload)], managed_object_count = 1, heap_id_len = 8, heap_offset_size = 4\<rparr>"]
    example_links_stored by (simp add: block_payloads_def) (simp add: example_links_def link_of_def)

text \<open>
  A damaged header whose largest direct block size is the largest 64-bit number makes the
  search for the first indirect row run into a shift by 64 places, which panics.
\<close>

theorem huge_direct_size_panics:
  assumes "max_direct_block_size h = u64_max" and "starting_block_size h \<le> u64_max"
  shows "read_indirect_block (Suc levels) ctx h address nrows out = Inl Panic"
proof -
  have size: "\<exists>size. row_block_size h row = Ok size \<and> size \<le> u64_max" if "row < 65" for row
  proof -
    have "starting_block_size h * 2 ^ (row - 1) mod 2 ^ 64 < 2 ^ 64" by (rule mod_less_divisor) simp
    then show ?thesis using that assms(2) by (auto simp: row_block_size_def u64_max_def)
  qed
  have "direct_rows_from h row = Inl Panic" if "row \<le> 65" for row
    using that
  proof (induction row rule: inc_induct)
    case base
    show ?case by (subst direct_rows_from.simps) (simp add: row_block_size_def)
  next
    case (step row)
    then show ?case using size [of row] assms(1) by (subst direct_rows_from.simps) auto
  qed
  then have "max_direct_rows h = Inl Panic" by (simp add: max_direct_rows_def)
  then show ?thesis by simp
qed

theorem huge_direct_size_panics_witness:
  "read_indirect_block MAX_DEPTH (new_ctx (memory_source []) example_superblock) (example_heap_header\<lparr>max_direct_block_size := u64_max\<rparr>) 0 1 [] = Inl Panic"
proof -
  have "MAX_DEPTH = Suc 64" by (simp add: MAX_DEPTH_def)
  then show ?thesis
    using huge_direct_size_panics [of "example_heap_header\<lparr>max_direct_block_size := u64_max\<rparr>" 64
        "new_ctx (memory_source []) example_superblock" 0 1 "[]"]
    by (simp add: example_heap_header_def u64_max_def del: read_indirect_block.simps)
qed

end
