(* ===== verification/Object_Tree.thy ===== *)
theory Object_Tree
  imports Dataset_Read Fractal_Heap Heaps
begin

text \<open>
  The file index (\<^verbatim>\<open>index.rs\<close>): open options, the tree of groups and datasets built from the object
  headers with its guards against cycles, children listed from symbol tables, link messages and
  dense storage, and lookup by path.  An open file is the source, the superblock, the tree and the
  cache settings; the chunk indexes, resolved later, are the list of once-written cells that
  \<open>prepare_all\<close> passes along.
\<close>

section \<open>Open options\<close>

record open_options =
  opt_io :: io_config
  opt_page_size :: nat
  opt_io_cache_bytes :: "nat option"
  opt_chunk_cache :: "nat option"
  opt_readahead :: nat
  opt_prefetch :: nat

definition default_options :: open_options where
  "default_options = \<lparr>opt_io = LOCAL, opt_page_size = 64 * 1024, opt_io_cache_bytes = Some (512 * (64 * 1024)),
     opt_chunk_cache = Some 512, opt_readahead = 4, opt_prefetch = 4 * 2 ^ 20\<rparr>"

definition io_request_size :: "nat \<Rightarrow> open_options \<Rightarrow> open_options" where
  "io_request_size n opts = opts\<lparr>opt_page_size := max n 1\<rparr>"

definition io_cache_bytes :: "nat \<Rightarrow> open_options \<Rightarrow> open_options" where
  "io_cache_bytes n opts = opts\<lparr>opt_io_cache_bytes := Some n\<rparr>"

definition without_io_cache :: "open_options \<Rightarrow> open_options" where
  "without_io_cache opts = opts\<lparr>opt_io_cache_bytes := None\<rparr>"

definition chunk_cache_capacity :: "nat \<Rightarrow> open_options \<Rightarrow> open_options" where
  "chunk_cache_capacity n opts = opts\<lparr>opt_chunk_cache := Some n\<rparr>"

definition without_chunk_cache :: "open_options \<Rightarrow> open_options" where
  "without_chunk_cache opts = opts\<lparr>opt_chunk_cache := None\<rparr>"

definition set_readahead :: "nat \<Rightarrow> open_options \<Rightarrow> open_options" where
  "set_readahead n opts = opts\<lparr>opt_readahead := n\<rparr>"

definition set_io_config :: "io_config \<Rightarrow> open_options \<Rightarrow> open_options" where
  "set_io_config io opts = opts\<lparr>opt_io := io\<rparr>"

definition open_prefetch_bytes :: "nat \<Rightarrow> open_options \<Rightarrow> open_options" where
  "open_prefetch_bytes n opts = opts\<lparr>opt_prefetch := max n 1\<rparr>"

definition remote_options :: open_options where
  "remote_options = set_io_config REMOTE (io_cache_bytes (128 * 2 ^ 20) (io_request_size (256 * 1024) default_options))"

definition build_io_cache :: "open_options \<Rightarrow> io_cache option result" where
  "build_io_cache opts =
     (case opt_io_cache_bytes opts of
        None \<Rightarrow> Ok None
      | Some n \<Rightarrow> and_then (new_io_cache (opt_page_size opts)) (\<lambda>c. Ok (Some c)))"

definition build_chunk_cache :: "open_options \<Rightarrow> chunk_cache option" where
  "build_chunk_cache opts =
     map_option (\<lambda>n. \<lparr>entries = Map.empty, readahead = opt_readahead opts\<rparr>) (opt_chunk_cache opts)"

section \<open>The tree\<close>

record dataset_entry = dataset_index +
  ds_name :: rstring
  ds_path :: rstring
  ds_address :: nat
  ds_max_shape :: "nat list option"
  ds_attributes :: "attribute list"
  ds_attributes_complete :: bool

definition dataset_rank :: "'e dataset_index_scheme \<Rightarrow> nat" where
  "dataset_rank ds = length (ds_shape ds)"

definition dataset_attribute :: "dataset_entry \<Rightarrow> rstring \<Rightarrow> attribute option" where
  "dataset_attribute ds nm = find (\<lambda>a. attr_name a = nm) (ds_attributes ds)"

datatype group_index = GroupIndex
  (g_name: rstring) (g_path: rstring) (g_address: nat) (g_attributes: "attribute list") (g_complete: bool)
  (g_groups: "group_index list") (g_datasets: "dataset_entry list")

definition child_group :: "group_index \<Rightarrow> rstring \<Rightarrow> group_index option" where
  "child_group g nm = find (\<lambda>c. g_name c = nm) (g_groups g)"

definition child_dataset :: "group_index \<Rightarrow> rstring \<Rightarrow> dataset_entry option" where
  "child_dataset g nm = find (\<lambda>d. ds_name d = nm) (g_datasets g)"

definition group_attribute :: "group_index \<Rightarrow> rstring \<Rightarrow> attribute option" where
  "group_attribute g nm = find (\<lambda>a. attr_name a = nm) (g_attributes g)"

fun datasets_recursive :: "group_index \<Rightarrow> dataset_entry list" where
  "datasets_recursive (GroupIndex nm path address attrs complete groups datasets) =
     datasets @ concat (map datasets_recursive groups)"

section \<open>Building the tree\<close>

record child =
  child_name :: rstring
  child_address :: nat

definition read_attributes :: "ctx \<Rightarrow> object_header \<Rightarrow> (attribute list \<times> bool) result" where
  "read_attributes ctx oh =
     (let s = ctx_sizes ctx in
      and_then (compact_attributes oh s) (\<lambda>(attributes, _).
      and_then (oh_attribute_info oh s) (\<lambda>info.
        case info of
          None \<Rightarrow> Ok (attributes, True)
        | Some ai \<Rightarrow>
            (case ai_heap ai of
               None \<Rightarrow> Ok (attributes, True)
             | Some a \<Rightarrow>
                 and_then (read_dense_attributes ctx a (ai_name_btree ai) s) (\<lambda>(dense, all_found).
                   Ok (attributes @ dense, all_found))))))"

definition hard_child :: "link \<Rightarrow> child option" where
  "hard_child l = map_option (\<lambda>a. \<lparr>child_name = link_name l, child_address = a\<rparr>) (hard_address l)"

definition hard_children :: "link list \<Rightarrow> child list" where
  "hard_children ls = List.map_filter hard_child ls"

fun entry_children :: "local_heap \<Rightarrow> symbol_table_entry list \<Rightarrow> child list result" where
  "entry_children heap [] = Ok []"
| "entry_children heap (e # es) =
     (case object_header_address e of
        None \<Rightarrow> entry_children heap es
      | Some a \<Rightarrow>
          and_then (name_at heap (link_name_offset e)) (\<lambda>nm.
          and_then (entry_children heap es) (\<lambda>cs. Ok (\<lparr>child_name = nm, child_address = a\<rparr> # cs))))"

definition node_children :: "ctx \<Rightarrow> local_heap \<Rightarrow> nat \<Rightarrow> child list result" where
  "node_children ctx heap node_address =
     and_then (ctx_read ctx node_address 8) (\<lambda>head.
     and_then (index_at head 6) (\<lambda>lo. and_then (index_at head 7) (\<lambda>hi.
     and_then (ctx_read ctx node_address (symbol_node_encoded_len (le_nat [lo, hi]) (ctx_sizes ctx))) (\<lambda>raw.
     and_then (parse_symbol_node (ctx_sizes ctx) raw) (\<lambda>es. entry_children heap es)))))"

definition symbol_children :: "ctx \<Rightarrow> symbol_table \<Rightarrow> child list result" where
  "symbol_children ctx st =
     and_then (local_heap_read ctx (st_heap st)) (\<lambda>heap.
     and_then (read_group_node_addresses ctx (st_btree st)) (\<lambda>addresses.
     and_then (map_result (node_children ctx heap) addresses) (\<lambda>css. Ok (concat css))))"

definition linked_children :: "ctx \<Rightarrow> object_header \<Rightarrow> child list result" where
  "linked_children ctx oh =
     (let s = ctx_sizes ctx in
      and_then (compact_links oh s) (\<lambda>ls.
      and_then (oh_link_info oh s) (\<lambda>info.
        case info of
          None \<Rightarrow> Ok (hard_children ls)
        | Some li \<Rightarrow>
            (case li_heap li of
               None \<Rightarrow> Ok (hard_children ls)
             | Some a \<Rightarrow>
                 and_then (read_dense_links ctx a (li_name_btree li)) (\<lambda>dense. Ok (hard_children ls @ hard_children dense))))))"

definition resolve_children :: "ctx \<Rightarrow> object_header \<Rightarrow> child list result" where
  "resolve_children ctx oh =
     and_then (oh_symbol_table oh (ctx_sizes ctx)) (\<lambda>st.
       case st of Some t \<Rightarrow> symbol_children ctx t | None \<Rightarrow> linked_children ctx oh)"

definition scalar_space :: dataspace where
  "scalar_space = \<lparr>ds_kind = Scalar, dims = [], max_dims = None\<rparr>"

definition required :: "'a option \<Rightarrow> string \<Rightarrow> 'a result" where
  "required x what = (case x of Some v \<Rightarrow> Ok v | None \<Rightarrow> Error (Malformed what))"

definition build_dataset :: "ctx \<Rightarrow> object_header \<Rightarrow> rstring \<Rightarrow> rstring \<Rightarrow> nat \<Rightarrow> dataset_entry result" where
  "build_dataset ctx oh nm path address =
     (let s = ctx_sizes ctx in
      and_then (oh_dataspace oh s) (\<lambda>space.
      and_then (oh_datatype oh ctx) (\<lambda>t. and_then (required t ''dataset has no datatype message'') (\<lambda>t.
      and_then (oh_layout oh s) (\<lambda>lay. and_then (required lay ''dataset has no data layout message'') (\<lambda>lay.
      and_then (oh_filter_pipeline oh) (\<lambda>pipeline. and_then (oh_fill_value oh) (\<lambda>fv.
      and_then (read_attributes ctx oh) (\<lambda>(attributes, complete).
        let space = (case space of None \<Rightarrow> scalar_space | Some sp \<Rightarrow> sp) in
        Ok \<lparr>ds_shape = dims space, ds_datatype = t, ds_layout = lay, ds_pipeline = pipeline, ds_fill_value = fv,
           ds_name = nm, ds_path = path, ds_address = address, ds_max_shape = max_dims space,
           ds_attributes = attributes, ds_attributes_complete = complete\<rparr>)))))))))"

text \<open>Paths are UTF-8 bytes; the separator is byte 47.\<close>

definition SLASH :: byte where
  "SLASH = 47"

definition child_path :: "rstring \<Rightarrow> rstring \<Rightarrow> rstring" where
  "child_path path nm = (if path = [SLASH] then [SLASH] @ nm else path @ [SLASH] @ nm)"

fun build_children ::
  "ctx \<Rightarrow> (nat \<Rightarrow> rstring \<Rightarrow> rstring \<Rightarrow> nat set \<Rightarrow> (group_index \<times> nat set) result) \<Rightarrow> rstring \<Rightarrow> child list \<Rightarrow>
   nat set \<Rightarrow> (group_index list \<times> dataset_entry list \<times> nat set) result" where
  "build_children ctx build path [] visited = Ok ([], [], visited)"
| "build_children ctx build path (c # cs) visited =
     and_then (read_object_header ctx (child_address c)) (\<lambda>oh.
       let cpath = child_path path (child_name c) in
       if is_dataset oh then
         and_then (build_dataset ctx oh (child_name c) cpath (child_address c)) (\<lambda>d.
         and_then (build_children ctx build path cs visited) (\<lambda>(gs, ds, visited). Ok (gs, d # ds, visited)))
       else if is_committed_datatype oh then build_children ctx build path cs visited
       else
         and_then (build (child_address c) (child_name c) cpath visited) (\<lambda>(g, visited).
         and_then (build_children ctx build path cs visited) (\<lambda>(gs, ds, visited). Ok (g # gs, ds, visited))))"

text \<open>A depth above 64 is refused, so 65 levels are built.\<close>

definition GROUP_LEVELS :: nat where
  "GROUP_LEVELS = 65"

fun build_group ::
  "nat \<Rightarrow> ctx \<Rightarrow> nat \<Rightarrow> rstring \<Rightarrow> rstring \<Rightarrow> nat set \<Rightarrow> (group_index \<times> nat set) result" where
  "build_group 0 ctx address nm path visited =
     Error (Malformed ''group nesting exceeded the depth limit; the file may be cyclic'')"
| "build_group (Suc levels) ctx address nm path visited =
     (if address \<in> visited then Error (Malformed ''group link cycle'')
      else
        and_then (read_object_header ctx address) (\<lambda>oh.
        and_then (read_attributes ctx oh) (\<lambda>(attributes, complete).
        and_then (resolve_children ctx oh) (\<lambda>children.
        and_then (build_children ctx (build_group levels ctx) path children (insert address visited)) (\<lambda>(gs, ds, visited).
          Ok (GroupIndex nm path address attributes complete gs ds, visited))))))"

section \<open>The open file\<close>

record hdf5_file =
  f_source :: source
  f_superblock :: superblock
  f_root :: group_index
  f_cache :: "chunk_cache option"
  f_io :: io_config
  f_io_cache :: "io_cache option"

definition from_source_reusing :: "source \<Rightarrow> open_options \<Rightarrow> io_cache option \<Rightarrow> hdf5_file result" where
  "from_source_reusing src opts io_cache =
     and_then (read_superblock src) (\<lambda>sb.
     and_then (root_object_header_address sb) (\<lambda>address.
     and_then (build_group GROUP_LEVELS (with_io_cache io_cache (new_ctx src sb)) address [] [SLASH] {}) (\<lambda>(rt, _).
       Ok \<lparr>f_source = src, f_superblock = sb, f_root = rt, f_cache = build_chunk_cache opts, f_io = opt_io opts,
          f_io_cache = io_cache\<rparr>)))"

definition from_source_with :: "source \<Rightarrow> open_options \<Rightarrow> hdf5_file result" where
  "from_source_with src opts = and_then (build_io_cache opts) (\<lambda>cache. from_source_reusing src opts cache)"

definition from_source :: "source \<Rightarrow> hdf5_file result" where
  "from_source src = from_source_with src default_options"

definition file_with_io_cache :: "io_cache option \<Rightarrow> hdf5_file \<Rightarrow> hdf5_file" where
  "file_with_io_cache cache f = f\<lparr>f_io_cache := cache\<rparr>"

definition file_with_io :: "io_config \<Rightarrow> hdf5_file \<Rightarrow> hdf5_file" where
  "file_with_io io f = f\<lparr>f_io := io\<rparr>"

definition file_with_cache :: "chunk_cache option \<Rightarrow> hdf5_file \<Rightarrow> hdf5_file" where
  "file_with_cache cache f = f\<lparr>f_cache := cache\<rparr>"

definition file_ctx :: "hdf5_file \<Rightarrow> ctx" where
  "file_ctx f = with_io_cache (f_io_cache f) (with_io (f_io f) (new_ctx (f_source f) (f_superblock f)))"

definition file_datasets :: "hdf5_file \<Rightarrow> dataset_entry list" where
  "file_datasets f = datasets_recursive (f_root f)"

text \<open>The pieces of a path between separators, empty ones included, as \<open>str::split\<close> gives them.\<close>

fun split_path :: "rstring \<Rightarrow> rstring list" where
  "split_path [] = [[]]"
| "split_path (b # bs) = (if b = SLASH then [] # split_path bs else (b # hd (split_path bs)) # tl (split_path bs))"

definition trim_slashes :: "rstring \<Rightarrow> rstring" where
  "trim_slashes path = dropWhile (\<lambda>b. b = SLASH) path"

fun descend :: "group_index \<Rightarrow> rstring list \<Rightarrow> group_index option" where
  "descend g [] = Some g"
| "descend g (part # parts) = (case child_group g part of None \<Rightarrow> None | Some c \<Rightarrow> descend c parts)"

definition find_dataset :: "hdf5_file \<Rightarrow> rstring \<Rightarrow> dataset_entry option" where
  "find_dataset f path =
     (let trimmed = trim_slashes path in
      if trimmed = [] then None
      else
        let parts = split_path trimmed in
        case descend (f_root f) (butlast parts) of
          None \<Rightarrow> None
        | Some g \<Rightarrow> child_dataset g (last parts))"

fun prepare_each :: "ctx \<Rightarrow> dataset_entry list \<Rightarrow> once_chunks list \<Rightarrow> unit result \<times> once_chunks list" where
  "prepare_each ctx (d # ds) (lock # locks) =
     (case prepare d ctx lock of
        (r, lock') \<Rightarrow>
          (case r of
             Inl Panic \<Rightarrow> (panic, lock' # locks)
           | Inl (Err e) \<Rightarrow>
               if \<not> is_fallback_worthy e then (Error e, lock' # locks)
               else (case prepare_each ctx ds locks of (r, locks') \<Rightarrow> (r, lock' # locks'))
           | Inr _ \<Rightarrow> (case prepare_each ctx ds locks of (r, locks') \<Rightarrow> (r, lock' # locks'))))"
| "prepare_each ctx _ locks = (Ok (), locks)"

definition prepare_all :: "hdf5_file \<Rightarrow> once_chunks list \<Rightarrow> unit result \<times> once_chunks list" where
  "prepare_all f locks = prepare_each (file_ctx f) (file_datasets f) locks"

section \<open>Well-formed trees\<close>

fun group_addresses :: "group_index \<Rightarrow> nat list" where
  "group_addresses (GroupIndex nm path address attrs complete groups datasets) =
     address # concat (map group_addresses groups)"

fun tree_height :: "group_index \<Rightarrow> nat" where
  "tree_height (GroupIndex nm path address attrs complete groups datasets) =
     Suc (fold max (map tree_height groups) 0)"

fun paths_ok :: "group_index \<Rightarrow> bool" where
  "paths_ok (GroupIndex nm path address attrs complete groups datasets) \<longleftrightarrow>
     (\<forall>d \<in> set datasets. ds_path d = child_path path (ds_name d)) \<and>
     (\<forall>g \<in> set groups. g_path g = child_path path (g_name g) \<and> paths_ok g)"

definition built_well :: "nat \<Rightarrow> nat set \<Rightarrow> group_index \<Rightarrow> nat set \<Rightarrow> bool" where
  "built_well levels visited g visited' \<longleftrightarrow>
     paths_ok g \<and> tree_height g \<le> levels \<and> distinct (group_addresses g) \<and>
     set (group_addresses g) \<inter> visited = {} \<and> visited' = visited \<union> set (group_addresses g)"

lemma fold_max_le: "fold max xs (a :: nat) \<le> n \<longleftrightarrow> a \<le> n \<and> (\<forall>x \<in> set xs. x \<le> n)"
  by (induction xs arbitrary: a) auto

lemma build_dataset_names:
  "build_dataset ctx oh nm path address = Ok d \<Longrightarrow> ds_name d = nm \<and> ds_path d = path"
  by (auto simp: build_dataset_def Let_def result_simps)

lemma build_children_well:
  assumes build: "\<And>a nm p v g v'. build a nm p v = Ok (g, v') \<Longrightarrow> built_well levels v g v' \<and> g_name g = nm \<and> g_path g = p"
  shows "build_children ctx build path cs visited = Ok (gs, ds, visited') \<Longrightarrow>
    (\<forall>d \<in> set ds. ds_path d = child_path path (ds_name d)) \<and>
    (\<forall>g \<in> set gs. g_path g = child_path path (g_name g) \<and> paths_ok g \<and> tree_height g \<le> levels) \<and>
    distinct (concat (map group_addresses gs)) \<and> set (concat (map group_addresses gs)) \<inter> visited = {} \<and>
    visited' = visited \<union> set (concat (map group_addresses gs))"
proof (induction cs arbitrary: visited gs ds visited')
  case (Cons c cs)
  obtain oh where oh: "read_object_header ctx (child_address c) = Ok oh"
    using Cons.prems by (auto simp: and_then_Ok)
  let ?p = "child_path path (child_name c)"
  consider (dataset) "is_dataset oh" | (type) "\<not> is_dataset oh" "is_committed_datatype oh"
    | (group) "\<not> is_dataset oh" "\<not> is_committed_datatype oh" by blast
  then show ?case
  proof cases
    case dataset
    then obtain d ds' where d: "build_dataset ctx oh (child_name c) ?p (child_address c) = Ok d" "ds = d # ds'"
      "build_children ctx build path cs visited = Ok (gs, ds', visited')"
      using Cons.prems oh by (auto simp: and_then_Ok Let_def)
    then show ?thesis using Cons.IH [OF d(3)] build_dataset_names [OF d(1)] by auto
  next
    case type
    then show ?thesis using Cons oh by (simp add: Let_def)
  next
    case group
    then obtain g v gs' where g: "build (child_address c) (child_name c) ?p visited = Ok (g, v)" "gs = g # gs'"
      "build_children ctx build path cs v = Ok (gs', ds, visited')"
      using Cons.prems oh by (auto simp: and_then_Ok Let_def)
    then show ?thesis using Cons.IH [OF g(3)] build [OF g(1)] by (auto simp: built_well_def)
  qed
qed simp

lemma build_group_well:
  "build_group levels ctx address nm path visited = Ok (g, visited') \<Longrightarrow>
   built_well levels visited g visited' \<and> g_name g = nm \<and> g_path g = path"
proof (induction levels arbitrary: address nm path visited g visited')
  case (Suc levels)
  obtain oh attributes complete children gs ds where b: "address \<notin> visited"
    "build_children ctx (build_group levels ctx) path children (insert address visited) = Ok (gs, ds, visited')"
    "g = GroupIndex nm path address attributes complete gs ds"
    using Suc.prems by (auto simp: and_then_Ok split: if_splits)
  note w = build_children_well [where levels = levels, OF Suc.IH b(2)]
  then show ?case using b(1) unfolding b(3) built_well_def by (simp add: fold_max_le)
qed simp

section \<open>Lookup by path\<close>

fun names_ok :: "group_index \<Rightarrow> bool" where
  "names_ok (GroupIndex nm path address attrs complete groups datasets) \<longleftrightarrow>
     distinct (map ds_name datasets) \<and> distinct (map g_name groups) \<and>
     (\<forall>d \<in> set datasets. ds_name d \<noteq> [] \<and> SLASH \<notin> set (ds_name d)) \<and>
     (\<forall>g \<in> set groups. g_name g \<noteq> [] \<and> SLASH \<notin> set (g_name g) \<and> names_ok g)"

definition names_joined :: "rstring list \<Rightarrow> rstring" where
  "names_joined names = concat (map ((#) SLASH) names)"

fun path_join :: "rstring \<Rightarrow> rstring list \<Rightarrow> rstring" where
  "path_join p [] = p"
| "path_join p (n # ns) = path_join (child_path p n) ns"

lemma path_join_below: "p \<noteq> [SLASH] \<Longrightarrow> p \<noteq> [] \<Longrightarrow> path_join p ns = p @ names_joined ns"
proof (induction ns arbitrary: p)
  case (Cons n ns)
  have "p @ [SLASH] @ n \<noteq> [SLASH]" "p @ [SLASH] @ n \<noteq> []" using Cons.prems by (cases p, auto)+
  from Cons.IH [OF this] show ?case using Cons.prems(1) by (simp add: names_joined_def child_path_def)
qed (simp add: names_joined_def)

lemma path_join_root: "\<forall>n \<in> set ns. n \<noteq> [] \<Longrightarrow> ns \<noteq> [] \<Longrightarrow> path_join [SLASH] ns = names_joined ns"
  using path_join_below by (cases ns) (auto simp: names_joined_def child_path_def)

lemma split_path_nonempty [simp]: "split_path bs \<noteq> []"
  by (induction bs) auto

lemma split_path_append: "SLASH \<notin> set n \<Longrightarrow> split_path (n @ bs) = (n @ hd (split_path bs)) # tl (split_path bs)"
  by (induction n) auto

lemma split_path_names:
  "SLASH \<notin> set n \<Longrightarrow> \<forall>m \<in> set ns. SLASH \<notin> set m \<Longrightarrow> split_path (n @ names_joined ns) = n # ns"
proof (induction ns arbitrary: n)
  case (Cons m ns)
  then show ?case using split_path_append [of n "SLASH # m @ names_joined ns"] by (simp add: names_joined_def)
qed (simp add: names_joined_def split_path_append [of _ "[]", simplified])

lemma find_distinct: "distinct (map f xs) \<Longrightarrow> x \<in> set xs \<Longrightarrow> find (\<lambda>y. f y = f x) xs = Some x"
  by (induction xs) (auto simp: rev_image_eqI)

lemma dataset_located:
  "paths_ok g \<Longrightarrow> names_ok g \<Longrightarrow> d \<in> set (datasets_recursive g) \<Longrightarrow>
   \<exists>names g'. descend g names = Some g' \<and> child_dataset g' (ds_name d) = Some d \<and>
     ds_path d = path_join (g_path g) (names @ [ds_name d]) \<and> (\<forall>n \<in> set (names @ [ds_name d]). n \<noteq> [] \<and> SLASH \<notin> set n)"
proof (induction g)
  case (GroupIndex nm path address attrs complete groups datasets)
  let ?g = "GroupIndex nm path address attrs complete groups datasets"
  show ?case
  proof (cases "d \<in> set datasets")
    case True
    have "child_dataset ?g (ds_name d) = Some d" using GroupIndex.prems(2) True by (simp add: child_dataset_def find_distinct)
    then show ?thesis using GroupIndex.prems True by (intro exI [of _ "[]"]) auto
  next
    case False
    then obtain c where c: "c \<in> set groups" "d \<in> set (datasets_recursive c)" using GroupIndex.prems(3) by auto
    then have ok: "paths_ok c" "names_ok c" "g_path c = child_path path (g_name c)" "g_name c \<noteq> []" "SLASH \<notin> set (g_name c)"
      "distinct (map g_name groups)" using GroupIndex.prems by auto
    obtain names g' where n: "descend c names = Some g'" "child_dataset g' (ds_name d) = Some d"
      "ds_path d = path_join (g_path c) (names @ [ds_name d])" "\<forall>n \<in> set (names @ [ds_name d]). n \<noteq> [] \<and> SLASH \<notin> set n"
      using GroupIndex.IH(1) [OF c(1) ok(1,2) c(2)] by blast
    have "child_group ?g (g_name c) = Some c" using ok(6) c(1) by (simp add: child_group_def find_distinct)
    then have "descend ?g (g_name c # names) = Some g'" using n(1) by simp
    then show ?thesis using n ok(3-5) by (intro exI [of _ "g_name c # names"] exI [of _ g']) auto
  qed
qed

lemma split_joined:
  assumes "names \<noteq> []" and "\<forall>n \<in> set names. n \<noteq> [] \<and> SLASH \<notin> set n"
  shows "split_path (trim_slashes (path_join [SLASH] names)) = names" and "trim_slashes (path_join [SLASH] names) \<noteq> []"
proof -
  obtain m ms where ms: "names = m # ms" using assms(1) by (cases names) auto
  then have m: "m \<noteq> []" "SLASH \<notin> set m" "\<forall>x \<in> set ms. SLASH \<notin> set x" using assms(2) by auto
  have trim: "trim_slashes (path_join [SLASH] names) = m @ names_joined ms"
    using path_join_root [of names] assms m(1,2) unfolding ms by (cases m) (auto simp: trim_slashes_def names_joined_def)
  show "split_path (trim_slashes (path_join [SLASH] names)) = names" using split_path_names [OF m(2,3)] trim ms by simp
  show "trim_slashes (path_join [SLASH] names) \<noteq> []" unfolding trim using m(1) by simp
qed

lemma opened_root:
  assumes "from_source_with src opts = Ok f"
  shows "paths_ok (f_root f) \<and> g_path (f_root f) = [SLASH]"
proof -
  obtain cache sb address v where "build_group GROUP_LEVELS (with_io_cache cache (new_ctx src sb)) address [] [SLASH] {} = Ok (f_root f, v)"
    using assms by (auto simp: from_source_with_def from_source_reusing_def and_then_Ok)
  from build_group_well [OF this] show ?thesis by (simp add: built_well_def)
qed

lemma dataset_found:
  assumes "paths_ok (f_root f) \<and> g_path (f_root f) = [SLASH]" and "names_ok (f_root f)" and "d \<in> set (file_datasets f)"
  shows "find_dataset f (ds_path d) = Some d"
proof -
  obtain names g where n: "descend (f_root f) names = Some g" "child_dataset g (ds_name d) = Some d"
    "ds_path d = path_join [SLASH] (names @ [ds_name d])" "\<forall>n \<in> set (names @ [ds_name d]). n \<noteq> [] \<and> SLASH \<notin> set n"
    using dataset_located [of "f_root f" d] assms unfolding file_datasets_def by metis
  then show ?thesis using split_joined [OF _ n(4)] by (simp add: find_dataset_def Let_def)
qed

section \<open>Preparing\<close>

lemma dataset_chunks_cell:
  "dataset_chunks ds ctx lock = (r, lock') \<Longrightarrow>
     (case r of Inr c \<Rightarrow> lock' = Some c | Inl e \<Rightarrow> lock = None \<and> lock' = None \<and> resolve_chunks ds ctx = Inl e)"
  by (auto simp: dataset_chunks_def split: option.splits sum.splits)

lemma prepare_cell:
  assumes "prepare ds ctx lock = (r, lock')"
  shows "case r of Inr _ \<Rightarrow> lock' \<noteq> None \<and> (lock = None \<longrightarrow> resolve_chunks ds ctx = Ok (the lock')) \<and> (lock \<noteq> None \<longrightarrow> lock' = lock)
    | Inl e \<Rightarrow> lock = None \<and> lock' = None \<and> resolve_chunks ds ctx = Inl e"
  using assms by (auto simp: prepare_def dataset_chunks_def split: option.splits sum.splits prod.splits)

definition prepared_as :: "ctx \<Rightarrow> dataset_entry \<Rightarrow> once_chunks \<Rightarrow> once_chunks \<Rightarrow> bool" where
  "prepared_as ctx d lock lock' \<longleftrightarrow>
     (lock \<noteq> None \<longrightarrow> lock' = lock) \<and>
     (lock = None \<longrightarrow> (case resolve_chunks d ctx of Inr c \<Rightarrow> lock' = Some c | Inl e \<Rightarrow> lock' = None \<and> (\<exists>x. e = Err x \<and> is_fallback_worthy x)))"

lemma prepare_each_OkE:
  assumes "prepare_each ctx (d # ds) (lock # locks) = (Ok (), locks')"
  obtains r lock' tl' where "prepare d ctx lock = (r, lock')" "locks' = lock' # tl'" "prepare_each ctx ds locks = (Ok (), tl')"
    "\<And>e. r = Inl e \<Longrightarrow> \<exists>x. e = Err x \<and> is_fallback_worthy x"
proof -
  obtain r lock' where p: "prepare d ctx lock = (r, lock')" by fastforce
  have "\<exists>tl'. locks' = lock' # tl' \<and> prepare_each ctx ds locks = (Ok (), tl') \<and> (\<forall>e. r = Inl e \<longrightarrow> (\<exists>x. e = Err x \<and> is_fallback_worthy x))"
    using assms p by (auto split: sum.splits failure.splits prod.splits if_splits)
  then show ?thesis using that p by blast
qed

lemma prepare_each_cells:
  "length ds = length locks \<Longrightarrow> prepare_each ctx ds locks = (Ok (), locks') \<Longrightarrow>
   length locks' = length ds \<and> (\<forall>i < length ds. prepared_as ctx (ds ! i) (locks ! i) (locks' ! i))"
proof (induction ds locks arbitrary: locks' rule: list_induct2)
  case (Cons d ds lock locks)
  from prepare_each_OkE [OF Cons.prems] obtain r lock' tl' where p: "prepare d ctx lock = (r, lock')" "locks' = lock' # tl'"
    "prepare_each ctx ds locks = (Ok (), tl')" "\<And>e. r = Inl e \<Longrightarrow> \<exists>x. e = Err x \<and> is_fallback_worthy x" by metis
  have "prepared_as ctx d lock lock'"
    using prepare_cell [OF p(1)] p(4) by (cases r) (auto simp: prepared_as_def)
  then show ?case using Cons.IH [OF p(3)] p(2) by (auto simp: nth_Cons split: nat.splits)
qed auto

section \<open>A small file\<close>

text \<open>A superblock, a root group with one link, and a compact dataset of two bytes.\<close>

definition small_link :: link where
  "small_link = \<lparr>link_name = [120], target = Hard 75, link_order = None\<rparr>"

definition small_message :: "message_type \<Rightarrow> bytes \<Rightarrow> header_message" where
  "small_message k data = \<lparr>msg_kind = k, msg_flags = 0, creation_order = None, msg_data = data\<rparr>"

definition small_space :: dataspace where
  "small_space = \<lparr>ds_kind = Simple, dims = [2], max_dims = None\<rparr>"

definition small_type :: hdf_type where
  "small_type = Datatype 1 1 (FixedPoint Little False 0 8)"

definition root_messages :: "header_message list" where
  "root_messages = [small_message LinkMsg (encode_link EIGHT 0 False None small_link)]"

definition dataset_messages :: "header_message list" where
  "dataset_messages = [small_message DataspaceMsg (encode_dataspace EIGHT small_space), small_message DatatypeMsg (encode_type small_type),
     small_message DataLayoutMsg [3, 0, 2, 0, 10, 20]]"

definition small_header :: "header_message list \<Rightarrow> bytes" where
  "small_header ms = ohdr_block 0 [] [] (chunk_body EIGHT False ms None)"

definition small_file :: bytes where
  "small_file = encode_superblock 0 example_superblock 48 @ small_header root_messages @ small_header dataset_messages"

definition small_dataset :: dataset_entry where
  "small_dataset = \<lparr>ds_shape = [2], ds_datatype = small_type, ds_layout = Compact [10, 20], ds_pipeline = [], ds_fill_value = None,
     ds_name = [120], ds_path = [SLASH, 120], ds_address = 75, ds_max_shape = None, ds_attributes = [], ds_attributes_complete = True\<rparr>"

definition small_root :: group_index where
  "small_root = GroupIndex [] [SLASH] 48 [] True [] [small_dataset]"

lemma small_message_simps [simp]: "msg_kind (small_message k d) = k" "msg_data (small_message k d) = d" "\<not> is_shared (small_message k d)"
  by (simp_all add: small_message_def is_shared_def)

lemma length_small_header: "length (small_header ms) = 11 + length (chunk_body EIGHT False ms None)"
  by (simp add: small_header_def ohdr_block_def with_checksum_def length_ohdr_prefix)

lemma read_small_header:
  assumes "reader ctx contents" "ctx_sizes ctx = EIGHT" "stored_at ctx contents a (small_header ms)"
    and "\<forall>m \<in> set ms. encodable False m \<and> msg_kind m \<noteq> ObjectHeaderContinuationMsg \<and> msg_kind m \<noteq> NilMsg"
    and "length (chunk_body EIGHT False ms None) < 256"
  shows "read_object_header ctx a = Ok \<lparr>oh_address = a, oh_version = 2, messages = ms\<rparr>"
proof -
  have "stored_header ctx contents a 0 [] [] ms []"
    using assms by (simp add: stored_header_def small_header_def MAX_CONTINUATION_BLOCKS_def)
  from reader.read_stored_header [OF assms(1) this] show ?thesis
    using assms(4) by (simp add: prefix_len_def visible_def)
qed

lemma small_body_lengths:
  "length (chunk_body EIGHT False root_messages None) = 16" "length (chunk_body EIGHT False dataset_messages None) = 42"
  by (simp_all add: chunk_body_def encode_frame_def root_messages_def dataset_messages_def small_message_def encode_link_def
      small_link_def encode_dataspace_def encode_dims_def small_space_def small_type_def EIGHT_def)

lemma small_encodable: "m \<in> set (root_messages @ dataset_messages) \<Longrightarrow>
    encodable False m \<and> msg_kind m \<noteq> ObjectHeaderContinuationMsg \<and> msg_kind m \<noteq> NilMsg"
  by (auto simp: root_messages_def dataset_messages_def small_message_def encodable_def framed_def code_of_def position_or_def
      known_types_def from_code_def encode_link_def small_link_def encode_dataspace_def encode_dims_def small_space_def
      small_type_def EIGHT_def)

lemma small_reader: "length b \<le> isize_max \<Longrightarrow> reader (with_io_cache None (new_ctx (memory_source b) example_superblock)) b"
  using memory_reader [of b] by (simp add: with_io_cache_def new_ctx_def)

lemma length_small_superblock: "length (encode_superblock 0 example_superblock 48) = 48"
  by (simp add: encode_superblock_def encode_superblock_body_def HDF5_SIGNATURE_def example_superblock_def EIGHT_def)

lemma small_file_small: "length small_file \<le> isize_max"
  by (simp add: small_file_def length_small_header small_body_lengths length_small_superblock isize_max_def)

definition small_ctx :: ctx where
  "small_ctx = with_io_cache None (new_ctx (memory_source small_file) example_superblock)"

lemma small_ctx_simps: "reader small_ctx small_file" "ctx_sizes small_ctx = EIGHT"
  "stored_at small_ctx small_file 48 (small_header root_messages)" "stored_at small_ctx small_file 75 (small_header dataset_messages)"
proof -
  have c: "small_ctx = new_ctx (memory_source small_file) example_superblock" by (simp add: small_ctx_def with_io_cache_def new_ctx_def)
  show "reader small_ctx small_file" using small_reader [OF small_file_small] by (simp add: small_ctx_def)
  show "ctx_sizes small_ctx = EIGHT" by (simp add: c)
  let ?sb = "encode_superblock 0 example_superblock 48" and ?r = "small_header root_messages" and ?d = "small_header dataset_messages"
  show "stored_at small_ctx small_file 48 ?r" unfolding c
    by (rule memory_stored [of _ ?sb ?r ?d]) (simp_all only: small_file_def length_small_superblock small_file_small [unfolded small_file_def])
  show "stored_at small_ctx small_file 75 ?d" unfolding c
    by (rule memory_stored [of _ "?sb @ ?r" ?d "[]"], simp add: small_file_def,
        simp add: length_small_superblock length_small_header small_body_lengths, rule small_file_small)
qed

lemma small_headers:
  "read_object_header small_ctx 48 = Ok \<lparr>oh_address = 48, oh_version = 2, messages = root_messages\<rparr>"
  "read_object_header small_ctx 75 = Ok \<lparr>oh_address = 75, oh_version = 2, messages = dataset_messages\<rparr>"
  using read_small_header [OF small_ctx_simps(1,2,3)] read_small_header [OF small_ctx_simps(1,2,4)] small_encodable
  by (simp_all add: small_body_lengths)

lemma small_link_parsed: "parse_link (encode_link EIGHT 0 False None small_link) EIGHT = Ok small_link"
proof -
  have "valid_utf8 [120]" by (rule valid_utf8_ascii) simp
  then have "link_ok EIGHT 0 False small_link"
    by (simp add: link_ok_def small_link_def fits_address_def undefined_for_width_def u64_max_def EIGHT_def)
  from run_p_reads [OF reads_link [OF sizes_ok_EIGHT this, of None], of "[]"] show ?thesis
    by (simp add: parse_link_def encode_link_def small_link_def EIGHT_def isize_max_def)
qed

lemma small_messages_parsed:
  "parse_dataspace (encode_dataspace EIGHT small_space) EIGHT = Ok small_space" "parse_datatype (encode_type small_type) = Ok small_type"
  "parse_layout [3, 0, 2, 0, 10, 20] EIGHT = Ok (Compact [10, 20])"
proof -
  have "dataspace_ok EIGHT small_space" by (simp add: dataspace_ok_def small_space_def EIGHT_def)
  from run_p_reads [OF reads_dataspace [OF sizes_ok_EIGHT this], of "[]"]
  show "parse_dataspace (encode_dataspace EIGHT small_space) EIGHT = Ok small_space"
    by (simp add: parse_dataspace_def encode_dataspace_def encode_dims_def small_space_def EIGHT_def isize_max_def)
  show "parse_datatype (encode_type small_type) = Ok small_type"
    using parse_encoded [of small_type "[]"] by (simp add: small_type_def isize_max_def)
  have "reads (bind_p u16 (\<lambda>sz. bind_p (take_bytes sz) (\<lambda>data. ret_p (Compact data)))) (to_le 2 2 @ [10, 20]) (Compact [10, 20])"
    by (rule reads_bind [OF reads_u16], simp, rule reads_bind_last [OF reads_take], simp, rule reads_ret)
  then have "reads (parse_layout_v3 EIGHT) (to_le 1 0 @ to_le 2 2 @ [10, 20]) (Compact [10, 20])"
    unfolding parse_layout_v3_def by (intro reads_bind [OF reads_u8]) simp_all
  then have "reads (parse_layout_p EIGHT) (to_le 1 3 @ to_le 1 0 @ to_le 2 2 @ [10, 20]) (Compact [10, 20])"
    unfolding parse_layout_p_def by (intro reads_bind [OF reads_u8]) simp_all
  from run_p_reads [OF this, of "[]"] show "parse_layout [3, 0, 2, 0, 10, 20] EIGHT = Ok (Compact [10, 20])"
    by (simp add: parse_layout_def isize_max_def to_le_numeral)
qed

lemma small_tree_built: "build_group GROUP_LEVELS small_ctx 48 [] [SLASH] {} = Ok (small_root, {48})"
proof -
  obtain levels where l: "GROUP_LEVELS = Suc levels" by (cases GROUP_LEVELS) (auto simp: GROUP_LEVELS_def)
  note oh = message_of_def messages_of_def oh_attribute_info_def compact_attributes_def read_attributes_def
  have ds: "build_dataset small_ctx \<lparr>oh_address = 75, oh_version = 2, messages = dataset_messages\<rparr> [120] [SLASH, 120] 75 = Ok small_dataset"
    by (simp add: build_dataset_def oh oh_dataspace_def oh_datatype_def oh_layout_def oh_filter_pipeline_def oh_fill_value_def
        dataset_messages_def small_ctx_simps(2) small_messages_parsed reject_shared_def ensure_def required_def)
      (simp add: small_dataset_def small_space_def)
  have cs: "resolve_children small_ctx \<lparr>oh_address = 48, oh_version = 2, messages = root_messages\<rparr> = Ok [\<lparr>child_name = [120], child_address = 75\<rparr>]"
    by (simp add: resolve_children_def oh_symbol_table_def linked_children_def compact_links_def oh_link_info_def oh root_messages_def
        small_ctx_simps(2) small_link_parsed hard_children_def List.map_filter_simps)
      (simp add: hard_child_def hard_address_def small_link_def)
  have "is_dataset \<lparr>oh_address = 75, oh_version = 2, messages = dataset_messages\<rparr>"
    by (simp add: is_dataset_def oh dataset_messages_def)
  moreover have "read_attributes small_ctx \<lparr>oh_address = 48, oh_version = 2, messages = root_messages\<rparr> = Ok ([], True)"
    by (simp add: oh root_messages_def)
  ultimately show ?thesis unfolding l using small_headers ds cs by (simp add: child_path_def small_root_def)
qed

definition small_open :: hdf5_file where
  "small_open = \<lparr>f_source = memory_source small_file, f_superblock = example_superblock, f_root = small_root,
     f_cache = build_chunk_cache (without_io_cache default_options), f_io = LOCAL, f_io_cache = None\<rparr>"

lemma small_file_opens: "from_source_with (memory_source small_file) (without_io_cache default_options) = Ok small_open"
proof -
  let ?post = "small_header root_messages @ small_header dataset_messages"
  let ?c = "[] @ encode_superblock 0 example_superblock 48 @ ?post"
  have src: "byte_source (memory_source small_file) ?c"
    using byte_source_memory [OF small_file_small] by (simp add: small_file_def)
  have first: "first_signature ?c (length [])"
    by (simp add: first_signature_def is_probe_def encode_superblock_def encode_superblock_body_def HDF5_SIGNATURE_def slice_def)
  have "encodable_superblock 0 example_superblock 48"
    by (simp add: encodable_superblock_def example_superblock_def fits_address_def undefined_for_width_def u64_max_def)
      (simp add: EIGHT_def)
  from read_encoded_superblock [OF src first this] have "read_superblock (memory_source small_file) = Ok example_superblock"
    by (simp add: example_superblock_def)
  moreover have "root_object_header_address example_superblock = Ok 48"
    by (simp add: root_object_header_address_def example_superblock_def)
  ultimately show ?thesis using small_tree_built
    by (simp add: from_source_with_def build_io_cache_def without_io_cache_def from_source_reusing_def small_ctx_def [symmetric])
      (simp add: small_open_def default_options_def without_io_cache_def)
qed

section \<open>Properties\<close>

text \<open>
  C3.  The tree of an opened file is well formed: the path of every group and dataset is its
  parent's path and its own name, no group occurs twice, and the tree is at most 65 groups deep, so
  building it ends however the links of the file loop.
\<close>

theorem opened_tree_well_formed:
  assumes "from_source_with src opts = Ok f"
  shows "paths_ok (f_root f) \<and> g_path (f_root f) = [SLASH] \<and> distinct (group_addresses (f_root f)) \<and> tree_height (f_root f) \<le> 65"
proof -
  obtain cache sb address v where "build_group GROUP_LEVELS (with_io_cache cache (new_ctx src sb)) address [] [SLASH] {} = Ok (f_root f, v)"
    using assms by (auto simp: from_source_with_def from_source_reusing_def and_then_Ok)
  from build_group_well [OF this] show ?thesis by (simp add: built_well_def GROUP_LEVELS_def)
qed

theorem opened_tree_well_formed_witness:
  "paths_ok small_root \<and> from_source_with (memory_source small_file) (without_io_cache default_options) = Ok small_open"
  using opened_tree_well_formed [OF small_file_opens] small_file_opens by (simp add: small_open_def)

text \<open>
  C2.  Every dataset of an opened file is found again by its path, whenever the names within each
  group are distinct, not empty and without a separator, as netCDF requires of them.
\<close>

theorem datasets_found_by_path:
  assumes "from_source_with src opts = Ok f" and "names_ok (f_root f)" and "d \<in> set (file_datasets f)"
  shows "find_dataset f (ds_path d) = Some d"
  using dataset_found [OF opened_root [OF assms(1)] assms(2,3)] .

theorem datasets_found_by_path_witness: "find_dataset small_open [SLASH, 120] = Some small_dataset"
  using datasets_found_by_path [OF small_file_opens, of small_dataset]
  by (simp add: small_open_def small_root_def file_datasets_def) (simp add: small_dataset_def SLASH_def)

text \<open>
  C37.  When preparing a file succeeds, every dataset's chunk index is the one resolving it gives, one
  resolved before is kept, and only a dataset whose index this reader does not support is left
  unresolved.
\<close>

theorem prepare_all_resolves:
  assumes "prepare_all f locks = (Ok (), locks')" and "length locks = length (file_datasets f)"
  shows "length locks' = length (file_datasets f) \<and>
    (\<forall>i < length (file_datasets f). prepared_as (file_ctx f) (file_datasets f ! i) (locks ! i) (locks' ! i))"
  using prepare_each_cells [of "file_datasets f" locks "file_ctx f" locks'] assms by (simp add: prepare_all_def)

theorem prepare_all_resolves_witness:
  "prepare_all small_open [None] = (Ok (), [Some None]) \<and> prepared_as (file_ctx small_open) small_dataset None (Some None)"
proof -
  have r: "resolve_chunks small_dataset ctx = Ok None" for ctx by (simp add: resolve_chunks_def small_dataset_def)
  then have p: "prepare_all small_open [None] = (Ok (), [Some None])"
    by (simp add: prepare_all_def file_datasets_def small_open_def small_root_def prepare_def dataset_chunks_def)
  have "prepared_as (file_ctx small_open) small_dataset None (Some None)"
    using prepare_all_resolves [OF p] by (simp add: file_datasets_def small_open_def small_root_def)
  then show ?thesis using p by simp
qed

end
