(* ===== verification/Ieee_Float.thy ===== *)
theory Ieee_Float
  imports Rust_Prelude
begin

text \<open>
  The floating-point conversions of the Rust language that the readers use: \<open>as f64\<close>, \<open>as f32\<close> and
  \<open>as\<close> an integer type.  A float is its bit pattern.  A format is given by the width of its
  mantissa field, the width of its exponent field and the exponent of its least normal number; the
  two instances are \<open>f32\<close> and \<open>f64\<close>.  Conversions to a float round to nearest, ties to even;
  conversions to an integer truncate towards zero and saturate, and a NaN becomes 0.  The language
  leaves the payload of a converted NaN open; here it keeps its sign and the leading payload bits
  and becomes quiet, which is what the common processors do.
\<close>

section \<open>Formats\<close>

record float_format =
  mant_bits :: nat
  exp_bits :: nat

definition f32_format :: float_format where
  "f32_format = \<lparr>mant_bits = 23, exp_bits = 8\<rparr>"

definition f64_format :: float_format where
  "f64_format = \<lparr>mant_bits = 52, exp_bits = 11\<rparr>"

definition exp_bias :: "float_format \<Rightarrow> int" where
  "exp_bias fmt = 2 ^ (exp_bits fmt - 1) - 1"

text \<open>The exponent of the last mantissa bit of the subnormal and of the least normal numbers.\<close>

definition min_quantum :: "float_format \<Rightarrow> int" where
  "min_quantum fmt = 1 - exp_bias fmt - int (mant_bits fmt)"

definition infinity_bits :: "float_format \<Rightarrow> nat" where
  "infinity_bits fmt = (2 ^ exp_bits fmt - 1) * 2 ^ mant_bits fmt"

definition sign_bit :: "float_format \<Rightarrow> nat" where
  "sign_bit fmt = 2 ^ (exp_bits fmt + mant_bits fmt)"

definition float_neg :: "float_format \<Rightarrow> nat \<Rightarrow> bool" where
  "float_neg fmt b \<longleftrightarrow> b div sign_bit fmt mod 2 \<noteq> 0"

definition magnitude :: "float_format \<Rightarrow> nat \<Rightarrow> nat" where
  "magnitude fmt b = b mod sign_bit fmt"

definition with_sign :: "float_format \<Rightarrow> bool \<Rightarrow> nat \<Rightarrow> nat" where
  "with_sign fmt neg mag = (if neg then sign_bit fmt + mag else mag)"

definition is_nan :: "float_format \<Rightarrow> nat \<Rightarrow> bool" where
  "is_nan fmt b \<longleftrightarrow> infinity_bits fmt < magnitude fmt b"

definition is_infinite :: "float_format \<Rightarrow> nat \<Rightarrow> bool" where
  "is_infinite fmt b \<longleftrightarrow> magnitude fmt b = infinity_bits fmt"

text \<open>A finite magnitude is \<open>m * 2 ^ k\<close>.\<close>

definition finite_parts :: "float_format \<Rightarrow> nat \<Rightarrow> nat \<times> int" where
  "finite_parts fmt mag =
     (let x = mag div 2 ^ mant_bits fmt; m = mag mod 2 ^ mant_bits fmt in
      if x = 0 then (m, min_quantum fmt) else (2 ^ mant_bits fmt + m, min_quantum fmt + int x - 1))"

section \<open>Rounding\<close>

fun highest_bit :: "nat \<Rightarrow> nat" where
  "highest_bit n = (if n \<le> 1 then 0 else Suc (highest_bit (n div 2)))"

declare highest_bit.simps [simp del]

definition round_shift :: "nat \<Rightarrow> nat \<Rightarrow> nat" where
  "round_shift m s =
     (let q = m div 2 ^ s; r = 2 * (m mod 2 ^ s) in
      if r > 2 ^ s \<or> (r = 2 ^ s \<and> q mod 2 = 1) then q + 1 else q)"

text \<open>The magnitude of \<open>m * 2 ^ k\<close> in a format; a carry out of the mantissa enters the exponent field.\<close>

definition round_parts :: "float_format \<Rightarrow> nat \<Rightarrow> int \<Rightarrow> nat" where
  "round_parts fmt m k =
     (if m = 0 then 0
      else
        let q = max (k + int (highest_bit m) - int (mant_bits fmt)) (min_quantum fmt);
            n = (if q \<le> k then m * 2 ^ nat (k - q) else round_shift m (nat (q - k)))
        in min (nat (q - min_quantum fmt) * 2 ^ mant_bits fmt + n) (infinity_bits fmt))"

section \<open>Conversions\<close>

definition float_of_int :: "float_format \<Rightarrow> int \<Rightarrow> nat" where
  "float_of_int fmt i = with_sign fmt (i < 0) (round_parts fmt (nat \<bar>i\<bar>) 0)"

definition quiet_nan :: "float_format \<Rightarrow> float_format \<Rightarrow> nat \<Rightarrow> nat" where
  "quiet_nan src dst mag =
     (let payload = mag mod 2 ^ mant_bits src;
          moved = (if mant_bits src \<le> mant_bits dst then payload * 2 ^ (mant_bits dst - mant_bits src)
                   else payload div 2 ^ (mant_bits src - mant_bits dst));
          quiet = 2 ^ (mant_bits dst - 1)
      in infinity_bits dst + quiet + moved mod quiet)"

definition convert_float :: "float_format \<Rightarrow> float_format \<Rightarrow> nat \<Rightarrow> nat" where
  "convert_float src dst b =
     (let neg = float_neg src b; mag = magnitude src b in
      if is_nan src b then with_sign dst neg (quiet_nan src dst mag)
      else if is_infinite src b then with_sign dst neg (infinity_bits dst)
      else case finite_parts src mag of (m, k) \<Rightarrow> with_sign dst neg (round_parts dst m k))"

definition truncate_parts :: "nat \<Rightarrow> int \<Rightarrow> nat" where
  "truncate_parts m k = (if 0 \<le> k then m * 2 ^ nat k else m div 2 ^ nat (- k))"

definition float_to_int :: "float_format \<Rightarrow> int \<Rightarrow> int \<Rightarrow> nat \<Rightarrow> int" where
  "float_to_int fmt lo hi b =
     (if is_nan fmt b then 0
      else if is_infinite fmt b then (if float_neg fmt b then lo else hi)
      else case finite_parts fmt (magnitude fmt b) of (m, k) \<Rightarrow>
        let v = int (truncate_parts m k) in max lo (min hi (if float_neg fmt b then - v else v)))"

section \<open>Shifting and rounding\<close>

lemma highest_bit_bounds:
  "0 < n \<Longrightarrow> 2 ^ highest_bit n \<le> n \<and> n < 2 * 2 ^ highest_bit n"
proof (induction n rule: highest_bit.induct)
  case (1 n)
  show ?case
  proof (cases "n \<le> 1")
    case False
    then have "2 ^ highest_bit (n div 2) \<le> n div 2 \<and> n div 2 < 2 * 2 ^ highest_bit (n div 2)" using 1 by simp
    then show ?thesis using False by (auto simp: highest_bit.simps [of n])
  qed (use 1 in \<open>simp add: highest_bit.simps\<close>)
qed

lemma highest_bit_unique: "2 ^ e \<le> n \<Longrightarrow> n < 2 * 2 ^ e \<Longrightarrow> highest_bit n = e"
proof -
  assume a: "2 ^ e \<le> n" "n < 2 * 2 ^ e"
  then have h: "2 ^ highest_bit n \<le> n" "n < 2 * 2 ^ highest_bit n"
    using highest_bit_bounds [of n] by (auto intro: Nat.gr0I)
  have "(2 :: nat) ^ e < 2 ^ Suc (highest_bit n)" "(2 :: nat) ^ highest_bit n < 2 ^ Suc e" using a h by auto
  then show ?thesis by (simp only: power_strict_increasing_iff)
qed

lemma highest_bit_less: "0 < m \<Longrightarrow> m < 2 ^ p \<Longrightarrow> highest_bit m < p"
proof -
  assume "0 < m" "m < 2 ^ p"
  then have "(2 :: nat) ^ highest_bit m < 2 ^ p" using highest_bit_bounds [of m] by (blast intro: le_less_trans)
  then show ?thesis by (simp only: power_strict_increasing_iff)
qed

lemma highest_bit_scale: "0 < m \<Longrightarrow> highest_bit (m * 2 ^ j) = highest_bit m + j"
proof (rule highest_bit_unique)
  assume "0 < m"
  then have b: "2 ^ highest_bit m \<le> m" "m < 2 * 2 ^ highest_bit m" using highest_bit_bounds by auto
  show "2 ^ (highest_bit m + j) \<le> m * 2 ^ j" using b(1) by (simp add: power_add)
  show "m * 2 ^ j < 2 * 2 ^ (highest_bit m + j)" using b(2) by (simp add: power_add)
qed

lemma round_shift_scale: "round_shift (m * 2 ^ j) (s + j) = round_shift m s"
proof -
  have "m * 2 ^ j div 2 ^ (s + j) = m div 2 ^ s" by (simp add: power_add)
  moreover have "m * 2 ^ j mod 2 ^ (s + j) = m mod 2 ^ s * 2 ^ j" by (simp add: power_add mod_mult_mult2)
  ultimately show ?thesis by (simp add: round_shift_def Let_def power_add)
qed

lemma round_shift_exact: "round_shift (m * 2 ^ s) s = m"
  by (simp add: round_shift_def)

text \<open>The rounded quotient is nearest: its error is at most half of the unit dropped.\<close>

lemma round_shift_nearest: "2 * \<bar>int m - int (round_shift m s) * 2 ^ s\<bar> \<le> 2 ^ s"
proof -
  define u q r where "u = (2 :: nat) ^ s" and "q = m div u" and "r = m mod u"
  have m: "m = q * u + r" unfolding q_def r_def by (rule div_mult_mod_eq [symmetric])
  have r: "r < u" by (simp add: r_def u_def)
  have eq: "round_shift m s = (if 2 * r > u \<or> (2 * r = u \<and> q mod 2 = 1) then q + 1 else q)"
    by (simp add: round_shift_def q_def r_def u_def Let_def)
  have "2 * \<bar>int m - int (round_shift m s) * int u\<bar> \<le> int u"
  proof (cases "2 * r > u \<or> (2 * r = u \<and> q mod 2 = 1)")
    case True
    then have "int m - int (round_shift m s) * int u = int r - int u" unfolding eq by (simp add: m algebra_simps)
    then show ?thesis using True r by auto
  next
    case False
    then have "int m - int (round_shift m s) * int u = int r" unfolding eq if_not_P [OF False] by (simp add: m)
    then show ?thesis using False r by auto
  qed
  then show ?thesis by (simp add: u_def)
qed

lemma round_parts_scale: "round_parts fmt (m * 2 ^ j) (k - int j) = round_parts fmt m k"
proof (cases "m = 0")
  case False
  define q where "q = max (k + int (highest_bit m) - int (mant_bits fmt)) (min_quantum fmt)"
  have q': "max (k - int j + int (highest_bit (m * 2 ^ j)) - int (mant_bits fmt)) (min_quantum fmt) = q"
    using False by (simp add: highest_bit_scale q_def)
  have "(if q \<le> k - int j then m * 2 ^ j * 2 ^ nat (k - int j - q) else round_shift (m * 2 ^ j) (nat (q - (k - int j))))
      = (if q \<le> k then m * 2 ^ nat (k - q) else round_shift m (nat (q - k)))"
  proof (cases "q \<le> k")
    case True
    show ?thesis
    proof (cases "q \<le> k - int j")
      case True
      then have "nat (k - q) = j + nat (k - int j - q)" by simp
      then show ?thesis using True \<open>q \<le> k\<close> by (simp add: power_add)
    next
      case False
      then have "j = nat (k - q) + nat (q - (k - int j))" using True by simp
      then have "m * 2 ^ j = m * 2 ^ nat (k - q) * 2 ^ nat (q - (k - int j))" by (metis power_add mult.assoc)
      then show ?thesis using False True by (simp only: round_shift_exact if_False if_True)
    qed
  next
    case False
    then have "nat (q - (k - int j)) = nat (q - k) + j" by simp
    then show ?thesis using False by (simp add: round_shift_scale)
  qed
  then show ?thesis using False by (simp add: round_parts_def Let_def q' flip: q_def)
qed (simp add: round_parts_def)

lemma truncate_scale: "truncate_parts (m * 2 ^ j) (k - int j) = truncate_parts m k"
proof (cases "0 \<le> k")
  case True
  show ?thesis
  proof (cases "int j \<le> k")
    case True
    then have "nat k = j + nat (k - int j)" by simp
    then show ?thesis using True by (simp add: truncate_parts_def power_add)
  next
    case False
    then have "j = nat k + nat (int j - k)" using True by simp
    then have "m * 2 ^ j = m * 2 ^ nat k * 2 ^ nat (int j - k)" by (metis power_add mult.assoc)
    then have "m * 2 ^ j div 2 ^ nat (int j - k) = m * 2 ^ nat k" by (simp only: nonzero_mult_div_cancel_right) simp
    then show ?thesis using False True by (simp add: truncate_parts_def)
  qed
next
  case False
  then have "nat (- (k - int j)) = nat (- k) + j" by simp
  then show ?thesis using False by (simp add: truncate_parts_def power_add)
qed

section \<open>The format of a float\<close>

text \<open>A format has a sign bit above its exponent field; rounding a magnitude never reaches it.\<close>

locale ieee_format =
  fixes fmt :: float_format
  assumes mant_pos: "0 < mant_bits fmt" and exp_two: "2 \<le> exp_bits fmt"
begin

lemma infinity_less_sign: "infinity_bits fmt < sign_bit fmt"
proof -
  have "(2 ^ exp_bits fmt - 1) * 2 ^ mant_bits fmt < 2 ^ exp_bits fmt * (2 ^ mant_bits fmt :: nat)"
    by (intro mult_strict_right_mono) auto
  then show ?thesis by (simp add: infinity_bits_def sign_bit_def power_add)
qed

lemma round_le_infinity: "round_parts fmt m k \<le> infinity_bits fmt"
  by (simp add: round_parts_def Let_def)

lemma with_sign_parts:
  assumes "mag < sign_bit fmt"
  shows "float_neg fmt (with_sign fmt neg mag) = neg" "magnitude fmt (with_sign fmt neg mag) = mag"
  using assms by (auto simp: float_neg_def magnitude_def with_sign_def div_add1_eq [of "sign_bit fmt"])

lemma sign_split:
  assumes "b < 2 * sign_bit fmt"
  shows "with_sign fmt (float_neg fmt b) (magnitude fmt b) = b"
proof (cases "b < sign_bit fmt")
  case False
  then have "b div sign_bit fmt = 1" "b mod sign_bit fmt = b - sign_bit fmt"
    using assms by (simp_all add: div_nat_eqI mod_if)
  then show ?thesis using False by (simp add: with_sign_def float_neg_def magnitude_def)
qed (simp add: with_sign_def float_neg_def magnitude_def)

text \<open>A number that the format represents rounds to itself.\<close>

lemma round_finite_parts:
  assumes "mag < infinity_bits fmt" and "finite_parts fmt mag = (m, k)"
  shows "round_parts fmt m k = mag"
proof -
  define x f where "x = mag div 2 ^ mant_bits fmt" and "f = mag mod 2 ^ mant_bits fmt"
  have mag: "mag = x * 2 ^ mant_bits fmt + f" unfolding x_def f_def by (rule div_mult_mod_eq [symmetric])
  have f: "f < 2 ^ mant_bits fmt" by (simp add: f_def)
  have parts: "(m, k) = (if x = 0 then (f, min_quantum fmt) else (2 ^ mant_bits fmt + f, min_quantum fmt + int x - 1))"
    using assms(2) unfolding finite_parts_def Let_def x_def f_def by (rule sym)
  show ?thesis
  proof (cases "x = 0")
    case True
    then have mk: "m = f" "k = min_quantum fmt" using parts by auto
    have "highest_bit f < mant_bits fmt" if "f \<noteq> 0" using highest_bit_less [of f "mant_bits fmt"] f that by simp
    then show ?thesis using mk mag True assms(1) by (auto simp: round_parts_def Let_def max_def)
  next
    case False
    then have mk: "m = 2 ^ mant_bits fmt + f" "k = min_quantum fmt + int x - 1" using parts by auto
    have h: "highest_bit m = mant_bits fmt" using f mk by (intro highest_bit_unique) auto
    have "max (k + int (highest_bit m) - int (mant_bits fmt)) (min_quantum fmt) = k" using False mk h by simp
    moreover have "nat (k - min_quantum fmt) * 2 ^ mant_bits fmt + m = mag"
      using False by (cases x) (auto simp: mk mag)
    ultimately show ?thesis using mk assms(1) by (auto simp: round_parts_def Let_def)
  qed
qed

text \<open>A number with few enough bits and an exponent in range is represented exactly.\<close>

lemma round_exact:
  assumes m: "0 < m" "m < 2 * 2 ^ mant_bits fmt" and lo: "min_quantum fmt \<le> k"
    and hi: "k + int (highest_bit m) - int (mant_bits fmt) - min_quantum fmt + 3 \<le> 2 ^ exp_bits fmt"
  obtains j where "finite_parts fmt (round_parts fmt m k) = (m * 2 ^ j, k - int j)"
    and "round_parts fmt m k < infinity_bits fmt"
proof -
  define h q where "h = highest_bit m" and "q = max (k + int h - int (mant_bits fmt)) (min_quantum fmt)"
  have h: "2 ^ h \<le> m" "m < 2 * 2 ^ h" "h \<le> mant_bits fmt"
    using highest_bit_bounds [OF m(1)] highest_bit_less [OF m(1), of "Suc (mant_bits fmt)"] m(2) by (auto simp: h_def)
  have q: "min_quantum fmt \<le> q" "q \<le> k" using lo h(3) by (auto simp: q_def)
  define j n e where "j = nat (k - q)" and "n = m * 2 ^ j" and "e = nat (q - min_quantum fmt)"
  have hj: "h + j \<le> mant_bits fmt" "e = 0 \<or> h + j = mant_bits fmt" using q by (auto simp: j_def q_def e_def)
  have n_hi: "n < 2 * 2 ^ mant_bits fmt"
  proof -
    have "n < 2 * 2 ^ h * 2 ^ j" using h(2) by (simp add: n_def)
    also have "\<dots> \<le> 2 * 2 ^ mant_bits fmt" using power_increasing [OF hj(1), of "2 :: nat"] by (simp add: power_add)
    finally show ?thesis .
  qed
  have n_lo: "2 ^ mant_bits fmt \<le> n" if "e \<noteq> 0"
  proof -
    have "(2 :: nat) ^ mant_bits fmt = 2 ^ h * 2 ^ j" using hj that by (metis power_add)
    then show ?thesis using h(1) by (simp add: n_def)
  qed
  have "int e + 3 \<le> 2 ^ exp_bits fmt"
    using hi q exp_two power_increasing [OF exp_two, of "2 :: int"] by (auto simp: e_def q_def h_def)
  then have e: "e + 3 \<le> 2 ^ exp_bits fmt" by (metis of_nat_add of_nat_le_iff of_nat_numeral of_nat_power)
  have "e * 2 ^ mant_bits fmt + n < (e + 2) * 2 ^ mant_bits fmt" using n_hi by (simp add: algebra_simps)
  also have "\<dots> \<le> infinity_bits fmt" unfolding infinity_bits_def using e by (intro mult_le_mono1) simp
  finally have fin: "e * 2 ^ mant_bits fmt + n < infinity_bits fmt" .
  have mag: "round_parts fmt m k = e * 2 ^ mant_bits fmt + n"
    using m(1) q fin by (simp add: round_parts_def Let_def n_def j_def e_def flip: h_def q_def)
  have k: "k - int j = min_quantum fmt + int e" using q by (simp add: j_def e_def)
  have "finite_parts fmt (e * 2 ^ mant_bits fmt + n) = (n, k - int j)"
  proof (cases "2 ^ mant_bits fmt \<le> n")
    case True
    then obtain f where f: "n = 2 ^ mant_bits fmt + f" "f < 2 ^ mant_bits fmt" using n_hi by (metis add_less_cancel_left le_Suc_ex mult_2)
    have "(e * 2 ^ mant_bits fmt + n) div 2 ^ mant_bits fmt = e + 1" "(e * 2 ^ mant_bits fmt + n) mod 2 ^ mant_bits fmt = f"
      using f by (simp_all add: div_nat_eqI)
    then show ?thesis using f k by (simp add: finite_parts_def Let_def)
  next
    case False
    then show ?thesis using n_lo k by (auto simp: finite_parts_def Let_def)
  qed
  then show ?thesis using that mag fin by (auto simp: n_def)
qed

end

interpretation f32: ieee_format f32_format
  by unfold_locales (simp_all add: f32_format_def)

interpretation f64: ieee_format f64_format
  by unfold_locales (simp_all add: f64_format_def)

lemma finite_cases:
  assumes "\<not> is_nan fmt b" "\<not> is_infinite fmt b"
  shows "magnitude fmt b < infinity_bits fmt"
  using assms by (auto simp: is_nan_def is_infinite_def)

lemma f64_of_sign:
  assumes "mag \<le> infinity_bits f64_format"
  shows "float_neg f64_format (with_sign f64_format neg mag) = neg"
    and "magnitude f64_format (with_sign f64_format neg mag) = mag"
    and "\<not> is_nan f64_format (with_sign f64_format neg mag)"
    and "is_infinite f64_format (with_sign f64_format neg mag) \<longleftrightarrow> mag = infinity_bits f64_format"
  using assms f64.infinity_less_sign f64.with_sign_parts [of mag neg] by (auto simp: is_nan_def is_infinite_def)

text \<open>Every finite number of \<open>f32\<close> is a number of \<open>f64\<close>, so widening is exact.\<close>

lemma widen_exact:
  assumes mag: "mag < infinity_bits f32_format" and parts: "finite_parts f32_format mag = (m, k)"
  obtains j where "finite_parts f64_format (round_parts f64_format m k) = (m * 2 ^ j, k - int j)"
    and "round_parts f64_format m k < infinity_bits f64_format"
proof (cases "m = 0")
  case True
  then have "mag mod 2 ^ 23 = 0" "mag div 2 ^ 23 = 0"
    using parts by (auto simp: finite_parts_def Let_def f32_format_def split: if_splits)
  then have "k = -149"
    using parts True by (simp add: finite_parts_def Let_def f32_format_def min_quantum_def exp_bias_def)
  then show ?thesis using True that [of 925]
    by (simp add: round_parts_def finite_parts_def Let_def f64_format_def min_quantum_def exp_bias_def infinity_bits_def)
next
  case False
  have x: "mag div 2 ^ 23 < 255" using mag by (simp add: infinity_bits_def f32_format_def div_less_iff_less_mult)
  have f: "mag mod 2 ^ 23 < (2 ^ 23 :: nat)" by simp
  have m: "m < 2 ^ 24" and k: "-149 \<le> k" "k \<le> 104"
    using parts x f
    by (auto simp: finite_parts_def Let_def f32_format_def min_quantum_def exp_bias_def split: if_splits)
  have h: "highest_bit m < 24" using highest_bit_less [of m 24] False m by simp
  show ?thesis
  proof (rule f64.round_exact [of m k])
    show "0 < m" using False by simp
    show "m < 2 * 2 ^ mant_bits f64_format" using m by (simp add: f64_format_def)
    show "min_quantum f64_format \<le> k" using k by (simp add: f64_format_def min_quantum_def exp_bias_def)
    show "k + int (highest_bit m) - int (mant_bits f64_format) - min_quantum f64_format + 3 \<le> 2 ^ exp_bits f64_format"
      using k h by (simp add: f64_format_def min_quantum_def exp_bias_def)
  qed (rule that)
qed

lemma widen_narrow:
  assumes b: "b < 2 ^ 32" and "\<not> is_nan f32_format b"
  shows "convert_float f64_format f32_format (convert_float f32_format f64_format b) = b"
proof -
  have b2: "b < 2 * sign_bit f32_format" using b by (simp add: sign_bit_def f32_format_def)
  show ?thesis
  proof (cases "is_infinite f32_format b")
    case True
    then have "with_sign f32_format (float_neg f32_format b) (infinity_bits f32_format) = b"
      using f32.sign_split [OF b2] by (simp add: is_infinite_def)
    then show ?thesis using True assms(2) f64_of_sign [of "infinity_bits f64_format"] by (simp add: convert_float_def Let_def)
  next
    case False
    obtain m k where mk: "finite_parts f32_format (magnitude f32_format b) = (m, k)" by fastforce
    note fin = finite_cases [OF assms(2) False]
    obtain j where w: "finite_parts f64_format (round_parts f64_format m k) = (m * 2 ^ j, k - int j)"
      "round_parts f64_format m k < infinity_bits f64_format"
      using widen_exact [OF fin mk] .
    show ?thesis
      using False assms(2) mk w f64_of_sign [OF less_imp_le [OF w(2)]] f32.round_finite_parts [OF fin mk] f32.sign_split [OF b2]
      by (simp add: convert_float_def Let_def round_parts_scale)
  qed
qed

text \<open>Integers of at most 53 bits are numbers of \<open>f64\<close>.\<close>

lemma int_exact:
  assumes "\<bar>i\<bar> \<le> 2 ^ 53" and "lo \<le> i" and "i \<le> hi"
  shows "float_to_int f64_format lo hi (float_of_int f64_format i) = i"
proof -
  obtain m k :: nat where mk: "nat \<bar>i\<bar> = m * 2 ^ k" "m < 2 ^ 53" "k \<le> 1"
  proof (cases "\<bar>i\<bar> = 2 ^ 53")
    case True
    then have "nat \<bar>i\<bar> = 2 ^ 52 * 2 ^ 1" by simp
    then show ?thesis by (rule that) simp_all
  next
    case False
    then show ?thesis using assms(1) that [of "nat \<bar>i\<bar>" 0] by simp
  qed
  have r: "round_parts f64_format (nat \<bar>i\<bar>) 0 = round_parts f64_format m (int k)"
    using round_parts_scale [of f64_format m k "int k"] mk(1) by simp
  have t: "truncate_parts m (int k) = nat \<bar>i\<bar>" using mk(1) by (simp add: truncate_parts_def)
  obtain j where w: "finite_parts f64_format (round_parts f64_format m (int k)) = (m * 2 ^ j, int k - int j)"
      "round_parts f64_format m (int k) < infinity_bits f64_format"
  proof (cases "m = 0")
    case True
    then show ?thesis using that [of "1074 + k"] mk
      by (simp add: round_parts_def finite_parts_def Let_def f64_format_def min_quantum_def exp_bias_def infinity_bits_def)
  next
    case False
    then have "highest_bit m < 53" using highest_bit_less [of m 53] mk by simp
    then have h: "int (highest_bit m) \<le> 52" by simp
    show ?thesis
    proof (rule f64.round_exact [of m "int k"])
      show "0 < m" using False by simp
      show "m < 2 * 2 ^ mant_bits f64_format" using mk by (simp add: f64_format_def)
      show "min_quantum f64_format \<le> int k" by (simp add: f64_format_def min_quantum_def exp_bias_def)
      show "int k + int (highest_bit m) - int (mant_bits f64_format) - min_quantum f64_format + 3 \<le> 2 ^ exp_bits f64_format"
        using mk(3) h by (simp add: f64_format_def min_quantum_def exp_bias_def)
    qed (rule that)
  qed
  have "float_to_int f64_format lo hi (float_of_int f64_format i) =
      max lo (min hi (if i < 0 then - int (nat \<bar>i\<bar>) else int (nat \<bar>i\<bar>)))"
    using w f64_of_sign [OF less_imp_le [OF w(2)], of "i < 0"] truncate_scale [of m j "int k"] t
    by (simp add: float_to_int_def float_of_int_def r Let_def)
  then show ?thesis using assms(2,3) by auto
qed

end
