(* ===== verification/Element_Types.thy ===== *)
theory Element_Types
  imports Dataset_Read Ieee_Float
begin

text \<open>
  Element types and the Rust types that read them (\<^verbatim>\<open>dtype.rs\<close>), and the typed decoding of raw
  data (\<^verbatim>\<open>read.rs\<close>, \<open>RawData::get_of\<close>).  A decoded integer is its value, a decoded float its bit
  pattern.  The native byte order is little-endian.
\<close>

section \<open>The netCDF type of an HDF5 datatype\<close>

datatype dtype =
    DInt nat
  | DUint nat
  | DFloat nat
  | DChar
  | DString
  | DFixedString nat
  | DVlen dtype
  | DOther

text \<open>\<open>size as u8\<close> keeps the low eight bits.\<close>

fun dtype_of :: "hdf_type \<Rightarrow> dtype" where
  "dtype_of (Datatype _ sz cls) =
     (case cls of
        FixedPoint _ sg _ _ \<Rightarrow> if sg then DInt (sz mod 256) else DUint (sz mod 256)
      | FloatingPoint _ _ _ _ _ _ _ _ _ \<Rightarrow> DFloat (sz mod 256)
      | String _ _ \<Rightarrow> if sz = 1 then DChar else DFixedString sz
      | VariableLength kind base _ _ \<Rightarrow> (case kind of VString \<Rightarrow> DString | VSequence \<Rightarrow> DVlen (dtype_of base))
      | _ \<Rightarrow> DOther)"

definition dtype_is_integer :: "dtype \<Rightarrow> bool" where
  "dtype_is_integer d \<longleftrightarrow> (case d of DInt _ \<Rightarrow> True | DUint _ \<Rightarrow> True | _ \<Rightarrow> False)"

definition dtype_is_float :: "dtype \<Rightarrow> bool" where
  "dtype_is_float d \<longleftrightarrow> (case d of DFloat _ \<Rightarrow> True | _ \<Rightarrow> False)"

definition dtype_is_text :: "dtype \<Rightarrow> bool" where
  "dtype_is_text d \<longleftrightarrow> (case d of DChar \<Rightarrow> True | DString \<Rightarrow> True | DFixedString _ \<Rightarrow> True | _ \<Rightarrow> False)"

definition dtype_size :: "dtype \<Rightarrow> nat option" where
  "dtype_size d =
     (case d of DInt n \<Rightarrow> Some n | DUint n \<Rightarrow> Some n | DFloat n \<Rightarrow> Some n | DChar \<Rightarrow> Some 1
      | DFixedString n \<Rightarrow> Some n | DString \<Rightarrow> None | DVlen _ \<Rightarrow> None | DOther \<Rightarrow> None)"

fun decimal :: "nat \<Rightarrow> string" where
  "decimal n = (if n < 10 then [char_of (48 + n)] else decimal (n div 10) @ [char_of (48 + n mod 10)])"

declare decimal.simps [simp del]

fun dtype_name :: "dtype \<Rightarrow> string" where
  "dtype_name (DInt n) =
     (if n = 1 then ''i8'' else if n = 2 then ''i16'' else if n = 4 then ''i32'' else if n = 8 then ''i64''
      else ''a '' @ decimal n @ ''-byte signed integer'')"
| "dtype_name (DUint n) =
     (if n = 1 then ''u8'' else if n = 2 then ''u16'' else if n = 4 then ''u32'' else if n = 8 then ''u64''
      else ''a '' @ decimal n @ ''-byte unsigned integer'')"
| "dtype_name (DFloat n) =
     (if n = 4 then ''f32'' else if n = 8 then ''f64'' else ''a '' @ decimal n @ ''-byte float'')"
| "dtype_name DChar = ''char''"
| "dtype_name DString = ''string''"
| "dtype_name (DFixedString n) = ''a '' @ decimal n @ ''-byte fixed string''"
| "dtype_name (DVlen base) = ''a ragged array of '' @ dtype_name base"
| "dtype_name DOther = ''a type this reader does not model''"

section \<open>The Rust types that read an element\<close>

datatype rust_type = I8 | I16 | I32 | I64 | U8 | U16 | U32 | U64 | F32 | F64

datatype element_value = IntV int | FloatV nat

fun element_dtype :: "rust_type \<Rightarrow> dtype" where
  "element_dtype I8 = DInt 1"
| "element_dtype I16 = DInt 2"
| "element_dtype I32 = DInt 4"
| "element_dtype I64 = DInt 8"
| "element_dtype U8 = DUint 1"
| "element_dtype U16 = DUint 2"
| "element_dtype U32 = DUint 4"
| "element_dtype U64 = DUint 8"
| "element_dtype F32 = DFloat 4"
| "element_dtype F64 = DFloat 8"

fun element_name :: "rust_type \<Rightarrow> string" where
  "element_name I8 = ''i8''"
| "element_name I16 = ''i16''"
| "element_name I32 = ''i32''"
| "element_name I64 = ''i64''"
| "element_name U8 = ''u8''"
| "element_name U16 = ''u16''"
| "element_name U32 = ''u32''"
| "element_name U64 = ''u64''"
| "element_name F32 = ''f32''"
| "element_name F64 = ''f64''"

fun rust_size :: "rust_type \<Rightarrow> nat" where
  "rust_size I8 = 1"
| "rust_size U8 = 1"
| "rust_size I16 = 2"
| "rust_size U16 = 2"
| "rust_size I32 = 4"
| "rust_size U32 = 4"
| "rust_size F32 = 4"
| "rust_size I64 = 8"
| "rust_size U64 = 8"
| "rust_size F64 = 8"

fun rust_signed :: "rust_type \<Rightarrow> bool" where
  "rust_signed t \<longleftrightarrow> t \<in> {I8, I16, I32, I64}"

fun rust_float :: "rust_type \<Rightarrow> float_format option" where
  "rust_float F32 = Some f32_format"
| "rust_float F64 = Some f64_format"
| "rust_float _ = None"

definition type_min :: "rust_type \<Rightarrow> int" where
  "type_min t = (if rust_signed t then - (2 ^ (8 * rust_size t - 1)) else 0)"

definition type_max :: "rust_type \<Rightarrow> int" where
  "type_max t = (if rust_signed t then 2 ^ (8 * rust_size t - 1) - 1 else 2 ^ (8 * rust_size t) - 1)"

text \<open>\<open>as\<close> between integer types keeps the value modulo the width of the target.\<close>

definition wrap_to :: "rust_type \<Rightarrow> int \<Rightarrow> int" where
  "wrap_to t i = (i - type_min t) mod 2 ^ (8 * rust_size t) + type_min t"

definition element_from_ne_bytes :: "rust_type \<Rightarrow> bytes \<Rightarrow> element_value result" where
  "element_from_ne_bytes t b =
     (if length b \<noteq> rust_size t then panic
      else Ok (case rust_float t of None \<Rightarrow> IntV (wrap_to t (int (le_nat b))) | Some _ \<Rightarrow> FloatV (le_nat b)))"

definition chunks_exact :: "nat \<Rightarrow> bytes \<Rightarrow> bytes list" where
  "chunks_exact n b = map (elem n b) [0..<length b div n]"

definition element_from_ne_slice :: "rust_type \<Rightarrow> bytes \<Rightarrow> element_value list result" where
  "element_from_ne_slice t b = map_result (element_from_ne_bytes t) (chunks_exact (rust_size t) b)"

definition element_from_int :: "rust_type \<Rightarrow> int \<Rightarrow> element_value" where
  "element_from_int t v = (case rust_float t of None \<Rightarrow> IntV (wrap_to t v) | Some fmt \<Rightarrow> FloatV (float_of_int fmt v))"

definition element_from_i64 :: "rust_type \<Rightarrow> 64 word \<Rightarrow> element_value" where
  "element_from_i64 t v = element_from_int t (sint v)"

definition element_from_u64 :: "rust_type \<Rightarrow> nat \<Rightarrow> element_value" where
  "element_from_u64 t v = element_from_int t (int v)"

definition element_from_f64 :: "rust_type \<Rightarrow> nat \<Rightarrow> element_value" where
  "element_from_f64 t v =
     (case rust_float t of
        None \<Rightarrow> IntV (float_to_int f64_format (type_min t) (type_max t) v)
      | Some fmt \<Rightarrow> FloatV (if fmt = f64_format then v else convert_float f64_format fmt v))"

section \<open>Decoding raw data\<close>

definition decode_float :: "rust_type \<Rightarrow> nat \<Rightarrow> bytes \<Rightarrow> element_value result" where
  "decode_float t sz b =
     (if sz = 4 then Ok (element_from_f64 t (convert_float f32_format f64_format (le_nat b)))
      else if sz = 8 then Ok (element_from_f64 t (le_nat b))
      else Error (Unsupported ''byte floating point''))"

definition convert_elements :: "rust_type \<Rightarrow> raw_data \<Rightarrow> hdf_type \<Rightarrow> rstring \<Rightarrow> element_value list result" where
  "convert_elements t raw dt what =
     (let elements = take (raw_len raw) (chunks_exact (max (raw_element_size raw) 1) (raw_bytes raw)) in
      case dt_class dt of
        FixedPoint _ sg _ _ \<Rightarrow>
          if sg then map_result (\<lambda>b. and_then (read_integer b True) (\<lambda>v. Ok (element_from_i64 t v))) elements
          else map_result (\<lambda>b. and_then (read_unsigned b) (\<lambda>v. Ok (element_from_u64 t v))) elements
      | FloatingPoint _ _ _ _ _ _ _ _ _ \<Rightarrow> map_result (decode_float t (raw_element_size raw)) elements
      | _ \<Rightarrow> Error (TypeMismatch (dtype_name (dtype_of dt)) (element_name t) what))"

definition get_of :: "rust_type \<Rightarrow> raw_data \<Rightarrow> hdf_type \<Rightarrow> rstring \<Rightarrow> element_value list result" where
  "get_of t raw dt what =
     (if dtype_of dt = element_dtype t \<and> raw_element_size raw = rust_size t
      then element_from_ne_slice t (raw_bytes raw)
      else convert_elements t raw dt what)"

definition get_values :: "rust_type \<Rightarrow> raw_data \<Rightarrow> 'e dataset_index_scheme \<Rightarrow> rstring \<Rightarrow> element_value list result" where
  "get_values t raw ds what = get_of t raw (ds_datatype ds) what"

section \<open>Integer conversions\<close>

lemma type_range: "type_max t = type_min t + 2 ^ (8 * rust_size t) - 1"
  by (cases t) (simp_all add: type_min_def type_max_def)

lemma wrap_in_range: "type_min t \<le> i \<Longrightarrow> i \<le> type_max t \<Longrightarrow> wrap_to t i = i"
  by (simp add: wrap_to_def type_range)

lemma wrap_cong: "i mod 2 ^ (8 * rust_size t) = j mod 2 ^ (8 * rust_size t) \<Longrightarrow> wrap_to t i = wrap_to t j"
  unfolding wrap_to_def by (metis mod_diff_left_eq)

definition signed_value :: "bytes \<Rightarrow> int" where
  "signed_value b = (if le_nat b < 2 ^ (8 * length b - 1) then int (le_nat b) else int (le_nat b) - 2 ^ (8 * length b))"

lemma read_integer_value:
  assumes "1 \<le> length b" and "length b \<le> 8"
  obtains w where "read_integer b True = Ok w" and "sint w = signed_value b"
proof -
  obtain m where "length b = Suc m" "m < 8" using assms by (cases "length b") auto
  then show ?thesis
    using that sint_read_integer [of b m] assms by (simp add: read_integer_def Let_def le_nat_zeros signed_value_def)
qed

lemma read_unsigned_value: "1 \<le> length b \<Longrightarrow> length b \<le> 8 \<Longrightarrow> read_unsigned b = Ok (le_nat b)"
  by (auto simp: read_unsigned_def Let_def le_nat_zeros)

lemma wrap_signed_value: "length b = rust_size t \<Longrightarrow> wrap_to t (signed_value b) = wrap_to t (int (le_nat b))"
  by (rule wrap_cong) (simp add: signed_value_def)

section \<open>Elements of a buffer\<close>

lemma map_result_cong [fundef_cong]:
  "xs = ys \<Longrightarrow> (\<And>x. x \<in> set ys \<Longrightarrow> f x = g x) \<Longrightarrow> map_result f xs = map_result g ys"
  by (induction ys arbitrary: xs) auto

lemma map_result_iff_nth:
  "map_result f xs = Inr ys \<longleftrightarrow> length ys = length xs \<and> (\<forall>i < length xs. f (xs ! i) = Inr (ys ! i))"
proof (induction xs arbitrary: ys)
  case (Cons x xs)
  show ?case by (cases ys) (auto simp: result_simps Cons All_less_Suc2)
qed auto

lemma chunks_exact_length: "b \<in> set (chunks_exact n bs) \<Longrightarrow> length b = n"
proof -
  assume "b \<in> set (chunks_exact n bs)"
  then obtain i where i: "b = elem n bs i" "i < length bs div n" by (auto simp: chunks_exact_def)
  have "(i + 1) * n \<le> length bs div n * n" using i(2) by (intro mult_le_mono1) simp
  also have "\<dots> \<le> length bs" by (rule div_times_less_eq_dividend)
  finally show ?thesis using i(1) length_elem by simp
qed

lemma rust_size_bounds: "1 \<le> rust_size t" "rust_size t \<le> 8"
  by (cases t; simp)+

lemma raw_elements:
  "0 < raw_element_size raw \<Longrightarrow>
   take (raw_len raw) (chunks_exact (max (raw_element_size raw) 1) (raw_bytes raw)) =
   chunks_exact (raw_element_size raw) (raw_bytes raw)"
  by (simp add: raw_len_def chunks_exact_def max_absorb1 Suc_le_eq)

lemma dtype_of_cases:
  assumes "dtype_of dt = element_dtype t"
  shows "(\<exists>ord sg x y. dt_class dt = FixedPoint ord sg x y \<and> rust_float t = None \<and> sg = rust_signed t) \<or>
    (\<exists>ord a b c d e f g h. dt_class dt = FloatingPoint ord a b c d e f g h \<and> rust_float t \<noteq> None)"
  using assms
  by (cases dt; cases t) (auto split: datatype_class.splits if_splits vlen_kind.splits)

lemma formats_differ [simp]: "f32_format \<noteq> f64_format"
  by (simp add: f32_format_def f64_format_def)

lemma float_copy:
  assumes "rust_float t = Some fmt" "length b = rust_size t" and "t = F32 \<Longrightarrow> \<not> is_nan f32_format (le_nat b)"
  shows "decode_float t (rust_size t) b = element_from_ne_bytes t b"
proof (cases t)
  case F32
  have "le_nat b < 2 ^ 32" using le_nat_bound [of b] assms(2) F32 by simp
  then show ?thesis
    using widen_narrow [of "le_nat b"] assms F32
    by (auto simp: decode_float_def element_from_f64_def element_from_ne_bytes_def)
qed (use assms in \<open>simp_all add: decode_float_def element_from_f64_def element_from_ne_bytes_def\<close>)

lemma integer_copy:
  assumes "rust_float t = None" "length b = rust_size t"
  shows "(if rust_signed t then and_then (read_integer b True) (\<lambda>v. Ok (element_from_i64 t v))
      else and_then (read_unsigned b) (\<lambda>v. Ok (element_from_u64 t v))) = element_from_ne_bytes t b"
proof -
  have len: "1 \<le> length b" "length b \<le> 8" using assms(2) rust_size_bounds by simp_all
  obtain w where "read_integer b True = Ok w" "sint w = signed_value b" using read_integer_value [OF len] .
  then show ?thesis
    using assms read_unsigned_value [OF len] wrap_signed_value [OF assms(2)]
    by (simp add: element_from_i64_def element_from_u64_def element_from_int_def element_from_ne_bytes_def)
qed

lemma copy_is_conversion:
  assumes "dtype_of dt = element_dtype t" and "raw_element_size raw = rust_size t"
    and "\<And>b. t = F32 \<Longrightarrow> b \<in> set (chunks_exact 4 (raw_bytes raw)) \<Longrightarrow> \<not> is_nan f32_format (le_nat b)"
  shows "element_from_ne_slice t (raw_bytes raw) = convert_elements t raw dt what"
proof -
  let ?es = "chunks_exact (rust_size t) (raw_bytes raw)"
  have es: "take (raw_len raw) (chunks_exact (max (raw_element_size raw) 1) (raw_bytes raw)) = ?es"
    using raw_elements [of raw] assms(2) rust_size_bounds [of t] by simp
  consider ord sg x y where "dt_class dt = FixedPoint ord sg x y" "rust_float t = None" "sg = rust_signed t"
    | ord a b c d e f g h fmt where "dt_class dt = FloatingPoint ord a b c d e f g h" "rust_float t = Some fmt"
    using dtype_of_cases [OF assms(1)] by fastforce
  then show ?thesis
  proof cases
    case 1
    have "element_from_ne_slice t (raw_bytes raw) = map_result (\<lambda>b. if rust_signed t
        then and_then (read_integer b True) (\<lambda>v. Ok (element_from_i64 t v))
        else and_then (read_unsigned b) (\<lambda>v. Ok (element_from_u64 t v))) ?es"
      unfolding element_from_ne_slice_def
      by (intro map_result_cong refl integer_copy [symmetric] 1(2) chunks_exact_length)
    then show ?thesis using 1 es by (cases "rust_signed t") (simp_all add: convert_elements_def Let_def)
  next
    case 2
    have "element_from_ne_slice t (raw_bytes raw) = map_result (decode_float t (rust_size t)) ?es"
      unfolding element_from_ne_slice_def
      by (intro map_result_cong refl float_copy [OF 2(2), symmetric] chunks_exact_length) (use assms(3) in auto)
    then show ?thesis using 2 es assms(2) by (simp add: convert_elements_def Let_def)
  qed
qed

section \<open>Properties\<close>


definition short_type :: hdf_type where
  "short_type = Datatype 1 2 (FixedPoint Little True 0 16)"

definition float_type :: hdf_type where
  "float_type = Datatype 1 4 (FloatingPoint Little 0 32 23 8 0 23 127 31)"


lemma integers_converted:
  fixes sg raw
  defines "stored \<equiv> \<lambda>i. if sg then signed_value (elem (raw_element_size raw) (raw_bytes raw) i)
    else int (le_nat (elem (raw_element_size raw) (raw_bytes raw) i))"
  assumes cls: "dt_class dt = FixedPoint ord sg x y"
    and width: "1 \<le> raw_element_size raw" "raw_element_size raw \<le> 8" and t: "t \<noteq> F32"
  shows "get_of t raw dt what = Ok (map (\<lambda>i. element_from_int t (stored i)) [0..<raw_len raw])"
proof -
  have conv: "get_of t raw dt what = convert_elements t raw dt what"
  proof (cases "dtype_of dt = element_dtype t \<and> raw_element_size raw = rust_size t")
    case True
    then show ?thesis using copy_is_conversion [of dt t raw] t by (simp add: get_of_def)
  qed (auto simp: get_of_def)
  have len: "length (elem (raw_element_size raw) (raw_bytes raw) i) = raw_element_size raw" if "i < raw_len raw" for i
  proof (rule chunks_exact_length)
    show "elem (raw_element_size raw) (raw_bytes raw) i \<in> set (chunks_exact (raw_element_size raw) (raw_bytes raw))"
      using that width(1) by (simp add: chunks_exact_def raw_len_def split: if_splits)
  qed
  have one: "(if sg then and_then (read_integer b True) (\<lambda>v. Ok (element_from_i64 t v))
      else and_then (read_unsigned b) (\<lambda>v. Ok (element_from_u64 t v))) = Ok (element_from_int t (stored i))"
    if "i < raw_len raw" "b = elem (raw_element_size raw) (raw_bytes raw) i" for i b
  proof -
    have l: "1 \<le> length b" "length b \<le> 8" using len that width by simp_all
    obtain w where "read_integer b True = Ok w" "sint w = signed_value b" using read_integer_value [OF l] .
    then show ?thesis
      using read_unsigned_value [OF l] that(2) by (simp add: stored_def element_from_i64_def element_from_u64_def)
  qed
  have es: "chunks_exact (raw_element_size raw) (raw_bytes raw) = map (elem (raw_element_size raw) (raw_bytes raw)) [0..<raw_len raw]"
    using width by (simp add: chunks_exact_def raw_len_def)
  have "convert_elements t raw dt what = map_result (\<lambda>b. if sg
      then and_then (read_integer b True) (\<lambda>v. Ok (element_from_i64 t v))
      else and_then (read_unsigned b) (\<lambda>v. Ok (element_from_u64 t v)))
      (map (elem (raw_element_size raw) (raw_bytes raw)) [0..<raw_len raw])"
    using cls raw_elements [of raw] width es by (simp add: convert_elements_def Let_def)
  also have "\<dots> = Ok (map (\<lambda>i. element_from_int t (stored i)) [0..<raw_len raw])"
    unfolding map_result_iff_nth using one by simp
  finally show ?thesis using conv by simp
qed



end
