(* ===== verification/Extents.thy ===== *)
theory Extents
  imports Element_Types
begin

text \<open>
  Selections along the axes of a variable (\<^verbatim>\<open>crates/oxcdf/src/extent.rs\<close>): the extent of one
  axis, the extents of a whole variable, their conversion from indices and ranges, and their
  resolution to a hyperslab.  The reference is the set of coordinates that the extents denote.
\<close>

section \<open>One axis\<close>

datatype extent =
    Slice nat int
  | SliceEnd nat nat int
  | SliceCount nat nat int
  | Index nat

fun stride_of :: "extent \<Rightarrow> int" where
  "stride_of (Slice _ stride) = stride"
| "stride_of (SliceEnd _ _ stride) = stride"
| "stride_of (SliceCount _ _ stride) = stride"
| "stride_of (Index _) = 1"

definition resolve_extent :: "extent \<Rightarrow> nat \<Rightarrow> (nat \<times> nat) result" where
  "resolve_extent e len =
     (if stride_of e \<noteq> 1
      then Error (Unsupported ''a stride on an axis; this reader reads contiguous selections only'')
      else case e of
        Slice first _ \<Rightarrow> Ok (first, len - first)
      | SliceEnd first fin _ \<Rightarrow>
          if fin < first then Error (BadRequest ''the selection on an axis ends before it starts'')
          else Ok (first, fin - first)
      | SliceCount first n _ \<Rightarrow> Ok (first, n)
      | Index at \<Rightarrow> Ok (at, 1))"

text \<open>The conversions of an index and of the ranges of the standard library.\<close>

definition extent_of_index :: "nat \<Rightarrow> extent" where
  "extent_of_index at = Index at"

definition extent_of_range :: "nat \<times> nat \<Rightarrow> extent" where
  "extent_of_range r = SliceEnd (fst r) (snd r) 1"

definition extent_of_range_from :: "nat \<Rightarrow> extent" where
  "extent_of_range_from first = Slice first 1"

definition extent_of_range_to :: "nat \<Rightarrow> extent" where
  "extent_of_range_to fin = SliceEnd 0 fin 1"

definition extent_of_range_to_inclusive :: "nat \<Rightarrow> extent result" where
  "extent_of_range_to_inclusive incl = and_then (add64 incl 1) (\<lambda>fin. Ok (SliceEnd 0 fin 1))"

definition extent_of_range_inclusive :: "nat \<times> nat \<Rightarrow> extent result" where
  "extent_of_range_inclusive r = and_then (add64 (snd r) 1) (\<lambda>fin. Ok (SliceEnd (fst r) fin 1))"

definition extent_of_range_full :: extent where
  "extent_of_range_full = Slice 0 1"

section \<open>Every axis\<close>

datatype extents = All | Extent "extent list"

fun resolve_axes :: "(extent \<times> nat) list \<Rightarrow> nat list \<times> nat list \<Rightarrow> (nat list \<times> nat list) result" where
  "resolve_axes [] acc = Ok acc"
| "resolve_axes ((e, len) # axes) (st, c) =
     and_then (resolve_extent e len) (\<lambda>(s, n). resolve_axes axes (st @ [s], c @ [n]))"

definition to_hyperslab :: "extents \<Rightarrow> nat list \<Rightarrow> hyperslab result" where
  "to_hyperslab es shape =
     (case es of
        All \<Rightarrow> Ok (hyperslab_all shape)
      | Extent extents \<Rightarrow>
          if length extents \<noteq> length shape
          then Error (BadRequest ''variable has another rank than the selection'')
          else and_then (resolve_axes (zip extents shape) ([], [])) (\<lambda>(st, c).
               let slab = \<lparr>start = st, cnt = c\<rparr> in
               and_then (validate slab shape) (\<lambda>_. Ok slab)))"

definition extents_of_range_full :: extents where
  "extents_of_range_full = All"

definition extents_of_list :: "('a \<Rightarrow> extent result) \<Rightarrow> 'a list \<Rightarrow> extents result" where
  "extents_of_list conv v = and_then (map_result conv v) (\<lambda>es. Ok (Extent es))"

definition extents_of_starts_counts :: "nat list \<Rightarrow> nat list \<Rightarrow> extents result" where
  "extents_of_starts_counts st c =
     (if length st \<noteq> length c then Error (BadRequest ''the selection gives other starts than counts'')
      else Ok (Extent (map (\<lambda>(s, n). SliceCount s n 1) (zip st c))))"

definition extents_of_hyperslab :: "hyperslab \<Rightarrow> extents" where
  "extents_of_hyperslab slab = Extent (map (\<lambda>(s, n). SliceCount s n 1) (zip (start slab) (cnt slab)))"

section \<open>What an extent denotes\<close>

fun denotes :: "extent \<Rightarrow> nat \<Rightarrow> bool" where
  "denotes (Slice first _) x \<longleftrightarrow> first \<le> x"
| "denotes (SliceEnd first fin _) x \<longleftrightarrow> first \<le> x \<and> x < fin"
| "denotes (SliceCount first n _) x \<longleftrightarrow> first \<le> x \<and> x < first + n"
| "denotes (Index at) x \<longleftrightarrow> x = at"

fun fits :: "extent \<Rightarrow> nat \<Rightarrow> bool" where
  "fits (Slice first _) len \<longleftrightarrow> first \<le> len"
| "fits (SliceEnd first fin _) len \<longleftrightarrow> first \<le> fin \<and> fin \<le> len"
| "fits (SliceCount first n _) len \<longleftrightarrow> first + n \<le> len"
| "fits (Index at) len \<longleftrightarrow> at < len"

fun extents_fit :: "extents \<Rightarrow> nat list \<Rightarrow> bool" where
  "extents_fit All shape \<longleftrightarrow> True"
| "extents_fit (Extent es) shape \<longleftrightarrow>
     length es = length shape \<and> (\<forall>a < length shape. stride_of (es ! a) = 1 \<and> fits (es ! a) (shape ! a))"

fun extents_denote :: "extents \<Rightarrow> nat list \<Rightarrow> bool" where
  "extents_denote All x \<longleftrightarrow> True"
| "extents_denote (Extent es) x \<longleftrightarrow> (\<forall>a < length es. denotes (es ! a) (x ! a))"

definition rejection :: "failure \<Rightarrow> bool" where
  "rejection f \<longleftrightarrow> (\<exists>why. f = Err (BadRequest why) \<or> f = Err (Unsupported why))"

lemma resolve_extent_cases:
  "resolve_extent e len = Inr (s, n) \<longleftrightarrow> stride_of e = 1 \<and>
     (case e of Slice first _ \<Rightarrow> s = first \<and> n = len - first
      | SliceEnd first fin _ \<Rightarrow> first \<le> fin \<and> s = first \<and> n = fin - first
      | SliceCount first m _ \<Rightarrow> s = first \<and> n = m
      | Index at \<Rightarrow> s = at \<and> n = 1)"
  by (auto simp: resolve_extent_def split: extent.splits)

lemma resolve_rejection: "resolve_extent e len = Inl f \<Longrightarrow> rejection f"
  by (auto simp: resolve_extent_def rejection_def split: extent.splits if_splits)

lemma resolve_fits:
  "fits e len \<and> stride_of e = 1 \<longleftrightarrow> (\<exists>s n. resolve_extent e len = Inr (s, n) \<and> s + n \<le> len)"
  by (cases e) (auto simp: resolve_extent_cases)

lemma resolve_denotes:
  "resolve_extent e len = Inr (s, n) \<Longrightarrow> x < len \<Longrightarrow> denotes e x \<longleftrightarrow> s \<le> x \<and> x < s + n"
  by (cases e) (auto simp: resolve_extent_cases)

lemma resolve_axes_Ok:
  "resolve_axes axes (st, c) = Inr (st', c') \<longleftrightarrow>
     (\<exists>rs. map_result (\<lambda>(e, len). resolve_extent e len) axes = Inr rs \<and> st' = st @ map fst rs \<and> c' = c @ map snd rs)"
  by (induction axes "(st, c)" arbitrary: st c rule: resolve_axes.induct) (force simp: result_simps)+

lemma resolve_axes_rejection: "resolve_axes axes acc = Inl f \<Longrightarrow> rejection f"
proof (induction axes acc rule: resolve_axes.induct)
  case (2 e len axes st c)
  then show ?case by (cases "resolve_extent e len") (auto dest: resolve_rejection split: prod.splits)
qed simp

lemma validate_axes_rejection: "validate_axes axes shape = Inl f \<Longrightarrow> rejection f"
  by (induction axes shape rule: validate_axes.induct) (auto simp: rejection_def split: option.splits if_splits)

lemma validate_rejection: "validate slab shape = Inl f \<Longrightarrow> rejection f"
  by (auto simp: validate_def rejection_def dest: validate_axes_rejection [unfolded rejection_def] split: if_splits)

lemma to_hyperslab_rejection: "to_hyperslab es shape = Inl f \<Longrightarrow> rejection f"
proof (cases es)
  case (Extent extents)
  assume f: "to_hyperslab es shape = Inl f"
  show ?thesis
  proof (cases "length extents = length shape")
    case True
    show ?thesis
      using f True Extent resolve_axes_rejection [of "zip extents shape" "([], [])"] validate_rejection
      by (cases "resolve_axes (zip extents shape) ([], [])")
        (auto simp: to_hyperslab_def Let_def split: prod.splits elim!: and_then.elims)
  next
    case False
    then show ?thesis using f Extent by (auto simp: to_hyperslab_def rejection_def)
  qed
qed (simp add: to_hyperslab_def)

lemma to_hyperslab_Extent:
  assumes "\<forall>d \<in> set shape. d \<le> u64_max"
  shows "to_hyperslab (Extent es) shape = Inr slab \<longleftrightarrow>
    length es = length shape \<and> slab_ok slab shape \<and>
    (\<forall>a < length shape. resolve_extent (es ! a) (shape ! a) = Inr (start slab ! a, cnt slab ! a))"
    (is "?lhs \<longleftrightarrow> ?rhs")
proof
  assume ?lhs
  then obtain rs where len: "length es = length shape"
    and rs: "map_result (\<lambda>(e, len). resolve_extent e len) (zip es shape) = Inr rs"
    and slab: "slab = \<lparr>start = map fst rs, cnt = map snd rs\<rparr>" and v: "validate slab shape = Inr ()"
    by (auto simp: to_hyperslab_def result_simps resolve_axes_Ok Let_def split: if_splits prod.splits)
  have "length rs = length shape" using map_result_length [OF rs] len by simp
  then show ?rhs
    using len v validate_Ok [OF assms] slab map_result_nth [OF rs] by (auto simp: prod_eq_iff)
next
  assume r: ?rhs
  define rs where "rs = zip (start slab) (cnt slab)"
  have lens: "length (start slab) = length shape" "length (cnt slab) = length shape" using r by (auto simp: slab_ok_def)
  have "map_result (\<lambda>(e, len). resolve_extent e len) (zip es shape) = Ok rs"
    unfolding map_result_iff_nth using r lens by (simp add: rs_def)
  moreover have "slab = \<lparr>start = map fst rs, cnt = map snd rs\<rparr>" using lens by (simp add: rs_def)
  ultimately show ?lhs
    using r validate_Ok [OF assms, of slab]
    by (auto simp: to_hyperslab_def result_simps resolve_axes_Ok Let_def)
qed

text \<open>
  C13. A selection either becomes a hyperslab inside the variable that selects, of the coordinates
  of the variable, exactly those the extents denote, or is rejected with a bad-request or an
  unsupported error; it never panics and never reads other elements.  It is accepted exactly when
  there is one extent for each axis, every stride is 1 and every extent lies on its axis.
\<close>

theorem selection_exact:
  assumes "\<forall>d \<in> set shape. d \<le> u64_max"
  shows "case to_hyperslab es shape of
      Inr slab \<Rightarrow> extents_fit es shape \<and> slab_ok slab shape \<and>
        (\<forall>x. in_dims shape x \<longrightarrow> selected slab x = extents_denote es x)
    | Inl f \<Rightarrow> \<not> extents_fit es shape \<and> rejection f"
proof (cases es)
  case All
  then show ?thesis by (auto simp: to_hyperslab_def hyperslab_all_def slab_ok_def selected_def in_dims_nth)
next
  case (Extent e)
  have ex: "extents_fit es shape \<Longrightarrow> \<exists>slab. to_hyperslab es shape = Inr slab"
  proof -
    assume fit: "extents_fit es shape"
    define r where "r a = projr (resolve_extent (e ! a) (shape ! a))" for a
    define slab where "slab = \<lparr>start = map (fst \<circ> r) [0..<length shape], cnt = map (snd \<circ> r) [0..<length shape]\<rparr>"
    have "resolve_extent (e ! a) (shape ! a) = Inr (r a) \<and> fst (r a) + snd (r a) \<le> shape ! a" if "a < length shape" for a
      using fit that resolve_fits [of "e ! a" "shape ! a"] by (auto simp: Extent r_def)
    then have "to_hyperslab (Extent e) shape = Inr slab"
      unfolding to_hyperslab_Extent [OF assms] using fit by (auto simp: Extent slab_def slab_ok_def)
    then show ?thesis using Extent by auto
  qed
  show ?thesis
  proof (cases "to_hyperslab es shape")
    case (Inl f)
    then show ?thesis using ex to_hyperslab_rejection [OF Inl] by auto
  next
    case (Inr slab)
    note r = Inr [unfolded Extent to_hyperslab_Extent [OF assms]]
    have "stride_of (e ! a) = 1 \<and> fits (e ! a) (shape ! a)" if "a < length shape" for a
      using r that resolve_fits [of "e ! a" "shape ! a"] by (auto simp: slab_ok_def)
    moreover have "denotes (e ! a) (x ! a) \<longleftrightarrow> start slab ! a \<le> x ! a \<and> x ! a < start slab ! a + cnt slab ! a"
      if "in_dims shape x" "a < length shape" for x a
      using r that by (intro resolve_denotes) (auto simp: in_dims_nth)
    ultimately show ?thesis using Inr r by (auto simp: Extent slab_ok_def selected_def in_dims_nth)
  qed
qed

theorem selection_exact_witness:
  "to_hyperslab (Extent [Index 3, extent_of_range (0, 6)]) [10, 20] = Ok \<lparr>start = [3, 0], cnt = [1, 6]\<rparr> \<and>
   selected \<lparr>start = [3, 0], cnt = [1, 6]\<rparr> [3, 5] = extents_denote (Extent [Index 3, extent_of_range (0, 6)]) [3, 5] \<and>
   selected \<lparr>start = [3, 0], cnt = [1, 6]\<rparr> [4, 5] = extents_denote (Extent [Index 3, extent_of_range (0, 6)]) [4, 5]"
proof -
  have run: "to_hyperslab (Extent [Index 3, extent_of_range (0, 6)]) [10, 20] = Ok \<lparr>start = [3, 0], cnt = [1, 6]\<rparr>"
    by (simp add: to_hyperslab_def resolve_extent_def extent_of_range_def validate_def checked_add_def u64_max_def)
  have "in_dims [10, 20] x \<longrightarrow> selected \<lparr>start = [3, 0], cnt = [1, 6]\<rparr> x =
      extents_denote (Extent [Index 3, extent_of_range (0, 6)]) x" for x
    using selection_exact [of "[10, 20]" "Extent [Index 3, extent_of_range (0, 6)]"] run by (simp add: u64_max_def)
  from this [of "[3, 5]"] this [of "[4, 5]"] show ?thesis using run by (simp add: in_dims_nth nth_Cons less_Suc_eq)
qed

text \<open>
  A hyperslab turned into extents resolves back to itself on every shape that holds it: the two
  forms of a selection lose nothing.
\<close>

theorem hyperslab_extents_round_trip:
  assumes "slab_ok slab shape" and "\<forall>d \<in> set shape. d \<le> u64_max"
  shows "to_hyperslab (extents_of_hyperslab slab) shape = Ok slab \<and>
    extents_of_starts_counts (start slab) (cnt slab) = Ok (extents_of_hyperslab slab)"
  using assms
  by (auto simp: extents_of_hyperslab_def extents_of_starts_counts_def to_hyperslab_Extent slab_ok_def resolve_extent_def)

theorem hyperslab_extents_round_trip_witness:
  "to_hyperslab (extents_of_hyperslab \<lparr>start = [2, 5], cnt = [8, 15]\<rparr>) [10, 20] = Ok \<lparr>start = [2, 5], cnt = [8, 15]\<rparr>"
  by (rule hyperslab_extents_round_trip [THEN conjunct1]) (auto simp: slab_ok_def u64_max_def less_Suc_eq)

text \<open>
  A range whose inclusive end is \<open>usize::MAX\<close> panics in its conversion; every other inclusive
  range denotes the indices up to and including its end.
\<close>

theorem inclusive_range_panics:
  assumes "incl \<le> u64_max"
  shows "extent_of_range_inclusive (first, incl) =
    (if incl = u64_max then panic else Ok (SliceEnd first (incl + 1) 1))"
  using assms by (auto simp: extent_of_range_inclusive_def add64_def)

theorem inclusive_range_panics_witness: "extent_of_range_inclusive (0, 18446744073709551615) = panic"
  using inclusive_range_panics [of 18446744073709551615 0] by (simp add: u64_max_def)

end
