(* ===== verification/Classic_Header.thy ===== *)
theory Classic_Header
  imports Element_Types Superblock
begin

text \<open>
  The header of the netCDF classic formats CDF-1, CDF-2 and CDF-5 (\<^verbatim>\<open>crates/oxcdf/src/classic.rs\<close>):
  element types, the lists of dimensions, attributes and variables, the layout of records, and the
  opening of a file over a window that grows until the header fits.  Numbers of an attribute are the
  bit patterns of \<open>f64\<close>.
\<close>

section \<open>Element types\<close>

datatype nc_type =
    NcByte | NcChar | NcShort | NcInt | NcFloat | NcDouble
  | NcUByte | NcUShort | NcUInt | NcInt64 | NcUInt64

definition from_code :: "nat \<Rightarrow> nc_type result" where
  "from_code code =
     (if code = 1 then Ok NcByte else if code = 2 then Ok NcChar else if code = 3 then Ok NcShort
      else if code = 4 then Ok NcInt else if code = 5 then Ok NcFloat else if code = 6 then Ok NcDouble
      else if code = 7 then Ok NcUByte else if code = 8 then Ok NcUShort else if code = 9 then Ok NcUInt
      else if code = 10 then Ok NcInt64 else if code = 11 then Ok NcUInt64
      else Error (Malformed ''classic type code''))"

fun nc_size :: "nc_type \<Rightarrow> nat" where
  "nc_size NcByte = 1"
| "nc_size NcChar = 1"
| "nc_size NcUByte = 1"
| "nc_size NcShort = 2"
| "nc_size NcUShort = 2"
| "nc_size NcInt = 4"
| "nc_size NcUInt = 4"
| "nc_size NcFloat = 4"
| "nc_size NcDouble = 8"
| "nc_size NcInt64 = 8"
| "nc_size NcUInt64 = 8"

definition nc_is_signed_integer :: "nc_type \<Rightarrow> bool" where
  "nc_is_signed_integer t \<longleftrightarrow> t \<in> {NcByte, NcShort, NcInt, NcInt64}"

definition nc_is_integer :: "nc_type \<Rightarrow> bool" where
  "nc_is_integer t \<longleftrightarrow> t \<notin> {NcFloat, NcDouble, NcChar}"

definition to_datatype :: "nc_type \<Rightarrow> hdf_type" where
  "to_datatype t =
     (let sz = nc_size t;
          cls = (case t of
              NcChar \<Rightarrow> String NullTerminate Ascii
            | NcFloat \<Rightarrow> FloatingPoint Big 0 (sz * 8) 23 8 0 23 127 (sz * 8 - 1)
            | NcDouble \<Rightarrow> FloatingPoint Big 0 (sz * 8) 52 11 0 52 1023 (sz * 8 - 1)
            | _ \<Rightarrow> FixedPoint Big (nc_is_signed_integer t) 0 (sz * 8))
      in Datatype 1 sz cls)"

section \<open>The parsed header\<close>

record classic_dimension =
  cd_name :: rstring
  cd_len :: nat
  cd_unlimited :: bool

record classic_attribute =
  ca_name :: rstring
  ca_type :: nc_type
  ca_text :: "rstring option"
  ca_numbers :: "nat list"
  ca_raw :: bytes

record classic_variable =
  cv_name :: rstring
  cv_dimensions :: "rstring list"
  cv_shape :: "nat list"
  cv_type :: nc_type
  cv_datatype :: hdf_type
  cv_attributes :: "classic_attribute list"
  cv_begin :: nat
  cv_record_size :: nat
  cv_is_record :: bool

record classic_header =
  ch_dimensions :: "classic_dimension list"
  ch_attributes :: "classic_attribute list"
  ch_variables :: "classic_variable list"
  ch_record_count :: nat
  ch_record_stride :: nat

section \<open>Fields\<close>

definition NC_DIMENSION :: nat where "NC_DIMENSION = 0x0A"
definition NC_VARIABLE :: nat where "NC_VARIABLE = 0x0B"
definition NC_ATTRIBUTE :: nat where "NC_ATTRIBUTE = 0x0C"

definition be_u32 :: "nat parser" where
  "be_u32 = bind_p (take_bytes 4) (\<lambda>b. ret_p (be_nat b))"

definition be_u64 :: "nat parser" where
  "be_u64 = bind_p (take_bytes 8) (\<lambda>b. ret_p (be_nat b))"

definition pad4 :: "nat \<Rightarrow> nat result" where
  "pad4 n = mul64 (div_ceil n 4) 4"

definition read_size :: "container \<Rightarrow> nat parser" where
  "read_size k = (if k = Cdf5 then be_u64 else be_u32)"

definition read_offset :: "container \<Rightarrow> nat parser" where
  "read_offset k = (if k = Cdf1 then be_u32 else be_u64)"

text \<open>The padding behind \<open>n\<close> bytes: \<open>cur.skip(pad4(n) - n)\<close>.\<close>

definition skip_padding :: "nat \<Rightarrow> unit parser" where
  "skip_padding n = bind_p (lift_p (pad4 n)) (\<lambda>p. skip (p - n))"

definition read_name :: "container \<Rightarrow> rstring parser" where
  "read_name k =
     bind_p (if k = Cdf5 then be_u64 else be_u32) (\<lambda>len. bind_p (take_bytes len) (\<lambda>raw.
       let name = from_utf8_lossy raw in bind_p (skip_padding len) (\<lambda>_. ret_p name)))"

definition decode_number :: "nc_type \<Rightarrow> bytes \<Rightarrow> nat" where
  "decode_number t b =
     (case t of
        NcFloat \<Rightarrow> convert_float f32_format f64_format (le_nat b)
      | NcDouble \<Rightarrow> le_nat b
      | NcByte \<Rightarrow> float_of_int f64_format (wrap_to I8 (int (le_nat b)))
      | NcUByte \<Rightarrow> float_of_int f64_format (int (le_nat b))
      | NcChar \<Rightarrow> float_of_int f64_format (int (le_nat b))
      | NcShort \<Rightarrow> float_of_int f64_format (wrap_to I16 (int (le_nat b)))
      | NcUShort \<Rightarrow> float_of_int f64_format (int (le_nat b))
      | NcInt \<Rightarrow> float_of_int f64_format (wrap_to I32 (int (le_nat b)))
      | NcUInt \<Rightarrow> float_of_int f64_format (int (le_nat b))
      | NcInt64 \<Rightarrow> float_of_int f64_format (wrap_to I64 (int (le_nat b)))
      | NcUInt64 \<Rightarrow> float_of_int f64_format (int (le_nat b)))"

definition decode_numbers :: "bytes \<Rightarrow> nc_type \<Rightarrow> nat list" where
  "decode_numbers b t = map (\<lambda>i. decode_number t (elem (nc_size t) b i)) [0..<length b div nc_size t]"

definition decode_attribute :: "rstring \<Rightarrow> nc_type \<Rightarrow> bytes \<Rightarrow> classic_attribute" where
  "decode_attribute name t raw =
     (if t = NcChar
      then \<lparr>ca_name = name, ca_type = t,
            ca_text = Some (from_utf8_lossy (take (position_or (\<lambda>b. b = 0) raw (length raw)) raw)),
            ca_numbers = [], ca_raw = raw\<rparr>
      else \<lparr>ca_name = name, ca_type = t, ca_text = None,
            ca_numbers = decode_numbers (swap_bytes_in_place raw (nc_size t)) t, ca_raw = raw\<rparr>)"

definition read_attribute :: "container \<Rightarrow> classic_attribute parser" where
  "read_attribute k =
     bind_p (read_name k) (\<lambda>name. bind_p be_u32 (\<lambda>code. bind_p (lift_p (from_code code)) (\<lambda>t.
     bind_p (read_size k) (\<lambda>n.
       case checked_mul n (nc_size t) of
         None \<Rightarrow> fail_p (Malformed ''attribute claims elements, which overflows a byte count'')
       | Some len \<Rightarrow> bind_p (take_bytes len) (\<lambda>raw. bind_p (skip_padding len) (\<lambda>_.
           ret_p (decode_attribute name t raw)))))))"

text \<open>
  \<open>sized_for\<close> only reserves capacity, bounded by the bytes that remain; it has no part in the result.
\<close>

definition read_attributes :: "container \<Rightarrow> classic_attribute list parser" where
  "read_attributes k =
     bind_p be_u32 (\<lambda>tag. bind_p (read_size k) (\<lambda>n.
       if tag \<noteq> NC_ATTRIBUTE
       then if tag \<noteq> 0 then fail_p (Malformed ''expected an attribute list'') else ret_p []
       else repeat_p n (read_attribute k)))"

section \<open>The header\<close>

definition read_dimension :: "container \<Rightarrow> classic_dimension parser" where
  "read_dimension k =
     bind_p (read_name k) (\<lambda>name. bind_p (read_size k) (\<lambda>len.
       ret_p \<lparr>cd_name = name, cd_len = len, cd_unlimited = (len = 0)\<rparr>))"

definition read_dimensions :: "container \<Rightarrow> classic_dimension list parser" where
  "read_dimensions k =
     bind_p be_u32 (\<lambda>tag. bind_p (read_size k) (\<lambda>n.
       if tag = NC_DIMENSION then repeat_p n (read_dimension k)
       else if tag \<noteq> 0 then fail_p (Malformed ''expected a dimension list'') else ret_p []))"

definition set_record_count :: "nat \<Rightarrow> classic_dimension \<Rightarrow> classic_dimension" where
  "set_record_count records d = (if cd_unlimited d then d\<lparr>cd_len := records\<rparr> else d)"

fun lookup_dims :: "classic_dimension list \<Rightarrow> nat list \<Rightarrow> classic_dimension list result" where
  "lookup_dims dimensions [] = Ok []"
| "lookup_dims dimensions (i # ids) =
     (if i < length dimensions
      then and_then (lookup_dims dimensions ids) (\<lambda>ds. Ok (dimensions ! i # ds))
      else Error (Malformed ''variable names a dimension which does not exist''))"

definition first_is_record :: "classic_dimension list \<Rightarrow> nat list \<Rightarrow> bool" where
  "first_is_record dimensions ids \<longleftrightarrow>
     (case ids of [] \<Rightarrow> False | i # _ \<Rightarrow> i < length dimensions \<and> cd_unlimited (dimensions ! i))"

definition per_record :: "bool \<Rightarrow> nat list \<Rightarrow> nc_type \<Rightarrow> nat result" where
  "per_record is_record shape t =
     (if is_record then pad4 (saturating_mul (element_count (drop 1 shape)) (nc_size t)) else Ok 0)"

definition read_variable :: "container \<Rightarrow> classic_dimension list \<Rightarrow> classic_variable parser" where
  "read_variable k dimensions =
     bind_p (read_name k) (\<lambda>name. bind_p (read_size k) (\<lambda>rank. bind_p (repeat_p rank (read_size k)) (\<lambda>ids.
     bind_p (read_attributes k) (\<lambda>attributes. bind_p be_u32 (\<lambda>code. bind_p (lift_p (from_code code)) (\<lambda>t.
     bind_p (read_size k) (\<lambda>vsize. bind_p (read_offset k) (\<lambda>at.
     bind_p (lift_p (lookup_dims dimensions ids)) (\<lambda>ds.
       let shape = map cd_len ds; is_record = first_is_record dimensions ids in
       bind_p (lift_p (per_record is_record shape t)) (\<lambda>record_size.
         ret_p \<lparr>cv_name = name, cv_dimensions = map cd_name ds, cv_shape = shape, cv_type = t,
                cv_datatype = to_datatype t, cv_attributes = attributes, cv_begin = at,
                cv_record_size = record_size, cv_is_record = is_record\<rparr>))))))))))"

definition read_variables :: "container \<Rightarrow> classic_dimension list \<Rightarrow> classic_variable list parser" where
  "read_variables k dimensions =
     bind_p be_u32 (\<lambda>tag. bind_p (read_size k) (\<lambda>n.
       if tag = NC_VARIABLE then repeat_p n (read_variable k dimensions)
       else if tag \<noteq> 0 then fail_p (Malformed ''expected a variable list'') else ret_p []))"

fun sum64 :: "nat list \<Rightarrow> nat \<Rightarrow> nat result" where
  "sum64 [] acc = Ok acc"
| "sum64 (n # ns) acc = and_then (add64 acc n) (sum64 ns)"

definition record_stride :: "classic_variable list \<Rightarrow> nat result" where
  "record_stride variables =
     (case filter cv_is_record variables of
        [v] \<Rightarrow> Ok (saturating_mul (element_count (drop 1 (cv_shape v))) (nc_size (cv_type v)))
      | vs \<Rightarrow> sum64 (map cv_record_size vs) 0)"

definition header_parser :: "container \<Rightarrow> classic_header parser" where
  "header_parser k =
     bind_p (skip 4) (\<lambda>_. bind_p be_u32 (\<lambda>records. bind_p (read_dimensions k) (\<lambda>ds.
       let dimensions = map (set_record_count records) ds in
     bind_p (read_attributes k) (\<lambda>attributes. bind_p (read_variables k dimensions) (\<lambda>variables.
     bind_p (lift_p (record_stride variables)) (\<lambda>stride.
       ret_p \<lparr>ch_dimensions = dimensions, ch_attributes = attributes, ch_variables = variables,
              ch_record_count = records, ch_record_stride = stride\<rparr>))))))"

definition parse_header :: "bytes \<Rightarrow> container \<Rightarrow> classic_header result" where
  "parse_header b k = run_p (header_parser k) b"

section \<open>Opening a file\<close>

record classic_file =
  cf_source :: source
  cf_container :: container
  cf_header :: classic_header

definition classic_container :: "bytes \<Rightarrow> container result" where
  "classic_container magic =
     (if magic = [0x43, 0x44, 0x46, 1] then Ok Cdf1 else if magic = [0x43, 0x44, 0x46, 2] then Ok Cdf2
      else if magic = [0x43, 0x44, 0x46, 5] then Ok Cdf5
      else Error (Malformed ''not a netCDF classic file''))"

definition is_out_of_bounds :: "failure \<Rightarrow> bool" where
  "is_out_of_bounds f \<longleftrightarrow> (case f of Err (OutOfBounds _ _ _ _) \<Rightarrow> True | _ \<Rightarrow> False)"

text \<open>The loop grows the window; \<open>None\<close> would be a loop that never ends.\<close>

partial_function (option) open_loop :: "source \<Rightarrow> container \<Rightarrow> nat \<Rightarrow> classic_header result option" where
  "open_loop src k window =
     (case and_then (read_vec src 0 window) (\<lambda>b. Ok (parse_header b k)) of
        Inl f \<Rightarrow> Some (Inl f)
      | Inr (Inr h) \<Rightarrow> Some (Inr h)
      | Inr (Inl f) \<Rightarrow>
          if is_out_of_bounds f \<and> window < src_size src then
            (case mul64 window 4 of
               Inl p \<Rightarrow> Some (Inl p)
             | Inr grown \<Rightarrow> open_loop src k (min grown (src_size src)))
          else Some (Inl f))"

definition classic_from_source :: "source \<Rightarrow> classic_file result option" where
  "classic_from_source src =
     (case and_then (read_exact_at src 0 4) classic_container of
        Inl f \<Rightarrow> Some (Inl f)
      | Inr k \<Rightarrow> map_option (\<lambda>r. and_then r (\<lambda>h. Ok \<lparr>cf_source = src, cf_container = k, cf_header = h\<rparr>))
          (open_loop src k (min (src_size src) (2 ^ 16))))"

definition find_variable :: "classic_file \<Rightarrow> rstring \<Rightarrow> classic_variable option" where
  "find_variable f name = find (\<lambda>v. cv_name v = name) (ch_variables (cf_header f))"

definition find_dimension :: "classic_file \<Rightarrow> rstring \<Rightarrow> classic_dimension option" where
  "find_dimension f name = find (\<lambda>d. cd_name d = name) (ch_dimensions (cf_header f))"

definition find_attribute :: "classic_attribute list \<Rightarrow> rstring \<Rightarrow> classic_attribute option" where
  "find_attribute as name = find (\<lambda>a. ca_name a = name) as"

section \<open>Parsing a prefix\<close>

text \<open>
  \<open>prefix_stable p\<close>: what \<open>p\<close> returns on a prefix of a buffer it also returns on the whole buffer,
  unless it ran out of bytes.  This is why a window over the front of the file is enough.
\<close>

definition prefix_stable :: "'a parser \<Rightarrow> bool" where
  "prefix_stable p \<longleftrightarrow>
     (\<forall>b ext n. length (b @ ext) \<le> isize_max \<longrightarrow>
        (case p \<lparr>buf = b, pos = n\<rparr> of
           Inr (x, c) \<Rightarrow> buf c = b \<and> p \<lparr>buf = b @ ext, pos = n\<rparr> = Inr (x, \<lparr>buf = b @ ext, pos = pos c\<rparr>)
         | Inl f \<Rightarrow> is_out_of_bounds f \<or> p \<lparr>buf = b @ ext, pos = n\<rparr> = Inl f))"

named_theorems stable_intros \<open>parsers whose results do not depend on what follows\<close>

lemma stable_ret [stable_intros]: "prefix_stable (ret_p x)"
  by (simp add: prefix_stable_def ret_p_def)

lemma stable_fail [stable_intros]: "prefix_stable (fail_p e)"
  by (simp add: prefix_stable_def fail_p_def)

lemma stable_lift [stable_intros]: "prefix_stable (lift_p r)"
  by (cases r) (simp_all add: prefix_stable_def lift_p_def)

lemma stable_bind [stable_intros]:
  assumes p: "prefix_stable p" and f: "\<And>x. prefix_stable (f x)"
  shows "prefix_stable (bind_p p f)"
  unfolding prefix_stable_def
proof (intro allI impI)
  fix b ext :: bytes and n
  assume len: "length (b @ ext) \<le> isize_max"
  note P = p [unfolded prefix_stable_def, rule_format, OF len, of n]
  show "case bind_p p f \<lparr>buf = b, pos = n\<rparr> of
      Inr (x, c) \<Rightarrow> buf c = b \<and> bind_p p f \<lparr>buf = b @ ext, pos = n\<rparr> = Inr (x, \<lparr>buf = b @ ext, pos = pos c\<rparr>)
    | Inl e \<Rightarrow> is_out_of_bounds e \<or> bind_p p f \<lparr>buf = b @ ext, pos = n\<rparr> = Inl e"
  proof (cases "p \<lparr>buf = b, pos = n\<rparr>")
    case (Inl e)
    then show ?thesis using P by (auto simp: bind_p_def)
  next
    case (Inr xc)
    obtain x c where xc: "xc = (x, c)" by fastforce
    then have c: "c = \<lparr>buf = b, pos = pos c\<rparr>" "p \<lparr>buf = b @ ext, pos = n\<rparr> = Inr (x, \<lparr>buf = b @ ext, pos = pos c\<rparr>)"
      using P Inr by auto
    then have "bind_p p f \<lparr>buf = b, pos = n\<rparr> = f x \<lparr>buf = b, pos = pos c\<rparr>"
      "bind_p p f \<lparr>buf = b @ ext, pos = n\<rparr> = f x \<lparr>buf = b @ ext, pos = pos c\<rparr>"
      using Inr xc by (simp_all add: bind_p_def)
    then show ?thesis using f [unfolded prefix_stable_def, rule_format, OF len, of x "pos c"] by (simp only:)
  qed
qed

lemma stable_take [stable_intros]: "prefix_stable (take_bytes n)"
  by (auto simp: prefix_stable_def take_bytes_def checked_add_def slice_range_def slice_def oob_def is_out_of_bounds_def
      split: option.splits)

lemma stable_if [stable_intros]:
  "(P \<Longrightarrow> prefix_stable p) \<Longrightarrow> (\<not> P \<Longrightarrow> prefix_stable q) \<Longrightarrow> prefix_stable (if P then p else q)"
  by simp

lemma stable_option [stable_intros]:
  "prefix_stable p \<Longrightarrow> (\<And>x. prefix_stable (q x)) \<Longrightarrow> prefix_stable (case a of None \<Rightarrow> p | Some x \<Rightarrow> q x)"
  by (cases a) auto

lemma stable_repeat [stable_intros]: "prefix_stable p \<Longrightarrow> prefix_stable (repeat_p n p)"
  by (induction n) (auto intro!: stable_intros)

lemma stable_skip [stable_intros]: "prefix_stable (skip n)"
  unfolding skip_def by (intro stable_intros)

lemma stable_be [stable_intros]: "prefix_stable be_u32" "prefix_stable be_u64"
  unfolding be_u32_def be_u64_def by (intro stable_intros)+

lemma stable_sizes [stable_intros]: "prefix_stable (read_size k)" "prefix_stable (read_offset k)"
  unfolding read_size_def read_offset_def by (intro stable_intros)+

lemma stable_name [stable_intros]: "prefix_stable (read_name k)" "prefix_stable (skip_padding n)"
  unfolding read_name_def skip_padding_def Let_def by (intro stable_intros)+

lemma stable_attributes [stable_intros]: "prefix_stable (read_attribute k)" "prefix_stable (read_attributes k)"
  unfolding read_attributes_def read_attribute_def by (intro stable_intros)+

lemma stable_lists [stable_intros]: "prefix_stable (read_dimensions k)" "prefix_stable (read_variables k ds)"
  unfolding read_dimensions_def read_dimension_def read_variables_def read_variable_def Let_def
  by (intro stable_intros)+

lemma stable_header: "prefix_stable (header_parser k)"
  unfolding header_parser_def Let_def by (intro stable_intros)

lemma parse_header_prefix:
  assumes "length (b @ ext) \<le> isize_max"
  shows "(\<exists>f. parse_header b k = Inl f \<and> is_out_of_bounds f) \<or> parse_header (b @ ext) k = parse_header b k"
  using stable_header [of k, unfolded prefix_stable_def, rule_format, OF assms, of 0]
  by (auto simp: parse_header_def run_p_def new_cursor_def split: sum.splits prod.splits)

lemma open_loop_parses:
  assumes src: "byte_source src contents" and small: "length contents \<le> 2 ^ 62"
  shows "0 < window \<Longrightarrow> window \<le> length contents \<Longrightarrow> open_loop src k window = Some (parse_header contents k)"
proof (induction "length contents - window" arbitrary: window rule: less_induct)
  case less
  note size = byte_source.size_contents [OF src]
  have read: "read_vec src 0 window = Ok (take window contents)"
    using byte_source.read_vec_inside [OF src, of 0 window] less.prems by simp
  have pre: "(\<exists>f. parse_header (take window contents) k = Inl f \<and> is_out_of_bounds f) \<or>
      parse_header contents k = parse_header (take window contents) k"
    using parse_header_prefix [of "take window contents" "drop window contents" k] byte_source.contents_small [OF src] by simp
  show ?case
  proof (cases "\<exists>f. parse_header (take window contents) k = Inl f \<and> is_out_of_bounds f \<and> window < length contents")
    case True
    let ?w = "min (window * 4) (length contents)"
    have "mul64 window 4 = Ok (window * 4)" using True small by (auto simp: mul64_def u64_max_def)
    moreover have "open_loop src k ?w = Some (parse_header contents k)"
      by (rule less.hyps) (use True less.prems in auto)
    ultimately show ?thesis using True read size by (subst open_loop.simps) auto
  next
    case False
    then have "parse_header contents k = parse_header (take window contents) k" using pre less.prems by fastforce
    then show ?thesis using False read size by (subst open_loop.simps) (auto split: sum.splits)
  qed
qed

section \<open>The encoding of a header\<close>

text \<open>
  A header as a writer has it, and its bytes in the published layout.  Lengths, counts and
  dimension numbers take 8 bytes in CDF-5 and 4 otherwise, offsets 4 bytes in CDF-1 and 8
  otherwise, and the number of records is a count.  An empty list is the absent one.
\<close>

record var_spec =
  vs_name :: rstring
  vs_ids :: "nat list"
  vs_attributes :: "classic_attribute list"
  vs_type :: nc_type
  vs_size :: nat
  vs_begin :: nat

record header_spec =
  hs_records :: nat
  hs_dimensions :: "(rstring \<times> nat) list"
  hs_attributes :: "classic_attribute list"
  hs_variables :: "var_spec list"

definition to_be :: "nat \<Rightarrow> nat \<Rightarrow> bytes" where
  "to_be w n = rev (to_le w n)"

definition size_width :: "container \<Rightarrow> nat" where
  "size_width k = (if k = Cdf5 then 8 else 4)"

definition offset_width :: "container \<Rightarrow> nat" where
  "offset_width k = (if k = Cdf1 then 4 else 8)"

definition round_up4 :: "nat \<Rightarrow> nat" where
  "round_up4 n = (n + 3) div 4 * 4"

definition encode_padding :: "nat \<Rightarrow> bytes" where
  "encode_padding n = replicate (round_up4 n - n) 0"

definition encode_name :: "container \<Rightarrow> rstring \<Rightarrow> bytes" where
  "encode_name k name = to_be (size_width k) (length name) @ name @ encode_padding (length name)"

fun nc_code :: "nc_type \<Rightarrow> nat" where
  "nc_code NcByte = 1"
| "nc_code NcChar = 2"
| "nc_code NcShort = 3"
| "nc_code NcInt = 4"
| "nc_code NcFloat = 5"
| "nc_code NcDouble = 6"
| "nc_code NcUByte = 7"
| "nc_code NcUShort = 8"
| "nc_code NcUInt = 9"
| "nc_code NcInt64 = 10"
| "nc_code NcUInt64 = 11"

definition encode_attribute_entry :: "container \<Rightarrow> classic_attribute \<Rightarrow> bytes" where
  "encode_attribute_entry k a =
     encode_name k (ca_name a) @ to_be 4 (nc_code (ca_type a)) @
     to_be (size_width k) (length (ca_raw a) div nc_size (ca_type a)) @ ca_raw a @ encode_padding (length (ca_raw a))"

definition encode_list :: "container \<Rightarrow> nat \<Rightarrow> ('a \<Rightarrow> bytes) \<Rightarrow> 'a list \<Rightarrow> bytes" where
  "encode_list k tag enc xs =
     (if xs = [] then to_be 4 0 @ to_be (size_width k) 0
      else to_be 4 tag @ to_be (size_width k) (length xs) @ concat (map enc xs))"

definition encode_dimension :: "container \<Rightarrow> rstring \<times> nat \<Rightarrow> bytes" where
  "encode_dimension k d = encode_name k (fst d) @ to_be (size_width k) (snd d)"

definition encode_variable :: "container \<Rightarrow> var_spec \<Rightarrow> bytes" where
  "encode_variable k v =
     encode_name k (vs_name v) @ to_be (size_width k) (length (vs_ids v)) @
     concat (map (to_be (size_width k)) (vs_ids v)) @
     encode_list k NC_ATTRIBUTE (encode_attribute_entry k) (vs_attributes v) @ to_be 4 (nc_code (vs_type v)) @
     to_be (size_width k) (vs_size v) @ to_be (offset_width k) (vs_begin v)"

definition encode_header :: "container \<Rightarrow> bytes \<Rightarrow> header_spec \<Rightarrow> bytes" where
  "encode_header k magic h =
     magic @ to_be (size_width k) (hs_records h) @
     encode_list k NC_DIMENSION (encode_dimension k) (hs_dimensions h) @
     encode_list k NC_ATTRIBUTE (encode_attribute_entry k) (hs_attributes h) @
     encode_list k NC_VARIABLE (encode_variable k) (hs_variables h)"

text \<open>What the header means.\<close>

definition dimension_of :: "nat \<Rightarrow> rstring \<times> nat \<Rightarrow> classic_dimension" where
  "dimension_of records d =
     \<lparr>cd_name = fst d, cd_len = (if snd d = 0 then records else snd d), cd_unlimited = (snd d = 0)\<rparr>"

definition spec_is_record :: "classic_dimension list \<Rightarrow> var_spec \<Rightarrow> bool" where
  "spec_is_record ds v \<longleftrightarrow> vs_ids v \<noteq> [] \<and> cd_unlimited (ds ! hd (vs_ids v))"

definition spec_record_bytes :: "classic_dimension list \<Rightarrow> var_spec \<Rightarrow> nat" where
  "spec_record_bytes ds v = prod_list (map (\<lambda>i. cd_len (ds ! i)) (tl (vs_ids v))) * nc_size (vs_type v)"

definition variable_of :: "classic_dimension list \<Rightarrow> var_spec \<Rightarrow> classic_variable" where
  "variable_of ds v =
     \<lparr>cv_name = vs_name v, cv_dimensions = map (\<lambda>i. cd_name (ds ! i)) (vs_ids v),
      cv_shape = map (\<lambda>i. cd_len (ds ! i)) (vs_ids v), cv_type = vs_type v, cv_datatype = to_datatype (vs_type v),
      cv_attributes = vs_attributes v, cv_begin = vs_begin v,
      cv_record_size = (if spec_is_record ds v then round_up4 (spec_record_bytes ds v) else 0),
      cv_is_record = spec_is_record ds v\<rparr>"

definition spec_stride :: "classic_dimension list \<Rightarrow> var_spec list \<Rightarrow> nat" where
  "spec_stride ds vs =
     (case filter (spec_is_record ds) vs of
        [v] \<Rightarrow> spec_record_bytes ds v
      | rs \<Rightarrow> sum_list (map (\<lambda>v. round_up4 (spec_record_bytes ds v)) rs))"

definition header_of :: "header_spec \<Rightarrow> classic_header" where
  "header_of h =
     (let ds = map (dimension_of (hs_records h)) (hs_dimensions h) in
      \<lparr>ch_dimensions = ds, ch_attributes = hs_attributes h, ch_variables = map (variable_of ds) (hs_variables h),
       ch_record_count = hs_records h, ch_record_stride = spec_stride ds (hs_variables h)\<rparr>)"

definition header_name_ok :: "container \<Rightarrow> rstring \<Rightarrow> bool" where
  "header_name_ok k name \<longleftrightarrow> valid_utf8 name \<and> length name < 256 ^ size_width k \<and> length name \<le> isize_max"

definition attribute_ok :: "container \<Rightarrow> classic_attribute \<Rightarrow> bool" where
  "attribute_ok k a \<longleftrightarrow>
     header_name_ok k (ca_name a) \<and> length (ca_raw a) mod nc_size (ca_type a) = 0 \<and>
     length (ca_raw a) < 256 ^ size_width k \<and> length (ca_raw a) \<le> isize_max \<and>
     a = decode_attribute (ca_name a) (ca_type a) (ca_raw a)"

definition list_ok :: "container \<Rightarrow> ('a \<Rightarrow> bool) \<Rightarrow> 'a list \<Rightarrow> bool" where
  "list_ok k P xs \<longleftrightarrow> length xs < 256 ^ size_width k \<and> (\<forall>x \<in> set xs. P x)"

definition dimension_ok :: "container \<Rightarrow> rstring \<times> nat \<Rightarrow> bool" where
  "dimension_ok k d \<longleftrightarrow> header_name_ok k (fst d) \<and> snd d < 256 ^ size_width k"

definition variable_ok :: "container \<Rightarrow> classic_dimension list \<Rightarrow> var_spec \<Rightarrow> bool" where
  "variable_ok k ds v \<longleftrightarrow>
     header_name_ok k (vs_name v) \<and> list_ok k (\<lambda>i. i < length ds \<and> i < 256 ^ size_width k) (vs_ids v) \<and>
     list_ok k (attribute_ok k) (vs_attributes v) \<and> vs_size v < 256 ^ size_width k \<and>
     vs_begin v < 256 ^ offset_width k \<and>
     (spec_is_record ds v \<longrightarrow> round_up4 (spec_record_bytes ds v) \<le> u64_max)"

definition header_ok :: "container \<Rightarrow> header_spec \<Rightarrow> bool" where
  "header_ok k h \<longleftrightarrow>
     (let ds = map (dimension_of (hs_records h)) (hs_dimensions h) in
      hs_records h < 2 ^ 32 \<and> list_ok k (dimension_ok k) (hs_dimensions h) \<and>
      list_ok k (attribute_ok k) (hs_attributes h) \<and> list_ok k (variable_ok k ds) (hs_variables h) \<and>
      sum_list (map (\<lambda>v. round_up4 (spec_record_bytes ds v)) (filter (spec_is_record ds) (hs_variables h))) \<le> u64_max)"

section \<open>Reading an encoded header\<close>

lemma length_to_be [simp]: "length (to_be w n) = w"
  by (simp add: to_be_def)

lemma be_nat_to_be: "n < 256 ^ w \<Longrightarrow> be_nat (to_be w n) = n"
  by (simp add: to_be_def be_nat_def)

lemma reads_be_u32: "n < 256 ^ 4 \<Longrightarrow> reads be_u32 (to_be 4 n) n"
  unfolding be_u32_def by (rule reads_bind_last [OF reads_take]) (use reads_ret [of n] be_nat_to_be [of n 4] in simp_all)

lemma reads_be_u64: "n < 256 ^ 8 \<Longrightarrow> reads be_u64 (to_be 8 n) n"
  unfolding be_u64_def by (rule reads_bind_last [OF reads_take]) (use reads_ret [of n] be_nat_to_be [of n 8] in simp_all)

lemma reads_size: "n < 256 ^ size_width k \<Longrightarrow> reads (read_size k) (to_be (size_width k) n) n"
  using reads_be_u32 [of n] reads_be_u64 [of n] by (simp add: read_size_def size_width_def split: if_splits)

lemma reads_offset: "n < 256 ^ offset_width k \<Longrightarrow> reads (read_offset k) (to_be (offset_width k) n) n"
  using reads_be_u32 [of n] reads_be_u64 [of n] by (simp add: read_offset_def offset_width_def split: if_splits)

lemma round_up4_div_ceil: "div_ceil n 4 * 4 = round_up4 n"
proof -
  define q r where "q = n div 4" and "r = n mod 4"
  have n: "n = q * 4 + r" "r < 4" by (simp_all add: q_def r_def)
  have "div_ceil n 4 = q + (if r = 0 then 0 else 1)" by (simp add: div_ceil_def q_def r_def)
  moreover have "(n + 3) div 4 = q + (if r = 0 then 0 else 1)" using n by (simp split: if_splits) presburger
  ultimately show ?thesis by (simp add: round_up4_def)
qed

lemma round_up4_ge: "n \<le> round_up4 n"
  unfolding round_up4_def by presburger

lemma round_up4_le: "round_up4 n \<le> n + 3"
  unfolding round_up4_def by presburger

lemma pad4_Ok: "round_up4 n \<le> u64_max \<Longrightarrow> pad4 n = Ok (round_up4 n)"
  by (simp add: pad4_def mul64_def round_up4_div_ceil)

lemma reads_padding: "n \<le> isize_max \<Longrightarrow> reads (skip_padding n) (encode_padding n) ()"
proof -
  assume "n \<le> isize_max"
  then have "pad4 n = Ok (round_up4 n)"
    using round_up4_le [of n] by (intro pad4_Ok) (simp add: isize_max_def u64_max_def)
  then show ?thesis
    unfolding skip_padding_def encode_padding_def by (rule reads_lift_bind) (rule reads_skip, simp)
qed

lemma reads_name: "header_name_ok k name \<Longrightarrow> reads (read_name k) (encode_name k name) name"
  unfolding read_name_def encode_name_def Let_def read_size_def [symmetric] header_name_ok_def
  by (rule reads_bind [OF reads_size], simp, rule reads_bind [OF reads_take], simp, rule reads_bind_last [OF reads_padding])
    (auto simp: from_utf8_lossy_id intro: reads_ret)

lemma from_code_nc_code: "from_code (nc_code t) = Ok t"
  by (cases t) (simp_all add: from_code_def)

lemma nc_code_bound: "nc_code t < 256 ^ 4"
  by (cases t) simp_all

lemmas nc_code_bounds = nc_code_bound nc_code_bound [simplified]

lemma nc_size_pos [simp]: "0 < nc_size t"
  by (cases t) simp_all

lemma reads_attribute_entry:
  assumes a: "attribute_ok k a"
  shows "reads (read_attribute k) (encode_attribute_entry k a) a"
proof -
  let ?t = "ca_type a" and ?raw = "ca_raw a"
  let ?n = "length ?raw div nc_size ?t"
  have n: "?n * nc_size ?t = length ?raw" using a by (metis attribute_ok_def add_0_right div_mult_mod_eq)
  then have mul: "checked_mul ?n (nc_size ?t) = Some (length ?raw)"
    using a by (simp add: checked_mul_def attribute_ok_def isize_max_def u64_max_def)
  have "length ?raw < 256 ^ size_width k" using a by (simp add: attribute_ok_def)
  then have "?n < 256 ^ size_width k" by (rule le_less_trans [OF div_le_dividend])
  moreover have "decode_attribute (ca_name a) ?t ?raw = a" using a by (simp add: attribute_ok_def)
  ultimately show ?thesis
    unfolding read_attribute_def encode_attribute_entry_def
    by (intro reads_bind [OF reads_name] reads_bind [OF reads_be_u32] reads_lift_bind [OF from_code_nc_code]
        reads_bind [OF reads_size])
      (use a mul in \<open>auto simp: attribute_ok_def nc_code_bounds
        intro!: reads_bind [OF reads_take] reads_bind_last [OF reads_padding] intro: reads_ret\<close>)
qed

lemma reads_map:
  assumes "\<And>x. x \<in> set xs \<Longrightarrow> reads p (enc x) (g x)"
  shows "reads (repeat_p (length xs) p) (concat (map enc xs)) (map g xs)"
  using assms
proof (induction xs)
  case (Cons x xs)
  then show ?case by (simp, intro reads_bind) (auto intro!: reads_bind_last reads_ret)
qed (simp add: reads_ret)

lemma reads_list_map:
  assumes "list_ok k P xs" and "\<And>x. P x \<Longrightarrow> reads p (enc x) (g x)" and tag: "0 < tag" "tag < 256 ^ 4"
    and empty: "\<And>n. f 0 n = ret_p []" and full: "\<And>n. f tag n = repeat_p n p"
  shows "reads (bind_p be_u32 (\<lambda>tag. bind_p (read_size k) (f tag))) (encode_list k tag enc xs) (map g xs)"
proof (cases "xs = []")
  case True
  show ?thesis unfolding encode_list_def if_P [OF True]
    by (rule reads_bind [OF reads_be_u32], simp, rule reads_bind_last [OF reads_size], simp) (use True reads_ret empty in auto)
next
  case False
  have "reads (f tag (length xs)) (concat (map enc xs)) (map g xs)"
    unfolding full by (rule reads_map) (use assms(1,2) in \<open>auto simp: list_ok_def\<close>)
  then show ?thesis unfolding encode_list_def if_not_P [OF False]
    by (intro reads_bind [OF reads_be_u32] reads_bind [OF reads_size]) (use tag assms(1) in \<open>auto simp: list_ok_def\<close>)
qed

lemma reads_attribute_list:
  assumes "list_ok k (attribute_ok k) as"
  shows "reads (read_attributes k) (encode_list k NC_ATTRIBUTE (encode_attribute_entry k) as) as"
  using reads_list_map [OF assms, where p = "read_attribute k" and g = "\<lambda>a. a" and enc = "encode_attribute_entry k"
      and tag = NC_ATTRIBUTE and f = "\<lambda>tag n. if tag \<noteq> NC_ATTRIBUTE
        then if tag \<noteq> 0 then fail_p (Malformed ''expected an attribute list'') else ret_p []
        else repeat_p n (read_attribute k)"]
  by (simp add: read_attributes_def NC_ATTRIBUTE_def reads_attribute_entry)

lemma reads_dimension_list:
  assumes "list_ok k (dimension_ok k) ds"
  shows "reads (read_dimensions k) (encode_list k NC_DIMENSION (encode_dimension k) ds)
    (map (\<lambda>d. \<lparr>cd_name = fst d, cd_len = snd d, cd_unlimited = (snd d = 0)\<rparr>) ds)"
  unfolding read_dimensions_def
proof (rule reads_list_map [OF assms, where p = "read_dimension k"])
  fix d assume "dimension_ok k d"
  then show "reads (read_dimension k) (encode_dimension k d) \<lparr>cd_name = fst d, cd_len = snd d, cd_unlimited = (snd d = 0)\<rparr>"
    unfolding read_dimension_def encode_dimension_def
    by (intro reads_bind [OF reads_name] reads_bind_last [OF reads_size]) (auto simp: dimension_ok_def intro: reads_ret)
qed (simp_all add: NC_DIMENSION_def)

lemma lookup_dims_Ok: "\<forall>i \<in> set ids. i < length ds \<Longrightarrow> lookup_dims ds ids = Ok (map ((!) ds) ids)"
  by (induction ids) auto

lemma element_count_mul:
  assumes "prod_list xs * n \<le> u64_max" and "0 < n"
  shows "saturating_mul (element_count xs) n = prod_list xs * n"
proof -
  have "prod_list xs \<le> u64_max" using assms by (metis Suc_leI dual_order.trans mult.right_neutral mult_le_mono2 One_nat_def)
  then show ?thesis using assms by (simp add: element_count_eq saturating_mul_def)
qed

lemma reads_variable:
  assumes v: "variable_ok k ds v"
  shows "reads (read_variable k ds) (encode_variable k v) (variable_of ds v)"
proof -
  let ?ids = "vs_ids v"
  have ids: "reads (repeat_p (length ?ids) (read_size k)) (concat (map (to_be (size_width k)) ?ids)) ?ids"
    by (rule reads_repeat) (use v in \<open>auto simp: variable_ok_def list_ok_def intro: reads_size\<close>)
  have look: "lookup_dims ds ?ids = Ok (map ((!) ds) ?ids)"
    using v by (intro lookup_dims_Ok) (auto simp: variable_ok_def list_ok_def)
  have rec: "first_is_record ds ?ids = spec_is_record ds v"
    using v by (cases ?ids) (auto simp: first_is_record_def spec_is_record_def variable_ok_def list_ok_def)
  have per: "per_record (spec_is_record ds v) (map cd_len (map ((!) ds) ?ids)) (vs_type v) =
      Ok (if spec_is_record ds v then round_up4 (spec_record_bytes ds v) else 0)"
  proof (cases "spec_is_record ds v")
    case True
    then have le: "round_up4 (spec_record_bytes ds v) \<le> u64_max" using v by (simp add: variable_ok_def)
    then have "spec_record_bytes ds v \<le> u64_max" using round_up4_ge [of "spec_record_bytes ds v"] by linarith
    then have "saturating_mul (element_count (drop 1 (map cd_len (map ((!) ds) ?ids)))) (nc_size (vs_type v)) = spec_record_bytes ds v"
      using element_count_mul by (simp add: spec_record_bytes_def drop_Suc map_tl comp_def)
    then show ?thesis using True le by (simp add: per_record_def pad4_Ok)
  qed (simp add: per_record_def)
  show ?thesis
    unfolding read_variable_def encode_variable_def Let_def
    by (rule reads_bind [OF reads_name], use v in \<open>simp add: variable_ok_def\<close>,
        rule reads_bind [OF reads_size], use v in \<open>simp add: variable_ok_def list_ok_def\<close>,
        rule reads_bind [OF ids], rule reads_bind [OF reads_attribute_list], use v in \<open>simp add: variable_ok_def\<close>,
        rule reads_bind [OF reads_be_u32 [OF nc_code_bound]], rule reads_lift_bind [OF from_code_nc_code],
        rule reads_bind [OF reads_size], use v in \<open>simp add: variable_ok_def\<close>,
        rule reads_bind_last [OF reads_offset], use v in \<open>simp add: variable_ok_def\<close>,
        rule reads_lift_bind [OF look], rule reads_lift_bind [OF per [folded rec]])
      (use reads_ret rec in \<open>auto simp: variable_of_def comp_def\<close>)
qed

lemma sum64_Ok: "acc + sum_list ns \<le> u64_max \<Longrightarrow> sum64 ns acc = Ok (acc + sum_list ns)"
  by (induction ns arbitrary: acc) (auto simp: add64_def add.assoc)

lemma filter_variable_of:
  "filter cv_is_record (map (variable_of ds) vs) = map (variable_of ds) (filter (spec_is_record ds) vs)"
  by (induction vs) (auto simp: variable_of_def)

lemma record_stride_of:
  assumes "\<forall>v \<in> set vs. variable_ok k ds v"
    and sum: "sum_list (map (\<lambda>v. round_up4 (spec_record_bytes ds v)) (filter (spec_is_record ds) vs)) \<le> u64_max"
  shows "record_stride (map (variable_of ds) vs) = Ok (spec_stride ds vs)"
proof -
  let ?rs = "filter (spec_is_record ds) vs"
  have sizes: "map cv_record_size (map (variable_of ds) ?rs) = map (\<lambda>v. round_up4 (spec_record_bytes ds v)) ?rs"
    by (auto simp: variable_of_def)
  consider v where "?rs = [v]" | "\<forall>v. ?rs \<noteq> [v]" by auto
  then show ?thesis
  proof cases
    case 1
    have "v \<in> set ?rs" unfolding 1 by simp
    then have "round_up4 (spec_record_bytes ds v) \<le> u64_max" using assms(1) by (auto simp: variable_ok_def)
    then have "spec_record_bytes ds v \<le> u64_max" using round_up4_ge [of "spec_record_bytes ds v"] by linarith
    then show ?thesis using 1 element_count_mul
      by (simp add: record_stride_def spec_stride_def filter_variable_of variable_of_def spec_record_bytes_def drop_Suc map_tl)
  next
    case 2
    then have "record_stride (map (variable_of ds) vs) = sum64 (map cv_record_size (map (variable_of ds) ?rs)) 0"
      and "spec_stride ds vs = sum_list (map (\<lambda>v. round_up4 (spec_record_bytes ds v)) ?rs)"
      unfolding record_stride_def spec_stride_def filter_variable_of by (auto split: list.splits)
    then show ?thesis using sum64_Ok [of 0] sum unfolding sizes by simp
  qed
qed

lemma reads_header:
  assumes h: "header_ok k h" and k: "k \<noteq> Cdf5" and magic: "length magic = 4"
  shows "reads (header_parser k) (encode_header k magic h) (header_of h)"
proof -
  let ?ds = "map (dimension_of (hs_records h)) (hs_dimensions h)"
  have ds: "map (set_record_count (hs_records h))
      (map (\<lambda>d. \<lparr>cd_name = fst d, cd_len = snd d, cd_unlimited = (snd d = 0)\<rparr>) (hs_dimensions h)) = ?ds"
    by (auto simp: set_record_count_def dimension_of_def)
  have ok: "hs_records h < 256 ^ 4" "list_ok k (dimension_ok k) (hs_dimensions h)"
    "list_ok k (attribute_ok k) (hs_attributes h)" "list_ok k (variable_ok k ?ds) (hs_variables h)"
    "sum_list (map (\<lambda>v. round_up4 (spec_record_bytes ?ds v)) (filter (spec_is_record ?ds) (hs_variables h))) \<le> u64_max"
    using h by (simp_all add: header_ok_def Let_def)
  have vars: "reads (read_variables k ?ds) (encode_list k NC_VARIABLE (encode_variable k) (hs_variables h))
      (map (variable_of ?ds) (hs_variables h))"
    unfolding read_variables_def
    by (rule reads_list_map [OF ok(4), where p = "read_variable k ?ds"]) (simp_all add: NC_VARIABLE_def reads_variable)
  have stride: "record_stride (map (variable_of ?ds) (hs_variables h)) = Ok (spec_stride ?ds (hs_variables h))"
    using ok(4,5) by (intro record_stride_of) (auto simp: list_ok_def)
  have w: "size_width k = 4" using k by (simp add: size_width_def)
  show ?thesis
    unfolding header_parser_def encode_header_def Let_def
    by (rule reads_bind [OF reads_skip [OF magic]], unfold w, rule reads_bind [OF reads_be_u32 [OF ok(1)]],
        rule reads_bind [OF reads_dimension_list [OF ok(2)]], unfold ds, rule reads_bind [OF reads_attribute_list [OF ok(3)]],
        rule reads_bind_last [OF vars], rule reads_lift_bind [OF stride])
      (use reads_ret in \<open>simp add: header_of_def Let_def\<close>)
qed

lemma to_be_halves:
  assumes "n < 2 ^ 64"
  shows "to_be 8 n = to_be 4 (n div 2 ^ 32) @ to_be 4 (n mod 2 ^ 32)"
proof -
  have "n = n mod 2 ^ 32 + 2 ^ 32 * (n div 2 ^ 32)" by (simp only: mod_mult_div_eq)
  moreover have "n div 2 ^ 32 < 2 ^ 32" using assms by (simp add: div_less_iff_less_mult)
  ultimately have "le_nat (to_le 4 (n mod 2 ^ 32) @ to_le 4 (n div 2 ^ 32)) = n"
    unfolding le_nat_append length_to_le le_nat_to_le by simp
  then have "le_nat (to_le 8 n) = le_nat (to_le 4 (n mod 2 ^ 32) @ to_le 4 (n div 2 ^ 32))"
    unfolding le_nat_to_le using assms by simp
  then have "to_le 8 n = to_le 4 (n mod 2 ^ 32) @ to_le 4 (n div 2 ^ 32)" by (subst (asm) le_nat_eq_iff) simp_all
  then show ?thesis unfolding to_be_def by (simp only: rev_append)
qed

lemma bind_after_reads:
  "reads p xs v \<Longrightarrow> length (pre @ xs @ post) \<le> isize_max \<Longrightarrow>
   bind_p p f (cursor_at (pre @ xs @ post) (length pre)) = f v (cursor_at ((pre @ xs) @ post) (length (pre @ xs)))"
  by (simp add: reads_def bind_p_def cursor_at_def)

section \<open>Properties\<close>

text \<open>
  C11. The header of a CDF-1 or CDF-2 file is read back as it was written: dimensions with the record
  count in place of the zero length, attributes, variables with their shapes and offsets, the padded
  size of one record of each record variable, and the stride between records, which is the sum of
  the padded sizes, or the unpadded size where there is a single record variable.
\<close>

theorem classic_header_round_trip:
  assumes "header_ok k h" and "k = Cdf1 \<or> k = Cdf2" and "length magic = 4"
    and "length (encode_header k magic h @ rest) \<le> isize_max"
  shows "parse_header (encode_header k magic h @ rest) k = Ok (header_of h)"
  using run_p_reads [OF reads_header [OF assms(1) _ assms(3)], of rest] assms(2,4) by (auto simp: parse_header_def)

definition cdf1_magic :: bytes where
  "cdf1_magic = [0x43, 0x44, 0x46, 1]"

definition units_attribute :: classic_attribute where
  "units_attribute = decode_attribute [117] NcChar [109]"

definition small_header :: header_spec where
  "small_header = \<lparr>hs_records = 2, hs_dimensions = [([116], 0), ([120], 3)], hs_attributes = [units_attribute],
     hs_variables = [\<lparr>vs_name = [97], vs_ids = [0, 1], vs_attributes = [], vs_type = NcShort, vs_size = 8, vs_begin = 200\<rparr>,
       \<lparr>vs_name = [98], vs_ids = [0], vs_attributes = [units_attribute], vs_type = NcByte, vs_size = 4, vs_begin = 208\<rparr>]\<rparr>"

lemma valid_letter: "unat b < 128 \<Longrightarrow> valid_utf8 [b]"
  by (rule valid_utf8_ascii) simp

lemma length_cdf1_magic [simp]: "length cdf1_magic = 4"
  by (simp add: cdf1_magic_def)

lemma units_attribute_ok: "attribute_ok Cdf1 units_attribute"
  by (simp add: attribute_ok_def units_attribute_def decode_attribute_def header_name_ok_def size_width_def isize_max_def
      valid_letter)

lemma small_header_ok: "header_ok Cdf1 small_header"
  using units_attribute_ok
  by (simp add: header_ok_def small_header_def list_ok_def dimension_ok_def dimension_of_def variable_ok_def
      header_name_ok_def size_width_def offset_width_def isize_max_def u64_max_def spec_is_record_def
      spec_record_bytes_def round_up4_def valid_letter)

lemma length_small_classic: "length (encode_header Cdf1 cdf1_magic small_header) = 172"
  by (simp add: encode_header_def small_header_def cdf1_magic_def encode_list_def encode_dimension_def encode_variable_def
      encode_attribute_entry_def encode_name_def encode_padding_def size_width_def offset_width_def units_attribute_def
      decode_attribute_def round_up4_def)

theorem classic_header_round_trip_witness:
  "parse_header (encode_header Cdf1 cdf1_magic small_header @ [7]) Cdf1 = Ok (header_of small_header) \<and>
   ch_record_stride (header_of small_header) = 12"
  using classic_header_round_trip [OF small_header_ok, of cdf1_magic "[7]"] length_small_classic
  by (simp add: cdf1_magic_def isize_max_def header_of_def small_header_def spec_stride_def spec_is_record_def
      spec_record_bytes_def dimension_of_def round_up4_def Let_def)

text \<open>
  C12. Opening a classic file reads the header through a window that starts at 64 KiB and grows
  fourfold; the result is the parse of the whole file, and the loop always ends.
\<close>

theorem open_equals_whole_parse:
  assumes "byte_source src contents" and "length contents \<le> 2 ^ 62"
    and "and_then (read_exact_at src 0 4) classic_container = Ok k"
  shows "classic_from_source src = Some (and_then (parse_header contents k)
    (\<lambda>h. Ok \<lparr>cf_source = src, cf_container = k, cf_header = h\<rparr>))"
proof -
  have "4 \<le> length contents"
    using byte_source.read_outside [OF assms(1), of 4 0] assms(3) by (force simp: not_le)
  then have "0 < min (src_size src) (2 ^ 16)" "min (src_size src) (2 ^ 16) \<le> length contents"
    using byte_source.size_contents [OF assms(1)] by auto
  from open_loop_parses [OF assms(1,2) this] show ?thesis using assms(3) by (simp add: classic_from_source_def)
qed

theorem open_equals_whole_parse_witness:
  "classic_from_source (memory_source (encode_header Cdf1 cdf1_magic small_header)) =
     Some (Ok \<lparr>cf_source = memory_source (encode_header Cdf1 cdf1_magic small_header), cf_container = Cdf1,
       cf_header = header_of small_header\<rparr>)"
proof -
  let ?b = "encode_header Cdf1 cdf1_magic small_header"
  have src: "byte_source (memory_source ?b) ?b"
    by (rule byte_source_memory) (simp add: length_small_classic isize_max_def)
  have "take 4 ?b = cdf1_magic" by (simp add: encode_header_def cdf1_magic_def)
  then have k: "and_then (read_exact_at (memory_source ?b) 0 4) classic_container = Ok Cdf1"
    using byte_source.read_inside [OF src, of 0 4] length_small_classic
    by (simp add: classic_container_def cdf1_magic_def)
  have "run_p (header_parser Cdf1) (?b @ []) = Ok (header_of small_header)"
    by (rule run_p_reads [OF reads_header [OF small_header_ok]])
      (simp_all add: length_small_classic isize_max_def)
  then show ?thesis using open_equals_whole_parse [OF src _ k] length_small_classic by (simp add: parse_header_def)
qed

text \<open>
  C40. A CDF-5 header, whose record count takes eight bytes, is refused as malformed whenever the low
  half of the count is neither 0 nor 10: the reader takes four bytes for the count and the other
  four for the tag of the dimension list.
\<close>

theorem cdf5_record_count_misread:
  assumes "length magic = 4" and "hs_records h < 2 ^ 64" and "hs_records h mod 2 ^ 32 \<notin> {0, 10}"
    and "length (encode_header Cdf5 magic h @ rest) \<le> isize_max"
  shows "parse_header (encode_header Cdf5 magic h @ rest) Cdf5 = Error (Malformed ''expected a dimension list'')"
proof -
  let ?hi = "hs_records h div 2 ^ 32" and ?lo = "hs_records h mod 2 ^ 32"
  let ?l = "encode_list Cdf5 NC_DIMENSION (encode_dimension Cdf5) (hs_dimensions h)"
  let ?eight = "take 8 ?l"
  have l8: "length ?eight = 8" by (simp add: encode_list_def size_width_def)
  obtain post where buf: "encode_header Cdf5 magic h @ rest = magic @ to_be 4 ?hi @ to_be 4 ?lo @ ?eight @ post"
    by (simp add: encode_header_def size_width_def to_be_halves [OF assms(2)] append_assoc [symmetric, of "take 8 ?l" "drop 8 ?l"]
        del: append_assoc) (metis append_assoc append_take_drop_id)
  have len: "length (magic @ to_be 4 ?hi @ to_be 4 ?lo @ ?eight @ post) \<le> isize_max" using assms(4) buf by simp
  have hi: "?hi < 256 ^ 4" using assms(2) by (simp add: div_less_iff_less_mult)
  have size: "reads (read_size Cdf5) ?eight (be_nat ?eight)"
    unfolding read_size_def be_u64_def by (simp, rule reads_bind_last [OF reads_take [OF l8]]) (rule reads_ret)
  have "read_dimensions Cdf5 (cursor_at ((magic @ to_be 4 ?hi) @ to_be 4 ?lo @ ?eight @ post) (length (magic @ to_be 4 ?hi)))
      = Error (Malformed ''expected a dimension list'')"
    unfolding read_dimensions_def
    by (subst bind_after_reads [OF reads_be_u32], simp, use len in simp, subst bind_after_reads [OF size], use len in simp)
      (use assms(3) in \<open>simp add: NC_DIMENSION_def fail_p_def\<close>)
  then have "header_parser Cdf5 (cursor_at ([] @ magic @ to_be 4 ?hi @ to_be 4 ?lo @ ?eight @ post) (length ([] :: bytes)))
      = Error (Malformed ''expected a dimension list'')"
    unfolding header_parser_def
    by (subst bind_after_reads [OF reads_skip [OF assms(1)]], use len in simp,
        subst bind_after_reads [OF reads_be_u32 [OF hi]], use len in simp) (simp add: bind_p_def)
  then show ?thesis unfolding buf parse_header_def by (simp add: run_p_def new_cursor_def cursor_at_def)
qed

theorem cdf5_record_count_misread_witness:
  "parse_header (encode_header Cdf5 [0x43, 0x44, 0x46, 5]
       \<lparr>hs_records = 3, hs_dimensions = [], hs_attributes = [], hs_variables = []\<rparr> @ []) Cdf5 =
     Error (Malformed ''expected a dimension list'')"
  by (rule cdf5_record_count_misread)
    (simp_all add: encode_header_def encode_list_def size_width_def isize_max_def)

text \<open>
  C39. A header whose record variable claims more than \<open>2 ^ 64 - 4\<close> bytes for one record panics in the
  rounding of that size; every smaller size is rounded up to a multiple of four.
\<close>

theorem record_size_panics:
  "per_record True shape t =
     (if u64_max - 3 < prod_list (drop 1 shape) * nc_size t then panic
      else Ok (round_up4 (prod_list (drop 1 shape) * nc_size t)))"
proof -
  let ?n = "prod_list (drop 1 shape) * nc_size t"
  have sat: "saturating_mul (element_count (drop 1 shape)) (nc_size t) = min ?n u64_max"
  proof (cases "prod_list (drop 1 shape) \<le> u64_max")
    case False
    have "Suc 0 \<le> nc_size t" using nc_size_pos [of t] by (simp only: Suc_le_eq)
    then have "u64_max \<le> u64_max * nc_size t" "prod_list (drop 1 shape) \<le> ?n" by (simp_all add: u64_max_def)
    then show ?thesis using False unfolding saturating_mul_def element_count_eq by linarith
  qed (simp add: saturating_mul_def element_count_eq min_def)
  have "round_up4 m \<le> u64_max \<longleftrightarrow> m \<le> u64_max - 3" for m
  proof -
    have "round_up4 m \<le> u64_max \<longleftrightarrow> (m + 3) div 4 < 2 ^ 62" by (auto simp: round_up4_def u64_max_def)
    also have "\<dots> \<longleftrightarrow> m + 3 < 2 ^ 62 * 4" by (rule div_less_iff_less_mult) simp
    finally show ?thesis by (auto simp: u64_max_def)
  qed
  then have "pad4 m = (if u64_max - 3 < m then panic else Ok (round_up4 m))" for m
    by (simp add: pad4_def mul64_def round_up4_div_ceil not_le)
  then have "per_record True shape t = (if u64_max - 3 < min ?n u64_max then panic else Ok (round_up4 (min ?n u64_max)))"
    by (simp only: per_record_def sat if_True)
  moreover have "u64_max - 3 < u64_max" by (simp add: u64_max_def)
  ultimately show ?thesis by (simp add: min_def)
qed

end
