(* ===== verification/Classic_Read.thy ===== *)
theory Classic_Read
  imports Classic_Header Extents
begin

text \<open>
  Reading the variables of a netCDF classic file (\<^verbatim>\<open>crates/oxcdf/src/classic.rs\<close>): a fixed-size
  variable is one contiguous run, the records of the record variables interleave.  Both readers walk
  the selection in runs along the last axis.
\<close>

section \<open>Reads\<close>

fun row_major_strides :: "nat list \<Rightarrow> nat list result" where
  "row_major_strides [] = Ok []"
| "row_major_strides [d] = Ok [1]"
| "row_major_strides (d # e # shape) =
     and_then (row_major_strides (e # shape)) (\<lambda>out. and_then (mul64 (hd out) e) (\<lambda>m. Ok (m # out)))"

text \<open>One run: \<open>len\<close> bytes at byte \<open>base + src * es\<close> of a source, copied to element \<open>dst\<close> of the output.\<close>

definition read_run :: "source \<Rightarrow> nat \<Rightarrow> nat \<Rightarrow> nat \<Rightarrow> nat \<Rightarrow> nat \<Rightarrow> bytes \<Rightarrow> bytes result" where
  "read_run src base es s d run out =
     and_then (mul64 run es) (\<lambda>len. and_then (mul64 s es) (\<lambda>off. and_then (add64 base off) (\<lambda>at.
     and_then (read_vec src at len) (\<lambda>bs. and_then (mul64 d es) (\<lambda>db. copy_into out db len bs)))))"

fun fixed_loop ::
  "nat \<Rightarrow> source \<Rightarrow> nat \<Rightarrow> hyperslab \<Rightarrow> nat list \<Rightarrow> nat list \<Rightarrow> nat \<Rightarrow> nat \<Rightarrow> nat \<Rightarrow> nat list \<Rightarrow> bytes \<Rightarrow> bytes result" where
  "fixed_loop 0 src base slab ss ds inner run es index out = Ok out"
| "fixed_loop (Suc n) src base slab ss ds inner run es index out =
     and_then (run_offsets (take inner (start slab)) index (take inner ss) (take inner ds) (0, 0)) (\<lambda>(s, d).
     and_then (add64 s (start slab ! inner)) (\<lambda>s. and_then (read_run src base es s d run out) (\<lambda>out.
       fixed_loop n src base slab ss ds inner run es (odometer (cnt slab) inner index) out)))"

definition read_fixed_variable :: "classic_file \<Rightarrow> source \<Rightarrow> classic_variable \<Rightarrow> hyperslab \<Rightarrow> bytes \<Rightarrow> nat \<Rightarrow> bytes result" where
  "read_fixed_variable f src v slab out es =
     and_then (row_major_strides (cv_shape v)) (\<lambda>strides. and_then (row_major_strides (cnt slab)) (\<lambda>dst_strides.
       let rank = length (cv_shape v) in
       if rank = 0 then and_then (read_vec src (cv_begin v) es) (\<lambda>bs. copy_into out 0 es bs)
       else
         let run = cnt slab ! (rank - 1);
             outer = element_count (take (rank - 1) (cnt slab)) in
         fixed_loop (max outer (if rank = 1 then 1 else 0)) (cf_source f) (cv_begin v) slab strides dst_strides
           (rank - 1) run es (replicate (rank - 1) 0) out))"

text \<open>The loop over one record; \<open>inner\<close> counts the axes between the record axis and the run.\<close>

fun record_inner ::
  "nat \<Rightarrow> source \<Rightarrow> nat \<Rightarrow> hyperslab \<Rightarrow> nat list \<Rightarrow> nat list \<Rightarrow> nat \<Rightarrow> nat \<Rightarrow> nat \<Rightarrow> nat \<Rightarrow> nat list \<Rightarrow> bytes \<Rightarrow> bytes result" where
  "record_inner 0 src base slab ss ds rank run es r index out = Ok out"
| "record_inner (Suc n) src base slab ss ds rank run es r index out =
     and_then (mul64 r (ds ! 0)) (\<lambda>d0.
     and_then (run_offsets (take (rank - 2) (drop 1 (start slab))) index (take (rank - 2) ss)
       (take (rank - 2) (drop 1 ds)) (0, d0)) (\<lambda>(s, d).
     and_then (if 1 < rank then add64 s (start slab ! (rank - 1)) else Ok s) (\<lambda>s.
     and_then (read_run src base es s d run out) (\<lambda>out.
       record_inner n src base slab ss ds rank run es r (odometer (drop 1 (cnt slab)) (rank - 2) index) out))))"

fun record_loop ::
  "nat \<Rightarrow> source \<Rightarrow> nat \<Rightarrow> nat \<Rightarrow> hyperslab \<Rightarrow> nat list \<Rightarrow> nat list \<Rightarrow> nat \<Rightarrow> nat \<Rightarrow> nat \<Rightarrow> nat \<Rightarrow> nat \<Rightarrow> bytes \<Rightarrow> bytes result" where
  "record_loop 0 src at stride slab ss ds rank run inner es r out = Ok out"
| "record_loop (Suc n) src at stride slab ss ds rank run inner es r out =
     and_then (add64 (start slab ! 0) r) (\<lambda>record_index. and_then (mul64 record_index stride) (\<lambda>off.
     and_then (add64 at off) (\<lambda>base.
     and_then (record_inner inner src base slab ss ds rank run es r (replicate (rank - 2) 0) out) (\<lambda>out.
       record_loop n src at stride slab ss ds rank run inner es (Suc r) out))))"

definition read_record_variable :: "classic_file \<Rightarrow> source \<Rightarrow> classic_variable \<Rightarrow> hyperslab \<Rightarrow> bytes \<Rightarrow> nat \<Rightarrow> bytes result" where
  "read_record_variable f src v slab out es =
     (let rank = length (cv_shape v); inner_shape = drop 1 (cv_shape v) in
      if rank = 0 then panic
      else
        and_then (row_major_strides inner_shape) (\<lambda>inner_strides. and_then (row_major_strides (cnt slab)) (\<lambda>dst_strides.
          let inner_rank = length inner_shape;
              run = (if rank = 1 then 1 else cnt slab ! (rank - 1));
              inner_outer = (if inner_rank \<le> 1 then 1 else element_count (take (rank - 2) (drop 1 (cnt slab)))) in
          record_loop (cnt slab ! 0) src (cv_begin v) (ch_record_stride (cf_header f)) slab inner_strides dst_strides
            rank run inner_outer es 0 out)))"

definition read_selection_with :: "classic_file \<Rightarrow> source \<Rightarrow> classic_variable \<Rightarrow> hyperslab \<Rightarrow> bytes result" where
  "read_selection_with f src v slab =
     and_then (validate slab (cv_shape v)) (\<lambda>_.
       let es = nc_size (cv_type v) in
       case checked_mul (element_count (cnt slab)) es of
         None \<Rightarrow> Error (BadRequest ''selection is too large'')
       | Some tot \<Rightarrow>
           and_then (with_capacity tot) (\<lambda>_.
           let out = replicate tot 0 in
           and_then (if cv_is_record v then read_record_variable f src v slab out es
                     else read_fixed_variable f src v slab out es) (\<lambda>out.
             Ok (if 1 < es then reverse_chunks es out else out))))"

definition read_selection :: "classic_file \<Rightarrow> classic_variable \<Rightarrow> hyperslab \<Rightarrow> bytes result" where
  "read_selection f v slab = read_selection_with f (cf_source f) v slab"

definition read_variable_bytes :: "classic_file \<Rightarrow> classic_variable \<Rightarrow> bytes result" where
  "read_variable_bytes f v = read_selection f v (hyperslab_all (cv_shape v))"

definition read_f64 :: "classic_file \<Rightarrow> classic_variable \<Rightarrow> nat list result" where
  "read_f64 f v = and_then (read_variable_bytes f v) (\<lambda>b. Ok (decode_numbers b (cv_type v)))"

fun row_chunks :: "nat \<Rightarrow> bytes \<Rightarrow> bytes list" where
  "row_chunks width b = (if b = [] \<or> width = 0 then [] else take width b # row_chunks width (drop width b))"

declare row_chunks.simps [simp del]

definition read_strings :: "classic_file \<Rightarrow> classic_variable \<Rightarrow> rstring list result" where
  "read_strings f v =
     (if cv_type v \<noteq> NcChar then Error (Unsupported ''variable is not a character variable'')
      else and_then (read_variable_bytes f v) (\<lambda>b.
        let width = (if cv_shape v = [] then 1 else last (cv_shape v)) in
        if width = 0 then Ok []
        else Ok (map (\<lambda>row.
            let fin = position_or (\<lambda>b. b = 0) row (length row);
                trimmed = (case rposition (\<lambda>b. b \<noteq> 32) (take fin row) of None \<Rightarrow> 0 | Some p \<Rightarrow> p + 1)
            in from_utf8_lossy (take trimmed row)) (row_chunks width b))))"

section \<open>Runs of the last axis\<close>

lemma row_major_strides_eq: "row_major_strides shape = strides shape"
  by (induction shape rule: row_major_strides.induct) auto

lemma read_run_inside:
  assumes src: "byte_source src contents" and room: "base + s * es + run * es \<le> length contents" and d: "d * es \<le> u64_max"
  shows "read_run src base es s d run out = copy_into out (d * es) (run * es) (slice (base + s * es) (run * es) contents)"
proof -
  have "length contents \<le> u64_max" using byte_source.contents_small [OF src] by (simp add: isize_max_def u64_max_def)
  then have "mul64 run es = Ok (run * es)" "mul64 s es = Ok (s * es)" "add64 base (s * es) = Ok (base + s * es)" "mul64 d es = Ok (d * es)"
    using room d by (simp_all add: mul64_def add64_def)
  then show ?thesis using byte_source.read_vec_inside [OF src room] by (simp add: read_run_def)
qed

lemma visit_all_append:
  "visit_all visit (xs @ ys) st = and_then (visit_all visit xs st) (visit_all visit ys)"
  by (induction visit xs st rule: visit_all.induct) (auto simp: and_then_assoc intro!: and_then_cong)

context slab_walk begin

lemma last_stride: "Suc first = length shape \<Longrightarrow> stride_list shape ! first = 1"
  using first_less by simp

lemma fixed_loop_eq:
  assumes last: "Suc first = length shape"
  shows "m + n \<le> outer \<Longrightarrow>
    fixed_loop n src base slab (stride_list shape) (stride_list (cnt slab)) first run es (outer_index slab first m) out =
    visit_all (read_run src base es) (map (\<lambda>k. (src_of k, k * run, run)) [m..<m + n]) out"
proof (induction n arbitrary: m out)
  case (Suc n)
  have m: "m < outer" using Suc.prems by simp
  have "m * run \<le> outer * run" using m by (intro mult_le_mono1) simp
  then have dle: "0 + m * run \<le> u64_max" using prod_split cnt_le fits by linarith
  note off = run_offsets_walk [OF m dle, unfolded last_stride [OF last] mult_1_right add_0]
  have add: "add64 (src_of m - start slab ! first) (start slab ! first) = Ok (src_of m)"
    using off(2,3) by (simp add: add64_def)
  have upt: "[m..<m + Suc n] = m # [Suc m..<Suc m + n]" by (simp add: upt_rec)
  have nxt: "odometer (cnt slab) first (outer_index slab first m) = outer_index slab first (Suc m)" by (simp add: outer_index_def)
  have IH: "fixed_loop n src base slab (stride_list shape) (stride_list (cnt slab)) first run es (outer_index slab first (Suc m)) =
      visit_all (read_run src base es) (map (\<lambda>k. (src_of k, k * run, run)) [Suc m..<Suc m + n])"
    by (rule ext, rule Suc.IH) (use Suc.prems in simp)
  show ?case
    unfolding upt fixed_loop.simps off(1) and_then.simps prod.case add nxt IH list.map visit_all.simps ..
qed simp

lemma record_inner_eq:
  assumes rank: "rank = Suc (length shape)" "Suc first = length shape"
    and slabs: "start slab' = s0 # start slab" "cnt slab' = c0 # cnt slab"
    and r: "r * prod_list (cnt slab) + prod_list (cnt slab) \<le> u64_max"
  shows "m + n \<le> outer \<Longrightarrow>
    record_inner n src base slab' (stride_list shape) (prod_list (cnt slab) # stride_list (cnt slab)) rank run es r
      (outer_index slab first m) out =
    visit_all (read_run src base es) (map (\<lambda>k. (src_of k, (r * outer + k) * run, run)) [m..<m + n]) out"
proof (induction n arbitrary: m out)
  case (Suc n)
  have m: "m < outer" using Suc.prems by simp
  have "m * run \<le> outer * run" using m by (intro mult_le_mono1) simp
  then have d: "r * prod_list (cnt slab) + m * run \<le> u64_max" using r prod_split by linarith
  have d0: "mul64 r (prod_list (cnt slab)) = Ok (r * prod_list (cnt slab))" using r by (simp add: mul64_def)
  note off = run_offsets_walk [OF m d, unfolded last_stride [OF rank(2)] mult_1_right]
  have add: "add64 (src_of m - start slab ! first) (start slab ! first) = Ok (src_of m)"
    using off(2,3) by (simp add: add64_def)
  have pos: "r * prod_list (cnt slab) + m * run = (r * outer + m) * run"
    by (simp add: prod_split [symmetric] algebra_simps)
  have f: "rank - 2 = first" "1 < rank" "rank - Suc 0 = Suc first" using rank by auto
  have upt: "[m..<m + Suc n] = m # [Suc m..<Suc m + n]" by (simp add: upt_rec)
  have nxt: "odometer (cnt slab) first (outer_index slab first m) = outer_index slab first (Suc m)" by (simp add: outer_index_def)
  have IH: "record_inner n src base slab' (stride_list shape) (prod_list (cnt slab) # stride_list (cnt slab)) rank run es r
      (outer_index slab first (Suc m)) =
      visit_all (read_run src base es) (map (\<lambda>k. (src_of k, (r * outer + k) * run, run)) [Suc m..<Suc m + n])"
    by (rule ext, rule Suc.IH) (use Suc.prems in simp)
  show ?case
    unfolding upt record_inner.simps nth_Cons_0 d0 and_then.simps slabs drop_Suc_Cons drop_0 One_nat_def f off(1) prod.case
      if_P [OF f(2) [unfolded One_nat_def]] nth_Cons_Suc add pos nxt IH list.map visit_all.simps ..
qed simp

text \<open>Where the element of an index lies: in run \<open>k\<close>, at place \<open>j\<close>.\<close>

lemma run_of_index:
  assumes "in_dims (cnt slab) idx"
  obtains k j where "k < outer" "j < run" "flat (cnt slab) idx = k * run + j"
    and "flat shape (map2 (+) (start slab) idx) = src_of k + j"
proof
  let ?i = "take first idx" and ?sub = "drop first idx"
  let ?k = "flat (take first (cnt slab)) ?i" and ?j = "flat (drop first (cnt slab)) ?sub"
  have fl: "first \<le> length (cnt slab)" "length idx = length (cnt slab)"
    using first_less lengths in_dims_length [OF assms] by auto
  have i: "in_dims (take first (cnt slab)) ?i" "in_dims (drop first (cnt slab)) ?sub"
    using assms by (auto simp: in_dims_nth)
  show k: "?k < outer" and "?j < run" using flat_less i by auto
  have "flat (take first (cnt slab) @ drop first (cnt slab)) (?i @ ?sub) = ?k * run + ?j"
    by (rule flat_append) (use fl in simp_all)
  then show "flat (cnt slab) idx = ?k * run + ?j" by simp
  have "outer_index slab first ?k = ?i" using outer_index_flat [OF fl(1) pos k] i(1) flat_inj by blast
  then show "flat shape (map2 (+) (start slab) idx) = src_of ?k + ?j"
    using flat_run [of ?i ?sub] fl lengths by simp
qed

end

section \<open>The elements of a variable\<close>

text \<open>The byte at which the element with coordinates \<open>x\<close> starts.\<close>

definition element_at :: "classic_file \<Rightarrow> classic_variable \<Rightarrow> nat list \<Rightarrow> nat" where
  "element_at f v x =
     (if cv_is_record v
      then cv_begin v + hd x * ch_record_stride (cf_header f) + flat (tl (cv_shape v)) (tl x) * nc_size (cv_type v)
      else cv_begin v + flat (cv_shape v) x * nc_size (cv_type v))"

text \<open>The file holds the variable: every record of a record variable, or its one contiguous run.\<close>

definition variable_stored :: "classic_file \<Rightarrow> bytes \<Rightarrow> classic_variable \<Rightarrow> bool" where
  "variable_stored f contents v \<longleftrightarrow>
     (if cv_is_record v
      then cv_shape v \<noteq> [] \<and> (\<forall>r < hd (cv_shape v).
        cv_begin v + r * ch_record_stride (cf_header f) + prod_list (tl (cv_shape v)) * nc_size (cv_type v) \<le> length contents)
      else cv_begin v + prod_list (cv_shape v) * nc_size (cv_type v) \<le> length contents)"

lemma run_room:
  assumes "s + run \<le> (n :: nat)" and "base + n * es \<le> m"
  shows "base + s * es + run * es \<le> m"
proof -
  have "(s + run) * es \<le> n * es" using assms(1) by (rule mult_le_mono1)
  then show ?thesis using assms(2) unfolding distrib_right by linarith
qed

lemma read_fixed_exact:
  assumes src: "byte_source (cf_source f) contents" and ok: "slab_ok slab (cv_shape v)"
    and pos: "\<forall>c \<in> set (cnt slab). 0 < c" and fits: "prod_list (cv_shape v) \<le> u64_max"
    and rank: "cv_shape v \<noteq> []" and room: "cv_begin v + prod_list (cv_shape v) * es \<le> length contents"
    and out: "length out = prod_list (cnt slab) * es"
  shows "\<exists>out'. read_fixed_variable f src' v slab out es = Ok out' \<and> length out' = length out \<and>
    (\<forall>idx b. in_dims (cnt slab) idx \<longrightarrow> b < es \<longrightarrow> out' ! (flat (cnt slab) idx * es + b) =
       contents ! (cv_begin v + flat (cv_shape v) (map2 (+) (start slab) idx) * es + b))"
proof -
  let ?shape = "cv_shape v" and ?first = "length (cv_shape v) - 1"
  have w: "slab_walk ?shape slab ?first" by unfold_locales (use ok pos fits rank in \<open>auto intro: Nat.diff_less\<close>)
  have last: "Suc ?first = length ?shape" using rank by simp
  note lens = slab_walk.lengths [OF w]
  let ?outer = "prod_list (take ?first (cnt slab))"
  have run: "prod_list (drop ?first (cnt slab)) = cnt slab ! ?first"
    using Cons_nth_drop_Suc [of ?first "cnt slab"] lens last by (metis drop_all le_refl lessI mult.right_neutral prod_list.Cons prod_list.Nil)
  have split: "?outer * cnt slab ! ?first = prod_list (cnt slab)" using slab_walk.prod_split [OF w] run by simp
  have "0 < cnt slab ! ?first" using slab_walk.cnt_pos [OF w] rank by simp
  then have "?outer \<le> prod_list (cnt slab)" using split by (metis Suc_leI mult.right_neutral mult_le_mono2 One_nat_def)
  then have le: "?outer \<le> u64_max" using slab_walk.cnt_le [OF w] fits by linarith
  have "0 < ?outer" using prod_list_pos [of "take ?first (cnt slab)"] pos in_set_takeD by metis
  then have n: "max (element_count (take ?first (cnt slab))) (if length ?shape = 1 then 1 else 0) = ?outer"
    using le by (simp add: element_count_eq)
  have "prod_list (cnt slab) * es \<le> prod_list ?shape * es" using slab_walk.cnt_le [OF w] by (rule mult_le_mono1)
  then have osmall: "length out \<le> isize_max" using out room byte_source.contents_small [OF src] by linarith
  have visit: "read_run (cf_source f) (cv_begin v) es s d r o1 =
      copy_into o1 (d * es) (r * es) (slice (cv_begin v + s * es) (r * es) contents)"
    if "s + r \<le> prod_list ?shape" "d * es + r * es \<le> length o1" "length o1 = prod_list (cnt slab) * es" for s d r o1
    by (rule read_run_inside [OF src run_room [OF that(1) room]]) (use that out osmall in \<open>simp add: isize_max_def u64_max_def\<close>)
  have loop: "read_fixed_variable f src' v slab out es =
      fixed_loop ?outer (cf_source f) (cv_begin v) slab (stride_list ?shape) (stride_list (cnt slab)) ?first
        (prod_list (drop ?first (cnt slab))) es (outer_index slab ?first 0) out"
    unfolding read_fixed_variable_def row_major_strides_eq slab_walk.strides_ok [OF w] and_then.simps Let_def n run
    using rank by (simp add: outer_index_def)
  note walk = slab_walk.fixed_loop_eq [OF w last, of 0 ?outer, unfolded add_0, OF order_refl]
  show ?thesis unfolding loop walk by (rule slab_walk.slab_copy_walk [OF w room out osmall]) (rule visit)
qed

text \<open>
  The walk of one record, for any rank: \<open>outer\<close> runs of \<open>run\<close> elements, the \<open>k\<close>-th at element \<open>at k\<close> of
  the record.  A variable with the record axis alone has one run of one element.
\<close>

definition record_walks ::
  "hyperslab \<Rightarrow> nat list \<Rightarrow> nat list \<Rightarrow> nat \<Rightarrow> nat \<Rightarrow> (nat \<Rightarrow> nat) \<Rightarrow> bool" where
  "record_walks slab shape cs outer run at \<longleftrightarrow>
     outer * run = prod_list cs \<and> (\<forall>k < outer. at k + run \<le> prod_list shape) \<and>
     (\<forall>src base es r out. r * prod_list cs + prod_list cs \<le> u64_max \<longrightarrow>
        record_inner outer src base slab (stride_list shape) (stride_list (cnt slab)) (Suc (length shape)) run es r
          (replicate (length shape - 1) 0) out =
        visit_all (read_run src base es) (map (\<lambda>k. (at k, (r * outer + k) * run, run)) [0..<outer]) out) \<and>
     (\<forall>idx. in_dims cs idx \<longrightarrow> (\<exists>k j. k < outer \<and> j < run \<and> flat cs idx = k * run + j \<and>
        flat shape (map2 (+) (tl (start slab)) idx) = at k + j))"

lemma record_walks_scalar:
  assumes "start slab = [s0]" "cnt slab = [c0]"
  shows "record_walks slab [] [] 1 1 (\<lambda>k. 0)"
  using assms by (auto simp: record_walks_def in_dims_def mul64_def intro!: and_then_cong)

lemma record_walks_inner:
  assumes ok: "slab_ok slab (d0 # shape)" and pos: "\<forall>c \<in> set (cnt slab). 0 < c"
    and fits: "prod_list shape \<le> u64_max" and rank: "shape \<noteq> []"
  defines "inner \<equiv> \<lparr>start = tl (start slab), cnt = tl (cnt slab)\<rparr>" and "first \<equiv> length shape - 1"
  shows "record_walks slab shape (tl (cnt slab)) (prod_list (take first (tl (cnt slab)))) (tl (cnt slab) ! first)
    (\<lambda>k. flat shape (run_coords inner first (outer_index inner first k)))"
proof -
  obtain s0 st c0 cs where sl: "start slab = s0 # st" "cnt slab = c0 # cs" using ok
    by (cases "start slab"; cases "cnt slab") (auto simp: slab_ok_def)
  have inner: "start inner = st" "cnt inner = cs" using sl by (simp_all add: inner_def)
  have iok: "slab_ok inner shape" using ok sl by (auto simp: slab_ok_def inner All_less_Suc2)
  have w: "slab_walk shape inner first"
    by unfold_locales (use iok pos fits rank sl inner in \<open>auto simp: first_def intro: Nat.diff_less\<close>)
  have last: "Suc first = length shape" using rank by (simp add: first_def)
  have lens: "length cs = length shape" using slab_walk.lengths [OF w] inner by simp
  have run: "prod_list (drop first (cnt inner)) = cs ! first"
    using Cons_nth_drop_Suc [of first cs] lens last inner by (metis drop_all le_refl lessI mult.right_neutral prod_list.Cons prod_list.Nil)
  have strides: "stride_list (cnt slab) = prod_list (cnt inner) # stride_list (cnt inner)"
    unfolding sl inner by (rule stride_list_Cons)
  show ?thesis unfolding record_walks_def
  proof (intro conjI allI impI)
    show "prod_list (take first (tl (cnt slab))) * tl (cnt slab) ! first = prod_list (tl (cnt slab))"
      using slab_walk.prod_split [OF w] run by (simp add: sl inner)
    show "flat shape (run_coords inner first (outer_index inner first k)) + tl (cnt slab) ! first \<le> prod_list shape"
      if "k < prod_list (take first (tl (cnt slab)))" for k
      using slab_walk.src_of_bound [OF w, of k] that run by (simp add: sl inner)
    show "\<exists>k j. k < prod_list (take first (tl (cnt slab))) \<and> j < tl (cnt slab) ! first \<and>
        flat (tl (cnt slab)) idx = k * tl (cnt slab) ! first + j \<and>
        flat shape (map2 (+) (tl (start slab)) idx) = flat shape (run_coords inner first (outer_index inner first k)) + j"
      if "in_dims (tl (cnt slab)) idx" for idx
    proof -
      have "in_dims (cnt inner) idx" using that by (simp add: sl inner)
      then obtain k j where "k < prod_list (take first (cnt inner))" "j < cs ! first"
        "flat (cnt inner) idx = k * cs ! first + j"
        "flat shape (map2 (+) (start inner) idx) = flat shape (run_coords inner first (outer_index inner first k)) + j"
        using slab_walk.run_of_index [OF w] unfolding run by metis
      then show ?thesis by (auto simp: sl inner)
    qed
    fix src base es r out
    assume "r * prod_list (tl (cnt slab)) + prod_list (tl (cnt slab)) \<le> u64_max"
    then have r: "r * prod_list (cnt inner) + prod_list (cnt inner) \<le> u64_max" by (simp add: sl inner)
    note eq = slab_walk.record_inner_eq [OF w refl last, of slab s0 c0 r, unfolded inner, OF sl r [unfolded inner],
        of 0 "prod_list (take first cs)", unfolded add_0, OF order_refl, unfolded run [unfolded inner]]
    show "record_inner (prod_list (take first (tl (cnt slab)))) src base slab (stride_list shape) (stride_list (cnt slab))
        (Suc (length shape)) (tl (cnt slab) ! first) es r (replicate (length shape - 1) 0) out =
      visit_all (read_run src base es) (map (\<lambda>k. (flat shape (run_coords inner first (outer_index inner first k)),
        (r * prod_list (take first (tl (cnt slab))) + k) * tl (cnt slab) ! first, tl (cnt slab) ! first))
        [0..<prod_list (take first (tl (cnt slab)))]) out"
      using eq [of src base es out] strides by (simp add: sl inner outer_index_def first_def)
  qed
qed

text \<open>The byte of run \<open>k\<close>, counted over all records of the selection.\<close>

definition run_byte :: "nat \<Rightarrow> nat \<Rightarrow> nat \<Rightarrow> nat \<Rightarrow> (nat \<Rightarrow> nat) \<Rightarrow> nat \<Rightarrow> nat \<Rightarrow> nat" where
  "run_byte base s0 stride outer at es k = base + (s0 + k div outer) * stride + at (k mod outer) * es"

definition copy_run :: "bytes \<Rightarrow> nat \<Rightarrow> nat \<Rightarrow> nat \<Rightarrow> nat \<Rightarrow> bytes \<Rightarrow> bytes result" where
  "copy_run contents es p d run out = copy_into out (d * es) (run * es) (slice p (run * es) contents)"

lemma copy_run_length: "copy_run contents es p d run out = Inr out' \<Longrightarrow> length out' = length out"
  by (auto simp: copy_run_def copy_into_def result_simps split: if_splits)

lemma visit_all_map_cong:
  assumes "\<And>k out. k \<in> set ks \<Longrightarrow> length out = n \<Longrightarrow> visit (p k) (d k) (r k) out = copy_run contents es (q k) (d k) (r k) out"
  shows "length out = n \<Longrightarrow> visit_all visit (map (\<lambda>k. (p k, d k, r k)) ks) out =
    visit_all (copy_run contents es) (map (\<lambda>k. (q k, d k, r k)) ks) out"
  using assms
proof (induction ks arbitrary: out)
  case (Cons k ks)
  show ?case
  proof (cases "copy_run contents es (q k) (d k) (r k) out")
    case (Inr out')
    then show ?thesis using Cons copy_run_length [OF Inr] by simp
  qed (use Cons.prems in simp)
qed simp

lemma visit_all_length:
  "visit_all (copy_run contents es) xs out = Inr out' \<Longrightarrow> length out' = length out"
proof (induction "copy_run contents es" xs out arbitrary: out' rule: visit_all.induct)
  case (2 p d r rest out)
  then show ?case by (auto simp: result_simps dest: copy_run_length)
qed simp

lemma record_loop_eq:
  assumes src: "byte_source src contents" and rw: "record_walks slab shape cs outer run at"
    and room: "\<And>r. r < c0 \<Longrightarrow> base + (start slab ! 0 + r) * stride + prod_list shape * es \<le> length contents"
    and es: "0 < es" and small: "c0 * prod_list cs * es \<le> isize_max"
    and s0: "start slab ! 0 + c0 \<le> u64_max"
  shows "r + n \<le> c0 \<Longrightarrow> length out = c0 * prod_list cs * es \<Longrightarrow>
    record_loop n src base stride slab (stride_list shape) (stride_list (cnt slab)) (Suc (length shape)) run outer es r out =
    visit_all (copy_run contents es)
      (map (\<lambda>k. (run_byte base (start slab ! 0) stride outer at es k, k * run, run)) [r * outer..<(r + n) * outer]) out"
proof (induction n arbitrary: r out)
  case (Suc n)
  let ?s0 = "start slab ! 0"
  let ?run = "\<lambda>k. (run_byte base ?s0 stride outer at es k, k * run, run)"
  have r: "r < c0" using Suc.prems by simp
  have total: "outer * run = prod_list cs" and bound: "\<And>k. k < outer \<Longrightarrow> at k + run \<le> prod_list shape"
    using rw by (auto simp: record_walks_def)
  have u: "length contents \<le> u64_max" using byte_source.contents_small [OF src] by (simp add: isize_max_def u64_max_def)
  have arith: "add64 ?s0 r = Ok (?s0 + r)" "mul64 (?s0 + r) stride = Ok ((?s0 + r) * stride)"
    "add64 base ((?s0 + r) * stride) = Ok (base + (?s0 + r) * stride)"
    using s0 r room [OF r] u by (simp_all add: add64_def mul64_def)
  have "r * prod_list cs + prod_list cs \<le> c0 * prod_list cs" using mult_le_mono1 [of "r + 1" c0 "prod_list cs"] r by simp
  also have "\<dots> \<le> c0 * prod_list cs * es" using es by (cases es) auto
  also have "\<dots> \<le> u64_max" using small by (simp add: isize_max_def u64_max_def)
  finally have fit: "r * prod_list cs + prod_list cs \<le> u64_max" .
  have inner: "record_inner outer src (base + (?s0 + r) * stride) slab (stride_list shape) (stride_list (cnt slab))
      (Suc (length shape)) run es r (replicate (length shape - 1) 0) out =
      visit_all (read_run src (base + (?s0 + r) * stride) es) (map (\<lambda>k. (at k, (r * outer + k) * run, run)) [0..<outer]) out"
    using rw fit unfolding record_walks_def by blast
  also have "\<dots> = visit_all (copy_run contents es)
      (map (\<lambda>k. (run_byte base ?s0 stride outer at es (r * outer + k), (r * outer + k) * run, run)) [0..<outer]) out"
  proof (rule visit_all_map_cong [OF _ Suc.prems(2)])
    fix k and o1 :: bytes
    assume k: "k \<in> set [0..<outer]" and o1: "length o1 = c0 * prod_list cs * es"
    have "(r * outer + k) * run \<le> c0 * outer * run" using rows_index [OF r, of k outer] k by (intro mult_le_mono1) simp
    then have "(r * outer + k) * run * es \<le> c0 * prod_list cs * es" unfolding total [symmetric] mult.assoc [symmetric] by (rule mult_le_mono1)
    moreover have "isize_max \<le> u64_max" by (simp add: isize_max_def u64_max_def)
    ultimately have d: "(r * outer + k) * run * es \<le> u64_max" using small by linarith
    have b: "base + (?s0 + r) * stride + at k * es + run * es \<le> length contents"
      using run_room [OF bound room [OF r]] k by simp
    have "run_byte base ?s0 stride outer at es (r * outer + k) = base + (?s0 + r) * stride + at k * es"
      using k by (simp add: run_byte_def)
    then show "read_run src (base + (?s0 + r) * stride) es (at k) ((r * outer + k) * run) run o1 =
        copy_run contents es (run_byte base ?s0 stride outer at es (r * outer + k)) ((r * outer + k) * run) run o1"
      using read_run_inside [OF src b d, of o1] by (simp add: copy_run_def)
  qed
  also have "map (\<lambda>k. (run_byte base ?s0 stride outer at es (r * outer + k), (r * outer + k) * run, run)) [0..<outer]
      = map ?run [r * outer..<r * outer + outer]"
    by (rule nth_equalityI) simp_all
  finally have one: "record_inner outer src (base + (?s0 + r) * stride) slab (stride_list shape) (stride_list (cnt slab))
      (Suc (length shape)) run es r (replicate (length shape - 1) 0) out =
      visit_all (copy_run contents es) (map ?run [r * outer..<r * outer + outer]) out" .
  have upt: "[r * outer..<(r + Suc n) * outer] = [r * outer..<r * outer + outer] @ [r * outer + outer..<(r + Suc n) * outer]"
    using upt_add_eq_append [of "r * outer" "r * outer + outer" "n * outer"] by (simp add: algebra_simps)
  have rest: "record_loop n src base stride slab (stride_list shape) (stride_list (cnt slab)) (Suc (length shape)) run outer es (Suc r) o1 =
      visit_all (copy_run contents es) (map ?run [r * outer + outer..<(r + Suc n) * outer]) o1"
    if "visit_all (copy_run contents es) (map ?run [r * outer..<r * outer + outer]) out = Inr o1" for o1
    using Suc.IH [of "Suc r" o1] Suc.prems visit_all_length [OF that] by (simp add: algebra_simps)
  have two: "Suc (length shape) - 2 = length shape - 1" by simp
  show ?case
    unfolding upt map_append visit_all_append record_loop.simps arith and_then.simps two one
    by (rule and_then_cong [OF refl]) (rule rest)
qed simp

lemma record_walks_exist:
  assumes ok: "slab_ok slab (d0 # shape)" and pos: "\<forall>c \<in> set (cnt slab). 0 < c"
    and fits: "prod_list (d0 # shape) \<le> u64_max" and v: "cv_shape v = d0 # shape"
  obtains outer run at where "record_walks slab shape (tl (cnt slab)) outer run at"
    and "\<And>f src out es. read_record_variable f src v slab out es =
      record_loop (hd (cnt slab)) src (cv_begin v) (ch_record_stride (cf_header f)) slab (stride_list shape)
        (stride_list (cnt slab)) (Suc (length shape)) run outer es 0 out"
proof -
  obtain s0 st c0 cs where sl: "start slab = s0 # st" "cnt slab = c0 # cs"
    using ok by (cases "start slab"; cases "cnt slab") (auto simp: slab_ok_def)
  have len: "length cs = length shape" "length st = length shape" using ok sl by (auto simp: slab_ok_def)
  have le: "st ! a + cs ! a \<le> shape ! a" if "a < length shape" for a
    using ok sl that by (auto simp: slab_ok_def All_less_Suc2)
  have le0: "s0 + c0 \<le> d0" using ok sl by (auto simp: slab_ok_def)
  have "0 < shape ! a" if "a < length shape" for a
    using le [of a] pos sl len that by (metis add_is_0 gr0I le_zero_eq list.set_intros(2) nth_mem not_less0)
  then have dpos: "\<forall>d \<in> set shape. 0 < d" by (auto simp: in_set_conv_nth)
  have "0 < d0" using le0 pos sl by auto
  then have "prod_list shape \<le> d0 * prod_list shape" by (cases d0) auto
  then have pf: "prod_list shape \<le> u64_max" using fits unfolding prod_list.Cons by linarith
  have cle: "prod_list cs \<le> prod_list shape"
  proof -
    have "list_all2 (\<le>) cs shape" using le len by (fastforce simp: list_all2_conv_all_nth)
    then show ?thesis by (induction rule: list_all2_induct) (auto intro: mult_le_mono)
  qed
  have s1: "strides shape = Ok (stride_list shape)"
    using prod_list_drop_le [OF dpos, of 1] pf by (intro strides_eq dpos) (simp add: drop_Suc)
  have s2: "strides (cnt slab) = Ok (stride_list (cnt slab))"
    using cle pf sl by (intro strides_eq pos) simp
  show ?thesis
  proof (cases "shape = []")
    case True
    have w: "record_walks slab shape (tl (cnt slab)) 1 1 (\<lambda>k. 0)" using record_walks_scalar [of slab s0 c0] True sl len by simp
    show ?thesis
      by (rule that [OF w]) (use s1 s2 v True sl in \<open>simp add: read_record_variable_def row_major_strides_eq Let_def\<close>)
  next
    case False
    let ?first = "length shape - 1"
    note w = record_walks_inner [OF ok pos pf False]
    have "prod_list (take ?first cs) \<le> u64_max"
    proof -
      have "0 < prod_list (drop ?first cs)" by (rule prod_list_pos) (use pos sl in \<open>auto dest: in_set_dropD\<close>)
      then have "prod_list (take ?first cs) \<le> prod_list (take ?first cs) * prod_list (drop ?first cs)" by simp
      also have "\<dots> = prod_list cs" by (simp flip: prod_list.append)
      finally show ?thesis using cle pf by linarith
    qed
    then have outer: "element_count (take ?first cs) = prod_list (take ?first cs)" by (simp add: element_count_eq)
    have run: "(if Suc (length shape) = 1 then 1 else cnt slab ! (Suc (length shape) - 1)) = cs ! ?first"
      using False sl by (cases shape) auto
    show ?thesis
      by (rule that [OF w]) (use s1 s2 v sl outer run in \<open>simp add: read_record_variable_def row_major_strides_eq Let_def\<close>)
  qed
qed

lemma read_record_exact:
  assumes src: "byte_source src contents" and ok: "slab_ok slab (cv_shape v)"
    and pos: "\<forall>c \<in> set (cnt slab). 0 < c" and fits: "prod_list (cv_shape v) \<le> u64_max" and es: "0 < es"
    and rank: "cv_shape v \<noteq> []" and dims: "\<forall>d \<in> set (cv_shape v). d \<le> u64_max"
    and room: "\<And>r. r < hd (cv_shape v) \<Longrightarrow>
      cv_begin v + r * ch_record_stride (cf_header f) + prod_list (tl (cv_shape v)) * es \<le> length contents"
    and out: "length out = prod_list (cnt slab) * es" "length out \<le> isize_max"
  shows "\<exists>out'. read_record_variable f src v slab out es = Ok out' \<and> length out' = length out \<and>
    (\<forall>idx b. in_dims (cnt slab) idx \<longrightarrow> b < es \<longrightarrow> out' ! (flat (cnt slab) idx * es + b) =
       contents ! (cv_begin v + (hd (start slab) + hd idx) * ch_record_stride (cf_header f) +
         flat (tl (cv_shape v)) (map2 (+) (tl (start slab)) (tl idx)) * es + b))"
proof -
  obtain d0 shape where shape: "cv_shape v = d0 # shape" using rank by (cases "cv_shape v") auto
  obtain s0 st c0 cs where sl: "start slab = s0 # st" "cnt slab = c0 # cs"
    using ok shape by (cases "start slab"; cases "cnt slab") (auto simp: slab_ok_def)
  let ?stride = "ch_record_stride (cf_header f)" and ?at = "cv_begin v"
  obtain outer run at where rw: "record_walks slab shape cs outer run at"
    and eq: "read_record_variable f src v slab out es =
      record_loop c0 src ?at ?stride slab (stride_list shape) (stride_list (cnt slab)) (Suc (length shape)) run outer es 0 out"
    using record_walks_exist [of slab d0 shape v] ok pos fits shape sl by (metis list.sel(1,3))
  have total: "outer * run = prod_list cs" and bound: "\<And>k. k < outer \<Longrightarrow> at k + run \<le> prod_list shape"
    and place: "\<And>idx. in_dims cs idx \<Longrightarrow> \<exists>k j. k < outer \<and> j < run \<and> flat cs idx = k * run + j \<and>
        flat shape (map2 (+) st idx) = at k + j"
    using rw sl by (auto simp: record_walks_def)
  have le0: "s0 + c0 \<le> d0" using ok sl shape by (auto simp: slab_ok_def)
  have rooms: "?at + (s0 + r) * ?stride + prod_list shape * es \<le> length contents" if "r < c0" for r
    using room [of "s0 + r"] that le0 shape by simp
  let ?f = "\<lambda>k. slice (run_byte ?at s0 ?stride outer at es k) (run * es) contents"
  have byte: "run_byte ?at s0 ?stride outer at es k + run * es \<le> length contents" if "k < c0 * outer" for k
  proof -
    have "k div outer < c0" "k mod outer < outer" using that by (simp add: less_mult_imp_div_less, cases outer) (use that in auto)
    then show ?thesis using run_room [OF bound rooms] by (simp add: run_byte_def)
  qed
  have len: "length (?f k) = run * es" if "k < c0 * outer" for k using byte [OF that] by simp
  have K: "c0 * outer * (run * es) = length out" unfolding out(1) sl prod_list.Cons total [symmetric] by (simp add: mult.assoc)
  have small: "c0 * outer * (run * es) \<le> isize_max" unfolding K by (rule out(2))
  have "d0 \<le> u64_max" using dims shape by simp
  then have "read_record_variable f src v slab out es =
      visit_all (copy_run contents es) (map (\<lambda>k. (run_byte ?at s0 ?stride outer at es k, k * run, run)) [0..<0 + c0 * outer]) out"
    unfolding eq using record_loop_eq [OF src rw, of c0 ?at ?stride es 0 c0 out] rooms es out le0 sl by simp
  also have "\<dots> = Ok (take (0 * (run * es)) out @ concat (map ?f [0..<0 + c0 * outer]) @ drop ((0 + c0 * outer) * (run * es)) out)"
    by (rule visit_all_copy [where K = "c0 * outer"])
      (use len K small in \<open>simp_all add: copy_run_def mult.assoc\<close>)
  finally have res: "read_record_variable f src v slab out es = Ok (concat (map ?f [0..<c0 * outer]))" using K by simp
  have rows: "concat (map ?f [0..<c0 * outer]) = rows (c0 * outer) (run * es) (\<lambda>k j. ?f k ! j)"
    by (rule concat_rows) (rule len)
  have "concat (map ?f [0..<c0 * outer]) ! (flat (cnt slab) idx * es + b) =
      contents ! (?at + (hd (start slab) + hd idx) * ?stride + flat (tl (cv_shape v)) (map2 (+) (tl (start slab)) (tl idx)) * es + b)"
    if idx: "in_dims (cnt slab) idx" and b: "b < es" for idx b
  proof -
    obtain i0 i where i: "idx = i0 # i" "i0 < c0" "in_dims cs i" using idx sl by (cases idx) auto
    obtain k j where kj: "k < outer" "j < run" "flat cs i = k * run + j" "flat shape (map2 (+) st i) = at k + j"
      using place [OF i(3)] by blast
    have K1: "i0 * outer + k < c0 * outer" by (rule rows_index [OF i(2) kj(1)])
    have jb: "j * es + b < run * es" by (rule rows_index [OF kj(2) b])
    have "flat (cnt slab) idx = i0 * (outer * run) + (k * run + j)"
      unfolding sl i(1) total kj(3) [symmetric] by (rule flat_Cons) (use in_dims_length [OF i(3)] in simp)
    then have pos: "flat (cnt slab) idx * es + b = (i0 * outer + k) * (run * es) + (j * es + b)" by (simp add: algebra_simps)
    have rb: "run_byte ?at s0 ?stride outer at es (i0 * outer + k) = ?at + (s0 + i0) * ?stride + at k * es"
      using kj(1) by (simp add: run_byte_def)
    have "concat (map ?f [0..<c0 * outer]) ! (flat (cnt slab) idx * es + b) = ?f (i0 * outer + k) ! (j * es + b)"
      unfolding pos rows by (rule rows_nth [OF K1 jb])
    also have "\<dots> = contents ! (run_byte ?at s0 ?stride outer at es (i0 * outer + k) + (j * es + b))"
      by (rule nth_slice [OF jb]) (use byte [OF K1] jb in linarith)
    finally show ?thesis unfolding rb using kj(4) by (simp add: sl i(1) shape algebra_simps)
  qed
  moreover have "length (concat (map ?f [0..<c0 * outer])) = length out" unfolding rows length_rows by (rule K)
  ultimately show ?thesis using res by blast
qed

lemma elem_reverse: "(i + 1) * es \<le> length b \<Longrightarrow> 0 < es \<Longrightarrow>
    elem es (if 1 < es then reverse_chunks es b else b) i = rev (elem es b i)"
proof (cases "1 < es")
  case True
  assume a: "(i + 1) * es \<le> length b" "0 < es"
  have l: "(i + 1) * es \<le> length (reverse_chunks es b)" using a by simp
  have "elem es (reverse_chunks es b) i = rev (elem es b i)"
  proof (rule nth_equalityI)
    fix j assume "j < length (elem es (reverse_chunks es b) i)"
    then have j: "j < es" using length_elem [OF l] by simp
    then show "elem es (reverse_chunks es b) i ! j = rev (elem es b i) ! j"
      using a elem_nth [OF l j] elem_nth [OF a(1), of "es - 1 - j"] nth_reverse_chunks [OF a(2,1) j] length_elem [OF a(1)]
      by (simp add: rev_nth)
  qed (use length_elem [OF l] length_elem [OF a(1)] in simp)
  then show ?thesis using True by simp
next
  case False
  assume a: "(i + 1) * es \<le> length b" "0 < es"
  then have "length (elem es b i) = 1" using False length_elem by simp
  then have "rev (elem es b i) = elem es b i" by (cases "elem es b i") auto
  then show ?thesis using False by simp
qed

lemma map2_hd_tl:
  "length xs = length ys \<Longrightarrow> xs \<noteq> [] \<Longrightarrow> hd (map2 (+) xs ys) = hd xs + hd ys \<and> tl (map2 (+) xs ys) = map2 (+) (tl xs) (tl ys)"
  by (cases xs; cases ys) auto

lemma read_variable_exact:
  assumes src: "byte_source (cf_source f) contents" and ok: "slab_ok slab (cv_shape v)"
    and pos: "\<forall>c \<in> set (cnt slab). 0 < c" and fits: "prod_list (cv_shape v) \<le> u64_max"
    and dims: "\<forall>d \<in> set (cv_shape v). d \<le> u64_max" and stored: "variable_stored f contents v"
    and out: "length out = prod_list (cnt slab) * nc_size (cv_type v)" "length out \<le> isize_max"
  shows "\<exists>out'. (if cv_is_record v then read_record_variable f (cf_source f) v slab out (nc_size (cv_type v))
        else read_fixed_variable f (cf_source f) v slab out (nc_size (cv_type v))) = Ok out' \<and> length out' = length out \<and>
    (\<forall>idx b. in_dims (cnt slab) idx \<longrightarrow> b < nc_size (cv_type v) \<longrightarrow>
       out' ! (flat (cnt slab) idx * nc_size (cv_type v) + b) = contents ! (element_at f v (map2 (+) (start slab) idx) + b))"
proof (cases "cv_is_record v")
  case True
  have shape: "cv_shape v \<noteq> []" using stored True by (simp add: variable_stored_def)
  have lens: "length (start slab) = length (cv_shape v)" "length (cnt slab) = length (cv_shape v)"
    using ok by (auto simp: slab_ok_def)
  have "element_at f v (map2 (+) (start slab) idx) = cv_begin v + (hd (start slab) + hd idx) * ch_record_stride (cf_header f) +
      flat (tl (cv_shape v)) (map2 (+) (tl (start slab)) (tl idx)) * nc_size (cv_type v)" if "in_dims (cnt slab) idx" for idx
  proof -
    have "start slab \<noteq> []" using lens shape by auto
    then show ?thesis using map2_hd_tl [of "start slab" idx] in_dims_length [OF that] lens True by (simp add: element_at_def)
  qed
  then show ?thesis
    using read_record_exact [OF src ok pos fits nc_size_pos shape dims _ out] True stored
    by (simp add: variable_stored_def)
next
  case False
  have room: "cv_begin v + prod_list (cv_shape v) * nc_size (cv_type v) \<le> length contents"
    using stored False by (simp add: variable_stored_def)
  show ?thesis
  proof (cases "cv_shape v = []")
    case True
    then have e: "cnt slab = []" "start slab = []" using ok by (auto simp: slab_ok_def)
    have "read_vec (cf_source f) (cv_begin v) (nc_size (cv_type v)) = Ok (slice (cv_begin v) (nc_size (cv_type v)) contents)"
      using byte_source.read_vec_inside [OF src] room True by simp
    then show ?thesis
      using False True e out room
      by (auto simp: read_fixed_variable_def copy_into_def add64_def isize_max_def u64_max_def in_dims_def element_at_def)
  next
    case shape: False
    show ?thesis
      using read_fixed_exact [OF src ok pos fits shape room out(1), of "cf_source f"] False by (simp add: element_at_def)
  qed
qed

lemma element_room:
  assumes stored: "variable_stored f contents v" and ok: "slab_ok slab (cv_shape v)" and idx: "in_dims (cnt slab) idx"
  shows "element_at f v (map2 (+) (start slab) idx) + nc_size (cv_type v) \<le> length contents"
proof -
  let ?es = "nc_size (cv_type v)" and ?x = "map2 (+) (start slab) idx"
  have x: "in_dims (cv_shape v) ?x" by (rule in_dims_shift [OF ok idx])
  show ?thesis
  proof (cases "cv_is_record v")
    case True
    then obtain d0 ds where d: "cv_shape v = d0 # ds" using stored by (cases "cv_shape v") (auto simp: variable_stored_def)
    then obtain x0 xs where xs: "?x = x0 # xs" "x0 < d0" "in_dims ds xs" using x by (cases ?x) auto
    have "cv_begin v + x0 * ch_record_stride (cf_header f) + prod_list ds * ?es \<le> length contents"
      using stored True d xs(2) by (simp add: variable_stored_def)
    then show ?thesis
      using flat_less [OF xs(3)] run_room [of "flat ds xs" 1 "prod_list ds"] True d xs(1) by (simp add: element_at_def)
  next
    case False
    then show ?thesis
      using flat_less [OF x] run_room [of "flat (cv_shape v) ?x" 1 "prod_list (cv_shape v)"] stored
      by (simp add: element_at_def variable_stored_def)
  qed
qed

section \<open>Properties\<close>

lemma classic_read:
  assumes "byte_source (cf_source f) contents" and "slab_ok slab (cv_shape v)"
    and "\<forall>c \<in> set (cnt slab). 0 < c" and "prod_list (cv_shape v) \<le> u64_max"
    and "\<forall>d \<in> set (cv_shape v). d \<le> u64_max" and "variable_stored f contents v"
    and "prod_list (cnt slab) * nc_size (cv_type v) \<le> isize_max"
  shows "\<exists>out. read_selection f v slab = Ok out \<and> length out = prod_list (cnt slab) * nc_size (cv_type v) \<and>
    (\<forall>idx. in_dims (cnt slab) idx \<longrightarrow> elem (nc_size (cv_type v)) out (flat (cnt slab) idx) =
       rev (slice (element_at f v (map2 (+) (start slab) idx)) (nc_size (cv_type v)) contents))"
proof -
  let ?es = "nc_size (cv_type v)"
  let ?n = "prod_list (cnt slab) * ?es"
  have v: "validate slab (cv_shape v) = Ok ()" using validate_Ok [OF assms(5)] assms(2) by simp
  have "prod_list (cnt slab) \<le> ?n" using nc_size_pos [of "cv_type v"] by (cases ?es) auto
  moreover have "isize_max \<le> u64_max" by (simp add: isize_max_def u64_max_def)
  ultimately have "prod_list (cnt slab) \<le> u64_max" using assms(7) by linarith
  then have "element_count (cnt slab) = prod_list (cnt slab)" by (simp add: element_count_eq)
  then have tot: "checked_mul (element_count (cnt slab)) ?es = Some ?n"
    using assms(7) by (simp add: checked_mul_def isize_max_def u64_max_def)
  obtain out where out: "(if cv_is_record v then read_record_variable f (cf_source f) v slab (replicate ?n 0) ?es
        else read_fixed_variable f (cf_source f) v slab (replicate ?n 0) ?es) = Ok out" "length out = ?n"
      "\<And>idx b. in_dims (cnt slab) idx \<Longrightarrow> b < ?es \<Longrightarrow>
         out ! (flat (cnt slab) idx * ?es + b) = contents ! (element_at f v (map2 (+) (start slab) idx) + b)"
    using read_variable_exact [OF assms(1-6), of "replicate ?n 0"] assms(7) by auto
  have run: "read_selection f v slab = Ok (if 1 < ?es then reverse_chunks ?es out else out)"
    using v tot out(1) assms(7)
    by (simp only: read_selection_def read_selection_with_def and_then.simps Let_def option.case with_capacity_def not_le if_False)
      (simp add: not_less)
  have "elem ?es (if 1 < ?es then reverse_chunks ?es out else out) (flat (cnt slab) idx) =
      rev (slice (element_at f v (map2 (+) (start slab) idx)) ?es contents)" if idx: "in_dims (cnt slab) idx" for idx
  proof -
    have r: "(flat (cnt slab) idx + 1) * ?es \<le> length out" by (rule flat_room [OF idx]) (simp add: out(2))
    have "elem ?es out (flat (cnt slab) idx) = slice (element_at f v (map2 (+) (start slab) idx)) ?es contents"
      using element_room [OF assms(6,2) idx] length_elem [OF r] elem_nth [OF r] out(3) [OF idx]
      by (intro nth_equalityI) auto
    then show ?thesis using elem_reverse [OF r nc_size_pos] by simp
  qed
  then show ?thesis using run out(2) by auto
qed

text \<open>
  C10. Reading a non-empty selection of a classic variable returns, for every index of the selection,
  the element of the variable at that index with its bytes reversed into native order.  A fixed-size
  variable lies in one run; element \<open>x\<close> of a record variable lies \<open>x\<^sub>0\<close> record strides behind the
  start of the variable, so the interleaved records are told apart.
\<close>

theorem classic_read_exact:
  assumes "byte_source (cf_source f) contents" and "slab_ok slab (cv_shape v)"
    and "\<forall>c \<in> set (cnt slab). 0 < c" and "prod_list (cv_shape v) \<le> u64_max"
    and "\<forall>d \<in> set (cv_shape v). d \<le> u64_max" and "variable_stored f contents v"
    and "prod_list (cnt slab) * nc_size (cv_type v) \<le> isize_max"
  shows "\<exists>out. read_selection f v slab = Ok out \<and> length out = prod_list (cnt slab) * nc_size (cv_type v) \<and>
    (\<forall>idx. in_dims (cnt slab) idx \<longrightarrow> elem (nc_size (cv_type v)) out (flat (cnt slab) idx) =
       rev (slice (element_at f v (map2 (+) (start slab) idx)) (nc_size (cv_type v)) contents))"
  using classic_read [OF assms] .

definition record_file :: classic_file where
  "record_file = \<lparr>cf_source = memory_source [0, 0, 1, 2, 9, 9, 3, 4], cf_container = Cdf1,
     cf_header = \<lparr>ch_dimensions = [], ch_attributes = [], ch_variables = [], ch_record_count = 2, ch_record_stride = 4\<rparr>\<rparr>"

definition record_variable :: classic_variable where
  "record_variable = \<lparr>cv_name = [118], cv_dimensions = [[116], [120]], cv_shape = [2, 1], cv_type = NcShort,
     cv_datatype = to_datatype NcShort, cv_attributes = [], cv_begin = 2, cv_record_size = 4, cv_is_record = True\<rparr>"

theorem classic_read_exact_witness:
  "\<exists>out. read_selection record_file record_variable \<lparr>start = [1, 0], cnt = [1, 1]\<rparr> = Ok out \<and> elem 2 out 0 = [4, 3]"
proof -
  let ?b = "[0, 0, 1, 2, 9, 9, 3, 4] :: bytes" and ?slab = "\<lparr>start = [1, 0], cnt = [1, 1 :: nat]\<rparr>"
  have src: "byte_source (cf_source record_file) ?b"
    unfolding record_file_def classic_file.simps by (rule byte_source_memory) (simp add: isize_max_def)
  have ok: "slab_ok ?slab (cv_shape record_variable)"
    by (auto simp: slab_ok_def record_variable_def less_Suc_eq)
  have st: "variable_stored record_file ?b record_variable"
    by (auto simp: variable_stored_def record_variable_def record_file_def less_2_cases_iff)
  obtain out where o: "read_selection record_file record_variable ?slab = Ok out"
    "\<And>idx. in_dims [1, 1] idx \<Longrightarrow> elem 2 out (flat [1, 1] idx) =
       rev (slice (element_at record_file record_variable (map2 (+) [1, 0] idx)) 2 ?b)"
    using classic_read_exact [OF src ok _ _ _ st] by (auto simp: record_variable_def u64_max_def isize_max_def)
  then have "elem 2 out 0 = [4, 3]"
    using o(2) [of "[0, 0]"] by (simp add: flat_def element_at_def record_variable_def record_file_def slice_def)
  then show ?thesis using o(1) by blast
qed

text \<open>
  A read of a fixed-size variable through another source never reads that source: whatever
  source the caller passes, the bytes come from the one the file was opened on.
\<close>

theorem fixed_read_ignores_source:
  assumes "\<not> cv_is_record v" and "cv_shape v \<noteq> []"
  shows "read_selection_with f src v slab = read_selection f v slab"
proof -
  have same: "read_fixed_variable f src v slab out es = read_fixed_variable f (cf_source f) v slab out es" for out es
    using assms(2) by (simp add: read_fixed_variable_def Let_def)
  show ?thesis unfolding read_selection_def read_selection_with_def if_not_P [OF assms(1)] same ..
qed

definition fixed_variable :: classic_variable where
  "fixed_variable = record_variable\<lparr>cv_is_record := False\<rparr>"

theorem fixed_read_ignores_source_witness:
  "read_selection_with record_file (memory_source []) fixed_variable \<lparr>start = [0, 0], cnt = [2, 1]\<rparr> =
     read_selection record_file fixed_variable \<lparr>start = [0, 0], cnt = [2, 1]\<rparr>"
  by (rule fixed_read_ignores_source) (simp_all add: fixed_variable_def record_variable_def)

end
