(* ===== verification/Async_Source.thy ===== *)
theory Async_Source
  imports Context
begin

text \<open>
  Asynchronous byte sources (\<^verbatim>\<open>async_source.rs\<close>), the object stores behind them and behind the
  blocking source (\<^verbatim>\<open>object_store_source.rs\<close>), and the asynchronous read of the page cache
  (\<^verbatim>\<open>cache.rs\<close>).  Awaiting a request is its completion: a request gives the result it completes with.
  The locale \<open>async_byte_source\<close> is the contract of the trait; the store is a parameter, with its
  documented behaviour in \<open>store_serves\<close>.
\<close>

section \<open>The trait and its adapters\<close>

record async_source =
  async_size :: nat
  async_read_at :: "nat \<Rightarrow> nat \<Rightarrow> bytes result"
  async_read_ranges :: "(nat \<times> nat) list \<Rightarrow> bytes list result"

definition default_read_ranges :: "(nat \<Rightarrow> nat \<Rightarrow> bytes result) \<Rightarrow> (nat \<times> nat) list \<Rightarrow> bytes list result" where
  "default_read_ranges read_at ranges = map_result (\<lambda>(offset, len). read_at offset len) ranges"

definition sync_as_async :: "source \<Rightarrow> async_source" where
  "sync_as_async src =
     \<lparr>async_size = src_size src, async_read_at = read_vec src, async_read_ranges = read_ranges src\<rparr>"

section \<open>Object stores\<close>

record object_store =
  head_size :: "nat option"
  get_range :: "nat \<Rightarrow> nat \<Rightarrow> bytes option"
  get_ranges :: "(nat \<times> nat) list \<Rightarrow> bytes list option"

definition store_result :: "'a option \<Rightarrow> 'a result" where
  "store_result r = (case r of None \<Rightarrow> Error (Malformed ''failed to read'') | Some x \<Rightarrow> Ok x)"

definition store_check :: "nat \<Rightarrow> nat \<Rightarrow> nat \<Rightarrow> unit result" where
  "store_check sz offset len =
     (if saturating_add offset len > sz then Error (OutOfBounds ''object'' offset len (sz - offset)) else Ok ())"

definition store_read_at :: "object_store \<Rightarrow> nat \<Rightarrow> nat \<Rightarrow> nat \<Rightarrow> bytes result" where
  "store_read_at store sz offset len =
     and_then (store_check sz offset len) (\<lambda>_.
       if len = 0 then Ok []
       else and_then (add64 offset len) (\<lambda>fin. and_then (store_result (get_range store offset fin)) (\<lambda>b.
         if length b \<noteq> len then Error (OutOfBounds ''object'' offset len (length b)) else Ok b)))"

definition store_read_ranges :: "object_store \<Rightarrow> nat \<Rightarrow> (nat \<times> nat) list \<Rightarrow> bytes list result" where
  "store_read_ranges store sz ranges =
     (if ranges = [] then Ok []
      else
        and_then (map_result (\<lambda>(offset, len). store_check sz offset len) ranges) (\<lambda>_.
        and_then (map_result (\<lambda>(offset, len). and_then (add64 offset len) (\<lambda>fin. Ok (offset, fin))) ranges) (\<lambda>wanted.
          store_result (get_ranges store wanted))))"

definition async_store_source :: "object_store \<Rightarrow> nat \<Rightarrow> async_source" where
  "async_store_source store sz =
     \<lparr>async_size = sz, async_read_at = store_read_at store sz, async_read_ranges = store_read_ranges store sz\<rparr>"

definition new_async_store_source :: "object_store \<Rightarrow> async_source result" where
  "new_async_store_source store =
     (case head_size store of
        None \<Rightarrow> Error (Malformed ''failed to stat'')
      | Some sz \<Rightarrow> Ok (async_store_source store sz))"

text \<open>The blocking source; it overrides \<open>read_ranges\<close> as well.\<close>

definition store_source :: "object_store \<Rightarrow> nat \<Rightarrow> source" where
  "store_source store sz = \<lparr>src_size = sz, read_exact_at = store_read_at store sz\<rparr>"

definition new_store_source :: "object_store \<Rightarrow> source result" where
  "new_store_source store =
     (case head_size store of
        None \<Rightarrow> Error (Malformed ''failed to stat'')
      | Some sz \<Rightarrow> Ok (store_source store sz))"

section \<open>Reading through the page cache\<close>

fun fetch_runs_async ::
  "async_source \<Rightarrow> nat \<Rightarrow> (nat \<times> nat) list \<Rightarrow> bytes option list \<times> io_cache \<Rightarrow> (bytes option list \<times> io_cache) result" where
  "fetch_runs_async src first [] st = Ok st"
| "fetch_runs_async src first ((start, final) # runs) (slots, cache) =
     and_then (run_extent cache start final (async_size src)) (\<lambda>(begin, want).
     and_then (async_read_at src begin want) (\<lambda>bs.
     and_then (store_run start final first bs (slots, cache)) (fetch_runs_async src first runs)))"

definition io_read_async :: "io_cache \<Rightarrow> async_source \<Rightarrow> nat \<Rightarrow> nat \<Rightarrow> (bytes \<times> io_cache) result" where
  "io_read_async cache src offset len =
     and_then (bounds cache (async_size src) offset len) (\<lambda>b.
       case b of
         None \<Rightarrow> Ok ([], cache)
       | Some (first, final) \<Rightarrow>
           let slots = cached cache first final in
           and_then (fetch_runs_async src first (missing_runs slots first) (slots, cache))
             (\<lambda>(slots, cache'). and_then (assemble cache' offset len first slots) (\<lambda>out. Ok (out, cache'))))"

section \<open>Fetching the ranges of a read\<close>

fun reads_async :: "async_source \<Rightarrow> io_cache \<Rightarrow> (nat \<times> nat) list \<Rightarrow> (bytes list \<times> io_cache) result" where
  "reads_async src cache [] = Ok ([], cache)"
| "reads_async src cache ((offset, len) # rest) =
     and_then (io_read_async cache src offset len) (\<lambda>(b, cache).
     and_then (reads_async src cache rest) (\<lambda>(bs, cache). Ok (b # bs, cache)))"

definition fetch_bytes ::
  "async_source \<Rightarrow> io_cache option \<Rightarrow> (nat \<times> nat) list \<Rightarrow> io_config \<Rightarrow> (bytes list \<times> io_cache option) result" where
  "fetch_bytes src cache ranges io =
     (case cache of
        Some c \<Rightarrow> and_then (reads_async src c ranges) (\<lambda>(out, c). Ok (out, Some c))
      | None \<Rightarrow>
          and_then (plan ranges io) (\<lambda>reqs.
          and_then (async_read_ranges src (map (\<lambda>r. (req_offset r, req_len r)) reqs)) (\<lambda>fetched.
          and_then (scatter reqs fetched (length ranges)) (\<lambda>out. Ok (out, None)))))"

section \<open>The contract\<close>

text \<open>
  Inside the file a request completes with exactly the bytes asked for, past its end with an error.
  A batch promises something only for ranges that are not empty: a store may refuse an empty one.
\<close>

locale async_byte_source =
  fixes src :: async_source and contents :: bytes
  assumes async_size: "async_size src = length contents"
    and async_small: "length contents \<le> isize_max"
    and async_inside: "offset + len \<le> length contents \<Longrightarrow> async_read_at src offset len = Ok (slice offset len contents)"
    and async_outside: "0 < len \<Longrightarrow> len \<le> isize_max \<Longrightarrow> length contents < offset + len \<Longrightarrow>
       \<exists>what. async_read_at src offset len = Error (OutOfBounds what offset len (length contents - offset))"
    and async_empty: "async_read_at src offset 0 \<noteq> Inl Panic \<and> (\<forall>bs. async_read_at src offset 0 = Inr bs \<longrightarrow> bs = [])"
    and async_ranges: "(\<And>offset len. (offset, len) \<in> set ranges \<Longrightarrow> 0 < len \<and> offset + len \<le> length contents) \<Longrightarrow>
       async_read_ranges src ranges = Ok (map (\<lambda>(offset, len). slice offset len contents) ranges)"
begin

text \<open>What the source answers to requests of the size a buffer may have is a synchronous source.\<close>

definition blocking :: source where
  "blocking = \<lparr>src_size = async_size src,
     read_exact_at = (\<lambda>offset len. if len \<le> isize_max then async_read_at src offset len
       else Error (OutOfBounds ''file'' offset len (async_size src - offset)))\<rparr>"

lemma byte_source_blocking: "byte_source blocking contents"
proof unfold_locales
  show "\<exists>what. read_exact_at blocking offset len = Error (OutOfBounds what offset len (length contents - offset))"
    if "0 < len" "length contents < offset + len" for offset len
    using async_outside [OF that(1) _ that(2)] by (simp add: blocking_def async_size)
qed (use async_small async_inside async_empty in \<open>auto simp: blocking_def async_size\<close>)

lemma fetch_runs_async_eq: "fetch_runs_async src first runs st = fetch_runs blocking first runs st"
proof (induction runs arbitrary: st)
  case (Cons run runs)
  obtain s e slots cache where e: "run = (s, e)" "st = (slots, cache)" by (cases run; cases st)
  have "read_vec blocking at want = async_read_at src at want"
    if "run_extent cache s e (async_size src) = Ok (at, want)" for at want
  proof -
    have "want \<le> async_size src" using that by (auto simp: run_extent_def result_simps)
    then show ?thesis using async_small by (simp add: read_vec_def blocking_def async_size)
  qed
  then show ?case unfolding e
    by (cases "run_extent cache s e (async_size src)") (auto simp: Cons.IH [abs_def] blocking_def intro!: and_then_cong)
qed simp

lemma io_read_async_eq: "io_read_async cache src offset len = io_read cache blocking offset len"
  unfolding io_read_async_def io_read_def fetch_runs_async_eq by (simp add: blocking_def)

lemma reads_async_exact:
  assumes "\<And>offset len. (offset, len) \<in> set ranges \<Longrightarrow> offset + len \<le> length contents"
    and "pages_valid cache contents" and "page_size cache \<le> u64_max"
  shows "\<exists>cache'. reads_async src cache ranges = Ok (map (\<lambda>(offset, len). slice offset len contents) ranges, cache')
    \<and> pages_valid cache' contents \<and> page_size cache' \<le> u64_max"
  using assms
proof (induction ranges arbitrary: cache)
  case (Cons r ranges)
  obtain offset len where r: "r = (offset, len)" by (cases r)
  obtain c where c: "io_read cache blocking offset len = Ok (slice offset len contents, c)"
    "pages_valid c contents" "page_size c = page_size cache"
    using io_read_inside [OF byte_source_blocking Cons.prems(2) _ Cons.prems(3), of offset len] Cons.prems(1) r by auto
  obtain c' where "reads_async src c ranges = Ok (map (\<lambda>(offset, len). slice offset len contents) ranges, c')"
    "pages_valid c' contents" "page_size c' \<le> u64_max"
    using Cons.IH [of c] Cons.prems c(2,3) by auto
  then show ?case using c(1) r by (simp add: io_read_async_eq)
qed auto

lemma fetch_bytes_exact:
  assumes inside: "\<And>offset len. (offset, len) \<in> set ranges \<Longrightarrow> 0 < len \<and> offset + len \<le> length contents"
    and cache: "cache_ok cache contents"
  shows "\<exists>cache'. fetch_bytes src cache ranges io = Ok (map (\<lambda>(offset, len). slice offset len contents) ranges, cache')
    \<and> cache_ok cache' contents"
proof (cases cache)
  case (Some c)
  then obtain c' where "reads_async src c ranges = Ok (map (\<lambda>(offset, len). slice offset len contents) ranges, c')"
    "pages_valid c' contents" "page_size c' \<le> u64_max"
    using reads_async_exact [of ranges c] inside cache by (auto simp: cache_ok_def)
  then show ?thesis using Some by (simp add: fetch_bytes_def cache_ok_def)
next
  case None
  have all: "\<forall>(offset, len) \<in> set ranges. offset + len \<le> length contents" "\<forall>(offset, len) \<in> set ranges. 0 < len"
    using inside by auto
  obtain reqs where p: "plan ranges io = Ok reqs" "\<forall>req \<in> set reqs. req_offset req + req_len req \<le> length contents"
    "scatter reqs (map (\<lambda>r. slice (req_offset r) (req_len r) contents) reqs) (length ranges) =
        Ok (map (\<lambda>(off, len). slice off len contents) ranges)"
    using planned_parts [OF async_small all(1), of io] by blast
  have "async_read_ranges src (map (\<lambda>r. (req_offset r, req_len r)) reqs) = Ok (map (\<lambda>r. slice (req_offset r) (req_len r) contents) reqs)"
    by (subst async_ranges) (use p(2) plan_positive [OF p(1) all(2)] in auto)
  then show ?thesis using None p(1,3) by (simp add: fetch_bytes_def cache_ok_def)
qed

end

text \<open>Every adapter meets the contract.\<close>

lemma async_sync_source:
  assumes "byte_source src contents"
  shows "async_byte_source (sync_as_async src) contents"
proof unfold_locales
  show "async_read_ranges (sync_as_async src) ranges = Ok (map (\<lambda>(offset, len). slice offset len contents) ranges)"
    if "\<And>offset len. (offset, len) \<in> set ranges \<Longrightarrow> 0 < len \<and> offset + len \<le> length contents" for ranges
    using byte_source.read_ranges_inside [OF assms, of ranges] that by (simp add: sync_as_async_def)
  show "\<exists>what. async_read_at (sync_as_async src) offset len = Error (OutOfBounds what offset len (length contents - offset))"
    if "0 < len" "len \<le> isize_max" "length contents < offset + len" for offset len
    using byte_source.read_outside [OF assms that(1,3)] that(2) by (simp add: sync_as_async_def read_vec_def)
qed (use byte_source.size_contents [OF assms] byte_source.contents_small [OF assms] byte_source.read_vec_inside [OF assms]
    byte_source.read_empty [OF assms] in \<open>auto simp: sync_as_async_def read_vec_def\<close>)

definition store_serves :: "object_store \<Rightarrow> bytes \<Rightarrow> bool" where
  "store_serves store contents \<longleftrightarrow>
     head_size store = Some (length contents) \<and>
     (\<forall>s e. s < e \<and> e \<le> length contents \<longrightarrow> get_range store s e = Some (slice s (e - s) contents)) \<and>
     (\<forall>rs. (\<forall>(s, e) \<in> set rs. s < e \<and> e \<le> length contents) \<longrightarrow>
        get_ranges store rs = Some (map (\<lambda>(s, e). slice s (e - s) contents) rs))"

lemma store_check_eq:
  "n \<le> isize_max \<Longrightarrow> store_check n offset len =
     (if offset + len \<le> n then Ok () else Error (OutOfBounds ''object'' offset len (n - offset)))"
  by (auto simp: store_check_def saturating_add_le not_less)

lemma store_read_at_eq:
  assumes "store_serves store contents" and "length contents \<le> isize_max"
  shows "store_read_at store (length contents) offset len =
    (if offset + len \<le> length contents then Ok (slice offset len contents)
     else Error (OutOfBounds ''object'' offset len (length contents - offset)))"
proof (cases "offset + len \<le> length contents \<and> 0 < len")
  case True
  then have "get_range store offset (offset + len) = Some (slice offset len contents)"
    using assms(1) by (simp add: store_serves_def)
  moreover have "length (slice offset len contents) = len" using True by (auto simp: slice_def)
  ultimately show ?thesis using True assms(2)
    by (simp add: store_read_at_def store_check_eq store_result_def add64_def isize_max_def u64_max_def)
qed (use assms(2) in \<open>auto simp: store_read_at_def store_check_eq slice_def\<close>)

lemma store_ranges_inside:
  assumes "store_serves store contents" and "length contents \<le> isize_max"
    and "\<And>offset len. (offset, len) \<in> set ranges \<Longrightarrow> 0 < len \<and> offset + len \<le> length contents"
  shows "store_read_ranges store (length contents) ranges = Ok (map (\<lambda>(offset, len). slice offset len contents) ranges)"
proof -
  have sv: "get_ranges store rs = Some (map (\<lambda>(s, e). slice s (e - s) contents) rs)"
    if "\<forall>(s, e) \<in> set rs. s < e \<and> e \<le> length contents" for rs
    using assms(1) that by (simp add: store_serves_def)
  have "map_result (\<lambda>(offset, len). store_check (length contents) offset len) ranges = Ok (map (\<lambda>_. ()) ranges)"
    by (rule map_result_Ok) (use assms(2,3) in \<open>auto simp: store_check_eq\<close>)
  moreover have "map_result (\<lambda>(offset, len). and_then (add64 offset len) (\<lambda>fin. Ok (offset, fin))) ranges =
      Ok (map (\<lambda>(offset, len). (offset, offset + len)) ranges)"
    by (rule map_result_Ok) (use assms(2,3) in \<open>fastforce simp: add64_def isize_max_def u64_max_def\<close>)
  moreover have "get_ranges store (map (\<lambda>(offset, len). (offset, offset + len)) ranges) =
      Some (map (\<lambda>(s, e). slice s (e - s) contents) (map (\<lambda>(offset, len). (offset, offset + len)) ranges))"
    by (rule sv) (use assms(3) in fastforce)
  moreover have "map (\<lambda>(s, e). slice s (e - s) contents) (map (\<lambda>(offset, len). (offset, offset + len)) ranges) =
      map (\<lambda>(offset, len). slice offset len contents) ranges" by auto
  ultimately show ?thesis
    by (auto simp: store_read_ranges_def store_result_def simp del: map_map)
qed

lemma async_store:
  assumes "store_serves store contents" and "length contents \<le> isize_max"
  shows "async_byte_source (async_store_source store (length contents)) contents"
proof unfold_locales
  show "async_read_ranges (async_store_source store (length contents)) ranges = Ok (map (\<lambda>(offset, len). slice offset len contents) ranges)"
    if "\<And>offset len. (offset, len) \<in> set ranges \<Longrightarrow> 0 < len \<and> offset + len \<le> length contents" for ranges
    using store_ranges_inside [OF assms that] by (simp add: async_store_source_def)
qed (use assms in \<open>auto simp: async_store_source_def store_read_at_eq slice_def\<close>)

lemma blocking_store:
  assumes "store_serves store contents" and "length contents \<le> isize_max"
  shows "byte_source (store_source store (length contents)) contents"
  by unfold_locales (use assms in \<open>auto simp: store_source_def store_read_at_eq slice_def\<close>)

interpretation async_mem: async_byte_source "sync_as_async (memory_source (small_contents data))" "small_contents data" for data
  by (rule async_sync_source [OF mem.byte_source_axioms])

text \<open>A store held in memory, which refuses empty and outlying ranges.\<close>

definition memory_get_range :: "bytes \<Rightarrow> nat \<Rightarrow> nat \<Rightarrow> bytes option" where
  "memory_get_range contents s e = (if s < e \<and> e \<le> length contents then Some (slice s (e - s) contents) else None)"

definition memory_store :: "bytes \<Rightarrow> object_store" where
  "memory_store contents =
     \<lparr>head_size = Some (length contents), get_range = memory_get_range contents,
      get_ranges = (\<lambda>rs. those (map (\<lambda>(s, e). memory_get_range contents s e) rs))\<rparr>"

lemma store_serves_memory: "store_serves (memory_store contents) contents"
proof -
  have "those (map (\<lambda>(s, e). memory_get_range contents s e) rs) = Some (map (\<lambda>(s, e). slice s (e - s) contents) rs)"
    if "\<forall>(s, e) \<in> set rs. s < e \<and> e \<le> length contents" for rs
    using that by (induction rs) (auto simp: memory_get_range_def)
  then show ?thesis by (simp add: store_serves_def memory_store_def memory_get_range_def)
qed

interpretation async_mem_store: async_byte_source
  "async_store_source (memory_store (small_contents data)) (length (small_contents data))" "small_contents data" for data
  by (rule async_store [OF store_serves_memory]) (simp add: small_contents_def)

section \<open>Properties\<close>

text \<open>
  C19. Over an object store that serves the ranges of an object, the asynchronous fetch of a batch of
  ranges, with merged requests or through a page cache in any valid state, completes with exactly the
  bytes of every range in the order asked, and the cache keeps to the object.
\<close>

theorem store_fetch_exact:
  assumes "store_serves store contents" and "length contents \<le> isize_max"
    and "new_async_store_source store = Ok src" and "cache_ok cache contents"
    and "\<forall>(offset, len) \<in> set ranges. 0 < len \<and> offset + len \<le> length contents"
  shows "\<exists>cache'. fetch_bytes src cache ranges io = Ok (map (\<lambda>(offset, len). slice offset len contents) ranges, cache')
    \<and> cache_ok cache' contents"
proof -
  have "src = async_store_source store (length contents)"
    using assms(1,3) by (simp add: new_async_store_source_def store_serves_def)
  then show ?thesis
    using async_byte_source.fetch_bytes_exact [OF async_store [OF assms(1,2)] _ assms(4)] assms(5) by blast
qed

theorem store_fetch_exact_witness:
  "\<exists>cache'. fetch_bytes (async_store_source (memory_store [5, 6, 7]) 3) (Some \<lparr>pages = Map.empty, page_size = 2\<rparr>)
     [(1, 2), (0, 1)] REMOTE = Ok ([[6, 7], [5]], cache')"
proof -
  have "new_async_store_source (memory_store [5, 6, 7]) = Ok (async_store_source (memory_store [5, 6, 7]) 3)"
    by (simp add: new_async_store_source_def memory_store_def eval_nat_numeral)
  from store_fetch_exact [OF store_serves_memory _ this, of "Some \<lparr>pages = Map.empty, page_size = 2\<rparr>" "[(1, 2), (0, 1)]" REMOTE]
  show ?thesis by (auto simp: isize_max_def u64_max_def cache_ok_def pages_valid_def slice_def)
qed

text \<open>
  The blocking source over such a store is a byte source like memory or a file: \<open>OutOfBounds\<close> past the
  end and exactly the bytes inside; and its batched \<open>read_ranges\<close> gives what reading the ranges one by
  one gives, with one round trip.
\<close>

theorem store_batch_is_sequence:
  assumes "store_serves store contents" and "length contents \<le> isize_max"
    and "\<forall>(offset, len) \<in> set ranges. 0 < len \<and> offset + len \<le> length contents"
  shows "byte_source (store_source store (length contents)) contents \<and>
    store_read_ranges store (length contents) ranges = read_ranges (store_source store (length contents)) ranges"
proof -
  have "read_ranges (store_source store (length contents)) ranges = Ok (map (\<lambda>(offset, len). slice offset len contents) ranges)"
    by (rule byte_source.read_ranges_inside [OF blocking_store [OF assms(1,2)]]) (use assms(3) in auto)
  then show ?thesis using blocking_store [OF assms(1,2)] store_ranges_inside [OF assms(1,2)] assms(3) by auto
qed

theorem store_batch_is_sequence_witness:
  "store_read_ranges (memory_store [5, 6, 7]) 3 [(1, 2), (0, 1)] = read_ranges (store_source (memory_store [5, 6, 7]) 3) [(1, 2), (0, 1)]"
proof -
  have l: "length [5, 6, 7 :: byte] = 3" by simp
  have "length [5, 6, 7 :: byte] \<le> isize_max" by (simp add: isize_max_def)
  from store_batch_is_sequence [OF store_serves_memory this, of "[(1, 2), (0, 1)]"] show ?thesis
    unfolding l by simp
qed

end
