(* ===== verification/Replay.thy ===== *)
theory Replay
  imports Async_Source
begin

text \<open>
  Asynchronous metadata walks by replay (\<^verbatim>\<open>replay.rs\<close>, \<^verbatim>\<open>async_source.rs\<close>): a synchronous walk
  runs over the pages held in memory; a read outside them records the pages it wants and fails; the
  driver fetches these pages in one batch and runs the walk again, for at most 64 rounds.

  The walk is the argument \<open>build\<close> of the driver, a pure function of the source it is
  given; it is a tree whose nodes are the reads it makes and whose branches are their results.
\<close>

section \<open>The source over held pages\<close>

definition MAX_ROUNDS :: nat where "MAX_ROUNDS = 64"

definition DEFAULT_PREFETCH_BYTES :: nat where "DEFAULT_PREFETCH_BYTES = 4 * 2 ^ 20"

record replay_source =
  rs_size :: nat
  rs_page_size :: nat
  rs_pages :: "nat \<rightharpoonup> bytes"

definition new_replay_source :: "nat \<Rightarrow> nat \<Rightarrow> (nat \<rightharpoonup> bytes) \<Rightarrow> replay_source" where
  "new_replay_source sz ps held = \<lparr>rs_size = sz, rs_page_size = max ps 1, rs_pages = held\<rparr>"

definition span :: "replay_source \<Rightarrow> nat \<Rightarrow> nat \<Rightarrow> nat \<times> nat" where
  "span rs offset len = (offset div rs_page_size rs, (offset + len - 1) div rs_page_size rs)"

definition missing_pages :: "replay_source \<Rightarrow> nat \<Rightarrow> nat \<Rightarrow> nat list" where
  "missing_pages rs first final = filter (\<lambda>i. rs_pages rs i = None) [first..<Suc final]"

fun copy_held :: "replay_source \<Rightarrow> nat \<Rightarrow> nat \<Rightarrow> nat list \<Rightarrow> bytes \<Rightarrow> bytes result" where
  "copy_held rs offset len [] out = Ok out"
| "copy_held rs offset len (i # is) out =
     (case rs_pages rs i of
        None \<Rightarrow> panic
      | Some page \<Rightarrow>
          let page_start = i * rs_page_size rs; from = max offset page_start - page_start in
          if from \<ge> length page then Ok out
          else copy_held rs offset len is (out @ slice from (min (len - length out) (length page - from)) page))"

text \<open>The set of wanted pages is the only mutable state; it is passed along.\<close>

definition replay_read :: "replay_source \<Rightarrow> nat \<Rightarrow> nat \<Rightarrow> nat set \<Rightarrow> bytes result \<times> nat set" where
  "replay_read rs offset len wanted =
     (if len = 0 then (Ok [], wanted)
      else if saturating_add offset len > rs_size rs
      then (Error (OutOfBounds ''file'' offset len (rs_size rs - offset)), wanted)
      else case span rs offset len of (first, final) \<Rightarrow>
        if missing_pages rs first final \<noteq> [] then (Error Incomplete, wanted \<union> set (missing_pages rs first final))
        else (and_then (copy_held rs offset len [first..<Suc final] []) (\<lambda>out.
                if length out \<noteq> len then Error (Malformed ''a held page is short'') else Ok out), wanted))"

definition replay_read_vec :: "replay_source \<Rightarrow> nat \<Rightarrow> nat \<Rightarrow> nat set \<Rightarrow> bytes result \<times> nat set" where
  "replay_read_vec rs offset len wanted = (if len > isize_max then (panic, wanted) else replay_read rs offset len wanted)"

fun ranges_replay ::
  "replay_source \<Rightarrow> (nat \<times> nat) list \<Rightarrow> bytes list \<Rightarrow> bool \<Rightarrow> nat set \<Rightarrow> bytes list result \<times> nat set" where
  "ranges_replay rs [] out miss wanted = (if miss then Error Incomplete else Ok out, wanted)"
| "ranges_replay rs ((offset, len) # ranges) out miss wanted =
     (case replay_read_vec rs offset len wanted of
        (Inr b, wanted) \<Rightarrow> ranges_replay rs ranges (if miss then out else out @ [b]) miss wanted
      | (Inl f, wanted) \<Rightarrow>
          if f = Err Incomplete then ranges_replay rs ranges out True wanted else (Inl f, wanted))"

definition replay_read_ranges :: "replay_source \<Rightarrow> (nat \<times> nat) list \<Rightarrow> nat set \<Rightarrow> bytes list result \<times> nat set" where
  "replay_read_ranges rs ranges wanted = ranges_replay rs ranges [] False wanted"

section \<open>Walks\<close>

datatype 'a walk =
    Return "'a result"
  | ReadVec nat nat "bytes result \<Rightarrow> 'a walk"
  | ReadRanges "(nat \<times> nat) list" "bytes list result \<Rightarrow> 'a walk"

primrec run_replay :: "replay_source \<Rightarrow> 'a walk \<Rightarrow> nat set \<Rightarrow> 'a result \<times> nat set" where
  "run_replay rs (Return r) wanted = (r, wanted)"
| "run_replay rs (ReadVec offset len k) wanted =
     (case replay_read_vec rs offset len wanted of (b, wanted) \<Rightarrow> run_replay rs (k b) wanted)"
| "run_replay rs (ReadRanges ranges k) wanted =
     (case replay_read_ranges rs ranges wanted of (b, wanted) \<Rightarrow> run_replay rs (k b) wanted)"

section \<open>Fetching\<close>

definition extend_runs :: "(nat \<times> nat) list \<Rightarrow> nat \<Rightarrow> (nat \<times> nat) list" where
  "extend_runs runs i =
     (if runs \<noteq> [] \<and> snd (last runs) + 1 = i then butlast runs @ [(fst (last runs), i)] else runs @ [(i, i)])"

definition shared_cache :: "io_cache option \<Rightarrow> nat \<Rightarrow> io_cache option" where
  "shared_cache cache ps = (case cache of Some c \<Rightarrow> if page_size c = ps then Some c else None | None \<Rightarrow> None)"

fun plan_runs ::
  "io_cache option \<Rightarrow> nat \<Rightarrow> nat list \<Rightarrow> (nat \<rightharpoonup> bytes) \<times> (nat \<times> nat) list \<Rightarrow> (nat \<rightharpoonup> bytes) \<times> (nat \<times> nat) list" where
  "plan_runs cache ps [] (held, runs) = (held, runs)"
| "plan_runs cache ps (i # wanted) (held, runs) =
     (if held i \<noteq> None then plan_runs cache ps wanted (held, runs)
      else case (case shared_cache cache ps of Some c \<Rightarrow> pages c i | None \<Rightarrow> None) of
        Some page \<Rightarrow> plan_runs cache ps wanted (held(i \<mapsto> page), runs)
      | None \<Rightarrow> plan_runs cache ps wanted (held, extend_runs runs i))"

definition run_range :: "nat \<Rightarrow> nat \<Rightarrow> nat \<times> nat \<Rightarrow> (nat \<times> nat) result" where
  "run_range ps sz run =
     and_then (mul64 (fst run) ps) (\<lambda>at. and_then (mul64 (snd run + 1) ps) (\<lambda>fin.
       Ok (at, min fin sz - at)))"

fun store_pages :: "nat \<Rightarrow> nat \<Rightarrow> bytes \<Rightarrow> (nat \<rightharpoonup> bytes) \<times> io_cache option \<Rightarrow> (nat \<rightharpoonup> bytes) \<times> io_cache option" where
  "store_pages ps i b (held, cache) =
     (if b = [] \<or> ps = 0 then (held, cache)
      else store_pages ps (Suc i) (drop ps b)
        (held(i \<mapsto> take ps b),
         case shared_cache cache ps of Some c \<Rightarrow> Some (put_page i (take ps b) c) | None \<Rightarrow> cache))"

declare store_pages.simps [simp del]

fun store_runs ::
  "nat \<Rightarrow> ((nat \<times> nat) \<times> bytes) list \<Rightarrow> (nat \<rightharpoonup> bytes) \<times> io_cache option \<Rightarrow> (nat \<rightharpoonup> bytes) \<times> io_cache option" where
  "store_runs ps [] st = st"
| "store_runs ps ((run, b) # rest) st = store_runs ps rest (store_pages ps (fst run) b st)"

definition fetch ::
  "async_source \<Rightarrow> nat \<Rightarrow> nat \<Rightarrow> nat set \<Rightarrow> (nat \<rightharpoonup> bytes) \<times> io_cache option \<Rightarrow> ((nat \<rightharpoonup> bytes) \<times> io_cache option) result" where
  "fetch src ps sz wanted st =
     (case plan_runs (snd st) ps (sorted_list_of_set wanted) (fst st, []) of (held, runs) \<Rightarrow>
        if runs = [] then Ok (held, snd st)
        else
          and_then (map_result (run_range ps sz) runs) (\<lambda>ranges.
          and_then (async_read_ranges src ranges) (\<lambda>fetched.
            if length fetched \<noteq> length runs then Error (Malformed ''the source returned another number of buffers'')
            else Ok (store_runs ps (zip runs fetched) (held, snd st)))))"

section \<open>The driver\<close>

fun replay_rounds ::
  "nat \<Rightarrow> async_source \<Rightarrow> nat \<Rightarrow> nat \<Rightarrow> 'a walk \<Rightarrow> (nat \<rightharpoonup> bytes) \<times> io_cache option \<Rightarrow> nat set \<Rightarrow> nat set \<Rightarrow>
   'a result \<times> io_cache option" where
  "replay_rounds 0 src ps sz build st wanted previous =
     (Error (Malformed ''the asynchronous walk did not finish''), snd st)"
| "replay_rounds (Suc n) src ps sz build st wanted previous =
     (case fetch src ps sz wanted st of
        Inl f \<Rightarrow> (Inl f, snd st)
      | Inr st \<Rightarrow>
          (case run_replay (new_replay_source sz ps (fst st)) build {} of (outcome, missing) \<Rightarrow>
             case outcome of
               Inr value \<Rightarrow>
                 if missing = {} \<or> missing = previous then (Ok value, snd st)
                 else replay_rounds n src ps sz build st missing missing
             | Inl f \<Rightarrow>
                 if f = Err Incomplete then
                   if missing = {} \<or> missing = previous
                   then (Error (Malformed ''the asynchronous walk asked for no new bytes and did not finish''), snd st)
                   else replay_rounds n src ps sz build st missing missing
                 else (Inl f, snd st)))"

definition replay :: "async_source \<Rightarrow> io_cache option \<Rightarrow> nat \<Rightarrow> nat \<Rightarrow> 'a walk \<Rightarrow> 'a result \<times> io_cache option" where
  "replay src cache ps prefetch_bytes build =
     (let sz = async_size src; ps = max ps 1 in
      if sz = 0 then (Error (Malformed ''the source is empty''), cache)
      else
        let last_page = (sz - 1) div ps; window = max (div_ceil prefetch_bytes ps) 1 in
        replay_rounds MAX_ROUNDS src ps sz build (Map.empty, cache) {0..<min window (last_page + 1)} {})"

section \<open>The walk over the whole file\<close>

definition exact_read :: "bytes \<Rightarrow> nat \<Rightarrow> nat \<Rightarrow> bytes result" where
  "exact_read contents offset len =
     (if len > isize_max then panic
      else if len = 0 then Ok []
      else if offset + len \<le> length contents then Ok (slice offset len contents)
      else Error (OutOfBounds ''file'' offset len (length contents - offset)))"

definition exact_ranges :: "bytes \<Rightarrow> (nat \<times> nat) list \<Rightarrow> bytes list result" where
  "exact_ranges contents = map_result (\<lambda>(offset, len). exact_read contents offset len)"

primrec run_exact :: "bytes \<Rightarrow> 'a walk \<Rightarrow> 'a result" where
  "run_exact contents (Return r) = r"
| "run_exact contents (ReadVec offset len k) = run_exact contents (k (exact_read contents offset len))"
| "run_exact contents (ReadRanges ranges k) = run_exact contents (k (exact_ranges contents ranges))"

text \<open>The number of reads of the walk over the whole file, one behind the other.\<close>

primrec dependent_reads :: "bytes \<Rightarrow> 'a walk \<Rightarrow> nat" where
  "dependent_reads contents (Return r) = 0"
| "dependent_reads contents (ReadVec offset len k) = Suc (dependent_reads contents (k (exact_read contents offset len)))"
| "dependent_reads contents (ReadRanges ranges k) = Suc (dependent_reads contents (k (exact_ranges contents ranges)))"

text \<open>
  A walk passes a missing read on when, whatever it does behind one, it ends with the incomplete
  error or with a value: it does not turn the missing read into another error.
\<close>

definition passes_on :: "'a result \<Rightarrow> bool" where
  "passes_on r \<longleftrightarrow> r = Error Incomplete \<or> (\<exists>v. r = Ok v)"

primrec harmless :: "'a walk \<Rightarrow> bool" where
  "harmless (Return r) \<longleftrightarrow> passes_on r"
| "harmless (ReadVec offset len k) \<longleftrightarrow> (\<forall>b. harmless (k b))"
| "harmless (ReadRanges ranges k) \<longleftrightarrow> (\<forall>b. harmless (k b))"

primrec propagates :: "'a walk \<Rightarrow> bool" where
  "propagates (Return r) \<longleftrightarrow> True"
| "propagates (ReadVec offset len k) \<longleftrightarrow> harmless (k (Error Incomplete)) \<and> (\<forall>b. propagates (k b))"
| "propagates (ReadRanges ranges k) \<longleftrightarrow> harmless (k (Error Incomplete)) \<and> (\<forall>b. propagates (k b))"

section \<open>Reads of held pages\<close>

definition needed :: "bytes \<Rightarrow> nat \<Rightarrow> nat \<Rightarrow> nat \<Rightarrow> nat set" where
  "needed contents ps offset len =
     (if len = 0 \<or> length contents < offset + len then {} else {offset div ps..(offset + len - 1) div ps})"

fun needed_ranges :: "bytes \<Rightarrow> nat \<Rightarrow> (nat \<times> nat) list \<Rightarrow> nat set" where
  "needed_ranges contents ps [] = {}"
| "needed_ranges contents ps ((offset, len) # ranges) =
     (case exact_read contents offset len of
        Inl f \<Rightarrow> {} | Inr b \<Rightarrow> needed contents ps offset len \<union> needed_ranges contents ps ranges)"

definition held_ok :: "nat \<Rightarrow> bytes \<Rightarrow> (nat \<rightharpoonup> bytes) \<Rightarrow> bool" where
  "held_ok ps contents held \<longleftrightarrow> (\<forall>i page. held i = Some page \<longrightarrow> page = page_of ps contents i)"

text \<open>The reads of the walk that still lie behind a page which is not in \<open>D\<close>, that one included.\<close>

primrec remaining :: "nat \<Rightarrow> bytes \<Rightarrow> nat set \<Rightarrow> 'a walk \<Rightarrow> nat" where
  "remaining ps contents D (Return r) = 0"
| "remaining ps contents D (ReadVec offset len k) =
     (if needed contents ps offset len \<subseteq> D then remaining ps contents D (k (exact_read contents offset len))
      else Suc (dependent_reads contents (k (exact_read contents offset len))))"
| "remaining ps contents D (ReadRanges ranges k) =
     (if needed_ranges contents ps ranges \<subseteq> D then remaining ps contents D (k (exact_ranges contents ranges))
      else Suc (dependent_reads contents (k (exact_ranges contents ranges))))"

lemma remaining_le: "remaining ps contents D w \<le> dependent_reads contents w"
  by (induction w) (auto intro: le_SucI)

lemma remaining_antimono: "D \<subseteq> D' \<Longrightarrow> remaining ps contents D' w \<le> remaining ps contents D w"
  by (induction w) (auto intro: le_SucI remaining_le)

lemma needed_in_file: "needed contents ps offset len \<subseteq> {i. i * ps < length contents}"
proof
  fix i
  assume i: "i \<in> needed contents ps offset len"
  then have b: "0 < len" "offset + len \<le> length contents" "i \<le> (offset + len - 1) div ps"
    by (auto simp: needed_def split: if_splits)
  have "i * ps \<le> (offset + len - 1) div ps * ps" using b(3) by simp
  also have "\<dots> \<le> offset + len - 1" by (rule div_times_less_eq_dividend)
  finally show "i \<in> {i. i * ps < length contents}" using b by simp
qed

lemma needed_ranges_in_file: "needed_ranges contents ps ranges \<subseteq> {i. i * ps < length contents}"
  by (induction contents ps ranges rule: needed_ranges.induct) (use needed_in_file in \<open>force split: sum.splits\<close>)+

locale held_pages =
  fixes contents :: bytes and ps :: nat and held :: "nat \<rightharpoonup> bytes"
  assumes page_pos: "0 < ps" and small: "length contents \<le> isize_max" and valid: "held_ok ps contents held"
begin

abbreviation rs :: replay_source where
  "rs \<equiv> new_replay_source (length contents) ps held"

lemma rs_simps [simp]: "rs_size rs = length contents" "rs_page_size rs = ps" "rs_pages rs = held"
  using page_pos by (simp_all add: new_replay_source_def)

lemma held_page: "i \<in> dom held \<Longrightarrow> held i = Some (page_of ps contents i)"
  using valid by (auto simp: held_ok_def)

lemma copy_held_pages:
  assumes len: "0 < len" "offset + len \<le> length contents" and first: "offset div ps \<le> i"
  shows "i + n = Suc ((offset + len - 1) div ps) \<Longrightarrow> (\<forall>j. i \<le> j \<and> j < i + n \<longrightarrow> j \<in> dom held) \<Longrightarrow>
    copy_held rs offset len [i..<i + n] (slice offset (min len (max offset (i * ps) - offset)) contents) =
    Ok (slice offset len contents)"
  using first
proof (induction n arbitrary: i)
  case 0
  have "(offset + len - 1) div ps * ps + ps > offset + len - 1"
    using page_pos by (metis add.commute dividend_less_div_times mult.commute)
  then have "offset + len \<le> i * ps" using 0 len by (simp add: algebra_simps)
  then show ?case by simp
next
  case (Suc n)
  let ?page = "page_of ps contents i" and ?a = "i * ps"
  let ?d = "max offset ?a - offset"
  have i: "i \<le> (offset + len - 1) div ps" using Suc.prems(1) by simp
  then have "?a \<le> (offset + len - 1) div ps * ps" by simp
  also have "\<dots> \<le> offset + len - 1" by (rule div_times_less_eq_dividend)
  finally have a: "?a < offset + len" using len by simp
  have off: "offset < ?a + ps"
  proof -
    have "offset < offset div ps * ps + ps" using page_pos by (metis add.commute dividend_less_div_times mult.commute)
    also have "\<dots> \<le> ?a + ps" using Suc.prems(3) by simp
    finally show ?thesis .
  qed
  have d: "?d < len" using a len by auto
  have plen: "length ?page = min ps (length contents - ?a)" by (simp add: page_of_def)
  have fr: "max offset ?a - ?a < length ?page" using a off len plen page_pos by (auto simp: max_def)
  have piece: "slice (max offset ?a - ?a) m ?page = slice (offset + ?d) m contents" if "max offset ?a - ?a + m \<le> length ?page" for m
    using that plen unfolding page_of_def by (subst slice_slice) (auto simp: max_def)
  let ?m = "min (len - ?d) (length ?page - (max offset ?a - ?a))"
  have out: "length (slice offset (min len ?d) contents) = ?d" using d len by simp
  have step: "slice offset (min len ?d) contents @ slice (max offset ?a - ?a) ?m ?page =
      slice offset (min len (max offset (Suc i * ps) - offset)) contents"
  proof -
    have split: "x + min (y - x) z = min y (x + z)" if "x < y" for x y z :: nat using that by linarith
    have "?d + (length ?page - (max offset ?a - ?a)) = ?a + length ?page - offset" using fr by (simp add: max_def)
    then have "?d + ?m = min len (?a + length ?page - offset)" using split [OF d] by simp
    also have "\<dots> = min len (?a + ps - offset)"
    proof (cases "?a + ps \<le> length contents")
      case False
      then have "?a + length ?page = length contents" using a len plen by simp
      then show ?thesis using False len by simp
    qed (simp add: plen)
    also have "\<dots> = min len (max offset (Suc i * ps) - offset)" using off by (simp add: max_def add.commute)
    finally have "?d + ?m = min len (max offset (Suc i * ps) - offset)" .
    moreover have "min len ?d = ?d" using d by (rule min_absorb2 [OF less_imp_le])
    moreover have "slice (max offset ?a - ?a) ?m ?page = slice (offset + ?d) ?m contents"
    proof (rule piece)
      have "x + min y (z - x) \<le> z" if "x < z" for x y z :: nat using that by linarith
      then show "max offset ?a - ?a + ?m \<le> length ?page" using fr .
    qed
    ultimately show ?thesis by (simp only: slice_append_adjacent)
  qed
  have "held i = Some ?page" using held_page Suc.prems(2) by simp
  moreover have "copy_held rs offset len [Suc i..<Suc i + n] (slice offset (min len (max offset (Suc i * ps) - offset)) contents) =
      Ok (slice offset len contents)"
    by (rule Suc.IH) (use Suc.prems in auto)
  moreover have "[i..<i + Suc n] = i # [Suc i..<Suc i + n]" by (simp add: upt_conv_Cons del: upt_Suc)
  ultimately show ?case
    using fr by (simp only: copy_held.simps rs_simps option.case Let_def out step not_le [symmetric] if_False)
qed

lemma missing_eq: "set (missing_pages rs first final) = {first..final} - dom held"
  by (auto simp: missing_pages_def)

lemma replay_read_eq:
  "replay_read_vec rs offset len wanted =
     (if needed contents ps offset len \<subseteq> dom held then exact_read contents offset len else Error Incomplete,
      wanted \<union> (needed contents ps offset len - dom held))"
proof (cases "len = 0 \<or> length contents < offset + len \<or> isize_max < len")
  case True
  then show ?thesis
    using small by (auto simp: replay_read_vec_def replay_read_def exact_read_def needed_def saturating_add_le not_le)
next
  case False
  let ?first = "offset div ps" and ?final = "(offset + len - 1) div ps"
  have f: "0 < len" "offset + len \<le> length contents" using False by auto
  have le: "?first \<le> ?final" using f by (intro div_le_mono) simp
  have need: "needed contents ps offset len = {?first..?final}" using False by (simp add: needed_def)
  have miss: "missing_pages rs ?first ?final = [] \<longleftrightarrow> {?first..?final} \<subseteq> dom held"
    using missing_eq [of ?first ?final] by (metis Diff_eq_empty_iff set_empty)
  have copy: "copy_held rs offset len [?first..<Suc ?final] [] = Ok (slice offset len contents)" if "{?first..?final} \<subseteq> dom held"
  proof -
    have "?first * ps \<le> offset" by (rule div_times_less_eq_dividend)
    then have "copy_held rs offset len [?first..<?first + (Suc ?final - ?first)] [] = Ok (slice offset len contents)"
      using copy_held_pages [OF f order_refl, of "Suc ?final - ?first"] that le by (auto simp: subset_iff)
    then show ?thesis using le by simp
  qed
  show ?thesis
    using False f need miss copy missing_eq [of ?first ?final] small
    by (auto simp: replay_read_vec_def replay_read_def exact_read_def span_def saturating_add_le not_less)
qed

lemma exact_read_error: "exact_read contents offset len = Inl f \<Longrightarrow> needed contents ps offset len = {} \<and> f \<noteq> Err Incomplete"
  using small by (auto simp: exact_read_def needed_def split: if_splits)

lemma ranges_replay_eq:
  "ranges_replay rs ranges out miss wanted =
     (case exact_ranges contents ranges of
        Inl f \<Rightarrow> Inl f
      | Inr bs \<Rightarrow> if miss \<or> \<not> needed_ranges contents ps ranges \<subseteq> dom held then Error Incomplete else Ok (out @ bs),
      wanted \<union> (needed_ranges contents ps ranges - dom held))"
proof (induction ranges arbitrary: out miss wanted)
  case (Cons range ranges)
  obtain offset len where range: "range = (offset, len)" by fastforce
  show ?case
  proof (cases "exact_read contents offset len")
    case (Inl f)
    then show ?thesis using exact_read_error [OF Inl] by (simp add: range replay_read_eq exact_ranges_def)
  next
    case (Inr b)
    show ?thesis
    proof (cases "needed contents ps offset len \<subseteq> dom held")
      case True
      then show ?thesis using Inr Cons.IH
        by (cases "exact_ranges contents ranges") (auto simp: range replay_read_eq exact_ranges_def)
    next
      case False
      then show ?thesis using Inr Cons.IH
        by (cases "exact_ranges contents ranges") (auto simp: range replay_read_eq exact_ranges_def)
    qed
  qed
qed (simp add: exact_ranges_def)

lemma replay_ranges_eq:
  "replay_read_ranges rs ranges wanted =
     (case exact_ranges contents ranges of
        Inl f \<Rightarrow> Inl f | Inr bs \<Rightarrow> if needed_ranges contents ps ranges \<subseteq> dom held then Ok bs else Error Incomplete,
      wanted \<union> (needed_ranges contents ps ranges - dom held))"
  unfolding replay_read_ranges_def ranges_replay_eq by (cases "exact_ranges contents ranges") auto

text \<open>
  A run records only pages of the file that are not held; it loses none that are wanted already; when
  no read is missing it is the walk over the whole file; otherwise holding the recorded pages
  leaves fewer reads.
\<close>

lemma run_wanted: "\<exists>M. snd (run_replay rs w wanted) = wanted \<union> M \<and> M \<inter> dom held = {} \<and> M \<subseteq> {i. i * ps < length contents}"
proof (induction w arbitrary: wanted)
  case (ReadVec offset len k)
  let ?N = "needed contents ps offset len - dom held"
  let ?b = "if needed contents ps offset len \<subseteq> dom held then exact_read contents offset len else Error Incomplete"
  obtain M where "snd (run_replay rs (k ?b) (wanted \<union> ?N)) = wanted \<union> ?N \<union> M" "M \<inter> dom held = {}"
    "M \<subseteq> {i. i * ps < length contents}"
    using ReadVec [OF rangeI, of ?b "wanted \<union> ?N"] by blast
  then show ?case
    using needed_in_file [of contents ps offset len] by (intro exI [of _ "?N \<union> M"]) (auto simp: replay_read_eq)
next
  case (ReadRanges ranges k)
  let ?N = "needed_ranges contents ps ranges - dom held"
  define b where "b = fst (replay_read_ranges rs ranges wanted)"
  obtain M where "snd (run_replay rs (k b) (wanted \<union> ?N)) = wanted \<union> ?N \<union> M" "M \<inter> dom held = {}"
    "M \<subseteq> {i. i * ps < length contents}"
    using ReadRanges [OF rangeI, of b "wanted \<union> ?N"] by blast
  then show ?case
    using needed_ranges_in_file [of contents ps ranges]
    by (intro exI [of _ "?N \<union> M"]) (auto simp: replay_ranges_eq b_def)
qed (intro exI [of _ "{}"], simp)

lemma run_complete: "remaining ps contents (dom held) w = 0 \<Longrightarrow> run_replay rs w wanted = (run_exact contents w, wanted)"
  by (induction w arbitrary: wanted) (auto simp: replay_read_eq replay_ranges_eq split: if_splits sum.splits)

lemma run_progress:
  "0 < remaining ps contents (dom held) w \<Longrightarrow>
   remaining ps contents (dom held \<union> snd (run_replay rs w wanted)) w < remaining ps contents (dom held) w"
proof (induction w arbitrary: wanted)
  case (ReadVec offset len k)
  let ?N = "needed contents ps offset len"
  let ?D = "dom held \<union> snd (run_replay rs (ReadVec offset len k) wanted)"
  show ?case
  proof (cases "?N \<subseteq> dom held")
    case True
    then show ?thesis using ReadVec.prems ReadVec.IH [OF rangeI] by (auto simp: replay_read_eq)
  next
    case False
    have "?N \<subseteq> ?D"
      using run_wanted [of "k (Error Incomplete)" "wanted \<union> (?N - dom held)"] False by (auto simp: replay_read_eq)
    then show ?thesis using False remaining_le [of ps contents ?D "k (exact_read contents offset len)"] by simp
  qed
next
  case (ReadRanges ranges k)
  let ?N = "needed_ranges contents ps ranges"
  let ?D = "dom held \<union> snd (run_replay rs (ReadRanges ranges k) wanted)"
  define b where "b = fst (replay_read_ranges rs ranges wanted)"
  show ?case
  proof (cases "?N \<subseteq> dom held")
    case True
    then show ?thesis using ReadRanges.prems ReadRanges.IH [OF rangeI] by (auto simp: replay_ranges_eq split: sum.splits)
  next
    case False
    have "?N \<subseteq> ?D"
      using run_wanted [of "k b" "wanted \<union> (?N - dom held)"] by (auto simp: replay_ranges_eq b_def)
    then show ?thesis using False remaining_le [of ps contents ?D "k (exact_ranges contents ranges)"] by simp
  qed
qed simp

lemma run_finished:
  assumes "snd (run_replay rs w {}) = {}"
  shows "run_replay rs w {} = (run_exact contents w, {})"
  using run_progress [of w "{}"] run_complete [of w "{}"] assms by (cases "remaining ps contents (dom held) w = 0") auto

lemma run_harmless: "harmless w \<Longrightarrow> passes_on (fst (run_replay rs w wanted))"
  by (induction w arbitrary: wanted) (auto simp: replay_read_eq replay_ranges_eq)

lemma run_propagates:
  "propagates w \<Longrightarrow> fst (run_replay rs w wanted) = run_exact contents w \<or> passes_on (fst (run_replay rs w wanted))"
proof (induction w arbitrary: wanted)
  case (ReadVec offset len k)
  then show ?case using run_harmless [of "k (Error Incomplete)"] by (auto simp: replay_read_eq)
next
  case (ReadRanges ranges k)
  then show ?case using run_harmless [of "k (Error Incomplete)"] by (auto simp: replay_ranges_eq split: sum.splits)
qed simp

end

section \<open>Fetching the wanted pages\<close>

definition covered :: "(nat \<times> nat) list \<Rightarrow> nat set" where
  "covered runs = (\<Union>(s, e) \<in> set runs. {s..e})"

definition runs_in :: "nat set \<Rightarrow> (nat \<times> nat) list \<Rightarrow> bool" where
  "runs_in R runs \<longleftrightarrow> (\<forall>(s, e) \<in> set runs. s \<le> e \<and> e \<in> R)"

definition shared_ok :: "nat \<Rightarrow> bytes \<Rightarrow> io_cache option \<Rightarrow> bool" where
  "shared_ok ps contents cache \<longleftrightarrow> (\<forall>c. shared_cache cache ps = Some c \<longrightarrow> pages_valid c contents)"

lemma shared_cache_Some: "shared_cache cache ps = Some c \<longleftrightarrow> cache = Some c \<and> page_size c = ps"
  by (auto simp: shared_cache_def split: option.splits)

lemma extend_runs_in:
  assumes "runs_in R runs" "i \<in> R"
  shows "runs_in R (extend_runs runs i)" and "covered (extend_runs runs i) = insert i (covered runs)"
proof -
  show "runs_in R (extend_runs runs i)"
    using assms by (cases runs rule: rev_cases) (auto simp: runs_in_def extend_runs_def)
  show "covered (extend_runs runs i) = insert i (covered runs)"
    using assms by (cases runs rule: rev_cases) (auto simp: runs_in_def extend_runs_def covered_def)
qed

lemma held_ok_put: "held_ok ps contents held \<Longrightarrow> held_ok ps contents (held(i \<mapsto> page_of ps contents i))"
  by (auto simp: held_ok_def)

lemma plan_runs_covers:
  assumes "shared_ok ps contents cache"
  shows "plan_runs cache ps is (held, runs) = (held', runs') \<Longrightarrow> held_ok ps contents held \<Longrightarrow> runs_in R runs \<Longrightarrow>
    set is \<subseteq> R \<Longrightarrow>
    held_ok ps contents held' \<and> dom held \<subseteq> dom held' \<and> covered runs \<subseteq> covered runs' \<and>
    set is \<subseteq> dom held' \<union> covered runs' \<and> runs_in R runs'"
proof (induction "is" arbitrary: held runs)
  case (Cons i "is")
  consider (held) "held i \<noteq> None"
    | (cached) c page where "held i = None" "shared_cache cache ps = Some c" "pages c i = Some page"
    | (missing) "held i = None" "plan_runs cache ps (i # is) (held, runs) = plan_runs cache ps is (held, extend_runs runs i)"
    by (cases "held i"; cases "shared_cache cache ps"; cases "pages (the (shared_cache cache ps)) i") auto
  then show ?case
  proof cases
    case held
    then show ?thesis using Cons.IH [of held runs] Cons.prems by auto
  next
    case cached
    then have "page = page_of ps contents i"
      using assms by (auto simp: shared_ok_def pages_valid_def shared_cache_Some)
    then have h: "held_ok ps contents (held(i \<mapsto> page))" using held_ok_put Cons.prems(2) by simp
    have "plan_runs cache ps is (held(i \<mapsto> page), runs) = (held', runs')" using Cons.prems(1) cached by simp
    note IH = Cons.IH [OF this h Cons.prems(3)]
    have "dom held \<subseteq> dom (held(i \<mapsto> page))" "i \<in> dom (held(i \<mapsto> page))" by auto
    then show ?thesis using IH Cons.prems(4) by (simp del: fun_upd_apply dom_fun_upd) blast
  next
    case missing
    then show ?thesis
      using Cons.IH [of held "extend_runs runs i"] Cons.prems extend_runs_in [of R runs i] by auto
  qed
qed simp

text \<open>A fetched run is cut into the pages of the file.\<close>

lemma store_pages_valid:
  assumes ps: "0 < ps"
  shows "i * ps + m \<le> length contents \<Longrightarrow> i * ps + m = length contents \<or> ps dvd m \<Longrightarrow>
    held_ok ps contents held \<Longrightarrow> shared_ok ps contents cache \<Longrightarrow>
    \<exists>held' cache'. store_pages ps i (slice (i * ps) m contents) (held, cache) = (held', cache') \<and>
      held_ok ps contents held' \<and> shared_ok ps contents cache' \<and>
      dom held \<union> {j. i \<le> j \<and> j * ps < i * ps + m} \<subseteq> dom held'"
proof (induction m arbitrary: i held cache rule: less_induct)
  case (less m)
  show ?case
  proof (cases "m = 0")
    case True
    have "\<not> j * ps < i * ps" if "i \<le> j" for j using that by (simp add: not_less)
    then show ?thesis using True less.prems by (auto simp: store_pages.simps)
  next
    case False
    let ?b = "slice (i * ps) m contents" and ?page = "page_of ps contents i"
    let ?cache = "case shared_cache cache ps of Some c \<Rightarrow> Some (put_page i ?page c) | None \<Rightarrow> cache"
    have page: "take ps ?b = ?page"
    proof (cases "ps \<le> m")
      case big: True
      then show ?thesis by (simp add: page_of_def slice_def min_absorb1)
    next
      case small: False
      then have "\<not> ps dvd m" using False by (auto dest: dvd_imp_le)
      then have "i * ps + m = length contents" using less.prems(2) by blast
      then show ?thesis using small by (auto simp: page_of_def slice_def)
    qed
    have rest: "drop ps ?b = slice (Suc i * ps) (m - ps) contents"
      by (simp add: slice_def drop_take add.commute)
    have nonempty: "?b \<noteq> []" using False less.prems(1) by (auto simp: slice_def)
    have c: "shared_ok ps contents ?cache"
      using less.prems(4) pages_valid_put [of _ contents i]
      by (auto simp: shared_ok_def shared_cache_Some split: option.splits)
    have m: "m - ps < m" using False ps by simp
    have h: "held_ok ps contents (held(i \<mapsto> ?page))" using less.prems(3) by (rule held_ok_put)
    have fit: "Suc i * ps + (m - ps) = length contents \<or> ps dvd m - ps" if "ps \<le> m"
      using less.prems(2) that by (auto simp: dvd_minus_self)
    obtain held' cache' where r: "store_pages ps (Suc i) (slice (Suc i * ps) (m - ps) contents) (held(i \<mapsto> ?page), ?cache) = (held', cache')"
      "held_ok ps contents held'" "shared_ok ps contents cache'"
      "dom (held(i \<mapsto> ?page)) \<union> {j. Suc i \<le> j \<and> j * ps < Suc i * ps + (m - ps)} \<subseteq> dom held'"
    proof (cases "ps \<le> m")
      case True
      then have "Suc i * ps + (m - ps) \<le> length contents" using less.prems(1) by simp
      then show ?thesis using less.IH [OF m _ fit h c] True that by blast
    next
      case False
      have none: "\<not> j * ps < Suc i * ps" if "Suc i \<le> j" for j using that by (metis mult_le_mono1 not_less)
      show ?thesis
        by (rule that [of "held(i \<mapsto> ?page)" ?cache]) (use False h c none in \<open>auto simp: store_pages.simps\<close>)
    qed
    have "store_pages ps i ?b (held, cache) = (held', cache')"
      unfolding store_pages.simps [of ps i ?b] page rest using r(1) nonempty ps by simp
    moreover have "j \<in> dom held'" if "i \<le> j" "j * ps < i * ps + m" for j
    proof (cases "j = i")
      case False
      then have "Suc i \<le> j" "j * ps < Suc i * ps + (m - ps)" using that by auto
      then show ?thesis using r(4) by blast
    qed (use r(4) in auto)
    ultimately show ?thesis using r by auto
  qed
qed

lemma store_runs_valid:
  assumes ps: "0 < ps"
  shows "(\<forall>(s, e) \<in> set runs. s \<le> e \<and> s * ps + m s e \<le> length contents \<and> e * ps < s * ps + m s e \<and>
      (s * ps + m s e = length contents \<or> ps dvd m s e)) \<Longrightarrow>
    held_ok ps contents held \<Longrightarrow> shared_ok ps contents cache \<Longrightarrow>
    \<exists>held' cache'. store_runs ps (map (\<lambda>(s, e). ((s, e), slice (s * ps) (m s e) contents)) runs) (held, cache) =
        (held', cache') \<and>
      held_ok ps contents held' \<and> shared_ok ps contents cache' \<and> dom held \<union> covered runs \<subseteq> dom held'"
proof (induction runs arbitrary: held cache)
  case (Cons run runs)
  obtain s e where run: "run = (s, e)" by fastforce
  then have b: "s * ps + m s e \<le> length contents" "e * ps < s * ps + m s e"
    "s * ps + m s e = length contents \<or> ps dvd m s e" using Cons.prems(1) by auto
  obtain held1 cache1 where one: "store_pages ps s (slice (s * ps) (m s e) contents) (held, cache) = (held1, cache1)"
    "held_ok ps contents held1" "shared_ok ps contents cache1"
    "dom held \<union> {j. s \<le> j \<and> j * ps < s * ps + m s e} \<subseteq> dom held1"
    using store_pages_valid [OF ps b(1,3) Cons.prems(2,3)] by blast
  have span: "{s..e} \<subseteq> {j. s \<le> j \<and> j * ps < s * ps + m s e}"
    using b(2) by (auto intro: le_less_trans [OF mult_le_mono1])
  obtain held2 cache2 where
    "store_runs ps (map (\<lambda>(s, e). ((s, e), slice (s * ps) (m s e) contents)) runs) (held1, cache1) = (held2, cache2)"
    "held_ok ps contents held2" "shared_ok ps contents cache2" "dom held1 \<union> covered runs \<subseteq> dom held2"
    using Cons.IH [OF _ one(2,3)] Cons.prems(1) by auto
  moreover have "covered (run # runs) = {s..e} \<union> covered runs" by (simp add: run covered_def)
  ultimately show ?case using one span by (intro exI [of _ held2] exI [of _ cache2]) (simp add: run, blast)
qed (simp add: covered_def)

text \<open>Nothing but the wanted pages is held, and the shared cache keeps its page size.\<close>

lemma plan_runs_bound:
  "plan_runs cache ps is (held, runs) = (held', runs') \<Longrightarrow> runs_in R runs \<Longrightarrow> set is \<subseteq> R \<Longrightarrow>
   dom held' \<union> covered runs' \<subseteq> dom held \<union> covered runs \<union> set is"
proof (induction "is" arbitrary: held runs)
  case (Cons i "is")
  consider (held) "held i \<noteq> None"
    | (cached) page where "held i = None" "plan_runs cache ps (i # is) (held, runs) = plan_runs cache ps is (held(i \<mapsto> page), runs)"
    | (missing) "held i = None" "plan_runs cache ps (i # is) (held, runs) = plan_runs cache ps is (held, extend_runs runs i)"
    by (cases "held i"; cases "shared_cache cache ps"; cases "pages (the (shared_cache cache ps)) i") auto
  then show ?case
  proof cases
    case held
    then show ?thesis using Cons.IH [of held runs] Cons.prems by auto
  next
    case cached
    have "plan_runs cache ps is (held(i \<mapsto> page), runs) = (held', runs')" using Cons.prems(1) cached(2) by (simp only:)
    moreover have "set is \<subseteq> R" using Cons.prems(3) by simp
    ultimately have "dom held' \<union> covered runs' \<subseteq> dom (held(i \<mapsto> page)) \<union> covered runs \<union> set is"
      using Cons.IH Cons.prems(2) by blast
    moreover have "dom (held(i \<mapsto> page)) \<union> covered runs \<union> set is = dom held \<union> covered runs \<union> set (i # is)" by auto
    ultimately show ?thesis by (simp only:)
  next
    case missing
    then show ?thesis
      using Cons.IH [of held "extend_runs runs i"] Cons.prems extend_runs_in [of R runs i] by auto
  qed
qed simp

lemma store_pages_bound:
  assumes ps: "0 < ps"
  shows "length b \<le> n * ps \<Longrightarrow> store_pages ps i b (held, cache) = (held', cache') \<Longrightarrow>
    dom held' \<subseteq> dom held \<union> {i..<i + n} \<and> map_option page_size cache' = map_option page_size cache"
proof (induction n arbitrary: i b held cache)
  case (Suc n)
  let ?cache = "case shared_cache cache ps of Some c \<Rightarrow> Some (put_page i (take ps b) c) | None \<Rightarrow> cache"
  have same: "map_option page_size ?cache = map_option page_size cache"
    by (auto simp: shared_cache_Some split: option.splits)
  show ?case
  proof (cases "b = []")
    case False
    then have "store_pages ps (Suc i) (drop ps b) (held(i \<mapsto> take ps b), ?cache) = (held', cache')"
      using Suc.prems(2) ps by (simp add: store_pages.simps [of ps i])
    then have IH: "dom held' \<subseteq> dom (held(i \<mapsto> take ps b)) \<union> {Suc i..<Suc i + n} \<and>
        map_option page_size cache' = map_option page_size ?cache"
      by (rule Suc.IH [rotated]) (use Suc.prems(1) in simp)
    have "dom (held(i \<mapsto> take ps b)) \<union> {Suc i..<Suc i + n} = dom held \<union> {i..<i + Suc n}" by auto
    then show ?thesis using IH same by (metis sup.idem)
  qed (use Suc.prems in \<open>auto simp: store_pages.simps\<close>)
qed (auto simp: store_pages.simps)

lemma store_runs_bound:
  assumes ps: "0 < ps"
  shows "(\<And>s e. (s, e) \<in> set runs \<Longrightarrow> s \<le> e \<and> length (blob s e) \<le> (e + 1 - s) * ps) \<Longrightarrow>
    store_runs ps (map (\<lambda>(s, e). ((s, e), blob s e)) runs) (held, cache) = (held', cache') \<Longrightarrow>
    dom held' \<subseteq> dom held \<union> covered runs \<and> map_option page_size cache' = map_option page_size cache"
proof (induction runs arbitrary: held cache)
  case (Cons run runs)
  obtain s e where run: "run = (s, e)" by fastforce
  obtain held1 cache1 where one: "store_pages ps s (blob s e) (held, cache) = (held1, cache1)" by fastforce
  have "s \<le> e" "length (blob s e) \<le> (e + 1 - s) * ps" using Cons.prems(1) [of s e] run by simp_all
  then have "dom held1 \<subseteq> dom held \<union> {s..e}" "map_option page_size cache1 = map_option page_size cache"
    using store_pages_bound [OF ps _ one, of "e + 1 - s"] by (auto simp: less_Suc_eq_le)
  moreover have "dom held' \<subseteq> dom held1 \<union> covered runs \<and> map_option page_size cache' = map_option page_size cache1"
    using Cons.prems one run by (intro Cons.IH) auto
  moreover have "covered (run # runs) = {s..e} \<union> covered runs" by (simp add: run covered_def)
  ultimately show ?case by (intro conjI) (blast, simp)
qed (simp add: covered_def)

lemma last_page_end:
  assumes "0 < ps" "ps \<le> u64_max" "length contents \<le> isize_max" "e * ps < length contents"
  shows "(e + 1) * ps \<le> u64_max"
proof (cases "e = 0")
  case False
  then have "ps \<le> e * ps" using assms(1) by simp
  then have "(e + 1) * ps \<le> 2 * length contents" using assms(4) unfolding distrib_right mult_1 by linarith
  then show ?thesis using assms(3) by (simp add: isize_max_def u64_max_def)
qed (use assms in simp)

text \<open>
  Every wanted page of the file is held after a fetch, with the bytes of the file, and the shared
  cache keeps to the bytes of the file too.
\<close>

lemma fetch_wanted:
  assumes src: "async_byte_source src contents" and ps: "0 < ps" "ps \<le> u64_max"
    and held: "held_ok ps contents held" and cache: "shared_ok ps contents cache"
    and wanted: "wanted \<subseteq> {i. i * ps < length contents}"
  shows "\<exists>held' cache'. fetch src ps (length contents) wanted (held, cache) = Ok (held', cache') \<and>
    held_ok ps contents held' \<and> shared_ok ps contents cache' \<and> dom held \<union> wanted \<subseteq> dom held' \<and>
    dom held' \<subseteq> dom held \<union> wanted \<and> map_option page_size cache' = map_option page_size cache"
proof -
  let ?R = "{i. i * ps < length contents}"
  have "i \<le> i * ps" for i using ps(1) by simp
  then have "?R \<subseteq> {..<length contents}" by (metis (mono_tags, lifting) le_less_trans lessThan_iff mem_Collect_eq subsetI)
  then have fin: "finite wanted" using finite_subset [OF subset_trans [OF wanted]] by simp
  obtain held1 runs where plan: "plan_runs cache ps (sorted_list_of_set wanted) (held, []) = (held1, runs)" by fastforce
  have p: "held_ok ps contents held1" "dom held \<subseteq> dom held1" "wanted \<subseteq> dom held1 \<union> covered runs" "runs_in ?R runs"
    using plan_runs_covers [OF cache plan held, of ?R] wanted fin by (auto simp: runs_in_def)
  have most: "dom held1 \<union> covered runs \<subseteq> dom held \<union> wanted"
    using plan_runs_bound [OF plan, of ?R] wanted fin by (auto simp: runs_in_def covered_def)
  show ?thesis
  proof (cases "runs = []")
    case True
    then show ?thesis using plan p cache most by (simp add: fetch_def covered_def)
  next
    case False
    let ?m = "\<lambda>s e. min ((e + 1) * ps) (length contents) - s * ps"
    have run: "s \<le> e" "e * ps < length contents" "s * ps \<le> e * ps" if "(s, e) \<in> set runs" for s e
      using p(4) that by (auto simp: runs_in_def)
    have small: "length contents \<le> isize_max" using src by (rule async_byte_source.async_small)
    have range: "run_range ps (length contents) r = Ok (case r of (s, e) \<Rightarrow> (s * ps, ?m s e))" if "r \<in> set runs" for r
    proof -
      obtain s e where r: "r = (s, e)" by fastforce
      have "(e + 1) * ps \<le> u64_max" using run [of s e] that r ps small by (intro last_page_end) auto
      moreover have "s * ps \<le> (e + 1) * ps" using run [of s e] that r by (intro mult_le_mono1) simp
      ultimately show ?thesis by (simp add: r run_range_def mul64_def)
    qed
    have ranges: "map_result (run_range ps (length contents)) runs = Ok (map (\<lambda>(s, e). (s * ps, ?m s e)) runs)"
      using range by (rule map_result_Ok) simp
    have bounds: "s * ps + ?m s e \<le> length contents" "e * ps < s * ps + ?m s e"
      "s * ps + ?m s e = length contents \<or> ps dvd ?m s e" if "(s, e) \<in> set runs" for s e
    proof -
      have "s * ps \<le> (e + 1) * ps" using run(1) [OF that] by (intro mult_le_mono1) simp
      moreover have "s * ps \<le> length contents" using run(2,3) [OF that] by linarith
      ultimately have eq: "s * ps + ?m s e = min ((e + 1) * ps) (length contents)" by simp
      show "s * ps + ?m s e \<le> length contents" "e * ps < s * ps + ?m s e"
        unfolding eq using run(2) [OF that] ps by simp_all
      show "s * ps + ?m s e = length contents \<or> ps dvd ?m s e"
        using eq by (cases "(e + 1) * ps \<le> length contents") (simp_all add: min_absorb1 min_absorb2 dvd_diff_nat)
    qed
    have fetched: "async_read_ranges src (map (\<lambda>(s, e). (s * ps, ?m s e)) runs) =
        Ok (map (\<lambda>(offset, len). slice offset len contents) (map (\<lambda>(s, e). (s * ps, ?m s e)) runs))"
    proof (rule async_byte_source.async_ranges [OF src])
      fix offset len
      assume "(offset, len) \<in> set (map (\<lambda>(s, e). (s * ps, ?m s e)) runs)"
      then obtain s e where m: "(s, e) \<in> set runs" "offset = s * ps" "len = ?m s e" by auto
      have "0 < ?m s e" using bounds(2) [OF m(1)] run(3) [OF m(1)] by linarith
      then show "0 < len \<and> offset + len \<le> length contents" using bounds(1) [OF m(1)] m(2,3) by simp
    qed
    have zip: "zip runs (map (\<lambda>(offset, len). slice offset len contents) (map (\<lambda>(s, e). (s * ps, ?m s e)) runs)) =
        map (\<lambda>(s, e). ((s, e), slice (s * ps) (?m s e) contents)) runs"
      by (induction runs) auto
    have bound: "s \<le> e \<and> length (slice (s * ps) (?m s e) contents) \<le> (e + 1 - s) * ps" if "(s, e) \<in> set runs" for s e
      using run(1) [OF that] by (auto simp: slice_def diff_mult_distrib)
    have "fetch src ps (length contents) wanted (held, cache) =
        Ok (store_runs ps (map (\<lambda>(s, e). ((s, e), slice (s * ps) (?m s e) contents)) runs) (held1, cache))"
      unfolding fetch_def fst_conv snd_conv plan prod.case if_not_P [OF False] ranges and_then.simps fetched zip by simp
    moreover obtain held' cache' where stored:
      "store_runs ps (map (\<lambda>(s, e). ((s, e), slice (s * ps) (?m s e) contents)) runs) (held1, cache) = (held', cache')"
      and valid: "held_ok ps contents held'" "shared_ok ps contents cache'" and least: "dom held1 \<union> covered runs \<subseteq> dom held'"
      using store_runs_valid [OF ps(1), of runs ?m contents held1 cache] bounds run p(1) cache by fastforce
    moreover have "dom held' \<subseteq> dom held1 \<union> covered runs \<and> map_option page_size cache' = map_option page_size cache"
      by (rule store_runs_bound [OF ps(1) bound stored])
    moreover have "dom held \<union> wanted \<subseteq> dom held'" using least p(2,3) by blast
    moreover have "dom held' \<subseteq> dom held \<union> wanted" using most calculation by blast
    ultimately show ?thesis by (intro exI [of _ held'] exI [of _ cache']) simp
  qed
qed

section \<open>The driver returns what the walk computes over the whole file\<close>

lemma round_cases:
  assumes src: "async_byte_source src contents" and ps: "0 < ps" "ps \<le> u64_max"
    and held: "held_ok ps contents held" and cache: "shared_ok ps contents cache"
    and wanted: "wanted \<subseteq> {i. i * ps < length contents}" and prev: "previous \<subseteq> wanted"
  obtains held' cache' outcome missing where
    "fetch src ps (length contents) wanted (held, cache) = Ok (held', cache')"
    "held_pages contents ps held'" "shared_ok ps contents cache'" "dom held \<union> wanted \<subseteq> dom held'"
    "run_replay (new_replay_source (length contents) ps held') w {} = (outcome, missing)"
    "missing \<subseteq> {i. i * ps < length contents}" "missing = previous \<Longrightarrow> missing = {}"
    "missing = {} \<Longrightarrow> outcome = run_exact contents w" "map_option page_size cache' = map_option page_size cache"
proof -
  obtain held' cache' where f: "fetch src ps (length contents) wanted (held, cache) = Ok (held', cache')"
    "held_ok ps contents held'" "shared_ok ps contents cache'" "dom held \<union> wanted \<subseteq> dom held'"
    "map_option page_size cache' = map_option page_size cache"
    using fetch_wanted [OF src ps held cache wanted] by blast
  have loc: "held_pages contents ps held'"
    using ps f(2) async_byte_source.async_small [OF src] by unfold_locales
  obtain outcome missing where run: "run_replay (new_replay_source (length contents) ps held') w {} = (outcome, missing)"
    by fastforce
  have m: "missing \<inter> dom held' = {}" "missing \<subseteq> {i. i * ps < length contents}"
    using held_pages.run_wanted [OF loc, of w "{}"] run by auto
  have "previous \<subseteq> dom held'" using f(4) prev by blast
  then have "missing = {}" if "missing = previous" using m(1) that by blast
  moreover have "outcome = run_exact contents w" if "missing = {}"
    using held_pages.run_finished [OF loc, of w] run that by simp
  ultimately show thesis by (rule that [OF f(1) loc f(3,4) run m(2) _ _ f(5)])
qed

lemma replay_rounds_sound:
  assumes src: "async_byte_source src contents" and ps: "0 < ps" "ps \<le> u64_max"
  shows "held_ok ps contents held \<Longrightarrow> shared_ok ps contents cache \<Longrightarrow>
    wanted \<subseteq> {i. i * ps < length contents} \<Longrightarrow> previous \<subseteq> wanted \<Longrightarrow>
    replay_rounds n src ps (length contents) w (held, cache) wanted previous = (r, cache') \<Longrightarrow>
    shared_ok ps contents cache' \<and> map_option page_size cache' = map_option page_size cache \<and>
    (\<forall>v. r = Ok v \<longrightarrow> run_exact contents w = Ok v)"
proof (induction n arbitrary: held cache wanted previous)
  case (Suc n)
  obtain held1 cache1 outcome missing where round:
    "fetch src ps (length contents) wanted (held, cache) = Ok (held1, cache1)"
    "held_pages contents ps held1" "shared_ok ps contents cache1"
    "run_replay (new_replay_source (length contents) ps held1) w {} = (outcome, missing)"
    "missing \<subseteq> {i. i * ps < length contents}" "missing = previous \<Longrightarrow> missing = {}"
    "missing = {} \<Longrightarrow> outcome = run_exact contents w" "map_option page_size cache1 = map_option page_size cache"
    using round_cases [OF src ps Suc.prems(1-4), of w] by metis
  have held1: "held_ok ps contents held1" using round(2) by (rule held_pages.valid)
  note IH = Suc.IH [OF held1 round(3) round(5) order_refl]
  show ?case
    using Suc.prems(5) round IH
    by (cases outcome) (auto split: if_splits)
qed auto

lemma replay_rounds_complete:
  assumes src: "async_byte_source src contents" and ps: "0 < ps" "ps \<le> u64_max"
    and walk: "propagates w" "run_exact contents w \<noteq> Error Incomplete"
  shows "held_ok ps contents held \<Longrightarrow> shared_ok ps contents cache \<Longrightarrow>
    wanted \<subseteq> {i. i * ps < length contents} \<Longrightarrow> previous \<subseteq> wanted \<Longrightarrow>
    remaining ps contents (dom held \<union> wanted) w < n \<Longrightarrow>
    fst (replay_rounds n src ps (length contents) w (held, cache) wanted previous) = run_exact contents w"
proof (induction n arbitrary: held cache wanted previous)
  case (Suc n)
  obtain held1 cache1 outcome missing where round:
    "fetch src ps (length contents) wanted (held, cache) = Ok (held1, cache1)"
    "held_pages contents ps held1" "shared_ok ps contents cache1" "dom held \<union> wanted \<subseteq> dom held1"
    "run_replay (new_replay_source (length contents) ps held1) w {} = (outcome, missing)"
    "missing \<subseteq> {i. i * ps < length contents}" "missing = previous \<Longrightarrow> missing = {}"
    "missing = {} \<Longrightarrow> outcome = run_exact contents w"
    using round_cases [OF src ps Suc.prems(1-4), of w] by metis
  have held1: "held_ok ps contents held1" using round(2) by (rule held_pages.valid)
  have le: "remaining ps contents (dom held1) w \<le> remaining ps contents (dom held \<union> wanted) w"
    using round(4) by (rule remaining_antimono)
  show ?case
  proof (cases "missing = {}")
    case True
    then have "outcome = run_exact contents w" by (rule round(8))
    then show ?thesis using round(1,5) walk(2) True by (cases "run_exact contents w") auto
  next
    case False
    then have new: "missing \<noteq> previous" using round(7) by blast
    have more: "0 < remaining ps contents (dom held1) w"
      using held_pages.run_complete [OF round(2), of w "{}"] round(5) False by (cases "remaining ps contents (dom held1) w") auto
    have "remaining ps contents (dom held1 \<union> missing) w < n"
      using held_pages.run_progress [OF round(2) more, of "{}"] round(5) le Suc.prems(5) by simp
    note IH = Suc.IH [OF held1 round(3) round(6) order_refl this]
    have "outcome = run_exact contents w \<or> passes_on outcome"
      using held_pages.run_propagates [OF round(2) walk(1), of "{}"] round(5) by simp
    then show ?thesis
      using round(1,5) IH False new by (cases outcome) (auto simp: passes_on_def)
  qed
qed simp

lemma first_window_in_file:
  fixes sz ps :: nat
  assumes "0 < ps" "0 < sz"
  shows "{0..<min window ((sz - 1) div ps + 1)} \<subseteq> {i. i * ps < sz}"
proof
  fix i
  assume "i \<in> {0..<min window ((sz - 1) div ps + 1)}"
  then have "i * ps \<le> (sz - 1) div ps * ps" by (intro mult_le_mono1) simp
  also have "\<dots> \<le> sz - 1" by (rule div_times_less_eq_dividend)
  finally show "i \<in> {i. i * ps < sz}" using assms(2) by simp
qed

text \<open>No page held is the state before the first round.\<close>

interpretation no_pages: held_pages "small_contents data" "max 1 ps" Map.empty for data ps
  by unfold_locales (simp_all add: held_ok_def small_contents_def)

lemma first_run_records: "snd (run_replay (new_replay_source (length (small_contents data)) (max 1 ps) Map.empty) w {}) = {} \<Longrightarrow>
    run_replay (new_replay_source (length (small_contents data)) (max 1 ps) Map.empty) w {} = (run_exact (small_contents data) w, {})"
  by (rule no_pages.run_finished)

lemma replay_returns:
  assumes "async_byte_source src contents" and "contents \<noteq> []" and "ps \<le> u64_max"
    and "shared_ok (max ps 1) contents cache"
    and "propagates w" and "run_exact contents w \<noteq> Error Incomplete"
    and "dependent_reads contents w < MAX_ROUNDS"
  shows "fst (replay src cache ps prefetch w) = run_exact contents w"
proof -
  let ?window = "{0..<min (max (div_ceil prefetch (max ps 1)) 1) ((length contents - 1) div max ps 1 + 1)}"
  have ps: "0 < max ps 1" "max ps 1 \<le> u64_max" using assms(3) by (auto simp: u64_max_def)
  have "remaining (max ps 1) contents (dom Map.empty \<union> ?window) w < MAX_ROUNDS"
    using remaining_le assms(7) by (rule le_less_trans)
  then have "fst (replay_rounds MAX_ROUNDS src (max ps 1) (length contents) w (Map.empty, cache) ?window {}) = run_exact contents w"
    using replay_rounds_complete [OF assms(1) ps assms(5,6) _ assms(4) first_window_in_file [OF ps(1)]] assms(2)
    by (simp add: held_ok_def)
  then show ?thesis using assms(2) by (simp add: replay_def Let_def async_byte_source.async_size [OF assms(1)])
qed

lemma replay_value:
  assumes "async_byte_source src contents" and "ps \<le> u64_max" and "shared_ok (max ps 1) contents cache"
    and "replay src cache ps prefetch w = (r, cache')"
  shows "shared_ok (max ps 1) contents cache' \<and> map_option page_size cache' = map_option page_size cache \<and>
    (\<forall>v. r = Ok v \<longrightarrow> run_exact contents w = Ok v)"
proof (cases "contents = []")
  case True
  then show ?thesis
    using assms(3,4) async_byte_source.async_size [OF assms(1)] by (auto simp: replay_def)
next
  case False
  have ps: "0 < max ps 1" "max ps 1 \<le> u64_max" using assms(2) by (auto simp: u64_max_def)
  show ?thesis
    by (rule replay_rounds_sound [OF assms(1) ps _ assms(3) first_window_in_file [OF ps(1)] empty_subsetI])
      (use assms(4) False async_byte_source.async_size [OF assms(1)] in \<open>auto simp: replay_def Let_def held_ok_def\<close>)
qed


text \<open>A walk that follows a pointer: the byte at 0 is the offset of the byte it returns.\<close>

definition follow_pointer :: "bytes walk" where
  "follow_pointer = ReadVec 0 1 (\<lambda>r. case r of
     Inl f \<Rightarrow> Return (Inl f)
   | Inr b \<Rightarrow> (case b of [] \<Rightarrow> Return panic | x # _ \<Rightarrow> ReadVec (unat x) 1 Return))"


text \<open>
  C21. Whatever the walk does with a missing read, a value the driver returns is the value the walk
  computes from the bytes of the file: an answer computed past a missing read is never accepted.
  The pages put into the shared cache are those of the file.
\<close>

theorem replay_sound:
  assumes "async_byte_source src contents" and "ps \<le> u64_max" and "shared_ok (max ps 1) contents cache"
    and "replay src cache ps prefetch w = (r, cache')"
  shows "shared_ok (max ps 1) contents cache' \<and> (\<forall>v. r = Ok v \<longrightarrow> run_exact contents w = Ok v)"
  using replay_value [OF assms] by simp

theorem replay_sound_witness:
  "shared_ok 2 [3, 0, 0, 9] (snd (replay (sync_as_async (memory_source [3, 0, 0, 9])) None 2 0 follow_pointer))"
proof -
  have src: "async_byte_source (sync_as_async (memory_source [3, 0, 0, 9])) [3, 0, 0, 9]"
    by (rule async_sync_source [OF byte_source_memory]) (simp add: isize_max_def)
  have none: "shared_ok (max 2 1) [3, 0, 0, 9] None" by (simp add: shared_ok_def shared_cache_def)
  obtain r cache' where "replay (sync_as_async (memory_source [3, 0, 0, 9])) None 2 0 follow_pointer = (r, cache')" by fastforce
  with replay_sound [OF src _ none this] show ?thesis by (simp add: u64_max_def flip: numeral_2_eq_2)
qed

end
