(* ===== verification/Nc_Attributes.thy ===== *)
theory Nc_Attributes
  imports Object_Tree Element_Types Classic_Read
begin

text \<open>
  Attribute values of the netCDF layer (\<^verbatim>\<open>crates/oxcdf/src/netcdf.rs\<close>): the decoded value with its
  type, the decoding of the attributes of both containers, the bookkeeping attributes that are
  hidden, and the fill value of a variable.  Integers are HOL integers in the range of their
  variant, floats are bit patterns as in \<open>Ieee_Float\<close>.
\<close>

section \<open>Values\<close>

text \<open>\<open>SInt\<close> and \<open>SInts\<close> are the variants \<open>Int\<close> and \<open>Ints\<close>.\<close>

datatype attribute_value =
    Uchar int | Uchars "int list"
  | Schar int | Schars "int list"
  | Ushort int | Ushorts "int list"
  | Short int | Shorts "int list"
  | Uint int | Uints "int list"
  | SInt int | SInts "int list"
  | Ulonglong int | Ulonglongs "int list"
  | Longlong int | Longlongs "int list"
  | Float nat | Floats "nat list"
  | Double nat | Doubles "nat list"
  | Str rstring | Strs "rstring list"
  | Raw bytes

fun as_text :: "attribute_value \<Rightarrow> rstring option" where
  "as_text (Str s) = Some s"
| "as_text (Strs v) = (case v of [] \<Rightarrow> None | s # _ \<Rightarrow> Some s)"
| "as_text _ = None"

fun as_texts :: "attribute_value \<Rightarrow> rstring list option" where
  "as_texts (Str s) = Some [s]"
| "as_texts (Strs v) = Some v"
| "as_texts _ = None"

fun as_f64s :: "attribute_value \<Rightarrow> nat list option" where
  "as_f64s (Uchar v) = Some [float_of_int f64_format v]"
| "as_f64s (Uchars v) = Some (map (float_of_int f64_format) v)"
| "as_f64s (Schar v) = Some [float_of_int f64_format v]"
| "as_f64s (Schars v) = Some (map (float_of_int f64_format) v)"
| "as_f64s (Ushort v) = Some [float_of_int f64_format v]"
| "as_f64s (Ushorts v) = Some (map (float_of_int f64_format) v)"
| "as_f64s (Short v) = Some [float_of_int f64_format v]"
| "as_f64s (Shorts v) = Some (map (float_of_int f64_format) v)"
| "as_f64s (Uint v) = Some [float_of_int f64_format v]"
| "as_f64s (Uints v) = Some (map (float_of_int f64_format) v)"
| "as_f64s (SInt v) = Some [float_of_int f64_format v]"
| "as_f64s (SInts v) = Some (map (float_of_int f64_format) v)"
| "as_f64s (Ulonglong v) = Some [float_of_int f64_format v]"
| "as_f64s (Ulonglongs v) = Some (map (float_of_int f64_format) v)"
| "as_f64s (Longlong v) = Some [float_of_int f64_format v]"
| "as_f64s (Longlongs v) = Some (map (float_of_int f64_format) v)"
| "as_f64s (Float v) = Some [convert_float f32_format f64_format v]"
| "as_f64s (Floats v) = Some (map (convert_float f32_format f64_format) v)"
| "as_f64s (Double v) = Some [v]"
| "as_f64s (Doubles v) = Some v"
| "as_f64s (Str _) = None"
| "as_f64s (Strs _) = None"
| "as_f64s (Raw _) = None"

definition as_f64 :: "attribute_value \<Rightarrow> nat option" where
  "as_f64 a = Option.bind (as_f64s a) (\<lambda>v. case v of [] \<Rightarrow> None | x # _ \<Rightarrow> Some x)"

fun vartype :: "attribute_value \<Rightarrow> dtype" where
  "vartype (Uchar _) = DUint 1" | "vartype (Uchars _) = DUint 1"
| "vartype (Schar _) = DInt 1" | "vartype (Schars _) = DInt 1"
| "vartype (Ushort _) = DUint 2" | "vartype (Ushorts _) = DUint 2"
| "vartype (Short _) = DInt 2" | "vartype (Shorts _) = DInt 2"
| "vartype (Uint _) = DUint 4" | "vartype (Uints _) = DUint 4"
| "vartype (SInt _) = DInt 4" | "vartype (SInts _) = DInt 4"
| "vartype (Ulonglong _) = DUint 8" | "vartype (Ulonglongs _) = DUint 8"
| "vartype (Longlong _) = DInt 8" | "vartype (Longlongs _) = DInt 8"
| "vartype (Float _) = DFloat 4" | "vartype (Floats _) = DFloat 4"
| "vartype (Double _) = DFloat 8" | "vartype (Doubles _) = DFloat 8"
| "vartype (Str _) = DString" | "vartype (Strs _) = DString"
| "vartype (Raw _) = DOther"

fun value_len :: "attribute_value \<Rightarrow> nat" where
  "value_len (Uchars v) = length v"
| "value_len (Schars v) = length v"
| "value_len (Ushorts v) = length v"
| "value_len (Shorts v) = length v"
| "value_len (Uints v) = length v"
| "value_len (SInts v) = length v"
| "value_len (Ulonglongs v) = length v"
| "value_len (Longlongs v) = length v"
| "value_len (Floats v) = length v"
| "value_len (Doubles v) = length v"
| "value_len (Strs v) = length v"
| "value_len (Raw v) = length v"
| "value_len _ = 1"

definition value_is_empty :: "attribute_value \<Rightarrow> bool" where
  "value_is_empty a \<longleftrightarrow> value_len a = 0"

record nc_attribute =
  na_name :: rstring
  na_value :: attribute_value

section \<open>Elements of an attribute\<close>

definition needs_swap :: "attribute \<Rightarrow> bool" where
  "needs_swap a \<longleftrightarrow> byte_order (attr_type a) = Some Big"

definition elements_of :: "attribute \<Rightarrow> nat" where
  "elements_of a =
     (let sz = dt_size (attr_type a) in
      if sz = 0 then 0 else min (attribute_element_count a) (length (attr_data a) div sz))"

definition attr_element :: "attribute \<Rightarrow> nat \<Rightarrow> bytes option" where
  "attr_element a i =
     (let sz = dt_size (attr_type a) in
      if sz = 0 \<or> (i + 1) * sz > length (attr_data a) then None
      else let b = slice (i * sz) sz (attr_data a) in Some (if needs_swap a then rev b else b))"

definition text_end :: "string_padding \<Rightarrow> bytes \<Rightarrow> nat" where
  "text_end pad raw =
     (case pad of
        NullTerminate \<Rightarrow> position_or (\<lambda>b. b = 0) raw (length raw)
      | NullPad \<Rightarrow> position_or (\<lambda>b. b = 0) raw (length raw)
      | SpacePad \<Rightarrow>
          let z = position_or (\<lambda>b. b = 0) raw (length raw) in
          (case rposition (\<lambda>b. b \<noteq> 32) (take z raw) of None \<Rightarrow> 0 | Some p \<Rightarrow> p + 1))"

fun text_loop :: "string_padding \<Rightarrow> nat \<Rightarrow> bytes \<Rightarrow> nat list \<Rightarrow> rstring list" where
  "text_loop pad sz data [] = []"
| "text_loop pad sz data (i # is) =
     (let fin = min (i * sz + sz) (length data) in
      if i * sz \<ge> fin then []
      else let raw = slice (i * sz) (fin - i * sz) data
           in from_utf8_lossy (take (text_end pad raw) raw) # text_loop pad sz data is)"

definition decode_all_text :: "attribute \<Rightarrow> rstring list option" where
  "decode_all_text a =
     (case dt_class (attr_type a) of
        String pad _ \<Rightarrow>
          let sz = dt_size (attr_type a) in
          if sz = 0 then Some [[]] else Some (text_loop pad sz (attr_data a) [0..<max (elements_of a) 1])
      | _ \<Rightarrow> None)"

definition decode_text :: "attribute \<Rightarrow> rstring option" where
  "decode_text a = Option.bind (decode_all_text a) (\<lambda>v. case v of [] \<Rightarrow> None | s # _ \<Rightarrow> Some s)"

definition required_element :: "attribute \<Rightarrow> nat \<Rightarrow> bytes result" where
  "required_element a i =
     (case attr_element a i of None \<Rightarrow> Error (Malformed ''attribute value is shorter than its datatype'') | Some b \<Rightarrow> Ok b)"

definition decode_floats :: "attribute \<Rightarrow> nat list result" where
  "decode_floats a =
     (let sz = dt_size (attr_type a) in
      map_result (\<lambda>i. and_then (required_element a i) (\<lambda>b.
          if sz = 4 then Ok (convert_float f32_format f64_format (le_nat b))
          else if sz = 8 then Ok (le_nat b)
          else Error (Unsupported ''byte float attribute''))) [0..<elements_of a])"

definition buffer_int :: "bool \<Rightarrow> nat \<Rightarrow> bytes \<Rightarrow> 64 word" where
  "buffer_int sg sz b =
     (let raw = (word_of_nat (le_nat (take sz b @ replicate (8 - sz) 0)) :: 64 word); sh = 64 - sz * 8 in
      if sg then signed_drop_bit sh (push_bit sh raw) else raw)"

definition decode_ints :: "attribute \<Rightarrow> 64 word list result" where
  "decode_ints a =
     (case dt_class (attr_type a) of
        FixedPoint _ sg _ _ \<Rightarrow>
          let sz = dt_size (attr_type a) in
          if sz = 0 \<or> sz > 8 then Error (Unsupported ''byte integer attribute'')
          else map_result (\<lambda>i. and_then (required_element a i) (\<lambda>b. Ok (buffer_int sg sz b))) [0..<elements_of a]
      | _ \<Rightarrow> Error (Unsupported ''attribute is not an integer''))"

section \<open>Decoding\<close>

definition fold_values :: "('a \<Rightarrow> attribute_value) \<Rightarrow> ('a list \<Rightarrow> attribute_value) \<Rightarrow> 'a list \<Rightarrow> attribute_value" where
  "fold_values single plural vs = (if length vs = 1 then single (last vs) else plural vs)"

text \<open>\<open>result.ok()?\<close>: an error becomes \<open>None\<close>, a panic stays one.\<close>

fun ok_then :: "'a result \<Rightarrow> ('a \<Rightarrow> 'b option) \<Rightarrow> 'b option result" where
  "ok_then (Inr v) k = Ok (k v)"
| "ok_then (Inl (Err e)) k = Ok None"
| "ok_then (Inl Panic) k = panic"

definition cast_ints :: "rust_type \<Rightarrow> 64 word list \<Rightarrow> int list" where
  "cast_ints t ws = map (\<lambda>w. wrap_to t (sint w)) ws"

definition int_value :: "bool \<Rightarrow> nat \<Rightarrow> 64 word list \<Rightarrow> attribute_value option" where
  "int_value sg sz ws =
     (if sg \<and> sz = 1 then Some (fold_values Schar Schars (cast_ints I8 ws))
      else if sg \<and> sz = 2 then Some (fold_values Short Shorts (cast_ints I16 ws))
      else if sg \<and> sz = 4 then Some (fold_values SInt SInts (cast_ints I32 ws))
      else if sg \<and> sz = 8 then Some (fold_values Longlong Longlongs (cast_ints I64 ws))
      else if \<not> sg \<and> sz = 1 then Some (fold_values Uchar Uchars (cast_ints U8 ws))
      else if \<not> sg \<and> sz = 2 then Some (fold_values Ushort Ushorts (cast_ints U16 ws))
      else if \<not> sg \<and> sz = 4 then Some (fold_values Uint Uints (cast_ints U32 ws))
      else if \<not> sg \<and> sz = 8 then Some (fold_values Ulonglong Ulonglongs (cast_ints U64 ws))
      else None)"

definition float_value :: "nat \<Rightarrow> nat list \<Rightarrow> attribute_value option" where
  "float_value sz vs =
     (if sz = 4 then Some (fold_values Float Floats (map (convert_float f64_format f32_format) vs))
      else if sz = 8 then Some (fold_values Double Doubles vs)
      else None)"

definition decode_typed :: "ctx option \<Rightarrow> attribute \<Rightarrow> attribute_value option result" where
  "decode_typed hdf5 a =
     (let sz = dt_size (attr_type a) in
      case dt_class (attr_type a) of
        String _ _ \<Rightarrow> Ok (map_option (\<lambda>v. Str (concat v)) (decode_all_text a))
      | VariableLength kind _ _ _ \<Rightarrow>
          (case kind of
             VSequence \<Rightarrow> Ok None
           | VString \<Rightarrow>
               (case hdf5 of
                  None \<Rightarrow> Ok None
                | Some ctx \<Rightarrow>
                    ok_then (resolve_vlen_strings_of ctx
                        \<lparr>raw_bytes = attr_data a, raw_element_size = sz, raw_shape = [attribute_element_count a]\<rparr>)
                      (\<lambda>text. Some (Strs text))))
      | FloatingPoint _ _ _ _ _ _ _ _ _ \<Rightarrow> ok_then (decode_floats a) (float_value sz)
      | FixedPoint _ sg _ _ \<Rightarrow> ok_then (decode_ints a) (int_value sg sz)
      | _ \<Rightarrow> Ok None)"

definition decode_value :: "ctx option \<Rightarrow> attribute \<Rightarrow> attribute_value result" where
  "decode_value hdf5 a =
     and_then (decode_typed hdf5 a) (\<lambda>v. Ok (case v of None \<Rightarrow> Raw (attr_data a) | Some v \<Rightarrow> v))"

definition RESERVED_ATTRIBUTES :: "rstring list" where
  "RESERVED_ATTRIBUTES =
     map ascii [''CLASS'', ''NAME'', ''DIMENSION_LIST'', ''REFERENCE_LIST'', ''_Netcdf4Dimid'', ''_Netcdf4Coordinates'',
       ''_nc3_strict'', ''_NCProperties'']"

definition visible_attributes :: "ctx \<Rightarrow> attribute list \<Rightarrow> nc_attribute list result" where
  "visible_attributes ctx as =
     map_result (\<lambda>a. and_then (decode_value (Some ctx) a) (\<lambda>v. Ok \<lparr>na_name = attr_name a, na_value = v\<rparr>))
       (filter (\<lambda>a. attr_name a \<notin> set RESERVED_ATTRIBUTES) as)"

definition classic_as_attribute :: "classic_attribute \<Rightarrow> attribute" where
  "classic_as_attribute a =
     \<lparr>attr_name = ca_name a, attr_type = to_datatype (ca_type a),
      attr_space = \<lparr>ds_kind = Simple, dims = [length (ca_raw a) div max (nc_size (ca_type a)) 1], max_dims = None\<rparr>,
      attr_data = ca_raw a\<rparr>"

definition classic_attributes :: "classic_attribute list \<Rightarrow> nc_attribute list result" where
  "classic_attributes as =
     map_result (\<lambda>a. and_then (decode_value None (classic_as_attribute a)) (\<lambda>v. Ok \<lparr>na_name = ca_name a, na_value = v\<rparr>)) as"

definition nc_find_attribute :: "nc_attribute list \<Rightarrow> rstring \<Rightarrow> nc_attribute option" where
  "nc_find_attribute as nm = find (\<lambda>a. na_name a = nm) as"

section \<open>Fill values\<close>

definition first_of :: "('a \<Rightarrow> element_value) \<Rightarrow> 'a list \<Rightarrow> element_value option" where
  "first_of f v = (case v of [] \<Rightarrow> None | x # _ \<Rightarrow> Some (f x))"

definition from_signed :: "rust_type \<Rightarrow> int \<Rightarrow> element_value" where
  "from_signed t v = element_from_i64 t (word_of_int v)"

definition from_unsigned :: "rust_type \<Rightarrow> int \<Rightarrow> element_value" where
  "from_unsigned t v = element_from_u64 t (nat v)"

definition from_f32 :: "rust_type \<Rightarrow> nat \<Rightarrow> element_value" where
  "from_f32 t v = element_from_f64 t (convert_float f32_format f64_format v)"

fun scalar_from_attribute :: "rust_type \<Rightarrow> attribute_value \<Rightarrow> element_value option" where
  "scalar_from_attribute t (Uchar v) = Some (from_unsigned t v)"
| "scalar_from_attribute t (Uchars v) = first_of (from_unsigned t) v"
| "scalar_from_attribute t (Schar v) = Some (from_signed t v)"
| "scalar_from_attribute t (Schars v) = first_of (from_signed t) v"
| "scalar_from_attribute t (Ushort v) = Some (from_unsigned t v)"
| "scalar_from_attribute t (Ushorts v) = first_of (from_unsigned t) v"
| "scalar_from_attribute t (Short v) = Some (from_signed t v)"
| "scalar_from_attribute t (Shorts v) = first_of (from_signed t) v"
| "scalar_from_attribute t (Uint v) = Some (from_unsigned t v)"
| "scalar_from_attribute t (Uints v) = first_of (from_unsigned t) v"
| "scalar_from_attribute t (SInt v) = Some (from_signed t v)"
| "scalar_from_attribute t (SInts v) = first_of (from_signed t) v"
| "scalar_from_attribute t (Ulonglong v) = Some (from_unsigned t v)"
| "scalar_from_attribute t (Ulonglongs v) = first_of (from_unsigned t) v"
| "scalar_from_attribute t (Longlong v) = Some (from_signed t v)"
| "scalar_from_attribute t (Longlongs v) = first_of (from_signed t) v"
| "scalar_from_attribute t (Float v) = Some (from_f32 t v)"
| "scalar_from_attribute t (Floats v) = first_of (from_f32 t) v"
| "scalar_from_attribute t (Double v) = Some (element_from_f64 t v)"
| "scalar_from_attribute t (Doubles v) = first_of (element_from_f64 t) v"
| "scalar_from_attribute t (Str _) = None"
| "scalar_from_attribute t (Strs _) = None"
| "scalar_from_attribute t (Raw _) = None"

definition fill_value_of :: "rust_type \<Rightarrow> nc_attribute option \<Rightarrow> element_value option result" where
  "fill_value_of t a = Ok (Option.bind a (\<lambda>a. scalar_from_attribute t (na_value a)))"

section \<open>Integers are decoded with their type and value\<close>

definition stored_int :: "endianness \<Rightarrow> rust_type \<Rightarrow> int \<Rightarrow> bytes" where
  "stored_int ord t v =
     (let b = to_le (rust_size t) (nat (v mod 2 ^ (8 * rust_size t))) in if ord = Big then rev b else b)"

fun int_attribute :: "rust_type \<Rightarrow> int list \<Rightarrow> attribute_value" where
  "int_attribute I8 vs = fold_values Schar Schars vs"
| "int_attribute I16 vs = fold_values Short Shorts vs"
| "int_attribute I32 vs = fold_values SInt SInts vs"
| "int_attribute I64 vs = fold_values Longlong Longlongs vs"
| "int_attribute U8 vs = fold_values Uchar Uchars vs"
| "int_attribute U16 vs = fold_values Ushort Ushorts vs"
| "int_attribute U32 vs = fold_values Uint Uints vs"
| "int_attribute _ vs = fold_values Ulonglong Ulonglongs vs"

lemma power256: "(256 :: nat) ^ w = 2 ^ (8 * w)"
  using power_mult [of "2 :: nat" 8 w] by simp

lemma slice_equal_parts:
  "\<forall>x \<in> set xs. length x = n \<Longrightarrow> i < length xs \<Longrightarrow> slice (i * n) n (concat xs @ pad) = xs ! i"
proof (induction xs arbitrary: i)
  case (Cons x xs)
  show ?case
  proof (cases i)
    case (Suc k)
    then have "slice (k * n) n (concat xs @ pad) = xs ! k" using Cons by simp
    then show ?thesis using Cons.prems(1) Suc by (simp add: slice_def add.commute)
  qed (use Cons.prems(1) in \<open>simp add: slice_def\<close>)
qed simp

lemma length_stored_int [simp]: "length (stored_int ord t v) = rust_size t"
  by (simp add: stored_int_def Let_def)

lemma buffer_int_value:
  assumes "length b = rust_size t" and "rust_float t = None"
  shows "wrap_to t (sint (buffer_int (rust_signed t) (rust_size t) b)) = wrap_to t (int (le_nat b))"
proof -
  obtain m where m: "length b = Suc m" "m < 8" using rust_size_bounds [of t] assms(1) by (cases "rust_size t") auto
  show ?thesis
  proof (cases "rust_signed t")
    case True
    have "sint (buffer_int True (rust_size t) b) = signed_value b"
      using sint_read_integer [OF m] assms(1) by (simp add: buffer_int_def Let_def le_nat_zeros signed_value_def)
    then show ?thesis using True wrap_signed_value [OF assms(1)] by simp
  next
    case False
    have b: "le_nat b < 2 ^ 64"
    proof -
      have "le_nat b < 256 ^ length b" by (rule le_nat_bound)
      also have "\<dots> \<le> (256 :: nat) ^ 8" using m by (intro power_increasing) auto
      finally show ?thesis by simp
    qed
    have w: "buffer_int (rust_signed t) (rust_size t) b = word_of_nat (le_nat b)"
      using False assms(1) by (simp add: buffer_int_def Let_def le_nat_zeros)
    have dvd: "(2 :: int) ^ (8 * rust_size t) dvd 2 ^ 64"
      by (rule le_imp_power_dvd) (use rust_size_bounds [of t] in simp)
    have "uint (word_of_nat (le_nat b) :: 64 word) = int (le_nat b)"
      using b by (simp add: unsigned_of_nat take_bit_nat_eq_self)
    moreover have "uint (word_of_nat (le_nat b) :: 64 word) = sint (word_of_nat (le_nat b) :: 64 word) mod 2 ^ 64"
      by (simp add: uint_sint take_bit_eq_mod del: signed_of_nat unsigned_of_nat)
    ultimately have "sint (word_of_nat (le_nat b) :: 64 word) mod 2 ^ 64 = int (le_nat b) mod 2 ^ 64" by simp
    then have "sint (word_of_nat (le_nat b) :: 64 word) mod 2 ^ (8 * rust_size t) = int (le_nat b) mod 2 ^ (8 * rust_size t)"
      by (metis mod_mod_cancel [OF dvd])
    then show ?thesis unfolding w by (rule wrap_cong)
  qed
qed

lemma le_nat_stored_int:
  "le_nat (if ord = Big then rev (stored_int ord t v) else stored_int ord t v) = nat (v mod 2 ^ (8 * rust_size t))"
  by (auto simp: stored_int_def Let_def power256 nat_mod_distrib)

lemma attr_element_stored:
  assumes t: "dt_size (attr_type a) = rust_size t" and ord: "byte_order (attr_type a) = Some ord"
    and data: "attr_data a = concat (map (stored_int ord t) vs) @ pad" and i: "i < length vs"
  shows "\<exists>b. attr_element a i = Some b \<and> length b = rust_size t \<and> le_nat b = nat (vs ! i mod 2 ^ (8 * rust_size t))"
proof -
  let ?n = "rust_size t"
  have len: "length (concat (map (stored_int ord t) vs)) = length vs * ?n"
    by (simp add: length_concat sum_list_triv comp_def)
  have "(i + 1) * ?n \<le> length vs * ?n" using i by (intro mult_le_mono1) simp
  then have fit: "(i + 1) * ?n \<le> length (attr_data a)" unfolding data length_append len by simp
  have "slice (i * ?n) ?n (attr_data a) = stored_int ord t (vs ! i)"
    unfolding data by (subst slice_equal_parts) (use i in auto)
  then show ?thesis
    using fit t ord le_nat_stored_int [of ord t "vs ! i"] rust_size_bounds(1) [of t]
    by (cases ord) (simp_all add: attr_element_def Let_def needs_swap_def not_less)
qed

lemma decode_ints_stored:
  assumes cls: "dt_class (attr_type a) = FixedPoint ord (rust_signed t) x y" and sz: "dt_size (attr_type a) = rust_size t"
    and int: "rust_float t = None" and range: "\<forall>v \<in> set vs. type_min t \<le> v \<and> v \<le> type_max t"
    and space: "attribute_element_count a = length vs"
    and data: "attr_data a = concat (map (stored_int ord t) vs) @ pad"
  shows "\<exists>ws. decode_ints a = Ok ws \<and> cast_ints t ws = vs"
proof -
  have ord: "byte_order (attr_type a) = Some ord" using cls by (simp add: byte_order_def)
  have n: "elements_of a = length vs"
  proof -
    have "length (attr_data a) = length vs * rust_size t + length pad"
      unfolding data by (simp add: length_concat sum_list_triv comp_def)
    then have "length vs \<le> length (attr_data a) div rust_size t"
      using rust_size_bounds(1) [of t] by (simp add: div_plus_div_distrib_dvd_left)
    then show ?thesis using sz space rust_size_bounds(1) [of t] by (simp add: elements_of_def Let_def)
  qed
  define el where "el i = the (attr_element a i)" for i
  have el: "attr_element a i = Some (el i)" "length (el i) = rust_size t"
    "le_nat (el i) = nat (vs ! i mod 2 ^ (8 * rust_size t))" if "i < length vs" for i
    using attr_element_stored [OF sz ord data that] by (auto simp: el_def)
  let ?w = "\<lambda>i. buffer_int (rust_signed t) (rust_size t) (el i)"
  have "decode_ints a = Ok (map ?w [0..<length vs])"
    using cls sz rust_size_bounds [of t] el(1)
    unfolding decode_ints_def Let_def n by (auto intro!: map_result_Ok simp: required_element_def simp del: rust_signed.simps)
  moreover have "cast_ints t (map ?w [0..<length vs]) = vs"
  proof (rule nth_equalityI)
    fix i assume "i < length (cast_ints t (map ?w [0..<length vs]))"
    then have i: "i < length vs" by (simp add: cast_ints_def)
    have "wrap_to t (sint (?w i)) = wrap_to t (int (le_nat (el i)))" by (rule buffer_int_value [OF el(2) [OF i] int])
    also have "\<dots> = wrap_to t (vs ! i)" unfolding el(3) [OF i] by (rule wrap_cong) simp
    also have "\<dots> = vs ! i" using range i by (intro wrap_in_range) auto
    finally show "cast_ints t (map ?w [0..<length vs]) ! i = vs ! i" using i by (simp add: cast_ints_def)
  qed (simp add: cast_ints_def)
  ultimately show ?thesis by blast
qed

lemma int_value_types:
  "rust_float t = None \<Longrightarrow> int_value (rust_signed t) (rust_size t) ws = Some (int_attribute t (cast_ints t ws))"
  by (cases t) (simp_all add: int_value_def)

text \<open>
  C8. Integer attributes are read back as written: the value of an attribute that stores the integers
  \<open>vs\<close> of one of the eight integer types, in either byte order and with any padding behind them, is the
  variant of that type, singular for one value and plural otherwise, with exactly these integers.
\<close>

theorem integer_attribute_round_trip:
  assumes "dt_class (attr_type a) = FixedPoint ord (rust_signed t) x y" and "dt_size (attr_type a) = rust_size t"
    and "rust_float t = None" and "\<forall>v \<in> set vs. type_min t \<le> v \<and> v \<le> type_max t"
    and "attribute_element_count a = length vs"
    and "attr_data a = concat (map (stored_int ord t) vs) @ pad"
  shows "decode_value hdf5 a = Ok (int_attribute t vs)"
proof -
  obtain ws where "decode_ints a = Ok ws" "cast_ints t ws = vs" using decode_ints_stored [OF assms] by blast
  then show ?thesis
    using assms(1-3) int_value_types [of t ws] by (simp add: decode_value_def decode_typed_def Let_def)
qed

definition level_attribute :: attribute where
  "level_attribute = \<lparr>attr_name = ascii ''level'', attr_type = Datatype 1 2 (FixedPoint Big True 0 16),
     attr_space = \<lparr>ds_kind = Scalar, dims = [], max_dims = None\<rparr>, attr_data = [0xFF, 0xFE, 0, 0, 0, 0, 0, 0]\<rparr>"

theorem integer_attribute_round_trip_witness:
  "decode_value None level_attribute = Ok (Short (-2))"
proof -
  have "decode_value None level_attribute = Ok (int_attribute I16 [-2])"
    by (rule integer_attribute_round_trip [where ord = Big and x = 0 and y = 16 and pad = "[0, 0, 0, 0, 0, 0]"])
      (simp_all add: level_attribute_def attribute_element_count_def dataspace_element_count_def stored_int_def
        type_min_def type_max_def to_le_numeral)
  then show ?thesis by (simp add: fold_values_def)
qed

section \<open>The two decoders of a classic attribute agree\<close>

text \<open>A second widening changes nothing, NaN payloads included.\<close>

lemma quiet_payload:
  assumes "x < 2 ^ 22"
  shows "convert_float f64_format f32_format (with_sign f64_format neg (infinity_bits f64_format + 2 ^ 51 + x * 2 ^ 29)) =
      with_sign f32_format neg (infinity_bits f32_format + 2 ^ 22 + x)"
    and "convert_float f32_format f64_format (with_sign f32_format neg (infinity_bits f32_format + 2 ^ 22 + x)) =
      with_sign f64_format neg (infinity_bits f64_format + 2 ^ 51 + x * 2 ^ 29)"
proof -
  have inf: "infinity_bits f64_format = 2047 * 2 ^ 52" "infinity_bits f32_format = 255 * 2 ^ 23"
    by (simp_all add: infinity_bits_def f64_format_def f32_format_def)
  have sb: "sign_bit f64_format = 2 ^ 63" "sign_bit f32_format = 2 ^ 31"
    by (simp_all add: sign_bit_def f64_format_def f32_format_def)
  have m64: "infinity_bits f64_format + 2 ^ 51 + x * 2 ^ 29 < sign_bit f64_format"
    and m32: "infinity_bits f32_format + 2 ^ 22 + x < sign_bit f32_format"
    using assms by (simp_all add: inf sb)
  have less_m64: "infinity_bits f64_format < infinity_bits f64_format + 2 ^ 51 + x * 2 ^ 29"
    and less_m32: "infinity_bits f32_format < infinity_bits f32_format + 2 ^ 22 + x" by simp_all
  have p64: "(infinity_bits f64_format + 2 ^ 51 + x * 2 ^ 29) mod 2 ^ 52 = 2 ^ 51 + x * 2 ^ 29"
    and p32: "(infinity_bits f32_format + 2 ^ 22 + x) mod 2 ^ 23 = 2 ^ 22 + x"
  proof -
    have part: "(c * m + y) mod m = y" if "y < m" for c m y :: nat using that by (simp only: mod_mult_self3 mod_less)
    show "(infinity_bits f64_format + 2 ^ 51 + x * 2 ^ 29) mod 2 ^ 52 = 2 ^ 51 + x * 2 ^ 29"
      unfolding inf add.assoc by (rule part) (use assms in simp)
    show "(infinity_bits f32_format + 2 ^ 22 + x) mod 2 ^ 23 = 2 ^ 22 + x"
      unfolding inf add.assoc by (rule part) (use assms in simp)
  qed
  have down: "(2 ^ 51 + x * 2 ^ 29) div 2 ^ 29 mod 2 ^ 22 = x" using assms by simp
  have up: "(2 ^ 22 + x) * 2 ^ 29 mod 2 ^ 51 = x * 2 ^ 29" using assms by simp
  have nan: "convert_float src dst b = with_sign dst n (quiet_nan src dst m)"
    if "float_neg src b = n" "magnitude src b = m" "infinity_bits src < m" for src dst b n m
    using that by (simp add: convert_float_def is_nan_def)
  have mant: "mant_bits f64_format = 52" "mant_bits f32_format = 23" by (simp_all add: f64_format_def f32_format_def)
  have quiet: "quiet_nan f64_format f32_format (infinity_bits f64_format + 2 ^ 51 + x * 2 ^ 29) = infinity_bits f32_format + 2 ^ 22 + x"
    "quiet_nan f32_format f64_format (infinity_bits f32_format + 2 ^ 22 + x) = infinity_bits f64_format + 2 ^ 51 + x * 2 ^ 29"
    unfolding quiet_nan_def Let_def mant p64 p32 using down up by simp_all
  show "convert_float f64_format f32_format (with_sign f64_format neg (infinity_bits f64_format + 2 ^ 51 + x * 2 ^ 29)) =
      with_sign f32_format neg (infinity_bits f32_format + 2 ^ 22 + x)"
    unfolding nan [OF f64.with_sign_parts [OF m64] less_m64] quiet ..
  show "convert_float f32_format f64_format (with_sign f32_format neg (infinity_bits f32_format + 2 ^ 22 + x)) =
      with_sign f64_format neg (infinity_bits f64_format + 2 ^ 51 + x * 2 ^ 29)"
    unfolding nan [OF f32.with_sign_parts [OF m32] less_m32] quiet ..
qed

lemma widen_stable:
  assumes "b < 2 ^ 32"
  shows "convert_float f32_format f64_format (convert_float f64_format f32_format (convert_float f32_format f64_format b)) =
    convert_float f32_format f64_format b"
proof (cases "is_nan f32_format b")
  case True
  define x where "x = magnitude f32_format b mod 2 ^ 23 mod 2 ^ 22"
  have mant: "mant_bits f64_format = 52" "mant_bits f32_format = 23" by (simp_all add: f64_format_def f32_format_def)
  have "(magnitude f32_format b mod 2 ^ 23) * 2 ^ 29 mod 2 ^ 51 = x * 2 ^ 29"
    unfolding x_def using mult_mod_left [of "magnitude f32_format b mod 2 ^ 23" "2 ^ 22" "2 ^ 29 :: nat"] by simp
  then have "convert_float f32_format f64_format b =
      with_sign f64_format (float_neg f32_format b) (infinity_bits f64_format + 2 ^ 51 + x * 2 ^ 29)"
    using True by (simp add: convert_float_def quiet_nan_def Let_def mant)
  moreover have "x < 2 ^ 22" by (simp add: x_def)
  ultimately show ?thesis using quiet_payload by simp
qed (use widen_narrow [OF assms] in simp)

fun rust_of :: "nc_type \<Rightarrow> rust_type" where
  "rust_of NcByte = I8"
| "rust_of NcShort = I16"
| "rust_of NcInt = I32"
| "rust_of NcInt64 = I64"
| "rust_of NcUShort = U16"
| "rust_of NcUInt = U32"
| "rust_of NcUInt64 = U64"
| "rust_of _ = U8"

lemma rust_of_int:
  assumes "nc_is_integer t"
  shows "rust_float (rust_of t) = None" "rust_size (rust_of t) = nc_size t" "rust_signed (rust_of t) = nc_is_signed_integer t"
    "dt_class (to_datatype t) = FixedPoint Big (nc_is_signed_integer t) 0 (nc_size t * 8)"
  using assms by (cases t; simp add: nc_is_integer_def nc_is_signed_integer_def to_datatype_def Let_def)+

lemma dt_size_to_datatype [simp]: "dt_size (to_datatype t) = nc_size t"
  by (simp add: to_datatype_def Let_def)

lemma decode_number_int:
  assumes "nc_is_integer t" and "length b = nc_size t"
  shows "decode_number t b = float_of_int f64_format (wrap_to (rust_of t) (int (le_nat b)))"
proof -
  have "le_nat b < 2 ^ (8 * nc_size t)" using le_nat_bound [of b] assms(2) by (simp add: power256)
  then have "int (le_nat b) < 2 ^ (8 * nc_size t)" by (metis of_nat_less_iff of_nat_numeral of_nat_power)
  then have "wrap_to (rust_of t) (int (le_nat b)) = int (le_nat b)" if "\<not> nc_is_signed_integer t"
    using that assms(1) rust_of_int(2,3) [OF assms(1)]
    by (intro wrap_in_range) (simp_all add: type_min_def type_max_def)
  then show ?thesis using assms(1)
    unfolding nc_is_integer_def nc_is_signed_integer_def by (cases t; simp add: decode_number_def)
qed

lemma as_f64s_int: "rust_float t = None \<Longrightarrow> as_f64s (int_attribute t vs) = Some (map (float_of_int f64_format) vs)"
  by (cases t; cases vs) (auto simp: fold_values_def)

lemma classic_elements:
  assumes "length (ca_raw a) \<le> isize_max"
  shows "elements_of (classic_as_attribute a) = length (ca_raw a) div nc_size (ca_type a)"
proof -
  have "length (ca_raw a) div nc_size (ca_type a) \<le> u64_max"
    using le_trans [OF div_le_dividend assms, of "nc_size (ca_type a)"] by (simp add: isize_max_def u64_max_def)
  then show ?thesis
    by (simp add: elements_of_def Let_def classic_as_attribute_def attribute_element_count_def dataspace_element_count_def
        element_count_eq max_absorb1 Suc_le_eq nc_size_pos [THEN less_imp_neq, symmetric])
qed

lemma classic_element:
  assumes "ca_type a \<noteq> NcChar" and "i < length (ca_raw a) div nc_size (ca_type a)"
  shows "attr_element (classic_as_attribute a) i = Some (elem (nc_size (ca_type a)) (swap_bytes_in_place (ca_raw a) (nc_size (ca_type a))) i)"
    and "length (elem (nc_size (ca_type a)) (swap_bytes_in_place (ca_raw a) (nc_size (ca_type a))) i) = nc_size (ca_type a)"
proof -
  let ?n = "nc_size (ca_type a)" and ?raw = "ca_raw a"
  have "(i + 1) * ?n \<le> length ?raw div ?n * ?n" using assms(2) by (intro mult_le_mono1) simp
  also have "\<dots> \<le> length ?raw" by (rule div_times_less_eq_dividend)
  finally have fit: "(i + 1) * ?n \<le> length ?raw" .
  have swap: "elem ?n (swap_bytes_in_place ?raw ?n) i = rev (elem ?n ?raw i)"
    using elem_reverse [OF fit nc_size_pos] by (simp add: swap_bytes_in_place_def not_le split: if_splits)
  have big: "byte_order (to_datatype (ca_type a)) = Some Big"
    using assms(1) by (cases "ca_type a") (simp_all add: byte_order_def to_datatype_def Let_def)
  show "attr_element (classic_as_attribute a) i = Some (elem ?n (swap_bytes_in_place ?raw ?n) i)"
    unfolding swap using fit big
    by (simp add: attr_element_def classic_as_attribute_def needs_swap_def elem_def Let_def nc_size_pos [THEN less_imp_neq, symmetric])
  show "length (elem ?n (swap_bytes_in_place ?raw ?n) i) = ?n"
    unfolding swap using length_elem [OF fit] by simp
qed

lemma classic_number:
  fixes nm :: rstring
  assumes t: "t \<noteq> NcChar" and small: "length raw \<le> isize_max"
  defines "a \<equiv> decode_attribute nm t raw"
  shows "\<exists>v. decode_value None (classic_as_attribute a) = Ok v \<and> as_f64s v = Some (ca_numbers a)"
proof -
  let ?n = "nc_size t" and ?b = "\<lambda>i. elem (nc_size t) (swap_bytes_in_place raw (nc_size t)) i"
  have a: "ca_raw a = raw" "ca_type a = t" "ca_numbers a = map (\<lambda>i. decode_number t (?b i)) [0..<length raw div ?n]"
    using t by (simp_all add: a_def decode_attribute_def decode_numbers_def swap_bytes_in_place_def)
  let ?a = "classic_as_attribute a"
  have n: "elements_of ?a = length raw div ?n" using classic_elements [of a] small a by simp
  have el: "required_element ?a i = Ok (?b i)" "length (?b i) = ?n" if "i < length raw div ?n" for i
    using classic_element [of a i] that t a by (simp_all add: required_element_def)
  have type: "attr_type ?a = to_datatype t" using a by (simp add: classic_as_attribute_def)
  show ?thesis
  proof (cases "nc_is_integer t")
    case True
    note r = rust_of_int [OF True]
    let ?w = "\<lambda>i. buffer_int (rust_signed (rust_of t)) (rust_size (rust_of t)) (?b i)"
    have "decode_ints ?a = Ok (map ?w [0..<length raw div ?n])"
      using el(1) rust_size_bounds [of "rust_of t"]
      unfolding decode_ints_def Let_def n type r
      by (auto intro!: map_result_Ok simp: r simp del: rust_signed.simps)
    moreover have "decode_number t (?b i) = float_of_int f64_format (wrap_to (rust_of t) (sint (?w i)))"
      if "i < length raw div ?n" for i
      unfolding buffer_int_value [OF trans [OF el(2) [OF that] r(2) [symmetric]] r(1)]
      by (rule decode_number_int [OF True el(2) [OF that]])
    then have "map (float_of_int f64_format) (cast_ints (rust_of t) (map ?w [0..<length raw div ?n])) = ca_numbers a"
      unfolding a(3) cast_ints_def map_map comp_def by (intro map_cong [OF refl]) simp
    ultimately show ?thesis
      using int_value_types [OF r(1)] as_f64s_int [OF r(1)] r
      by (simp add: decode_value_def decode_typed_def Let_def type del: rust_signed.simps)
  next
    case False
    then consider (f) "t = NcFloat" | (d) "t = NcDouble" using t by (auto simp: nc_is_integer_def)
    then show ?thesis
    proof cases
      case f
      let ?c = "\<lambda>i. convert_float f32_format f64_format (le_nat (?b i))"
      have "decode_floats ?a = Ok (map ?c [0..<length raw div ?n])"
        unfolding decode_floats_def Let_def n type using el(1) f by (auto intro!: map_result_Ok)
      moreover have "convert_float f32_format f64_format (convert_float f64_format f32_format (?c i)) = ?c i"
        if "i < length raw div ?n" for i
        using le_nat_bound [of "?b i"] el(2) [OF that] f by (intro widen_stable) simp
      ultimately show ?thesis
        using f a(3) by (cases "length raw div ?n")
          (auto simp: decode_value_def decode_typed_def Let_def type to_datatype_def float_value_def fold_values_def decode_number_def)
    next
      case d
      have "decode_floats ?a = Ok (map (\<lambda>i. le_nat (?b i)) [0..<length raw div ?n])"
        unfolding decode_floats_def Let_def n type using el(1) d by (auto intro!: map_result_Ok)
      then show ?thesis
        using d a(3) by (cases "length raw div ?n")
          (auto simp: decode_value_def decode_typed_def Let_def type to_datatype_def float_value_def fold_values_def decode_number_def)
    qed
  qed
qed

text \<open>
  C9. The two decoders of a classic attribute agree: for every numeric type and every content, the value
  the netCDF layer decodes through the HDF5 datatype of the attribute has, as 64-bit floats, exactly
  the numbers the classic header parser decoded, NaN payloads included.
\<close>

theorem classic_decoders_agree:
  assumes "t \<noteq> NcChar" and "length raw \<le> isize_max"
  shows "\<exists>v. decode_value None (classic_as_attribute (decode_attribute nm t raw)) = Ok v \<and>
    as_f64s v = Some (ca_numbers (decode_attribute nm t raw))"
  using classic_number [OF assms] .

theorem classic_decoders_agree_witness:
  "\<exists>v. decode_value None (classic_as_attribute (decode_attribute [] NcShort [0xFF, 0xFE, 0, 7])) = Ok v \<and>
    as_f64s v = Some (ca_numbers (decode_attribute [] NcShort [0xFF, 0xFE, 0, 7]))"
  by (rule classic_decoders_agree) (simp_all add: isize_max_def)

section \<open>Character attributes are decoded byte by byte\<close>

definition shown :: "byte \<Rightarrow> rstring" where
  "shown b = (if b = 0 then [] else if unat b < 128 then [b] else replacement)"

lemma lossy_byte: "from_utf8_lossy [b] = (if unat b < 128 then [b] else replacement)"
  by (subst from_utf8_lossy.simps)
    (simp add: utf8_step_def Let_def safe_get_def is_cont_def second_of_three_def second_of_four_def from_utf8_lossy.simps [of "[]"])

lemma text_bytes:
  "i + m \<le> length data \<Longrightarrow> text_loop NullTerminate 1 data [i..<i + m] = map shown (slice i m data)"
proof (induction m arbitrary: i)
  case (Suc m)
  have one: "slice i 1 data = [data ! i]" using Suc.prems by (simp add: slice_def take_Suc hd_drop_conv_nth)
  have split: "slice i (Suc m) data = data ! i # slice (Suc i) m data"
    using Suc.prems by (simp add: slice_def Cons_nth_drop_Suc [symmetric])
  have "[i..<i + Suc m] = i # [Suc i..<Suc i + m]" by (simp add: upt_conv_Cons del: upt_Suc)
  then show ?case
    using Suc.IH [of "Suc i"] Suc.prems one unfolding split
    by (simp add: Let_def shown_def text_end_def position_or_def lossy_byte from_utf8_lossy.simps [of "[]"] del: upt_Suc)
qed (simp add: slice_def)

lemma classic_text:
  fixes nm :: rstring
  assumes "length raw \<le> isize_max"
  shows "decode_value None (classic_as_attribute (decode_attribute nm NcChar raw)) = Ok (Str (concat (map shown raw)))"
proof -
  let ?a = "decode_attribute nm NcChar raw"
  have raw: "ca_raw ?a = raw" "ca_type ?a = NcChar" by (simp_all add: decode_attribute_def)
  have n: "elements_of (classic_as_attribute ?a) = length raw" using classic_elements [of ?a] assms raw by simp
  have "text_loop NullTerminate 1 raw [0..<max (length raw) 1] = map shown raw"
  proof (cases "raw = []")
    case False
    then show ?thesis using text_bytes [of 0 "length raw" raw] by (simp add: max_absorb1 Suc_le_eq slice_def)
  qed simp
  then show ?thesis
    using n raw
    by (simp add: decode_value_def decode_typed_def Let_def classic_as_attribute_def to_datatype_def decode_all_text_def)
qed

text \<open>
  A character attribute of a classic file is decoded one byte at a time: ASCII text loses nothing but
  its null bytes, and every byte of a character outside ASCII is replaced by U+FFFD, although
  the header parser decodes the same bytes as one UTF-8 text.
\<close>

theorem classic_text_bytewise:
  assumes "length raw \<le> isize_max"
  shows "decode_value None (classic_as_attribute (decode_attribute nm NcChar raw)) = Ok (Str (concat (map shown raw)))"
  using assms by (rule classic_text)

theorem classic_text_bytewise_witness:
  "decode_value None (classic_as_attribute (decode_attribute [] NcChar [0xC2, 0xB0, 0x43])) =
     Ok (Str (replacement @ replacement @ [0x43])) \<and>
   ca_text (decode_attribute [] NcChar [0xC2, 0xB0, 0x43]) = Some [0xC2, 0xB0, 0x43]"
proof -
  have "from_utf8_lossy [0xC2, 0xB0, 0x43] = [0xC2, 0xB0, 0x43]"
    by (subst from_utf8_lossy.simps; simp add: utf8_step_def Let_def safe_get_def is_cont_def)+
  then show ?thesis
    using classic_text_bytewise [of "[0xC2, 0xB0, 0x43]" "[]"]
    by (simp add: isize_max_def shown_def decode_attribute_def position_or_def)
qed

section \<open>Fill values\<close>

lemma scalar_of_ints:
  assumes "rust_float t = None" and "vs \<noteq> []" and "\<forall>v \<in> set vs. type_min t \<le> v \<and> v \<le> type_max t"
  shows "scalar_from_attribute u (int_attribute t vs) = Some (element_from_int u (hd vs))"
proof -
  obtain v rest where vs: "vs = v # rest" using assms(2) by (cases vs) auto
  have bounds: "- (2 ^ 63) \<le> v" "v < 2 ^ 63" if "rust_signed t"
    using assms(1,3) vs that by (cases t; simp add: type_min_def type_max_def)+
  have "sint (word_of_int v :: 64 word) = v" if "rust_signed t"
    using bounds [OF that] by (simp add: signed_of_int signed_take_bit_int_eq_self_iff)
  moreover have "0 \<le> v" if "\<not> rust_signed t" using assms(3) vs that by (simp add: type_min_def)
  ultimately show ?thesis
    using assms(1) by (cases t; cases rest)
      (auto simp: vs fold_values_def first_of_def from_signed_def from_unsigned_def element_from_i64_def element_from_u64_def)
qed

text \<open>
  The fill value of a variable is exact: when the attribute stores integers of one of the eight integer
  types, reading it as any integer type that holds its first value returns that value, without a
  detour through floating point.
\<close>

theorem integer_fill_value_exact:
  assumes "rust_float t = None" and "vs \<noteq> []" and "\<forall>v \<in> set vs. type_min t \<le> v \<and> v \<le> type_max t"
    and "rust_float u = None" and "type_min u \<le> hd vs" and "hd vs \<le> type_max u"
  shows "fill_value_of u (Some \<lparr>na_name = nm, na_value = int_attribute t vs\<rparr>) = Ok (Some (IntV (hd vs)))"
  using scalar_of_ints [OF assms(1-3), of u] assms(4) wrap_in_range [OF assms(5,6)]
  by (simp add: fill_value_of_def element_from_int_def)

theorem integer_fill_value_exact_witness:
  "fill_value_of I64 (Some \<lparr>na_name = [], na_value = Ulonglong (2 ^ 63 - 1)\<rparr>) = Ok (Some (IntV (2 ^ 63 - 1)))"
  using integer_fill_value_exact [of U64 "[2 ^ 63 - 1]" I64 "[]"]
  by (simp add: type_min_def type_max_def fold_values_def)

end
