(* ===== verification/Netcdf_Layer.thy ===== *)
theory Netcdf_Layer
  imports Nc_Attributes Extents "HOL-Library.List_Lexorder" "HOL-Library.Product_Lexorder"
begin

text \<open>
  The netCDF layer (\<^verbatim>\<open>crates/oxcdf/src/netcdf.rs\<close>): dimension scales, the dimensions and variables of a
  group, the dimensions invented for axes the file does not name, both containers behind one file,
  lookup by path and the reads of a variable.  The state threaded through a build is the cache of heap
  collections and the counter of the invented dimensions.  The iteration order of a hash map is not
  specified; it is the argument \<open>order\<close> of the definitions that iterate over one.
\<close>

section \<open>The model of a file\<close>

record nc_dimension =
  nd_name :: rstring
  nd_len :: nat
  nd_unlimited :: bool
  nd_id :: "int option"
  nd_has_variable :: bool
  nd_phony :: bool

record nc_variable =
  nv_name :: rstring
  nv_path :: rstring
  nv_dimensions :: "rstring list"
  nv_shape :: "nat list"
  nv_attributes :: "nc_attribute list"
  nv_complete :: bool
  nv_is_coordinate :: bool

datatype nc_group = NcGroup
  (ng_name: rstring) (ng_path: rstring) (ng_dimensions: "nc_dimension list") (ng_variables: "nc_variable list")
  (ng_attributes: "nc_attribute list") (ng_groups: "nc_group list")

definition variable_attribute :: "nc_variable \<Rightarrow> rstring \<Rightarrow> nc_attribute option" where
  "variable_attribute v nm = nc_find_attribute (nv_attributes v) nm"

definition group_variable :: "nc_group \<Rightarrow> rstring \<Rightarrow> nc_variable option" where
  "group_variable g nm = find (\<lambda>v. nv_name v = nm) (ng_variables g)"

definition group_dimension :: "nc_group \<Rightarrow> rstring \<Rightarrow> nc_dimension option" where
  "group_dimension g nm = find (\<lambda>d. nd_name d = nm) (ng_dimensions g)"

definition nc_group_attribute :: "nc_group \<Rightarrow> rstring \<Rightarrow> nc_attribute option" where
  "nc_group_attribute g nm = nc_find_attribute (ng_attributes g) nm"

fun variables_recursive :: "nc_group \<Rightarrow> nc_variable list" where
  "variables_recursive (NcGroup nm path ds vs as gs) = vs @ concat (map variables_recursive gs)"

datatype backend = BackendHdf5 hdf5_file | BackendClassic classic_file

record netcdf_file =
  nf_backend :: backend
  nf_root :: nc_group

section \<open>Dimension scales\<close>

definition i64_max :: int where
  "i64_max = 2 ^ 63 - 1"

definition add_i64 :: "int \<Rightarrow> int \<Rightarrow> int result" where
  "add_i64 a b = (if a + b \<le> i64_max then Ok (a + b) else panic)"

definition PHANTOM_DIMENSION_PREFIX :: rstring where
  "PHANTOM_DIMENSION_PREFIX = ascii ''This is a netCDF dimension but not a netCDF variable''"

definition starts_with :: "rstring \<Rightarrow> rstring \<Rightarrow> bool" where
  "starts_with s p \<longleftrightarrow> take (length p) s = p"

record dimension_scale =
  dsc_name :: rstring
  dsc_len :: nat
  dsc_unlimited :: bool
  dsc_id :: int
  dsc_is_variable :: bool

definition is_scale :: "dataset_entry \<Rightarrow> bool" where
  "is_scale d =
     (case dataset_attribute d (ascii ''CLASS'') of
        None \<Rightarrow> False
      | Some class \<Rightarrow> decode_text class = Some (ascii ''DIMENSION_SCALE''))"

definition scale_is_variable :: "dataset_entry \<Rightarrow> bool" where
  "scale_is_variable d \<longleftrightarrow>
     \<not> (case Option.bind (dataset_attribute d (ascii ''NAME'')) decode_text of
          None \<Rightarrow> False | Some n \<Rightarrow> starts_with n PHANTOM_DIMENSION_PREFIX)"

definition recorded_dimid :: "dataset_entry \<Rightarrow> int option" where
  "recorded_dimid d =
     (case dataset_attribute d (ascii ''_Netcdf4Dimid'') of
        None \<Rightarrow> None
      | Some a \<Rightarrow> (case decode_ints a of Inr (w # _) \<Rightarrow> Some (sint w) | _ \<Rightarrow> None))"

definition axis_unlimited :: "dataset_entry \<Rightarrow> nat \<Rightarrow> bool" where
  "axis_unlimited d axis =
     (case ds_max_shape d of None \<Rightarrow> False | Some m \<Rightarrow> axis < length m \<and> m ! axis = u64_max)"

definition scale_of :: "dataset_entry \<Rightarrow> int \<Rightarrow> dimension_scale" where
  "scale_of d i =
     \<lparr>dsc_name = ds_name d, dsc_len = (case ds_shape d of [] \<Rightarrow> 1 | n # _ \<Rightarrow> n), dsc_unlimited = axis_unlimited d 0,
      dsc_id = i, dsc_is_variable = scale_is_variable d\<rparr>"

fun scan_scales ::
  "dataset_entry list \<Rightarrow> (nat \<rightharpoonup> dimension_scale) \<Rightarrow> int \<Rightarrow> ((nat \<rightharpoonup> dimension_scale) \<times> int) result" where
  "scan_scales [] out next_id = Ok (out, next_id)"
| "scan_scales (d # ds) out next_id =
     (if \<not> is_scale d then scan_scales ds out next_id
      else
        and_then (case recorded_dimid d of
            Some i \<Rightarrow> Ok (i, max next_id (min (i + 1) i64_max))
          | None \<Rightarrow> and_then (add_i64 next_id 1) (\<lambda>n. Ok (next_id, n))) (\<lambda>(i, next_id).
          scan_scales ds (out(ds_address d \<mapsto> scale_of d i)) next_id))"

definition collect_dimension_scales :: "hdf5_file \<Rightarrow> ((nat \<rightharpoonup> dimension_scale) \<times> int) result" where
  "collect_dimension_scales f = scan_scales (file_datasets f) Map.empty 0"

section \<open>The dimensions of an axis\<close>

definition heap_cache_get :: "ctx \<Rightarrow> (nat \<rightharpoonup> global_heap) \<Rightarrow> nat \<Rightarrow> (global_heap \<times> (nat \<rightharpoonup> global_heap)) result" where
  "heap_cache_get ctx heaps a =
     (case heaps a of
        Some heap \<Rightarrow> Ok (heap, heaps)
      | None \<Rightarrow> and_then (global_heap_read ctx a) (\<lambda>heap. Ok (heap, heaps(a \<mapsto> heap))))"

definition format_int :: "int \<Rightarrow> string" where
  "format_int i = (if i < 0 then CHR ''-'' # decimal (nat (- i)) else decimal (nat i))"

definition phony_name :: "int \<Rightarrow> rstring" where
  "phony_name n = ascii (''phony_dim_'' @ format_int n)"

definition phony_resolve ::
  "int \<Rightarrow> nc_dimension list \<Rightarrow> rstring list \<Rightarrow> nat \<Rightarrow> bool \<Rightarrow> (rstring \<times> nc_dimension list \<times> int) result" where
  "phony_resolve n dimensions taken len unlimited =
     (case find (\<lambda>d. nd_len d = len \<and> nd_unlimited d = unlimited \<and> nd_name d \<notin> set taken) dimensions of
        Some d \<Rightarrow> Ok (nd_name d, dimensions, n)
      | None \<Rightarrow>
          and_then (add_i64 n 1) (\<lambda>n'.
            Ok (phony_name n,
                dimensions @ [\<lparr>nd_name = phony_name n, nd_len = len, nd_unlimited = unlimited \<or> len = 0, nd_id = Some n,
                               nd_has_variable = False, nd_phony = True\<rparr>], n')))"

definition scales_by_id ::
  "((nat \<rightharpoonup> dimension_scale) \<Rightarrow> dimension_scale list) \<Rightarrow> (nat \<rightharpoonup> dimension_scale) \<Rightarrow> int \<rightharpoonup> dimension_scale" where
  "scales_by_id order scales = foldl (\<lambda>m s. m(dsc_id s \<mapsto> s)) Map.empty (order scales)"

definition resolve_from_coordinates ::
  "((nat \<rightharpoonup> dimension_scale) \<Rightarrow> dimension_scale list) \<Rightarrow> attribute \<Rightarrow> (nat \<rightharpoonup> dimension_scale) \<Rightarrow> rstring option list \<Rightarrow>
   rstring option list" where
  "resolve_from_coordinates order a scales named =
     (case decode_ints a of
        Inl _ \<Rightarrow> named
      | Inr ws \<Rightarrow>
          let ids = map sint ws; by_id = scales_by_id order scales in
          if length ids \<noteq> length named then named
          else if \<not> list_all (\<lambda>i. by_id i \<noteq> None) ids then named
          else map (\<lambda>(slot, i). if slot = None then map_option dsc_name (by_id i) else slot) (zip named ids))"

definition list_axis ::
  "ctx \<Rightarrow> attribute \<Rightarrow> (nat \<rightharpoonup> dimension_scale) \<Rightarrow> nat \<Rightarrow> rstring option \<Rightarrow> (nat \<rightharpoonup> global_heap) \<Rightarrow>
   (rstring option \<times> (nat \<rightharpoonup> global_heap)) result" where
  "list_axis ctx a scales axis slot heaps =
     (let s = ctx_sizes ctx; len = descriptor_encoded_len s; first = axis * len in
      and_then (slice_range (attr_data a) first (first + len)) (\<lambda>b.
      and_then (parse_descriptor b s) (\<lambda>d.
        if vlen_length d = 0 then Ok (slot, heaps)
        else and_then (heap_cache_get ctx heaps (collection_address d)) (\<lambda>(heap, heaps).
          case heap_object heap (object_index d mod 65536) of
            None \<Rightarrow> Ok (slot, heaps)
          | Some ob \<Rightarrow>
              if length (obj_data ob) < offset_size s then Ok (slot, heaps)
              else (case scales (le_nat (take (offset_size s) (obj_data ob))) of
                      None \<Rightarrow> Ok (slot, heaps)
                    | Some sc \<Rightarrow> Ok (Some (dsc_name sc), heaps))))))"

fun list_axes ::
  "ctx \<Rightarrow> attribute \<Rightarrow> (nat \<rightharpoonup> dimension_scale) \<Rightarrow> nat \<Rightarrow> rstring option list \<Rightarrow> (nat \<rightharpoonup> global_heap) \<Rightarrow>
   (rstring option list \<times> (nat \<rightharpoonup> global_heap)) result" where
  "list_axes ctx a scales axis [] heaps = Ok ([], heaps)"
| "list_axes ctx a scales axis (slot # slots) heaps =
     and_then (list_axis ctx a scales axis slot heaps) (\<lambda>(slot, heaps).
     and_then (list_axes ctx a scales (axis + 1) slots heaps) (\<lambda>(slots, heaps). Ok (slot # slots, heaps)))"

definition resolve_from_dimension_list ::
  "ctx \<Rightarrow> attribute \<Rightarrow> (nat \<rightharpoonup> dimension_scale) \<Rightarrow> rstring option list \<Rightarrow> (nat \<rightharpoonup> global_heap) \<Rightarrow>
   (rstring option list \<times> (nat \<rightharpoonup> global_heap)) result" where
  "resolve_from_dimension_list ctx a scales named heaps =
     (if \<not> is_vlen (attr_type a) then Ok (named, heaps)
      else if length (attr_data a) < length named * descriptor_encoded_len (ctx_sizes ctx) then Ok (named, heaps)
      else list_axes ctx a scales 0 named heaps)"

fun name_axes ::
  "dataset_entry \<Rightarrow> nat \<Rightarrow> rstring option list \<Rightarrow> rstring list \<Rightarrow> nc_dimension list \<Rightarrow> int \<Rightarrow>
   (rstring list \<times> nc_dimension list \<times> int) result" where
  "name_axes d axis [] out dimensions n = Ok (out, dimensions, n)"
| "name_axes d axis (slot # slots) out dimensions n =
     and_then (case slot of
         Some name \<Rightarrow> Ok (name, dimensions, n)
       | None \<Rightarrow> and_then (index_at (ds_shape d) axis) (\<lambda>len.
           phony_resolve n dimensions out len (axis_unlimited d axis))) (\<lambda>(name, dimensions, n).
       name_axes d (axis + 1) slots (out @ [name]) dimensions n)"

type_synonym build_state = "(nat \<rightharpoonup> global_heap) \<times> int"

definition resolve_dimensions ::
  "((nat \<rightharpoonup> dimension_scale) \<Rightarrow> dimension_scale list) \<Rightarrow> ctx \<Rightarrow> dataset_entry \<Rightarrow> (nat \<rightharpoonup> dimension_scale) \<Rightarrow> bool \<Rightarrow>
   nc_dimension list \<Rightarrow> build_state \<Rightarrow> (rstring list \<times> nc_dimension list \<times> build_state) result" where
  "resolve_dimensions order ctx d scales is_coordinate dimensions st =
     (let rank = length (ds_shape d) in
      if rank = 0 then Ok ([], dimensions, st)
      else if is_coordinate \<and> rank = 1 then Ok ([ds_name d], dimensions, st)
      else
        and_then (case dataset_attribute d (ascii ''DIMENSION_LIST'') of
            None \<Rightarrow> Ok (replicate rank None, fst st)
          | Some a \<Rightarrow> resolve_from_dimension_list ctx a scales (replicate rank None) (fst st)) (\<lambda>(named, heaps).
          let named = (if None \<in> set named
                       then (case dataset_attribute d (ascii ''_Netcdf4Coordinates'') of
                               None \<Rightarrow> named | Some a \<Rightarrow> resolve_from_coordinates order a scales named)
                       else named)
          in and_then (name_axes d 0 named [] dimensions (snd st)) (\<lambda>(out, dimensions, n).
               Ok (out, dimensions, (heaps, n)))))"

section \<open>Building the groups\<close>

definition build_variable ::
  "((nat \<rightharpoonup> dimension_scale) \<Rightarrow> dimension_scale list) \<Rightarrow> ctx \<Rightarrow> dataset_entry \<Rightarrow> (nat \<rightharpoonup> dimension_scale) \<Rightarrow> bool \<Rightarrow>
   nc_dimension list \<Rightarrow> build_state \<Rightarrow> (nc_variable \<times> nc_dimension list \<times> build_state) result" where
  "build_variable order ctx d scales is_coordinate dimensions st =
     and_then (resolve_dimensions order ctx d scales is_coordinate dimensions st) (\<lambda>(names, dimensions, st).
     and_then (visible_attributes ctx (ds_attributes d)) (\<lambda>attributes.
       Ok (\<lparr>nv_name = ds_name d, nv_path = ds_path d, nv_dimensions = names, nv_shape = ds_shape d,
            nv_attributes = attributes, nv_complete = ds_attributes_complete d, nv_is_coordinate = is_coordinate\<rparr>,
           dimensions, st)))"

definition by_name :: "dataset_entry list \<Rightarrow> (nat \<times> dataset_entry) list" where
  "by_name ds = sort_key (\<lambda>(_, d). ds_name d) (List.enumerate 0 ds)"

definition dimension_of_scale :: "dimension_scale \<Rightarrow> nc_dimension" where
  "dimension_of_scale s =
     \<lparr>nd_name = dsc_name s, nd_len = dsc_len s, nd_unlimited = dsc_unlimited s, nd_id = Some (dsc_id s),
      nd_has_variable = dsc_is_variable s, nd_phony = False\<rparr>"

definition named_dimensions :: "(nat \<rightharpoonup> dimension_scale) \<Rightarrow> (nat \<times> dataset_entry) list \<Rightarrow> nc_dimension list" where
  "named_dimensions scales ordered = map dimension_of_scale (List.map_filter (\<lambda>(_, d). scales (ds_address d)) ordered)"

fun build_variables ::
  "((nat \<rightharpoonup> dimension_scale) \<Rightarrow> dimension_scale list) \<Rightarrow> ctx \<Rightarrow> (nat \<rightharpoonup> dimension_scale) \<Rightarrow> (nat \<times> dataset_entry) list \<Rightarrow>
   nc_dimension list \<Rightarrow> build_state \<Rightarrow> ((nat \<times> nc_variable) list \<times> nc_dimension list \<times> build_state) result" where
  "build_variables order ctx scales [] dimensions st = Ok ([], dimensions, st)"
| "build_variables order ctx scales ((at, d) # rest) dimensions st =
     (if (case scales (ds_address d) of None \<Rightarrow> False | Some s \<Rightarrow> \<not> dsc_is_variable s)
      then build_variables order ctx scales rest dimensions st
      else
        and_then (build_variable order ctx d scales (scales (ds_address d) \<noteq> None) dimensions st) (\<lambda>(v, dimensions, st).
        and_then (build_variables order ctx scales rest dimensions st) (\<lambda>(built, dimensions, st).
          Ok ((at, v) # built, dimensions, st))))"

definition dimension_key :: "nc_dimension \<Rightarrow> int \<times> rstring" where
  "dimension_key d = (case nd_id d of None \<Rightarrow> i64_max | Some i \<Rightarrow> i, nd_name d)"

fun nc_build_group ::
  "((nat \<rightharpoonup> dimension_scale) \<Rightarrow> dimension_scale list) \<Rightarrow> ctx \<Rightarrow> (nat \<rightharpoonup> dimension_scale) \<Rightarrow> group_index \<Rightarrow> build_state \<Rightarrow>
   (nc_group \<times> build_state) result"
and nc_build_groups ::
  "((nat \<rightharpoonup> dimension_scale) \<Rightarrow> dimension_scale list) \<Rightarrow> ctx \<Rightarrow> (nat \<rightharpoonup> dimension_scale) \<Rightarrow> group_index list \<Rightarrow> build_state \<Rightarrow>
   (nc_group list \<times> build_state) result" where
  "nc_build_group order ctx scales (GroupIndex nm path address attrs complete groups datasets) st =
     and_then (nc_build_groups order ctx scales groups st) (\<lambda>(gs, st).
     and_then (build_variables order ctx scales (by_name datasets) (named_dimensions scales (by_name datasets)) st)
       (\<lambda>(built, dimensions, st).
     and_then (visible_attributes ctx attrs) (\<lambda>attributes.
       Ok (NcGroup nm path (sort_key dimension_key dimensions) (map snd (sort_key fst built)) attributes gs, st))))"
| "nc_build_groups order ctx scales [] st = Ok ([], st)"
| "nc_build_groups order ctx scales (g # gs) st =
     and_then (nc_build_group order ctx scales g st) (\<lambda>(g, st).
     and_then (nc_build_groups order ctx scales gs st) (\<lambda>(gs, st). Ok (g # gs, st)))"

section \<open>Opening\<close>

definition from_hdf5 :: "((nat \<rightharpoonup> dimension_scale) \<Rightarrow> dimension_scale list) \<Rightarrow> hdf5_file \<Rightarrow> netcdf_file result" where
  "from_hdf5 order f =
     and_then (collect_dimension_scales f) (\<lambda>(scales, first_free_id).
     and_then (nc_build_group order (file_ctx f) scales (f_root f) (Map.empty, first_free_id)) (\<lambda>(rt, _).
       Ok \<lparr>nf_backend = BackendHdf5 f, nf_root = rt\<rparr>))"

definition classic_nc_variable :: "classic_variable \<Rightarrow> nc_variable result" where
  "classic_nc_variable v =
     and_then (classic_attributes (cv_attributes v)) (\<lambda>attributes.
       Ok \<lparr>nv_name = cv_name v, nv_path = SLASH # cv_name v, nv_dimensions = cv_dimensions v, nv_shape = cv_shape v,
           nv_attributes = attributes, nv_complete = True, nv_is_coordinate = (cv_dimensions v = [cv_name v])\<rparr>)"

definition from_classic :: "classic_file \<Rightarrow> netcdf_file result" where
  "from_classic f =
     (let h = cf_header f;
          dimensions = map (\<lambda>d. \<lparr>nd_name = cd_name d, nd_len = cd_len d, nd_unlimited = cd_unlimited d, nd_id = None,
              nd_has_variable = list_ex (\<lambda>v. cv_name v = cd_name d) (ch_variables h), nd_phony = False\<rparr>) (ch_dimensions h)
      in and_then (map_result classic_nc_variable (ch_variables h)) (\<lambda>variables.
         and_then (classic_attributes (ch_attributes h)) (\<lambda>attributes.
           Ok \<lparr>nf_backend = BackendClassic f, nf_root = NcGroup [] [SLASH] dimensions variables attributes []\<rparr>)))"

text \<open>\<open>None\<close> would be an open that never ends; the classic reader is proved to end.\<close>

definition from_byte_source ::
  "((nat \<rightharpoonup> dimension_scale) \<Rightarrow> dimension_scale list) \<Rightarrow> source \<Rightarrow> open_options option \<Rightarrow> netcdf_file result option" where
  "from_byte_source order src options =
     (case detect_container src of
        Inl e \<Rightarrow> Some (Inl e)
      | Inr k \<Rightarrow>
          if k = Hdf5
          then Some (and_then (case options of Some opts \<Rightarrow> from_source_with src opts | None \<Rightarrow> from_source src) (from_hdf5 order))
          else map_option (\<lambda>r. and_then r from_classic) (classic_from_source src))"

definition netcdf_from_source :: "((nat \<rightharpoonup> dimension_scale) \<Rightarrow> dimension_scale list) \<Rightarrow> source \<Rightarrow> netcdf_file result option" where
  "netcdf_from_source order src = from_byte_source order src None"

definition nf_classic :: "netcdf_file \<Rightarrow> classic_file option" where
  "nf_classic f = (case nf_backend f of BackendClassic c \<Rightarrow> Some c | BackendHdf5 _ \<Rightarrow> None)"

definition nf_container :: "netcdf_file \<Rightarrow> container" where
  "nf_container f = (case nf_backend f of BackendHdf5 _ \<Rightarrow> Hdf5 | BackendClassic c \<Rightarrow> cf_container c)"

definition nf_hdf5 :: "netcdf_file \<Rightarrow> hdf5_file option" where
  "nf_hdf5 f = (case nf_backend f of BackendHdf5 h \<Rightarrow> Some h | BackendClassic _ \<Rightarrow> None)"

definition map_hdf5 :: "(hdf5_file \<Rightarrow> hdf5_file) \<Rightarrow> netcdf_file \<Rightarrow> netcdf_file" where
  "map_hdf5 g f = (case nf_backend f of BackendHdf5 h \<Rightarrow> f\<lparr>nf_backend := BackendHdf5 (g h)\<rparr> | BackendClassic _ \<Rightarrow> f)"

section \<open>Lookup\<close>

definition nc_child :: "nc_group \<Rightarrow> rstring \<Rightarrow> nc_group option" where
  "nc_child g nm = find (\<lambda>c. ng_name c = nm) (ng_groups g)"

fun nc_descend :: "nc_group \<Rightarrow> rstring list \<Rightarrow> nc_group option" where
  "nc_descend g [] = Some g"
| "nc_descend g (part # parts) = (case nc_child g part of None \<Rightarrow> None | Some c \<Rightarrow> nc_descend c parts)"

definition variable_info :: "netcdf_file \<Rightarrow> rstring \<Rightarrow> nc_variable option" where
  "variable_info f path =
     (let parts = split_path (trim_slashes path) in
      case nc_descend (nf_root f) (butlast parts) of
        None \<Rightarrow> None
      | Some g \<Rightarrow> group_variable g (last parts))"

definition nf_dataset :: "netcdf_file \<Rightarrow> nc_variable \<Rightarrow> dataset_entry option" where
  "nf_dataset f v = Option.bind (nf_hdf5 f) (\<lambda>h. find_dataset h (nv_path v))"

definition nf_group :: "netcdf_file \<Rightarrow> rstring \<Rightarrow> nc_group option" where
  "nf_group f path =
     (let trimmed = rev (trim_slashes (rev (trim_slashes path))) in
      if trimmed = [] then Some (nf_root f) else nc_descend (nf_root f) (split_path trimmed))"

definition dimension_len :: "netcdf_file \<Rightarrow> rstring \<Rightarrow> nat option" where
  "dimension_len f nm = map_option nd_len (group_dimension (nf_root f) nm)"

datatype var_store = StoreHdf5 dataset_entry | StoreClassic classic_variable

definition store_datatype :: "var_store \<Rightarrow> hdf_type" where
  "store_datatype s = (case s of StoreHdf5 d \<Rightarrow> ds_datatype d | StoreClassic v \<Rightarrow> cv_datatype v)"

definition store_hdf5 :: "var_store \<Rightarrow> dataset_entry option" where
  "store_hdf5 s = (case s of StoreHdf5 d \<Rightarrow> Some d | StoreClassic _ \<Rightarrow> None)"

record bound_variable =
  bv_file :: netcdf_file
  bv_info :: nc_variable
  bv_store :: var_store

definition store_for :: "netcdf_file \<Rightarrow> nc_variable \<Rightarrow> var_store option" where
  "store_for f info =
     (case nf_backend f of
        BackendHdf5 h \<Rightarrow> map_option StoreHdf5 (find_dataset h (nv_path info))
      | BackendClassic c \<Rightarrow> map_option StoreClassic (find (\<lambda>v. cv_name v = nv_name info) (ch_variables (cf_header c))))"

definition nf_variable :: "netcdf_file \<Rightarrow> rstring \<Rightarrow> bound_variable option" where
  "nf_variable f path =
     Option.bind (variable_info f path) (\<lambda>info.
       map_option (\<lambda>s. \<lparr>bv_file = f, bv_info = info, bv_store = s\<rparr>) (store_for f info))"

definition nf_variables :: "netcdf_file \<Rightarrow> bound_variable list" where
  "nf_variables f =
     List.map_filter (\<lambda>info. map_option (\<lambda>s. \<lparr>bv_file = f, bv_info = info, bv_store = s\<rparr>) (store_for f info))
       (variables_recursive (nf_root f))"

section \<open>Reading a variable\<close>

record nc_values =
  val_raw :: raw_data
  val_datatype :: hdf_type
  val_strings :: "rstring list option"

definition values_get :: "rust_type \<Rightarrow> nc_values \<Rightarrow> element_value list result" where
  "values_get t v = get_of t (val_raw v) (val_datatype v) []"

definition values_to_strings :: "nc_values \<Rightarrow> rstring list result" where
  "values_to_strings v =
     (case val_strings v of Some strings \<Rightarrow> Ok strings | None \<Rightarrow> to_strings_of (val_raw v) (val_datatype v))"

definition holds_heap_pointers :: "'e dataset_index_scheme \<Rightarrow> bool" where
  "holds_heap_pointers d \<longleftrightarrow> (case dt_class (ds_datatype d) of VariableLength kind _ _ _ \<Rightarrow> kind = VString | _ \<Rightarrow> False)"

definition values_from_raw :: "ctx \<Rightarrow> 'e dataset_index_scheme \<Rightarrow> raw_data \<Rightarrow> nc_values result" where
  "values_from_raw ctx d raw =
     and_then (if holds_heap_pointers d then and_then (resolve_vlen_strings ctx d raw) (\<lambda>s. Ok (Some s)) else Ok None) (\<lambda>strings.
       Ok \<lparr>val_raw = raw, val_datatype = ds_datatype d, val_strings = strings\<rparr>)"

definition variable_read_selection ::
  "eviction \<Rightarrow> codecs \<Rightarrow> bound_variable \<Rightarrow> hyperslab \<Rightarrow> read_state \<Rightarrow> nc_values result \<times> read_state" where
  "variable_read_selection evict cs v slab st =
     (case bv_store v of
        StoreHdf5 d \<Rightarrow>
          (case nf_hdf5 (bv_file v) of
             None \<Rightarrow> (Error (Malformed ''an HDF5 variable without an HDF5 file''), st)
           | Some h \<Rightarrow> then_st (read_hyperslab evict cs (file_ctx h) d slab st) (\<lambda>raw st.
               (values_from_raw (file_ctx h) d raw, st)))
      | StoreClassic cv \<Rightarrow>
          (case nf_classic (bv_file v) of
             None \<Rightarrow> (Error (Malformed ''a classic variable without a classic file''), st)
           | Some c \<Rightarrow>
               (and_then (validate slab (nv_shape (bv_info v))) (\<lambda>_.
                and_then (read_selection c cv slab) (\<lambda>b.
                  Ok \<lparr>val_raw = \<lparr>raw_bytes = b, raw_element_size = nc_size (cv_type cv), raw_shape = cnt slab\<rparr>,
                      val_datatype = cv_datatype cv, val_strings = None\<rparr>)), st)))"

definition read_extents ::
  "eviction \<Rightarrow> codecs \<Rightarrow> bound_variable \<Rightarrow> extents result \<Rightarrow> (nc_values \<Rightarrow> 'a result) \<Rightarrow> read_state \<Rightarrow> 'a result \<times> read_state" where
  "read_extents evict cs v extents k st =
     then_st (and_then extents (\<lambda>es. to_hyperslab es (nv_shape (bv_info v))), st) (\<lambda>slab st.
     then_st (variable_read_selection evict cs v slab st) (\<lambda>vals st. (k vals, st)))"

definition variable_get_values ::
  "eviction \<Rightarrow> codecs \<Rightarrow> rust_type \<Rightarrow> bound_variable \<Rightarrow> extents result \<Rightarrow> read_state \<Rightarrow> element_value list result \<times> read_state" where
  "variable_get_values evict cs t v extents st = read_extents evict cs v extents (values_get t) st"

definition one_value :: "'a list \<Rightarrow> 'a result" where
  "one_value vs =
     (if length vs = 1 then Ok (last vs) else Error (BadRequest ''the selection names several elements, but one was asked for''))"

definition variable_get_value ::
  "eviction \<Rightarrow> codecs \<Rightarrow> rust_type \<Rightarrow> bound_variable \<Rightarrow> extents result \<Rightarrow> read_state \<Rightarrow> element_value result \<times> read_state" where
  "variable_get_value evict cs t v extents st =
     then_st (variable_get_values evict cs t v extents st) (\<lambda>vs st. (one_value vs, st))"

definition variable_get_strings ::
  "eviction \<Rightarrow> codecs \<Rightarrow> bound_variable \<Rightarrow> extents result \<Rightarrow> read_state \<Rightarrow> rstring list result \<times> read_state" where
  "variable_get_strings evict cs v extents st = read_extents evict cs v extents values_to_strings st"

definition variable_get_string ::
  "eviction \<Rightarrow> codecs \<Rightarrow> bound_variable \<Rightarrow> extents result \<Rightarrow> read_state \<Rightarrow> rstring result \<times> read_state" where
  "variable_get_string evict cs v extents st =
     then_st (variable_get_strings evict cs v extents st) (\<lambda>vs st. (one_value vs, st))"

definition variable_get_raw_values ::
  "eviction \<Rightarrow> codecs \<Rightarrow> bound_variable \<Rightarrow> extents result \<Rightarrow> read_state \<Rightarrow> bytes result \<times> read_state" where
  "variable_get_raw_values evict cs v extents st = read_extents evict cs v extents (\<lambda>vals. Ok (raw_bytes (val_raw vals))) st"

definition variable_is_readable :: "bound_variable \<Rightarrow> bool" where
  "variable_is_readable v \<longleftrightarrow> (case store_hdf5 (bv_store v) of None \<Rightarrow> True | Some d \<Rightarrow> is_readable d)"

definition variable_len :: "bound_variable \<Rightarrow> nat" where
  "variable_len v = element_count (nv_shape (bv_info v))"

definition variable_vartype :: "bound_variable \<Rightarrow> dtype" where
  "variable_vartype v = dtype_of (store_datatype (bv_store v))"

definition chunking :: "bound_variable \<Rightarrow> nat list option result" where
  "chunking v =
     (case store_hdf5 (bv_store v) of
        None \<Rightarrow> Ok None
      | Some d \<Rightarrow> Ok (case ds_layout d of Chunked _ chunk_dims _ _ \<Rightarrow> Some chunk_dims | _ \<Rightarrow> None))"

definition variable_fill_value :: "rust_type \<Rightarrow> bound_variable \<Rightarrow> element_value option result" where
  "variable_fill_value t v = fill_value_of t (variable_attribute (bv_info v) (ascii ''_FillValue''))"

end
