(* ===== verification/Netcdf_Tree.thy ===== *)
theory Netcdf_Tree
  imports Netcdf_Layer "HOL-Library.Multiset"
begin

text \<open>
  What the build of the netCDF layer gives: the tree of groups and variables mirrors the object tree
  in the order of the file, every variable is found again by its path, every axis has a dimension,
  and the dimensions of a file without dimension scales are invented soundly.
\<close>

section \<open>The tree of groups and variables\<close>

type_synonym variable_core = "rstring \<times> rstring \<times> nat list \<times> bool \<times> bool"

datatype outline = Outline rstring rstring "variable_core list" "outline list"

definition shows_variable :: "(nat \<rightharpoonup> dimension_scale) \<Rightarrow> dataset_entry \<Rightarrow> bool" where
  "shows_variable scales d \<longleftrightarrow> (case scales (ds_address d) of None \<Rightarrow> True | Some s \<Rightarrow> dsc_is_variable s)"

definition dataset_core :: "(nat \<rightharpoonup> dimension_scale) \<Rightarrow> dataset_entry \<Rightarrow> variable_core" where
  "dataset_core scales d = (ds_name d, ds_path d, ds_shape d, ds_attributes_complete d, scales (ds_address d) \<noteq> None)"

definition variable_core :: "nc_variable \<Rightarrow> variable_core" where
  "variable_core v = (nv_name v, nv_path v, nv_shape v, nv_complete v, nv_is_coordinate v)"

fun object_outline :: "(nat \<rightharpoonup> dimension_scale) \<Rightarrow> group_index \<Rightarrow> outline" where
  "object_outline scales (GroupIndex nm path address attrs complete groups datasets) =
     Outline nm path (map (dataset_core scales) (filter (shows_variable scales) datasets)) (map (object_outline scales) groups)"

fun nc_outline :: "nc_group \<Rightarrow> outline" where
  "nc_outline (NcGroup nm path ds vs as gs) = Outline nm path (map variable_core vs) (map nc_outline gs)"

lemma map_insort_key: "map g (insort_key (\<lambda>x. f (g x)) x xs) = insort_key f (g x) (map g xs)"
  by (induction xs) auto

lemma map_sort_key: "map g (sort_key (\<lambda>x. f (g x)) xs) = sort_key f (map g xs)"
  by (induction xs) (simp_all add: map_insort_key)

lemma build_variable_core:
  "build_variable order ctx d scales coordinate ds st = Ok (v, ds', st') \<Longrightarrow>
   variable_core v = (ds_name d, ds_path d, ds_shape d, ds_attributes_complete d, coordinate)"
  by (auto simp: build_variable_def variable_core_def result_simps split: prod.splits)

lemma build_variables_core:
  "build_variables order ctx scales sorted_entries ds st = Ok (built, ds', st') \<Longrightarrow>
   map (map_prod id variable_core) built =
   map (map_prod id (dataset_core scales)) (filter (\<lambda>(_, d). shows_variable scales d) sorted_entries)"
proof (induction sorted_entries arbitrary: ds st built ds' st')
  case (Cons entry rest)
  obtain at d where entry: "entry = (at, d)" by fastforce
  show ?case
  proof (cases "shows_variable scales d")
    case False
    then show ?thesis using Cons entry by (auto simp: shows_variable_def split: option.splits)
  next
    case True
    then have no: "\<not> (case scales (ds_address d) of None \<Rightarrow> False | Some s \<Rightarrow> \<not> dsc_is_variable s)"
      by (auto simp: shows_variable_def split: option.splits)
    obtain v ds1 st1 built1 where v: "build_variable order ctx d scales (scales (ds_address d) \<noteq> None) ds st = Ok (v, ds1, st1)"
      "build_variables order ctx scales rest ds1 st1 = Ok (built1, ds', st')" "built = (at, v) # built1"
      using Cons.prems no by (auto simp: entry result_simps split: prod.splits)
    then show ?thesis
      using Cons.IH [OF v(2)] True build_variable_core [OF v(1)] by (simp add: entry dataset_core_def)
  qed
qed simp

text \<open>The variables are built by name and reported in the order of the file.\<close>

lemma file_order_restored:
  assumes "map (map_prod id f) built = map (map_prod id g) (filter (\<lambda>(_, d). P d) (by_name ds))"
  shows "map f (map snd (sort_key fst built)) = map g (filter P ds)"
proof -
  let ?E = "filter (\<lambda>(_, d). P d) (List.enumerate 0 ds)"
  have "map (map_prod id f) (sort_key fst built) = sort_key fst (map (map_prod id f) built)"
    using map_sort_key [of "map_prod id f" fst built] by simp
  also have "\<dots> = sort_key fst (map (map_prod id g) (filter (\<lambda>(_, d). P d) (by_name ds)))" by (simp only: assms)
  also have "\<dots> = map (map_prod id g) (sort_key fst (filter (\<lambda>(_, d). P d) (by_name ds)))"
    using map_sort_key [of "map_prod id g" fst "filter (\<lambda>(_, d). P d) (by_name ds)"] by simp
  also have "sort_key fst (filter (\<lambda>(_, d). P d) (by_name ds)) = ?E"
  proof (rule sort_key_inj_key_eq)
    show "mset (filter (\<lambda>(_, d). P d) (by_name ds)) = mset ?E" by (simp add: by_name_def)
    have "distinct (map fst (List.enumerate 0 ds))" by simp
    then have "inj_on fst (set (List.enumerate 0 ds))" unfolding distinct_map by blast
    then show "inj_on fst (set (filter (\<lambda>(_, d). P d) (by_name ds)))"
      by (rule inj_on_subset) (auto simp: by_name_def)
    show "sorted (map fst ?E)" by (intro sorted_filter) simp
  qed
  finally have "map (map_prod id f) (sort_key fst built) = map (map_prod id g) ?E" .
  then have "map snd (map (map_prod id f) (sort_key fst built)) = map snd (map (map_prod id g) ?E)" by simp
  moreover have m: "map snd ?E = filter P ds"
    using filter_map [of P snd "List.enumerate 0 ds"] by (simp add: comp_def case_prod_unfold)
  have "map snd (map (map_prod id g) ?E) = map g (filter P ds)" unfolding m [symmetric] by simp
  ultimately show ?thesis by (simp add: comp_def)
qed

lemma build_group_outline:
  "nc_build_group order ctx scales g st = Ok (ng, st') \<Longrightarrow> nc_outline ng = object_outline scales g"
  "nc_build_groups order ctx scales gs st = Ok (ngs, st') \<Longrightarrow> map nc_outline ngs = map (object_outline scales) gs"
proof (induction order ctx scales g st and order ctx scales gs st arbitrary: ng st' and ngs st'
    rule: nc_build_group_nc_build_groups.induct)
  case (1 order ctx scales nm path address attrs complete groups datasets st)
  obtain gs st1 built ds st2 as where b: "nc_build_groups order ctx scales groups st = Ok (gs, st1)"
    "build_variables order ctx scales (by_name datasets) (named_dimensions scales (by_name datasets)) st1 = Ok (built, ds, st2)"
    "ng = NcGroup nm path (sort_key dimension_key ds) (map snd (sort_key fst built)) as gs"
    using 1(2) by (auto simp: result_simps split: prod.splits)
  show ?case
    using 1(1) [OF b(1)] file_order_restored [OF build_variables_core [OF b(2)]] unfolding b(3) by simp
qed (auto simp: result_simps split: prod.splits)

section \<open>Lookup of variables\<close>

fun nc_paths_ok :: "nc_group \<Rightarrow> bool" where
  "nc_paths_ok (NcGroup nm path ds vs as gs) \<longleftrightarrow>
     (\<forall>v \<in> set vs. nv_path v = child_path path (nv_name v)) \<and>
     (\<forall>g \<in> set gs. ng_path g = child_path path (ng_name g) \<and> nc_paths_ok g)"

fun nc_names_ok :: "nc_group \<Rightarrow> bool" where
  "nc_names_ok (NcGroup nm path ds vs as gs) \<longleftrightarrow>
     distinct (map nv_name vs) \<and> distinct (map ng_name gs) \<and>
     (\<forall>v \<in> set vs. nv_name v \<noteq> [] \<and> SLASH \<notin> set (nv_name v)) \<and>
     (\<forall>g \<in> set gs. ng_name g \<noteq> [] \<and> SLASH \<notin> set (ng_name g) \<and> nc_names_ok g)"

lemma nc_outline_parts:
  "nc_outline ng = Outline nm path cores os \<longleftrightarrow>
   ng_name ng = nm \<and> ng_path ng = path \<and> map variable_core (ng_variables ng) = cores \<and> map nc_outline (ng_groups ng) = os"
  by (cases ng) auto

lemma outline_children:
  assumes "map nc_outline gs = map (object_outline scales) groups"
  shows "map ng_name gs = map g_name groups" and "map ng_path gs = map g_path groups"
    and "c \<in> set gs \<Longrightarrow> \<exists>g \<in> set groups. nc_outline c = object_outline scales g \<and> ng_name c = g_name g \<and> ng_path c = g_path g"
proof -
  have one: "ng_name c = g_name g \<and> ng_path c = g_path g" if "nc_outline c = object_outline scales g" for c g
    using that by (cases c; cases g) simp
  have len: "length gs = length groups" using arg_cong [OF assms, of length] by simp
  have nth: "nc_outline (gs ! i) = object_outline scales (groups ! i)" if "i < length gs" for i
    using arg_cong [OF assms, of "\<lambda>xs. xs ! i"] that len by simp
  show "map ng_name gs = map g_name groups" "map ng_path gs = map g_path groups"
    using len nth one by (auto intro: nth_equalityI)
  show "\<exists>g \<in> set groups. nc_outline c = object_outline scales g \<and> ng_name c = g_name g \<and> ng_path c = g_path g" if "c \<in> set gs"
    using that len nth one by (metis in_set_conv_nth)
qed

lemma variable_core_fields:
  "variable_core v = dataset_core scales d \<Longrightarrow> nv_name v = ds_name d \<and> nv_path v = ds_path d \<and> nv_shape v = ds_shape d"
  by (simp add: variable_core_def dataset_core_def)

lemma outline_variables:
  assumes "map variable_core vs = map (dataset_core scales) ds"
  shows "map nv_name vs = map ds_name ds" and "v \<in> set vs \<Longrightarrow> \<exists>d \<in> set ds. variable_core v = dataset_core scales d"
proof -
  have len: "length vs = length ds" using arg_cong [OF assms, of length] by simp
  have nth: "variable_core (vs ! i) = dataset_core scales (ds ! i)" if "i < length vs" for i
    using arg_cong [OF assms, of "\<lambda>xs. xs ! i"] that len by simp
  show "map nv_name vs = map ds_name ds" using len nth variable_core_fields by (auto intro: nth_equalityI)
  show "\<exists>d \<in> set ds. variable_core v = dataset_core scales d" if "v \<in> set vs" using that len nth by (metis in_set_conv_nth)
qed

lemma mirrored_tree_ok:
  "nc_outline ng = object_outline scales g \<Longrightarrow> paths_ok g \<Longrightarrow> names_ok g \<Longrightarrow>
   nc_paths_ok ng \<and> nc_names_ok ng \<and>
   (\<forall>v \<in> set (variables_recursive ng). \<exists>d \<in> set (datasets_recursive g). variable_core v = dataset_core scales d)"
proof (induction g arbitrary: ng)
  case (GroupIndex nm path address attrs complete groups datasets)
  obtain ds vs as gs where ng: "ng = NcGroup nm path ds vs as gs" using GroupIndex.prems(1) by (cases ng) auto
  have v: "map variable_core vs = map (dataset_core scales) (filter (shows_variable scales) datasets)"
    and c: "map nc_outline gs = map (object_outline scales) groups" using GroupIndex.prems(1) by (auto simp: ng)
  note names = outline_variables(1) [OF v] outline_children(1) [OF c]
  have each: "\<exists>d \<in> set datasets. variable_core w = dataset_core scales d" if "w \<in> set vs" for w
    using outline_variables(2) [OF v that] by auto
  have sub: "nc_paths_ok h \<and> nc_names_ok h \<and> ng_path h = child_path path (ng_name h) \<and> ng_name h \<noteq> [] \<and> SLASH \<notin> set (ng_name h) \<and>
      (\<forall>w \<in> set (variables_recursive h). \<exists>d \<in> set (concat (map datasets_recursive groups)). variable_core w = dataset_core scales d)"
    if h: "h \<in> set gs" for h
  proof -
    obtain g where g: "g \<in> set groups" "nc_outline h = object_outline scales g" "ng_name h = g_name g" "ng_path h = g_path g"
      using outline_children(3) [OF c h] by blast
    have ok: "paths_ok g" "names_ok g" "g_path g = child_path path (g_name g)" "g_name g \<noteq> []" "SLASH \<notin> set (g_name g)"
      using GroupIndex.prems(2,3) g(1) by auto
    note IH = GroupIndex.IH(1) [OF g(1,2) ok(1,2)]
    have "set (datasets_recursive g) \<subseteq> set (concat (map datasets_recursive groups))" using g(1) by auto
    then show ?thesis using IH ok(3-5) g(3,4) by (simp only: simp_thms) blast
  qed
  have "distinct (map nv_name vs)" "distinct (map ng_name gs)"
    unfolding names using GroupIndex.prems(3) by (simp_all add: distinct_map_filter)
  moreover have "nv_path w = child_path path (nv_name w) \<and> nv_name w \<noteq> [] \<and> SLASH \<notin> set (nv_name w)" if "w \<in> set vs" for w
    using each [OF that] variable_core_fields GroupIndex.prems(2,3) by fastforce
  ultimately have "nc_paths_ok ng \<and> nc_names_ok ng" using sub by (auto simp: ng)
  moreover have "\<exists>d \<in> set (datasets_recursive (GroupIndex nm path address attrs complete groups datasets)). variable_core w = dataset_core scales d"
    if w: "w \<in> set (variables_recursive ng)" for w
  proof (cases "w \<in> set vs")
    case False
    then obtain h where "h \<in> set gs" "w \<in> set (variables_recursive h)" using w by (auto simp: ng)
    then have "\<exists>d \<in> set (concat (map datasets_recursive groups)). variable_core w = dataset_core scales d" using sub by blast
    then show ?thesis unfolding datasets_recursive.simps set_append by blast
  qed (use each in \<open>unfold datasets_recursive.simps set_append, blast\<close>)
  ultimately show ?case by blast
qed

lemma nc_variable_located:
  "nc_paths_ok g \<Longrightarrow> nc_names_ok g \<Longrightarrow> v \<in> set (variables_recursive g) \<Longrightarrow>
   \<exists>names g'. nc_descend g names = Some g' \<and> group_variable g' (nv_name v) = Some v \<and>
     nv_path v = path_join (ng_path g) (names @ [nv_name v]) \<and> (\<forall>n \<in> set (names @ [nv_name v]). n \<noteq> [] \<and> SLASH \<notin> set n)"
proof (induction g)
  case (NcGroup nm path ds vs as gs)
  let ?g = "NcGroup nm path ds vs as gs"
  show ?case
  proof (cases "v \<in> set vs")
    case True
    have "group_variable ?g (nv_name v) = Some v" using NcGroup.prems(2) True by (simp add: group_variable_def find_distinct)
    then show ?thesis using NcGroup.prems True by (intro exI [of _ "[]"]) auto
  next
    case False
    then obtain c where c: "c \<in> set gs" "v \<in> set (variables_recursive c)" using NcGroup.prems(3) by auto
    then have ok: "nc_paths_ok c" "nc_names_ok c" "ng_path c = child_path path (ng_name c)" "ng_name c \<noteq> []" "SLASH \<notin> set (ng_name c)"
      "distinct (map ng_name gs)" using NcGroup.prems by auto
    obtain names g' where n: "nc_descend c names = Some g'" "group_variable g' (nv_name v) = Some v"
      "nv_path v = path_join (ng_path c) (names @ [nv_name v])" "\<forall>n \<in> set (names @ [nv_name v]). n \<noteq> [] \<and> SLASH \<notin> set n"
      using NcGroup.IH [OF c(1) ok(1,2) c(2)] by blast
    have "nc_child ?g (ng_name c) = Some c" using ok(6) c(1) by (simp add: nc_child_def find_distinct)
    then have "nc_descend ?g (ng_name c # names) = Some g'" using n(1) by simp
    then show ?thesis using n ok(3-5) by (intro exI [of _ "ng_name c # names"] exI [of _ g']) auto
  qed
qed

lemma from_hdf5_tree:
  assumes "from_hdf5 order f = Ok nf"
  obtains scales n where "collect_dimension_scales f = Ok (scales, n)" "nf_backend nf = BackendHdf5 f"
    "nc_outline (nf_root nf) = object_outline scales (f_root f)"
  using assms build_group_outline(1) by (auto simp: from_hdf5_def result_simps split: prod.splits)


definition no_order :: "(nat \<rightharpoonup> dimension_scale) \<Rightarrow> dimension_scale list" where
  "no_order m = map (\<lambda>a. the (m a)) (sorted_list_of_set (dom m))"

definition small_nc :: netcdf_file where
  "small_nc = \<lparr>nf_backend = BackendHdf5 small_open,
     nf_root = NcGroup [] [SLASH]
       [\<lparr>nd_name = phony_name 0, nd_len = 2, nd_unlimited = False, nd_id = Some 0, nd_has_variable = False, nd_phony = True\<rparr>]
       [\<lparr>nv_name = [120], nv_path = [SLASH, 120], nv_dimensions = [phony_name 0], nv_shape = [2], nv_attributes = [],
         nv_complete = True, nv_is_coordinate = False\<rparr>] [] []\<rparr>"

lemma small_scales: "collect_dimension_scales small_open = Ok (Map.empty, 0)"
  by (simp add: collect_dimension_scales_def file_datasets_def small_open_def small_root_def small_dataset_def is_scale_def
      dataset_attribute_def)

lemma small_nc_opens: "from_hdf5 order small_open = Ok small_nc"
proof -
  have "resolve_dimensions order ctx small_dataset Map.empty False [] (Map.empty, 0) =
      Ok ([phony_name 0], [\<lparr>nd_name = phony_name 0, nd_len = 2, nd_unlimited = False, nd_id = Some 0,
        nd_has_variable = False, nd_phony = True\<rparr>], (Map.empty, 1))" for ctx
    by (simp add: resolve_dimensions_def small_dataset_def dataset_attribute_def phony_resolve_def add_i64_def i64_max_def
        axis_unlimited_def index_at_def)
  then have "nc_build_group order (file_ctx small_open) Map.empty small_root (Map.empty, 0) = Ok (nf_root small_nc, (Map.empty, 1))"
    by (simp add: small_root_def by_name_def named_dimensions_def map_filter_def build_variable_def small_nc_def visible_attributes_def)
      (simp add: small_dataset_def visible_attributes_def)
  moreover have "f_root small_open = small_root" by (simp add: small_open_def)
  ultimately show ?thesis by (simp add: from_hdf5_def small_scales small_nc_def)
qed


lemma variable_found:
  assumes whole: "paths_ok (f_root h) \<and> g_path (f_root h) = [SLASH]" and nf: "from_hdf5 order h = Ok nf" and names: "names_ok (f_root h)"
    and v: "v \<in> set (variables_recursive (nf_root nf))"
  shows "\<exists>d \<in> set (file_datasets h). ds_path d = nv_path v \<and> ds_shape d = nv_shape v \<and>
    nf_variable nf (nv_path v) = Some \<lparr>bv_file = nf, bv_info = v, bv_store = StoreHdf5 d\<rparr>"
proof -
  obtain scales n where tree: "nf_backend nf = BackendHdf5 h" "nc_outline (nf_root nf) = object_outline scales (f_root h)"
    using from_hdf5_tree [OF nf] by metis
  have ok: "nc_paths_ok (nf_root nf)" "nc_names_ok (nf_root nf)"
    "\<exists>d \<in> set (file_datasets h). variable_core v = dataset_core scales d"
    using mirrored_tree_ok [OF tree(2)] whole names v unfolding file_datasets_def by blast+
  then obtain d where d: "d \<in> set (file_datasets h)" "ds_path d = nv_path v" "ds_shape d = nv_shape v"
    using variable_core_fields by metis
  have "ng_path (nf_root nf) = [SLASH]" using tree(2) whole by (cases "nf_root nf"; cases "f_root h") auto
  then obtain names g where n: "nc_descend (nf_root nf) names = Some g" "group_variable g (nv_name v) = Some v"
    "nv_path v = path_join [SLASH] (names @ [nv_name v])" "\<forall>n \<in> set (names @ [nv_name v]). n \<noteq> [] \<and> SLASH \<notin> set n"
    using nc_variable_located [OF ok(1,2) v] by metis
  have "variable_info nf (nv_path v) = Some v"
    using split_joined [OF _ n(4)] n(1,2) unfolding n(3) variable_info_def Let_def by simp
  moreover have "store_for nf v = Some (StoreHdf5 d)"
    using dataset_found [OF whole names d(1)] d(2) tree(1) by (simp add: store_for_def)
  ultimately show ?thesis using d by (auto simp: nf_variable_def)
qed

text \<open>
  C6. Every variable the netCDF layer lists is found again by its path and bound to the dataset that
  holds its values, whenever the names within each group are distinct, not empty and without a
  separator: what is listed can be read.
\<close>

theorem variables_found_by_path:
  assumes "from_source_with src opts = Ok h" and "from_hdf5 order h = Ok nf" and "names_ok (f_root h)"
    and "v \<in> set (variables_recursive (nf_root nf))"
  shows "\<exists>d \<in> set (file_datasets h). ds_path d = nv_path v \<and> ds_shape d = nv_shape v \<and>
    nf_variable nf (nv_path v) = Some \<lparr>bv_file = nf, bv_info = v, bv_store = StoreHdf5 d\<rparr>"
  using variable_found [OF opened_root [OF assms(1)] assms(2-4)] .

theorem variables_found_by_path_witness:
  "\<exists>v. nf_variable small_nc [SLASH, 120] = Some \<lparr>bv_file = small_nc, bv_info = v, bv_store = StoreHdf5 small_dataset\<rparr>"
proof -
  let ?v = "hd (variables_recursive (nf_root small_nc))"
  have v: "?v \<in> set (variables_recursive (nf_root small_nc))" "nv_path ?v = [SLASH, 120]" by (simp_all add: small_nc_def)
  have names: "names_ok (f_root small_open)" by (simp add: small_open_def small_root_def small_dataset_def SLASH_def)
  have "file_datasets small_open = [small_dataset]" by (simp add: file_datasets_def small_open_def small_root_def)
  then show ?thesis
    using variables_found_by_path [OF small_file_opens small_nc_opens [of no_order] names v(1)] v(2) by auto
qed

section \<open>Invented dimensions\<close>

lemma decimal_nonempty [simp]: "decimal n \<noteq> []" "[] \<noteq> decimal n"
  by (subst decimal.simps; simp)+

lemma decimal_inj: "decimal m = decimal n \<Longrightarrow> m = n"
proof (induction m arbitrary: n rule: decimal.induct)
  case (1 m)
  have digit: "(char_of (48 + a :: nat) = (char_of (48 + b) :: char)) = (a = b)" if "a < 10" "b < 10" for a b :: nat
  proof -
    have "of_char (char_of (48 + a) :: char) = (48 + a :: nat)" "of_char (char_of (48 + b) :: char) = (48 + b :: nat)"
      using that by simp_all
    then show ?thesis by (metis add_left_cancel)
  qed
  have eq: "(if m < 10 then [char_of (48 + m)] else decimal (m div 10) @ [char_of (48 + m mod 10)]) =
      (if n < 10 then [char_of (48 + n)] else decimal (n div 10) @ [char_of (48 + n mod 10)] :: string)"
    using 1(2) by (simp only: decimal.simps [of m, symmetric] decimal.simps [of n, symmetric])
  show ?case
  proof (cases "m < 10")
    case True
    then show ?thesis using eq digit by (auto split: if_splits)
  next
    case False
    then have "\<not> n < 10" using eq by auto
    then have "decimal (m div 10) = decimal (n div 10)" "m mod 10 = n mod 10" using eq False digit by auto
    then show ?thesis using 1(1) [OF False] by (metis div_mult_mod_eq)
  qed
qed

lemma ascii_inj: "ascii s = ascii t \<Longrightarrow> s = t"
proof -
  have "inj (\<lambda>c :: char. (of_nat (of_char c) :: byte))"
  proof (rule injI)
    fix c d :: char
    assume "(of_nat (of_char c) :: byte) = of_nat (of_char d)"
    moreover have "(of_char c :: nat) < 256" "(of_char d :: nat) < 256" by simp_all
    ultimately have "(of_char c :: nat) = of_char d" by (simp add: word_of_nat_eq_iff take_bit_eq_mod)
    then show "c = d" by simp
  qed
  then show "ascii s = ascii t \<Longrightarrow> s = t" unfolding ascii_def using inj_map_eq_map by blast
qed

lemma phony_name_inj: "0 \<le> m \<Longrightarrow> 0 \<le> n \<Longrightarrow> phony_name m = phony_name n \<Longrightarrow> m = n"
  unfolding phony_name_def using ascii_inj decimal_inj by (fastforce simp: format_int_def)

text \<open>The dimensions of a group of which every one was invented from the counter \<open>m\<close> on, below \<open>n\<close>.\<close>

definition invented :: "int \<Rightarrow> int \<Rightarrow> nc_dimension list \<Rightarrow> bool" where
  "invented m n dimensions \<longleftrightarrow> 0 \<le> m \<and> m \<le> n \<and> distinct (map nd_name dimensions) \<and>
     (\<forall>d \<in> set dimensions. nd_phony d \<and> (\<exists>k. m \<le> k \<and> k < n \<and> nd_name d = phony_name k))"

definition axis_named :: "nc_dimension list \<Rightarrow> rstring \<Rightarrow> nat \<Rightarrow> bool" where
  "axis_named dimensions name len \<longleftrightarrow> (\<exists>d \<in> set dimensions. nd_name d = name \<and> nd_len d = len)"

lemma axis_named_mono: "axis_named ds name len \<Longrightarrow> set ds \<subseteq> set ds' \<Longrightarrow> axis_named ds' name len"
  by (auto simp: axis_named_def)

lemma phony_resolve_invented:
  assumes "phony_resolve n ds taken len unl = Ok (name, ds', n')" and inv: "invented m n ds"
    and taken: "set taken \<subseteq> nd_name ` set ds"
  shows "invented m n' ds' \<and> set ds \<subseteq> set ds' \<and> axis_named ds' name len \<and> name \<notin> set taken"
proof (cases "find (\<lambda>d. nd_len d = len \<and> nd_unlimited d = unl \<and> nd_name d \<notin> set taken) ds")
  case (Some d)
  then have "d \<in> set ds" "nd_len d = len" "nd_name d \<notin> set taken" by (auto simp: find_Some_iff)
  then show ?thesis using assms Some by (auto simp: phony_resolve_def axis_named_def)
next
  case None
  let ?d = "\<lparr>nd_name = phony_name n, nd_len = len, nd_unlimited = unl \<or> len = 0, nd_id = Some n, nd_has_variable = False, nd_phony = True\<rparr>"
  have r: "name = phony_name n" "ds' = ds @ [?d]" "n' = n + 1"
    using assms(1) None by (auto simp: phony_resolve_def result_simps add_i64_def split: if_splits)
  have new: "phony_name n \<notin> nd_name ` set ds"
  proof
    assume "phony_name n \<in> nd_name ` set ds"
    then obtain k where "m \<le> k" "k < n" "phony_name n = phony_name k" using inv by (auto simp: invented_def)
    then show False using phony_name_inj [of n k] inv by (auto simp: invented_def)
  qed
  then have "name \<notin> set taken" using taken r(1) by blast
  moreover have "invented m n' ds'"
    using inv new unfolding r by (auto simp: invented_def) (metis add_le_cancel_left less_add_one order.strict_trans1 order_less_imp_le zless_add1_eq)+
  ultimately show ?thesis by (auto simp: r axis_named_def)
qed

definition axes_ok :: "nc_dimension list \<Rightarrow> nat list \<Rightarrow> rstring list \<Rightarrow> bool" where
  "axes_ok ds shape names \<longleftrightarrow>
     length names \<le> length shape \<and> distinct names \<and> (\<forall>i < length names. axis_named ds (names ! i) (shape ! i))"

lemma axes_ok_mono: "axes_ok ds shape names \<Longrightarrow> set ds \<subseteq> set ds' \<Longrightarrow> axes_ok ds' shape names"
  using axis_named_mono by (auto simp: axes_ok_def)

lemma axes_ok_names: "axes_ok ds shape names \<Longrightarrow> set names \<subseteq> nd_name ` set ds"
proof
  fix name
  assume "axes_ok ds shape names" and "name \<in> set names"
  then obtain i where "i < length names" "axis_named ds (names ! i) (shape ! i)" "name = names ! i"
    by (auto simp: axes_ok_def in_set_conv_nth)
  then show "name \<in> nd_name ` set ds" unfolding axis_named_def by (metis image_eqI)
qed

lemma name_axes_invented:
  "name_axes d axis (replicate k None) out ds n = Ok (names, ds', n') \<Longrightarrow> invented m n ds \<Longrightarrow> length out = axis \<Longrightarrow>
   axes_ok ds (ds_shape d) out \<Longrightarrow>
   invented m n' ds' \<and> set ds \<subseteq> set ds' \<and> axes_ok ds' (ds_shape d) names \<and> length names = axis + k"
proof (induction k arbitrary: axis out ds n)
  case (Suc k)
  obtain len name ds1 n1 where step: "index_at (ds_shape d) axis = Ok len"
    "phony_resolve n ds out len (axis_unlimited d axis) = Ok (name, ds1, n1)"
    "name_axes d (axis + 1) (replicate k None) (out @ [name]) ds1 n1 = Ok (names, ds', n')"
    using Suc.prems(1) by (auto simp: result_simps split: prod.splits)
  have len: "axis < length (ds_shape d)" "len = ds_shape d ! axis"
    using step(1) by (auto simp: index_at_def split: if_splits)
  note new = phony_resolve_invented [OF step(2) Suc.prems(2) axes_ok_names [OF Suc.prems(4)]]
  have "axes_ok ds1 (ds_shape d) out" using axes_ok_mono [OF Suc.prems(4)] new by blast
  then have "axes_ok ds1 (ds_shape d) (out @ [name])"
    using new len Suc.prems(3) by (auto simp: axes_ok_def nth_append less_Suc_eq)
  then show ?case using Suc.IH [OF step(3)] new Suc.prems(3) by auto
qed auto

lemma list_axis_empty: "list_axis ctx a Map.empty axis slot heaps = Ok (slot', heaps') \<Longrightarrow> slot' = slot"
  by (auto simp: list_axis_def Let_def result_simps split: prod.splits if_splits option.splits)

lemma list_axes_empty: "list_axes ctx a Map.empty axis slots heaps = Ok (slots', heaps') \<Longrightarrow> slots' = slots"
  by (induction slots arbitrary: axis heaps slots' heaps') (auto simp: result_simps dest!: list_axis_empty split: prod.splits)

lemma coordinates_empty: "order Map.empty = [] \<Longrightarrow> named \<noteq> [] \<Longrightarrow> resolve_from_coordinates order a Map.empty named = named"
  by (auto simp: resolve_from_coordinates_def scales_by_id_def Let_def list_all_iff split: sum.splits)

lemma plain_dimensions:
  assumes "resolve_dimensions order ctx d Map.empty False ds (heaps, n) = Ok (names, ds', (heaps', n'))"
    and order: "order Map.empty = []" and inv: "invented m n ds"
  shows "invented m n' ds' \<and> set ds \<subseteq> set ds' \<and> axes_ok ds' (ds_shape d) names \<and> length names = length (ds_shape d)"
proof (cases "length (ds_shape d) = 0")
  case True
  then show ?thesis using assms(1) inv by (auto simp: resolve_dimensions_def axes_ok_def)
next
  case False
  let ?none = "replicate (length (ds_shape d)) (None :: rstring option)"
  let ?list = "case dataset_attribute d (ascii ''DIMENSION_LIST'') of
            None \<Rightarrow> Ok (?none, heaps) | Some a \<Rightarrow> resolve_from_dimension_list ctx a Map.empty ?none heaps"
  have all: "named = ?none" if "?list = Ok (named, h)" for named h
    using that list_axes_empty by (auto simp: resolve_from_dimension_list_def split: option.splits if_splits)
  have coords: "resolve_from_coordinates order a Map.empty ?none = ?none" for a
    using False coordinates_empty [where order = order, OF order] by simp
  obtain named h where named: "?list = Ok (named, h)"
    using assms(1) False by (auto simp: resolve_dimensions_def Let_def result_simps cong: option.case_cong)
  have "name_axes d 0 ?none [] ds n = Ok (names, ds', n')"
    using assms(1) False named unfolding all [OF named] resolve_dimensions_def Let_def
    by (auto simp: result_simps coords cong: option.case_cong split: prod.splits option.splits if_splits)
  from name_axes_invented [OF this inv] show ?thesis by (simp add: axes_ok_def)
qed

definition variable_axes_ok :: "nc_dimension list \<Rightarrow> nc_variable \<Rightarrow> bool" where
  "variable_axes_ok ds v \<longleftrightarrow> axes_ok ds (nv_shape v) (nv_dimensions v) \<and> length (nv_dimensions v) = length (nv_shape v)"

fun plain_group :: "nc_group \<Rightarrow> bool" where
  "plain_group (NcGroup nm path ds vs as gs) \<longleftrightarrow> (\<forall>v \<in> set vs. variable_axes_ok ds v) \<and> (\<forall>g \<in> set gs. plain_group g)"

fun group_dimensions :: "nc_group \<Rightarrow> nc_dimension list" where
  "group_dimensions (NcGroup nm path ds vs as gs) = ds @ concat (map group_dimensions gs)"

lemma plain_variables:
  assumes order: "order Map.empty = []"
  shows "build_variables order ctx Map.empty entries' ds (heaps, n) = Ok (built, ds', (heaps', n')) \<Longrightarrow> invented m n ds \<Longrightarrow>
    invented m n' ds' \<and> set ds \<subseteq> set ds' \<and> (\<forall>(_, v) \<in> set built. variable_axes_ok ds' v)"
proof (induction entries' arbitrary: ds heaps n built)
  case (Cons entry rest)
  obtain at d where entry: "entry = (at, d)" by fastforce
  obtain v ds1 heaps1 n1 built1 where v: "build_variable order ctx d Map.empty False ds (heaps, n) = Ok (v, ds1, (heaps1, n1))"
    "build_variables order ctx Map.empty rest ds1 (heaps1, n1) = Ok (built1, ds', (heaps', n'))" "built = (at, v) # built1"
    using Cons.prems(1) by (auto simp: entry result_simps split: prod.splits)
  obtain names where r: "resolve_dimensions order ctx d Map.empty False ds (heaps, n) = Ok (names, ds1, (heaps1, n1))"
    "nv_dimensions v = names" "nv_shape v = ds_shape d"
    using v(1) by (auto simp: build_variable_def result_simps split: prod.splits)
  note p = plain_dimensions [OF r(1) order Cons.prems(2)]
  have "variable_axes_ok ds1 v" using p r(2,3) by (simp add: variable_axes_ok_def)
  moreover note Cons.IH [OF v(2)] p
  ultimately show ?case using v(3) axes_ok_mono by (auto simp: variable_axes_ok_def)
qed simp

lemma invented_set:
  assumes "invented m n ds" and "mset ds' = mset ds"
  shows "invented m n ds'"
proof -
  have "mset (map nd_name ds') = mset (map nd_name ds)" using assms(2) by simp
  then have "distinct (map nd_name ds') = distinct (map nd_name ds)" by (rule mset_eq_imp_distinct_iff)
  moreover have "set ds' = set ds" using assms(2) by (rule mset_eq_setD)
  ultimately show ?thesis using assms(1) by (simp add: invented_def)
qed

lemma invented_append:
  assumes xs: "invented m k xs" and ys: "invented k n ys"
  shows "invented m n (xs @ ys)"
proof -
  have x: "\<exists>i. m \<le> i \<and> i < k \<and> nd_name d = phony_name i \<and> nd_phony d" if "d \<in> set xs" for d
    using xs that by (auto simp: invented_def)
  have y: "\<exists>i. k \<le> i \<and> i < n \<and> nd_name d = phony_name i \<and> nd_phony d" if "d \<in> set ys" for d
    using ys that by (auto simp: invented_def)
  have le: "0 \<le> m" "m \<le> k" "k \<le> n" using xs ys by (auto simp: invented_def)
  have apart: "nd_name d \<noteq> nd_name e" if d: "d \<in> set xs" and e: "e \<in> set ys" for d e
  proof
    assume eq: "nd_name d = nd_name e"
    obtain i j where "m \<le> i" "i < k" "nd_name d = phony_name i" "k \<le> j" "nd_name e = phony_name j"
      using x [OF d] y [OF e] by blast
    then show False using phony_name_inj [of i j] eq le by simp
  qed
  have "\<exists>i. m \<le> i \<and> i < n \<and> nd_name d = phony_name i \<and> nd_phony d" if "d \<in> set (xs @ ys)" for d
  proof (cases "d \<in> set xs")
    case True
    then show ?thesis using x [OF True] le(3) by (meson order.strict_trans2)
  next
    case False
    then have "d \<in> set ys" using that by simp
    from y [OF this] show ?thesis using le(2) by (meson order.trans)
  qed
  moreover have "nd_name ` set xs \<inter> nd_name ` set ys = {}" using apart by fastforce
  ultimately show ?thesis using xs ys le unfolding invented_def by (simp add: Ball_def) blast
qed

lemma plain_groups:
  "nc_build_group order ctx scales g (heaps, m) = Ok (ng, (heaps', n)) \<Longrightarrow> scales = Map.empty \<Longrightarrow> order Map.empty = [] \<Longrightarrow> 0 \<le> m \<Longrightarrow>
   plain_group ng \<and> invented m n (group_dimensions ng)"
  "nc_build_groups order ctx scales gs (heaps, m) = Ok (ngs, (heaps', n)) \<Longrightarrow> scales = Map.empty \<Longrightarrow> order Map.empty = [] \<Longrightarrow> 0 \<le> m \<Longrightarrow>
   (\<forall>ng \<in> set ngs. plain_group ng) \<and> invented m n (concat (map group_dimensions ngs))"
proof (induction order ctx scales g "(heaps, m)" and order ctx scales gs "(heaps, m)"
    arbitrary: ng heaps m heaps' n and ngs heaps m heaps' n rule: nc_build_group_nc_build_groups.induct)
  case (1 order ctx scales nm path address attrs complete groups datasets)
  obtain gs heaps1 k built ds as where b: "nc_build_groups order ctx scales groups (heaps, m) = Ok (gs, (heaps1, k))"
    "build_variables order ctx Map.empty (by_name datasets) (named_dimensions Map.empty (by_name datasets)) (heaps1, k) =
       Ok (built, ds, (heaps', n))"
    "ng = NcGroup nm path (sort_key dimension_key ds) (map snd (sort_key fst built)) as gs"
    using 1(2) unfolding 1(3) by (auto simp: result_simps split: prod.splits)
  have below: "(\<forall>ng \<in> set gs. plain_group ng) \<and> invented m k (concat (map group_dimensions gs))"
    by (rule 1(1) [OF b(1) 1(3,4,5)])
  have "named_dimensions Map.empty es = []" for es by (induction es) (auto simp: named_dimensions_def map_filter_def)
  moreover have "invented k k []" using below by (auto simp: invented_def)
  ultimately have own: "invented k n ds \<and> (\<forall>(_, v) \<in> set built. variable_axes_ok ds v)"
    using plain_variables [where order = order, OF 1(4) b(2), of k] by auto
  have "invented m n (concat (map group_dimensions gs) @ ds)" using invented_append below own by blast
  then have "invented m n (group_dimensions ng)" unfolding b(3) by (rule invented_set) simp
  moreover have "plain_group ng"
    unfolding b(3) using below own by (auto simp: variable_axes_ok_def axes_ok_def axis_named_def)
  ultimately show ?case by simp
next
  case (2 order ctx scales)
  then show ?case by (auto simp: invented_def)
next
  case (3 order ctx scales g gs)
  obtain h heaps1 k hs where b: "nc_build_group order ctx scales g (heaps, m) = Ok (h, (heaps1, k))"
    "nc_build_groups order ctx scales gs (heaps1, k) = Ok (hs, (heaps', n))" "ngs = h # hs"
    using 3(3) by (auto simp: result_simps split: prod.splits)
  have first: "plain_group h \<and> invented m k (group_dimensions h)" by (rule 3(1) [OF b(1) 3(4,5,6)])
  then have "0 \<le> k" by (auto simp: invented_def)
  with 3(2) [OF b(1) refl b(2) 3(4,5)] have "(\<forall>ng \<in> set hs. plain_group ng) \<and> invented k n (concat (map group_dimensions hs))" by blast
  then show ?case using first invented_append unfolding b(3) by auto
qed

end
