(* ===== verification/Netcdf_Access.thy ===== *)
theory Netcdf_Access
  imports Netcdf_Tree
begin

text \<open>
  Reads through the netCDF layer: the selection, the container and the conversion of the elements
  composed, and what the layer does on damaged or unusual files.
\<close>

section \<open>Typed reads of a classic variable\<close>

definition big_endian_value :: "bool \<Rightarrow> bytes \<Rightarrow> int" where
  "big_endian_value sg b = (if sg then signed_value (rev b) else int (be_nat b))"

lemma selection_in_shape:
  assumes "\<forall>d \<in> set shape. d \<le> u64_max" and "to_hyperslab es shape = Inr slab"
  shows "slab_ok slab shape"
proof (cases es)
  case All
  then show ?thesis using assms(2) by (auto simp: to_hyperslab_def hyperslab_all_def slab_ok_def)
next
  case (Extent e)
  then show ?thesis using to_hyperslab_Extent [OF assms(1)] assms(2) by blast
qed


definition wide_file :: classic_file where
  "wide_file = record_file\<lparr>cf_header := (cf_header record_file)\<lparr>ch_variables := [record_variable]\<rparr>\<rparr>"

definition wide_nc :: netcdf_file where
  "wide_nc = \<lparr>nf_backend = BackendClassic wide_file, nf_root = NcGroup [] [SLASH] []
     [\<lparr>nv_name = [118], nv_path = [SLASH, 118], nv_dimensions = [[116], [120]], nv_shape = [2, 1], nv_attributes = [],
       nv_complete = True, nv_is_coordinate = False\<rparr>] [] []\<rparr>"

lemma wide_opens: "from_classic wide_file = Ok wide_nc"
  by (simp add: from_classic_def wide_file_def record_file_def wide_nc_def classic_nc_variable_def classic_attributes_def)
    (simp add: record_variable_def classic_attributes_def)


section \<open>Files without dimension scales\<close>

lemma scan_no_scales: "\<forall>d \<in> set ds. \<not> is_scale d \<Longrightarrow> scan_scales ds out n = Ok (out, n)"
  by (induction ds) auto

text \<open>
  C7. In a file without dimension scales every axis of every variable gets an invented dimension of its
  group that has exactly the length of the axis, no variable uses a dimension twice, and no two
  dimensions of the whole file share a name.  A hash map without entries iterates over nothing.
\<close>

theorem plain_file_dimensions:
  assumes "from_hdf5 order f = Ok nf" and "\<forall>d \<in> set (file_datasets f). \<not> is_scale d" and "order Map.empty = []"
  shows "plain_group (nf_root nf) \<and> distinct (map nd_name (group_dimensions (nf_root nf))) \<and>
    (\<forall>d \<in> set (group_dimensions (nf_root nf)). nd_phony d)"
proof -
  have "collect_dimension_scales f = Ok (Map.empty, 0)"
    unfolding collect_dimension_scales_def by (rule scan_no_scales [OF assms(2)])
  then obtain heaps n where "nc_build_group order (file_ctx f) Map.empty (f_root f) (Map.empty, 0) = Ok (nf_root nf, (heaps, n))"
    using assms(1) by (auto simp: from_hdf5_def result_simps split: prod.splits)
  from plain_groups(1) [where order = order, OF this refl assms(3)] show ?thesis by (auto simp: invented_def)
qed

theorem plain_file_dimensions_witness:
  "variable_axes_ok (ng_dimensions (nf_root small_nc)) (hd (ng_variables (nf_root small_nc)))"
proof -
  have "\<forall>d \<in> set (file_datasets small_open). \<not> is_scale d"
    by (simp add: file_datasets_def small_open_def small_root_def small_dataset_def is_scale_def dataset_attribute_def)
  then have "plain_group (nf_root small_nc)"
    using plain_file_dimensions [OF small_nc_opens [of no_order]] by (simp add: no_order_def)
  then show ?thesis by (simp add: small_nc_def)
qed

section \<open>Damaged files\<close>

text \<open>
  A file whose dimension scale records the largest dimension id makes the open panic when a later
  scale records none: the next free id saturates, and the increment behind it is not checked.
\<close>

theorem dimension_id_overflow_panics:
  assumes "file_datasets f = before @ d # between @ e # after"
    and "\<forall>x \<in> set before. \<not> is_scale x" and "\<forall>x \<in> set between. \<not> is_scale x"
    and "is_scale d" and "recorded_dimid d = Some i64_max" and "is_scale e" and "recorded_dimid e = None"
  shows "from_hdf5 order f = panic"
proof -
  have skip: "\<forall>x \<in> set xs. \<not> is_scale x \<Longrightarrow> scan_scales (xs @ ys) out n = scan_scales ys out n" for xs ys out n
    by (induction xs arbitrary: out) auto
  have max: "max 0 (min (i64_max + 1) i64_max) = i64_max" by (simp add: i64_max_def)
  have "add_i64 i64_max 1 = panic" by (simp add: add_i64_def)
  then have "collect_dimension_scales f = panic"
    unfolding collect_dimension_scales_def assms(1) using assms(2-7) max by (simp add: skip)
  then show ?thesis by (simp add: from_hdf5_def)
qed

definition text_attribute :: "string \<Rightarrow> string \<Rightarrow> attribute" where
  "text_attribute nm s = \<lparr>attr_name = ascii nm, attr_type = Datatype 1 (length s) (String NullTerminate Ascii),
     attr_space = \<lparr>ds_kind = Scalar, dims = [], max_dims = None\<rparr>, attr_data = ascii s\<rparr>"

definition dimid_attribute :: attribute where
  "dimid_attribute = \<lparr>attr_name = ascii ''_Netcdf4Dimid'', attr_type = Datatype 1 8 (FixedPoint Little True 0 64),
     attr_space = \<lparr>ds_kind = Scalar, dims = [], max_dims = None\<rparr>, attr_data = [0xFF, 0xFF, 0xFF, 0xFF, 0xFF, 0xFF, 0xFF, 0x7F]\<rparr>"

definition scale_dataset :: "attribute list \<Rightarrow> dataset_entry" where
  "scale_dataset as = small_dataset\<lparr>ds_attributes := text_attribute ''CLASS'' ''DIMENSION_SCALE'' # as\<rparr>"

definition scale_file :: hdf5_file where
  "scale_file = small_open\<lparr>f_root := GroupIndex [] [SLASH] 48 [] True [] [scale_dataset [dimid_attribute], scale_dataset []]\<rparr>"

lemma length_ascii [simp]: "length (ascii s) = length s"
  by (simp add: ascii_def)

lemma scale_dataset_is_scale: "is_scale (scale_dataset as)"
proof -
  let ?s = "''DIMENSION_SCALE''" and ?a = "text_attribute ''CLASS'' ''DIMENSION_SCALE''"
  have utf: "from_utf8_lossy (ascii ?s) = ascii ?s"
    by (rule from_utf8_lossy_id, rule valid_utf8_ascii) (auto simp: ascii_def)
  have "decode_text ?a = Some (ascii ?s)"
    using utf by (simp add: decode_text_def decode_all_text_def text_attribute_def elements_of_def attribute_element_count_def
        dataspace_element_count_def text_end_def slice_def position_or_def ascii_def Let_def)
  then show ?thesis
    by (simp add: is_scale_def dataset_attribute_def scale_dataset_def) (simp add: text_attribute_def)
qed

theorem dimension_id_overflow_panics_witness: "from_hdf5 no_order scale_file = panic"
proof (rule dimension_id_overflow_panics [where before = "[]" and between = "[]" and after = "[]"])
  show "file_datasets scale_file = [] @ scale_dataset [dimid_attribute] # [] @ scale_dataset [] # []"
    by (simp add: file_datasets_def scale_file_def)
  have other: "ascii ''CLASS'' \<noteq> ascii ''_Netcdf4Dimid''" using ascii_inj by blast
  show "recorded_dimid (scale_dataset []) = None"
    using other by (simp add: recorded_dimid_def dataset_attribute_def scale_dataset_def) (simp add: text_attribute_def)
  have "dataset_attribute (scale_dataset [dimid_attribute]) (ascii ''_Netcdf4Dimid'') = Some dimid_attribute"
    using other by (simp add: dataset_attribute_def scale_dataset_def) (simp add: text_attribute_def dimid_attribute_def)
  moreover have "\<exists>w ws. decode_ints dimid_attribute = Ok (w # ws) \<and> sint w = i64_max"
  proof -
    obtain ws where "decode_ints dimid_attribute = Ok ws" "cast_ints I64 ws = [i64_max]"
      using decode_ints_stored [of dimid_attribute Little I64 0 64 "[i64_max]" "[]"]
      by (auto simp: dimid_attribute_def attribute_element_count_def dataspace_element_count_def stored_int_def i64_max_def
          type_min_def type_max_def to_le_numeral)
    moreover have "wrap_to I64 (sint w) = sint w" for w :: "64 word"
      using sint_ge [of w] sint_lt [of w] by (intro wrap_in_range) (auto simp: type_min_def type_max_def)
    ultimately show ?thesis by (cases ws) (auto simp: cast_ints_def)
  qed
  ultimately show "recorded_dimid (scale_dataset [dimid_attribute]) = Some i64_max" by (auto simp: recorded_dimid_def)
qed (simp_all add: scale_dataset_is_scale)

text \<open>
  An axis whose scale list points into an unreadable heap does not keep an empty slot: the error of
  the heap ends the open.
\<close>

lemma unreadable_list_fails:
  assumes "is_vlen (attr_type a)" and "length named * descriptor_encoded_len (ctx_sizes ctx) \<le> length (attr_data a)"
    and "named \<noteq> []" and "parse_descriptor (take (descriptor_encoded_len (ctx_sizes ctx)) (attr_data a)) (ctx_sizes ctx) = Ok d"
    and "vlen_length d \<noteq> 0" and "global_heap_read ctx (collection_address d) = Inl e"
  shows "resolve_from_dimension_list ctx a scales named Map.empty = Inl e"
proof -
  let ?n = "descriptor_encoded_len (ctx_sizes ctx)"
  obtain slot slots where named: "named = slot # slots" using assms(3) by (cases named) auto
  then have "?n \<le> length (attr_data a)" using assms(2) by simp
  then have "slice_range (attr_data a) 0 ?n = Ok (take ?n (attr_data a))" by (simp add: slice_range_def slice_def)
  then show ?thesis
    using assms by (simp add: resolve_from_dimension_list_def named list_axis_def Let_def heap_cache_get_def not_less)
qed

end
