(* ===== verification/Async_Read.thy ===== *)
theory Async_Read
  imports Async_Source Dataset_Read
begin

text \<open>
  The asynchronous read of a hyperslab (\<^verbatim>\<open>read.rs\<close>, \<open>read_hyperslab_async_with\<close>): work out every range
  the read needs, fetch them in one batch, then decode and assemble.  The chunk index of the dataset
  is resolved before the call, so the once-written cell is an argument.  The state of a read is the
  chunk cache and the page cache; a batch that fails leaves the page cache as it was.
\<close>

section \<open>Contiguous data\<close>

definition collect_runs :: "nat list \<Rightarrow> hyperslab \<Rightarrow> (nat \<times> nat \<times> nat) list result" where
  "collect_runs shape slab = for_each_run shape slab (\<lambda>s d run acc. Ok (acc @ [(s, d, run)])) []"

definition run_request :: "superblock \<Rightarrow> nat \<Rightarrow> nat \<Rightarrow> nat \<times> nat \<times> nat \<Rightarrow> (nat \<times> nat) result" where
  "run_request sb address es = (\<lambda>(s, _, run).
     and_then (mul64 s es) (\<lambda>off. and_then (add64 address off) (\<lambda>at.
     and_then (mul64 run es) (\<lambda>len. Ok (resolve sb at, len)))))"

fun copy_blobs :: "nat \<Rightarrow> ((nat \<times> nat \<times> nat) \<times> bytes) list \<Rightarrow> bytes \<Rightarrow> bytes result" where
  "copy_blobs es [] out = Ok out"
| "copy_blobs es (((s, d, run), b) # rest) out =
     and_then (mul64 d es) (\<lambda>db. and_then (mul64 run es) (\<lambda>len.
       if length b < len then Error (Malformed ''contiguous read returned fewer bytes than requested'')
       else and_then (copy_into out db len (take len b)) (copy_blobs es rest)))"

definition async_read_contiguous ::
  "async_source \<Rightarrow> superblock \<Rightarrow> io_config \<Rightarrow> nat \<Rightarrow> bytes \<Rightarrow> nat list \<Rightarrow> hyperslab \<Rightarrow> nat \<Rightarrow> io_cache option \<Rightarrow>
   (bytes \<times> io_cache option) result" where
  "async_read_contiguous src sb io address out shape slab es pages_held =
     and_then (collect_runs shape slab) (\<lambda>runs.
     and_then (map_result (run_request sb address es) runs) (\<lambda>ranges.
     and_then (fetch_bytes src pages_held ranges io) (\<lambda>(blobs, pages_held).
     and_then (copy_blobs es (zip runs blobs) out) (\<lambda>out. Ok (out, pages_held)))))"

section \<open>Chunked data\<close>

text \<open>The test of \<open>intersects\<close> on a record of any rank: an axis the offset does not have panics.\<close>

fun meets_axes :: "chunk_record \<Rightarrow> nat list \<Rightarrow> hyperslab \<Rightarrow> nat list \<Rightarrow> bool result" where
  "meets_axes r chunk_shape slab [] = Ok True"
| "meets_axes r chunk_shape slab (axis # axes) =
     (if axis \<ge> length (chunk_offset r) then panic
      else if max (chunk_offset r ! axis) (start slab ! axis) <
          min (saturating_add (chunk_offset r ! axis) (chunk_shape ! axis)) (start slab ! axis + cnt slab ! axis)
      then meets_axes r chunk_shape slab axes
      else Ok False)"

fun address_needed :: "nat \<Rightarrow> nat list \<Rightarrow> hyperslab \<Rightarrow> nat \<Rightarrow> chunk_record list \<Rightarrow> bool result" where
  "address_needed rank chunk_shape slab a [] = Ok False"
| "address_needed rank chunk_shape slab a (r # rest) =
     (if chunk_address r = a
      then and_then (meets_axes r chunk_shape slab [0..<rank]) (\<lambda>b.
        if b then Ok True else address_needed rank chunk_shape slab a rest)
      else address_needed rank chunk_shape slab a rest)"

definition insert_chunk :: "eviction \<Rightarrow> nat \<Rightarrow> bytes \<Rightarrow> chunk_cache option \<Rightarrow> chunk_cache option" where
  "insert_chunk evict a d cache = map_option (\<lambda>c. c\<lparr>entries := evict ((entries c)(a \<mapsto> d))\<rparr>) cache"

definition cached_chunk :: "chunk_cache option \<Rightarrow> nat \<Rightarrow> bytes option" where
  "cached_chunk cache a = (case cache of None \<Rightarrow> None | Some c \<Rightarrow> entries c a)"

definition needed_chunks :: "chunk_record list \<Rightarrow> nat list \<Rightarrow> hyperslab \<Rightarrow> nat \<Rightarrow> nat list" where
  "needed_chunks chunks chunk_shape slab rank =
     filter (\<lambda>i. length (chunk_offset (chunks ! i)) = rank \<and> intersects (chunks ! i) chunk_shape slab rank)
       [0..<length chunks]"

definition async_wanted :: "chunk_cache option \<Rightarrow> chunk_record list \<Rightarrow> nat list \<Rightarrow> chunk_record list result" where
  "async_wanted cache chunks needed =
     (if needed = [] then Ok []
      else and_then (add64 (last needed + 1) (case cache of None \<Rightarrow> 0 | Some c \<Rightarrow> readahead c)) (\<lambda>fin.
        Ok (wanted_chunks (cached_chunk cache) chunks (needed @ [last needed + 1..<min fin (length chunks)]))))"

fun store_fetched ::
  "eviction \<Rightarrow> codecs \<Rightarrow> chunk_filter list \<Rightarrow> nat \<Rightarrow> (nat \<Rightarrow> bool result) \<Rightarrow> (chunk_record \<times> bytes) list \<Rightarrow>
   chunk_cache option \<times> (nat \<rightharpoonup> bytes) \<Rightarrow> unit result \<times> chunk_cache option \<times> (nat \<rightharpoonup> bytes)" where
  "store_fetched evict cs filters dl fatal [] st = (Ok (), st)"
| "store_fetched evict cs filters dl fatal ((r, raw) # rest) (cache, fetched) =
     (case decode_chunk cs filters (word_of_nat (filter_mask r)) raw dl of
        Inr d \<Rightarrow>
          store_fetched evict cs filters dl fatal rest
            (insert_chunk evict (chunk_address r) d cache, fetched(chunk_address r \<mapsto> d))
      | Inl f \<Rightarrow>
          if f = Panic then (panic, (cache, fetched))
          else (case fatal (chunk_address r) of
              Inl p \<Rightarrow> (Inl p, (cache, fetched))
            | Inr b \<Rightarrow> if b then (Inl f, (cache, fetched)) else store_fetched evict cs filters dl fatal rest (cache, fetched)))"

definition fetch_chunks ::
  "eviction \<Rightarrow> codecs \<Rightarrow> async_source \<Rightarrow> superblock \<Rightarrow> io_config \<Rightarrow> chunk_filter list \<Rightarrow> nat \<Rightarrow> (nat \<Rightarrow> bool result) \<Rightarrow>
   chunk_record list \<Rightarrow> chunk_cache option \<times> io_cache option \<Rightarrow> (nat \<rightharpoonup> bytes) result \<times> chunk_cache option \<times> io_cache option" where
  "fetch_chunks evict cs src sb io filters dl fatal wanted st =
     (if wanted = [] then (Ok Map.empty, st)
      else case fetch_bytes src (snd st) (map (\<lambda>r. (resolve sb (chunk_address r), chunk_size r)) wanted) io of
        Inl f \<Rightarrow> (Inl f, st)
      | Inr (blobs, pages_held) \<Rightarrow>
          (case store_fetched evict cs filters dl fatal (zip wanted blobs) (fst st, Map.empty) of
             (r, cache, fetched) \<Rightarrow> (and_then r (\<lambda>_. Ok fetched), (cache, pages_held))))"

definition async_copy_chunk ::
  "chunk_record \<Rightarrow> nat list \<Rightarrow> hyperslab \<Rightarrow> nat \<Rightarrow> nat list \<Rightarrow> nat list \<Rightarrow> bytes \<Rightarrow> bytes \<Rightarrow> bytes result" where
  "async_copy_chunk r chunk_shape slab es chunk_strides dst_strides decoded out =
     (let lo = lows r slab; hi = highs r chunk_shape slab in
      and_then (sub64 (length chunk_shape) 1) (\<lambda>inner.
      and_then (map_result (\<lambda>(h, l). sub64 h l) (zip hi lo)) (\<lambda>ext.
        copy_rows (max (saturating_product (take inner ext)) (if length chunk_shape = 1 then 1 else 0))
          lo ext (chunk_offset r) (start slab) chunk_strides dst_strides (ext ! inner) es decoded
          (replicate inner 0) out)))"

fun async_chunk_loop ::
  "(nat \<Rightarrow> bytes option) \<Rightarrow> (nat \<rightharpoonup> bytes) \<Rightarrow> nat list \<Rightarrow> hyperslab \<Rightarrow> nat \<Rightarrow> nat \<Rightarrow> nat list \<Rightarrow> nat list \<Rightarrow>
   chunk_record list \<Rightarrow> bytes \<Rightarrow> bytes result" where
  "async_chunk_loop held fetched chunk_shape slab es dl chunk_strides dst_strides [] out = Ok out"
| "async_chunk_loop held fetched chunk_shape slab es dl chunk_strides dst_strides (r # rest) out =
     and_then
       (case held (chunk_address r) of
          Some hit \<Rightarrow> Ok hit
        | None \<Rightarrow>
            (case fetched (chunk_address r) of
               Some d \<Rightarrow> Ok d
             | None \<Rightarrow> Error (Malformed ''chunk was neither cached nor fetched'')))
       (\<lambda>decoded.
          if length decoded < dl then Error (Malformed ''chunk decoded to too few bytes'')
          else and_then (async_copy_chunk r chunk_shape slab es chunk_strides dst_strides decoded out)
            (async_chunk_loop held fetched chunk_shape slab es dl chunk_strides dst_strides rest))"

definition async_read_chunked ::
  "eviction \<Rightarrow> codecs \<Rightarrow> async_source \<Rightarrow> superblock \<Rightarrow> io_config \<Rightarrow> 'e dataset_index_scheme \<Rightarrow> chunk_record list \<Rightarrow> nat list \<Rightarrow>
   bytes \<Rightarrow> hyperslab \<Rightarrow> nat \<Rightarrow> chunk_cache option \<times> io_cache option \<Rightarrow> bytes result \<times> chunk_cache option \<times> io_cache option" where
  "async_read_chunked evict cs src sb io ds chunks chunk_dims out slab es st =
     (let rank = length (ds_shape ds) in
      if length chunk_dims \<noteq> rank
      then (Error (Malformed ''the rank of the chunk shape differs from the rank of the dataset''), st)
      else then_st (decoded_chunk_len chunk_dims es, st) (\<lambda>dl st.
        let needed = needed_chunks chunks chunk_dims slab rank in
        then_st (async_wanted (fst st) chunks needed, st) (\<lambda>wanted st.
        then_st (fetch_chunks evict cs src sb io (ds_pipeline ds) dl
            (\<lambda>a. address_needed rank chunk_dims slab a chunks) wanted st) (\<lambda>fetched st.
        then_st (strides (cnt slab), st) (\<lambda>dst_strides st.
        then_st (strides chunk_dims, st) (\<lambda>chunk_strides st.
          (async_chunk_loop (cached_chunk (fst st)) fetched chunk_dims slab es dl chunk_strides dst_strides
             (map ((!) chunks) needed) out, st)))))))"

section \<open>Reading a hyperslab\<close>

type_synonym async_state = "chunk_cache option \<times> io_cache option"

definition async_read_layout ::
  "eviction \<Rightarrow> codecs \<Rightarrow> async_source \<Rightarrow> superblock \<Rightarrow> io_config \<Rightarrow> 'e dataset_index_scheme \<Rightarrow> chunk_record list option \<Rightarrow>
   hyperslab \<Rightarrow> bytes \<Rightarrow> async_state \<Rightarrow> bytes result \<times> async_state" where
  "async_read_layout evict cs src sb io ds chunks slab out st =
     (case ds_layout ds of
        Compact data \<Rightarrow> (copy_from_dense out data (ds_shape ds) slab (element_size ds), st)
      | Contiguous address _ \<Rightarrow>
          (case address of
             None \<Rightarrow> (Ok out, st)
           | Some a \<Rightarrow>
               (case async_read_contiguous src sb io a out (ds_shape ds) slab (element_size ds) (snd st) of
                  Inl f \<Rightarrow> (Inl f, st)
                | Inr (out, pages_held) \<Rightarrow> (Ok out, (fst st, pages_held))))
      | Chunked _ chunk_dims _ _ \<Rightarrow>
          (case chunks of
             None \<Rightarrow> (Error (BadRequest ''dataset has no resolved chunk index''), st)
           | Some rs \<Rightarrow> async_read_chunked evict cs src sb io ds rs chunk_dims out slab (element_size ds) st))"

definition read_hyperslab_async_with ::
  "eviction \<Rightarrow> codecs \<Rightarrow> async_source \<Rightarrow> superblock \<Rightarrow> io_config \<Rightarrow> 'e dataset_index_scheme \<Rightarrow> once_chunks \<Rightarrow> hyperslab \<Rightarrow>
   async_state \<Rightarrow> raw_data result \<times> async_state" where
  "read_hyperslab_async_with evict cs src sb io ds lock slab st =
     then_st (validate slab (ds_shape ds), st) (\<lambda>_ st.
       if \<not> is_decodable (ds_datatype ds) then (Error (Unsupported ''datatype of dataset''), st)
       else
         let es = element_size ds in
         then_st (slab_bytes slab es, st) (\<lambda>tot st.
         then_st (with_capacity tot, st) (\<lambda>_ st.
           let out = replicate tot 0;
               out = (if selection_is_covered ds (resolved_chunks lock) slab then out else fill (ds_fill_value ds) out es)
           in then_st (async_read_layout evict cs src sb io ds (resolved_chunks lock) slab out st) (\<lambda>out st.
                (Ok \<lparr>raw_bytes = to_native (ds_datatype ds) out es, raw_element_size = es, raw_shape = cnt slab\<rparr>, st)))))"

definition read_hyperslab_async ::
  "eviction \<Rightarrow> codecs \<Rightarrow> async_source \<Rightarrow> superblock \<Rightarrow> 'e dataset_index_scheme \<Rightarrow> once_chunks \<Rightarrow> hyperslab \<Rightarrow>
   chunk_cache option \<Rightarrow> raw_data result \<times> chunk_cache option" where
  "read_hyperslab_async evict cs src sb ds lock slab cache =
     (case read_hyperslab_async_with evict cs src sb REMOTE ds lock slab (cache, None) of (r, st) \<Rightarrow> (r, fst st))"

section \<open>The runs of a contiguous read\<close>

lemma run_loop_collect:
  "run_loop n slab ss ds first run visit index st = Ok x \<Longrightarrow>
   \<exists>runs. (\<forall>acc. run_loop n slab ss ds first run (\<lambda>s d run acc. Ok (acc @ [(s, d, run)])) index acc = Ok (acc @ runs))
     \<and> visit_all visit runs st = Ok x \<and> (\<forall>(s, d, r) \<in> set runs. r = run)"
proof (induction n arbitrary: index st)
  case (Suc n)
  obtain s0 d m s st1 where st: "run_offsets (take first (start slab)) index (take first ss) (take first ds) (0, 0) = Ok (s0, d)"
    "mul64 (start slab ! first) (ss ! first) = Ok m" "add64 s0 m = Ok s" "visit s d run st = Ok st1"
    "run_loop n slab ss ds first run visit (odometer (cnt slab) first index) st1 = Ok x"
    using Suc.prems by (auto simp: result_simps)
  from Suc.IH [OF st(5)] obtain runs where
    "\<forall>acc. run_loop n slab ss ds first run (\<lambda>s d run acc. Ok (acc @ [(s, d, run)])) (odometer (cnt slab) first index) acc = Ok (acc @ runs)"
    "visit_all visit runs st1 = Ok x" "\<forall>(s, d, r) \<in> set runs. r = run" by blast
  then show ?case using st(1-4) by (intro exI [of _ "(s, d, run) # runs"]) auto
qed auto

lemma for_each_run_collect:
  assumes "for_each_run shape slab visit st = Ok x"
  shows "\<exists>runs. collect_runs shape slab = Ok runs \<and> visit_all visit runs st = Ok x \<and> (\<forall>(s, d, r) \<in> set runs. 0 < r)"
proof -
  consider (scalar) "length shape = 0" | (empty) "length shape \<noteq> 0" "element_count (cnt slab) = 0"
    | (walk) "length shape \<noteq> 0" "element_count (cnt slab) \<noteq> 0" by blast
  then show ?thesis
  proof cases
    case scalar
    then show ?thesis using assms
      by (intro exI [of _ "[(0, 0, 1)]"]) (simp add: collect_runs_def for_each_run_def)
  next
    case empty
    then show ?thesis using assms by (simp add: collect_runs_def for_each_run_def)
  next
    case walk
    let ?first = "grow_run slab shape (length shape - 1)"
    let ?run = "element_count (drop ?first (cnt slab))"
    obtain ss ds where s: "strides shape = Ok ss" "strides (cnt slab) = Ok ds"
      using assms walk by (auto simp: for_each_run_def Let_def result_simps)
    show ?thesis
    proof (cases "?run = 0")
      case True
      then show ?thesis using assms walk s by (simp add: collect_runs_def for_each_run_def Let_def)
    next
      case False
      then have "run_loop (element_count (take ?first (cnt slab))) slab ss ds ?first ?run visit (replicate ?first 0) st = Ok x"
        using assms walk s by (simp add: for_each_run_def Let_def)
      from run_loop_collect [OF this] False show ?thesis using walk s
        by (fastforce simp: collect_runs_def for_each_run_def Let_def)
    qed
  qed
qed

lemma visit_all_guarded:
  "visit_all (\<lambda>s d run out. if P s d run then visit s d run out else panic) runs st = Ok x \<Longrightarrow>
   visit_all visit runs st = Ok x \<and> (\<forall>(s, d, run) \<in> set runs. P s d run)"
proof (induction runs arbitrary: st)
  case (Cons r runs)
  obtain s d run where r: "r = (s, d, run)" by (cases r)
  then obtain st1 where "P s d run" "visit s d run st = Ok st1"
    "visit_all (\<lambda>s d run out. if P s d run then visit s d run out else panic) runs st1 = Ok x"
    using Cons.prems by (auto simp: result_simps split: if_splits)
  with Cons.IH [of st1] r show ?case by simp
qed simp

lemma copy_blobs_visit:
  assumes visit: "\<And>s d run out. (s, d, run) \<in> set runs \<Longrightarrow> length out = n \<Longrightarrow>
      visit s d run out = copy_into out (d * es) (run * es) (blob s run)"
    and fits: "\<And>s d run. (s, d, run) \<in> set runs \<Longrightarrow> length (blob s run) = run * es \<and> d * es \<le> u64_max \<and> run * es \<le> u64_max"
    and out: "length out = n"
  shows "copy_blobs es (zip runs (map (\<lambda>(s, d, run). blob s run) runs)) out = visit_all visit runs out"
  using assms
proof (induction runs arbitrary: out)
  case (Cons r runs)
  obtain s d run where r: "r = (s, d, run)" by (cases r)
  have f: "length (blob s run) = run * es" "d * es \<le> u64_max" "run * es \<le> u64_max" using Cons.prems(2) r by auto
  have "copy_blobs es (zip runs (map (\<lambda>(s, d, run). blob s run) runs)) o1 = visit_all visit runs o1"
    if "copy_into out (d * es) (run * es) (blob s run) = Ok o1" for o1
  proof (rule Cons.IH)
    show "length o1 = n"
      using that Cons.prems(3) f(1) by (auto simp: copy_into_def result_simps add64_def split: if_splits)
    show "visit s' d' run' out = copy_into out (d' * es) (run' * es) (blob s' run')"
      if "(s', d', run') \<in> set runs" "length out = n" for s' d' run' out
      using Cons.prems(1) that by simp
    show "length (blob s' run') = run' * es \<and> d' * es \<le> u64_max \<and> run' * es \<le> u64_max" if "(s', d', run') \<in> set runs" for s' d' run'
      using Cons.prems(2) [of s' d' run'] that by simp
  qed
  then have "and_then (copy_into out (d * es) (run * es) (blob s run)) (copy_blobs es (zip runs (map (\<lambda>(s, d, run). blob s run) runs))) =
      and_then (copy_into out (d * es) (run * es) (blob s run)) (visit_all visit runs)"
    by (cases "copy_into out (d * es) (run * es) (blob s run)") auto
  then show ?case using f Cons.prems(1) [of s d run out] Cons.prems(3) r by (simp add: mul64_def)
qed simp

text \<open>One run of the synchronous read.\<close>

definition contiguous_visit :: "ctx \<Rightarrow> nat \<Rightarrow> nat \<Rightarrow> nat \<Rightarrow> nat \<Rightarrow> nat \<Rightarrow> bytes \<Rightarrow> bytes result" where
  "contiguous_visit ctx address es s d run out =
     and_then (mul64 run es) (\<lambda>len. and_then (mul64 s es) (\<lambda>off.
     and_then (add64 address off) (\<lambda>at. and_then (ctx_read ctx at len) (\<lambda>bs.
     and_then (mul64 d es) (\<lambda>db. copy_into out db len bs)))))"

lemma async_contiguous_eq:
  assumes src: "async_byte_source src contents" and rd: "reader ctx contents" and pages: "cache_ok pages_held contents"
    and ok: "slab_ok slab shape" and fits: "prod_list shape \<le> u64_max" and es: "0 < es"
    and size: "base_address (ctx_superblock ctx) + address + prod_list shape * es \<le> length contents"
    and out: "length out = prod_list (cnt slab) * es"
  shows "\<exists>out' pages'. async_read_contiguous src (ctx_superblock ctx) io address out shape slab es pages_held = Ok (out', pages')
    \<and> cache_ok pages' contents \<and> read_contiguous ctx address out shape slab es = Ok out'"
proof -
  let ?sb = "ctx_superblock ctx" and ?n = "prod_list (cnt slab) * es"
  let ?base = "base_address ?sb + address"
  let ?v = "contiguous_visit ctx address es" and ?blob = "\<lambda>s run. slice (?base + s * es) (run * es) contents"
  let ?P = "\<lambda>s d run. s + run \<le> prod_list shape \<and> d * es + run * es \<le> ?n"
  have small: "length contents \<le> isize_max" using async_byte_source.async_small [OF src] .
  have u: "isize_max \<le> u64_max" by (simp add: isize_max_def u64_max_def)
  have n: "?n \<le> isize_max" using slab_cnt_le [OF ok] size small mult_le_mono1 [of "prod_list (cnt slab)" "prod_list shape" es] by linarith
  have step: "resolve ?sb (address + s * es) = ?base + s * es \<and> s * es \<le> u64_max \<and> run * es \<le> u64_max \<and> address + s * es \<le> u64_max
      \<and> ?base + s * es + run * es \<le> length contents" if s: "s + run \<le> prod_list shape" for s run
  proof -
    have f: "s * es \<le> isize_max" "run * es \<le> isize_max" "?base + s * es + run * es \<le> length contents"
      using run_fits [OF s size small] by auto
    then have "base_address ?sb + (address + s * es) < 2 ^ 64" using small by (simp add: isize_max_def)
    then show ?thesis using f u small by (simp add: resolve_def wrapping_add_def)
  qed
  have v: "?v s d run o1 = copy_into o1 (d * es) (run * es) (?blob s run)" if "?P s d run" for s d run o1
  proof -
    have f: "resolve ?sb (address + s * es) = ?base + s * es" "s * es \<le> u64_max" "run * es \<le> u64_max" "address + s * es \<le> u64_max"
      "?base + s * es + run * es \<le> length contents"
      using step [of s run] that by auto
    have "d * es \<le> u64_max" using that n u by linarith
    then show ?thesis
      using reader.ctx_read_inside [OF rd, of "address + s * es" "run * es"] f by (simp add: contiguous_visit_def mul64_def add64_def)
  qed
  obtain out' where "for_each_run shape slab (\<lambda>s d run out. if ?P s d run then ?v s d run out else panic) out = Ok out'"
    using slab_copy [OF ok fits size small out, of "\<lambda>s d run out. if ?P s d run then ?v s d run out else panic"] v out by fastforce
  from for_each_run_collect [OF this] obtain runs where runs: "collect_runs shape slab = Ok runs"
    "visit_all (\<lambda>s d run out. if ?P s d run then ?v s d run out else panic) runs out = Ok out'" "\<forall>(s, d, r) \<in> set runs. 0 < r" by blast
  from visit_all_guarded [OF runs(2)] have all: "visit_all ?v runs out = Ok out'" "\<forall>(s, d, run) \<in> set runs. ?P s d run" by blast+
  obtain o2 where o2: "read_contiguous ctx address out shape slab es = Ok o2"
    using read_contiguous_correct [OF rd ok fits size out] by blast
  then have "for_each_run shape slab ?v out = Ok o2" by (simp add: read_contiguous_def contiguous_visit_def [abs_def])
  from for_each_run_collect [OF this] have o2': "o2 = out'" using runs(1) all(1) by auto
  let ?ranges = "map (\<lambda>(s, d, run). (?base + s * es, run * es)) runs"
  have "map_result (run_request ?sb address es) runs = Ok ?ranges"
  proof (rule map_result_Ok)
    fix r assume r: "r \<in> set runs"
    obtain s d run where e: "r = (s, d, run)" by (cases r)
    show "run_request ?sb address es r = Ok (case r of (s, d, run) \<Rightarrow> (?base + s * es, run * es))"
      using step [of s run] all(2) r unfolding e by (auto simp: run_request_def mul64_def add64_def)
  qed
  moreover obtain pages' where "fetch_bytes src pages_held ?ranges io = Ok (map (\<lambda>(off, len). slice off len contents) ?ranges, pages')"
    "cache_ok pages' contents"
    using async_byte_source.fetch_bytes_exact [OF src _ pages, of ?ranges io] step all(2) runs(3) es by fastforce
  moreover have "map (\<lambda>(off, len). slice off len contents) ?ranges = map (\<lambda>(s, d, run). ?blob s run) runs" by auto
  moreover have "copy_blobs es (zip runs (map (\<lambda>(s, d, run). ?blob s run) runs)) out = visit_all ?v runs out"
  proof (rule copy_blobs_visit [OF _ _ out])
    show "?v s d run o1 = copy_into o1 (d * es) (run * es) (?blob s run)" if "(s, d, run) \<in> set runs" for s d run o1
      using v all(2) that by auto
    show "length (?blob s run) = run * es \<and> d * es \<le> u64_max \<and> run * es \<le> u64_max" if "(s, d, run) \<in> set runs" for s d run
    proof -
      have "?P s d run" using all(2) that by auto
      then show ?thesis using step [of s run] n u by (auto simp: slice_def)
    qed
  qed
  ultimately show ?thesis using runs(1) all(1) o2 o2' by (simp add: async_read_contiguous_def del: map_map)
qed

section \<open>The chunks of an asynchronous read\<close>

lemma meets_axes_eq:
  "\<forall>axis \<in> set axes. axis < length (chunk_offset r) \<Longrightarrow>
   meets_axes r chunk_shape slab axes = Ok (list_all (\<lambda>axis. max (chunk_offset r ! axis) (start slab ! axis) <
         min (saturating_add (chunk_offset r ! axis) (chunk_shape ! axis)) (start slab ! axis + cnt slab ! axis)) axes)"
  by (induction axes) auto

lemma address_needed_eq:
  "\<forall>r \<in> set rs. length (chunk_offset r) = rank \<Longrightarrow>
   address_needed rank chunk_shape slab a rs = Ok (\<exists>r \<in> set rs. chunk_address r = a \<and> intersects r chunk_shape slab rank)"
proof (induction rs)
  case (Cons r rs)
  then have "meets_axes r chunk_shape slab [0..<rank] = Ok (intersects r chunk_shape slab rank)"
    by (subst meets_axes_eq) (auto simp: intersects_def)
  then show ?case using Cons by auto
qed simp

lemma intersects_window:
  assumes "intersects r chunk_shape slab (length chunk_shape)" and "length (chunk_offset r) = length chunk_shape"
    and "length (start slab) = length chunk_shape" and "length (cnt slab) = length chunk_shape"
  shows "\<not> list_ex (\<lambda>(l, h). h \<le> l) (zip (lows r slab) (highs r chunk_shape slab))"
proof
  assume "list_ex (\<lambda>(l, h). h \<le> l) (zip (lows r slab) (highs r chunk_shape slab))"
  then obtain a where a: "a < length chunk_shape" "highs r chunk_shape slab ! a \<le> lows r slab ! a"
    using assms(2-4) by (auto simp: list_ex_iff set_zip lows_def highs_def)
  then have "lows r slab ! a < highs r chunk_shape slab ! a"
    using assms by (simp add: intersects_def list_all_iff lows_def highs_def)
  with a(2) show False by simp
qed

lemma async_copy_chunk_eq:
  assumes "intersects r chunk_shape slab (length chunk_shape)" and "length (chunk_offset r) = length chunk_shape"
    and "length (start slab) = length chunk_shape" and "length (cnt slab) = length chunk_shape"
  shows "async_copy_chunk r chunk_shape slab es cst dst decoded out = copy_chunk r chunk_shape slab es cst dst decoded out"
proof -
  let ?lo = "lows r slab" and ?hi = "highs r chunk_shape slab"
  have l: "length ?lo = length ?hi" using assms by (simp add: lows_def highs_def)
  have w: "\<not> list_ex (\<lambda>(l, h). h \<le> l) (zip ?lo ?hi)" by (rule intersects_window [OF assms])
  have "map_result (\<lambda>(h, l). sub64 h l) (zip ?hi ?lo) = Ok (map (\<lambda>(h, l). h - l) (zip ?hi ?lo))"
  proof (rule map_result_Ok)
    fix x assume "x \<in> set (zip ?hi ?lo)"
    then obtain a where "a < length ?lo" "x = (?hi ! a, ?lo ! a)" using l by (auto simp: set_zip)
    then show "(case x of (h, l) \<Rightarrow> sub64 h l) = Ok (case x of (h, l) \<Rightarrow> h - l)"
      using w l by (fastforce simp: list_ex_iff set_zip sub64_def)
  qed
  then show ?thesis using w by (simp add: async_copy_chunk_def copy_chunk_def Let_def)
qed

lemma async_chunk_loop_eq:
  assumes slab: "length (start slab) = length chunk_shape" "length (cnt slab) = length chunk_shape"
  shows "(\<And>r. r \<in> set rs \<Longrightarrow> length (chunk_offset r) = length chunk_shape \<and> intersects r chunk_shape slab (length chunk_shape) \<and>
      (\<exists>d. decode_record cs ctx filters dl r = Ok d \<and>
         (held (chunk_address r) = Some d \<or> held (chunk_address r) = None \<and> fetched (chunk_address r) = Some d))) \<Longrightarrow>
    async_chunk_loop held fetched chunk_shape slab es dl cst dst rs out =
      fst (chunk_loop evict cs ctx filters chunk_shape slab es dl cst dst rs out None)"
proof (induction rs arbitrary: out)
  case (Cons r rs)
  obtain d where r: "length (chunk_offset r) = length chunk_shape" "intersects r chunk_shape slab (length chunk_shape)"
    "decode_record cs ctx filters dl r = Ok d"
    "held (chunk_address r) = Some d \<or> held (chunk_address r) = None \<and> fetched (chunk_address r) = Some d"
    using Cons.prems [of r] by auto
  have w: "\<not> list_ex (\<lambda>(l, h). h \<le> l) (zip (lows r slab) (highs r chunk_shape slab))"
    by (rule intersects_window [OF r(2,1) slab])
  have IH: "async_chunk_loop held fetched chunk_shape slab es dl cst dst rs o1 =
      fst (chunk_loop evict cs ctx filters chunk_shape slab es dl cst dst rs o1 None)" for o1
    by (rule Cons.IH) (use Cons.prems in auto)
  have found: "(case held (chunk_address r) of Some hit \<Rightarrow> Ok hit
      | None \<Rightarrow> (case fetched (chunk_address r) of Some d \<Rightarrow> Ok d | None \<Rightarrow> Error (Malformed ''chunk was neither cached nor fetched''))) = Ok d"
    using r(4) by auto
  show ?case
    by (cases "copy_chunk r chunk_shape slab es cst dst d out")
      (use w r(3) in \<open>simp_all add: found IH fetch_decoded_def async_copy_chunk_eq [OF r(2,1) slab]\<close>)
qed simp

lemma cached_insert:
  "cached_chunk (insert_chunk evict a d cache) = (case cache of None \<Rightarrow> Map.empty | Some c \<Rightarrow> evict ((entries c)(a \<mapsto> d)))"
  by (auto simp: cached_chunk_def insert_chunk_def fun_eq_iff split: option.splits)

lemma set_wanted:
  "r \<in> set (wanted_chunks es chunks candidates) \<longleftrightarrow>
     r \<in> (!) chunks ` set candidates \<and> 0 < chunk_size r \<and> es (chunk_address r) = None"
  by (auto simp: wanted_chunks_def)

lemma store_fetched_valid:
  assumes st: "chunks_stored cs ctx contents filters dl rank chunks" and ev: "only_evicts evict"
    and fatal: "\<And>r e. r \<in> set chunks \<Longrightarrow> decode_record cs ctx filters dl r = Error e \<Longrightarrow> fatal (chunk_address r) = Ok False"
  shows "cache_state_valid cs ctx filters dl chunks cache \<Longrightarrow> cache_valid cs ctx filters dl chunks fetched \<Longrightarrow> set rs \<subseteq> set chunks \<Longrightarrow>
    (\<And>r. r \<in> set rs \<Longrightarrow> decode_record cs ctx filters dl r = decode_chunk cs filters (word_of_nat (filter_mask r)) (blob r) dl) \<Longrightarrow>
    \<exists>cache' fetched'. store_fetched evict cs filters dl fatal (zip rs (map blob rs)) (cache, fetched) = (Ok (), (cache', fetched')) \<and>
      cache_state_valid cs ctx filters dl chunks cache' \<and> cache_valid cs ctx filters dl chunks fetched' \<and>
      dom fetched \<subseteq> dom fetched' \<and>
      (\<forall>r \<in> set rs. \<forall>d. decode_record cs ctx filters dl r = Ok d \<longrightarrow> chunk_address r \<in> dom fetched') \<and>
      ((\<forall>m. evict m = m) \<longrightarrow> (\<forall>a. cached_chunk cache a \<noteq> None \<longrightarrow> cached_chunk cache' a \<noteq> None))"
proof (induction rs arbitrary: cache fetched)
  case (Cons r rs)
  have d: "decode_chunk cs filters (word_of_nat (filter_mask r)) (blob r) dl = decode_record cs ctx filters dl r"
    and r: "r \<in> set chunks" and np: "decode_record cs ctx filters dl r \<noteq> Inl Panic"
    using Cons.prems(3,4) st by (auto simp: chunks_stored_def)
  have rest: "set rs \<subseteq> set chunks"
    "\<And>r. r \<in> set rs \<Longrightarrow> decode_record cs ctx filters dl r = decode_chunk cs filters (word_of_nat (filter_mask r)) (blob r) dl"
    using Cons.prems(3,4) by auto
  show ?case
  proof (cases "decode_record cs ctx filters dl r")
    case (Inl f)
    then obtain e where "f = Err e" using np by (cases f) auto
    then show ?thesis using Cons.IH [OF Cons.prems(1,2) rest] fatal [OF r] Inl d by auto
  next
    case (Inr b)
    let ?cache = "insert_chunk evict (chunk_address r) b cache" and ?fetched = "fetched(chunk_address r \<mapsto> b)"
    have keep: "only_evicts (\<lambda>m. m)" by (simp add: only_evicts_def)
    have "cache_state_valid cs ctx filters dl chunks ?cache"
      using Cons.prems(1) cache_valid_insert [OF _ st r Inr ev]
      by (auto simp: cache_state_valid_def insert_chunk_def)
    moreover have "cache_valid cs ctx filters dl chunks ?fetched"
      using cache_valid_insert [OF Cons.prems(2) st r Inr keep] by simp
    ultimately obtain cache' fetched' where
      "store_fetched evict cs filters dl fatal (zip rs (map blob rs)) (?cache, ?fetched) = (Ok (), (cache', fetched'))"
      "cache_state_valid cs ctx filters dl chunks cache'" "cache_valid cs ctx filters dl chunks fetched'" "dom ?fetched \<subseteq> dom fetched'"
      "\<forall>r \<in> set rs. \<forall>d. decode_record cs ctx filters dl r = Ok d \<longrightarrow> chunk_address r \<in> dom fetched'"
      "(\<forall>m. evict m = m) \<longrightarrow> (\<forall>a. cached_chunk ?cache a \<noteq> None \<longrightarrow> cached_chunk cache' a \<noteq> None)"
      using Cons.IH [OF _ _ rest, of ?cache ?fetched] by blast
    moreover have "cached_chunk ?cache a \<noteq> None" if "\<forall>m. evict m = m" "cached_chunk cache a \<noteq> None" for a
      using that by (cases cache) (auto simp: cached_insert cached_chunk_def)
    moreover from this have "cached_chunk cache' a \<noteq> None" if "\<forall>m. evict m = m" "cached_chunk cache a \<noteq> None" for a
      using that \<open>(\<forall>m. evict m = m) \<longrightarrow> (\<forall>a. cached_chunk ?cache a \<noteq> None \<longrightarrow> cached_chunk cache' a \<noteq> None)\<close> by blast
    ultimately show ?thesis using Inr d by (intro exI [of _ cache'] exI [of _ fetched']) auto
  qed
qed auto

text \<open>
  No chunk the read needs can disappear between the test whether it is cached and its use: it is not
  cached before the read, or nothing is ever dropped.
\<close>

definition no_loss :: "eviction \<Rightarrow> chunk_record list \<Rightarrow> nat list \<Rightarrow> hyperslab \<Rightarrow> chunk_cache option \<Rightarrow> bool" where
  "no_loss evict chunks chunk_shape slab cache \<longleftrightarrow>
     (\<forall>m. evict m = m) \<or>
     (\<forall>r \<in> set chunks. intersects r chunk_shape slab (length chunk_shape) \<longrightarrow> cached_chunk cache (chunk_address r) = None)"

lemma async_read_chunked_eq:
  assumes src: "async_byte_source src contents" and rd: "reader ctx contents" and pages: "cache_ok pages_held contents"
    and ev: "only_evicts evict" and ok: "shapes_ok (ds_shape ds) chunk_dims slab es"
    and fits: "prod_list chunk_dims * es \<le> u64_max"
    and st: "chunks_stored cs ctx contents (ds_pipeline ds) (prod_list chunk_dims * es) (length (ds_shape ds)) chunks"
    and dec: "\<forall>r \<in> set chunks. intersects r chunk_dims slab (length (ds_shape ds)) \<longrightarrow>
        decodes cs ctx (ds_pipeline ds) (prod_list chunk_dims * es) r \<and> 0 < chunk_size r"
    and cv: "cache_state_valid cs ctx (ds_pipeline ds) (prod_list chunk_dims * es) chunks cache"
    and loss: "no_loss evict chunks chunk_dims slab cache" and many: "length chunks \<le> u64_max"
  shows "\<exists>cache' pages'. async_read_chunked evict cs src (ctx_superblock ctx) io ds chunks chunk_dims out slab es (cache, pages_held) =
      (fst (read_chunked evict cs ctx ds chunks chunk_dims out slab es None), (cache', pages'))
    \<and> cache_state_valid cs ctx (ds_pipeline ds) (prod_list chunk_dims * es) chunks cache' \<and> cache_ok pages' contents"
proof -
  let ?rank = "length (ds_shape ds)" and ?dl = "prod_list chunk_dims * es" and ?sb = "ctx_superblock ctx" and ?fs = "ds_pipeline ds"
  let ?needed = "filter (\<lambda>i. intersects (chunks ! i) chunk_dims slab ?rank) [0..<length chunks]"
  let ?rs = "map ((!) chunks) ?needed"
  have rank: "length chunk_dims = ?rank" "\<forall>r \<in> set chunks. length (chunk_offset r) = ?rank"
    and slab: "length (start slab) = length chunk_dims" "length (cnt slab) = length chunk_dims"
    using ok st by (auto simp: shapes_ok_def slab_ok_def chunks_stored_def)
  have pos: "\<forall>c \<in> set chunk_dims. 0 < c" "\<forall>c \<in> set (cnt slab). 0 < c" "prod_list chunk_dims \<le> u64_max" "prod_list (cnt slab) \<le> u64_max"
    using ok by (auto simp: shapes_ok_def)
  have s: "strides (cnt slab) = Ok (stride_list (cnt slab))" "strides chunk_dims = Ok (stride_list chunk_dims)"
    using strides_eq [OF pos(2)] strides_eq [OF pos(1)] prod_list_drop_le [OF pos(2), of 1] prod_list_drop_le [OF pos(1), of 1] pos(3,4)
    by (simp_all add: drop_Suc)
  have l: "decoded_chunk_len chunk_dims es = Ok ?dl"
    using fits pos(3) by (simp add: decoded_chunk_len_def element_count_eq checked_mul_def)
  have needed: "needed_chunks chunks chunk_dims slab ?rank = ?needed"
    using rank(2) by (auto simp: needed_chunks_def intro!: filter_cong)
  have mem: "r \<in> set chunks \<and> intersects r chunk_dims slab ?rank" if "r \<in> set ?rs" for r using that by auto
  obtain wanted where w: "async_wanted cache chunks ?needed = Ok wanted" "set wanted \<subseteq> set chunks"
    "\<forall>r \<in> set wanted. 0 < chunk_size r" "\<forall>r \<in> set ?rs. r \<in> set wanted \<or> cached_chunk cache (chunk_address r) \<noteq> None"
  proof (cases "?needed = []")
    case True
    then show ?thesis by (intro that [of "[]"]) (simp_all add: async_wanted_def)
  next
    case False
    let ?ahead = "case cache of None \<Rightarrow> 0 | Some c \<Rightarrow> readahead c"
    let ?c = "?needed @ [last ?needed + 1..<min (last ?needed + 1 + ?ahead) (length chunks)]"
    have lt: "last ?needed < length chunks" using last_in_set [OF False] by simp
    have a: "async_wanted cache chunks ?needed = Ok (wanted_chunks (cached_chunk cache) chunks ?c)"
    proof -
      have "last ?needed + 1 + ?ahead \<le> u64_max" using cv lt many by (cases cache) (auto simp: cache_state_valid_def)
      then show ?thesis unfolding async_wanted_def if_not_P [OF False] by (simp add: add64_def)
    qed
    have sub: "set (wanted_chunks (cached_chunk cache) chunks ?c) \<subseteq> set chunks" using lt by (auto simp: set_wanted)
    have "r \<in> set (wanted_chunks (cached_chunk cache) chunks ?c) \<or> cached_chunk cache (chunk_address r) \<noteq> None" if r: "r \<in> set ?rs" for r
    proof -
      have img: "r \<in> (!) chunks ` set ?c" using r by (simp add: image_Un)
      have "0 < chunk_size r" using mem [OF r] dec by blast
      with img have "r \<in> set (wanted_chunks (cached_chunk cache) chunks ?c)" if "cached_chunk cache (chunk_address r) = None"
        unfolding set_wanted by (intro conjI that)
      then show ?thesis by (rule disjCI) (rule notnotD)
    qed
    moreover have "0 < chunk_size r" if "r \<in> set (wanted_chunks (cached_chunk cache) chunks ?c)" for r using that unfolding set_wanted by simp
    ultimately show ?thesis using a sub by (intro that [of "wanted_chunks (cached_chunk cache) chunks ?c"]) blast+
  qed
  obtain cache' pages' fetched where f: "fetch_chunks evict cs src ?sb io ?fs ?dl (\<lambda>a. address_needed ?rank chunk_dims slab a chunks)
        wanted (cache, pages_held) = (Ok fetched, (cache', pages'))"
    "cache_state_valid cs ctx ?fs ?dl chunks cache'" "cache_ok pages' contents" "cache_valid cs ctx ?fs ?dl chunks fetched"
    "\<forall>r \<in> set wanted. \<forall>d. decode_record cs ctx ?fs ?dl r = Ok d \<longrightarrow> chunk_address r \<in> dom fetched"
    "(\<forall>m. evict m = m) \<longrightarrow> (\<forall>a. cached_chunk cache a \<noteq> None \<longrightarrow> cached_chunk cache' a \<noteq> None)"
  proof (cases "wanted = []")
    case True
    then show ?thesis using cv pages by (intro that [of Map.empty cache pages_held]) (simp_all add: fetch_chunks_def cache_valid_def)
  next
    case False
    let ?blob = "\<lambda>r. slice (resolve ?sb (chunk_address r)) (chunk_size r) contents"
    have inside: "resolve ?sb (chunk_address r) + chunk_size r \<le> length contents" if "r \<in> set wanted" for r
      using that w(2) st by (auto simp: chunks_stored_def)
    let ?ranges = "map (\<lambda>r. (resolve ?sb (chunk_address r), chunk_size r)) wanted"
    obtain pages' where p: "fetch_bytes src pages_held ?ranges io = Ok (map (\<lambda>(off, len). slice off len contents) ?ranges, pages')"
      "cache_ok pages' contents"
      using async_byte_source.fetch_bytes_exact [OF src _ pages, of ?ranges io] inside w(3) by fastforce
    have b: "map (\<lambda>(off, len). slice off len contents) ?ranges = map ?blob wanted" by auto
    have d: "decode_record cs ctx ?fs ?dl r = decode_chunk cs ?fs (word_of_nat (filter_mask r)) (?blob r) ?dl" if "r \<in> set wanted" for r
      using reader.ctx_read_inside [OF rd inside [OF that]] by (simp add: decode_record_def)
    have fatal: "address_needed ?rank chunk_dims slab (chunk_address r) chunks = Ok False"
      if "r \<in> set chunks" "decode_record cs ctx ?fs ?dl r = Error e" for r e
    proof -
      have "decode_record cs ctx ?fs ?dl r' = Error e" if "r' \<in> set chunks" "chunk_address r' = chunk_address r" for r'
        using st that \<open>r \<in> set chunks\<close> \<open>decode_record cs ctx ?fs ?dl r = Error e\<close> unfolding chunks_stored_def by metis
      then have "\<not> (\<exists>r' \<in> set chunks. chunk_address r' = chunk_address r \<and> intersects r' chunk_dims slab ?rank)"
        using dec by (auto simp: decodes_def)
      then show ?thesis unfolding address_needed_eq [OF rank(2)] by simp
    qed
    have e: "cache_valid cs ctx ?fs ?dl chunks Map.empty" by (simp add: cache_valid_def)
    have sf: "\<exists>cache' fetched. store_fetched evict cs ?fs ?dl (\<lambda>a. address_needed ?rank chunk_dims slab a chunks)
        (zip wanted (map ?blob wanted)) (cache, Map.empty) = (Ok (), (cache', fetched)) \<and>
      cache_state_valid cs ctx ?fs ?dl chunks cache' \<and> cache_valid cs ctx ?fs ?dl chunks fetched \<and> dom (Map.empty :: nat \<rightharpoonup> bytes) \<subseteq> dom fetched \<and>
      (\<forall>r \<in> set wanted. \<forall>d. decode_record cs ctx ?fs ?dl r = Ok d \<longrightarrow> chunk_address r \<in> dom fetched) \<and>
      ((\<forall>m. evict m = m) \<longrightarrow> (\<forall>a. cached_chunk cache a \<noteq> None \<longrightarrow> cached_chunk cache' a \<noteq> None))"
      by (rule store_fetched_valid [where fatal = "\<lambda>a. address_needed ?rank chunk_dims slab a chunks" and blob = ?blob,
        OF st ev fatal cv e w(2) d])
    then obtain cache' fetched where
      "store_fetched evict cs ?fs ?dl (\<lambda>a. address_needed ?rank chunk_dims slab a chunks) (zip wanted (map ?blob wanted)) (cache, Map.empty) =
         (Ok (), (cache', fetched))"
      "cache_state_valid cs ctx ?fs ?dl chunks cache'" "cache_valid cs ctx ?fs ?dl chunks fetched"
      "\<forall>r \<in> set wanted. \<forall>d. decode_record cs ctx ?fs ?dl r = Ok d \<longrightarrow> chunk_address r \<in> dom fetched"
      "(\<forall>m. evict m = m) \<longrightarrow> (\<forall>a. cached_chunk cache a \<noteq> None \<longrightarrow> cached_chunk cache' a \<noteq> None)"
      by (elim exE conjE) (rule that)
    then show ?thesis using p [unfolded b] False by (intro that [of fetched cache' pages']) (simp_all add: fetch_chunks_def)
  qed
  have found: "\<exists>d. decode_record cs ctx ?fs ?dl r = Ok d \<and> (cached_chunk cache' (chunk_address r) = Some d \<or>
      cached_chunk cache' (chunk_address r) = None \<and> fetched (chunk_address r) = Some d)" if r: "r \<in> set ?rs" for r
  proof -
    have m: "r \<in> set chunks" "intersects r chunk_dims slab (length chunk_dims)" using mem [OF r] rank(1) by auto
    obtain d where d: "decode_record cs ctx ?fs ?dl r = Ok d" using m dec rank(1) by (auto simp: decodes_def)
    have valid: "cached_chunk cache' (chunk_address r) = Some b \<Longrightarrow> b = d" "fetched (chunk_address r) = Some b \<Longrightarrow> b = d" for b
      using f(2,4) m(1) d by (auto simp: cached_chunk_def cache_state_valid_def cache_valid_def split: option.splits)
    have "cached_chunk cache' (chunk_address r) \<noteq> None \<or> chunk_address r \<in> dom fetched"
    proof (cases "r \<in> set wanted")
      case False
      then have "cached_chunk cache (chunk_address r) \<noteq> None" using w(4) r by blast
      moreover from this have "\<forall>m. evict m = m" using loss m unfolding no_loss_def by (elim disjE) simp_all
      ultimately show ?thesis using f(6) by simp
    qed (use f(5) d in blast)
    then show ?thesis using d valid by (cases "cached_chunk cache' (chunk_address r)") auto
  qed
  have "async_chunk_loop (cached_chunk cache') fetched chunk_dims slab es ?dl (stride_list chunk_dims) (stride_list (cnt slab)) ?rs out =
      fst (chunk_loop evict cs ctx ?fs chunk_dims slab es ?dl (stride_list chunk_dims) (stride_list (cnt slab)) ?rs out None)"
  proof (rule async_chunk_loop_eq [OF slab], intro conjI)
    fix r assume r: "r \<in> set ?rs"
    show "length (chunk_offset r) = length chunk_dims" using mem [OF r] rank by simp
    show "intersects r chunk_dims slab (length chunk_dims)" using mem [OF r] rank(1) by simp
    show "\<exists>d. decode_record cs ctx ?fs ?dl r = Ok d \<and> (cached_chunk cache' (chunk_address r) = Some d \<or>
      cached_chunk cache' (chunk_address r) = None \<and> fetched (chunk_address r) = Some d)" by (rule found [OF r])
  qed
  then show ?thesis using f(1-3) w(1) s l rank needed
    by (intro exI [of _ cache'] exI [of _ pages'])
      (simp add: async_read_chunked_def read_chunked_def Let_def list_ex_iff prefetch_chunks_def)
qed

section \<open>Both engines\<close>

text \<open>
  What the asynchronous read asks of a chunked dataset beyond an intact one: the index is resolved,
  the chunks it needs are not empty, and none of them can disappear during the read.
\<close>

definition async_ready :: "eviction \<Rightarrow> 'e dataset_index_scheme \<Rightarrow> once_chunks \<Rightarrow> chunk_record list \<Rightarrow> hyperslab \<Rightarrow> chunk_cache option \<Rightarrow> bool" where
  "async_ready evict ds lock chunks slab cache \<longleftrightarrow>
     (case ds_layout ds of
        Chunked _ chunk_dims _ _ \<Rightarrow>
          lock = Some (Some chunks) \<and> length chunks \<le> u64_max \<and> no_loss evict chunks chunk_dims slab cache \<and>
          (\<forall>r \<in> set chunks. intersects r chunk_dims slab (length (ds_shape ds)) \<longrightarrow> 0 < chunk_size r)
      | _ \<Rightarrow> True)"

definition seen_chunks :: "'e dataset_index_scheme \<Rightarrow> chunk_record list \<Rightarrow> chunk_record list option" where
  "seen_chunks ds chunks = (case ds_layout ds of Chunked _ _ _ _ \<Rightarrow> Some chunks | _ \<Rightarrow> None)"

lemma without_cache:
  "dataset_intact cs ctx contents ds chunks slab (lock, cache) \<Longrightarrow> dataset_intact cs ctx contents ds chunks slab (lock, None)"
  by (auto simp: dataset_intact_def chunked_intact_def cache_state_valid_def Let_def split: layout.splits option.splits)

lemma async_layout_eq:
  assumes src: "async_byte_source src contents" and rd: "reader ctx contents" and pages: "cache_ok pages_held contents"
    and ev: "only_evicts evict" and ok: "slab_ok slab (ds_shape ds)" and fits: "prod_list (ds_shape ds) \<le> u64_max"
    and es: "0 < element_size ds" and int: "dataset_intact cs ctx contents ds chunks slab (lock, cache)"
    and ready: "async_ready evict ds lock chunks slab cache"
  shows "\<exists>out st'. async_read_layout evict cs src (ctx_superblock ctx) io ds (resolved_chunks lock) slab
        (initial_buffer ds (seen_chunks ds chunks) slab) (cache, pages_held) = (Ok out, st')
    \<and> cache_ok (snd st') contents
    \<and> fst (read_layout evict cs ctx ds (seen_chunks ds chunks) slab (initial_buffer ds (seen_chunks ds chunks) slab) (lock, None)) = Ok out"
proof -
  let ?out = "initial_buffer ds (seen_chunks ds chunks) slab"
  obtain out s where sync: "read_layout evict cs ctx ds (seen_chunks ds chunks) slab ?out (lock, None) = (Ok out, s)"
  proof -
    have "case ds_layout ds of Chunked _ _ _ _ \<Rightarrow> seen_chunks ds chunks = Some chunks | _ \<Rightarrow> True"
      by (simp add: seen_chunks_def split: layout.splits)
    from read_layout_exact [OF rd ev ok fits without_cache [OF int] this] show ?thesis using that by blast
  qed
  show ?thesis
  proof (cases "ds_layout ds")
    case (Compact data)
    then show ?thesis using sync pages by (auto simp: read_layout_def async_read_layout_def)
  next
    case (Contiguous address sz)
    show ?thesis
    proof (cases address)
      case None
      then show ?thesis using sync pages Contiguous by (auto simp: read_layout_def async_read_layout_def)
    next
      case (Some a)
      have "base_address (ctx_superblock ctx) + a + prod_list (ds_shape ds) * element_size ds \<le> length contents"
        using int Contiguous Some by (simp add: dataset_intact_def)
      from async_contiguous_eq [OF src rd pages ok fits es this, of ?out io] show ?thesis
        using Contiguous Some by (auto simp: read_layout_def async_read_layout_def)
    qed
  next
    case (Chunked a chunk_dims w ix)
    have i: "chunked_intact cs ctx contents ds chunks chunk_dims slab cache"
      using int Chunked by (simp add: dataset_intact_def)
    note i = this [unfolded chunked_intact_def Let_def]
    have l: "resolved_chunks lock = Some chunks" "length chunks \<le> u64_max" "no_loss evict chunks chunk_dims slab cache"
      "\<forall>r \<in> set chunks. intersects r chunk_dims slab (length (ds_shape ds)) \<longrightarrow> 0 < chunk_size r"
      using ready Chunked by (simp_all add: async_ready_def resolved_chunks_def)
    have "\<forall>r \<in> set chunks. intersects r chunk_dims slab (length (ds_shape ds)) \<longrightarrow>
        decodes cs ctx (ds_pipeline ds) (prod_list chunk_dims * element_size ds) r \<and> 0 < chunk_size r"
      using i l(4) by blast
    from async_read_chunked_eq [where io = io and out = ?out, OF src rd pages ev _ _ _ this _ l(3,2)] i obtain cache' pages' where
      "async_read_chunked evict cs src (ctx_superblock ctx) io ds chunks chunk_dims ?out slab (element_size ds) (cache, pages_held) =
        (fst (read_chunked evict cs ctx ds chunks chunk_dims ?out slab (element_size ds) None), (cache', pages'))"
      "cache_ok pages' contents" by blast
    then show ?thesis using sync Chunked l(1)
      by (auto simp: read_layout_def async_read_layout_def seen_chunks_def split: prod.splits)
  qed
qed

lemma async_hyperslab_eq:
  assumes src: "async_byte_source src contents" and rd: "reader ctx contents" and pages: "cache_ok pages_held contents"
    and ev: "only_evicts evict" and valid: "validate slab (ds_shape ds) = Inr ()"
    and dims: "\<forall>d \<in> set (ds_shape ds). d \<le> u64_max" and fits: "prod_list (ds_shape ds) \<le> u64_max"
    and out: "prod_list (cnt slab) * element_size ds \<le> isize_max" and dec: "is_decodable (ds_datatype ds)"
    and es: "0 < element_size ds" and int: "dataset_intact cs ctx contents ds chunks slab (lock, cache)"
    and ready: "async_ready evict ds lock chunks slab cache"
  shows "\<exists>raw st'. read_hyperslab_async_with evict cs src (ctx_superblock ctx) io ds lock slab (cache, pages_held) = (Ok raw, st')
    \<and> fst (read_hyperslab evict cs ctx ds slab (lock, None)) = Ok raw \<and> cache_ok (snd st') contents"
proof -
  let ?es = "element_size ds" and ?sc = "seen_chunks ds chunks"
  have ok: "slab_ok slab (ds_shape ds)" using validate_Ok valid dims by blast
  have "prod_list (cnt slab) \<le> u64_max" using slab_cnt_le [OF ok] fits by simp
  then have size: "slab_bytes slab ?es = Ok (prod_list (cnt slab) * ?es)"
    using out by (simp add: slab_bytes_def element_count_eq checked_mul_def isize_max_def u64_max_def)
  have cov: "selection_is_covered ds (resolved_chunks lock) slab = selection_is_covered ds ?sc slab"
    using ready by (auto simp: selection_is_covered_def seen_chunks_def async_ready_def resolved_chunks_def split: layout.splits)
  have ch: "slab_chunks ds ctx (lock, None) = (Ok ?sc, (lock, None))"
    using ready by (auto simp: slab_chunks_def seen_chunks_def async_ready_def dataset_chunks_def split: layout.splits)
  obtain o1 st' s where o: "async_read_layout evict cs src (ctx_superblock ctx) io ds (resolved_chunks lock) slab
        (initial_buffer ds ?sc slab) (cache, pages_held) = (Ok o1, st')" "cache_ok (snd st') contents"
    "read_layout evict cs ctx ds ?sc slab (initial_buffer ds ?sc slab) (lock, None) = (Ok o1, s)"
    using async_layout_eq [OF src rd pages ev ok fits es int ready, of io] by (metis prod.collapse)
  show ?thesis
    using valid out dec size ch o cov
    by (simp add: read_hyperslab_async_with_def read_hyperslab_def Let_def with_capacity_def initial_buffer_def)
qed

section \<open>Properties\<close>

text \<open>
  C17. Over a file that serves its bytes, the asynchronous read of a selection succeeds with the value of
  the synchronous read, for every layout: element by element what the dataset stores.  The chunk
  index is resolved, and no chunk the read needs can be dropped from the chunk cache while the read
  runs; the page cache, merged requests, the read-ahead and the order of the batch do not show.
\<close>

theorem engines_agree:
  assumes "async_byte_source src contents" and "reader ctx contents" and "cache_ok pages_held contents"
    and "only_evicts evict" and "validate slab (ds_shape ds) = Inr ()"
    and "\<forall>d \<in> set (ds_shape ds). d \<le> u64_max" and "prod_list (ds_shape ds) \<le> u64_max"
    and "prod_list (cnt slab) * element_size ds \<le> isize_max" and "is_decodable (ds_datatype ds)"
    and "0 < element_size ds" and "dataset_intact cs ctx contents ds chunks slab (lock, cache)"
    and "async_ready evict ds lock chunks slab cache"
  shows "\<exists>raw st'. read_hyperslab_async_with evict cs src (ctx_superblock ctx) io ds lock slab (cache, pages_held) = (Ok raw, st')
    \<and> fst (read_hyperslab evict cs ctx ds slab (lock, None)) = Ok raw \<and> cache_ok (snd st') contents
    \<and> (\<forall>idx. in_dims (cnt slab) idx \<longrightarrow> elem (element_size ds) (raw_bytes raw) (flat (cnt slab) idx) =
         native_element (ds_datatype ds) (dataset_element cs ctx contents ds chunks (map2 (+) (start slab) idx)))"
proof -
  obtain raw st' where a: "read_hyperslab_async_with evict cs src (ctx_superblock ctx) io ds lock slab (cache, pages_held) = (Ok raw, st')"
    "fst (read_hyperslab evict cs ctx ds slab (lock, None)) = Ok raw" "cache_ok (snd st') contents"
    using async_hyperslab_eq [OF assms, of io] by blast
  obtain raw' s where r: "read_hyperslab evict cs ctx ds slab (lock, None) = (Ok raw', s)"
    "\<forall>idx. in_dims (cnt slab) idx \<longrightarrow> elem (element_size ds) (raw_bytes raw') (flat (cnt slab) idx) =
         native_element (ds_datatype ds) (dataset_element cs ctx contents ds chunks (map2 (+) (start slab) idx))"
    using hyperslab_read [OF assms(2,4-9) without_cache [OF assms(11)]] by blast
  then show ?thesis using a by auto
qed

lemma example_async:
  "async_byte_source (sync_as_async (memory_source [10, 20])) [10, 20]"
  by (rule async_sync_source [OF byte_source_memory]) (simp add: isize_max_def)

text \<open>Two chunks of one byte, the first of them cached.\<close>

definition example_lock :: once_chunks where
  "example_lock = Some (Some [example_chunk 0, example_chunk 1])"

definition warm_cache :: "chunk_cache option" where
  "warm_cache = Some \<lparr>entries = [0 \<mapsto> [10]], readahead = 0\<rparr>"

lemma example_intact:
  "dataset_intact store_codecs (new_ctx (memory_source [10, 20]) example_superblock) [10, 20] example_dataset
     [example_chunk 0, example_chunk 1] (hyperslab_all [2]) (example_lock, warm_cache)"
proof -
  let ?ctx = "new_ctx (memory_source [10, 20]) example_superblock"
  have "byte_source (memory_source [10, 20]) [10, 20]" by (rule byte_source_memory) (simp add: isize_max_def)
  then have rd: "reader ?ctx [10, 20]" by (simp add: reader_def new_ctx_def cache_ok_def)
  have rs: "resolve (ctx_superblock ?ctx) i = i" if "i < 2" for i
    using that by (simp add: new_ctx_def resolve_def wrapping_add_def example_superblock_def)
  have dec: "decode_record store_codecs ?ctx [] 1 (example_chunk i) = Ok (slice i 1 [10, 20])" if "i < 2" for i
    using reader.ctx_read_inside [OF rd, of i 1] that rs [OF that]
    by (simp add: decode_record_def example_chunk_def decode_chunk_def)
  have es: "element_size example_dataset = 1" by (simp add: element_size_def example_dataset_def)
  have "shapes_ok [2] [1] (hyperslab_all [2]) 1"
    by (simp add: shapes_ok_def slab_ok_def hyperslab_all_def u64_max_def isize_max_def)
  moreover have "chunks_stored store_codecs ?ctx [10, 20] [] 1 1 [example_chunk 0, example_chunk 1]"
    using dec [of 0] dec [of 1] rs by (simp add: chunks_stored_def) (simp add: example_chunk_def)
  moreover have "cache_state_valid store_codecs ?ctx [] 1 [example_chunk 0, example_chunk 1] warm_cache"
    using dec [of 0] dec [of 1] by (simp add: cache_state_valid_def cache_valid_def warm_cache_def u64_max_def)
      (simp add: example_chunk_def slice_def)
  ultimately have "chunked_intact store_codecs ?ctx [10, 20] example_dataset [example_chunk 0, example_chunk 1] [1] (hyperslab_all [2]) warm_cache"
    using dec [of 0] dec [of 1] by (simp add: chunked_intact_def es decodes_def isize_max_def u64_max_def) (simp add: example_dataset_def)
  then show ?thesis by (simp add: dataset_intact_def example_dataset_def dataset_chunks_def example_lock_def)
qed

theorem engines_agree_witness:
  "\<exists>raw st'. read_hyperslab_async_with id store_codecs (sync_as_async (memory_source [10, 20])) example_superblock LOCAL example_dataset
     example_lock (hyperslab_all [2]) (warm_cache, None) = (Ok raw, st') \<and>
     fst (read_hyperslab id store_codecs (new_ctx (memory_source [10, 20]) example_superblock) example_dataset (hyperslab_all [2])
       (example_lock, None)) = Ok raw"
proof -
  let ?ctx = "new_ctx (memory_source [10, 20]) example_superblock"
  have "byte_source (memory_source [10, 20]) [10, 20]" by (rule byte_source_memory) (simp add: isize_max_def)
  then have rd: "reader ?ctx [10, 20]" by (simp add: reader_def new_ctx_def cache_ok_def)
  have c: "cache_ok None [10, 20]" "only_evicts id" by (simp_all add: cache_ok_def only_evicts_def)
  have v: "validate (hyperslab_all [2]) (ds_shape example_dataset) = Inr ()" "\<forall>d \<in> set (ds_shape example_dataset). d \<le> u64_max"
    "prod_list (ds_shape example_dataset) \<le> u64_max" "prod_list (cnt (hyperslab_all [2])) * element_size example_dataset \<le> isize_max"
    "is_decodable (ds_datatype example_dataset)" "0 < element_size example_dataset"
    by (simp_all add: validate_def hyperslab_all_def checked_add_def u64_max_def isize_max_def example_dataset_def element_size_def)
  have "async_ready id example_dataset example_lock [example_chunk 0, example_chunk 1] (hyperslab_all [2]) warm_cache"
    by (simp add: async_ready_def example_dataset_def example_lock_def no_loss_def u64_max_def) (simp add: example_chunk_def)
  from engines_agree [OF example_async rd c v example_intact this, of LOCAL] show ?thesis by (auto simp: new_ctx_def)
qed

definition drop_first :: eviction where
  "drop_first m = (if m 1 = None then m else m(0 := None))"


text \<open>
  A damaged index: the only record has two offsets for a dataset of one axis.  The synchronous read
  rejects the index; the asynchronous read passes over the record and returns the fill value.
\<close>

definition wrong_rank_chunk :: chunk_record where
  "wrong_rank_chunk = \<lparr>chunk_size = 1, filter_mask = 0, chunk_offset = [0, 0], chunk_address = 0\<rparr>"

theorem wrong_rank_passed_over:
  "fst (read_chunked evict cs ctx example_dataset [wrong_rank_chunk] [1] [0, 0] (hyperslab_all [2]) 1 None) =
     Error (Malformed ''chunk index entry has the wrong rank'') \<and>
   async_read_chunked evict cs src sb io example_dataset [wrong_rank_chunk] [1] [0, 0] (hyperslab_all [2]) 1 st = (Ok [0, 0], st)"
proof
  have e: "length (ds_shape example_dataset) = 1" "length [1 :: nat] = 1" "strides (cnt (hyperslab_all [2])) = Ok [1]" "strides [1] = Ok [1]"
    by (simp_all add: example_dataset_def hyperslab_all_def)
  have l: "decoded_chunk_len [1] 1 = Ok 1"
    by (simp add: decoded_chunk_len_def element_count_eq checked_mul_def u64_max_def)
  show "fst (read_chunked evict cs ctx example_dataset [wrong_rank_chunk] [1] [0, 0] (hyperslab_all [2]) 1 None) =
     Error (Malformed ''chunk index entry has the wrong rank'')"
    unfolding read_chunked_def Let_def e l then_st_simps by (simp add: wrong_rank_chunk_def)
  have n: "needed_chunks [wrong_rank_chunk] [1] (hyperslab_all [2]) 1 = []"
    by (simp add: needed_chunks_def wrong_rank_chunk_def)
  show "async_read_chunked evict cs src sb io example_dataset [wrong_rank_chunk] [1] [0, 0] (hyperslab_all [2]) 1 st = (Ok [0, 0], st)"
    unfolding async_read_chunked_def Let_def e l then_st_simps n by (simp add: async_wanted_def fetch_chunks_def)
qed

end
